(* ===== verification/Prelude.thy ===== *)
theory Prelude
  imports Main "HOL-Library.Word"
begin

text \<open>
  Shared vocabulary of the development: the machine types of the Go sources, the
  outcomes of a Go call (a value, a returned error, a run-time panic), slices with
  their bounds checks, and the lemmas on bytes, words and lists that the component
  theories use.

  A Go \<^verbatim>\<open>[]byte\<close> or \<^verbatim>\<open>string\<close> is a list of bytes. \<^verbatim>\<open>int\<close> is the 64-bit
  \<^verbatim>\<open>int\<close> of the amd64 build; where no overflow can happen it is a \<^typ>\<open>nat\<close> or
  an \<^typ>\<open>int\<close>.
\<close>

unbundle bit_operations_syntax

section \<open>Machine types\<close>

type_synonym byte = "8 word"
type_synonym u16 = "16 word"
type_synonym u32 = "32 word"
type_synonym u64 = "64 word"
type_synonym bytes = "byte list"

section \<open>Outcomes of a Go call\<close>

text \<open>
  An error value of the sources: the sentinel \<^verbatim>\<open>io.EOF\<close> and
  \<^verbatim>\<open>io.ErrUnexpectedEOF\<close>, an error of the network connection, or an error made
  with \<^verbatim>\<open>fmt.Errorf\<close>, identified by the constant part of its format string.
\<close>

datatype go_error = EOF | ErrUnexpectedEOF | NetError | Errorf string

text \<open>A run-time panic, by its cause.\<close>

datatype go_panic =
    IndexOutOfRange
  | SliceOutOfRange
  | NilDereference
  | TypeAssertion
  | DivideByZero
  | ClosedChannel

text \<open>
  What can take the place of a result: a returned error, a panic, or the model's own
  marker that the fuel of a recursion ran out (shown not to occur where fuel is used).
\<close>

datatype exn = Err go_error | Panic go_panic | OutOfFuel

type_synonym 'a res = "exn + 'a"

definition bindR :: "'a res \<Rightarrow> ('a \<Rightarrow> 'b res) \<Rightarrow> 'b res" where
  "bindR m f = (case m of Inl e \<Rightarrow> Inl e | Inr x \<Rightarrow> f x)"

lemma bindR_simps [simp]:
  "bindR (Inl e) f = Inl e"
  "bindR (Inr x) f = f x"
  by (simp_all add: bindR_def)

lemma bindR_cong [fundef_cong]:
  "m = m' \<Longrightarrow> (\<And>x. m' = Inr x \<Longrightarrow> f x = f' x) \<Longrightarrow> bindR m f = bindR m' f'"
  by (cases m') (auto simp: bindR_def)

lemma bindR_eq_Inr [simp]: "bindR m f = Inr y \<longleftrightarrow> (\<exists>x. m = Inr x \<and> f x = Inr y)"
  by (cases m) auto

lemma bindR_eq_Inl:
  "bindR m f = Inl e \<longleftrightarrow> m = Inl e \<or> (\<exists>x. m = Inr x \<and> f x = Inl e)"
  by (cases m) auto

text \<open>\<^verbatim>\<open>fmt.Errorf("...: %s", err)\<close>: an error is replaced, a panic is not.\<close>

definition wrapR :: "string \<Rightarrow> 'a res \<Rightarrow> 'a res" where
  "wrapR s m = (case m of Inl (Err e) \<Rightarrow> Inl (Err (Errorf s)) | _ \<Rightarrow> m)"

lemma wrapR_simps [simp]:
  "wrapR s (Inr x) = Inr x"
  "wrapR s (Inl (Err e)) = Inl (Err (Errorf s))"
  "wrapR s (Inl (Panic p)) = Inl (Panic p)"
  "wrapR s (Inl OutOfFuel) = Inl OutOfFuel"
  by (simp_all add: wrapR_def)

lemma wrapR_eq_Inr [simp]: "wrapR s m = Inr x \<longleftrightarrow> m = Inr x"
  by (auto simp: wrapR_def split: sum.splits exn.splits)

lemma wrapR_eq_OutOfFuel [simp]: "wrapR s m = Inl OutOfFuel \<longleftrightarrow> m = Inl OutOfFuel"
  by (auto simp: wrapR_def split: sum.splits exn.splits)

lemma wrapR_cong [fundef_cong]: "m = m' \<Longrightarrow> wrapR s m = wrapR s m'"
  by simp

section \<open>Slices\<close>

text \<open>\<^verbatim>\<open>b[i]\<close> and \<^verbatim>\<open>b[i:j]\<close> with Go's bounds checks.\<close>

definition index_at :: "'a list \<Rightarrow> nat \<Rightarrow> 'a res" where
  "index_at xs i = (if i < length xs then Inr (xs ! i) else Inl (Panic IndexOutOfRange))"

definition slice :: "'a list \<Rightarrow> nat \<Rightarrow> nat \<Rightarrow> 'a list res" where
  "slice xs i j =
     (if i \<le> j \<and> j \<le> length xs then Inr (take (j - i) (drop i xs))
      else Inl (Panic SliceOutOfRange))"

text \<open>\<^verbatim>\<open>copy(dst[i:], src)\<close>: as many elements as both sides have.\<close>

definition copy_at :: "'a list \<Rightarrow> nat \<Rightarrow> 'a list \<Rightarrow> 'a list" where
  "copy_at dst i src = take i dst @ take (length dst - i) src @ drop (i + length src) dst"

lemma slice_Inr_iff [simp]:
  "slice xs i j = Inr ys \<longleftrightarrow> i \<le> j \<and> j \<le> length xs \<and> ys = take (j - i) (drop i xs)"
  by (auto simp: slice_def)

lemma index_at_Inr_iff [simp]: "index_at xs i = Inr x \<longleftrightarrow> i < length xs \<and> x = xs ! i"
  by (auto simp: index_at_def)

lemma length_copy_at [simp]: "i \<le> length dst \<Longrightarrow> length (copy_at dst i src) = length dst"
  by (simp add: copy_at_def)

lemma copy_at_exact: "length src = length dst - i \<Longrightarrow> copy_at dst i src = take i dst @ src"
  by (simp add: copy_at_def)

lemma nth_copy_at:
  "i + length src \<le> length dst \<Longrightarrow> j < length dst \<Longrightarrow>
   copy_at dst i src ! j = (if i \<le> j \<and> j < i + length src then src ! (j - i) else dst ! j)"
  by (auto simp: copy_at_def nth_append)

section \<open>Bytes and words\<close>

lemma byte_of_word_of_byte: "(ucast (ucast (x :: 'a::len word) :: byte) :: 'a word) = take_bit 8 x"
  by (rule bit_word_eqI) (auto simp: bit_simps)

text \<open>One step of a big-endian join: shift the accumulator, add the next byte.\<close>

lemma join_step:
  "(push_bit 8 (take_bit k (drop_bit (m + 8) v)) OR take_bit 8 (drop_bit m v)) =
   (take_bit (k + 8) (drop_bit m v) :: 'a::len word)"
  by (rule bit_word_eqI) (auto simp: bit_simps add.commute add.left_commute not_less)

lemma take_bit_full_word: "LENGTH('a) \<le> n \<Longrightarrow> take_bit n (w :: 'a::len word) = w"
  by (rule bit_word_eqI) (auto simp: bit_simps)

lemma take_bit_self: "unat v < 2 ^ n \<Longrightarrow> take_bit n (v :: 'a::len word) = v"
  by (simp add: word_unat_eq_iff unsigned_take_bit_eq take_bit_nat_eq_self_iff)

text \<open>The unsigned value of a big-endian byte string, and the bytes of a value.\<close>

definition be_word :: "bytes \<Rightarrow> 'a::len word" where
  "be_word bs = foldl (\<lambda>a b. push_bit 8 a + ucast b) 0 bs"

fun be_bytes :: "nat \<Rightarrow> 'a::len word \<Rightarrow> bytes" where
  "be_bytes 0 v = []"
| "be_bytes (Suc n) v = ucast (drop_bit (8 * n) v) # be_bytes n v"

lemma length_be_bytes [simp]: "length (be_bytes n v) = n"
  by (induction n) auto

lemma be_word_snoc: "be_word (bs @ [b]) = push_bit 8 (be_word bs) + ucast b"
  by (simp add: be_word_def)

lemma be_word_Nil [simp]: "be_word [] = 0"
  by (simp add: be_word_def)

lemma be_bytes_snoc: "be_bytes (Suc n) v = be_bytes n (drop_bit 8 v) @ [ucast v]"
  by (induction n) (auto simp: drop_bit_drop_bit add.commute)

lemma push8_plus_byte:
  "push_bit 8 a + take_bit 8 b = (push_bit 8 a OR take_bit 8 b :: 'a::len word)"
  by (rule disjunctive_add) (simp add: bit_simps)

lemma be_word_be_bytes: "be_word (be_bytes n v) = take_bit (8 * n) (v :: 'a::len word)"
proof (induction n arbitrary: v)
  case (Suc n)
  have "be_word (be_bytes (Suc n) v) =
        (push_bit 8 (take_bit (8 * n) (drop_bit 8 v)) + take_bit 8 v :: 'a word)"
    unfolding be_bytes_snoc be_word_snoc by (simp add: Suc byte_of_word_of_byte)
  also have "\<dots> = take_bit (8 * n + 8) v"
    using join_step [of "8 * n" 0 v] by (simp add: push8_plus_byte)
  finally show ?case by (simp add: add.commute)
qed simp

text \<open>Little-endian bytes.\<close>

fun le_bytes :: "nat \<Rightarrow> 'a::len word \<Rightarrow> bytes" where
  "le_bytes 0 v = []"
| "le_bytes (Suc n) v = ucast v # le_bytes n (drop_bit 8 v)"

lemma length_le_bytes [simp]: "length (le_bytes n v) = n"
  by (induction n arbitrary: v) auto

lemma rev_be_bytes: "rev (be_bytes n v) = le_bytes n v"
  by (induction n arbitrary: v) (simp, simp only: be_bytes_snoc rev_append, simp)

lemma take_bit_split_byte:
  "take_bit 8 v + push_bit 8 (take_bit n (drop_bit 8 v)) = (take_bit (n + 8) v :: 'a::len word)"
  using join_step [of n 0 v] push8_plus_byte [of "take_bit n (drop_bit 8 v)" v]
  by (simp add: add.commute)

lemma byte_and_255 [simp]: "b AND 0xff = (b :: byte)"
proof -
  have "(0xff :: byte) = - 1" by simp
  then show ?thesis by (simp only: and.right_neutral)
qed

text \<open>\<^verbatim>\<open>binary.BigEndian.Uint32\<close> of the standard library: it reads the first four bytes.\<close>

definition BigEndian_Uint32 :: "bytes \<Rightarrow> u32 res" where
  "BigEndian_Uint32 b =
     (if length b < 4 then Inl (Panic IndexOutOfRange) else Inr (be_word (take 4 b)))"

text \<open>A call whose returned error is discarded: a panic still propagates.\<close>

definition ignore_err :: "exn option \<Rightarrow> exn option" where
  "ignore_err e = (case e of Some (Err _) \<Rightarrow> None | _ \<Rightarrow> e)"

lemma ignore_err_simps [simp]:
  "ignore_err None = None"
  "ignore_err (Some (Err e)) = None"
  "ignore_err (Some (Panic p)) = Some (Panic p)"
  by (simp_all add: ignore_err_def)

text \<open>Whether a call ended in a panic.\<close>

definition is_panic :: "exn option \<Rightarrow> bool" where
  "is_panic e \<longleftrightarrow> (\<exists>x. e = Some (Panic x))"

lemma is_panic_simps [simp]:
  "\<not> is_panic None" "\<not> is_panic (Some (Err e))" "\<not> is_panic (map_option Err x)"
  by (auto simp: is_panic_def)

section \<open>Strings\<close>

text \<open>A string constant of the sources as bytes.\<close>

definition gostr :: "string \<Rightarrow> bytes" where
  "gostr s = map of_char s"

text \<open>The decimal digits of \<^verbatim>\<open>%d\<close>.\<close>

fun decimal :: "nat \<Rightarrow> bytes" where
  "decimal n = (if n < 10 then [word_of_nat (48 + n)] else decimal (n div 10) @ [word_of_nat (48 + n mod 10)])"

declare decimal.simps [simp del]

definition decimal_int :: "int \<Rightarrow> bytes" where
  "decimal_int n = (if n < 0 then gostr ''-'' @ decimal (nat (- n)) else decimal (nat n))"

text \<open>Reading the digits back.\<close>

definition undecimal :: "bytes \<Rightarrow> nat" where
  "undecimal bs = foldl (\<lambda>n b. 10 * n + (unat b - 48)) 0 bs"

lemma unat_digit [simp]: "d < 10 \<Longrightarrow> unat (word_of_nat (48 + d) :: byte) = 48 + d"
  by (simp add: unsigned_of_nat take_bit_nat_eq_self_iff del: of_nat_add)

lemma undecimal_decimal [simp]: "undecimal (decimal n) = n"
proof (induction n rule: decimal.induct)
  case (1 n)
  show ?case
  proof (cases "n < 10")
    case True
    then show ?thesis by (simp add: undecimal_def decimal.simps del: of_nat_add)
  next
    case False
    then have "undecimal (decimal n) = 10 * undecimal (decimal (n div 10)) + n mod 10"
      by (simp add: undecimal_def decimal.simps [of n] del: of_nat_add)
    with 1 False show ?thesis by simp
  qed
qed

lemma decimal_inject [simp]: "decimal m = decimal n \<longleftrightarrow> m = n"
  by (metis undecimal_decimal)

section \<open>Writers\<close>

text \<open>
  An \<^verbatim>\<open>io.Writer\<close>: the bytes it has taken and the number of bytes it will still take (\<open>None\<close>:
  any number, as a \<^verbatim>\<open>bytes.Buffer\<close>). \<open>sink_Writes\<close> is a sequence of writes, each followed by
  \<^verbatim>\<open>if err != nil { return err }\<close>.
\<close>

record sink =
  sk_out :: bytes
  sk_cap :: "nat option"

definition sink_Write :: "bytes \<Rightarrow> sink \<Rightarrow> go_error option \<times> sink" where
  "sink_Write p k =
     (case sk_cap k of
        None \<Rightarrow> (None, k\<lparr>sk_out := sk_out k @ p\<rparr>)
      | Some n \<Rightarrow>
          if length p \<le> n then (None, k\<lparr>sk_out := sk_out k @ p, sk_cap := Some (n - length p)\<rparr>)
          else (Some NetError, k\<lparr>sk_out := sk_out k @ take n p, sk_cap := Some 0\<rparr>))"

fun sink_Writes :: "bytes list \<Rightarrow> sink \<Rightarrow> go_error option \<times> sink" where
  "sink_Writes [] k = (None, k)"
| "sink_Writes (p # ps) k =
     (case sink_Write p k of (Some e, k) \<Rightarrow> (Some e, k) | (None, k) \<Rightarrow> sink_Writes ps k)"

lemma sink_Write_unlimited [simp]:
  "sk_cap k = None \<Longrightarrow> sink_Write p k = (None, k\<lparr>sk_out := sk_out k @ p\<rparr>)"
  by (simp add: sink_Write_def)

lemma sink_Writes_unlimited [simp]:
  "sk_cap k = None \<Longrightarrow> sink_Writes ps k = (None, k\<lparr>sk_out := sk_out k @ concat ps\<rparr>)"
  by (induction ps arbitrary: k) simp_all

end
