(* ===== verification/Av.thy ===== *)
theory Av
  imports Prelude
begin

text \<open>
  \<^verbatim>\<open>src/av\<close>: the packet type shared by all protocols (\<^verbatim>\<open>av.go\<close>) and the timestamp and
  liveness bookkeeping every reader and writer embeds (\<^verbatim>\<open>rwbase.go\<close>). The header of a
  packet is an interface value; its only implementation is \<^verbatim>\<open>*flv.Tag\<close>, so the type of
  the header is a parameter here and \<open>None\<close> is the nil interface. The clock is an
  argument of the operations that call \<^verbatim>\<open>time.Now()\<close> (nanoseconds, as an integer).
\<close>

section \<open>av.go\<close>

abbreviation TagAudio :: "'a::len word" where "TagAudio \<equiv> 8"
abbreviation TagVideo :: "'a::len word" where "TagVideo \<equiv> 9"
abbreviation TagScriptDataAMF0 :: "'a::len word" where "TagScriptDataAMF0 \<equiv> 18"
abbreviation TagScriptDataAMF3 :: "'a::len word" where "TagScriptDataAMF3 \<equiv> 0xf"

abbreviation SoundMP3 :: byte where "SoundMP3 \<equiv> 2"
abbreviation SoundAAC :: byte where "SoundAAC \<equiv> 10"
abbreviation AACSeqHeader :: byte where "AACSeqHeader \<equiv> 0"
abbreviation AACRaw :: byte where "AACRaw \<equiv> 1"
abbreviation AVCSeqHeader :: byte where "AVCSeqHeader \<equiv> 0"
abbreviation AVCNalu :: byte where "AVCNalu \<equiv> 1"
abbreviation AVCEos :: byte where "AVCEos \<equiv> 2"
abbreviation FrameKey :: byte where "FrameKey \<equiv> 1"
abbreviation FrameInter :: byte where "FrameInter \<equiv> 2"
abbreviation VideoH264 :: byte where "VideoH264 \<equiv> 7"

record 'h Packet =
  IsAudio :: bool
  IsVideo :: bool
  IsMetadata :: bool
  TimeStamp :: u32
  pkt_StreamID :: u32
  Header :: "'h option"
  pkt_Data :: bytes

record Info =
  Key :: bytes
  URL :: bytes
  UID :: bytes
  Inter :: bool

definition IsInterval :: "Info \<Rightarrow> bool" where
  "IsInterval info = Inter info"

text \<open>The form of an \<^verbatim>\<open>Info\<close> in the log.\<close>

definition info_String :: "Info \<Rightarrow> bytes" where
  "info_String info =
     gostr ''<key: '' @ Key info @ gostr '', URL: '' @ URL info @ gostr '', UID: '' @ UID info @
       gostr '', Inter: '' @ (if Inter info then gostr ''true'' else gostr ''false'') @ gostr ''>''"

section \<open>rwbase.go\<close>

record RWBase =
  timeout :: int
  preTime :: int
  baseTimestamp :: u32
  lastVideoTimestamp :: u32
  lastAudioTimestamp :: u32

definition NewRWBase :: "int \<Rightarrow> int \<Rightarrow> RWBase" where
  "NewRWBase now d = \<lparr>timeout = d, preTime = now, baseTimestamp = 0,
     lastVideoTimestamp = 0, lastAudioTimestamp = 0\<rparr>"

definition BaseTimestamp :: "RWBase \<Rightarrow> u32" where
  "BaseTimestamp rw = baseTimestamp rw"

definition CalcBaseTimestamp :: "RWBase \<Rightarrow> RWBase" where
  "CalcBaseTimestamp rw =
     (if lastAudioTimestamp rw > lastVideoTimestamp rw
      then rw\<lparr>baseTimestamp := lastAudioTimestamp rw\<rparr>
      else rw\<lparr>baseTimestamp := lastVideoTimestamp rw\<rparr>)"

definition RecTimestamp :: "u32 \<Rightarrow> u32 \<Rightarrow> RWBase \<Rightarrow> RWBase" where
  "RecTimestamp ts typeID rw =
     (if typeID = TagVideo then rw\<lparr>lastVideoTimestamp := ts\<rparr>
      else if typeID = TagAudio then rw\<lparr>lastAudioTimestamp := ts\<rparr>
      else rw)"

definition SetPreTime :: "int \<Rightarrow> RWBase \<Rightarrow> RWBase" where
  "SetPreTime now rw = rw\<lparr>preTime := now\<rparr>"

definition Alive :: "int \<Rightarrow> RWBase \<Rightarrow> bool" where
  "Alive now rw \<longleftrightarrow> \<not> (now - preTime rw \<ge> timeout rw)"

section \<open>Properties\<close>

text \<open>The last recorded timestamp of a kind of packet, over a history of records.\<close>

definition last_ts :: "u32 \<Rightarrow> (u32 \<times> u32) list \<Rightarrow> u32 \<Rightarrow> u32" where
  "last_ts kind h d = (case filter (\<lambda>(_, k). k = kind) h of [] \<Rightarrow> d | r # rs \<Rightarrow> fst (last (r # rs)))"

definition rec_all :: "(u32 \<times> u32) list \<Rightarrow> RWBase \<Rightarrow> RWBase" where
  "rec_all h rw = fold (\<lambda>(ts, k). RecTimestamp ts k) h rw"

lemma last_ts_Nil [simp]: "last_ts k [] d = d"
  by (simp add: last_ts_def)

lemma last_ts_Cons [simp]:
  "last_ts k ((ts, k') # h) d = last_ts k h (if k' = k then ts else d)"
  by (auto simp: last_ts_def split: list.splits)

lemma rec_all_state:
  "lastVideoTimestamp (rec_all h rw) = last_ts TagVideo h (lastVideoTimestamp rw) \<and>
   lastAudioTimestamp (rec_all h rw) = last_ts TagAudio h (lastAudioTimestamp rw) \<and>
   baseTimestamp (rec_all h rw) = baseTimestamp rw \<and>
   timeout (rec_all h rw) = timeout rw \<and> preTime (rec_all h rw) = preTime rw"
  by (induction h arbitrary: rw) (auto simp: rec_all_def RecTimestamp_def split: if_splits)

text \<open>
  After any history of recorded timestamps, the base timestamp that a writer moved to a
  new publisher continues from is the later of the last video and the last audio timestamp;
  script-data records do not move it.
\<close>

theorem base_timestamp_is_latest:
  "BaseTimestamp (CalcBaseTimestamp (rec_all h (NewRWBase now d))) =
   max (last_ts TagVideo h 0) (last_ts TagAudio h 0)"
  using rec_all_state [of h "NewRWBase now d"]
  by (auto simp: BaseTimestamp_def CalcBaseTimestamp_def NewRWBase_def max_def)

text \<open>A reader or writer is alive for strictly less than its timeout after its last packet.\<close>

lemma alive_window:
  "Alive now (rec_all h (SetPreTime t rw)) \<longleftrightarrow> now < t + timeout rw"
  using rec_all_state [of h "SetPreTime t rw"] by (auto simp: Alive_def SetPreTime_def)

end
