(* ===== verification/Pool.thy ===== *)
theory Pool
  imports Prelude
begin

text \<open>
  \<^verbatim>\<open>src/utils/pool/pool.go\<close>: the byte pool a connection cuts its message buffers from.
  A slice handed out by \<^verbatim>\<open>Get\<close> is a region of one of the arrays the pool has
  allocated; the arrays are numbered in the order of their allocation, and the position
  is the \<^verbatim>\<open>pos\<close> field. The contents of an array are not part of the state: a fresh
  region holds zeros, and the main lemma shows that a region is handed out once only.
\<close>

definition maxpoolsize :: nat where
  "maxpoolsize = 500 * 1024"

record Pool =
  pool_pos :: nat
  pool_buf :: nat

record region =
  rg_buf :: nat
  rg_off :: nat
  rg_len :: nat

definition NewPool :: Pool where
  "NewPool = \<lparr>pool_pos = 0, pool_buf = 0\<rparr>"

definition pool_Get :: "Pool \<Rightarrow> nat \<Rightarrow> (Pool \<times> region) res" where
  "pool_Get p n =
     (let p' = (if int maxpoolsize - int (pool_pos p) < int n
                then p\<lparr>pool_pos := 0, pool_buf := Suc (pool_buf p)\<rparr> else p)
      in if pool_pos p' + n \<le> maxpoolsize
         then Inr (p'\<lparr>pool_pos := pool_pos p' + n\<rparr>,
                   \<lparr>rg_buf = pool_buf p', rg_off = pool_pos p', rg_len = n\<rparr>)
         else Inl (Panic SliceOutOfRange))"

text \<open>A run of requests, in the order they are made; a panic ends the run.\<close>

fun pool_run :: "Pool \<Rightarrow> nat list \<Rightarrow> (Pool \<times> region list) res" where
  "pool_run p [] = Inr (p, [])"
| "pool_run p (n # ns) =
     bindR (pool_Get p n) (\<lambda>(p', r). bindR (pool_run p' ns) (\<lambda>(p'', rs). Inr (p'', r # rs)))"

definition pool_inv :: "Pool \<Rightarrow> bool" where
  "pool_inv p \<longleftrightarrow> pool_pos p \<le> maxpoolsize"

text \<open>The regions still to come lie beyond the pool's position.\<close>

definition pool_fresh :: "Pool \<Rightarrow> region \<Rightarrow> bool" where
  "pool_fresh p r \<longleftrightarrow>
     pool_buf p < rg_buf r \<or> (rg_buf r = pool_buf p \<and> pool_pos p \<le> rg_off r)"

definition disjoint_regions :: "region \<Rightarrow> region \<Rightarrow> bool" where
  "disjoint_regions r s \<longleftrightarrow>
     rg_buf r \<noteq> rg_buf s \<or> rg_off r + rg_len r \<le> rg_off s \<or> rg_off s + rg_len s \<le> rg_off r"

lemma NewPool_inv [simp]: "pool_inv NewPool"
  by (simp add: pool_inv_def NewPool_def)

lemma pool_Get_Inr:
  assumes "pool_Get p n = Inr (p', r)"
  shows "n \<le> maxpoolsize" and "rg_len r = n" and "rg_off r + n \<le> maxpoolsize"
    and "pool_inv p'" and "pool_fresh p r"
    and "pool_buf p' = rg_buf r" and "pool_pos p' = rg_off r + n"
  using assms
  by (auto simp: pool_Get_def pool_inv_def pool_fresh_def Let_def split: if_splits)

lemma pool_Get_fits:
  "pool_inv p \<Longrightarrow> n \<le> maxpoolsize \<Longrightarrow> \<exists>p' r. pool_Get p n = Inr (p', r)"
  by (auto simp: pool_Get_def pool_inv_def Let_def)

lemma pool_Get_too_big: "maxpoolsize < n \<Longrightarrow> pool_Get p n = Inl (Panic SliceOutOfRange)"
  by (auto simp: pool_Get_def Let_def)

lemma pool_fresh_Get:
  "pool_Get p n = Inr (p', r) \<Longrightarrow> pool_fresh p' s \<Longrightarrow> pool_fresh p s \<and> disjoint_regions r s"
  by (auto simp: pool_Get_def pool_fresh_def disjoint_regions_def Let_def split: if_splits)

lemma pool_run_fresh: "pool_run p ns = Inr (p', rs) \<Longrightarrow> r \<in> set rs \<Longrightarrow> pool_fresh p r"
proof (induction ns arbitrary: p rs)
  case (Cons n ns)
  then obtain p1 r1 rs' where g: "pool_Get p n = Inr (p1, r1)"
    and run: "pool_run p1 ns = Inr (p', rs')" and rs: "rs = r1 # rs'" by auto
  show ?case
  proof (cases "r \<in> set rs'")
    case True
    with Cons.IH [OF run] pool_fresh_Get [OF g] show ?thesis by blast
  next
    case False
    with Cons.prems rs pool_Get_Inr(5) [OF g] show ?thesis by simp
  qed
qed simp

lemma pool_run_disjoint_aux:
  "pool_run p ns = Inr (p', rs) \<Longrightarrow>
   map rg_len rs = ns \<and> (\<forall>r \<in> set rs. rg_off r + rg_len r \<le> maxpoolsize) \<and>
   sorted_wrt disjoint_regions rs"
proof (induction ns arbitrary: p rs)
  case (Cons n ns)
  then obtain p1 r rs' where g: "pool_Get p n = Inr (p1, r)"
    and run: "pool_run p1 ns = Inr (p', rs')" and rs: "rs = r # rs'" by auto
  have "disjoint_regions r s" if "s \<in> set rs'" for s
    using pool_fresh_Get [OF g] pool_run_fresh [OF run that] by blast
  with Cons.IH [OF run] pool_Get_Inr(2,3) [OF g] rs show ?case by auto
qed simp

text \<open>
  C15: the slices the pool hands out in a run of requests have the requested lengths, lie
  inside their array, and no two of them share a byte. A message buffer is therefore never
  overwritten by the buffer of a later message.
\<close>

theorem pool_regions_disjoint:
  "pool_run NewPool ns = Inr (p', rs) \<Longrightarrow>
   map rg_len rs = ns \<and> (\<forall>r \<in> set rs. rg_off r + rg_len r \<le> maxpoolsize) \<and>
   (\<forall>i j. i < j \<longrightarrow> j < length rs \<longrightarrow> disjoint_regions (rs ! i) (rs ! j))"
  using pool_run_disjoint_aux by (blast dest: sorted_wrt_nth_less)

theorem pool_regions_disjoint_witness:
  "\<exists>p' rs. pool_run NewPool [300000, 300000, 4] = Inr (p', rs) \<and>
     disjoint_regions (rs ! 0) (rs ! 1) \<and> rg_buf (rs ! 1) = 1"
proof -
  have run: "pool_run NewPool [300000, 300000, 4] =
    Inr (\<lparr>pool_pos = 300004, pool_buf = 1\<rparr>,
         [\<lparr>rg_buf = 0, rg_off = 0, rg_len = 300000\<rparr>, \<lparr>rg_buf = 1, rg_off = 0, rg_len = 300000\<rparr>,
          \<lparr>rg_buf = 1, rg_off = 300000, rg_len = 4\<rparr>])"
    by (simp add: pool_Get_def NewPool_def maxpoolsize_def Let_def)
  show ?thesis
    using pool_regions_disjoint [OF run, THEN conjunct2, THEN conjunct2, rule_format, of 0 1] run
    by auto
qed

text \<open>
  A run of requests succeeds exactly when every request fits an array; a larger request
  panics. \<^verbatim>\<open>readChunk\<close> asks for the message length announced by the peer.
\<close>

theorem pool_run_total:
  "(\<exists>p' rs. pool_run NewPool ns = Inr (p', rs)) \<longleftrightarrow> list_all (\<lambda>n. n \<le> maxpoolsize) ns"
proof -
  have "(\<exists>p' rs. pool_run p ns = Inr (p', rs)) \<longleftrightarrow> list_all (\<lambda>n. n \<le> maxpoolsize) ns"
    if "pool_inv p" for p
    using that
  proof (induction ns arbitrary: p)
    case (Cons n ns)
    show ?case
    proof (cases "n \<le> maxpoolsize")
      case True
      obtain p' r where g: "pool_Get p n = Inr (p', r)"
        using pool_Get_fits [OF Cons.prems True] by blast
      from Cons.IH [OF pool_Get_Inr(4) [OF g]] True g show ?thesis by auto
    next
      case False
      then show ?thesis by (auto simp: pool_Get_too_big)
    qed
  qed simp
  then show ?thesis by simp
qed

end
