(* ===== verification/ReadWriter.thy ===== *)
theory ReadWriter
  imports Prelude
begin

text \<open>
  \<^verbatim>\<open>src/protocol/rtmp/core/read_writer.go\<close>: the buffered reader and writer of an RTMP
  connection with its sticky error fields.

  The reading side is the sequence of bytes the peer will still deliver and the error the
  transport reports after them (\<^verbatim>\<open>io.EOF\<close>, or a network error such as an expired
  deadline). The writing side is Go's \<^verbatim>\<open>bufio.Writer\<close>: a buffer of a given size in
  front of the connection, which accepts a number of bytes (\<open>None\<close>: all of them) before
  it fails, and a sticky error. \<open>bw_sent\<close> is what has reached the connection.
\<close>

unbundle bit_operations_syntax

section \<open>The standard library's bufio.Writer and bufio.Reader\<close>

record BufWriter =
  bw_buf :: bytes
  bw_size :: nat
  bw_err :: "go_error option"
  bw_sent :: bytes
  bw_cap :: "nat option"

text \<open>\<^verbatim>\<open>net.Conn.Write\<close>: the number of bytes taken, and an error when it is not all.\<close>

definition conn_write :: "bytes \<Rightarrow> BufWriter \<Rightarrow> nat \<times> go_error option \<times> BufWriter" where
  "conn_write p w =
     (case bw_cap w of
        None \<Rightarrow> (length p, None, w\<lparr>bw_sent := bw_sent w @ p\<rparr>)
      | Some k \<Rightarrow>
          if length p \<le> k
          then (length p, None, w\<lparr>bw_sent := bw_sent w @ p, bw_cap := Some (k - length p)\<rparr>)
          else (k, Some NetError, w\<lparr>bw_sent := bw_sent w @ take k p, bw_cap := Some 0\<rparr>))"

definition bufw_Available :: "BufWriter \<Rightarrow> nat" where
  "bufw_Available w = bw_size w - length (bw_buf w)"

definition bufw_Flush :: "BufWriter \<Rightarrow> go_error option \<times> BufWriter" where
  "bufw_Flush w =
     (case bw_err w of
        Some e \<Rightarrow> (Some e, w)
      | None \<Rightarrow>
          if bw_buf w = [] then (None, w)
          else (case conn_write (bw_buf w) w of
                  (n, Some e, w') \<Rightarrow> (Some e, w'\<lparr>bw_buf := drop n (bw_buf w), bw_err := Some e\<rparr>)
                | (n, None, w') \<Rightarrow> (None, w'\<lparr>bw_buf := []\<rparr>)))"

definition bufw_WriteByte :: "byte \<Rightarrow> BufWriter \<Rightarrow> go_error option \<times> BufWriter" where
  "bufw_WriteByte b w =
     (case bw_err w of
        Some e \<Rightarrow> (Some e, w)
      | None \<Rightarrow>
          (case (if bufw_Available w = 0 then bufw_Flush w else (None, w)) of
             (Some e, w') \<Rightarrow> (Some e, w')
           | (None, w') \<Rightarrow> (None, w'\<lparr>bw_buf := bw_buf w' @ [b]\<rparr>)))"

text \<open>One round of the loop of \<^verbatim>\<open>Writer.Write\<close>: the rest of the data and the new state.\<close>

definition bufw_Write_step :: "bytes \<Rightarrow> BufWriter \<Rightarrow> bytes \<times> BufWriter" where
  "bufw_Write_step p w =
     (if bw_buf w = []
      then (case conn_write p w of (n, e, w') \<Rightarrow> (drop n p, w'\<lparr>bw_err := e\<rparr>))
      else (let n = min (length p) (bufw_Available w);
                w' = snd (bufw_Flush (w\<lparr>bw_buf := bw_buf w @ take n p\<rparr>))
            in (drop n p, w')))"

lemma conn_write_full:
  "conn_write p w = (n, None, w') \<Longrightarrow>
   n = length p \<and> bw_sent w' = bw_sent w @ p \<and> bw_buf w' = bw_buf w \<and> bw_err w' = bw_err w \<and>
   bw_size w' = bw_size w"
  by (auto simp: conn_write_def split: option.splits if_splits)

lemma bufw_Flush_ok:
  "bufw_Flush w = (None, w') \<Longrightarrow>
   bw_buf w' = [] \<and> bw_sent w' = bw_sent w @ bw_buf w \<and> bw_err w' = None \<and>
   bw_size w' = bw_size w"
  by (auto simp: bufw_Flush_def split: option.splits if_splits prod.splits dest!: conn_write_full)

lemma bufw_Flush_err: "bufw_Flush w = (Some e, w') \<Longrightarrow> bw_err w' = Some e"
  by (auto simp: bufw_Flush_def split: option.splits if_splits prod.splits)

text \<open>A round either ends with an error or leaves less to do.\<close>

definition write_measure :: "bytes \<Rightarrow> BufWriter \<Rightarrow> nat" where
  "write_measure p w =
     (if bw_err w = None then 1 + length p + (if bw_buf w = [] then 0 else 1) else 0)"

lemma bufw_Write_step_decreases:
  assumes "bufw_Write_step p w = (p', w')" and "bufw_Available w < length p" and "bw_err w = None"
  shows "write_measure p' w' < write_measure p w"
proof (cases "bw_err w' = None")
  case ok: True
  show ?thesis
  proof (cases "bw_buf w = []")
    case True
    then obtain n w1 where c: "conn_write p w = (n, None, w1)" and "p' = drop n p" "w' = w1\<lparr>bw_err := None\<rparr>"
      using assms(1) ok by (auto simp: bufw_Write_step_def split: prod.splits)
    with conn_write_full [OF c] True assms show ?thesis by (auto simp: write_measure_def)
  next
    case False
    let ?n = "min (length p) (bufw_Available w)"
    obtain r where r: "bufw_Flush (w\<lparr>bw_buf := bw_buf w @ take ?n p\<rparr>) = (r, w')" and p': "p' = drop ?n p"
      using assms(1) False by (auto simp: bufw_Write_step_def Let_def intro: prod.collapse [symmetric])
    from r ok have "r = None" by (cases r) (auto dest: bufw_Flush_err)
    with r bufw_Flush_ok have "bw_buf w' = []" by blast
    with p' False assms(3) ok show ?thesis by (auto simp: write_measure_def)
  qed
next
  case False
  with assms(3) show ?thesis by (auto simp: write_measure_def)
qed

function bufw_Write_loop :: "bytes \<Rightarrow> BufWriter \<Rightarrow> bytes \<times> BufWriter" where
  "bufw_Write_loop p w =
     (if length p > bufw_Available w \<and> bw_err w = None
      then (case bufw_Write_step p w of (p', w') \<Rightarrow> bufw_Write_loop p' w')
      else (p, w))"
  by pat_completeness auto
termination
  by (relation "measure (\<lambda>(p, w). write_measure p w)") (auto split: prod.splits intro: bufw_Write_step_decreases)

declare bufw_Write_loop.simps [simp del]

definition bufw_Write :: "bytes \<Rightarrow> BufWriter \<Rightarrow> go_error option \<times> BufWriter" where
  "bufw_Write p w =
     (case bufw_Write_loop p w of
        (p', w') \<Rightarrow> (case bw_err w' of
                       Some e \<Rightarrow> (Some e, w')
                     | None \<Rightarrow> (None, w'\<lparr>bw_buf := bw_buf w' @ p'\<rparr>)))"

section \<open>read\_writer.go\<close>

record ReadWriter =
  rd_in :: bytes
  rd_end :: go_error
  readError :: "go_error option"
  wr :: BufWriter
  writeError :: "go_error option"

definition NewReadWriter :: "bytes \<Rightarrow> go_error \<Rightarrow> nat option \<Rightarrow> nat \<Rightarrow> ReadWriter" where
  "NewReadWriter input fin cap bufSize =
     \<lparr>rd_in = input, rd_end = fin, readError = None,
      wr = \<lparr>bw_buf = [], bw_size = bufSize, bw_err = None, bw_sent = [], bw_cap = cap\<rparr>,
      writeError = None\<rparr>"

text \<open>\<^verbatim>\<open>Read(p)\<close> with \<^verbatim>\<open>n = len(p)\<close>: the bytes stored, the error, the new state.\<close>

definition rw_Read :: "nat \<Rightarrow> ReadWriter \<Rightarrow> bytes \<times> go_error option \<times> ReadWriter" where
  "rw_Read n rw =
     (case readError rw of
        Some e \<Rightarrow> ([], Some e, rw)
      | None \<Rightarrow>
          if n \<le> length (rd_in rw)
          then (take n (rd_in rw), None, rw\<lparr>rd_in := drop n (rd_in rw), readError := None\<rparr>)
          else (let e = (if rd_in rw \<noteq> [] \<and> rd_end rw = EOF then ErrUnexpectedEOF else rd_end rw)
                in (rd_in rw, Some e, rw\<lparr>rd_in := [], readError := Some e\<rparr>)))"

fun ReadUintBE_loop :: "nat \<Rightarrow> u32 \<Rightarrow> ReadWriter \<Rightarrow> u32 \<times> go_error option \<times> ReadWriter" where
  "ReadUintBE_loop 0 ret rw = (ret, None, rw)"
| "ReadUintBE_loop (Suc k) ret rw =
     (case rd_in rw of
        [] \<Rightarrow> (0, Some (rd_end rw), rw\<lparr>readError := Some (rd_end rw)\<rparr>)
      | b # bs \<Rightarrow> ReadUintBE_loop k (push_bit 8 ret + ucast b) (rw\<lparr>rd_in := bs\<rparr>))"

definition ReadUintBE :: "nat \<Rightarrow> ReadWriter \<Rightarrow> u32 \<times> go_error option \<times> ReadWriter" where
  "ReadUintBE n rw =
     (case readError rw of Some e \<Rightarrow> (0, Some e, rw) | None \<Rightarrow> ReadUintBE_loop n 0 rw)"

fun ReadUintLE_loop :: "nat \<Rightarrow> nat \<Rightarrow> u32 \<Rightarrow> ReadWriter \<Rightarrow> u32 \<times> go_error option \<times> ReadWriter" where
  "ReadUintLE_loop 0 i ret rw = (ret, None, rw)"
| "ReadUintLE_loop (Suc k) i ret rw =
     (case rd_in rw of
        [] \<Rightarrow> (0, Some (rd_end rw), rw\<lparr>readError := Some (rd_end rw)\<rparr>)
      | b # bs \<Rightarrow> ReadUintLE_loop k (Suc i) (ret + push_bit (i * 8) (ucast b)) (rw\<lparr>rd_in := bs\<rparr>))"

definition ReadUintLE :: "nat \<Rightarrow> ReadWriter \<Rightarrow> u32 \<times> go_error option \<times> ReadWriter" where
  "ReadUintLE n rw =
     (case readError rw of Some e \<Rightarrow> (0, Some e, rw) | None \<Rightarrow> ReadUintLE_loop n 0 0 rw)"

text \<open>The promoted methods \<^verbatim>\<open>Peek\<close> and \<^verbatim>\<open>Discard\<close> of \<^verbatim>\<open>bufio.Reader\<close>.\<close>

definition rw_Peek :: "nat \<Rightarrow> ReadWriter \<Rightarrow> bytes \<times> go_error option" where
  "rw_Peek n rw =
     (if n \<le> length (rd_in rw) then (take n (rd_in rw), None) else (rd_in rw, Some (rd_end rw)))"

definition rw_Discard :: "nat \<Rightarrow> ReadWriter \<Rightarrow> ReadWriter" where
  "rw_Discard n rw = rw\<lparr>rd_in := drop n (rd_in rw)\<rparr>"

definition rw_Flush :: "ReadWriter \<Rightarrow> go_error option \<times> ReadWriter" where
  "rw_Flush rw =
     (case writeError rw of
        Some e \<Rightarrow> (Some e, rw)
      | None \<Rightarrow>
          if bw_buf (wr rw) = [] then (None, rw)
          else (case bufw_Flush (wr rw) of (e, w) \<Rightarrow> (e, rw\<lparr>wr := w\<rparr>)))"

definition rw_Write :: "bytes \<Rightarrow> ReadWriter \<Rightarrow> go_error option \<times> ReadWriter" where
  "rw_Write p rw =
     (case writeError rw of
        Some e \<Rightarrow> (Some e, rw)
      | None \<Rightarrow> (case bufw_Write p (wr rw) of (e, w) \<Rightarrow> (e, rw\<lparr>wr := w\<rparr>)))"

text \<open>
  The loop of \<^verbatim>\<open>WriteUintBE\<close>, by the number \<^verbatim>\<open>n - i\<close> of bytes still to write; the loop
  of \<^verbatim>\<open>WriteUintLE\<close> shifts its value instead.
\<close>

fun WriteUintBE_loop :: "nat \<Rightarrow> u32 \<Rightarrow> ReadWriter \<Rightarrow> go_error option \<times> ReadWriter" where
  "WriteUintBE_loop 0 v rw = (None, rw)"
| "WriteUintBE_loop (Suc k) v rw =
     (case bufw_WriteByte (ucast (drop_bit (push_bit 3 k) v) AND 0xff) (wr rw) of
        (Some e, w) \<Rightarrow> (Some e, rw\<lparr>wr := w, writeError := Some e\<rparr>)
      | (None, w) \<Rightarrow> WriteUintBE_loop k v (rw\<lparr>wr := w\<rparr>))"

definition WriteUintBE :: "u32 \<Rightarrow> nat \<Rightarrow> ReadWriter \<Rightarrow> go_error option \<times> ReadWriter" where
  "WriteUintBE v n rw =
     (case writeError rw of Some e \<Rightarrow> (Some e, rw) | None \<Rightarrow> WriteUintBE_loop n v rw)"

fun WriteUintLE_loop :: "nat \<Rightarrow> u32 \<Rightarrow> ReadWriter \<Rightarrow> go_error option \<times> ReadWriter" where
  "WriteUintLE_loop 0 v rw = (None, rw)"
| "WriteUintLE_loop (Suc k) v rw =
     (case bufw_WriteByte (ucast v AND 0xff) (wr rw) of
        (Some e, w) \<Rightarrow> (Some e, rw\<lparr>wr := w, writeError := Some e\<rparr>)
      | (None, w) \<Rightarrow> WriteUintLE_loop k (drop_bit 8 v) (rw\<lparr>wr := w\<rparr>))"

definition WriteUintLE :: "u32 \<Rightarrow> nat \<Rightarrow> ReadWriter \<Rightarrow> go_error option \<times> ReadWriter" where
  "WriteUintLE v n rw =
     (case writeError rw of Some e \<Rightarrow> (Some e, rw) | None \<Rightarrow> WriteUintLE_loop n v rw)"


section \<open>What the writer promises\<close>

text \<open>
  The contract of a byte sink: a write that reports no error appends its bytes to the
  stream, and on a sink in good state every write succeeds.
\<close>

locale byte_sink =
  fixes stream :: "'w \<Rightarrow> bytes"
    and good :: "'w \<Rightarrow> bool"
    and wrt :: "bytes \<Rightarrow> 'w \<Rightarrow> go_error option \<times> 'w"
  assumes wrt_stream: "wrt p w = (None, w') \<Longrightarrow> stream w' = stream w @ p"
    and wrt_good: "good w \<Longrightarrow> \<exists>w'. wrt p w = (None, w') \<and> good w'"
begin

lemma wrt_appends: "good w \<Longrightarrow> \<exists>w'. wrt p w = (None, w') \<and> good w' \<and> stream w' = stream w @ p"
  using wrt_good wrt_stream by blast

lemma wrt_two:
  "good w \<Longrightarrow>
   \<exists>w1 w2. wrt p w = (None, w1) \<and> wrt q w1 = (None, w2) \<and> good w2 \<and> stream w2 = stream w @ p @ q"
  using wrt_appends [of w p] wrt_appends by fastforce

end

definition bufw_stream :: "BufWriter \<Rightarrow> bytes" where
  "bufw_stream w = bw_sent w @ bw_buf w"

definition bufw_good :: "BufWriter \<Rightarrow> bool" where
  "bufw_good w \<longleftrightarrow> bw_err w = None \<and> bw_cap w = None"

definition rw_stream :: "ReadWriter \<Rightarrow> bytes" where
  "rw_stream rw = bufw_stream (wr rw)"

definition rw_good :: "ReadWriter \<Rightarrow> bool" where
  "rw_good rw \<longleftrightarrow> writeError rw = None \<and> bufw_good (wr rw)"

lemma bufw_Flush_good:
  "bufw_good w \<Longrightarrow> \<exists>w'. bufw_Flush w = (None, w') \<and> bufw_good w'"
  by (auto simp: bufw_good_def bufw_Flush_def conn_write_def)

lemma bufw_WriteByte_stream:
  "bufw_WriteByte b w = (None, w') \<Longrightarrow> bufw_stream w' = bufw_stream w @ [b]"
  by (auto simp: bufw_WriteByte_def bufw_stream_def split: option.splits prod.splits if_splits
      dest!: bufw_Flush_ok)

lemma bufw_WriteByte_good:
  "bufw_good w \<Longrightarrow> \<exists>w'. bufw_WriteByte b w = (None, w') \<and> bufw_good w'"
  using bufw_Flush_good [of w]
  by (auto simp: bufw_WriteByte_def bufw_good_def)

lemma bufw_Write_step_stream:
  assumes "bufw_Write_step p w = (p', w')" and "bw_err w' = None"
  shows "bufw_stream w' @ p' = bufw_stream w @ p"
proof (cases "bw_buf w = []")
  case True
  then obtain n w1 where c: "conn_write p w = (n, None, w1)" and "p' = drop n p" "w' = w1\<lparr>bw_err := None\<rparr>"
    using assms by (auto simp: bufw_Write_step_def split: prod.splits)
  with conn_write_full [OF c] True show ?thesis by (simp add: bufw_stream_def)
next
  case False
  let ?n = "min (length p) (bufw_Available w)"
  obtain r where r: "bufw_Flush (w\<lparr>bw_buf := bw_buf w @ take ?n p\<rparr>) = (r, w')" and p': "p' = drop ?n p"
    using assms(1) False by (auto simp: bufw_Write_step_def Let_def intro: prod.collapse [symmetric])
  from r assms(2) have "r = None" by (cases r) (auto dest: bufw_Flush_err)
  with r have "bw_buf w' = []" "bw_sent w' = bw_sent w @ bw_buf w @ take ?n p"
    by (auto dest: bufw_Flush_ok)
  then show ?thesis by (simp add: bufw_stream_def p')
qed

lemma bufw_Write_step_good:
  "bufw_good w \<Longrightarrow> bufw_Write_step p w = (p', w') \<Longrightarrow> bufw_good w'"
  using bufw_Flush_good [of "w\<lparr>bw_buf := bw_buf w @ take (min (length p) (bufw_Available w)) p\<rparr>"]
  by (auto simp: bufw_Write_step_def bufw_good_def conn_write_def Let_def split: if_splits)

lemma bufw_Write_loop_stream:
  "bufw_Write_loop p w = (p', w') \<Longrightarrow> bw_err w' = None \<Longrightarrow> bufw_stream w' @ p' = bufw_stream w @ p"
proof (induction p w rule: bufw_Write_loop.induct)
  case (1 p w)
  show ?case
  proof (cases "length p > bufw_Available w \<and> bw_err w = None")
    case True
    obtain p1 w1 where st: "bufw_Write_step p w = (p1, w1)" by force
    with True "1.prems" have l: "bufw_Write_loop p1 w1 = (p', w')"
      by (simp add: bufw_Write_loop.simps [of p w])
    then have "bw_err w1 = None"
      using "1.prems"(2) by (auto simp: bufw_Write_loop.simps [of p1 w1] split: if_splits)
    then show ?thesis
      using "1.IH" [OF True st [symmetric] l "1.prems"(2)] bufw_Write_step_stream [OF st] by simp
  next
    case False
    with "1.prems" show ?thesis by (auto simp: bufw_Write_loop.simps [of p w])
  qed
qed

lemma bufw_Write_loop_good: "bufw_good w \<Longrightarrow> bufw_good (snd (bufw_Write_loop p w))"
proof (induction p w rule: bufw_Write_loop.induct)
  case (1 p w)
  obtain p1 w1 where st: "bufw_Write_step p w = (p1, w1)" by force
  with 1 bufw_Write_step_good [OF "1.prems" st] show ?case
    by (auto simp: bufw_Write_loop.simps [of p w])
qed

interpretation bufio: byte_sink bufw_stream bufw_good bufw_Write
proof
  show "bufw_stream w' = bufw_stream w @ p" if "bufw_Write p w = (None, w')" for p w w'
  proof -
    obtain p1 w1 where l: "bufw_Write_loop p w = (p1, w1)" by force
    with that have "bw_err w1 = None" and "w' = w1\<lparr>bw_buf := bw_buf w1 @ p1\<rparr>"
      by (auto simp: bufw_Write_def split: option.splits)
    with bufw_Write_loop_stream [OF l] show ?thesis by (simp add: bufw_stream_def)
  qed
  show "\<exists>w'. bufw_Write p w = (None, w') \<and> bufw_good w'" if "bufw_good w" for p w
    using bufw_Write_loop_good [OF that, of p]
    by (auto simp: bufw_Write_def bufw_good_def split: prod.splits)
qed

interpretation rw: byte_sink rw_stream rw_good rw_Write
proof
  show "rw_stream w' = rw_stream w @ p" if "rw_Write p w = (None, w')" for p w w'
    using that by (auto simp: rw_Write_def rw_stream_def split: option.splits prod.splits
        dest: bufio.wrt_stream)
  show "\<exists>w'. rw_Write p w = (None, w') \<and> rw_good w'" if "rw_good w" for p w
    using that bufio.wrt_good [of "wr w" p] by (auto simp: rw_Write_def rw_good_def)
qed

section \<open>Programs that emit bytes and programs that consume them\<close>

text \<open>
  What a write does to the buffer: bytes on the connection stay there, the buffer keeps its size and is never fuller than it, and
  nothing is sent as long as everything fits into the buffer.
\<close>

definition bufw_keeps :: "BufWriter \<Rightarrow> BufWriter \<Rightarrow> bool" where
  "bufw_keeps w w' \<longleftrightarrow> (\<exists>s. bw_sent w' = bw_sent w @ s) \<and> bw_size w' = bw_size w \<and>
     (0 < bw_size w \<and> length (bw_buf w) \<le> bw_size w \<longrightarrow> length (bw_buf w') \<le> bw_size w)"

definition bufw_grows :: "BufWriter \<Rightarrow> BufWriter \<Rightarrow> bool" where
  "bufw_grows w w' \<longleftrightarrow> bufw_keeps w w' \<and> length (bufw_stream w) \<le> length (bufw_stream w') \<and>
     (length (bufw_stream w') \<le> length (bw_sent w) + bw_size w \<longrightarrow> bw_sent w' = bw_sent w)"

lemma bufw_keeps_refl [simp]: "bufw_keeps w w"
  by (simp add: bufw_keeps_def)

lemma bufw_keeps_trans: "bufw_keeps a b \<Longrightarrow> bufw_keeps b c \<Longrightarrow> bufw_keeps a c"
  by (auto simp: bufw_keeps_def)

lemma bufw_grows_refl [simp]: "bufw_grows w w"
  by (simp add: bufw_grows_def)

lemma bufw_grows_trans: "bufw_grows a b \<Longrightarrow> bufw_grows b c \<Longrightarrow> bufw_grows a c"
  using bufw_keeps_trans by (fastforce simp: bufw_grows_def bufw_keeps_def)

lemma bufw_growsD:
  assumes "bufw_grows w w'"
  shows "\<exists>s. bw_sent w' = bw_sent w @ s" and "bw_size w' = bw_size w"
    and "0 < bw_size w \<Longrightarrow> length (bw_buf w) \<le> bw_size w \<Longrightarrow> length (bw_buf w') \<le> bw_size w"
    and "length (bufw_stream w') \<le> length (bw_sent w) + bw_size w \<Longrightarrow> bw_sent w' = bw_sent w"
  using assms by (auto simp: bufw_grows_def bufw_keeps_def)

lemma bufw_WriteByte_grows: "bufw_WriteByte b w = (None, w') \<Longrightarrow> bufw_grows w w'"
  by (auto simp: bufw_WriteByte_def bufw_grows_def bufw_keeps_def bufw_stream_def bufw_Available_def split: option.splits prod.splits if_splits dest!: bufw_Flush_ok)

lemma bufw_Write_step_keeps:
  assumes "bufw_Write_step p w = (p', w')" and "bufw_good w"
  shows "bufw_keeps w w'"
proof (cases "bw_buf w = []")
  case True
  with assms show ?thesis by (auto simp: bufw_Write_step_def bufw_keeps_def bufw_good_def conn_write_def)
next
  case False
  let ?w = "w\<lparr>bw_buf := bw_buf w @ take (min (length p) (bufw_Available w)) p\<rparr>"
  have "bufw_good ?w" using assms(2) by (simp add: bufw_good_def)
  then obtain w1 where "bufw_Flush ?w = (None, w1)" using bufw_Flush_good by blast
  with False assms(1) bufw_Flush_ok [of ?w w1] show ?thesis by (auto simp: bufw_Write_step_def bufw_keeps_def Let_def)
qed

lemma bufw_Write_loop_keeps:
  "bufw_good w \<Longrightarrow> bufw_Write_loop p w = (p', w') \<Longrightarrow> bufw_keeps w w' \<and> length p' \<le> bufw_Available w'"
proof (induction p w rule: bufw_Write_loop.induct)
  case (1 p w)
  obtain p1 w1 where st: "bufw_Write_step p w = (p1, w1)" by force
  note g = bufw_Write_step_good [OF "1.prems"(1) st] and gr = bufw_Write_step_keeps [OF st "1.prems"(1)]
  show ?case
  proof (cases "length p > bufw_Available w")
    case True
    with "1.prems" st have l: "bufw_Write_loop p1 w1 = (p', w')" and c: "length p > bufw_Available w \<and> bw_err w = None"
      by (auto simp: bufw_Write_loop.simps [of p w] bufw_good_def)
    from "1.IH" [OF c st [symmetric] g l] bufw_keeps_trans [OF gr] show ?thesis by blast
  next
    case False
    with "1.prems" show ?thesis by (auto simp: bufw_Write_loop.simps [of p w])
  qed
qed

lemma bufw_Write_grows:
  assumes "bufw_good w" and "bufw_Write p w = (None, w')"
  shows "bufw_grows w w'"
proof -
  obtain p1 w1 where l: "bufw_Write_loop p w = (p1, w1)" by force
  with assms(2) have w': "w' = w1\<lparr>bw_buf := bw_buf w1 @ p1\<rparr>" by (auto simp: bufw_Write_def split: option.splits)
  have "bufw_keeps w w'" using w' bufw_Write_loop_keeps [OF assms(1) l] by (auto simp: bufw_keeps_def bufw_Available_def)
  moreover have st: "bufw_stream w' = bufw_stream w @ p" by (rule bufio.wrt_stream [OF assms(2)])
  moreover have "bw_sent w' = bw_sent w" if "length (bufw_stream w') \<le> length (bw_sent w) + bw_size w"
  proof -
    have "\<not> length p > bufw_Available w" using that unfolding st by (simp add: bufw_stream_def bufw_Available_def)
    then have "w1 = w" using l by (simp add: bufw_Write_loop.simps [of p w])
    with w' show ?thesis by simp
  qed
  ultimately show ?thesis by (simp add: bufw_grows_def)
qed

text \<open>
  \<open>emits f bs\<close>: run on a writer in good state, \<open>f\<close> succeeds, appends \<open>bs\<close> to the
  stream and changes nothing but the writer. The chunk writer is a composition of such
  programs.
\<close>

definition emits :: "(ReadWriter \<Rightarrow> go_error option \<times> ReadWriter) \<Rightarrow> bytes \<Rightarrow> bool" where
  "emits f bs \<longleftrightarrow>
     (\<forall>rw. rw_good rw \<longrightarrow>
        (\<exists>w. f rw = (None, rw\<lparr>wr := w\<rparr>) \<and> bufw_good w \<and>
             bufw_stream w = bufw_stream (wr rw) @ bs \<and> bufw_grows (wr rw) w))"

lemma emitsI:
  "(\<And>rw. rw_good rw \<Longrightarrow> \<exists>w. f rw = (None, rw\<lparr>wr := w\<rparr>) \<and> bufw_good w \<and>
      bufw_stream w = bufw_stream (wr rw) @ bs \<and> bufw_grows (wr rw) w) \<Longrightarrow> emits f bs"
  by (simp add: emits_def)

lemma emitsE:
  assumes "emits f bs" and "rw_good rw"
  obtains w where "f rw = (None, rw\<lparr>wr := w\<rparr>)" and "bufw_good w" and "rw_good (rw\<lparr>wr := w\<rparr>)"
    and "bufw_stream w = bufw_stream (wr rw) @ bs" and "bufw_grows (wr rw) w"
  using assms by (auto simp: emits_def rw_good_def)

lemma emits_seq: "emits f as \<Longrightarrow> emits g bs \<Longrightarrow> emits (\<lambda>rw. g (snd (f rw))) (as @ bs)"
  by (rule emitsI) (fastforce elim!: emitsE dest: bufw_grows_trans)

lemma emits_bind:
  assumes "emits f as" and "emits g bs"
  shows "emits (\<lambda>rw. case f rw of (Some e, rw') \<Rightarrow> (Some e, rw') | (None, rw') \<Rightarrow> g rw') (as @ bs)"
  by (rule emitsI) (use assms in \<open>fastforce elim!: emitsE dest: bufw_grows_trans\<close>)

lemma emits_Write: "emits (rw_Write p) p"
proof (rule emitsI)
  fix rw assume g: "rw_good rw"
  then obtain w where w: "bufw_Write p (wr rw) = (None, w)" "bufw_good w"
    "bufw_stream w = bufw_stream (wr rw) @ p"
    using bufio.wrt_appends [of "wr rw" p] by (auto simp: rw_good_def)
  have "bufw_grows (wr rw) w" using bufw_Write_grows [OF _ w(1)] g by (simp add: rw_good_def)
  with g w show "\<exists>w. rw_Write p rw = (None, rw\<lparr>wr := w\<rparr>) \<and> bufw_good w \<and>
      bufw_stream w = bufw_stream (wr rw) @ p \<and> bufw_grows (wr rw) w"
    by (intro exI [of _ w]) (simp add: rw_Write_def rw_good_def)
qed

lemma WriteByte_appends:
  "bufw_good w \<Longrightarrow> \<exists>w'. bufw_WriteByte b w = (None, w') \<and> bufw_good w' \<and>
     bufw_stream w' = bufw_stream w @ [b] \<and> bufw_grows w w'"
  using bufw_WriteByte_good bufw_WriteByte_stream bufw_WriteByte_grows by blast

lemma WriteUintBE_loop_emits:
  "bufw_good (wr rw) \<Longrightarrow> \<exists>w. WriteUintBE_loop k v rw = (None, rw\<lparr>wr := w\<rparr>) \<and> bufw_good w \<and>
     bufw_stream w = bufw_stream (wr rw) @ be_bytes k v \<and> bufw_grows (wr rw) w"
proof (induction k arbitrary: rw)
  case 0
  then show ?case by (auto intro!: exI [of _ "wr rw"])
next
  case (Suc k)
  obtain w1 where w1: "bufw_WriteByte (ucast (drop_bit (push_bit 3 k) v)) (wr rw) = (None, w1)"
    "bufw_good w1" "bufw_stream w1 = bufw_stream (wr rw) @ [ucast (drop_bit (push_bit 3 k) v)]" "bufw_grows (wr rw) w1"
    using WriteByte_appends [OF Suc.prems] by blast
  from Suc.IH [of "rw\<lparr>wr := w1\<rparr>"] w1 show ?case
    by (auto simp: push_bit_eq_mult mult.commute dest: bufw_grows_trans)
qed

lemma emits_WriteUintBE: "emits (WriteUintBE v n) (be_bytes n v)"
  using WriteUintBE_loop_emits by (auto simp: emits_def WriteUintBE_def rw_good_def)

lemma WriteUintLE_loop_emits:
  "bufw_good (wr rw) \<Longrightarrow> \<exists>w. WriteUintLE_loop k v rw = (None, rw\<lparr>wr := w\<rparr>) \<and> bufw_good w \<and>
     bufw_stream w = bufw_stream (wr rw) @ le_bytes k v \<and> bufw_grows (wr rw) w"
proof (induction k arbitrary: rw v)
  case 0
  then show ?case by (auto intro!: exI [of _ "wr rw"])
next
  case (Suc k)
  obtain w1 where w1: "bufw_WriteByte (ucast v) (wr rw) = (None, w1)"
    "bufw_good w1" "bufw_stream w1 = bufw_stream (wr rw) @ [ucast v]" "bufw_grows (wr rw) w1"
    using WriteByte_appends [OF Suc.prems] by blast
  from Suc.IH [of "rw\<lparr>wr := w1\<rparr>" "drop_bit 8 v"] w1 show ?case by (auto dest: bufw_grows_trans)
qed

lemma emits_WriteUintLE: "emits (WriteUintLE v n) (le_bytes n v)"
  using WriteUintLE_loop_emits by (auto simp: emits_def WriteUintLE_def rw_good_def)

text \<open>
  \<open>consumes f bs v\<close>: on a reader without error whose input starts with \<open>bs\<close>, \<open>f\<close>
  returns \<open>v\<close> and leaves the rest of the input.
\<close>

definition consumes :: "(ReadWriter \<Rightarrow> 'a \<times> go_error option \<times> ReadWriter) \<Rightarrow> bytes \<Rightarrow> 'a \<Rightarrow> bool" where
  "consumes f bs v \<longleftrightarrow>
     (\<forall>rw rest. readError rw = None \<longrightarrow> rd_in rw = bs @ rest \<longrightarrow>
        f rw = (v, None, rw\<lparr>rd_in := rest\<rparr>))"

lemma consumesD:
  "consumes f bs v \<Longrightarrow> readError rw = None \<Longrightarrow> rd_in rw = bs @ rest \<Longrightarrow>
   f rw = (v, None, rw\<lparr>rd_in := rest\<rparr>)"
  by (simp add: consumes_def)

lemma ReadUintBE_loop_append:
  "rd_in rw = bs @ rest \<Longrightarrow>
   ReadUintBE_loop (length bs) ret rw =
     (foldl (\<lambda>a b. push_bit 8 a + ucast b) ret bs, None, rw\<lparr>rd_in := rest\<rparr>)"
  by (induction bs arbitrary: ret rw) auto

lemma consumes_ReadUintBE: "consumes (ReadUintBE n) (be_bytes n v) (take_bit (8 * n) v)"
  using ReadUintBE_loop_append [of _ "be_bytes n v"] be_word_be_bytes [of n v]
  by (auto simp: consumes_def ReadUintBE_def be_word_def)

lemma ReadUintLE_loop_append:
  "rd_in rw = le_bytes k v @ rest \<Longrightarrow>
   ReadUintLE_loop k i ret rw =
     (ret + push_bit (i * 8) (take_bit (8 * k) v), None, rw\<lparr>rd_in := rest\<rparr>)"
proof (induction k arbitrary: i ret rw v)
  case (Suc k)
  have "push_bit (i * 8) (take_bit 8 v) + push_bit (Suc i * 8) (take_bit (8 * k) (drop_bit 8 v)) =
        push_bit (i * 8) (take_bit 8 v + push_bit 8 (take_bit (8 * k) (drop_bit 8 v)))"
    by (simp only: push_bit_add push_bit_push_bit mult_Suc add.commute [of 8])
  also have "\<dots> = push_bit (i * 8) (take_bit (8 * Suc k) v)"
    by (simp only: take_bit_split_byte mult_Suc_right add.commute)
  finally have eq: "push_bit (i * 8) (take_bit 8 v) + push_bit (Suc i * 8) (take_bit (8 * k) (drop_bit 8 v)) =
      push_bit (i * 8) (take_bit (8 * Suc k) v)" .
  from Suc.prems show ?case
    using Suc.IH [of "rw\<lparr>rd_in := le_bytes k (drop_bit 8 v) @ rest\<rparr>" "drop_bit 8 v" "Suc i"
        "ret + push_bit (i * 8) (take_bit 8 v)"] eq
    by (simp add: byte_of_word_of_byte add.assoc)
qed simp

lemma consumes_ReadUintLE: "consumes (ReadUintLE n) (le_bytes n v) (take_bit (8 * n) v)"
  using ReadUintLE_loop_append [of _ n v] by (auto simp: consumes_def ReadUintLE_def)

lemma consumes_Read: "consumes (rw_Read (length bs)) bs bs"
  by (auto simp: consumes_def rw_Read_def)

section \<open>Properties\<close>

lemma rw_Flush_ok:
  assumes "rw_Flush rw = (None, rw')"
  shows "bw_sent (wr rw') = rw_stream rw" and "bw_buf (wr rw') = []"
  using assms bufw_Flush_ok [of "wr rw"]
  by (auto simp: rw_Flush_def rw_stream_def bufw_stream_def split: option.splits if_splits prod.splits)

lemma rw_Flush_good: "rw_good rw \<Longrightarrow> \<exists>w. rw_Flush rw = (None, rw\<lparr>wr := w\<rparr>) \<and> bufw_good w"
  using bufw_Flush_good [of "wr rw"]
  by (cases "bw_buf (wr rw) = []") (auto simp: rw_Flush_def rw_good_def intro: exI [of _ "wr rw"])

text \<open>
  Whatever the buffer size and however many bytes the connection accepts, a write
  followed by a flush that both report success has delivered exactly the earlier bytes and
  then the written ones to the connection, in order and without loss.
\<close>

theorem write_then_flush_delivers:
  assumes "rw_Write p rw = (None, rw1)" and "rw_Flush rw1 = (None, rw2)"
  shows "bw_sent (wr rw2) = rw_stream rw @ p"
  using rw.wrt_stream [OF assms(1)] rw_Flush_ok(1) [OF assms(2)] by simp

theorem write_then_flush_delivers_witness:
  "\<exists>rw1 rw2. rw_Write [1, 2, 3, 4, 5] (NewReadWriter [] EOF (Some 5) 2) = (None, rw1) \<and>
     rw_Flush rw1 = (None, rw2) \<and> bw_sent (wr rw2) = [1, 2, 3, 4, 5]"
proof -
  let ?rw = "NewReadWriter [] EOF (Some 5) 2"
  have w: "rw_Write [1, 2, 3, 4, 5] ?rw = (None, snd (rw_Write [1, 2, 3, 4, 5] ?rw))"
    and f: "rw_Flush (snd (rw_Write [1, 2, 3, 4, 5] ?rw)) =
      (None, snd (rw_Flush (snd (rw_Write [1, 2, 3, 4, 5] ?rw))))"
    by (simp_all add: NewReadWriter_def rw_Write_def bufw_Write_def bufw_Write_loop.simps
        bufw_Write_step_def bufw_Available_def conn_write_def rw_Flush_def)
  show ?thesis
    using w f write_then_flush_delivers [OF w f]
    by (auto simp: NewReadWriter_def rw_stream_def bufw_stream_def)
qed

text \<open>
  An integer written with \<^verbatim>\<open>WriteUintBE\<close> or \<^verbatim>\<open>WriteUintLE\<close> on a healthy connection is
  read back by \<^verbatim>\<open>ReadUintBE\<close> or \<^verbatim>\<open>ReadUintLE\<close> of the same width as its low \<open>8 * n\<close>
  bits, whatever follows it on the wire, and the reader is left at what follows.
\<close>

theorem uint_write_read_roundtrip:
  assumes "rw_good rw"
  shows "(\<exists>bs w. WriteUintBE v n rw = (None, rw\<lparr>wr := w\<rparr>) \<and>
      rw_stream (rw\<lparr>wr := w\<rparr>) = rw_stream rw @ bs \<and>
      (\<forall>rest fin cap sz. ReadUintBE n (NewReadWriter (bs @ rest) fin cap sz) =
         (take_bit (8 * n) v, None, NewReadWriter rest fin cap sz))) \<and>
    (\<exists>bs w. WriteUintLE v n rw = (None, rw\<lparr>wr := w\<rparr>) \<and>
      rw_stream (rw\<lparr>wr := w\<rparr>) = rw_stream rw @ bs \<and>
      (\<forall>rest fin cap sz. ReadUintLE n (NewReadWriter (bs @ rest) fin cap sz) =
         (take_bit (8 * n) v, None, NewReadWriter rest fin cap sz)))"
proof (rule conjI)
  have be: "ReadUintBE n (NewReadWriter (be_bytes n v @ rest) fin cap sz) =
      (take_bit (8 * n) v, None, NewReadWriter rest fin cap sz)" for rest fin cap sz
    by (subst consumesD [OF consumes_ReadUintBE]) (simp_all add: NewReadWriter_def)
  have le: "ReadUintLE n (NewReadWriter (le_bytes n v @ rest) fin cap sz) =
      (take_bit (8 * n) v, None, NewReadWriter rest fin cap sz)" for rest fin cap sz
    by (subst consumesD [OF consumes_ReadUintLE]) (simp_all add: NewReadWriter_def)
  show "\<exists>bs w. WriteUintBE v n rw = (None, rw\<lparr>wr := w\<rparr>) \<and>
      rw_stream (rw\<lparr>wr := w\<rparr>) = rw_stream rw @ bs \<and>
      (\<forall>rest fin cap sz. ReadUintBE n (NewReadWriter (bs @ rest) fin cap sz) =
         (take_bit (8 * n) v, None, NewReadWriter rest fin cap sz))"
    by (rule emitsE [OF emits_WriteUintBE [of v n] assms]) (use be in \<open>auto simp: rw_stream_def\<close>)
  show "\<exists>bs w. WriteUintLE v n rw = (None, rw\<lparr>wr := w\<rparr>) \<and>
      rw_stream (rw\<lparr>wr := w\<rparr>) = rw_stream rw @ bs \<and>
      (\<forall>rest fin cap sz. ReadUintLE n (NewReadWriter (bs @ rest) fin cap sz) =
         (take_bit (8 * n) v, None, NewReadWriter rest fin cap sz))"
    by (rule emitsE [OF emits_WriteUintLE [of v n] assms]) (use le in \<open>auto simp: rw_stream_def\<close>)
qed

theorem uint_write_read_roundtrip_witness:
  "rw_good (NewReadWriter [] EOF None 16) \<and>
   (\<exists>bs w. WriteUintLE 0x01020304 3 (NewReadWriter [] EOF None 16) = (None, (NewReadWriter [] EOF None 16)\<lparr>wr := w\<rparr>) \<and>
      ReadUintLE 3 (NewReadWriter (bs @ [7]) EOF None 16) =
        (0x020304, None, NewReadWriter [7] EOF None 16))"
proof -
  have g: "rw_good (NewReadWriter [] EOF None 16)"
    by (simp add: rw_good_def bufw_good_def NewReadWriter_def)
  obtain bs w where
      "WriteUintLE 0x01020304 3 (NewReadWriter [] EOF None 16) = (None, (NewReadWriter [] EOF None 16)\<lparr>wr := w\<rparr>)"
      "\<forall>rest fin cap sz. ReadUintLE 3 (NewReadWriter (bs @ rest) fin cap sz) =
         (take_bit (8 * 3) 0x01020304, None, NewReadWriter rest fin cap sz)"
    using uint_write_read_roundtrip [OF g, of "0x01020304" 3] by blast
  with g show ?thesis by (intro conjI exI [of _ bs] exI [of _ w]) simp_all
qed

text \<open>
  When the input ends inside an integer, \<^verbatim>\<open>ReadUintBE\<close> reports the transport's error, the
  value is 0, and every later read of the connection returns the same error and changes
  nothing: \<^verbatim>\<open>readChunk\<close>, which ignores the error of each field, still sees it at its end.
\<close>

theorem short_read_is_sticky:
  assumes "readError rw = None" and "length (rd_in rw) < n"
  shows "\<exists>rw'. ReadUintBE n rw = (0, Some (rd_end rw), rw') \<and> rd_in rw' = [] \<and>
      readError rw' = Some (rd_end rw) \<and>
      ReadUintBE m rw' = (0, Some (rd_end rw), rw') \<and> ReadUintLE m rw' = (0, Some (rd_end rw), rw') \<and>
      rw_Read m rw' = ([], Some (rd_end rw), rw')"
proof -
  have loop: "length (rd_in rw) < n \<Longrightarrow> ReadUintBE_loop n ret rw =
      (0, Some (rd_end rw), rw\<lparr>rd_in := [], readError := Some (rd_end rw)\<rparr>)" for ret rw
    by (induction n arbitrary: ret rw) (auto split: list.splits)
  show ?thesis
    using assms loop [of rw 0] by (simp add: ReadUintBE_def ReadUintLE_def rw_Read_def)
qed

theorem short_read_is_sticky_witness:
  "\<exists>rw'. ReadUintBE 3 (NewReadWriter [1, 2] EOF None 16) = (0, Some EOF, rw') \<and>
     rw_Read 5 rw' = ([], Some EOF, rw')"
  using short_read_is_sticky [of "NewReadWriter [1, 2] EOF None 16" 3 5]
  by (auto simp: NewReadWriter_def)

end
