(* ===== verification/ChunkStream.thy ===== *)
theory ChunkStream
  imports Av Pool ReadWriter
begin

text \<open>
  \<^verbatim>\<open>src/protocol/rtmp/core/chunk_stream.go\<close>: one RTMP chunk stream, its header writer, the
  splitting of a message into chunks and the reading of one chunk.

  The message buffer is the list of its bytes; a buffer newly cut from the pool holds
  zeros. A method returns its error or panic (\<open>None\<close> for nil) with the state it leaves.
  All header fields and counters are 32-bit words, as in the source.
\<close>

unbundle bit_operations_syntax

record ChunkStream =
  Format :: u32
  CSID :: u32
  Timestamp :: u32
  Length :: u32
  TypeID :: u32
  StreamID :: u32
  timeDelta :: u32
  exted :: bool
  cs_index :: u32
  remain :: u32
  got :: bool
  tmpFromat :: u32
  Data :: bytes

definition emptyChunkStream :: ChunkStream where
  "emptyChunkStream = \<lparr>Format = 0, CSID = 0, Timestamp = 0, Length = 0, TypeID = 0, StreamID = 0,
     timeDelta = 0, exted = False, cs_index = 0, remain = 0, got = False, tmpFromat = 0, Data = []\<rparr>"

definition cs_full :: "ChunkStream \<Rightarrow> bool" where
  "cs_full cs = got cs"

definition cs_new :: "Pool \<Rightarrow> ChunkStream \<Rightarrow> (ChunkStream \<times> Pool) res" where
  "cs_new p cs =
     bindR (pool_Get p (unat (Length cs))) (\<lambda>(p', r).
       Inr (cs\<lparr>got := False, cs_index := 0, remain := Length cs, Data := replicate (rg_len r) 0\<rparr>, p'))"

section \<open>Writing\<close>

abbreviation putBE :: "u32 \<Rightarrow> nat \<Rightarrow> ReadWriter \<Rightarrow> ReadWriter" where
  "putBE v n rw \<equiv> snd (WriteUintBE v n rw)"

abbreviation putLE :: "u32 \<Rightarrow> nat \<Rightarrow> ReadWriter \<Rightarrow> ReadWriter" where
  "putLE v n rw \<equiv> snd (WriteUintLE v n rw)"

text \<open>The chunk basic header (lines 41 to 54); an id of 65600 or more writes nothing.\<close>

definition writeBasicHeader :: "ChunkStream \<Rightarrow> ReadWriter \<Rightarrow> ReadWriter" where
  "writeBasicHeader cs w =
     (let h = push_bit 6 (Format cs)
      in if CSID cs < 64 then putBE (h OR CSID cs) 1 w
         else if CSID cs - 64 < 256 then putLE (CSID cs - 64) 1 (putBE (h OR 0) 1 w)
         else if CSID cs - 64 < 65536 then putLE (CSID cs - 64) 2 (putBE (h OR 1) 1 w)
         else w)"

text \<open>The label \<^verbatim>\<open>END\<close> of \<^verbatim>\<open>writeHeader\<close>: the extended timestamp and the return.\<close>

definition writeExtended :: "u32 \<Rightarrow> ChunkStream \<Rightarrow> ReadWriter \<Rightarrow> go_error option \<times> ReadWriter" where
  "writeExtended ts cs w =
     (let w' = (if ts \<ge> 0xffffff then putBE (Timestamp cs) 4 w else w)
      in (writeError w', w'))"

definition writeHeader :: "ChunkStream \<Rightarrow> ReadWriter \<Rightarrow> go_error option \<times> ReadWriter" where
  "writeHeader cs w0 =
     (let w1 = writeBasicHeader cs w0; ts = Timestamp cs
      in if Format cs = 3 then writeExtended ts cs w1
         else (let ts = (if Timestamp cs > 0xffffff then 0xffffff else Timestamp cs);
                   w2 = putBE ts 3 w1
               in if Format cs = 2 then writeExtended ts cs w2
                  else if Length cs > 0xffffff then (Some (Errorf ''length=''), w2)
                  else (let w3 = putBE (TypeID cs) 1 (putBE (Length cs) 3 w2)
                        in if Format cs = 1 then writeExtended ts cs w3
                           else writeExtended ts cs (putLE (StreamID cs) 4 w3))))"

definition chooseCSID :: "ChunkStream \<Rightarrow> ChunkStream" where
  "chooseCSID cs =
     (if TypeID cs = TagAudio then cs\<lparr>CSID := 4\<rparr>
      else if TypeID cs = TagVideo \<or> TypeID cs = TagScriptDataAMF0 \<or> TypeID cs = TagScriptDataAMF3
      then cs\<lparr>CSID := 6\<rparr>
      else cs)"

text \<open>
  The loop of \<^verbatim>\<open>writeChunk\<close> at index \<open>i\<close> of \<open>numChunks\<close>. The comparison of
  \<^verbatim>\<open>len(Data) - start\<close> is on 32-bit words, as in the source.
\<close>

function writeChunk_loop ::
  "u32 \<Rightarrow> nat \<Rightarrow> nat \<Rightarrow> u32 \<Rightarrow> ChunkStream \<Rightarrow> ReadWriter \<Rightarrow> exn option \<times> ChunkStream \<times> ReadWriter"
where
  "writeChunk_loop chunkSize numChunks i totalLen cs w =
     (if \<not> i \<le> numChunks then (None, cs, w)
      else if totalLen = Length cs then (None, cs, w)
      else (let cs = cs\<lparr>Format := (if i = 0 then 0 else 3)\<rparr>
            in case writeHeader cs w of
                 (Some e, w) \<Rightarrow> (Some (Err e), cs, w)
               | (None, w) \<Rightarrow>
                   (let start = word_of_nat i * chunkSize;
                        avail = word_of_nat (length (Data cs)) - start;
                        inc = (if avail \<le> chunkSize then avail else chunkSize);
                        totalLen = totalLen + inc
                    in case slice (Data cs) (unat start) (unat (start + inc)) of
                         Inl e \<Rightarrow> (Some e, cs, w)
                       | Inr buf \<Rightarrow>
                           (case rw_Write buf w of
                              (Some e, w) \<Rightarrow> (Some (Err e), cs, w)
                            | (None, w) \<Rightarrow> writeChunk_loop chunkSize numChunks (Suc i) totalLen cs w))))"
  by pat_completeness auto
termination
  by (relation "measure (\<lambda>(_, n, i, _). Suc n - i)") auto

declare writeChunk_loop.simps [simp del]

definition writeChunk ::
  "ChunkStream \<Rightarrow> u32 \<Rightarrow> ReadWriter \<Rightarrow> exn option \<times> ChunkStream \<times> ReadWriter"
where
  "writeChunk cs chunkSize w =
     (let cs = chooseCSID cs
      in if chunkSize = 0 then (Some (Panic DivideByZero), cs, w)
         else writeChunk_loop chunkSize (unat (Length cs div chunkSize)) 0 0 cs w)"

section \<open>Reading\<close>

text \<open>\<^verbatim>\<open>v, _ := r.ReadUintBE(n)\<close>: the error stays in the reader.\<close>

abbreviation getBE :: "nat \<Rightarrow> ReadWriter \<Rightarrow> u32 \<times> ReadWriter" where
  "getBE n r \<equiv> (case ReadUintBE n r of (v, _, r') \<Rightarrow> (v, r'))"

abbreviation getLE :: "nat \<Rightarrow> ReadWriter \<Rightarrow> u32 \<times> ReadWriter" where
  "getLE n r \<equiv> (case ReadUintLE n r of (v, _, r') \<Rightarrow> (v, r'))"

text \<open>The full chunk stream id (lines 128 to 135).\<close>

definition readCSID :: "ChunkStream \<Rightarrow> ReadWriter \<Rightarrow> ChunkStream \<times> ReadWriter" where
  "readCSID cs r =
     (if CSID cs = 0 then (case getLE 1 r of (v, r) \<Rightarrow> (cs\<lparr>CSID := v + 64\<rparr>, r))
      else if CSID cs = 1 then (case getLE 2 r of (v, r) \<Rightarrow> (cs\<lparr>CSID := v + 64\<rparr>, r))
      else (cs, r))"

text \<open>A 24-bit timestamp of \<open>0xffffff\<close> announces a 32-bit one.\<close>

definition readExtended :: "u32 \<Rightarrow> ReadWriter \<Rightarrow> u32 \<times> bool \<times> ReadWriter" where
  "readExtended ts r =
     (if ts = 0xffffff then (case getBE 4 r of (ts, r) \<Rightarrow> (ts, True, r)) else (ts, False, r))"

text \<open>The four cases of the message header (lines 137 to 209).\<close>

definition finishHeader ::
  "ChunkStream \<Rightarrow> ReadWriter \<Rightarrow> Pool \<Rightarrow> exn option \<times> ChunkStream \<times> ReadWriter \<times> Pool"
where
  "finishHeader cs r p =
     (case cs_new p cs of Inl e \<Rightarrow> (Some e, cs, r, p) | Inr (cs, p) \<Rightarrow> (None, cs, r, p))"

definition readHeader0 ::
  "ChunkStream \<Rightarrow> ReadWriter \<Rightarrow> Pool \<Rightarrow> exn option \<times> ChunkStream \<times> ReadWriter \<times> Pool"
where
  "readHeader0 cs r p =
     (case getBE 3 r of (ts, r) \<Rightarrow>
      case getBE 3 r of (len, r) \<Rightarrow>
      case getBE 1 r of (typ, r) \<Rightarrow>
      case getLE 4 r of (sid, r) \<Rightarrow>
      case readExtended ts r of (ts, ext, r) \<Rightarrow>
        finishHeader (cs\<lparr>Format := tmpFromat cs, Timestamp := ts, Length := len, TypeID := typ,
          StreamID := sid, exted := ext\<rparr>) r p)"

definition readHeader1 ::
  "ChunkStream \<Rightarrow> ReadWriter \<Rightarrow> Pool \<Rightarrow> exn option \<times> ChunkStream \<times> ReadWriter \<times> Pool"
where
  "readHeader1 cs r p =
     (case getBE 3 r of (ts, r) \<Rightarrow>
      case getBE 3 r of (len, r) \<Rightarrow>
      case getBE 1 r of (typ, r) \<Rightarrow>
      case readExtended ts r of (ts, ext, r) \<Rightarrow>
        finishHeader (cs\<lparr>Format := tmpFromat cs, Length := len, TypeID := typ, exted := ext,
          timeDelta := ts, Timestamp := Timestamp cs + ts\<rparr>) r p)"

definition readHeader2 ::
  "ChunkStream \<Rightarrow> ReadWriter \<Rightarrow> Pool \<Rightarrow> exn option \<times> ChunkStream \<times> ReadWriter \<times> Pool"
where
  "readHeader2 cs r p =
     (case getBE 3 r of (ts, r) \<Rightarrow>
      case readExtended ts r of (ts, ext, r) \<Rightarrow>
        finishHeader (cs\<lparr>Format := tmpFromat cs, exted := ext, timeDelta := ts,
          Timestamp := Timestamp cs + ts\<rparr>) r p)"

definition readHeader3 ::
  "ChunkStream \<Rightarrow> ReadWriter \<Rightarrow> Pool \<Rightarrow> exn option \<times> ChunkStream \<times> ReadWriter \<times> Pool"
where
  "readHeader3 cs r p =
     (if remain cs = 0 then
        (if Format cs = 0 then
           (if exted cs then (case getBE 4 r of (ts, r) \<Rightarrow> finishHeader (cs\<lparr>Timestamp := ts\<rparr>) r p)
            else finishHeader cs r p)
         else if Format cs = 1 \<or> Format cs = 2 then
           (case (if exted cs then getBE 4 r else (timeDelta cs, r)) of (timedet, r) \<Rightarrow>
              finishHeader (cs\<lparr>Timestamp := Timestamp cs + timedet\<rparr>) r p)
         else finishHeader cs r p)
      else if exted cs then
        (case rw_Peek 4 r of
           (b, Some e) \<Rightarrow> (Some (Err e), cs, r, p)
         | (b, None) \<Rightarrow>
             (None, cs, if be_word b = Timestamp cs then rw_Discard 4 r else r, p))
      else (None, cs, r, p))"

definition readMessageHeader ::
  "ChunkStream \<Rightarrow> ReadWriter \<Rightarrow> Pool \<Rightarrow> exn option \<times> ChunkStream \<times> ReadWriter \<times> Pool"
where
  "readMessageHeader cs r p =
     (if tmpFromat cs = 0 then readHeader0 cs r p
      else if tmpFromat cs = 1 then readHeader1 cs r p
      else if tmpFromat cs = 2 then readHeader2 cs r p
      else if tmpFromat cs = 3 then readHeader3 cs r p
      else (Some (Err (Errorf ''invalid format='')), cs, r, p))"

text \<open>The payload of the chunk (lines 210 to 225).\<close>

definition readPayload :: "u32 \<Rightarrow> ChunkStream \<Rightarrow> ReadWriter \<Rightarrow> exn option \<times> ChunkStream \<times> ReadWriter" where
  "readPayload chunkSize cs r =
     (let n = (if remain cs > chunkSize then chunkSize else remain cs)
      in case slice (Data cs) (unat (cs_index cs)) (unat (cs_index cs + n)) of
           Inl e \<Rightarrow> (Some e, cs, r)
         | Inr buf \<Rightarrow>
             (case rw_Read (length buf) r of
                (bs, Some e, r) \<Rightarrow>
                  (Some (Err e), cs\<lparr>Data := copy_at (Data cs) (unat (cs_index cs)) bs\<rparr>, r)
              | (bs, None, r) \<Rightarrow>
                  (map_option Err (readError r),
                   cs\<lparr>Data := copy_at (Data cs) (unat (cs_index cs)) bs,
                      cs_index := cs_index cs + n, remain := remain cs - n,
                      got := (if remain cs - n = 0 then True else got cs)\<rparr>, r)))"

definition readChunk ::
  "u32 \<Rightarrow> ChunkStream \<Rightarrow> ReadWriter \<Rightarrow> Pool \<Rightarrow> exn option \<times> ChunkStream \<times> ReadWriter \<times> Pool"
where
  "readChunk chunkSize cs r p =
     (if remain cs \<noteq> 0 \<and> tmpFromat cs \<noteq> 3 then (Some (Err (Errorf ''invalid remain = '')), cs, r, p)
      else case readCSID cs r of (cs, r) \<Rightarrow>
           case readMessageHeader cs r p of
             (Some e, cs, r, p) \<Rightarrow> (Some e, cs, r, p)
           | (None, cs, r, p) \<Rightarrow>
               (case readPayload chunkSize cs r of (e, cs, r) \<Rightarrow> (e, cs, r, p)))"

section \<open>Progress of the reader\<close>

text \<open>
  A read never gives bytes back and never clears a read error; a chunk is read without
  error only from a reader that had no error.
\<close>

definition rd_le :: "ReadWriter \<Rightarrow> ReadWriter \<Rightarrow> bool" where
  "rd_le r r' \<longleftrightarrow> length (rd_in r') \<le> length (rd_in r) \<and>
     (readError r \<noteq> None \<longrightarrow> readError r' = readError r)"

lemma rd_le_refl [simp, intro]: "rd_le r r"
  by (simp add: rd_le_def)

lemma rd_le_trans [trans]: "rd_le r s \<Longrightarrow> rd_le s t \<Longrightarrow> rd_le r t"
  by (auto simp: rd_le_def)

lemma rd_le_tail: "rd_in r = b # bs \<Longrightarrow> rd_le (r\<lparr>rd_in := bs\<rparr>) r' \<Longrightarrow> rd_le r r'"
  by (auto simp: rd_le_def)

lemma rd_le_error: "readError r = None \<Longrightarrow> rd_le r (r\<lparr>readError := e\<rparr>)"
  by (simp add: rd_le_def)

lemma ReadUintBE_loop_le:
  "readError r = None \<Longrightarrow> ReadUintBE_loop n ret r = (v, e, r') \<Longrightarrow> rd_le r r'"
proof (induction n arbitrary: ret r)
  case (Suc n)
  then show ?case by (cases "rd_in r") (auto intro: rd_le_tail rd_le_error)
qed simp

lemma ReadUintLE_loop_le:
  "readError r = None \<Longrightarrow> ReadUintLE_loop n i ret r = (v, e, r') \<Longrightarrow> rd_le r r'"
proof (induction n arbitrary: i ret r)
  case (Suc n)
  then show ?case by (cases "rd_in r") (auto intro: rd_le_tail rd_le_error)
qed simp

lemma ReadUintBE_le: "ReadUintBE n r = (v, e, r') \<Longrightarrow> rd_le r r'"
  by (auto simp: ReadUintBE_def split: option.splits intro: ReadUintBE_loop_le)

lemma ReadUintLE_le: "ReadUintLE n r = (v, e, r') \<Longrightarrow> rd_le r r'"
  by (auto simp: ReadUintLE_def split: option.splits intro: ReadUintLE_loop_le)

lemma readCSID_le: "readCSID cs r = (cs', r') \<Longrightarrow> rd_le r r'"
  by (auto simp: readCSID_def split: if_splits prod.splits intro: ReadUintLE_le)

lemma readExtended_le: "readExtended ts r = (v, b, r') \<Longrightarrow> rd_le r r'"
  by (auto simp: readExtended_def split: if_splits prod.splits intro: ReadUintBE_le)

lemma finishHeader_rw: "finishHeader cs r p = (e, cs', r', p') \<Longrightarrow> r' = r"
  by (auto simp: finishHeader_def split: sum.splits)

lemmas read_le = ReadUintBE_le ReadUintLE_le readExtended_le

lemma readHeader0_le: "readHeader0 cs r p = (e, cs', r', p') \<Longrightarrow> rd_le r r'"
  by (auto simp: readHeader0_def split: prod.splits dest!: finishHeader_rw read_le)
    (meson rd_le_trans)

lemma readHeader1_le: "readHeader1 cs r p = (e, cs', r', p') \<Longrightarrow> rd_le r r'"
  by (auto simp: readHeader1_def split: prod.splits dest!: finishHeader_rw read_le intro: rd_le_trans)

lemma readHeader2_le: "readHeader2 cs r p = (e, cs', r', p') \<Longrightarrow> rd_le r r'"
  by (auto simp: readHeader2_def split: prod.splits dest!: finishHeader_rw read_le intro: rd_le_trans)

lemma readHeader3_le: "readHeader3 cs r p = (e, cs', r', p') \<Longrightarrow> rd_le r r'"
  by (auto simp: readHeader3_def split: prod.splits if_splits option.splits
      dest!: finishHeader_rw read_le intro: rd_le_trans)
    (auto simp: rd_le_def rw_Discard_def)

lemma readMessageHeader_le: "readMessageHeader cs r p = (e, cs', r', p') \<Longrightarrow> rd_le r r'"
  by (auto simp: readMessageHeader_def split: if_splits
      intro: readHeader0_le readHeader1_le readHeader2_le readHeader3_le)

lemma readPayload_ok:
  "readPayload k cs r = (None, cs', r') \<Longrightarrow> readError r = None \<and> rd_le r r'"
  by (auto simp: readPayload_def rw_Read_def rd_le_def Let_def
      split: sum.splits prod.splits option.splits if_splits)

lemma readChunk_ok:
  assumes "readChunk k cs r p = (None, cs', r', p')"
  shows "readError r = None" and "length (rd_in r') \<le> length (rd_in r)"
proof -
  obtain cs1 r1 cs2 r2 p2 where
    1: "readCSID cs r = (cs1, r1)" and 2: "readMessageHeader cs1 r1 p = (None, cs2, r2, p2)"
    and 3: "readPayload k cs2 r2 = (None, cs', r')"
    using assms by (auto simp: readChunk_def split: if_splits prod.splits option.splits)
  have "rd_le r r2"
    using rd_le_trans [OF readCSID_le [OF 1] readMessageHeader_le [OF 2]] .
  with readPayload_ok [OF 3] show "readError r = None" "length (rd_in r') \<le> length (rd_in r)"
    by (auto simp: rd_le_def)
qed

end
