(* ===== verification/Pio.thy ===== *)
theory Pio
  imports Prelude
begin

text \<open>
  \<^verbatim>\<open>src/utils/pio\<close>: reading and writing integers of 8 to 64 bits in a byte slice
  (\<^verbatim>\<open>reader.go\<close>, \<^verbatim>\<open>writer.go\<close>). A slice that is too short is an index panic. A
  signed integer is a word of its width, with \<^verbatim>\<open>>>\<close> as the arithmetic shift.

  The locale \<open>fixed_width\<close> is the contract of such a pair of routines; it is
  interpreted on each pair below and the FLV and RTMP writers rely on it.
\<close>

unbundle bit_operations_syntax

section \<open>reader.go\<close>

fun U8 :: "bytes \<Rightarrow> byte res" where
  "U8 (b0 # _) = Inr b0"
| "U8 _ = Inl (Panic IndexOutOfRange)"

fun U16BE :: "bytes \<Rightarrow> u16 res" where
  "U16BE (b0 # b1 # _) = Inr (push_bit 8 (ucast b0) OR ucast b1)"
| "U16BE _ = Inl (Panic IndexOutOfRange)"

fun I16BE :: "bytes \<Rightarrow> 16 word res" where
  "I16BE (b0 # b1 # _) = Inr (push_bit 8 (ucast b0) OR ucast b1)"
| "I16BE _ = Inl (Panic IndexOutOfRange)"

fun I24BE :: "bytes \<Rightarrow> 32 word res" where
  "I24BE (b0 # b1 # b2 # _) =
     Inr (push_bit 8 (push_bit 8 (scast b0) OR ucast b1) OR ucast b2)"
| "I24BE _ = Inl (Panic IndexOutOfRange)"

fun U24BE :: "bytes \<Rightarrow> u32 res" where
  "U24BE (b0 # b1 # b2 # _) =
     Inr (push_bit 8 (push_bit 8 (ucast b0) OR ucast b1) OR ucast b2)"
| "U24BE _ = Inl (Panic IndexOutOfRange)"

fun I32BE :: "bytes \<Rightarrow> 32 word res" where
  "I32BE (b0 # b1 # b2 # b3 # _) =
     Inr (push_bit 8 (push_bit 8 (push_bit 8 (scast b0) OR ucast b1) OR ucast b2) OR ucast b3)"
| "I32BE _ = Inl (Panic IndexOutOfRange)"

fun U32LE :: "bytes \<Rightarrow> u32 res" where
  "U32LE (b0 # b1 # b2 # b3 # _) =
     Inr (push_bit 8 (push_bit 8 (push_bit 8 (ucast b3) OR ucast b2) OR ucast b1) OR ucast b0)"
| "U32LE _ = Inl (Panic IndexOutOfRange)"

fun U32BE :: "bytes \<Rightarrow> u32 res" where
  "U32BE (b0 # b1 # b2 # b3 # _) =
     Inr (push_bit 8 (push_bit 8 (push_bit 8 (ucast b0) OR ucast b1) OR ucast b2) OR ucast b3)"
| "U32BE _ = Inl (Panic IndexOutOfRange)"

fun U40BE :: "bytes \<Rightarrow> u64 res" where
  "U40BE (b0 # b1 # b2 # b3 # b4 # _) =
     Inr (push_bit 8 (push_bit 8 (push_bit 8 (push_bit 8 (ucast b0)
       OR ucast b1) OR ucast b2) OR ucast b3) OR ucast b4)"
| "U40BE _ = Inl (Panic IndexOutOfRange)"

fun U64BE :: "bytes \<Rightarrow> u64 res" where
  "U64BE (b0 # b1 # b2 # b3 # b4 # b5 # b6 # b7 # _) =
     Inr (push_bit 8 (push_bit 8 (push_bit 8 (push_bit 8 (push_bit 8 (push_bit 8 (push_bit 8
       (ucast b0) OR ucast b1) OR ucast b2) OR ucast b3) OR ucast b4) OR ucast b5)
       OR ucast b6) OR ucast b7)"
| "U64BE _ = Inl (Panic IndexOutOfRange)"

fun I64BE :: "bytes \<Rightarrow> 64 word res" where
  "I64BE (b0 # b1 # b2 # b3 # b4 # b5 # b6 # b7 # _) =
     Inr (push_bit 8 (push_bit 8 (push_bit 8 (push_bit 8 (push_bit 8 (push_bit 8 (push_bit 8
       (scast b0) OR ucast b1) OR ucast b2) OR ucast b3) OR ucast b4) OR ucast b5)
       OR ucast b6) OR ucast b7)"
| "I64BE _ = Inl (Panic IndexOutOfRange)"

section \<open>writer.go\<close>

fun PutU8 :: "bytes \<Rightarrow> byte \<Rightarrow> bytes res" where
  "PutU8 (_ # r) v = Inr (v # r)"
| "PutU8 _ _ = Inl (Panic IndexOutOfRange)"

fun PutI16BE :: "bytes \<Rightarrow> 16 word \<Rightarrow> bytes res" where
  "PutI16BE (_ # _ # r) v = Inr (ucast (signed_drop_bit 8 v) # ucast v # r)"
| "PutI16BE _ _ = Inl (Panic IndexOutOfRange)"

fun PutU16BE :: "bytes \<Rightarrow> u16 \<Rightarrow> bytes res" where
  "PutU16BE (_ # _ # r) v = Inr (ucast (drop_bit 8 v) # ucast v # r)"
| "PutU16BE _ _ = Inl (Panic IndexOutOfRange)"

fun PutI24BE :: "bytes \<Rightarrow> 32 word \<Rightarrow> bytes res" where
  "PutI24BE (_ # _ # _ # r) v =
     Inr (ucast (signed_drop_bit 16 v) # ucast (signed_drop_bit 8 v) # ucast v # r)"
| "PutI24BE _ _ = Inl (Panic IndexOutOfRange)"

fun PutU24BE :: "bytes \<Rightarrow> u32 \<Rightarrow> bytes res" where
  "PutU24BE (_ # _ # _ # r) v = Inr (ucast (drop_bit 16 v) # ucast (drop_bit 8 v) # ucast v # r)"
| "PutU24BE _ _ = Inl (Panic IndexOutOfRange)"

fun PutI32BE :: "bytes \<Rightarrow> 32 word \<Rightarrow> bytes res" where
  "PutI32BE (_ # _ # _ # _ # r) v =
     Inr (ucast (signed_drop_bit 24 v) # ucast (signed_drop_bit 16 v)
        # ucast (signed_drop_bit 8 v) # ucast v # r)"
| "PutI32BE _ _ = Inl (Panic IndexOutOfRange)"

fun PutU32BE :: "bytes \<Rightarrow> u32 \<Rightarrow> bytes res" where
  "PutU32BE (_ # _ # _ # _ # r) v =
     Inr (ucast (drop_bit 24 v) # ucast (drop_bit 16 v) # ucast (drop_bit 8 v) # ucast v # r)"
| "PutU32BE _ _ = Inl (Panic IndexOutOfRange)"

fun PutU32LE :: "bytes \<Rightarrow> u32 \<Rightarrow> bytes res" where
  "PutU32LE (_ # _ # _ # _ # r) v =
     Inr (ucast v # ucast (drop_bit 8 v) # ucast (drop_bit 16 v) # ucast (drop_bit 24 v) # r)"
| "PutU32LE _ _ = Inl (Panic IndexOutOfRange)"

fun PutU40BE :: "bytes \<Rightarrow> u64 \<Rightarrow> bytes res" where
  "PutU40BE (_ # _ # _ # _ # _ # r) v =
     Inr (ucast (drop_bit 32 v) # ucast (drop_bit 24 v) # ucast (drop_bit 16 v)
        # ucast (drop_bit 8 v) # ucast v # r)"
| "PutU40BE _ _ = Inl (Panic IndexOutOfRange)"

fun PutU48BE :: "bytes \<Rightarrow> u64 \<Rightarrow> bytes res" where
  "PutU48BE (_ # _ # _ # _ # _ # _ # r) v =
     Inr (ucast (drop_bit 40 v) # ucast (drop_bit 32 v) # ucast (drop_bit 24 v)
        # ucast (drop_bit 16 v) # ucast (drop_bit 8 v) # ucast v # r)"
| "PutU48BE _ _ = Inl (Panic IndexOutOfRange)"

fun PutU64BE :: "bytes \<Rightarrow> u64 \<Rightarrow> bytes res" where
  "PutU64BE (_ # _ # _ # _ # _ # _ # _ # _ # r) v =
     Inr (ucast (drop_bit 56 v) # ucast (drop_bit 48 v) # ucast (drop_bit 40 v)
        # ucast (drop_bit 32 v) # ucast (drop_bit 24 v) # ucast (drop_bit 16 v)
        # ucast (drop_bit 8 v) # ucast v # r)"
| "PutU64BE _ _ = Inl (Panic IndexOutOfRange)"

fun PutI64BE :: "bytes \<Rightarrow> 64 word \<Rightarrow> bytes res" where
  "PutI64BE (_ # _ # _ # _ # _ # _ # _ # _ # r) v =
     Inr (ucast (signed_drop_bit 56 v) # ucast (signed_drop_bit 48 v) # ucast (signed_drop_bit 40 v)
        # ucast (signed_drop_bit 32 v) # ucast (signed_drop_bit 24 v) # ucast (signed_drop_bit 16 v)
        # ucast (signed_drop_bit 8 v) # ucast v # r)"
| "PutI64BE _ _ = Inl (Panic IndexOutOfRange)"

text \<open>\<^verbatim>\<open>put(b[i:j], v)\<close>: a write through a sub-slice changes the array it is cut from.\<close>

definition put_range :: "(bytes \<Rightarrow> 'v \<Rightarrow> bytes res) \<Rightarrow> bytes \<Rightarrow> nat \<Rightarrow> nat \<Rightarrow> 'v \<Rightarrow> bytes res" where
  "put_range put b i j v =
     bindR (slice b i j) (\<lambda>s. bindR (put s v) (\<lambda>s'. Inr (copy_at b i s')))"

section \<open>The contract of a fixed-width pair\<close>

locale fixed_width =
  fixes width :: nat
    and enc :: "'v \<Rightarrow> bytes"
    and put :: "bytes \<Rightarrow> 'v \<Rightarrow> bytes res"
    and get :: "bytes \<Rightarrow> 'v res"
    and trunc :: "'v \<Rightarrow> 'v"
  assumes length_enc: "length (enc v) = width"
    and put_eq: "put b v =
      (if width \<le> length b then Inr (enc v @ drop width b) else Inl (Panic IndexOutOfRange))"
    and get_short: "length b < width \<Longrightarrow> get b = Inl (Panic IndexOutOfRange)"
    and get_enc: "get (enc v @ r) = Inr (trunc v)"
begin

lemma get_put: "put b v = Inr b' \<Longrightarrow> get b' = Inr (trunc v)"
  by (auto simp: put_eq get_enc split: if_splits)

lemma read_back:
  "bindR (put b v) get = (if width \<le> length b then Inr (trunc v) else Inl (Panic IndexOutOfRange))"
  by (simp add: put_eq get_enc)

lemma put_total: "width \<le> length b \<Longrightarrow> \<exists>b'. put b v = Inr b' \<and> length b' = length b"
  by (simp add: put_eq length_enc)

lemma put_frame: "put b v = Inr b' \<Longrightarrow> drop width b' = drop width b"
  by (auto simp: put_eq length_enc split: if_splits)

lemma put_range_eq:
  assumes "i + width \<le> j" and "j \<le> length b"
  shows "put_range put b i j v = Inr (take i b @ enc v @ drop (i + width) b)"
proof -
  have "slice b i j = Inr (take (j - i) (drop i b))" using assms by simp
  moreover have "put (take (j - i) (drop i b)) v = Inr (enc v @ take (j - i - width) (drop (i + width) b))"
    using assms by (simp add: put_eq drop_take add.commute)
  moreover have "copy_at b i (enc v @ take (j - i - width) (drop (i + width) b)) =
      take i b @ enc v @ drop (i + width) b"
  proof -
    have w: "width + min (length b - (i + width)) (j - (i + width)) = j - i"
      using assms by simp
    have "take (j - (i + width)) (drop (i + width) b) @ drop j b = drop (i + width) b"
      using assms by (metis append_take_drop_id drop_drop le_add_diff_inverse2)
    then show ?thesis
      using assms by (simp add: copy_at_def length_enc w)
  qed
  ultimately show ?thesis by (simp add: put_range_def)
qed

end


section \<open>The pairs fulfil the contract\<close>

lemma scast_byte_shift:
  "LENGTH('a) \<le> n + 8 \<Longrightarrow> push_bit n (scast (b :: byte)) = (push_bit n (ucast b) :: 'a::len word)"
  by (rule bit_word_eqI) (auto simp: bit_simps)

lemma signed_byte_of:
  "n + 8 \<le> LENGTH('a) \<Longrightarrow> (ucast (signed_drop_bit n (v :: 'a::len word)) :: byte) = ucast (drop_bit n v)"
  by (rule bit_word_eqI) (auto simp: bit_simps add.commute)

lemma join_step_numeral:
  "m' = m + 8 \<Longrightarrow> push_bit 8 (take_bit k (drop_bit m' v)) OR take_bit 8 (drop_bit m v) =
   (take_bit (k + 8) (drop_bit m v) :: 'a::len word)"
  by (simp only: join_step)

lemma join_step_last:
  "push_bit 8 (take_bit k (drop_bit 8 v)) OR take_bit 8 v = (take_bit (k + 8) v :: 'a::len word)"
  using join_step [of k 0 v] by simp

lemmas join_steps = byte_of_word_of_byte join_step_numeral join_step_last take_bit_full_word

lemma be_bytes_2: "be_bytes 2 v = [ucast (drop_bit 8 v), ucast v]"
  by (simp add: numeral_eq_Suc)

lemma be_bytes_3: "be_bytes 3 v = [ucast (drop_bit 16 v), ucast (drop_bit 8 v), ucast v]"
  by (simp add: numeral_eq_Suc)

lemma be_bytes_4:
  "be_bytes 4 v = [ucast (drop_bit 24 v), ucast (drop_bit 16 v), ucast (drop_bit 8 v), ucast v]"
  by (simp add: numeral_eq_Suc)

lemma be_bytes_5:
  "be_bytes 5 v = [ucast (drop_bit 32 v), ucast (drop_bit 24 v), ucast (drop_bit 16 v),
     ucast (drop_bit 8 v), ucast v]"
  by (simp add: numeral_eq_Suc)

lemma be_bytes_8:
  "be_bytes 8 v = [ucast (drop_bit 56 v), ucast (drop_bit 48 v), ucast (drop_bit 40 v),
     ucast (drop_bit 32 v), ucast (drop_bit 24 v), ucast (drop_bit 16 v), ucast (drop_bit 8 v), ucast v]"
  by (simp add: numeral_eq_Suc)

lemmas be_bytes_unfold = be_bytes_2 be_bytes_3 be_bytes_4 be_bytes_5 be_bytes_8

text \<open>The sign extension of the first byte is shifted out when the integer is full.\<close>

lemma I16BE_eq: "I16BE b = U16BE b"
  by (cases b rule: U16BE.cases) (simp_all add: scast_byte_shift)

lemma I32BE_eq: "I32BE b = U32BE b"
  by (cases b rule: U32BE.cases) (simp_all add: scast_byte_shift)

lemma I64BE_eq: "I64BE b = U64BE b"
  by (cases b rule: U64BE.cases) (simp_all add: scast_byte_shift)

lemma PutI16BE_eq: "PutI16BE b v = PutU16BE b v"
  by (cases "(b, v)" rule: PutU16BE.cases) (simp_all add: signed_byte_of)

lemma PutI24BE_eq: "PutI24BE b v = PutU24BE b v"
  by (cases "(b, v)" rule: PutU24BE.cases) (simp_all add: signed_byte_of)

lemma PutI32BE_eq: "PutI32BE b v = PutU32BE b v"
  by (cases "(b, v)" rule: PutU32BE.cases) (simp_all add: signed_byte_of)

lemma PutI64BE_eq: "PutI64BE b v = PutU64BE b v"
  by (cases "(b, v)" rule: PutU64BE.cases) (simp_all add: signed_byte_of)

lemmas signed_eq_unsigned = I16BE_eq I32BE_eq I64BE_eq
  PutI16BE_eq PutI24BE_eq PutI32BE_eq PutI64BE_eq

text \<open>Three bytes are sign-extended to 32 bits.\<close>

lemma scast_join_3:
  "(push_bit 16 (scast (ucast (drop_bit 16 v) :: byte)) OR push_bit 8 (take_bit 8 (drop_bit 8 v)))
     OR take_bit 8 v = (signed_take_bit 23 v :: 32 word)"
proof (rule bit_word_eqI)
  fix n
  show "bit ((push_bit 16 (scast (ucast (drop_bit 16 v) :: byte)) OR push_bit 8 (take_bit 8 (drop_bit 8 v)))
      OR take_bit 8 v :: 32 word) n = bit (signed_take_bit 23 v) n"
    by (cases "16 \<le> n") (auto simp: bit_simps not_less min_def)
qed

interpretation u8: fixed_width 1 "\<lambda>v. [v]" PutU8 U8 "\<lambda>v. v"
proof
  show "PutU8 b v = (if 1 \<le> length b then Inr ([v] @ drop 1 b) else Inl (Panic IndexOutOfRange))"
    for b v by (cases b) auto
qed auto

interpretation u16: fixed_width 2 "be_bytes 2 :: u16 \<Rightarrow> bytes" PutU16BE U16BE "\<lambda>v. v"
proof
  show "PutU16BE b v = (if 2 \<le> length b then Inr (be_bytes 2 v @ drop 2 b) else Inl (Panic IndexOutOfRange))"
    for b v by (cases "(b, v)" rule: PutU16BE.cases) (auto simp: be_bytes_unfold)
  show "length b < 2 \<Longrightarrow> U16BE b = Inl (Panic IndexOutOfRange)" for b
    by (cases b rule: U16BE.cases) auto
  show "U16BE (be_bytes 2 v @ r) = Inr v" for v r
    by (simp add: be_bytes_unfold join_steps take_bit_self)
qed simp

interpretation i16: fixed_width 2 "be_bytes 2 :: 16 word \<Rightarrow> bytes" PutI16BE I16BE "\<lambda>v. v"
  by standard (simp_all add: signed_eq_unsigned u16.put_eq u16.get_short u16.get_enc)

interpretation u24: fixed_width 3 "be_bytes 3 :: u32 \<Rightarrow> bytes" PutU24BE U24BE "take_bit 24"
proof
  show "PutU24BE b v = (if 3 \<le> length b then Inr (be_bytes 3 v @ drop 3 b) else Inl (Panic IndexOutOfRange))"
    for b v by (cases "(b, v)" rule: PutU24BE.cases) (auto simp: be_bytes_unfold)
  show "length b < 3 \<Longrightarrow> U24BE b = Inl (Panic IndexOutOfRange)" for b
    by (cases b rule: U24BE.cases) auto
  show "U24BE (be_bytes 3 v @ r) = Inr (take_bit 24 v)" for v r
    by (simp add: be_bytes_unfold join_steps take_bit_self)
qed simp

interpretation i24: fixed_width 3 "be_bytes 3 :: 32 word \<Rightarrow> bytes" PutI24BE I24BE "signed_take_bit 23"
proof
  show "PutI24BE b v = (if 3 \<le> length b then Inr (be_bytes 3 v @ drop 3 b) else Inl (Panic IndexOutOfRange))"
    for b v by (cases "(b, v)" rule: PutI24BE.cases) (auto simp: be_bytes_unfold signed_byte_of)
  show "length b < 3 \<Longrightarrow> I24BE b = Inl (Panic IndexOutOfRange)" for b
    by (cases b rule: I24BE.cases) auto
  show "I24BE (be_bytes 3 v @ r) = Inr (signed_take_bit 23 v)" for v r
    by (simp add: be_bytes_unfold join_steps scast_join_3)
qed simp

interpretation u32: fixed_width 4 "be_bytes 4 :: u32 \<Rightarrow> bytes" PutU32BE U32BE "\<lambda>v. v"
proof
  show "PutU32BE b v = (if 4 \<le> length b then Inr (be_bytes 4 v @ drop 4 b) else Inl (Panic IndexOutOfRange))"
    for b v by (cases "(b, v)" rule: PutU32BE.cases) (auto simp: be_bytes_unfold)
  show "length b < 4 \<Longrightarrow> U32BE b = Inl (Panic IndexOutOfRange)" for b
    by (cases b rule: U32BE.cases) auto
  show "U32BE (be_bytes 4 v @ r) = Inr v" for v r
    by (simp add: be_bytes_unfold join_steps take_bit_self)
qed simp

interpretation i32: fixed_width 4 "be_bytes 4 :: 32 word \<Rightarrow> bytes" PutI32BE I32BE "\<lambda>v. v"
  by standard (simp_all add: signed_eq_unsigned u32.put_eq u32.get_short u32.get_enc)

interpretation u40: fixed_width 5 "be_bytes 5 :: u64 \<Rightarrow> bytes" PutU40BE U40BE "take_bit 40"
proof
  show "PutU40BE b v = (if 5 \<le> length b then Inr (be_bytes 5 v @ drop 5 b) else Inl (Panic IndexOutOfRange))"
    for b v by (cases "(b, v)" rule: PutU40BE.cases) (auto simp: be_bytes_unfold)
  show "length b < 5 \<Longrightarrow> U40BE b = Inl (Panic IndexOutOfRange)" for b
    by (cases b rule: U40BE.cases) auto
  show "U40BE (be_bytes 5 v @ r) = Inr (take_bit 40 v)" for v r
    by (simp add: be_bytes_unfold join_steps take_bit_self)
qed simp

interpretation u64: fixed_width 8 "be_bytes 8 :: u64 \<Rightarrow> bytes" PutU64BE U64BE "\<lambda>v. v"
proof
  show "PutU64BE b v = (if 8 \<le> length b then Inr (be_bytes 8 v @ drop 8 b) else Inl (Panic IndexOutOfRange))"
    for b v by (cases "(b, v)" rule: PutU64BE.cases) (auto simp: be_bytes_unfold)
  show "length b < 8 \<Longrightarrow> U64BE b = Inl (Panic IndexOutOfRange)" for b
    by (cases b rule: U64BE.cases) auto
  show "U64BE (be_bytes 8 v @ r) = Inr v" for v r
    by (simp add: be_bytes_unfold join_steps take_bit_self)
qed simp

interpretation i64: fixed_width 8 "be_bytes 8 :: 64 word \<Rightarrow> bytes" PutI64BE I64BE "\<lambda>v. v"
  by standard (simp_all add: signed_eq_unsigned u64.put_eq u64.get_short u64.get_enc)

interpretation u32le: fixed_width 4 "\<lambda>v :: u32. rev (be_bytes 4 v)" PutU32LE U32LE "\<lambda>v. v"
proof
  show "PutU32LE b v =
      (if 4 \<le> length b then Inr (rev (be_bytes 4 v) @ drop 4 b) else Inl (Panic IndexOutOfRange))"
    for b v by (cases "(b, v)" rule: PutU32LE.cases) (auto simp: be_bytes_unfold)
  show "length b < 4 \<Longrightarrow> U32LE b = Inl (Panic IndexOutOfRange)" for b
    by (cases b rule: U32LE.cases) auto
  show "U32LE (rev (be_bytes 4 v) @ r) = Inr v" for v r
    by (simp add: be_bytes_unfold join_steps)
qed simp


text \<open>
  C16: for every pair of routines, what was written is what is read back, cut to the width of the
  field (with the sign extended for \<^verbatim>\<open>I24BE\<close>), whatever the buffer held; and a buffer shorter
  than the field is an index panic, never a silent truncation.
\<close>

theorem pio_read_after_write:
  "bindR (PutU8 b v8) U8 = (if 1 \<le> length b then Inr v8 else Inl (Panic IndexOutOfRange)) \<and>
   bindR (PutU16BE b v16) U16BE = (if 2 \<le> length b then Inr v16 else Inl (Panic IndexOutOfRange)) \<and>
   bindR (PutI16BE b v16) I16BE = (if 2 \<le> length b then Inr v16 else Inl (Panic IndexOutOfRange)) \<and>
   bindR (PutU24BE b v32) U24BE = (if 3 \<le> length b then Inr (take_bit 24 v32) else Inl (Panic IndexOutOfRange)) \<and>
   bindR (PutI24BE b v32) I24BE = (if 3 \<le> length b then Inr (signed_take_bit 23 v32) else Inl (Panic IndexOutOfRange)) \<and>
   bindR (PutU32BE b v32) U32BE = (if 4 \<le> length b then Inr v32 else Inl (Panic IndexOutOfRange)) \<and>
   bindR (PutI32BE b v32) I32BE = (if 4 \<le> length b then Inr v32 else Inl (Panic IndexOutOfRange)) \<and>
   bindR (PutU32LE b v32) U32LE = (if 4 \<le> length b then Inr v32 else Inl (Panic IndexOutOfRange)) \<and>
   bindR (PutU40BE b v64) U40BE = (if 5 \<le> length b then Inr (take_bit 40 v64) else Inl (Panic IndexOutOfRange)) \<and>
   bindR (PutU64BE b v64) U64BE = (if 8 \<le> length b then Inr v64 else Inl (Panic IndexOutOfRange)) \<and>
   bindR (PutI64BE b v64) I64BE = (if 8 \<le> length b then Inr v64 else Inl (Panic IndexOutOfRange))"
  by (simp only: u8.read_back u16.read_back i16.read_back u24.read_back i24.read_back u32.read_back
      i32.read_back u32le.read_back u40.read_back u64.read_back i64.read_back simp_thms)

end
