(* ===== verification/Conn.thy ===== *)
theory Conn
  imports ChunkStream Pio
begin

text \<open>
  \<^verbatim>\<open>src/protocol/rtmp/core/conn.go\<close>: an RTMP connection. \<open>conn_Read\<close> reads chunks until
  a message is complete, applies the control messages and acknowledges; \<open>conn_Write\<close>
  writes one message. The map \<open>chunks\<close> is keyed, as in the source, by the six bits of
  the first header byte.
\<close>

unbundle bit_operations_syntax

abbreviation idSetChunkSize :: u32 where "idSetChunkSize \<equiv> 1"
abbreviation idAbortMessages :: u32 where "idAbortMessages \<equiv> 2"
abbreviation idAck :: u32 where "idAck \<equiv> 3"
abbreviation idUserControlMessages :: u32 where "idUserControlMessages \<equiv> 4"
abbreviation idWindowAckSize :: u32 where "idWindowAckSize \<equiv> 5"
abbreviation idSetPeerBandwidth :: u32 where "idSetPeerBandwidth \<equiv> 6"

record Conn =
  chunkSize :: u32
  remoteChunkSize :: u32
  windowAckSize :: u32
  remoteWindowAckSize :: u32
  received :: u32
  ackReceived :: u32
  conn_rw :: ReadWriter
  conn_pool :: Pool
  chunks :: "u32 \<rightharpoonup> ChunkStream"

text \<open>The transport (input, its end, what the peer accepts) takes the place of \<^verbatim>\<open>net.Conn\<close>.\<close>

definition NewConn :: "bytes \<Rightarrow> go_error \<Rightarrow> nat option \<Rightarrow> nat \<Rightarrow> Conn" where
  "NewConn input fin cap bufferSize =
     \<lparr>chunkSize = 128, remoteChunkSize = 128, windowAckSize = 2500000,
      remoteWindowAckSize = 2500000, received = 0, ackReceived = 0,
      conn_rw = NewReadWriter input fin cap bufferSize, conn_pool = NewPool, chunks = Map.empty\<rparr>"

section \<open>Control messages\<close>

definition initControlMsg :: "u32 \<Rightarrow> u32 \<Rightarrow> u32 \<Rightarrow> ChunkStream res" where
  "initControlMsg typ sz value =
     (let ret = emptyChunkStream\<lparr>Format := 0, CSID := 2, TypeID := typ, StreamID := 0, Length := sz,
                  Data := replicate (unat sz) 0\<rparr>
      in bindR (put_range PutU32BE (Data ret) 0 (unat sz) value) (\<lambda>d. Inr (ret\<lparr>Data := d\<rparr>)))"

definition NewAck :: "u32 \<Rightarrow> ChunkStream res" where
  "NewAck sz = initControlMsg idAck 4 sz"

definition NewSetChunkSize :: "u32 \<Rightarrow> ChunkStream res" where
  "NewSetChunkSize sz = initControlMsg idSetChunkSize 4 sz"

definition NewWindowAckSize :: "u32 \<Rightarrow> ChunkStream res" where
  "NewWindowAckSize sz = initControlMsg idWindowAckSize 4 sz"

definition NewSetPeerBandwidth :: "u32 \<Rightarrow> ChunkStream res" where
  "NewSetPeerBandwidth sz =
     bindR (initControlMsg idSetPeerBandwidth 5 sz) (\<lambda>ret.
       if 4 < length (Data ret) then Inr (ret\<lparr>Data := (Data ret)[4 := 2]\<rparr>)
       else Inl (Panic IndexOutOfRange))"

definition conn_Write :: "ChunkStream \<Rightarrow> Conn \<Rightarrow> exn option \<times> ChunkStream \<times> Conn" where
  "conn_Write c conn =
     (case (if TypeID c = idSetChunkSize
            then map_sum id (\<lambda>n. conn\<lparr>chunkSize := n\<rparr>) (BigEndian_Uint32 (Data c))
            else Inr conn) of
        Inl e \<Rightarrow> (Some e, c, conn)
      | Inr conn \<Rightarrow>
          (case writeChunk c (chunkSize conn) (conn_rw conn) of
             (e, c, w) \<Rightarrow> (e, c, conn\<lparr>conn_rw := w\<rparr>)))"

definition conn_Flush :: "Conn \<Rightarrow> go_error option \<times> Conn" where
  "conn_Flush conn = (case rw_Flush (conn_rw conn) of (e, w) \<Rightarrow> (e, conn\<lparr>conn_rw := w\<rparr>))"

definition handleControlMsg :: "ChunkStream \<Rightarrow> Conn \<Rightarrow> Conn res" where
  "handleControlMsg c conn =
     (if TypeID c = idSetChunkSize
      then map_sum id (\<lambda>n. conn\<lparr>remoteChunkSize := n\<rparr>) (BigEndian_Uint32 (Data c))
      else if TypeID c = idWindowAckSize
      then map_sum id (\<lambda>n. conn\<lparr>remoteWindowAckSize := n\<rparr>) (BigEndian_Uint32 (Data c))
      else Inr conn)"

definition conn_ack :: "u32 \<Rightarrow> Conn \<Rightarrow> exn option \<times> Conn" where
  "conn_ack sz conn =
     (let conn = conn\<lparr>received := received conn + sz, ackReceived := ackReceived conn + sz\<rparr>;
          conn = (if received conn \<ge> 0xf0000000 then conn\<lparr>received := 0\<rparr> else conn)
      in if ackReceived conn \<ge> remoteWindowAckSize conn
         then (case NewAck (ackReceived conn) of
                 Inl e \<Rightarrow> (Some e, conn)
               | Inr cs \<Rightarrow>
                   (case writeChunk cs (chunkSize conn) (conn_rw conn) of
                      (e, _, w) \<Rightarrow>
                        (case ignore_err e of
                           Some e \<Rightarrow> (Some e, conn\<lparr>conn_rw := w\<rparr>)
                         | None \<Rightarrow> (None, conn\<lparr>conn_rw := w, ackReceived := 0\<rparr>))))
         else (None, conn))"

section \<open>Reading a message\<close>

text \<open>One round of the loop of \<^verbatim>\<open>Read\<close> (lines 53 to 71).\<close>

definition conn_Read_step :: "Conn \<Rightarrow> exn option \<times> ChunkStream \<times> Conn" where
  "conn_Read_step conn =
     (case ReadUintBE 1 (conn_rw conn) of (h, _, rw) \<Rightarrow>
        (let format = drop_bit 6 h;
             csid = h AND 0x3f;
             cs = (case chunks conn csid of Some cs \<Rightarrow> cs | None \<Rightarrow> emptyChunkStream);
             conn = (case chunks conn csid of
                       Some _ \<Rightarrow> conn
                     | None \<Rightarrow> conn\<lparr>chunks := (chunks conn)(csid \<mapsto> emptyChunkStream)\<rparr>);
             cs = cs\<lparr>tmpFromat := format, CSID := csid\<rparr>
         in case readChunk (remoteChunkSize conn) cs rw (conn_pool conn) of
              (Some e, cs, rw, p) \<Rightarrow> (Some e, cs, conn\<lparr>conn_rw := rw, conn_pool := p\<rparr>)
            | (None, cs, rw, p) \<Rightarrow>
                (None, cs, conn\<lparr>conn_rw := rw, conn_pool := p, chunks := (chunks conn)(csid \<mapsto> cs)\<rparr>)))"

lemma ReadUintBE_1:
  "readError rw = None \<Longrightarrow> rd_in rw = b # bs \<Longrightarrow>
   ReadUintBE 1 rw = (ucast b, None, rw\<lparr>rd_in := bs\<rparr>)"
  by (simp add: ReadUintBE_def)

lemma ReadUintBE_1_progress:
  assumes "ReadUintBE 1 rw = (h, e, rw')" and "readError rw' = None"
  shows "length (rd_in rw') < length (rd_in rw)"
  using assms by (cases "rd_in rw") (auto simp: ReadUintBE_def split: option.splits)

text \<open>A round that succeeds has consumed input.\<close>

lemma conn_Read_step_progress:
  assumes "conn_Read_step conn = (None, cs, conn')"
  shows "length (rd_in (conn_rw conn')) < length (rd_in (conn_rw conn))"
proof -
  obtain h e rw where h: "ReadUintBE 1 (conn_rw conn) = (h, e, rw)" by (metis prod_cases3)
  then obtain k cs0 p rw' cs' p' where "readChunk k cs0 rw p = (None, cs', rw', p')"
    and "conn_rw conn' = rw'"
    using assms by (auto simp: conn_Read_step_def Let_def split: prod.splits option.splits)
  with readChunk_ok [of k cs0 rw p cs' rw' p'] ReadUintBE_1_progress [OF h] show ?thesis by simp
qed

function conn_Read_loop :: "Conn \<Rightarrow> exn option \<times> ChunkStream \<times> Conn" where
  "conn_Read_loop conn =
     (case conn_Read_step conn of
        (Some e, cs, conn) \<Rightarrow> (Some e, cs, conn)
      | (None, cs, conn) \<Rightarrow> if cs_full cs then (None, cs, conn) else conn_Read_loop conn)"
  by pat_completeness auto
termination
  by (relation "measure (\<lambda>conn. length (rd_in (conn_rw conn)))")
    (auto dest: conn_Read_step_progress [OF sym])

declare conn_Read_loop.simps [simp del]

definition conn_Read :: "ChunkStream \<Rightarrow> Conn \<Rightarrow> exn option \<times> ChunkStream \<times> Conn" where
  "conn_Read c conn =
     (case conn_Read_loop conn of
        (Some e, _, conn) \<Rightarrow> (Some e, c, conn)
      | (None, c, conn) \<Rightarrow>
          (case handleControlMsg c conn of
             Inl e \<Rightarrow> (Some e, c, conn)
           | Inr conn \<Rightarrow> (case conn_ack (Length c) conn of (e, conn) \<Rightarrow> (e, c, conn))))"

section \<open>User control messages\<close>

abbreviation streamBegin :: u32 where "streamBegin \<equiv> 0"
abbreviation streamIsRecorded :: u32 where "streamIsRecorded \<equiv> 4"

definition userControlMsg :: "u32 \<Rightarrow> u32 \<Rightarrow> ChunkStream res" where
  "userControlMsg eventType buflen =
     (let buflen = buflen + 2;
          ret = emptyChunkStream\<lparr>Format := 0, CSID := 2, TypeID := 4, StreamID := 1, Length := buflen,
                  Data := replicate (unat buflen) 0\<rparr>
      in if length (Data ret) < 2 then Inl (Panic IndexOutOfRange)
         else Inr (ret\<lparr>Data := (Data ret)[0 := ucast (drop_bit 8 eventType AND 0xff),
                                            1 := ucast (eventType AND 0xff)]\<rparr>))"

text \<open>The loop that stores the stream id 1 (lines 208 to 210 and 217 to 219).\<close>

definition putStreamID1 :: "ChunkStream \<Rightarrow> ChunkStream res" where
  "putStreamID1 ret =
     (if length (Data ret) < 6 then Inl (Panic IndexOutOfRange)
      else Inr (ret\<lparr>Data := fold (\<lambda>i d. d[2 + i := drop_bit ((3 - i) * 8) (1 :: byte) AND 0xff])
                                 [0..<4] (Data ret)\<rparr>))"

definition SetBegin :: "Conn \<Rightarrow> exn option \<times> Conn" where
  "SetBegin conn =
     (case bindR (userControlMsg streamBegin 4) putStreamID1 of
        Inl e \<Rightarrow> (Some e, conn)
      | Inr ret \<Rightarrow> (case conn_Write ret conn of (e, _, conn) \<Rightarrow> (ignore_err e, conn)))"

definition SetRecorded :: "Conn \<Rightarrow> exn option \<times> Conn" where
  "SetRecorded conn =
     (case bindR (userControlMsg streamIsRecorded 4) putStreamID1 of
        Inl e \<Rightarrow> (Some e, conn)
      | Inr ret \<Rightarrow> (case conn_Write ret conn of (e, _, conn) \<Rightarrow> (ignore_err e, conn)))"

end
