(* ===== verification/ChunkWire.thy ===== *)
theory ChunkWire
  imports Conn
begin

text \<open>
  The wire format of RTMP messages as a specification, and the round trip through it:
  what \<^verbatim>\<open>Conn.Write\<close> emits is the specified sequence of chunks, and \<^verbatim>\<open>Conn.Read\<close>
  of a peer that agrees on the chunk size rebuilds every message from it.
\<close>

unbundle bit_operations_syntax

declare be_bytes.simps [simp del] le_bytes.simps [simp del]

section \<open>The format\<close>

text \<open>The basic header: a two-bit format and a chunk stream id in one to three bytes.\<close>

definition basic_header :: "u32 \<Rightarrow> u32 \<Rightarrow> bytes" where
  "basic_header fmt csid =
     (if csid < 64 then be_bytes 1 (push_bit 6 fmt OR csid)
      else if csid - 64 < 256 then be_bytes 1 (push_bit 6 fmt) @ le_bytes 1 (csid - 64)
      else if csid - 64 < 65536 then be_bytes 1 (push_bit 6 fmt OR 1) @ le_bytes 2 (csid - 64)
      else [])"

definition ext_bytes :: "u32 \<Rightarrow> bytes" where
  "ext_bytes ts = (if ts \<ge> 0xffffff then be_bytes 4 ts else [])"

definition first_header :: "ChunkStream \<Rightarrow> bytes" where
  "first_header cs =
     basic_header 0 (CSID cs) @
     be_bytes 3 (if Timestamp cs > 0xffffff then 0xffffff else Timestamp cs) @
     be_bytes 3 (Length cs) @ be_bytes 1 (TypeID cs) @ le_bytes 4 (StreamID cs) @
     ext_bytes (Timestamp cs)"

definition next_header :: "ChunkStream \<Rightarrow> bytes" where
  "next_header cs = basic_header 3 (CSID cs) @ ext_bytes (Timestamp cs)"

text \<open>The payload in pieces of at most \<open>k\<close> bytes, a header before each.\<close>

function next_chunks :: "nat \<Rightarrow> bytes \<Rightarrow> bytes \<Rightarrow> bytes" where
  "next_chunks k h d =
     (if d = [] \<or> k = 0 then [] else h @ take k d @ next_chunks k h (drop k d))"
  by pat_completeness auto
termination by (relation "measure (\<lambda>(k, h, d). length d)") auto

declare next_chunks.simps [simp del]

definition message_bytes :: "nat \<Rightarrow> ChunkStream \<Rightarrow> bytes" where
  "message_bytes k cs =
     first_header cs @ take k (Data cs) @ next_chunks k (next_header cs) (drop k (Data cs))"

lemma next_chunks_Nil [simp]: "next_chunks k h [] = []"
  by (simp add: next_chunks.simps)

lemma next_chunks_step:
  "d \<noteq> [] \<Longrightarrow> 0 < k \<Longrightarrow> next_chunks k h d = h @ take k d @ next_chunks k h (drop k d)"
  by (subst next_chunks.simps) simp

section \<open>The writer emits the format\<close>

definition emitted :: "ReadWriter \<Rightarrow> bytes \<Rightarrow> ReadWriter \<Rightarrow> bool" where
  "emitted rw bs rw' \<longleftrightarrow>
     rw_good rw' \<and> rw' = rw\<lparr>wr := wr rw'\<rparr> \<and> rw_stream rw' = rw_stream rw @ bs \<and> bufw_grows (wr rw) (wr rw')"

lemma emitted_refl: "rw_good rw \<Longrightarrow> emitted rw [] rw"
  by (simp add: emitted_def)

lemma emitted_good: "emitted rw bs rw' \<Longrightarrow> rw_good rw'"
  by (simp add: emitted_def)

lemma emitted_trans: "emitted a xs b \<Longrightarrow> emitted b ys c \<Longrightarrow> emitted a (xs @ ys) c"
  unfolding emitted_def by (metis (no_types, lifting) append.assoc ReadWriter.update_convs(4)
      ReadWriter.surjective ReadWriter.ext_inject bufw_grows_trans)

lemma emits_emitted: "emits f bs \<Longrightarrow> rw_good rw \<Longrightarrow> fst (f rw) = None \<and> emitted rw bs (snd (f rw))"
  by (erule (1) emitsE) (simp add: emitted_def rw_stream_def)

lemma putBE_emitted: "rw_good rw \<Longrightarrow> emitted rw (be_bytes n v) (putBE v n rw)"
  using emits_emitted [OF emits_WriteUintBE] by blast

lemma putLE_emitted: "rw_good rw \<Longrightarrow> emitted rw (le_bytes n v) (putLE v n rw)"
  using emits_emitted [OF emits_WriteUintLE] by blast

lemma then_putBE: "emitted a bs b \<Longrightarrow> emitted a (bs @ be_bytes n v) (putBE v n b)"
  by (blast intro: emitted_trans putBE_emitted emitted_good)

lemma then_putLE: "emitted a bs b \<Longrightarrow> emitted a (bs @ le_bytes n v) (putLE v n b)"
  by (blast intro: emitted_trans putLE_emitted emitted_good)

lemma writeBasicHeader_emitted:
  "rw_good w \<Longrightarrow> emitted w (basic_header (Format cs) (CSID cs)) (writeBasicHeader cs w)"
  by (auto simp: writeBasicHeader_def basic_header_def Let_def simp del: One_nat_def
      intro: then_putLE putBE_emitted emitted_refl)

lemma writeExtended_emitted:
  assumes "emitted w bs w1"
  shows "\<exists>w'. writeExtended ts cs w1 = (None, w') \<and>
     emitted w (bs @ (if ts \<ge> 0xffffff then be_bytes 4 (Timestamp cs) else [])) w'"
  using assms then_putBE [OF assms, of 4 "Timestamp cs"]
  by (auto simp: writeExtended_def Let_def emitted_def rw_good_def)

lemma writeHeader_first:
  assumes "rw_good w" and "Format cs = 0" and "\<not> Length cs > 0xffffff"
  shows "\<exists>w'. writeHeader cs w = (None, w') \<and> emitted w (first_header cs) w'"
proof -
  let ?ts = "if Timestamp cs > 0xffffff then 0xffffff else Timestamp cs"
  have h: "emitted w (basic_header 0 (CSID cs)) (writeBasicHeader cs w)"
    using writeBasicHeader_emitted [OF assms(1), of cs] assms(2) by simp
  have ts: "?ts \<ge> 0xffffff \<longleftrightarrow> Timestamp cs \<ge> 0xffffff" by (auto simp: not_less)
  note e = then_putBE [OF h, of 3 ?ts, THEN then_putBE, of 3 "Length cs", THEN then_putBE, of 1 "TypeID cs",
    THEN then_putLE, of 4 "StreamID cs"]
  show ?thesis
    using writeExtended_emitted [OF e, of ?ts cs] assms ts
    by (simp add: writeHeader_def first_header_def ext_bytes_def Let_def del: One_nat_def)
qed

lemma writeHeader_next:
  assumes "rw_good w" and "Format cs = 3"
  shows "\<exists>w'. writeHeader cs w = (None, w') \<and> emitted w (next_header cs) w'"
  using writeExtended_emitted [OF writeBasicHeader_emitted [OF assms(1)], of "Timestamp cs" cs cs] assms(2)
  by (simp add: writeHeader_def next_header_def ext_bytes_def Let_def)


text \<open>
  A message fits its length field, and its counters do not wrap: all the word arithmetic of
  \<^verbatim>\<open>writeChunk\<close> is then the arithmetic of natural numbers.
\<close>

definition sized :: "ChunkStream \<Rightarrow> bool" where
  "sized cs \<longleftrightarrow> unat (Length cs) = length (Data cs) \<and> length (Data cs) \<le> 0xffffff"

lemma of_nat_unat_id: "word_of_nat (unat v) = v"
  by simp

lemma sized_Length: "sized cs \<Longrightarrow> Length cs = word_of_nat (length (Data cs))"
  by (metis sized_def of_nat_unat_id)

lemma unat_small: "n \<le> 0xffffff \<Longrightarrow> unat (word_of_nat n :: u32) = n"
  by (simp add: unsigned_of_nat take_bit_nat_eq_self_iff)

lemma writeChunk_loop_step:
  assumes sz: "sized cs" and k: "unat ck = k" and i: "i * k < length (Data cs)" "0 < k"
    and h: "writeHeader (cs\<lparr>Format := (if i = 0 then 0 else 3)\<rparr>) w = (None, w1)" "emitted w h w1"
  shows "\<exists>w2. emitted w (h @ take k (drop (i * k) (Data cs))) w2 \<and>
    writeChunk_loop ck (length (Data cs) div k) i (word_of_nat (i * k)) cs w =
    writeChunk_loop ck (length (Data cs) div k) (Suc i) (word_of_nat (min (Suc i * k) (length (Data cs))))
      (cs\<lparr>Format := (if i = 0 then 0 else 3)\<rparr>) w2"
proof -
  let ?D = "Data cs" and ?L = "length (Data cs)" and ?cs = "cs\<lparr>Format := (if i = 0 then 0 else 3)\<rparr>"
  let ?n = "min (?L - i * k) k"
  have D: "Data ?cs = ?D" by simp
  have L: "?L \<le> 0xffffff" using sz by (simp add: sized_def)
  have ck: "ck = word_of_nat k" using k by (metis of_nat_unat_id)
  have start: "word_of_nat i * ck = (word_of_nat (i * k) :: u32)" by (simp add: ck)
  have avail: "word_of_nat ?L - word_of_nat (i * k) = (word_of_nat (?L - i * k) :: u32)"
    using i by (simp add: of_nat_diff)
  have inc: "(if word_of_nat (?L - i * k) \<le> ck then word_of_nat (?L - i * k) else ck) = (word_of_nat ?n :: u32)"
    using L k by (auto simp: word_le_nat_alt unat_small ck min_def)
  have tot: "word_of_nat (i * k) + word_of_nat ?n = (word_of_nat (min (Suc i * k) ?L) :: u32)"
  proof -
    have "i * k + ?n = min (Suc i * k) ?L" using i(1) unfolding mult_Suc by linarith
    then show ?thesis by (simp only: flip: of_nat_add)
  qed
  have i_le: "i \<le> ?L div k" using i by (simp add: less_eq_div_iff_mult_less_eq)
  have ne: "word_of_nat (i * k) \<noteq> Length cs"
  proof
    assume "word_of_nat (i * k) = Length cs"
    then have "unat (word_of_nat (i * k) :: u32) = unat (word_of_nat ?L :: u32)"
      by (simp only: sized_Length [OF sz])
    then show False using i(1) L by (simp only: unat_small)
  qed
  have u: "unat (word_of_nat (i * k) :: u32) = i * k" "unat (word_of_nat (min (Suc i * k) ?L) :: u32) = min (Suc i * k) ?L"
    using i(1) L by (auto intro!: unat_small simp del: of_nat_mult mult_Suc)
  have sl: "slice ?D (i * k) (min (Suc i * k) ?L) = Inr (take k (drop (i * k) ?D))"
    using i by (auto simp: min_def)
  obtain w2 where w2: "rw_Write (take k (drop (i * k) ?D)) w1 = (None, w2)"
      "emitted w1 (take k (drop (i * k) ?D)) w2"
    using emits_emitted [OF emits_Write emitted_good [OF h(2)], of "take k (drop (i * k) ?D)"]
    by (metis prod.collapse)
  have "writeChunk_loop ck (?L div k) i (word_of_nat (i * k)) cs w =
        writeChunk_loop ck (?L div k) (Suc i) (word_of_nat (min (Suc i * k) ?L)) ?cs w2"
    by (subst writeChunk_loop.simps)
      (simp only: i_le ne h(1) Let_def D start avail inc tot u sl w2(1)
        not_True_eq_False if_False prod.case option.case sum.case)
  with emitted_trans [OF h(2) w2(2)] show ?thesis by blast
qed


lemma writeChunk_loop_next:
  assumes "sized cs" and "unat ck = k" and "0 < k" and "0 < i" and "rw_good w"
  shows "\<exists>cs' w'. writeChunk_loop ck (length (Data cs) div k) i
      (word_of_nat (min (i * k) (length (Data cs)))) cs w = (None, cs', w') \<and>
    emitted w (next_chunks k (next_header cs) (drop (i * k) (Data cs))) w'"
  using assms
proof (induction "length (Data cs) - i * k" arbitrary: i cs w rule: less_induct)
  case less
  let ?L = "length (Data cs)" and ?cs = "cs\<lparr>Format := 3\<rparr>"
  show ?case
  proof (cases "i * k < ?L")
    case False
    then have m: "min (i * k) ?L = ?L" by simp
    show ?thesis
      using False by (subst writeChunk_loop.simps)
        (simp add: m sized_Length [OF less.prems(1)] emitted_refl [OF less.prems(5)])
  next
    case True
    then have m: "min (i * k) ?L = i * k" by simp
    obtain w1 where w1: "writeHeader ?cs w = (None, w1)" "emitted w (next_header cs) w1"
      using writeHeader_next [OF less.prems(5), of ?cs] by (auto simp: next_header_def)
    obtain w2 where w2: "emitted w (next_header cs @ take k (drop (i * k) (Data cs))) w2"
      and eq: "writeChunk_loop ck (?L div k) i (word_of_nat (i * k)) cs w =
        writeChunk_loop ck (?L div k) (Suc i) (word_of_nat (min (Suc i * k) ?L)) ?cs w2"
      using writeChunk_loop_step [OF less.prems(1,2) True less.prems(3), of w w1 "next_header cs"] w1 less.prems(4)
      by auto
    have nh: "next_header ?cs = next_header cs" by (simp add: next_header_def)
    have dec: "length (Data ?cs) - Suc i * k < ?L - i * k" using True less.prems(3) by simp
    from less.hyps [OF dec _ less.prems(2,3) _ emitted_good [OF w2]] less.prems(1)
    obtain cs' w' where r: "writeChunk_loop ck (?L div k) (Suc i) (word_of_nat (min (Suc i * k) ?L)) ?cs w2 = (None, cs', w')"
      and e: "emitted w2 (next_chunks k (next_header cs) (drop (Suc i * k) (Data cs))) w'"
      by (auto simp: sized_def nh simp del: mult_Suc)
    have "next_chunks k (next_header cs) (drop (i * k) (Data cs)) =
      (next_header cs @ take k (drop (i * k) (Data cs))) @ next_chunks k (next_header cs) (drop (Suc i * k) (Data cs))"
      using True less.prems(3) by (subst next_chunks_step) (auto simp: add.commute)
    with emitted_trans [OF w2 e] eq r show ?thesis unfolding m by auto
  qed
qed

text \<open>\<^verbatim>\<open>writeChunk\<close> emits the format of the message with its chunk stream id chosen.\<close>

lemma writeChunk_emits:
  assumes "sized cs" and "Data cs \<noteq> []" and "ck \<noteq> 0" and "rw_good w"
  shows "\<exists>cs' w'. writeChunk cs ck w = (None, cs', w') \<and>
    emitted w (message_bytes (unat ck) (chooseCSID cs)) w'"
proof -
  let ?c = "chooseCSID cs" and ?k = "unat ck"
  let ?d = "?c\<lparr>Format := 0\<rparr>"
  have same: "Data ?c = Data cs" "Length ?c = Length cs" by (simp_all add: chooseCSID_def)
  have k: "0 < ?k" using assms(3) by (simp add: unat_gt_0)
  have sz: "sized ?c" "sized ?d" using assms(1) same by (simp_all add: sized_def)
  have ns: "\<not> Length ?d > 0xffffff"
    using assms(1) same by (simp add: sized_def word_less_nat_alt)
  obtain w1 where w1: "writeHeader ?d w = (None, w1)" "emitted w (first_header ?d) w1"
    using writeHeader_first [OF assms(4) _ ns] by auto
  obtain w2 where w2: "emitted w (first_header ?d @ take ?k (Data cs)) w2"
    and eq: "writeChunk_loop ck (length (Data cs) div ?k) 0 0 ?c w =
       writeChunk_loop ck (length (Data cs) div ?k) 1 (word_of_nat (min ?k (length (Data cs)))) ?d w2"
    using writeChunk_loop_step [OF sz(1), of ck ?k 0 w w1 "first_header ?d"] w1 k assms(2) same by auto
  obtain cs' w' where r: "writeChunk_loop ck (length (Data cs) div ?k) 1 (word_of_nat (min ?k (length (Data cs)))) ?d w2 = (None, cs', w')"
    and e: "emitted w2 (next_chunks ?k (next_header ?d) (drop ?k (Data cs))) w'"
    using writeChunk_loop_next [OF sz(2) refl k _ emitted_good [OF w2], of 1] same by auto
  have n: "unat (Length ?c div ck) = length (Data cs) div ?k"
    using assms(1) same by (simp add: unat_div_distrib sized_def)
  have h: "first_header ?d = first_header ?c" "next_header ?d = next_header ?c"
    by (simp_all add: first_header_def next_header_def)
  show ?thesis
    using emitted_trans [OF w2 e] eq r n assms(3) h same
    by (simp add: writeChunk_def message_bytes_def Let_def)
qed


section \<open>The reader reads the format\<close>

text \<open>The six bits of the first byte and the id bytes that follow it.\<close>

definition csid_key :: "u32 \<Rightarrow> u32" where
  "csid_key csid = (if csid < 64 then csid else if csid - 64 < 256 then 0 else 1)"

definition csid_ext :: "u32 \<Rightarrow> bytes" where
  "csid_ext csid =
     (if csid < 64 then [] else if csid - 64 < 256 then le_bytes 1 (csid - 64) else le_bytes 2 (csid - 64))"

definition valid_csid :: "u32 \<Rightarrow> bool" where
  "valid_csid csid \<longleftrightarrow> 2 \<le> csid \<and> csid < 65600"

lemma valid_csid_unat: "valid_csid csid \<longleftrightarrow> 2 \<le> unat csid \<and> unat csid < 65600"
  by (simp add: valid_csid_def word_le_nat_alt word_less_nat_alt)

lemma unat_csid_64: "\<not> csid < 64 \<Longrightarrow> unat (csid - 64) = unat csid - 64"
  for csid :: u32
  by (simp add: unat_sub word_le_nat_alt word_less_nat_alt)

lemma basic_header_split:
  assumes "valid_csid csid"
  shows "basic_header fmt csid = ucast (push_bit 6 fmt OR csid_key csid) # csid_ext csid"
proof -
  have "\<not> csid < 64 \<Longrightarrow> csid - 64 < 65536"
    using assms by (simp add: valid_csid_unat word_less_nat_alt unat_csid_64 [unfolded word_less_nat_alt])
  then show ?thesis
    by (auto simp: basic_header_def csid_key_def csid_ext_def be_bytes.simps)
qed

lemma csid_key_small: "csid_key csid < 64"
  by (simp add: csid_key_def)

lemma take_bit_6_less: "key < 64 \<Longrightarrow> take_bit 6 key = (key :: u32)"
  by (rule take_bit_self) (simp add: word_less_nat_alt)

lemma header_byte:
  assumes "key < 64" and "fmt < 4"
  shows "drop_bit 6 (ucast (ucast (push_bit 6 fmt OR key) :: byte) :: u32) = fmt"
    and "(ucast (ucast (push_bit 6 fmt OR key) :: byte) :: u32) AND 0x3f = key"
proof -
  have key: "key = take_bit 6 key" using take_bit_6_less [OF assms(1)] by simp
  have fmt: "fmt = take_bit 2 fmt"
    using take_bit_self [of fmt 2] assms(2) by (simp add: word_less_nat_alt)
  have "drop_bit 6 (take_bit 8 (push_bit 6 (take_bit 2 fmt) OR take_bit 6 key)) = take_bit 2 fmt"
    by (rule bit_word_eqI) (auto simp: bit_simps)
  then show "drop_bit 6 (ucast (ucast (push_bit 6 fmt OR key) :: byte) :: u32) = fmt"
    using key fmt by (simp add: byte_of_word_of_byte)
  have "take_bit 8 (push_bit 6 fmt OR take_bit 6 key) AND mask 6 = take_bit 6 key"
    by (rule bit_word_eqI) (auto simp: bit_simps)
  then show "(ucast (ucast (push_bit 6 fmt OR key) :: byte) :: u32) AND 0x3f = key"
    using key by (simp add: byte_of_word_of_byte mask_eq_exp_minus_1)
qed

lemma getBE_app: "readError r = None \<Longrightarrow> rd_in r = be_bytes n v @ rest \<Longrightarrow>
    ReadUintBE n r = (take_bit (8 * n) v, None, r\<lparr>rd_in := rest\<rparr>)"
  by (rule consumesD [OF consumes_ReadUintBE])

lemma getLE_app: "readError r = None \<Longrightarrow> rd_in r = le_bytes n v @ rest \<Longrightarrow>
    ReadUintLE n r = (take_bit (8 * n) v, None, r\<lparr>rd_in := rest\<rparr>)"
  by (rule consumesD [OF consumes_ReadUintLE])

lemma getBE_at: "readError r = None \<Longrightarrow>
    ReadUintBE n (r\<lparr>rd_in := be_bytes n v @ rest\<rparr>) = (take_bit (8 * n) v, None, r\<lparr>rd_in := rest\<rparr>)"
  by (subst getBE_app [of _ n v rest]) simp_all

lemma getLE_at: "readError r = None \<Longrightarrow>
    ReadUintLE n (r\<lparr>rd_in := le_bytes n v @ rest\<rparr>) = (take_bit (8 * n) v, None, r\<lparr>rd_in := rest\<rparr>)"
  by (subst getLE_app [of _ n v rest]) simp_all

lemma readCSID_ext:
  assumes "valid_csid csid" and "CSID cs = csid_key csid"
    and "readError r = None" and "rd_in r = csid_ext csid @ rest"
  shows "readCSID cs r = (cs\<lparr>CSID := csid\<rparr>, r\<lparr>rd_in := rest\<rparr>)"
proof (cases "csid < 64")
  case True
  then have "csid \<noteq> 0" "csid \<noteq> 1" using assms(1) by (auto simp: valid_csid_unat)
  with True assms show ?thesis by (simp add: readCSID_def csid_key_def csid_ext_def)
next
  case False
  note u = unat_csid_64 [OF False]
  show ?thesis
  proof (cases "csid - 64 < 256")
    case True
    have "take_bit (8 * 1) (csid - 64) = csid - 64"
      using True by (intro take_bit_self) (simp add: word_less_nat_alt)
    with True False assms getLE_app [of r 1 "csid - 64" rest] show ?thesis
      by (simp add: readCSID_def csid_key_def csid_ext_def)
  next
    case big: False
    have "take_bit (8 * 2) (csid - 64) = csid - 64"
      using u assms(1) by (intro take_bit_self) (auto simp: valid_csid_unat)
    with big False assms getLE_app [of r 2 "csid - 64" rest] show ?thesis
      by (simp add: readCSID_def csid_key_def csid_ext_def)
  qed
qed

text \<open>A chunk stream that holds the first \<open>n\<close> bytes of message \<open>m\<close>.\<close>

definition holds :: "ChunkStream \<Rightarrow> nat \<Rightarrow> ChunkStream \<Rightarrow> bool" where
  "holds m n cs \<longleftrightarrow>
     Format cs = 0 \<and> CSID cs = CSID m \<and> Timestamp cs = Timestamp m \<and> Length cs = Length m \<and>
     TypeID cs = TypeID m \<and> StreamID cs = StreamID m \<and> (exted cs \<longleftrightarrow> Timestamp m \<ge> 0xffffff) \<and>
     cs_index cs = word_of_nat n \<and> remain cs = word_of_nat (length (Data m) - n) \<and>
     (got cs \<longleftrightarrow> n = length (Data m)) \<and>
     Data cs = take n (Data m) @ replicate (length (Data m) - n) 0"

definition valid_message :: "ChunkStream \<Rightarrow> bool" where
  "valid_message m \<longleftrightarrow>
     valid_csid (CSID m) \<and> TypeID m < 256 \<and> unat (Length m) = length (Data m) \<and>
     Data m \<noteq> [] \<and> length (Data m) \<le> maxpoolsize"

lemma readPayload_holds:
  assumes m: "length (Data m) \<le> 0xffffff" and n: "n < length (Data m)" and k: "unat ck = k" "0 < k"
    and cs: "holds m n cs"
    and r: "readError r = None" "rd_in r = take k (drop n (Data m)) @ rest"
  shows "\<exists>cs'. readPayload ck cs r = (None, cs', r\<lparr>rd_in := rest\<rparr>) \<and>
     holds m (min (n + k) (length (Data m))) cs'"
proof -
  let ?D = "Data m" and ?L = "length (Data m)"
  let ?j = "min k (?L - n)"
  have ck: "ck = word_of_nat k" using k by (metis of_nat_unat_id)
  have u: "i \<le> ?L \<Longrightarrow> unat (word_of_nat i :: u32) = i" for i using m by (simp add: unat_small)
  have sz: "(if remain cs > ck then ck else remain cs) = word_of_nat ?j"
    using cs k by (auto simp: holds_def word_less_nat_alt u ck min_def)
  have idx: "cs_index cs + word_of_nat ?j = word_of_nat (min (n + k) ?L)"
  proof -
    have "n + ?j = min (n + k) ?L" using n by linarith
    moreover have "cs_index cs = word_of_nat n" using cs by (simp add: holds_def)
    ultimately show ?thesis by (simp only: flip: of_nat_add)
  qed
  have rem: "remain cs - word_of_nat ?j = word_of_nat (?L - min (n + k) ?L)"
  proof -
    have "?L - n - ?j = ?L - min (n + k) ?L" by linarith
    moreover have "remain cs = word_of_nat (?L - n)" using cs by (simp add: holds_def)
    moreover have "word_of_nat (?L - n - ?j) = (word_of_nat (?L - n) - word_of_nat ?j :: u32)"
      by (rule of_nat_diff) simp
    ultimately show ?thesis by simp
  qed
  have r0: "(word_of_nat (?L - min (n + k) ?L) = (0 :: u32)) \<longleftrightarrow> min (n + k) ?L = ?L"
  proof -
    have "(word_of_nat i = (0 :: u32)) \<longleftrightarrow> i = 0" if "i \<le> ?L" for i
      using u [OF that] by (simp add: word_unat_eq_iff)
    from this [of "?L - min (n + k) ?L"] show ?thesis by linarith
  qed
  have sl: "slice (Data cs) (unat (cs_index cs)) (unat (word_of_nat (min (n + k) ?L) :: u32)) = Inr (replicate ?j 0)"
    using cs n by (auto simp: holds_def u min_def)
  have rd: "rw_Read ?j r = (take k (drop n ?D), None, r\<lparr>rd_in := rest\<rparr>)"
    using consumesD [OF consumes_Read r] by (simp add: min.commute)
  have data: "copy_at (Data cs) (unat (cs_index cs)) (take k (drop n ?D)) =
     take (min (n + k) ?L) ?D @ replicate (?L - min (n + k) ?L) 0"
    using cs n by (auto simp: holds_def u copy_at_def min_def take_add)
  have "readPayload ck cs r = (None, cs\<lparr>Data := take (min (n + k) ?L) ?D @ replicate (?L - min (n + k) ?L) 0,
      cs_index := word_of_nat (min (n + k) ?L), remain := word_of_nat (?L - min (n + k) ?L),
      got := (if min (n + k) ?L = ?L then True else got cs)\<rparr>, r\<lparr>rd_in := rest\<rparr>)"
    using r(1) by (simp add: readPayload_def Let_def sz idx rem r0 sl rd data del: of_nat_diff)
  with cs n show ?thesis by (auto simp: holds_def)
qed


lemma finishHeader_pool:
  assumes "pool_inv p" and "unat (Length cs) \<le> maxpoolsize"
  shows "\<exists>p'. pool_inv p' \<and> finishHeader cs r p =
    (None, cs\<lparr>got := False, cs_index := 0, remain := Length cs,
       Data := replicate (unat (Length cs)) 0\<rparr>, r, p')"
proof -
  obtain p' rg where g: "pool_Get p (unat (Length cs)) = Inr (p', rg)"
    using pool_Get_fits [OF assms] by blast
  with pool_Get_Inr(2,4) [OF g] show ?thesis by (simp add: finishHeader_def cs_new_def)
qed

text \<open>The header of the first chunk, after the basic header.\<close>

lemma readHeader0_fields:
  assumes m: "TypeID m < 256" "Length m \<le> 0xffffff" and r: "readError r = None"
    and i: "rd_in r = be_bytes 3 (if Timestamp m > 0xffffff then 0xffffff else Timestamp m) @
      be_bytes 3 (Length m) @ be_bytes 1 (TypeID m) @ le_bytes 4 (StreamID m) @
      ext_bytes (Timestamp m) @ rest"
  shows "readHeader0 cs r p = finishHeader (cs\<lparr>Format := tmpFromat cs, Timestamp := Timestamp m,
      Length := Length m, TypeID := TypeID m, StreamID := StreamID m,
      exted := Timestamp m \<ge> 0xffffff\<rparr>) (r\<lparr>rd_in := rest\<rparr>) p"
proof -
  define ts where "ts = (if Timestamp m > 0xffffff then 0xffffff else Timestamp m)"
  have t: "take_bit (8 * 3) ts = ts" "take_bit (8 * 3) (Length m) = Length m"
      "take_bit (8 * 1) (TypeID m) = TypeID m"
    using m by (auto intro!: take_bit_self simp: ts_def word_less_nat_alt word_le_nat_alt)
  have t4: "take_bit (8 * 4) (StreamID m) = StreamID m" "take_bit (8 * 4) (Timestamp m) = Timestamp m"
    by (rule take_bit_full_word; simp)+
  have ext: "ts = 0xffffff \<longleftrightarrow> Timestamp m \<ge> 0xffffff" by (auto simp: ts_def)
  have e: "readExtended ts (r\<lparr>rd_in := ext_bytes (Timestamp m) @ rest\<rparr>) =
      (Timestamp m, Timestamp m \<ge> 0xffffff, r\<lparr>rd_in := rest\<rparr>)"
  proof (cases "Timestamp m \<ge> 0xffffff")
    case True
    then show ?thesis
      by (simp only: readExtended_def ext ext_bytes_def if_True getBE_at [OF r] t4 prod.case)
  next
    case False
    then have "ts = Timestamp m" by (auto simp: ts_def)
    with False ext show ?thesis by (auto simp: readExtended_def ext_bytes_def)
  qed
  show ?thesis
    using getBE_app [OF r i [folded ts_def]]
    by (simp only: readHeader0_def getBE_at [OF r] getLE_at [OF r] t t4 e prod.case)
qed

lemma readHeader0_holds:
  assumes m: "valid_message m" and p: "pool_inv p" and r: "readError r = None"
    and cs: "tmpFromat cs = 0" "CSID cs = CSID m"
    and i: "rd_in r = be_bytes 3 (if Timestamp m > 0xffffff then 0xffffff else Timestamp m) @
      be_bytes 3 (Length m) @ be_bytes 1 (TypeID m) @ le_bytes 4 (StreamID m) @
      ext_bytes (Timestamp m) @ rest"
  shows "\<exists>cs' p'. readHeader0 cs r p = (None, cs', r\<lparr>rd_in := rest\<rparr>, p') \<and> holds m 0 cs' \<and> pool_inv p'"
proof -
  define c where "c = cs\<lparr>Format := tmpFromat cs, Timestamp := Timestamp m, Length := Length m, TypeID := TypeID m,
    StreamID := StreamID m, exted := Timestamp m \<ge> 0xffffff\<rparr>"
  have L: "length (Data m) \<le> maxpoolsize" "unat (Length m) = length (Data m)" "Data m \<noteq> []"
      "TypeID m < 256" "Length m \<le> 0xffffff"
    using m by (simp_all add: valid_message_def word_le_nat_alt maxpoolsize_def)
  have "holds m 0 (c\<lparr>got := False, cs_index := 0, remain := Length c,
       Data := replicate (unat (Length c)) 0\<rparr>)"
    using cs L by (auto simp: c_def holds_def intro: of_nat_unat_id [symmetric, of "Length m", unfolded L(2)])
  moreover note readHeader0_fields [OF L(4,5) r i, of cs p, folded c_def]
  ultimately show ?thesis
    using finishHeader_pool [OF p, of c "r\<lparr>rd_in := rest\<rparr>"] L by (auto simp: c_def)
qed

text \<open>A continuation chunk repeats the extended timestamp, which is skipped.\<close>

lemma readHeader3_holds:
  assumes "holds m n cs" and "n < length (Data m)" and "length (Data m) \<le> 0xffffff"
    and r: "readError r = None" and i: "rd_in r = ext_bytes (Timestamp m) @ rest"
  shows "readHeader3 cs r p = (None, cs, r\<lparr>rd_in := rest\<rparr>, p)"
proof -
  have "remain cs \<noteq> 0"
    using assms(1-3) unat_small [of "length (Data m) - n"]
    by (auto simp: holds_def word_unat_eq_iff simp del: of_nat_diff)
  moreover have "be_word (be_bytes 4 (Timestamp m)) = Timestamp m"
    by (simp add: be_word_be_bytes take_bit_full_word)
  ultimately show ?thesis
    using assms(1) r i by (auto simp: readHeader3_def holds_def ext_bytes_def rw_Peek_def rw_Discard_def)
qed

section \<open>A message through the connection\<close>

text \<open>One round of \<^verbatim>\<open>Conn.Read\<close> on the first chunk, and on a later one.\<close>

lemma conn_Read_step_key:
  assumes m: "valid_csid (CSID m)" and fmt: "fmt < 4"
    and r: "readError (conn_rw conn) = None"
    and i: "rd_in (conn_rw conn) = basic_header fmt (CSID m) @ rest"
    and c: "c = (case chunks conn (csid_key (CSID m)) of Some cs \<Rightarrow> cs | None \<Rightarrow> emptyChunkStream)"
    and ok: "fmt = 3 \<or> remain c = 0"
    and h: "readMessageHeader (c\<lparr>tmpFromat := fmt, CSID := CSID m\<rparr>) ((conn_rw conn)\<lparr>rd_in := rest\<rparr>)
        (conn_pool conn) = (None, cs1, rw1, p1)"
    and pl: "readPayload (remoteChunkSize conn) cs1 rw1 = (None, cs2, rw2)"
  shows "conn_Read_step conn = (None, cs2, conn\<lparr>conn_rw := rw2, conn_pool := p1,
      chunks := (chunks conn)(csid_key (CSID m) \<mapsto> cs2)\<rparr>)"
proof -
  let ?k = "csid_key (CSID m)"
  let ?rw1 = "(conn_rw conn)\<lparr>rd_in := csid_ext (CSID m) @ rest\<rparr>"
  let ?c = "c\<lparr>tmpFromat := fmt, CSID := ?k\<rparr>"
  have h1: "ReadUintBE 1 (conn_rw conn) = (ucast (ucast (push_bit 6 fmt OR ?k) :: byte), None, ?rw1)"
    using ReadUintBE_1 [OF r, of "ucast (push_bit 6 fmt OR ?k)" "csid_ext (CSID m) @ rest"]
      i basic_header_split [OF m] by simp
  note hb = header_byte [OF csid_key_small fmt]
  have c2: "readCSID ?c ?rw1 = (c\<lparr>tmpFromat := fmt, CSID := CSID m\<rparr>, (conn_rw conn)\<lparr>rd_in := rest\<rparr>)"
    using readCSID_ext [OF m, of ?c ?rw1 rest] r by simp
  have "readChunk (remoteChunkSize conn) ?c ?rw1 (conn_pool conn) = (None, cs2, rw2, p1)"
    using ok h pl by (auto simp: readChunk_def c2)
  then show ?thesis
    unfolding conn_Read_step_def h1 prod.case hb Let_def
    by (cases "chunks conn ?k") (simp_all add: c)
qed


definition msg_key :: "ChunkStream \<Rightarrow> u32" where
  "msg_key m = csid_key (CSID m)"

text \<open>The connection after reading a chunk: the input left, the pool and the stream's new state.\<close>

definition advance :: "Conn \<Rightarrow> bytes \<Rightarrow> Pool \<Rightarrow> u32 \<Rightarrow> ChunkStream \<Rightarrow> Conn" where
  "advance conn rest p key cs = conn\<lparr>conn_rw := (conn_rw conn)\<lparr>rd_in := rest\<rparr>, conn_pool := p,
     chunks := (chunks conn)(key \<mapsto> cs)\<rparr>"

lemma advance_simps [simp]:
  "conn_rw (advance conn rest p key cs) = (conn_rw conn)\<lparr>rd_in := rest\<rparr>"
  "conn_pool (advance conn rest p key cs) = p"
  "chunks (advance conn rest p key cs) = (chunks conn)(key \<mapsto> cs)"
  "remoteChunkSize (advance conn rest p key cs) = remoteChunkSize conn"
  "advance (advance conn rest p key cs) rest' p' key cs' = advance conn rest' p' key cs'"
  by (simp_all add: advance_def)

definition key_idle :: "Conn \<Rightarrow> u32 \<Rightarrow> bool" where
  "key_idle conn key \<longleftrightarrow> (case chunks conn key of None \<Rightarrow> True | Some cs \<Rightarrow> remain cs = 0)"

lemma valid_message_small: "valid_message m \<Longrightarrow> length (Data m) \<le> 0xffffff"
  by (simp add: valid_message_def maxpoolsize_def)

lemma conn_Read_step_first:
  assumes m: "valid_message m" and p: "pool_inv (conn_pool conn)" and idle: "key_idle conn (msg_key m)"
    and r: "readError (conn_rw conn) = None" and k: "k = unat (remoteChunkSize conn)" "0 < k"
    and i: "rd_in (conn_rw conn) = first_header m @ take k (Data m) @ rest"
  shows "\<exists>cs p'. conn_Read_step conn = (None, cs, advance conn rest p' (msg_key m) cs) \<and>
     holds m (min k (length (Data m))) cs \<and> pool_inv p'"
proof -
  let ?c = "case chunks conn (csid_key (CSID m)) of Some cs \<Rightarrow> cs | None \<Rightarrow> emptyChunkStream"
  let ?in = "drop (length (basic_header 0 (CSID m))) (rd_in (conn_rw conn))"
  let ?r = "(conn_rw conn)\<lparr>rd_in := ?in\<rparr>" and ?r' = "(conn_rw conn)\<lparr>rd_in := take k (Data m) @ rest\<rparr>"
  have id: "valid_csid (CSID m)" using m by (simp add: valid_message_def)
  obtain cs1 p1 where h: "readHeader0 (?c\<lparr>tmpFromat := 0, CSID := CSID m\<rparr>) ?r (conn_pool conn) = (None, cs1, ?r', p1)"
    and cs1: "holds m 0 cs1" "pool_inv p1"
    using readHeader0_holds [OF m p, of ?r "?c\<lparr>tmpFromat := 0, CSID := CSID m\<rparr>" "take k (Data m) @ rest"] r i
    by (auto simp: first_header_def)
  obtain cs2 where pl: "readPayload (remoteChunkSize conn) cs1 ?r' = (None, cs2, ?r'\<lparr>rd_in := rest\<rparr>)"
    and cs2: "holds m (min k (length (Data m))) cs2"
    using readPayload_holds [OF valid_message_small [OF m] _ k(1) [symmetric] k(2) cs1(1), of ?r' rest] r m
    by (auto simp: valid_message_def)
  have "conn_Read_step conn = (None, cs2, conn\<lparr>conn_rw := ?r'\<lparr>rd_in := rest\<rparr>, conn_pool := p1,
      chunks := (chunks conn)(csid_key (CSID m) \<mapsto> cs2)\<rparr>)"
  proof (rule conn_Read_step_key [OF id _ r _ refl _ _ pl, where fmt = 0])
    show "rd_in (conn_rw conn) = basic_header 0 (CSID m) @ ?in" by (simp add: i first_header_def)
    show "0 = (3 :: u32) \<or> remain ?c = 0"
      using idle by (auto simp: key_idle_def msg_key_def emptyChunkStream_def split: option.splits)
  qed (use h in \<open>simp_all add: readMessageHeader_def\<close>)
  with cs2 cs1(2) show ?thesis by (auto simp: advance_def msg_key_def)
qed

lemma conn_Read_step_next:
  assumes m: "valid_message m" and n: "n < length (Data m)"
    and cs: "chunks conn (msg_key m) = Some cs" "holds m n cs"
    and r: "readError (conn_rw conn) = None" and k: "k = unat (remoteChunkSize conn)" "0 < k"
    and i: "rd_in (conn_rw conn) = next_header m @ take k (drop n (Data m)) @ rest"
  shows "\<exists>cs'. conn_Read_step conn = (None, cs', advance conn rest (conn_pool conn) (msg_key m) cs') \<and>
     holds m (min (n + k) (length (Data m))) cs'"
proof -
  let ?in = "ext_bytes (Timestamp m) @ take k (drop n (Data m)) @ rest"
  let ?c = "cs\<lparr>tmpFromat := 3, CSID := CSID m\<rparr>"
  let ?r = "(conn_rw conn)\<lparr>rd_in := ?in\<rparr>" and ?r' = "(conn_rw conn)\<lparr>rd_in := take k (drop n (Data m)) @ rest\<rparr>"
  have id: "valid_csid (CSID m)" using m by (simp add: valid_message_def)
  have c: "holds m n ?c" using cs(2) by (simp add: holds_def)
  have h: "readHeader3 ?c ?r (conn_pool conn) = (None, ?c, ?r', conn_pool conn)"
    using readHeader3_holds [OF c n valid_message_small [OF m], of ?r "take k (drop n (Data m)) @ rest"] r by simp
  obtain cs2 where pl: "readPayload (remoteChunkSize conn) ?c ?r' = (None, cs2, ?r'\<lparr>rd_in := rest\<rparr>)"
    and cs2: "holds m (min (n + k) (length (Data m))) cs2"
    using readPayload_holds [OF valid_message_small [OF m] n k(1) [symmetric] k(2) c, of ?r' rest] r by auto
  have "conn_Read_step conn = (None, cs2, conn\<lparr>conn_rw := ?r'\<lparr>rd_in := rest\<rparr>, conn_pool := conn_pool conn,
      chunks := (chunks conn)(csid_key (CSID m) \<mapsto> cs2)\<rparr>)"
  proof (rule conn_Read_step_key [OF id _ r _ _ _ _ pl, where fmt = 3 and c = cs])
    show "rd_in (conn_rw conn) = basic_header 3 (CSID m) @ ?in" by (simp add: i next_header_def)
    show "cs = (case chunks conn (csid_key (CSID m)) of Some cs \<Rightarrow> cs | None \<Rightarrow> emptyChunkStream)"
      using cs(1) by (simp add: msg_key_def)
  qed (use h in \<open>simp_all add: readMessageHeader_def\<close>)
  with cs2 show ?thesis by (auto simp: advance_def msg_key_def)
qed

lemma conn_Read_loop_next:
  assumes "valid_message m" and "n < length (Data m)"
    and "chunks conn (msg_key m) = Some cs" and "holds m n cs"
    and "readError (conn_rw conn) = None" and "k = unat (remoteChunkSize conn)" and "0 < k"
    and "rd_in (conn_rw conn) = next_chunks k (next_header m) (drop n (Data m)) @ rest"
  shows "\<exists>cs'. conn_Read_loop conn = (None, cs', advance conn rest (conn_pool conn) (msg_key m) cs') \<and>
     holds m (length (Data m)) cs'"
  using assms
proof (induction "length (Data m) - n" arbitrary: n conn cs rule: less_induct)
  case less
  let ?n = "min (n + k) (length (Data m))"
  let ?rest = "next_chunks k (next_header m) (drop (n + k) (Data m)) @ rest"
  have "rd_in (conn_rw conn) = next_header m @ take k (drop n (Data m)) @ ?rest"
    using less.prems(2,7,8) by (simp add: next_chunks_step add.commute)
  from conn_Read_step_next [OF less.prems(1-7) this] obtain cs' where
    st: "conn_Read_step conn = (None, cs', advance conn ?rest (conn_pool conn) (msg_key m) cs')"
    and cs': "holds m ?n cs'" by blast
  show ?case
  proof (cases "n + k < length (Data m)")
    case False
    then have "?n = length (Data m)" by simp
    with cs' False st show ?thesis by (subst conn_Read_loop.simps) (simp add: holds_def cs_full_def)
  next
    case True
    then have n: "?n = n + k" by simp
    let ?conn = "advance conn ?rest (conn_pool conn) (msg_key m) cs'"
    have "\<exists>cs'. conn_Read_loop ?conn = (None, cs', advance ?conn rest (conn_pool ?conn) (msg_key m) cs') \<and>
        holds m (length (Data m)) cs'"
      using less.prems True cs' by (intro less.hyps [of "n + k"]) (simp_all add: n)
    moreover have "\<not> cs_full cs'" using cs' True n by (simp add: holds_def cs_full_def)
    ultimately show ?thesis using st by (subst conn_Read_loop.simps) simp
  qed
qed

text \<open>A whole message: the loop ends at its last chunk, with the message rebuilt.\<close>

lemma conn_Read_loop_message:
  assumes m: "valid_message m" and p: "pool_inv (conn_pool conn)" and idle: "key_idle conn (msg_key m)"
    and r: "readError (conn_rw conn) = None" and k: "k = unat (remoteChunkSize conn)" "0 < k"
    and i: "rd_in (conn_rw conn) = message_bytes k m @ rest"
  shows "\<exists>cs p'. conn_Read_loop conn = (None, cs, advance conn rest p' (msg_key m) cs) \<and>
     holds m (length (Data m)) cs \<and> pool_inv p'"
proof -
  let ?rest = "next_chunks k (next_header m) (drop k (Data m)) @ rest"
  have "rd_in (conn_rw conn) = first_header m @ take k (Data m) @ ?rest"
    using i by (simp add: message_bytes_def)
  from conn_Read_step_first [OF m p idle r k this] obtain cs p' where
    st: "conn_Read_step conn = (None, cs, advance conn ?rest p' (msg_key m) cs)"
    and cs: "holds m (min k (length (Data m))) cs" "pool_inv p'" by blast
  show ?thesis
  proof (cases "k < length (Data m)")
    case False
    with cs st show ?thesis by (subst conn_Read_loop.simps) (auto simp: holds_def cs_full_def)
  next
    case True
    let ?conn = "advance conn ?rest p' (msg_key m) cs"
    have "\<exists>cs'. conn_Read_loop ?conn = (None, cs', advance ?conn rest (conn_pool ?conn) (msg_key m) cs') \<and>
        holds m (length (Data m)) cs'"
      using cs m r k True by (intro conn_Read_loop_next [of m k _ cs k]) simp_all
    moreover have "\<not> cs_full cs" using cs True by (simp add: holds_def cs_full_def)
    ultimately show ?thesis using st cs(2) by (subst conn_Read_loop.simps) auto
  qed
qed


section \<open>Messages between two connections\<close>

text \<open>What the receiver must see of a message.\<close>

definition same_message :: "ChunkStream \<Rightarrow> ChunkStream \<Rightarrow> bool" where
  "same_message m cs \<longleftrightarrow>
     CSID cs = CSID m \<and> Timestamp cs = Timestamp m \<and> Length cs = Length m \<and>
     TypeID cs = TypeID m \<and> StreamID cs = StreamID m \<and> Data cs = Data m"

text \<open>The chunk size both sides use after a message.\<close>

definition next_size :: "u32 \<Rightarrow> ChunkStream \<Rightarrow> u32" where
  "next_size k m = (if TypeID m = idSetChunkSize then be_word (take 4 (Data m)) else k)"

text \<open>
  A message that can be sent at chunk size \<open>k\<close>: its fields fit the header, it fits a pool
  array, and the control messages that carry a number carry four bytes. \<^verbatim>\<open>Write\<close> adopts a
  new chunk size before it writes the message that announces it, so that message has to
  fit one chunk of the old and of the new size.
\<close>

definition ok_message :: "u32 \<Rightarrow> ChunkStream \<Rightarrow> bool" where
  "ok_message k m \<longleftrightarrow> valid_message (chooseCSID m) \<and>
     (TypeID m = idSetChunkSize \<or> TypeID m = idWindowAckSize \<longrightarrow> 4 \<le> length (Data m)) \<and>
     (TypeID m = idSetChunkSize \<longrightarrow> length (Data m) \<le> unat k \<and> length (Data m) \<le> unat (next_size k m))"

fun ok_messages :: "u32 \<Rightarrow> ChunkStream list \<Rightarrow> bool" where
  "ok_messages k [] \<longleftrightarrow> True"
| "ok_messages k (m # ms) \<longleftrightarrow> ok_message k m \<and> ok_messages (next_size k m) ms"

fun write_messages :: "ChunkStream list \<Rightarrow> Conn \<Rightarrow> exn option \<times> Conn" where
  "write_messages [] conn = (None, conn)"
| "write_messages (m # ms) conn =
     (case conn_Write m conn of
        (Some e, _, conn) \<Rightarrow> (Some e, conn)
      | (None, _, conn) \<Rightarrow> write_messages ms conn)"

fun read_messages :: "nat \<Rightarrow> Conn \<Rightarrow> exn option \<times> ChunkStream list \<times> Conn" where
  "read_messages 0 conn = (None, [], conn)"
| "read_messages (Suc n) conn =
     (case conn_Read emptyChunkStream conn of
        (Some e, _, conn) \<Rightarrow> (Some e, [], conn)
      | (None, c, conn) \<Rightarrow> (case read_messages n conn of (e, cs, conn) \<Rightarrow> (e, c # cs, conn)))"

text \<open>A connection between two messages.\<close>

definition ready :: "Conn \<Rightarrow> bool" where
  "ready conn \<longleftrightarrow>
     readError (conn_rw conn) = None \<and> rw_good (conn_rw conn) \<and> pool_inv (conn_pool conn) \<and>
     chunkSize conn \<noteq> 0 \<and> (\<forall>key. key_idle conn key)"

lemma chooseCSID_simps [simp]:
  "Data (chooseCSID m) = Data m" "Length (chooseCSID m) = Length m" "TypeID (chooseCSID m) = TypeID m"
  "Timestamp (chooseCSID m) = Timestamp m" "StreamID (chooseCSID m) = StreamID m"
  by (simp_all add: chooseCSID_def)

lemma message_bytes_one_chunk:
  "length (Data m) \<le> k \<Longrightarrow> message_bytes k m = first_header m @ Data m"
  by (simp add: message_bytes_def)

lemma conn_Write_emits:
  assumes ok: "ok_message (chunkSize conn) m" and k: "chunkSize conn \<noteq> 0" and w: "rw_good (conn_rw conn)"
  shows "\<exists>c conn'. conn_Write m conn = (None, c, conn') \<and>
    chunkSize conn' = next_size (chunkSize conn) m \<and> chunkSize conn' \<noteq> 0 \<and>
    emitted (conn_rw conn) (message_bytes (unat (chunkSize conn)) (chooseCSID m)) (conn_rw conn')"
proof -
  let ?k = "chunkSize conn" and ?k' = "next_size (chunkSize conn) m"
  have v: "sized m" "Data m \<noteq> []"
    using ok valid_message_small [of "chooseCSID m"] by (simp_all add: ok_message_def valid_message_def sized_def)
  have k': "?k' \<noteq> 0"
    using ok k v(2) by (cases "TypeID m = idSetChunkSize") (auto simp: ok_message_def next_size_def)
  have b: "message_bytes (unat ?k') (chooseCSID m) = message_bytes (unat ?k) (chooseCSID m)"
    using ok by (cases "TypeID m = idSetChunkSize") (simp_all add: ok_message_def next_size_def message_bytes_one_chunk)
  have c: "(if TypeID m = idSetChunkSize
            then map_sum id (\<lambda>n. conn\<lparr>chunkSize := n\<rparr>) (BigEndian_Uint32 (Data m))
            else Inr conn) = Inr (conn\<lparr>chunkSize := ?k'\<rparr>)"
    using ok by (auto simp: ok_message_def next_size_def BigEndian_Uint32_def)
  obtain c w' where "writeChunk m ?k' (conn_rw conn) = (None, c, w')"
    and "emitted (conn_rw conn) (message_bytes (unat ?k) (chooseCSID m)) w'"
    using writeChunk_emits [OF v k' w] b by auto
  with c k' show ?thesis by (simp add: conn_Write_def)
qed

text \<open>The control messages of four bytes.\<close>

lemma initControlMsg_4:
  "initControlMsg typ 4 v = Inr (emptyChunkStream\<lparr>CSID := 2, TypeID := typ, Length := 4, Data := be_bytes 4 v\<rparr>)"
  using u32.put_range_eq [of 0 4 "replicate 4 0" v]
  by (simp add: initControlMsg_def emptyChunkStream_def)

lemma NewAck_sized: "\<exists>cs. NewAck v = Inr cs \<and> sized cs \<and> Data cs \<noteq> []"
  using length_be_bytes [of 4 v] by (auto simp: NewAck_def initControlMsg_4 sized_def simp del: length_be_bytes)

text \<open>An acknowledgement, which a connection may send of its own accord when it has read a message.\<close>

definition ack_message :: "u32 \<Rightarrow> ChunkStream" where
  "ack_message v = emptyChunkStream\<lparr>CSID := 2, TypeID := idAck, Length := 4, Data := be_bytes 4 v\<rparr>"

definition ack_bytes :: "u32 \<Rightarrow> bytes \<Rightarrow> bool" where
  "ack_bytes k bs \<longleftrightarrow> bs = [] \<or> (\<exists>v. bs = message_bytes (unat k) (chooseCSID (ack_message v)))"

lemma NewAck_eq: "NewAck v = Inr (ack_message v)"
  by (simp add: NewAck_def initControlMsg_4 ack_message_def)

lemma conn_ack_out:
  assumes "ready conn"
  shows "\<exists>conn' out. conn_ack n conn = (None, conn') \<and> ready conn' \<and>
    remoteChunkSize conn' = remoteChunkSize conn \<and> rd_in (conn_rw conn') = rd_in (conn_rw conn) \<and>
    chunkSize conn' = chunkSize conn \<and> ack_bytes (chunkSize conn) out \<and> rw_stream (conn_rw conn') = rw_stream (conn_rw conn) @ out \<and>
    bufw_grows (wr (conn_rw conn)) (wr (conn_rw conn'))"
proof -
  let ?cs = "ack_message (ackReceived conn + n)"
  have cs: "sized ?cs" "Data ?cs \<noteq> []" using NewAck_sized [of "ackReceived conn + n"] by (simp_all add: NewAck_eq)
  obtain c w where w: "writeChunk ?cs (chunkSize conn) (conn_rw conn) = (None, c, w)"
      and e: "emitted (conn_rw conn) (message_bytes (unat (chunkSize conn)) (chooseCSID ?cs)) w"
    using writeChunk_emits [OF cs, of "chunkSize conn" "conn_rw conn"] assms by (auto simp: ready_def)
  have "readError w = readError (conn_rw conn)" "rd_in w = rd_in (conn_rw conn)" "rw_good w"
    using e unfolding emitted_def by (metis ReadWriter.select_convs ReadWriter.surjective ReadWriter.update_convs(4))+
  moreover have "rw_stream w = rw_stream (conn_rw conn) @ message_bytes (unat (chunkSize conn)) (chooseCSID ?cs)" "bufw_grows (wr (conn_rw conn)) (wr w)"
    using e by (simp_all add: emitted_def)
  ultimately show ?thesis
    using assms w by (auto simp: conn_ack_def NewAck_eq ready_def key_idle_def ack_bytes_def Let_def)
qed

lemma ack_message_ok: "ok_message k (ack_message v)"
  using length_be_bytes [of 4 v]
  by (auto simp: ack_message_def ok_message_def valid_message_def chooseCSID_def valid_csid_def maxpoolsize_def simp del: length_be_bytes)

lemma handleControlMsg_ok:
  assumes "ok_message (remoteChunkSize conn) m" and "same_message (chooseCSID m) cs"
  shows "\<exists>w. handleControlMsg cs conn =
     Inr (conn\<lparr>remoteChunkSize := next_size (remoteChunkSize conn) m, remoteWindowAckSize := w\<rparr>)"
  using assms by (auto simp: handleControlMsg_def ok_message_def same_message_def next_size_def
      BigEndian_Uint32_def intro: exI [of _ "remoteWindowAckSize conn"])

lemma conn_Read_message_out:
  assumes ok: "ok_message k m" and k: "remoteChunkSize conn = k" "k \<noteq> 0" and r: "ready conn"
    and i: "rd_in (conn_rw conn) = message_bytes (unat k) (chooseCSID m) @ rest"
  shows "\<exists>cs conn' out. conn_Read c conn = (None, cs, conn') \<and> same_message (chooseCSID m) cs \<and> ready conn' \<and>
    remoteChunkSize conn' = next_size k m \<and> rd_in (conn_rw conn') = rest \<and>
    chunkSize conn' = chunkSize conn \<and> ack_bytes (chunkSize conn) out \<and> rw_stream (conn_rw conn') = rw_stream (conn_rw conn) @ out \<and>
    bufw_grows (wr (conn_rw conn)) (wr (conn_rw conn'))"
proof -
  let ?m = "chooseCSID m"
  have v: "valid_message ?m" using ok by (simp add: ok_message_def)
  obtain cs p where l: "conn_Read_loop conn = (None, cs, advance conn rest p (msg_key ?m) cs)"
    and cs: "holds ?m (length (Data ?m)) cs" "pool_inv p"
    using conn_Read_loop_message [OF v _ _ _ _ _ i] r k by (auto simp: ready_def unat_gt_0)
  let ?conn = "advance conn rest p (msg_key ?m) cs"
  have same: "same_message ?m cs" using cs(1) by (simp add: holds_def same_message_def)
  obtain w where h: "handleControlMsg cs ?conn =
      Inr (?conn\<lparr>remoteChunkSize := next_size k m, remoteWindowAckSize := w\<rparr>)"
    using handleControlMsg_ok [of ?conn m cs] ok same k by auto
  have ready': "ready (?conn\<lparr>remoteChunkSize := next_size k m, remoteWindowAckSize := w\<rparr>)"
    using r cs by (auto simp: ready_def advance_def key_idle_def rw_good_def holds_def)
  show ?thesis
    using conn_ack_out [OF ready', of "Length cs"] l h same by (auto simp: conn_Read_def rw_stream_def advance_def)
qed

lemma conn_Read_message:
  assumes "ok_message k m" and "remoteChunkSize conn = k" and "k \<noteq> 0" and "ready conn"
    and "rd_in (conn_rw conn) = message_bytes (unat k) (chooseCSID m) @ rest"
  shows "\<exists>cs conn'. conn_Read c conn = (None, cs, conn') \<and> same_message (chooseCSID m) cs \<and> ready conn' \<and>
    remoteChunkSize conn' = next_size k m \<and> rd_in (conn_rw conn') = rest"
  using conn_Read_message_out [OF assms, of c] by blast

lemma next_size_nonzero: "ok_message k m \<Longrightarrow> k \<noteq> 0 \<Longrightarrow> next_size k m \<noteq> 0"
  by (cases "TypeID m = idSetChunkSize") (auto simp: ok_message_def next_size_def valid_message_def)

text \<open>The bytes of a sequence of messages, and both sides of it.\<close>

fun messages_bytes :: "u32 \<Rightarrow> ChunkStream list \<Rightarrow> bytes" where
  "messages_bytes k [] = []"
| "messages_bytes k (m # ms) = message_bytes (unat k) (chooseCSID m) @ messages_bytes (next_size k m) ms"

lemma write_messages_emits:
  "ok_messages k ms \<Longrightarrow> chunkSize conn = k \<Longrightarrow> k \<noteq> 0 \<Longrightarrow> rw_good (conn_rw conn) \<Longrightarrow>
   \<exists>conn'. write_messages ms conn = (None, conn') \<and>
     emitted (conn_rw conn) (messages_bytes k ms) (conn_rw conn')"
proof (induction ms arbitrary: k conn)
  case Nil
  then show ?case by (simp add: emitted_refl)
next
  case (Cons m ms)
  then obtain c conn1 where w: "conn_Write m conn = (None, c, conn1)" "chunkSize conn1 = next_size k m"
      "chunkSize conn1 \<noteq> 0"
    and e: "emitted (conn_rw conn) (message_bytes (unat k) (chooseCSID m)) (conn_rw conn1)"
    using conn_Write_emits [of conn m] by auto
  obtain conn' where "write_messages ms conn1 = (None, conn')"
    and "emitted (conn_rw conn1) (messages_bytes (next_size k m) ms) (conn_rw conn')"
    using Cons.IH [of "next_size k m" conn1] Cons.prems(1) w emitted_good [OF e] by auto
  with w emitted_trans [OF e] show ?case by auto
qed

lemma read_messages_rebuild:
  "ok_messages k ms \<Longrightarrow> remoteChunkSize conn = k \<Longrightarrow> k \<noteq> 0 \<Longrightarrow> ready conn \<Longrightarrow>
   rd_in (conn_rw conn) = messages_bytes k ms @ rest \<Longrightarrow>
   \<exists>cs conn'. read_messages (length ms) conn = (None, cs, conn') \<and> list_all2 same_message (map chooseCSID ms) cs \<and>
     ready conn' \<and> rd_in (conn_rw conn') = rest"
proof (induction ms arbitrary: k conn)
  case (Cons m ms)
  then obtain c conn1 where r: "conn_Read emptyChunkStream conn = (None, c, conn1)" "same_message (chooseCSID m) c"
      "ready conn1" "remoteChunkSize conn1 = next_size k m"
      "rd_in (conn_rw conn1) = messages_bytes (next_size k m) ms @ rest"
    using conn_Read_message [of k m conn "messages_bytes (next_size k m) ms @ rest" emptyChunkStream] by auto
  have "next_size k m \<noteq> 0" using Cons.prems by (simp add: next_size_nonzero)
  with Cons.IH [of "next_size k m" conn1] Cons.prems(1) r show ?case by fastforce
qed simp

text \<open>
  C2: a sequence of messages written with \<^verbatim>\<open>Conn.Write\<close> on a healthy connection, chunk size
  changes included, is read back by \<^verbatim>\<open>Conn.Read\<close> of a peer that starts with the same chunk
  size: as many reads as messages return, without error, the same sequence of types,
  timestamps, stream ids, chunk stream ids and payloads, and leave exactly what follows
  the messages on the wire.
\<close>

theorem messages_roundtrip:
  assumes "rw_good (conn_rw a)" and "chunkSize a \<noteq> 0" and "ok_messages (chunkSize a) ms"
    and "ready b" and "remoteChunkSize b = chunkSize a"
  shows "\<exists>a' bs. write_messages ms a = (None, a') \<and>
     rw_stream (conn_rw a') = rw_stream (conn_rw a) @ bs \<and>
     (\<forall>rest. \<exists>cs b'. read_messages (length ms) (b\<lparr>conn_rw := (conn_rw b)\<lparr>rd_in := bs @ rest\<rparr>\<rparr>) = (None, cs, b') \<and>
        list_all2 same_message (map chooseCSID ms) cs \<and> rd_in (conn_rw b') = rest)"
proof -
  let ?bs = "messages_bytes (chunkSize a) ms"
  obtain a' where w: "write_messages ms a = (None, a')" "emitted (conn_rw a) ?bs (conn_rw a')"
    using write_messages_emits [OF assms(3) refl assms(2,1)] by blast
  have "\<exists>cs b'. read_messages (length ms) (b\<lparr>conn_rw := (conn_rw b)\<lparr>rd_in := ?bs @ rest\<rparr>\<rparr>) = (None, cs, b') \<and>
        list_all2 same_message (map chooseCSID ms) cs \<and> rd_in (conn_rw b') = rest" for rest
    using read_messages_rebuild [OF assms(3), of "b\<lparr>conn_rw := (conn_rw b)\<lparr>rd_in := ?bs @ rest\<rparr>\<rparr>" rest] assms
    by (auto simp: ready_def rw_good_def key_idle_def)
  with w show ?thesis by (auto simp: emitted_def)
qed


theorem messages_roundtrip_witness:
  "\<exists>a' bs. write_messages
       [emptyChunkStream\<lparr>Timestamp := 0x1234567, TypeID := 8, StreamID := 1, Length := 200, Data := replicate 200 7\<rparr>,
        emptyChunkStream\<lparr>CSID := 2, TypeID := 1, Length := 4, Data := [0, 0, 16, 0]\<rparr>,
        emptyChunkStream\<lparr>CSID := 300, TypeID := 20, Length := 2, Data := [5, 6]\<rparr>]
       (NewConn [] EOF None 4096) = (None, a') \<and>
     (\<exists>cs b'. read_messages 3 (NewConn (bs @ [9]) EOF None 4096) = (None, cs, b') \<and>
        map Data cs = [replicate 200 7, [0, 0, 16, 0], [5, 6]] \<and> rd_in (conn_rw b') = [9])"
proof -
  let ?ms = "[emptyChunkStream\<lparr>Timestamp := 0x1234567, TypeID := 8, StreamID := 1, Length := 200, Data := replicate 200 7\<rparr>,
        emptyChunkStream\<lparr>CSID := 2, TypeID := 1, Length := 4, Data := [0, 0, 16, 0]\<rparr>,
        emptyChunkStream\<lparr>CSID := 300, TypeID := 20, Length := 2, Data := [5, 6]\<rparr>]"
  let ?a = "NewConn [] EOF None 4096"
  have ok: "ok_messages (chunkSize ?a) ?ms"
    by (simp add: NewConn_def ok_message_def valid_message_def valid_csid_unat chooseCSID_def next_size_def
        emptyChunkStream_def maxpoolsize_def be_word_def word_less_nat_alt push_bit_eq_mult)
  have rdy: "ready ?a"
    by (simp add: ready_def NewConn_def NewReadWriter_def rw_good_def bufw_good_def key_idle_def)
  then have g: "rw_good (conn_rw ?a)" by (simp add: ready_def)
  have sz: "chunkSize ?a \<noteq> 0" "remoteChunkSize ?a = chunkSize ?a" by (simp_all add: NewConn_def)
  obtain a' bs where w: "write_messages ?ms ?a = (None, a')" and
    r: "\<And>rest. \<exists>cs b'. read_messages (length ?ms) (?a\<lparr>conn_rw := (conn_rw ?a)\<lparr>rd_in := bs @ rest\<rparr>\<rparr>) = (None, cs, b') \<and>
        list_all2 same_message (map chooseCSID ?ms) cs \<and> rd_in (conn_rw b') = rest"
    using messages_roundtrip [OF g sz(1) ok rdy sz(2)] by blast
  have "?a\<lparr>conn_rw := (conn_rw ?a)\<lparr>rd_in := bs @ [9]\<rparr>\<rparr> = NewConn (bs @ [9]) EOF None 4096"
    by (simp add: NewConn_def NewReadWriter_def)
  with r [of "[9]"] obtain cs b' where c: "read_messages 3 (NewConn (bs @ [9]) EOF None 4096) = (None, cs, b')"
      "list_all2 same_message (map chooseCSID ?ms) cs" "rd_in (conn_rw b') = [9]"
    by (auto simp: numeral_3_eq_3)
  from c(2) have "map Data cs = map Data ?ms"
    by (simp only: list_all2_Cons1 list_all2_Nil same_message_def list.map) auto
  with w c show ?thesis by (intro exI conjI) simp_all
qed


text \<open>
  A message with an empty payload is never sent: \<^verbatim>\<open>writeChunk\<close> reports success and
  writes nothing, not even the header, whatever the state of the connection.
\<close>

theorem empty_message_not_sent:
  assumes "Length cs = 0" and "ck \<noteq> 0"
  shows "writeChunk cs ck w = (None, chooseCSID cs, w)"
  using assms by (simp add: writeChunk_def Let_def writeChunk_loop.simps)

theorem empty_message_not_sent_witness:
  "writeChunk (emptyChunkStream\<lparr>TypeID := 8\<rparr>) 128 (NewReadWriter [] EOF None 16) =
     (None, emptyChunkStream\<lparr>TypeID := 8, CSID := 4\<rparr>, NewReadWriter [] EOF None 16)"
  using empty_message_not_sent [of "emptyChunkStream\<lparr>TypeID := 8\<rparr>" 128 "NewReadWriter [] EOF None 16"]
  by (simp add: emptyChunkStream_def chooseCSID_def)

section \<open>Input that the reader does not survive\<close>

lemma le_bytes_4: "le_bytes 4 v = [ucast v, ucast (drop_bit 8 v), ucast (drop_bit 16 v), ucast (drop_bit 24 v)]"
  by (simp add: numeral_eq_Suc le_bytes.simps drop_bit_drop_bit)

lemma be_bytes_1: "be_bytes (Suc 0) v = [ucast v]"
  by (simp add: be_bytes.simps)

lemmas header_bytes = first_header_def basic_header_def ext_bytes_def be_bytes_unfold le_bytes_4 be_bytes_1
  drop_bit_eq_div

lemma conn_Read_step_first_panics:
  assumes id: "valid_csid (CSID m)" and ty: "TypeID m < 256"
    and len: "Length m \<le> 0xffffff" "maxpoolsize < unat (Length m)"
    and idle: "key_idle conn (msg_key m)" and r: "readError (conn_rw conn) = None"
    and i: "rd_in (conn_rw conn) = first_header m @ rest"
  shows "\<exists>cs conn'. conn_Read_step conn = (Some (Panic SliceOutOfRange), cs, conn')"
proof -
  let ?k = "csid_key (CSID m)"
  let ?c = "case chunks conn ?k of Some cs \<Rightarrow> cs | None \<Rightarrow> emptyChunkStream"
  let ?in = "drop (length (basic_header 0 (CSID m))) (rd_in (conn_rw conn))"
  let ?r1 = "(conn_rw conn)\<lparr>rd_in := csid_ext (CSID m) @ ?in\<rparr>" and ?r2 = "(conn_rw conn)\<lparr>rd_in := ?in\<rparr>"
  have split: "rd_in (conn_rw conn) = (ucast (push_bit 6 0 OR ?k) # csid_ext (CSID m)) @ ?in"
    using i basic_header_split [OF id, of 0] by (simp add: first_header_def)
  have h1: "ReadUintBE 1 (conn_rw conn) = (ucast (ucast (push_bit 6 0 OR ?k) :: byte), None, ?r1)"
    using ReadUintBE_1 [OF r, of "ucast (push_bit 6 0 OR ?k)" "csid_ext (CSID m) @ ?in"] split by simp
  have fmt: "(0 :: u32) < 4" by simp
  note hb = header_byte [OF csid_key_small fmt]
  have c: "readCSID (?c\<lparr>tmpFromat := 0, CSID := ?k\<rparr>) ?r1 = (?c\<lparr>tmpFromat := 0, CSID := CSID m\<rparr>, ?r2)"
    using readCSID_ext [OF id, of "?c\<lparr>tmpFromat := 0, CSID := ?k\<rparr>" ?r1 ?in] r by simp
  have rem: "remain ?c = 0"
    using idle by (auto simp: key_idle_def msg_key_def emptyChunkStream_def split: option.splits)
  have "readHeader0 (?c\<lparr>tmpFromat := 0, CSID := CSID m\<rparr>) ?r2 (conn_pool conn) =
      (Some (Panic SliceOutOfRange), ?c\<lparr>tmpFromat := 0, CSID := CSID m, Format := 0, Timestamp := Timestamp m,
        Length := Length m, TypeID := TypeID m, StreamID := StreamID m, exted := Timestamp m \<ge> 0xffffff\<rparr>,
        ?r2\<lparr>rd_in := rest\<rparr>, conn_pool conn)"
    using readHeader0_fields [OF ty len(1), of ?r2 rest] r i
    by (simp add: first_header_def finishHeader_def cs_new_def pool_Get_too_big [OF len(2)])
  then have rc: "\<exists>cs' rw' p'. readChunk (remoteChunkSize conn) (?c\<lparr>tmpFromat := 0, CSID := ?k\<rparr>) ?r1 (conn_pool conn) =
      (Some (Panic SliceOutOfRange), cs', rw', p')"
    using rem by (simp add: readChunk_def c readMessageHeader_def)
  show ?thesis
    unfolding conn_Read_step_def h1 prod.case hb Let_def
    using rc by (cases "chunks conn ?k") auto
qed

text \<open>
  C14: a peer that announces, in the header of any chunk that starts a message, a length above
  500 KiB makes \<^verbatim>\<open>Conn.Read\<close> panic in the buffer pool, whatever it sends after the header.
\<close>

theorem oversized_message_panics:
  assumes "valid_csid (CSID m)" and "TypeID m < 256"
    and "Length m \<le> 0xffffff" and "maxpoolsize < unat (Length m)"
    and "ready conn" and "rd_in (conn_rw conn) = first_header m @ rest"
  shows "fst (conn_Read c conn) = Some (Panic SliceOutOfRange)"
  using conn_Read_step_first_panics [OF assms(1-4) _ _ assms(6)] assms(5)
  by (auto simp: conn_Read_def conn_Read_loop.simps [of conn] ready_def)

theorem oversized_message_panics_witness:
  "fst (conn_Read emptyChunkStream (NewConn [3, 0, 0, 0, 0x07, 0xd0, 0x01, 9, 1, 0, 0, 0, 0xaa] EOF None 4096)) =
     Some (Panic SliceOutOfRange)"
proof (rule oversized_message_panics [where rest = "[0xaa]" and
      m = "emptyChunkStream\<lparr>CSID := 3, Length := 512001, TypeID := 9, StreamID := 1\<rparr>"])
  show "rd_in (conn_rw (NewConn [3, 0, 0, 0, 0x07, 0xd0, 0x01, 9, 1, 0, 0, 0, 0xaa] EOF None 4096)) =
    first_header (emptyChunkStream\<lparr>CSID := 3, Length := 512001, TypeID := 9, StreamID := 1\<rparr>) @ [0xaa]"
    by (simp add: NewConn_def NewReadWriter_def emptyChunkStream_def header_bytes)
qed (simp_all add: emptyChunkStream_def valid_csid_unat maxpoolsize_def ready_def NewConn_def NewReadWriter_def
    rw_good_def bufw_good_def key_idle_def)

text \<open>
  A complete \<^verbatim>\<open>Set Chunk Size\<close> or \<^verbatim>\<open>Window Acknowledgement Size\<close> message with fewer
  than four payload bytes makes \<^verbatim>\<open>Conn.Read\<close> panic.
\<close>

theorem short_control_message_panics:
  assumes "valid_message m" and "TypeID m = idSetChunkSize \<or> TypeID m = idWindowAckSize"
    and "length (Data m) < 4" and "ready conn" and "remoteChunkSize conn \<noteq> 0"
    and "rd_in (conn_rw conn) = message_bytes (unat (remoteChunkSize conn)) m @ rest"
  shows "fst (conn_Read c conn) = Some (Panic IndexOutOfRange)"
proof -
  obtain cs p where "conn_Read_loop conn = (None, cs, advance conn rest p (msg_key m) cs)"
    and "holds m (length (Data m)) cs"
    using conn_Read_loop_message [OF assms(1) _ _ _ refl _ assms(6)] assms(4,5)
    by (auto simp: ready_def unat_gt_0)
  with assms(2,3) show ?thesis
    by (auto simp: conn_Read_def handleControlMsg_def holds_def BigEndian_Uint32_def)
qed

theorem short_control_message_panics_witness:
  "fst (conn_Read emptyChunkStream (NewConn [2, 0, 0, 0, 0, 0, 1, 1, 0, 0, 0, 0, 0x80] EOF None 4096)) =
     Some (Panic IndexOutOfRange)"
proof (rule short_control_message_panics [where rest = "[]" and
      m = "emptyChunkStream\<lparr>CSID := 2, Length := 1, TypeID := 1, Data := [0x80]\<rparr>"])
  show "rd_in (conn_rw (NewConn [2, 0, 0, 0, 0, 0, 1, 1, 0, 0, 0, 0, 0x80] EOF None 4096)) =
    message_bytes (unat (remoteChunkSize (NewConn [2, 0, 0, 0, 0, 0, 1, 1, 0, 0, 0, 0, 0x80] EOF None 4096)))
      (emptyChunkStream\<lparr>CSID := 2, Length := 1, TypeID := 1, Data := [0x80]\<rparr>) @ []"
    by (simp add: NewConn_def NewReadWriter_def message_bytes_def emptyChunkStream_def header_bytes)
qed (simp_all add: emptyChunkStream_def valid_message_def valid_csid_unat maxpoolsize_def ready_def NewConn_def
    NewReadWriter_def rw_good_def bufw_good_def key_idle_def)


section \<open>Interleaved messages\<close>

section \<open>Interleaved chunks\<close>

text \<open>
  A chunk is a message and the offset of its payload in the message. The chunks of a message from an offset on, and the bytes of a chunk.
\<close>

function rest_chunks :: "nat \<Rightarrow> ChunkStream \<Rightarrow> nat \<Rightarrow> (ChunkStream \<times> nat) list" where
  "rest_chunks k m n = (if length (Data m) \<le> n \<or> k = 0 then [] else (m, n) # rest_chunks k m (n + k))"
  by pat_completeness auto
termination by (relation "measure (\<lambda>(k, m, n). length (Data m) - n)") auto

declare rest_chunks.simps [simp del]

lemma rest_chunks_Cons: "n < length (Data m) \<Longrightarrow> 0 < k \<Longrightarrow> rest_chunks k m n = (m, n) # rest_chunks k m (n + k)"
  by (subst rest_chunks.simps) simp

definition message_chunks :: "nat \<Rightarrow> ChunkStream \<Rightarrow> (ChunkStream \<times> nat) list" where
  "message_chunks k m = rest_chunks k m 0"

definition chunk_bytes :: "nat \<Rightarrow> ChunkStream \<times> nat \<Rightarrow> bytes" where
  "chunk_bytes k c = (case c of (m, n) \<Rightarrow> (if n = 0 then first_header m else next_header m) @ take k (drop n (Data m)))"

definition last_chunk :: "nat \<Rightarrow> ChunkStream \<times> nat \<Rightarrow> bool" where
  "last_chunk k c \<longleftrightarrow> length (Data (fst c)) \<le> snd c + k"

text \<open>The bytes of a message are those of its chunks.\<close>

lemma rest_chunks_bytes:
  "0 < n \<Longrightarrow> 0 < k \<Longrightarrow> concat (map (chunk_bytes k) (rest_chunks k m n)) = next_chunks k (next_header m) (drop n (Data m))"
proof (induction k m n rule: rest_chunks.induct)
  case (1 k m n)
  show ?case
  proof (cases "length (Data m) \<le> n")
    case False
    with 1 show ?thesis
      by (simp add: rest_chunks.simps [of k m n] next_chunks_step chunk_bytes_def add.commute)
  qed (simp add: rest_chunks.simps)
qed

lemma message_chunks_bytes:
  assumes "valid_message m" and "0 < k"
  shows "message_bytes k m = concat (map (chunk_bytes k) (message_chunks k m))"
  using assms rest_chunks_bytes [of k k m]
  by (simp add: message_bytes_def message_chunks_def rest_chunks.simps [of k m 0] chunk_bytes_def valid_message_def)

text \<open>
  Interleaved messages: the chunks that use any one key are the chunks of whole messages, one message after the other; between the chunks of
  different keys there is no order.
\<close>

definition of_key :: "u32 \<Rightarrow> (ChunkStream \<times> nat) list \<Rightarrow> (ChunkStream \<times> nat) list" where
  "of_key key cs = filter (\<lambda>c. msg_key (fst c) = key) cs"

definition whole_messages :: "nat \<Rightarrow> (ChunkStream \<times> nat) list \<Rightarrow> bool" where
  "whole_messages k cs \<longleftrightarrow> (\<exists>ms. list_all valid_message ms \<and> cs = concat (map (message_chunks k) ms))"

lemma whole_messages_Cons:
  assumes "whole_messages k ((m, n) # cs)" and "0 < k"
  shows "n = 0 \<and> valid_message m \<and> (\<exists>cs'. cs = rest_chunks k m k @ cs' \<and> whole_messages k cs')"
proof -
  obtain ms where ms: "list_all valid_message ms" "(m, n) # cs = concat (map (message_chunks k) ms)"
    using assms(1) by (auto simp: whole_messages_def)
  then obtain m' ms' where m': "ms = m' # ms'" by (cases ms) auto
  then have "message_chunks k m' = (m', 0) # rest_chunks k m' k"
    using ms(1) assms(2) by (simp add: message_chunks_def rest_chunks.simps [of k m' 0] valid_message_def)
  with ms m' show ?thesis by (auto simp: whole_messages_def)
qed

text \<open>A connection in the middle of such a sequence: for every key, what is still to come fits what is there.\<close>

definition under_way :: "nat \<Rightarrow> (ChunkStream \<times> nat) list \<Rightarrow> Conn \<Rightarrow> u32 \<Rightarrow> bool" where
  "under_way k cs conn key \<longleftrightarrow>
     key_idle conn key \<and> whole_messages k (of_key key cs) \<or>
     (\<exists>m n c cs'. chunks conn key = Some c \<and> holds m n c \<and> valid_message m \<and> 0 < n \<and> n < length (Data m) \<and>
        of_key key cs = rest_chunks k m n @ cs' \<and> whole_messages k cs')"

definition receiving :: "nat \<Rightarrow> (ChunkStream \<times> nat) list \<Rightarrow> Conn \<Rightarrow> bool" where
  "receiving k cs conn \<longleftrightarrow>
     readError (conn_rw conn) = None \<and> rw_good (conn_rw conn) \<and> pool_inv (conn_pool conn) \<and> chunkSize conn \<noteq> 0 \<and>
     unat (remoteChunkSize conn) = k \<and> 0 < k \<and> (\<forall>key. under_way k cs conn key)"

lemma under_way_other:
  assumes "under_way k ((m, n) # cs) conn key" and "key \<noteq> msg_key m" and "chunks conn' key = chunks conn key"
  shows "under_way k cs conn' key"
  using assms by (simp add: under_way_def of_key_def key_idle_def)

lemma holds_full: "holds m (length (Data m)) c \<Longrightarrow> cs_full c \<and> remain c = 0 \<and> same_message m c"
  by (simp add: holds_def cs_full_def same_message_def)

lemma under_way_read:
  assumes "chunks conn' (msg_key m) = Some c" and "holds m (min (n + k) (length (Data m))) c" and "valid_message m" and "0 < k"
    and "of_key (msg_key m) cs = rest_chunks k m (n + k) @ cs'" and "whole_messages k cs'"
  shows "under_way k cs conn' (msg_key m) \<and> (if last_chunk k (m, n) then cs_full c \<and> same_message m c else \<not> cs_full c)"
proof (cases "last_chunk k (m, n)")
  case True
  then have "holds m (length (Data m)) c" "rest_chunks k m (n + k) = []"
    using assms(2) by (simp_all add: last_chunk_def min_def rest_chunks.simps split: if_splits)
  with holds_full True assms show ?thesis by (auto simp: under_way_def key_idle_def)
next
  case False
  then have "holds m (n + k) c" "n + k < length (Data m)" using assms(2) by (simp_all add: last_chunk_def)
  moreover from this have "\<not> cs_full c" by (simp add: holds_def cs_full_def)
  ultimately show ?thesis using False assms unfolding under_way_def by auto
qed

lemma receiving_step:
  assumes r: "receiving k ((m, n) # cs) conn" and i: "rd_in (conn_rw conn) = chunk_bytes k (m, n) @ rest"
  shows "\<exists>c conn'. conn_Read_step conn = (None, c, conn') \<and> receiving k cs conn' \<and> rd_in (conn_rw conn') = rest \<and>
     (if last_chunk k (m, n) then cs_full c \<and> same_message m c else \<not> cs_full c)"
proof -
  have c: "readError (conn_rw conn) = None" "rw_good (conn_rw conn)" "pool_inv (conn_pool conn)" "chunkSize conn \<noteq> 0"
      "k = unat (remoteChunkSize conn)" "0 < k" "\<And>key. under_way k ((m, n) # cs) conn key"
    using r by (auto simp: receiving_def)
  have key: "of_key (msg_key m) ((m, n) # cs) = (m, n) # of_key (msg_key m) cs" by (simp add: of_key_def)
  have "\<exists>c p cs'. conn_Read_step conn = (None, c, advance conn rest p (msg_key m) c) \<and> pool_inv p \<and> holds m (min (n + k) (length (Data m))) c \<and>
      valid_message m \<and> of_key (msg_key m) cs = rest_chunks k m (n + k) @ cs' \<and> whole_messages k cs'"
    using c(7) [of "msg_key m", unfolded under_way_def key]
  proof (elim disjE exE conjE)
    assume idle: "key_idle conn (msg_key m)" and w: "whole_messages k ((m, n) # of_key (msg_key m) cs)"
    obtain cs' where w': "n = 0" "valid_message m" "of_key (msg_key m) cs = rest_chunks k m k @ cs'" "whole_messages k cs'"
      using whole_messages_Cons [OF w c(6)] by blast
    then have "rd_in (conn_rw conn) = first_header m @ take k (Data m) @ rest" using i by (simp add: chunk_bytes_def)
    from conn_Read_step_first [OF w'(2) c(3) idle c(1,5,6) this] w' show ?thesis by auto
  next
    fix m' n' c0 cs'
    assume h: "chunks conn (msg_key m) = Some c0" "holds m' n' c0" "valid_message m'" "0 < n'" "n' < length (Data m')"
      "(m, n) # of_key (msg_key m) cs = rest_chunks k m' n' @ cs'" "whole_messages k cs'"
    from h(6) have e: "m' = m" "n' = n" "of_key (msg_key m) cs = rest_chunks k m (n + k) @ cs'"
      using c(6) by (auto simp: rest_chunks_Cons [OF h(5) c(6)])
    then have "rd_in (conn_rw conn) = next_header m @ take k (drop n (Data m)) @ rest" using i h(4) by (simp add: chunk_bytes_def)
    from conn_Read_step_next [OF _ _ h(1) _ c(1,5,6) this] h e c(3) show ?thesis by auto
  qed
  then obtain d p cs' where d: "conn_Read_step conn = (None, d, advance conn rest p (msg_key m) d)" "pool_inv p"
      "holds m (min (n + k) (length (Data m))) d" "valid_message m" "of_key (msg_key m) cs = rest_chunks k m (n + k) @ cs'" "whole_messages k cs'"
    by blast
  let ?conn = "advance conn rest p (msg_key m) d"
  have ch: "chunks ?conn (msg_key m) = Some d" by simp
  have u: "under_way k cs ?conn (msg_key m)" "if last_chunk k (m, n) then cs_full d \<and> same_message m d else \<not> cs_full d"
    using under_way_read [OF ch d(3,4) c(6) d(5,6)] by simp_all
  have "under_way k cs ?conn key" for key
  proof (cases "key = msg_key m")
    case True
    with u(1) show ?thesis by simp
  next
    case False
    then show ?thesis by (intro under_way_other [OF c(7)]) simp_all
  qed
  then have "receiving k cs ?conn" using c d(2) by (simp add: receiving_def advance_def rw_good_def)
  with d(1) u(2) show ?thesis by (intro exI [of _ d] exI [of _ ?conn]) simp
qed

lemma receiving_pending: "receiving k ((m, n) # cs) conn \<Longrightarrow> \<not> last_chunk k (m, n) \<Longrightarrow> cs \<noteq> []"
proof
  assume r: "receiving k ((m, n) # cs) conn" and l: "\<not> last_chunk k (m, n)" and "cs = []"
  then have *: "of_key (msg_key m) ((m, n) # cs) = [(m, n)]" "0 < k" "under_way k ((m, n) # cs) conn (msg_key m)"
    by (simp_all add: of_key_def receiving_def)
  have n: "rest_chunks k m (n + k) \<noteq> []" using l *(2) by (simp add: last_chunk_def rest_chunks_Cons)
  show False
    using *(3) [unfolded under_way_def *(1)]
  proof (elim disjE exE conjE)
    assume "whole_messages k [(m, n)]"
    from whole_messages_Cons [OF this *(2)] n show False by auto
  next
    fix m' n' c cs' assume "n' < length (Data m')" "[(m, n)] = rest_chunks k m' n' @ cs'"
    with n show False using *(2) by (auto simp: rest_chunks_Cons)
  qed
qed

text \<open>One call of the loop goes on to the next last chunk of a message.\<close>

lemma receiving_loop:
  assumes "receiving k cs conn" and "rd_in (conn_rw conn) = concat (map (chunk_bytes k) cs) @ rest" and "cs \<noteq> []"
  shows "\<exists>m n cs' c conn'. conn_Read_loop conn = (None, c, conn') \<and> same_message m c \<and> filter (last_chunk k) cs = (m, n) # filter (last_chunk k) cs' \<and>
     (m, n) \<in> set cs \<and> set cs' \<subseteq> set cs \<and> length cs' < length cs \<and> receiving k cs' conn' \<and> rd_in (conn_rw conn') = concat (map (chunk_bytes k) cs') @ rest"
  using assms
proof (induction cs arbitrary: conn)
  case (Cons x cs)
  obtain m n where x: "x = (m, n)" by (cases x)
  have i: "rd_in (conn_rw conn) = chunk_bytes k (m, n) @ concat (map (chunk_bytes k) cs) @ rest" using Cons.prems(2) x by simp
  obtain c conn' where st: "conn_Read_step conn = (None, c, conn')" "receiving k cs conn'" "rd_in (conn_rw conn') = concat (map (chunk_bytes k) cs) @ rest"
      "if last_chunk k (m, n) then cs_full c \<and> same_message m c else \<not> cs_full c"
    using receiving_step [OF Cons.prems(1) [unfolded x] i] by blast
  show ?case
  proof (cases "last_chunk k (m, n)")
    case True
    then have "conn_Read_loop conn = (None, c, conn')" using st(1,4) by (subst conn_Read_loop.simps) simp
    with True st x show ?thesis
      by (intro exI [of _ m] exI [of _ n] exI [of _ cs] exI [of _ c] exI [of _ conn']) auto
  next
    case False
    then have "conn_Read_loop conn = conn_Read_loop conn'" using st(1,4) by (subst conn_Read_loop.simps) simp
    moreover have "cs \<noteq> []" using receiving_pending Cons.prems(1) x False by blast
    moreover obtain m' n' cs' c' conn2 where "conn_Read_loop conn' = (None, c', conn2)" "same_message m' c'"
        "filter (last_chunk k) cs = (m', n') # filter (last_chunk k) cs'" "(m', n') \<in> set cs" "set cs' \<subseteq> set cs" "length cs' < length cs"
        "receiving k cs' conn2" "rd_in (conn_rw conn2) = concat (map (chunk_bytes k) cs') @ rest"
      using Cons.IH [OF st(2,3) \<open>cs \<noteq> []\<close>] by blast
    ultimately show ?thesis using False x
      by (intro exI [of _ m'] exI [of _ n'] exI [of _ cs'] exI [of _ c'] exI [of _ conn2]) auto
  qed
qed simp

lemma conn_ack_keeps:
  assumes "rw_good (conn_rw conn)" and "chunkSize conn \<noteq> 0"
  shows "\<exists>conn'. conn_ack n conn = (None, conn') \<and> chunks conn' = chunks conn \<and> conn_pool conn' = conn_pool conn \<and>
     chunkSize conn' = chunkSize conn \<and> remoteChunkSize conn' = remoteChunkSize conn \<and> rw_good (conn_rw conn') \<and>
     readError (conn_rw conn') = readError (conn_rw conn) \<and> rd_in (conn_rw conn') = rd_in (conn_rw conn)"
proof -
  let ?cs = "ack_message (ackReceived conn + n)"
  have cs: "sized ?cs" "Data ?cs \<noteq> []" using NewAck_sized [of "ackReceived conn + n"] by (simp_all add: NewAck_eq)
  obtain c w where w: "writeChunk ?cs (chunkSize conn) (conn_rw conn) = (None, c, w)"
      and e: "emitted (conn_rw conn) (message_bytes (unat (chunkSize conn)) (chooseCSID ?cs)) w"
    using writeChunk_emits [OF cs assms(2,1)] by blast
  have "readError w = readError (conn_rw conn)" "rd_in w = rd_in (conn_rw conn)" "rw_good w"
    using e unfolding emitted_def by (metis ReadWriter.select_convs ReadWriter.surjective ReadWriter.update_convs(4))+
  with assms w show ?thesis by (auto simp: conn_ack_def NewAck_eq Let_def)
qed

text \<open>The messages that leave the chunk size as it is, and whose number, if they carry one, is there.\<close>

definition plain_message :: "ChunkStream \<Rightarrow> bool" where
  "plain_message m \<longleftrightarrow> TypeID m \<noteq> idSetChunkSize \<and> (TypeID m = idWindowAckSize \<longrightarrow> 4 \<le> length (Data m))"

lemma receiving_Read:
  assumes "receiving k cs conn" and "rd_in (conn_rw conn) = concat (map (chunk_bytes k) cs) @ rest" and "cs \<noteq> []"
    and "list_all (\<lambda>c. plain_message (fst c)) cs"
  shows "\<exists>m n cs' c conn'. conn_Read c0 conn = (None, c, conn') \<and> same_message m c \<and> filter (last_chunk k) cs = (m, n) # filter (last_chunk k) cs' \<and>
     set cs' \<subseteq> set cs \<and> length cs' < length cs \<and> receiving k cs' conn' \<and> rd_in (conn_rw conn') = concat (map (chunk_bytes k) cs') @ rest"
proof -
  obtain m n cs' c conn1 where l: "conn_Read_loop conn = (None, c, conn1)" "same_message m c" "filter (last_chunk k) cs = (m, n) # filter (last_chunk k) cs'"
      "(m, n) \<in> set cs" "set cs' \<subseteq> set cs" "length cs' < length cs" "receiving k cs' conn1" "rd_in (conn_rw conn1) = concat (map (chunk_bytes k) cs') @ rest"
    using receiving_loop [OF assms(1-3)] by blast
  have p: "plain_message m" using assms(4) l(4) by (auto simp: list_all_iff)
  obtain w where h: "handleControlMsg c conn1 = Inr (conn1\<lparr>remoteWindowAckSize := w\<rparr>)"
  proof (cases "TypeID m = idWindowAckSize")
    case True
    with p l(2) that show ?thesis
      by (auto simp: handleControlMsg_def plain_message_def same_message_def BigEndian_Uint32_def)
  next
    case False
    with p l(2) have "handleControlMsg c conn1 = Inr (conn1\<lparr>remoteWindowAckSize := remoteWindowAckSize conn1\<rparr>)"
      by (simp add: handleControlMsg_def plain_message_def same_message_def)
    with that show ?thesis by blast
  qed
  let ?conn = "conn1\<lparr>remoteWindowAckSize := w\<rparr>"
  obtain conn2 where a: "conn_ack (Length c) ?conn = (None, conn2)" "chunks conn2 = chunks conn1" "conn_pool conn2 = conn_pool conn1"
      "chunkSize conn2 = chunkSize conn1" "remoteChunkSize conn2 = remoteChunkSize conn1" "rw_good (conn_rw conn2)"
      "readError (conn_rw conn2) = readError (conn_rw conn1)" "rd_in (conn_rw conn2) = rd_in (conn_rw conn1)"
    using conn_ack_keeps [of ?conn "Length c"] l(7) by (auto simp: receiving_def)
  have "receiving k cs' conn2" using l(7) a(2-7) by (simp add: receiving_def under_way_def key_idle_def)
  moreover have "conn_Read c0 conn = (None, c, conn2)" using l(1) h a(1) by (simp add: conn_Read_def)
  ultimately show ?thesis using l a(8) by (intro exI [of _ m] exI [of _ n] exI [of _ cs'] exI [of _ c] exI [of _ conn2]) simp
qed

lemma receiving_all:
  assumes "receiving k cs conn" and "rd_in (conn_rw conn) = concat (map (chunk_bytes k) cs) @ rest" and "list_all (\<lambda>c. plain_message (fst c)) cs"
  shows "\<exists>out conn'. read_messages (length (filter (last_chunk k) cs)) conn = (None, out, conn') \<and>
     list_all2 same_message (map fst (filter (last_chunk k) cs)) out \<and> receiving k [] conn' \<and> rd_in (conn_rw conn') = rest"
  using assms
proof (induction "length cs" arbitrary: cs conn rule: less_induct)
  case less
  show ?case
  proof (cases "cs = []")
    case True
    with less.prems show ?thesis by simp
  next
    case False
    obtain m n cs' c conn' where r: "conn_Read emptyChunkStream conn = (None, c, conn')" "same_message m c"
        "filter (last_chunk k) cs = (m, n) # filter (last_chunk k) cs'" "set cs' \<subseteq> set cs" "length cs' < length cs" "receiving k cs' conn'"
        "rd_in (conn_rw conn') = concat (map (chunk_bytes k) cs') @ rest"
      using receiving_Read [OF less.prems(1,2) False less.prems(3)] by blast
    have "list_all (\<lambda>c. plain_message (fst c)) cs'" using less.prems(3) r(4) by (auto simp: list_all_iff)
    with less.hyps [OF r(5-7)] r(1-3) show ?thesis by auto
  qed
qed

text \<open>
  C13: chunks of any number of messages may be interleaved in any way, as long as the messages whose chunk streams have the same key come one after
  the other. \<^verbatim>\<open>Conn.Read\<close> called once for each message then returns the messages in the order of their last chunks, each of them complete, and leaves
  what follows the chunks unread; the connection is between messages again. (Messages that change the chunk size are left out here.)
\<close>

theorem interleaved_messages:
  assumes "ready conn" and "k = unat (remoteChunkSize conn)" and "0 < k"
    and "rd_in (conn_rw conn) = concat (map (chunk_bytes k) cs) @ rest"
    and "\<forall>key. \<exists>ms. list_all valid_message ms \<and> filter (\<lambda>c. msg_key (fst c) = key) cs = concat (map (message_chunks k) ms)"
    and "list_all (\<lambda>(m, n). TypeID m \<noteq> idSetChunkSize \<and> (TypeID m = idWindowAckSize \<longrightarrow> 4 \<le> length (Data m))) cs"
  shows "let done = map fst (filter (\<lambda>(m, n). length (Data m) \<le> n + k) cs)
     in \<exists>out conn'. read_messages (length done) conn = (None, out, conn') \<and> list_all2 same_message done out \<and> rd_in (conn_rw conn') = rest \<and> ready conn'"
proof -
  have l: "(\<lambda>(m, n). length (Data m) \<le> n + k) = last_chunk k" by (auto simp: last_chunk_def fun_eq_iff)
  have "receiving k cs conn"
    using assms(1-3,5) by (simp add: receiving_def ready_def under_way_def whole_messages_def of_key_def)
  moreover have "list_all (\<lambda>c. plain_message (fst c)) cs" using assms(6) by (auto simp: list_all_iff plain_message_def)
  ultimately obtain out conn' where r: "read_messages (length (filter (last_chunk k) cs)) conn = (None, out, conn')"
      "list_all2 same_message (map fst (filter (last_chunk k) cs)) out" "receiving k [] conn'" "rd_in (conn_rw conn') = rest"
    using receiving_all [OF _ assms(4)] by blast
  have "key_idle conn' key" for key
    using r(3) by (auto simp: receiving_def under_way_def of_key_def rest_chunks_Cons)
  with r(3) have "ready conn'" by (simp add: receiving_def ready_def)
  with r show ?thesis unfolding l Let_def by auto
qed

text \<open>A video and an audio message of three chunks each, in the order v1 v2 a1 a2 v3 a3.\<close>

definition cross_video :: ChunkStream where
  "cross_video = emptyChunkStream\<lparr>CSID := 6, TypeID := 9, Length := 307, Data := replicate 307 7\<rparr>"

definition cross_audio :: ChunkStream where
  "cross_audio = emptyChunkStream\<lparr>CSID := 4, TypeID := 8, Length := 307, Data := replicate 307 8\<rparr>"

definition cross_order :: "(ChunkStream \<times> nat) list" where
  "cross_order = [(cross_video, 0), (cross_video, 128), (cross_audio, 0), (cross_audio, 128), (cross_video, 256), (cross_audio, 256)]"

theorem interleaved_messages_witness:
  "\<exists>v a conn'. read_messages 2 (NewConn (concat (map (chunk_bytes 128) cross_order) @ [5]) EOF None 4096) = (None, [v, a], conn') \<and>
     Data v = replicate 307 7 \<and> Data a = replicate 307 8 \<and> rd_in (conn_rw conn') = [5]"
proof -
  let ?c = "NewConn (concat (map (chunk_bytes 128) cross_order) @ [5]) EOF None 4096"
  have m: "length (Data cross_video) = 307" "length (Data cross_audio) = 307" "Data cross_video = replicate 307 7" "Data cross_audio = replicate 307 8"
      "msg_key cross_video = 6" "msg_key cross_audio = 4" "TypeID cross_video = 9" "TypeID cross_audio = 8"
      "valid_message cross_video" "valid_message cross_audio"
    by (simp_all add: cross_video_def cross_audio_def msg_key_def csid_key_def valid_message_def valid_csid_unat maxpoolsize_def emptyChunkStream_def)
  have ch: "message_chunks 128 cross_video = [(cross_video, 0), (cross_video, 128), (cross_video, 256)]"
      "message_chunks 128 cross_audio = [(cross_audio, 0), (cross_audio, 128), (cross_audio, 256)]"
    by (simp_all add: message_chunks_def rest_chunks.simps m)
  have keys: "\<exists>ms. list_all valid_message ms \<and> filter (\<lambda>c. msg_key (fst c) = key) cross_order = concat (map (message_chunks 128) ms)" for key
    by (rule exI [of _ "if key = 6 then [cross_video] else if key = 4 then [cross_audio] else []"]) (auto simp: cross_order_def m ch)
  have t: "list_all (\<lambda>(m, n). TypeID m \<noteq> idSetChunkSize \<and> (TypeID m = idWindowAckSize \<longrightarrow> 4 \<le> length (Data m))) cross_order"
    by (simp add: cross_order_def m)
  have c: "ready ?c" "128 = unat (remoteChunkSize ?c)" "rd_in (conn_rw ?c) = concat (map (chunk_bytes 128) cross_order) @ [5]"
    by (simp_all add: ready_def NewConn_def NewReadWriter_def rw_good_def bufw_good_def key_idle_def)
  have d: "map fst (filter (\<lambda>(m, n). length (Data m) \<le> n + 128) cross_order) = [cross_video, cross_audio]"
    by (simp add: cross_order_def m)
  obtain out conn' where r: "read_messages (length [cross_video, cross_audio]) ?c = (None, out, conn')" "list_all2 same_message [cross_video, cross_audio] out"
      "rd_in (conn_rw conn') = [5]"
    using interleaved_messages [OF c(1,2) _ c(3) _ t, unfolded Let_def d] keys by auto
  then obtain v a where "out = [v, a]" "same_message cross_video v" "same_message cross_audio a" by (auto simp: list_all2_Cons1)
  with r m(3,4) show ?thesis by (auto simp: same_message_def numeral_2_eq_2)
qed

text \<open>
  Chunk stream ids from 64 to 319 all use the key 0 in \<^verbatim>\<open>Conn.chunks\<close>: a chunk that starts a
  message on such an id, in the middle of a message on another such id, is refused with an error
  although the two chunk streams are independent.
\<close>

theorem extended_csid_collision:
  assumes "valid_message m" and "valid_message i"
    and "64 \<le> CSID m" and "CSID m < 320" and "64 \<le> CSID i" and "CSID i < 320"
    and "ready conn" and "k = unat (remoteChunkSize conn)" and "0 < k" and "k < length (Data m)"
    and "rd_in (conn_rw conn) = first_header m @ take k (Data m) @ first_header i @ rest"
  shows "fst (conn_Read c conn) = Some (Err (Errorf ''invalid remain = ''))"
proof -
  have key: "64 \<le> d \<Longrightarrow> d < 320 \<Longrightarrow> csid_key d = 0" for d :: u32
    using unat_csid_64 [of d] by (auto simp: csid_key_def word_less_nat_alt word_le_nat_alt)
  have r: "readError (conn_rw conn) = None" "pool_inv (conn_pool conn)" "key_idle conn (msg_key m)"
    using assms(7) by (simp_all add: ready_def)
  obtain cs p where st: "conn_Read_step conn = (None, cs, advance conn (first_header i @ rest) p (msg_key m) cs)"
    and cs: "holds m (min k (length (Data m))) cs"
    using conn_Read_step_first [OF assms(1) r(2,3,1) assms(8,9,11)] by blast
  let ?c1 = "advance conn (first_header i @ rest) p (msg_key m) cs"
  have vi: "valid_csid (CSID i)" using assms(2) by (simp add: valid_message_def)
  obtain tl where tl: "first_header i @ rest = ucast (push_bit 6 0 OR csid_key (CSID i)) # tl"
    using basic_header_split [OF vi, of 0] by (auto simp: first_header_def)
  have h1: "ReadUintBE 1 (conn_rw ?c1) = (ucast (ucast (push_bit 6 0 OR csid_key (CSID i)) :: byte), None,
      (conn_rw ?c1)\<lparr>rd_in := tl\<rparr>)"
    by (rule ReadUintBE_1) (use r(1) tl in simp_all)
  have rem: "remain cs \<noteq> 0"
  proof -
    have "remain cs = word_of_nat (length (Data m) - k)" using cs assms(10) by (simp add: holds_def)
    then show ?thesis
      using assms(10) unat_small [of "length (Data m) - k"] valid_message_small [OF assms(1)]
      by (auto simp: word_unat_eq_iff simp del: of_nat_diff)
  qed
  have fmt: "(0 :: u32) < 4" by simp
  note hb = header_byte [OF csid_key_small fmt, of "CSID i"]
  have ch: "chunks ?c1 (csid_key (CSID i)) = Some cs"
    using key assms(3-6) by (simp add: msg_key_def)
  have st2: "fst (conn_Read_step ?c1) = Some (Err (Errorf ''invalid remain = ''))"
    unfolding conn_Read_step_def h1 prod.case hb Let_def ch option.case
    using rem by (simp add: readChunk_def)
  have "\<not> cs_full cs" using cs assms(10) by (simp add: holds_def cs_full_def)
  then have "fst (conn_Read_loop conn) = Some (Err (Errorf ''invalid remain = ''))"
    using st st2 conn_Read_loop.simps [of conn] conn_Read_loop.simps [of ?c1]
    by (auto split: prod.splits option.splits)
  then show ?thesis by (auto simp: conn_Read_def split: prod.splits)
qed


theorem extended_csid_collision_witness:
  "fst (conn_Read emptyChunkStream (NewConn
     (first_header (emptyChunkStream\<lparr>CSID := 64, TypeID := 9, Length := 130, Data := replicate 130 7\<rparr>) @ replicate 128 7 @
      first_header (emptyChunkStream\<lparr>CSID := 70, TypeID := 8, Length := 2, Data := [1, 2]\<rparr>) @ [1, 2]) EOF None 4096)) =
     Some (Err (Errorf ''invalid remain = ''))"
  by (rule extended_csid_collision [where k = 128 and rest = "[1, 2]" and
        m = "emptyChunkStream\<lparr>CSID := 64, TypeID := 9, Length := 130, Data := replicate 130 7\<rparr>" and
        i = "emptyChunkStream\<lparr>CSID := 70, TypeID := 8, Length := 2, Data := [1, 2]\<rparr>"])
    (simp_all add: valid_message_def valid_csid_unat emptyChunkStream_def maxpoolsize_def ready_def
      NewConn_def NewReadWriter_def rw_good_def bufw_good_def key_idle_def word_le_nat_alt)

section \<open>Acknowledgements\<close>

text \<open>
  A connection acknowledges exactly when the bytes received since the last acknowledgement
  reach the peer's window (on 32-bit counters): then it emits one Acknowledgement message that
  carries their number and starts counting again; otherwise it emits nothing and keeps counting.
\<close>

theorem ack_when_window_reached:
  assumes "rw_good (conn_rw conn)" and "chunkSize conn \<noteq> 0"
  shows "\<exists>conn'. conn_ack n conn = (None, conn') \<and>
     (if remoteWindowAckSize conn \<le> ackReceived conn + n
      then ackReceived conn' = 0 \<and>
        rw_stream (conn_rw conn') = rw_stream (conn_rw conn) @
          message_bytes (unat (chunkSize conn))
            (emptyChunkStream\<lparr>CSID := 2, TypeID := idAck, Length := 4, Data := be_bytes 4 (ackReceived conn + n)\<rparr>)
      else ackReceived conn' = ackReceived conn + n \<and> conn_rw conn' = conn_rw conn) \<and>
     (received conn' = received conn + n \<or> received conn' = 0 \<and> 0xf0000000 \<le> received conn + n)"
proof -
  let ?cs = "emptyChunkStream\<lparr>CSID := 2, TypeID := idAck, Length := 4, Data := be_bytes 4 (ackReceived conn + n)\<rparr>"
  have a: "NewAck (ackReceived conn + n) = Inr ?cs" by (simp add: NewAck_def initControlMsg_4)
  have sz: "sized ?cs" "Data ?cs \<noteq> []"
    using length_be_bytes [of 4 "ackReceived conn + n"] by (auto simp: sized_def simp del: length_be_bytes)
  have "chooseCSID ?cs = ?cs" by (simp add: chooseCSID_def emptyChunkStream_def)
  then obtain c w where "writeChunk ?cs (chunkSize conn) (conn_rw conn) = (None, c, w)"
    and "emitted (conn_rw conn) (message_bytes (unat (chunkSize conn)) ?cs) w"
    using writeChunk_emits [OF sz assms(2,1)] by auto
  with a show ?thesis by (auto simp: conn_ack_def Let_def emitted_def)
qed

theorem ack_when_window_reached_witness:
  "\<exists>conn'. conn_ack 2500000 (NewConn [] EOF None 4096) = (None, conn') \<and> ackReceived conn' = 0 \<and>
     rw_stream (conn_rw conn') = message_bytes 128
       (emptyChunkStream\<lparr>CSID := 2, TypeID := 3, Length := 4, Data := be_bytes 4 (2500000 :: u32)\<rparr>)"
proof -
  have "rw_good (conn_rw (NewConn [] EOF None 4096))" "chunkSize (NewConn [] EOF None 4096) \<noteq> 0"
    by (simp_all add: NewConn_def NewReadWriter_def rw_good_def bufw_good_def)
  from ack_when_window_reached [OF this, of 2500000] show ?thesis
    by (auto simp: NewConn_def NewReadWriter_def rw_stream_def bufw_stream_def)
qed

end
