(* ===== verification/FlvTag.thy ===== *)
theory FlvTag
  imports Av Pio
begin

text \<open>
  \<^verbatim>\<open>src/container/flv/tag.go\<close> and \<^verbatim>\<open>demuxer.go\<close>: the media tag header at the start of an
  audio or video packet, and the demuxer that reads it. A \<^verbatim>\<open>Tag\<close> is the only implementation
  of the packet header interfaces of \<^verbatim>\<open>av\<close>, so a packet here carries a \<open>Tag option\<close>.
\<close>

unbundle bit_operations_syntax

section \<open>tag.go\<close>

record flvTag =
  fType :: byte
  dataSize :: u32
  flvt_timeStamp :: u32
  flvt_streamID :: u32

record mediaTag =
  soundFormat :: byte
  soundRate :: byte
  soundSize :: byte
  soundType :: byte
  aacPacketType :: byte
  frameType :: byte
  codecID :: byte
  avcPacketType :: byte
  compositionTime :: "32 word"

record Tag =
  flvt :: flvTag
  mediat :: mediaTag

type_synonym packet = "Tag Packet"

text \<open>\<^verbatim>\<open>var tag Tag\<close>: the zero value.\<close>

definition zeroTag :: Tag where
  "zeroTag = \<lparr>flvt = \<lparr>fType = 0, dataSize = 0, flvt_timeStamp = 0, flvt_streamID = 0\<rparr>,
     mediat = \<lparr>soundFormat = 0, soundRate = 0, soundSize = 0, soundType = 0, aacPacketType = 0,
       frameType = 0, codecID = 0, avcPacketType = 0, compositionTime = 0\<rparr>\<rparr>"

definition SoundFormat :: "Tag \<Rightarrow> byte" where
  "SoundFormat tag = soundFormat (mediat tag)"

definition AACPacketType :: "Tag \<Rightarrow> byte" where
  "AACPacketType tag = aacPacketType (mediat tag)"

definition IsKeyFrame :: "Tag \<Rightarrow> bool" where
  "IsKeyFrame tag \<longleftrightarrow> frameType (mediat tag) = FrameKey"

definition IsSeq :: "Tag \<Rightarrow> bool" where
  "IsSeq tag \<longleftrightarrow> frameType (mediat tag) = FrameKey \<and> avcPacketType (mediat tag) = AVCSeqHeader"

definition CodecID :: "Tag \<Rightarrow> byte" where
  "CodecID tag = codecID (mediat tag)"

definition CompositionTime :: "Tag \<Rightarrow> 32 word" where
  "CompositionTime tag = compositionTime (mediat tag)"

definition parseAudioHeader :: "Tag \<Rightarrow> bytes \<Rightarrow> (nat \<times> Tag) res" where
  "parseAudioHeader tag b =
     (if length b < 1 then Inl (Err (Errorf ''invalid audiodata len=''))
      else bindR (index_at b 0) (\<lambda>flags.
        let m = (mediat tag)\<lparr>soundFormat := drop_bit 4 flags, soundRate := drop_bit 2 flags AND 3,
                   soundSize := drop_bit 1 flags AND 1, soundType := flags AND 1\<rparr>
        in if soundFormat m = SoundAAC
           then bindR (index_at b 1) (\<lambda>t. Inr (2, tag\<lparr>mediat := m\<lparr>aacPacketType := t\<rparr>\<rparr>))
           else Inr (1, tag\<lparr>mediat := m\<rparr>)))"

text \<open>The three bytes of the composition time, shifted into the field (lines 186 to 188).\<close>

definition addCompositionTime :: "32 word \<Rightarrow> bytes \<Rightarrow> 32 word" where
  "addCompositionTime ct bs = foldl (\<lambda>ct b. push_bit 8 ct + ucast b) ct bs"

definition parseVideoHeader :: "Tag \<Rightarrow> bytes \<Rightarrow> (nat \<times> Tag) res" where
  "parseVideoHeader tag b =
     (if length b < 5 then Inl (Err (Errorf ''invalid videodata len=''))
      else bindR (index_at b 0) (\<lambda>flags.
        let m = (mediat tag)\<lparr>frameType := drop_bit 4 flags, codecID := flags AND 0xf\<rparr>
        in if frameType m = FrameInter \<or> frameType m = FrameKey
           then bindR (index_at b 1) (\<lambda>t. bindR (slice b 2 5) (\<lambda>ct.
                  Inr (5, tag\<lparr>mediat := m\<lparr>avcPacketType := t,
                    compositionTime := addCompositionTime (compositionTime m) ct\<rparr>\<rparr>)))
           else Inr (1, tag\<lparr>mediat := m\<rparr>)))"

definition ParseMediaTagHeader :: "Tag \<Rightarrow> bytes \<Rightarrow> bool \<Rightarrow> (nat \<times> Tag) res" where
  "ParseMediaTagHeader tag b isVideo =
     (if isVideo then parseVideoHeader tag b else parseAudioHeader tag b)"

section \<open>demuxer.go\<close>

text \<open>Both set the packet's header; on an error the packet is left as it is.\<close>

definition DemuxH :: "packet \<Rightarrow> packet res" where
  "DemuxH p =
     bindR (ParseMediaTagHeader zeroTag (pkt_Data p) (IsVideo p)) (\<lambda>(n, tag).
       Inr (p\<lparr>Header := Some tag\<rparr>))"

definition Demux :: "packet \<Rightarrow> packet res" where
  "Demux p =
     bindR (ParseMediaTagHeader zeroTag (pkt_Data p) (IsVideo p)) (\<lambda>(n, tag).
       bindR (if CodecID tag = VideoH264
              then bindR (index_at (pkt_Data p) 0) (\<lambda>b0.
                     if b0 = 0x17 then bindR (index_at (pkt_Data p) 1) (\<lambda>b1. Inr (b1 = 0x02)) else Inr False)
              else Inr False) (\<lambda>eos.
       if eos then Inl (Err (Errorf ''avc end sequence''))
       else bindR (slice (pkt_Data p) n (length (pkt_Data p))) (\<lambda>d.
              Inr (p\<lparr>Header := Some tag, pkt_Data := d\<rparr>))))"

section \<open>Properties\<close>

text \<open>
  The header bytes of a media tag, by the FLV format: an AAC packet type for that sound format; an AVC packet type and a composition time,
  24 bits in two's complement, for codec 7 and no other.
\<close>

definition audio_header_bytes :: "mediaTag \<Rightarrow> bytes" where
  "audio_header_bytes m =
     (push_bit 4 (soundFormat m) OR push_bit 2 (soundRate m) OR push_bit 1 (soundSize m) OR soundType m) #
     (if soundFormat m = SoundAAC then [aacPacketType m] else [])"

definition video_header_bytes :: "mediaTag \<Rightarrow> bytes" where
  "video_header_bytes m =
     (push_bit 4 (frameType m) OR codecID m) #
     (if codecID m = VideoH264 then avcPacketType m # be_bytes 3 (compositionTime m) else [])"

definition audio_tag :: "mediaTag \<Rightarrow> Tag" where
  "audio_tag m = zeroTag\<lparr>mediat := (mediat zeroTag)\<lparr>soundFormat := soundFormat m, soundRate := soundRate m,
     soundSize := soundSize m, soundType := soundType m,
     aacPacketType := (if soundFormat m = SoundAAC then aacPacketType m else 0)\<rparr>\<rparr>"

text \<open>The composition time as it is read: a negative one comes out \<open>2 ^ 24\<close> too large.\<close>

definition read_time :: "u32 \<Rightarrow> u32" where
  "read_time ct = (if 0 \<le> sint ct then ct else ct + 0x1000000)"

lemma read_time_0 [simp]: "read_time 0 = 0"
  by (simp add: read_time_def)

definition video_tag :: "mediaTag \<Rightarrow> Tag" where
  "video_tag m = zeroTag\<lparr>mediat := (mediat zeroTag)\<lparr>frameType := frameType m, codecID := codecID m,
     avcPacketType := (if codecID m = VideoH264 then avcPacketType m else 0),
     compositionTime := (if codecID m = VideoH264 then read_time (compositionTime m) else 0)\<rparr>\<rparr>"

text \<open>The fields fit their bits.\<close>

definition audio_fields :: "mediaTag \<Rightarrow> bool" where
  "audio_fields m \<longleftrightarrow> soundFormat m < 16 \<and> soundRate m < 4 \<and> soundSize m < 2 \<and> soundType m < 2"

definition video_fields :: "mediaTag \<Rightarrow> bool" where
  "video_fields m \<longleftrightarrow> frameType m < 16 \<and> codecID m < 16 \<and> - (2 ^ 23) \<le> sint (compositionTime m) \<and> sint (compositionTime m) < 2 ^ 23"

text \<open>
  The frames that the code takes to have an AVC packet type and a composition time, by their frame type; they agree with the format
  for an AVC key or inter frame, and for a frame of another codec that is neither.
\<close>

definition avc_header_expected :: "mediaTag \<Rightarrow> bool" where
  "avc_header_expected m \<longleftrightarrow> frameType m = FrameInter \<or> frameType m = FrameKey"

lemma byte_take_bit: "unat x < 2 ^ n \<Longrightarrow> x = take_bit n x" for x :: byte
  by (simp add: take_bit_self)

lemma audio_flag_bits:
  assumes "0 < i" and "i < 2"
  shows "drop_bit 4 (push_bit 4 (take_bit 4 f) OR push_bit 2 (take_bit 2 r) OR push_bit i (take_bit i s) OR take_bit i t)
      = (take_bit 4 f :: byte)"
    and "drop_bit 2 (push_bit 4 (take_bit 4 f) OR push_bit 2 (take_bit 2 r) OR push_bit i (take_bit i s) OR take_bit i t) AND mask 2
      = (take_bit 2 r :: byte)"
    and "drop_bit i (push_bit 4 (take_bit 4 f) OR push_bit 2 (take_bit 2 r) OR push_bit i (take_bit i s) OR take_bit i t) AND mask i
      = (take_bit i s :: byte)"
    and "(push_bit 4 (take_bit 4 f) OR push_bit 2 (take_bit 2 r) OR push_bit i (take_bit i s) OR take_bit i t) AND mask i
      = (take_bit i t :: byte)"
  using assms by (auto intro!: bit_word_eqI simp: bit_simps)

lemma audio_flags:
  assumes "f < 16" and "r < 4" and "s < 2" and "t < 2"
  shows "drop_bit 4 (push_bit 4 f OR push_bit 2 r OR push_bit 1 s OR t) = (f :: byte)"
    and "drop_bit 2 (push_bit 4 f OR push_bit 2 r OR push_bit 1 s OR t) AND 3 = r"
    and "drop_bit 1 (push_bit 4 f OR push_bit 2 r OR push_bit 1 s OR t) AND 1 = s"
    and "(push_bit 4 f OR push_bit 2 r OR push_bit 1 s OR t) AND 1 = t"
proof -
  have e: "f = take_bit 4 f" "r = take_bit 2 r" "s = take_bit 1 s" "t = take_bit 1 t"
    by (rule byte_take_bit, use assms in \<open>simp add: word_less_nat_alt\<close>)+
  have m: "mask 2 = (3 :: byte)" "mask 1 = (1 :: byte)" by (simp_all add: mask_eq_exp_minus_1)
  have i: "(0 :: nat) < 1" "(1 :: nat) < 2" by simp_all
  note bits = audio_flag_bits [OF i, of f r s t, folded e, unfolded m]
  show "drop_bit 4 (push_bit 4 f OR push_bit 2 r OR push_bit 1 s OR t) = f"
    and "drop_bit 2 (push_bit 4 f OR push_bit 2 r OR push_bit 1 s OR t) AND 3 = r"
    and "drop_bit 1 (push_bit 4 f OR push_bit 2 r OR push_bit 1 s OR t) AND 1 = s"
    and "(push_bit 4 f OR push_bit 2 r OR push_bit 1 s OR t) AND 1 = t"
    by (rule bits)+
qed

lemma video_flags:
  assumes "f < 16" and "c < 16"
  shows "drop_bit 4 (push_bit 4 f OR c) = (f :: byte)" and "(push_bit 4 f OR c) AND 0xf = c"
proof -
  have e: "f = take_bit 4 f" "c = take_bit 4 c"
    using assms by (auto intro!: byte_take_bit simp: word_less_nat_alt)
  have m: "(0xf :: byte) = mask 4" by (simp add: mask_eq_exp_minus_1)
  have "drop_bit 4 (push_bit 4 (take_bit 4 f) OR take_bit 4 c) = take_bit 4 f"
    by (rule bit_word_eqI) (auto simp: bit_simps)
  then show "drop_bit 4 (push_bit 4 f OR c) = f" using e by simp
  have "(push_bit 4 (take_bit 4 f) OR take_bit 4 c) AND mask 4 = take_bit 4 c"
    by (rule bit_word_eqI) (auto simp: bit_simps)
  then show "(push_bit 4 f OR c) AND 0xf = c" using e m by simp
qed

lemma addCompositionTime_be_bytes: "addCompositionTime 0 (be_bytes 3 v) = take_bit 24 v"
  using be_word_be_bytes [of 3 v] by (simp add: addCompositionTime_def be_word_def)


lemma parseAudioHeader_bytes:
  assumes "audio_fields m"
  shows "parseAudioHeader zeroTag (audio_header_bytes m @ d) = Inr (length (audio_header_bytes m), audio_tag m)"
  using assms audio_flags [of "soundFormat m" "soundRate m" "soundSize m" "soundType m"]
  by (auto simp: parseAudioHeader_def audio_header_bytes_def audio_tag_def audio_fields_def zeroTag_def
      index_at_def Let_def)

lemma take_bit_24:
  fixes ct :: u32
  assumes "- (2 ^ 23) \<le> sint ct" and "sint ct < 2 ^ 23"
  shows "take_bit 24 ct = read_time ct"
proof -
  have "take_bit 24 ct = of_int (take_bit 24 (sint ct))" using take_bit_of_int [of 24 "sint ct", where ?'a = "32 word"] by simp
  moreover have "take_bit 24 (sint ct) = (if 0 \<le> sint ct then sint ct else sint ct + 2 ^ 24)"
  proof (cases "0 \<le> sint ct")
    case False
    have "sint ct mod 2 ^ 24 = (sint ct + 2 ^ 24) mod 2 ^ 24" by simp
    also have "\<dots> = sint ct + 2 ^ 24" using False assms by (intro mod_pos_pos_trivial) simp_all
    finally show ?thesis using False by (simp add: take_bit_eq_mod)
  qed (use assms in \<open>simp add: take_bit_eq_mod\<close>)
  ultimately show ?thesis by (simp add: read_time_def)
qed

text \<open>What the code makes of any frame whose flags are these: a header of five bytes by the frame type, of one byte otherwise.\<close>

lemma parseVideoHeader_flags:
  assumes "frameType m < 16" and "codecID m < 16"
  shows "avc_header_expected m \<Longrightarrow> parseVideoHeader zeroTag ((push_bit 4 (frameType m) OR codecID m) # t # be_bytes 3 v @ d) =
      Inr (5, zeroTag\<lparr>mediat := (mediat zeroTag)\<lparr>frameType := frameType m, codecID := codecID m, avcPacketType := t, compositionTime := take_bit 24 v\<rparr>\<rparr>)"
    and "\<not> avc_header_expected m \<Longrightarrow> 4 \<le> length d \<Longrightarrow> parseVideoHeader zeroTag ((push_bit 4 (frameType m) OR codecID m) # d) =
      Inr (1, zeroTag\<lparr>mediat := (mediat zeroTag)\<lparr>frameType := frameType m, codecID := codecID m, avcPacketType := 0, compositionTime := 0\<rparr>\<rparr>)"
proof -
  have sl: "slice (x # y # be_bytes 3 v @ d) 2 5 = Inr (be_bytes 3 v)" for x y and v :: "32 word"
    by (auto simp: numeral_eq_Suc)
  show "avc_header_expected m \<Longrightarrow> parseVideoHeader zeroTag ((push_bit 4 (frameType m) OR codecID m) # t # be_bytes 3 v @ d) =
      Inr (5, zeroTag\<lparr>mediat := (mediat zeroTag)\<lparr>frameType := frameType m, codecID := codecID m, avcPacketType := t, compositionTime := take_bit 24 v\<rparr>\<rparr>)"
    using assms video_flags [of "frameType m" "codecID m"] addCompositionTime_be_bytes [of v]
    by (auto simp: parseVideoHeader_def avc_header_expected_def zeroTag_def index_at_def Let_def sl)
  show "\<not> avc_header_expected m \<Longrightarrow> 4 \<le> length d \<Longrightarrow> parseVideoHeader zeroTag ((push_bit 4 (frameType m) OR codecID m) # d) =
      Inr (1, zeroTag\<lparr>mediat := (mediat zeroTag)\<lparr>frameType := frameType m, codecID := codecID m, avcPacketType := 0, compositionTime := 0\<rparr>\<rparr>)"
    using assms video_flags [of "frameType m" "codecID m"]
    by (auto simp: parseVideoHeader_def avc_header_expected_def zeroTag_def index_at_def Let_def)
qed

lemma parseVideoHeader_bytes:
  assumes "video_fields m" and "avc_header_expected m \<longleftrightarrow> codecID m = VideoH264" and "codecID m = VideoH264 \<or> 4 \<le> length d"
  shows "parseVideoHeader zeroTag (video_header_bytes m @ d) = Inr (length (video_header_bytes m), video_tag m)"
  using assms parseVideoHeader_flags(1) [of m "avcPacketType m" "compositionTime m" d] parseVideoHeader_flags(2) [of m d] take_bit_24 [of "compositionTime m"]
  by (cases "codecID m = VideoH264") (simp_all add: video_header_bytes_def video_tag_def video_fields_def)

lemma avc_key_flags:
  assumes "frameType m < 16" and "codecID m < 16"
  shows "push_bit 4 (frameType m) OR codecID m = 0x17 \<longleftrightarrow> frameType m = FrameKey \<and> codecID m = VideoH264"
proof
  let ?f = "push_bit 4 (frameType m) OR codecID m"
  assume "?f = 0x17"
  then have "drop_bit 4 ?f = drop_bit 4 (0x17 :: byte)" "?f AND 0xf = 0x17 AND 0xf" by simp_all
  with video_flags [of "frameType m" "codecID m"] assms
  show "frameType m = FrameKey \<and> codecID m = VideoH264" by (simp add: drop_bit_eq_div)
qed simp

text \<open>
  C35: the demuxer reads back the media tag header that the FLV format prescribes, for audio packets, for AVC key and inter frames and for
  frames of another codec that are neither key nor inter frames and have at least four payload bytes: a packet made of the header bytes
  of given fields and a payload is demuxed into exactly these fields and the payload, except that a negative composition time
  comes out \<open>2 ^ 24\<close> too large, and that the AVC end-of-sequence packet is refused. (For the other video frames, see the next theorem.)
\<close>

theorem demux_of_tag_bytes:
  assumes "IsVideo p \<longrightarrow> video_fields m \<and> ((frameType m = FrameKey \<or> frameType m = FrameInter) \<longleftrightarrow> codecID m = VideoH264) \<and>
      (codecID m = VideoH264 \<or> 4 \<le> length d)"
    and "\<not> IsVideo p \<longrightarrow> audio_fields m"
    and "pkt_Data p = (if IsVideo p then video_header_bytes m else audio_header_bytes m) @ d"
  shows "Demux p =
    (if IsVideo p \<and> frameType m = FrameKey \<and> codecID m = VideoH264 \<and> avcPacketType m = AVCEos
     then Inl (Err (Errorf ''avc end sequence''))
     else Inr (p\<lparr>Header := Some (if IsVideo p then video_tag m else audio_tag m), pkt_Data := d\<rparr>))"
proof (cases "IsVideo p")
  case False
  have "ParseMediaTagHeader zeroTag (pkt_Data p) (IsVideo p) = Inr (length (audio_header_bytes m), audio_tag m)"
    using False assms parseAudioHeader_bytes by (simp add: ParseMediaTagHeader_def)
  with False assms show ?thesis
    by (simp add: Demux_def CodecID_def audio_tag_def zeroTag_def slice_def)
next
  case True
  have par: "ParseMediaTagHeader zeroTag (pkt_Data p) (IsVideo p) = Inr (length (video_header_bytes m), video_tag m)"
    using True assms parseVideoHeader_bytes [of m d] by (auto simp: ParseMediaTagHeader_def avc_header_expected_def)
  show ?thesis
    using True assms avc_key_flags [of m] unfolding Demux_def par
    by (auto simp: CodecID_def video_tag_def zeroTag_def slice_def index_at_def video_header_bytes_def video_fields_def)
qed

theorem demux_of_tag_bytes_witness:
  "Demux \<lparr>IsAudio = False, IsVideo = True, IsMetadata = False, TimeStamp = 7, pkt_StreamID = 1, Header = None,
      pkt_Data = [0x17, 1, 0, 0, 80, 1, 2, 3, 4]\<rparr> =
   Inr \<lparr>IsAudio = False, IsVideo = True, IsMetadata = False, TimeStamp = 7, pkt_StreamID = 1,
      Header = Some (video_tag \<lparr>soundFormat = 0, soundRate = 0, soundSize = 0, soundType = 0, aacPacketType = 0,
        frameType = 1, codecID = 7, avcPacketType = 1, compositionTime = 80\<rparr>),
      pkt_Data = [1, 2, 3, 4]\<rparr>"
  by (subst demux_of_tag_bytes [of _ "\<lparr>soundFormat = 0, soundRate = 0, soundSize = 0, soundType = 0,
        aacPacketType = 0, frameType = 1, codecID = 7, avcPacketType = 1, compositionTime = 80\<rparr>" "[1, 2, 3, 4]"])
    (simp_all add: video_fields_def video_header_bytes_def be_bytes_unfold drop_bit_eq_div)

text \<open>
  The two kinds of video frames on which the code and the format differ, since the code decides by the frame type and the format by the
  codec. A key or inter frame of another codec loses its first four payload bytes, which are read as an AVC packet type and a composition
  time; an AVC frame of another frame type keeps its packet type and composition time in front of its payload.
\<close>

theorem demux_misplaced_header:
  assumes "IsVideo p" and "video_fields m" and "pkt_Data p = video_header_bytes m @ d"
  shows "codecID m \<noteq> VideoH264 \<Longrightarrow> frameType m = FrameKey \<or> frameType m = FrameInter \<Longrightarrow> d = t # be_bytes 3 v @ d' \<Longrightarrow>
      \<exists>tag. Demux p = Inr (p\<lparr>Header := Some tag, pkt_Data := d'\<rparr>) \<and> avcPacketType (mediat tag) = t \<and> compositionTime (mediat tag) = take_bit 24 v"
    and "codecID m = VideoH264 \<Longrightarrow> frameType m \<noteq> FrameKey \<Longrightarrow> frameType m \<noteq> FrameInter \<Longrightarrow>
      \<exists>tag. Demux p = Inr (p\<lparr>Header := Some tag, pkt_Data := avcPacketType m # be_bytes 3 (compositionTime m) @ d\<rparr>)"
proof -
  have f: "frameType m < 16" "codecID m < 16" using assms(2) by (simp_all add: video_fields_def)
  show "\<exists>tag. Demux p = Inr (p\<lparr>Header := Some tag, pkt_Data := d'\<rparr>) \<and> avcPacketType (mediat tag) = t \<and> compositionTime (mediat tag) = take_bit 24 v"
    if c: "codecID m \<noteq> VideoH264" "frameType m = FrameKey \<or> frameType m = FrameInter" "d = t # be_bytes 3 v @ d'"
  proof -
    let ?tag = "zeroTag\<lparr>mediat := (mediat zeroTag)\<lparr>frameType := frameType m, codecID := codecID m, avcPacketType := t, compositionTime := take_bit 24 v\<rparr>\<rparr>"
    have par: "ParseMediaTagHeader zeroTag (pkt_Data p) (IsVideo p) = Inr (5, ?tag)"
      using c assms(1,3) parseVideoHeader_flags(1) [OF f, of t v d']
      by (simp add: ParseMediaTagHeader_def avc_header_expected_def video_header_bytes_def disj_commute)
    have "Demux p = Inr (p\<lparr>Header := Some ?tag, pkt_Data := d'\<rparr>)"
      using c assms(3) unfolding Demux_def par by (simp add: CodecID_def video_header_bytes_def slice_def)
    then show ?thesis by (intro exI [of _ ?tag]) simp
  qed
  show "\<exists>tag. Demux p = Inr (p\<lparr>Header := Some tag, pkt_Data := avcPacketType m # be_bytes 3 (compositionTime m) @ d\<rparr>)"
    if c: "codecID m = VideoH264" "frameType m \<noteq> FrameKey" "frameType m \<noteq> FrameInter"
  proof -
    let ?tag = "zeroTag\<lparr>mediat := (mediat zeroTag)\<lparr>frameType := frameType m, codecID := codecID m, avcPacketType := 0, compositionTime := 0\<rparr>\<rparr>"
    have par: "ParseMediaTagHeader zeroTag (pkt_Data p) (IsVideo p) = Inr (1, ?tag)"
      using c assms(1,3) parseVideoHeader_flags(2) [OF f, of "avcPacketType m # be_bytes 3 (compositionTime m) @ d"]
      by (simp add: ParseMediaTagHeader_def avc_header_expected_def video_header_bytes_def)
    have "Demux p = Inr (p\<lparr>Header := Some ?tag, pkt_Data := avcPacketType m # be_bytes 3 (compositionTime m) @ d\<rparr>)"
      using c assms(3) avc_key_flags [OF f] unfolding Demux_def par by (simp add: CodecID_def video_header_bytes_def slice_def index_at_def)
    then show ?thesis by blast
  qed
qed

theorem demux_misplaced_header_witness:
  "\<exists>tag. Demux \<lparr>IsAudio = False, IsVideo = True, IsMetadata = False, TimeStamp = 7, pkt_StreamID = 1, Header = None,
      pkt_Data = [0x12, 1, 2, 3, 4, 5, 6]\<rparr> =
   Inr \<lparr>IsAudio = False, IsVideo = True, IsMetadata = False, TimeStamp = 7, pkt_StreamID = 1, Header = Some tag, pkt_Data = [5, 6]\<rparr>"
  using demux_misplaced_header(1) [where p = "\<lparr>IsAudio = False, IsVideo = True, IsMetadata = False, TimeStamp = 7, pkt_StreamID = 1, Header = None,
      pkt_Data = [0x12, 1, 2, 3, 4, 5, 6]\<rparr>" and m = "\<lparr>soundFormat = 0, soundRate = 0, soundSize = 0, soundType = 0,
        aacPacketType = 0, frameType = 1, codecID = 2, avcPacketType = 0, compositionTime = 0\<rparr>" and t = 1 and v = "0x020304" and d' = "[5, 6]"]
  by (auto simp: video_fields_def video_header_bytes_def be_bytes_unfold drop_bit_eq_div)

text \<open>
  \<^verbatim>\<open>DemuxH\<close> fails exactly on a packet too short for its header: an error for fewer than five
  bytes of video or no byte of audio, and a panic (not an error) for an AAC packet of one byte,
  whose packet type byte is missing. On every other packet it sets the header and keeps the rest.
\<close>

theorem demux_header_outcomes:
  "((\<exists>e. DemuxH p = Inl (Err e)) \<longleftrightarrow> length (pkt_Data p) < (if IsVideo p then 5 else 1)) \<and>
   ((\<exists>e. DemuxH p = Inl (Panic e)) \<longleftrightarrow>
      \<not> IsVideo p \<and> (\<exists>b. pkt_Data p = [b] \<and> drop_bit 4 b = SoundAAC)) \<and>
   ((\<exists>t. DemuxH p = Inr (p\<lparr>Header := Some t\<rparr>)) \<longleftrightarrow>
      (if IsVideo p then 5 \<le> length (pkt_Data p)
       else \<exists>b bs. pkt_Data p = b # bs \<and> (drop_bit 4 b = SoundAAC \<longrightarrow> bs \<noteq> [])))"
proof (cases "IsVideo p")
  case True
  have "5 \<le> length (pkt_Data p) \<Longrightarrow> \<exists>n t. parseVideoHeader zeroTag (pkt_Data p) = Inr (n, t)"
    by (auto simp: parseVideoHeader_def index_at_def slice_def Let_def)
  moreover have "length (pkt_Data p) < 5 \<Longrightarrow> \<exists>e. parseVideoHeader zeroTag (pkt_Data p) = Inl (Err e)"
    by (simp add: parseVideoHeader_def)
  ultimately show ?thesis
    using True by (cases "length (pkt_Data p) < 5") (auto simp: DemuxH_def ParseMediaTagHeader_def)
next
  case False
  then show ?thesis
    by (cases "pkt_Data p"; cases "tl (pkt_Data p)")
      (auto simp: DemuxH_def ParseMediaTagHeader_def parseAudioHeader_def index_at_def Let_def)
qed

theorem demux_header_outcomes_witness:
  "\<exists>e. DemuxH \<lparr>IsAudio = True, IsVideo = False, IsMetadata = False, TimeStamp = 7, pkt_StreamID = 1, Header = None,
      pkt_Data = [0xaf]\<rparr> = Inl (Panic e)"
  by (subst demux_header_outcomes [THEN conjunct2, THEN conjunct1]) (simp add: drop_bit_eq_div)

end
