(* ===== verification/Amf.thy ===== *)
theory Amf
  imports Complex_Main Prelude "HOL-Library.AList"
begin

text \<open>
  \<^verbatim>\<open>src/protocol/amf\<close>: the values, the decoder state and the byte-level helpers
  (\<^verbatim>\<open>const.go\<close>, \<^verbatim>\<open>decoder.go\<close>, \<^verbatim>\<open>encoder.go\<close>, \<^verbatim>\<open>util.go\<close>) shared by the two codecs.

  A value of type \<^verbatim>\<open>interface{}\<close> is an \<open>amfval\<close>. A \<^verbatim>\<open>float64\<close> is its 64 bits; an
  \<^verbatim>\<open>Object\<close> is an association list without duplicate keys, in any order (Go iterates over a
  map in any order); a \<^verbatim>\<open>time.Time\<close> is its Unix time in seconds.

  The reader is Go's \<^verbatim>\<open>bytes.Reader\<close>, which all callers use: at the end of its input it
  reports \<^verbatim>\<open>io.EOF\<close> even for a read of zero bytes. A decoding routine maps a state (the
  reference tables and the input left) to a result and a new state, on an error too, because
  a decoder lives as long as its connection.
\<close>

unbundle bit_operations_syntax

section \<open>Values and the decoder\<close>

datatype amfval =
    ANil
  | ABool bool
  | ANumber u64
  | AInt int
  | AString bytes
  | AObject "(bytes \<times> amfval) list"
  | AArray "amfval list"
  | ATyped bytes "(bytes \<times> amfval) list"
  | ATime int
  | ABytes bytes

record Trait =
  trait_Type :: bytes
  Externalizable :: bool
  Dynamic :: bool
  Properties :: "bytes list"

definition NewTrait :: Trait where
  "NewTrait = \<lparr>trait_Type = [], Externalizable = False, Dynamic = False, Properties = []\<rparr>"

text \<open>
  The decoder, with the input left to its reader as the last field. \<^verbatim>\<open>refCache\<close> is only
  appended to and never read; no code of the repository registers an external handler.
\<close>

record Decoder =
  stringRefs :: "bytes list"
  objectRefs :: "amfval list"
  traitRefs :: "Trait list"
  amf_rd :: bytes

definition NewDecoder :: "bytes \<Rightarrow> Decoder" where
  "NewDecoder r = \<lparr>stringRefs = [], objectRefs = [], traitRefs = [], amf_rd = r\<rparr>"

section \<open>Decoding routines\<close>

type_synonym 'a amf = "Decoder \<Rightarrow> 'a res \<times> Decoder"

definition retA :: "'a \<Rightarrow> 'a amf" where
  "retA x = (\<lambda>s. (Inr x, s))"

definition failA :: "exn \<Rightarrow> 'a amf" where
  "failA e = (\<lambda>s. (Inl e, s))"

definition bindA :: "'a amf \<Rightarrow> ('a \<Rightarrow> 'b amf) \<Rightarrow> 'b amf" where
  "bindA m f = (\<lambda>s. case m s of (Inl e, s') \<Rightarrow> (Inl e, s') | (Inr x, s') \<Rightarrow> f x s')"

definition wrapA :: "string \<Rightarrow> 'a amf \<Rightarrow> 'a amf" where
  "wrapA msg m = (\<lambda>s. case m s of (r, s') \<Rightarrow> (wrapR msg r, s'))"

text \<open>\<^verbatim>\<open>refs[i]\<close> with Go's bounds check.\<close>

definition lookupA :: "(Decoder \<Rightarrow> 'a list) \<Rightarrow> u32 \<Rightarrow> 'a amf" where
  "lookupA refs i = (\<lambda>s. (index_at (refs s) (unat i), s))"

definition addStringRef :: "bytes \<Rightarrow> unit amf" where
  "addStringRef x = (\<lambda>s. (Inr (), s\<lparr>stringRefs := stringRefs s @ [x]\<rparr>))"

definition addObjectRef :: "amfval \<Rightarrow> unit amf" where
  "addObjectRef x = (\<lambda>s. (Inr (), s\<lparr>objectRefs := objectRefs s @ [x]\<rparr>))"

definition addTraitRef :: "Trait \<Rightarrow> unit amf" where
  "addTraitRef x = (\<lambda>s. (Inr (), s\<lparr>traitRefs := traitRefs s @ [x]\<rparr>))"

section \<open>The standard library's readers\<close>

text \<open>\<^verbatim>\<open>bytes.Reader.Read\<close> into a fresh buffer of \<open>n\<close> bytes: the bytes read and the buffer.\<close>

definition reader_Read :: "nat \<Rightarrow> (nat \<times> bytes) amf" where
  "reader_Read n = (\<lambda>s.
     if amf_rd s = [] then (Inl (Err EOF), s)
     else (let m = min n (length (amf_rd s))
           in (Inr (m, take m (amf_rd s) @ replicate (n - m) 0), s\<lparr>amf_rd := drop m (amf_rd s)\<rparr>)))"

text \<open>\<^verbatim>\<open>binary.Read(r, binary.BigEndian, &v)\<close> of an integer or float of \<open>n\<close> bytes.\<close>

definition binary_Read :: "nat \<Rightarrow> 'a::len word amf" where
  "binary_Read n = (\<lambda>s.
     if n \<le> length (amf_rd s) then (Inr (be_word (take n (amf_rd s))), s\<lparr>amf_rd := drop n (amf_rd s)\<rparr>)
     else (Inl (Err (if amf_rd s = [] then EOF else ErrUnexpectedEOF)), s\<lparr>amf_rd := []\<rparr>))"

section \<open>util.go\<close>

definition ReadBytes :: "nat \<Rightarrow> bytes amf" where
  "ReadBytes n = bindA (reader_Read n) (\<lambda>(m, bs).
     if m \<noteq> n then failA (Err (Errorf ''decode read bytes failed: expected'')) else retA bs)"

definition ReadByte :: "byte amf" where
  "ReadByte = bindA (ReadBytes 1) (\<lambda>bs s. (index_at bs 0, s))"

definition ReadMarker :: "byte amf" where
  "ReadMarker = ReadByte"

definition AssertMarker :: "bool \<Rightarrow> byte \<Rightarrow> unit amf" where
  "AssertMarker checkMarker m =
     (if \<not> checkMarker then retA ()
      else bindA ReadMarker (\<lambda>marker.
        if marker \<noteq> m then failA (Err (Errorf ''decode assert marker failed: expected'')) else retA ()))"

section \<open>float64 of an integer\<close>

text \<open>
  The bits of \<^verbatim>\<open>float64(n)\<close> for a positive \<open>n\<close>: the exponent is the position of the highest
  bit and the mantissa the 52 bits below it, rounded to nearest, ties to even. A carry out
  of the mantissa goes into the exponent.
\<close>

fun bit_len :: "nat \<Rightarrow> nat" where
  "bit_len n = (if n = 0 then 0 else Suc (bit_len (n div 2)))"

declare bit_len.simps [simp del]

definition float64_of_pos :: "nat \<Rightarrow> nat" where
  "float64_of_pos n =
     (let e = bit_len n - 1
      in if e \<le> 52 then (e + 1023) * 2 ^ 52 + (n * 2 ^ (52 - e) - 2 ^ 52)
         else (let k = e - 52; q = n div 2 ^ k; r = n mod 2 ^ k;
                   q' = (if r > 2 ^ (k - 1) \<or> r = 2 ^ (k - 1) \<and> odd q then q + 1 else q)
               in (e + 1023) * 2 ^ 52 + (q' - 2 ^ 52)))"

definition float64_of_int :: "int \<Rightarrow> u64" where
  "float64_of_int i =
     (if i = 0 then 0
      else if i > 0 then word_of_nat (float64_of_pos (nat i))
      else word_of_nat (2 ^ 63 + float64_of_pos (nat (- i))))"

text \<open>
  The value of a finite float64, and the float64 nearest to a rational number (ties to even).
  The bits of a positive float64 count the floats below it, so a carry of the mantissa and the
  subnormal numbers need no case of their own.
\<close>

definition rat_of_f64 :: "u64 \<Rightarrow> rat option" where
  "rat_of_f64 b =
     (let n = unat b; e = n div 2 ^ 52 mod 2048; f = n mod 2 ^ 52;
          m = (if e = 0 then f else 2 ^ 52 + f); e = max e 1;
          x = (if e \<ge> 1075 then of_nat m * 2 ^ (e - 1075) else of_nat m / 2 ^ (1075 - e))
      in if n div 2 ^ 52 mod 2048 = 2047 then None else Some (if n \<ge> 2 ^ 63 then - x else x))"

definition round_even :: "rat \<Rightarrow> int" where
  "round_even x =
     (let f = \<lfloor>x\<rfloor>; d = x - of_int f
      in if d < 1 / 2 then f else if d > 1 / 2 then f + 1 else if even f then f else f + 1)"

definition f64_of_rat :: "rat \<Rightarrow> u64" where
  "f64_of_rat x =
     (let sgn = (if x < 0 then 2 ^ 63 else 0); y = \<bar>x\<bar>; (p, q) = quotient_of y;
          d = int (bit_len (nat p)) - int (bit_len (nat q));
          e = (if (if d \<ge> 0 then y < 2 ^ nat d else y * 2 ^ nat (- d) < 1) then d - 1 else d);
          k = max (e - 52) (- 1074);
          m = round_even (if k \<ge> 0 then y / 2 ^ nat k else y * 2 ^ nat (- k));
          bits = min ((k + 1074) * 2 ^ 52 + m) (2047 * 2 ^ 52)
      in if y = 0 then 0 else word_of_int (sgn + bits))"

text \<open>
  \<^verbatim>\<open>int64(f)\<close>: the integer part; where it does not fit (or for a NaN), the value the amd64
  instruction gives.
\<close>

definition int64_of_f64 :: "u64 \<Rightarrow> int" where
  "int64_of_f64 b =
     (case rat_of_f64 b of
        None \<Rightarrow> - (2 ^ 63)
      | Some x \<Rightarrow> (let t = (if x < 0 then - \<lfloor>- x\<rfloor> else \<lfloor>x\<rfloor>)
                   in if - (2 ^ 63) \<le> t \<and> t < 2 ^ 63 then t else - (2 ^ 63)))"

text \<open>\<^verbatim>\<open>time.Unix(int64(f / 1000), 0)\<close> and \<^verbatim>\<open>float64(t.Unix()) * 1000.0\<close>.\<close>

definition unix_of_millis :: "u64 \<Rightarrow> int" where
  "unix_of_millis b =
     (case rat_of_f64 b of None \<Rightarrow> - (2 ^ 63) | Some x \<Rightarrow> int64_of_f64 (f64_of_rat (x / 1000)))"

definition millis_of_unix :: "int \<Rightarrow> u64" where
  "millis_of_unix t =
     (case rat_of_f64 (float64_of_int t) of None \<Rightarrow> 0 | Some x \<Rightarrow> f64_of_rat (x * 1000))"

section \<open>Safe routines\<close>

lemma retA_apply [simp]: "retA x s = (Inr x, s)"
  by (simp add: retA_def)

lemma failA_apply [simp]: "failA e s = (Inl e, s)"
  by (simp add: failA_def)

text \<open>
  A routine is safe up to \<open>n\<close> when, started with at most \<open>n\<close> bytes of input, it does not run
  out of fuel and does not lengthen the input.
\<close>

definition safeA :: "nat \<Rightarrow> 'a amf \<Rightarrow> bool" where
  "safeA n m \<longleftrightarrow>
     (\<forall>s. length (amf_rd s) \<le> n \<longrightarrow> fst (m s) \<noteq> Inl OutOfFuel \<and> length (amf_rd (snd (m s))) \<le> length (amf_rd s))"

named_theorems safe_intros \<open>routines that are safe\<close>

lemma safeI:
  "(\<And>s. length (amf_rd s) \<le> n \<Longrightarrow> fst (m s) \<noteq> Inl OutOfFuel \<and> length (amf_rd (snd (m s))) \<le> length (amf_rd s)) \<Longrightarrow>
   safeA n m"
  by (simp add: safeA_def)

lemma safeD:
  "safeA n m \<Longrightarrow> length (amf_rd s) \<le> n \<Longrightarrow> m s = (r, s') \<Longrightarrow> r \<noteq> Inl OutOfFuel \<and> length (amf_rd s') \<le> length (amf_rd s)"
  by (force simp: safeA_def)

lemma safe_ret [safe_intros]: "safeA n (retA x)"
  by (simp add: safeA_def)

lemma safe_fail [safe_intros]: "e \<noteq> OutOfFuel \<Longrightarrow> safeA n (failA e)"
  by (simp add: safeA_def)

lemma safe_bind [safe_intros]:
  assumes "safeA n m" and "\<And>x. safeA n (f x)"
  shows "safeA n (bindA m f)"
proof (rule safeI)
  fix s :: Decoder assume n: "length (amf_rd s) \<le> n"
  obtain r s' where m: "m s = (r, s')" by force
  from safeD [OF assms(1) n m] have r: "r \<noteq> Inl OutOfFuel" "length (amf_rd s') \<le> length (amf_rd s)" by auto
  show "fst (bindA m f s) \<noteq> Inl OutOfFuel \<and> length (amf_rd (snd (bindA m f s))) \<le> length (amf_rd s)"
  proof (cases r)
    case (Inr x)
    with m r n assms(2) [of x] show ?thesis by (auto simp: bindA_def safeA_def intro: le_trans)
  qed (use m r in \<open>auto simp: bindA_def\<close>)
qed

lemma safe_wrap [safe_intros]: "safeA n m \<Longrightarrow> safeA n (wrapA msg m)"
  by (auto simp: safeA_def wrapA_def split: prod.splits)

lemma safe_if [safe_intros]: "(b \<Longrightarrow> safeA n m) \<Longrightarrow> (\<not> b \<Longrightarrow> safeA n m') \<Longrightarrow> safeA n (if b then m else m')"
  by simp

lemma safe_prod [safe_intros]: "(\<And>a b. safeA n (f a b)) \<Longrightarrow> safeA n (case p of (a, b) \<Rightarrow> f a b)"
  by (cases p) simp

lemma safe_refs [safe_intros]:
  "safeA n (lookupA refs i)" "safeA n (addStringRef x)" "safeA n (addObjectRef v)" "safeA n (addTraitRef t)"
  by (auto simp: safeA_def lookupA_def addStringRef_def addObjectRef_def addTraitRef_def index_at_def)

lemma safe_reader_Read [safe_intros]: "safeA n (reader_Read k)"
  by (auto simp: safeA_def reader_Read_def Let_def)

lemma safe_binary_Read [safe_intros]: "safeA n (binary_Read k)"
  by (auto simp: safeA_def binary_Read_def)

lemma safe_ReadBytes [safe_intros]: "safeA n (ReadBytes k)"
  unfolding ReadBytes_def by (intro safe_intros) simp

lemma safe_ReadByte [safe_intros]: "safeA n ReadByte"
  unfolding ReadByte_def by (intro safe_intros) (auto simp: safeA_def index_at_def)

lemma safe_AssertMarker [safe_intros]: "safeA n (AssertMarker c m)"
  unfolding AssertMarker_def ReadMarker_def by (intro safe_intros) simp_all

lemma ReadByte_Cons: "amf_rd s = b # bs \<Longrightarrow> ReadByte s = (Inr b, s\<lparr>amf_rd := bs\<rparr>)"
  by (simp add: ReadByte_def ReadBytes_def reader_Read_def bindA_def index_at_def Let_def)

lemma ReadByte_Nil: "amf_rd s = [] \<Longrightarrow> ReadByte s = (Inl (Err EOF), s)"
  by (simp add: ReadByte_def ReadBytes_def reader_Read_def bindA_def)

text \<open>A routine that eats: when it succeeds there is less input.\<close>

definition eats :: "'a amf \<Rightarrow> bool" where
  "eats m \<longleftrightarrow> (\<forall>s x s'. m s = (Inr x, s') \<longrightarrow> length (amf_rd s') < length (amf_rd s))"

lemma safe_mono: "safeA n m \<Longrightarrow> n' \<le> n \<Longrightarrow> safeA n' m"
  by (auto simp: safeA_def)

lemma safe_bind_eats:
  assumes "safeA n m" and "eats m" and "\<And>x n'. n' < n \<Longrightarrow> safeA n' (f x)"
  shows "safeA n (bindA m f)"
proof (rule safeI)
  fix s :: Decoder assume n: "length (amf_rd s) \<le> n"
  obtain r s' where m: "m s = (r, s')" by force
  from safeD [OF assms(1) n m] have r: "r \<noteq> Inl OutOfFuel" "length (amf_rd s') \<le> length (amf_rd s)" by auto
  show "fst (bindA m f s) \<noteq> Inl OutOfFuel \<and> length (amf_rd (snd (bindA m f s))) \<le> length (amf_rd s)"
  proof (cases r)
    case (Inr x)
    with m assms(2) n have "length (amf_rd s') < n" unfolding eats_def by fastforce
    with m r Inr assms(3) [of "length (amf_rd s')" x] show ?thesis
      by (auto simp: bindA_def safeA_def intro: le_trans)
  qed (use m r in \<open>auto simp: bindA_def\<close>)
qed

lemma eats_first:
  assumes "eats m" and "\<And>x n. safeA n (f x)"
  shows "eats (bindA m f)"
proof -
  have "length (amf_rd s') < length (amf_rd s)" if b: "bindA m f s = (Inr x, s')" for s x s'
  proof -
    obtain y s1 where y: "m s = (Inr y, s1)" "f y s1 = (Inr x, s')"
      using b by (auto simp: bindA_def split: prod.splits sum.splits)
    have "length (amf_rd s1) < length (amf_rd s)" using assms(1) y(1) by (auto simp: eats_def)
    with safeD [OF assms(2) le_refl y(2)] show ?thesis by simp
  qed
  then show ?thesis by (simp add: eats_def)
qed

lemma eats_wrap: "eats m \<Longrightarrow> eats (wrapA msg m)"
  by (auto simp: eats_def wrapA_def split: prod.splits)

lemma eats_ReadByte: "eats ReadByte"
proof -
  have "length (amf_rd s') < length (amf_rd s)" if "ReadByte s = (Inr x, s')" for s x s'
    using that by (cases "amf_rd s") (auto simp: ReadByte_Nil ReadByte_Cons)
  then show ?thesis by (simp add: eats_def)
qed

lemma eats_after_byte:
  assumes "bindA ReadByte f s = (Inr x, s')" and "\<And>b. 0 < length (amf_rd s) \<Longrightarrow> safeA (length (amf_rd s) - 1) (f b)"
  shows "length (amf_rd s') < length (amf_rd s)"
proof (cases "amf_rd s")
  case (Cons b r)
  then have "f b (s\<lparr>amf_rd := r\<rparr>) = (Inr x, s')" using assms(1) by (simp add: bindA_def ReadByte_Cons)
  from safeD [OF assms(2) _ this] Cons show ?thesis by simp
qed (use assms in \<open>simp add: bindA_def ReadByte_Nil\<close>)

lemma bindA_retA [simp]: "bindA (retA x) f = f x"
  by (simp add: bindA_def retA_def)

end
