(* ===== verification/Amf3Decoder.thy ===== *)
theory Amf3Decoder
  imports Amf
begin

text \<open>
  \<^verbatim>\<open>src/protocol/amf/decoder_amf3.go\<close> and \<^verbatim>\<open>decoder_amf3_external.go\<close>: the AMF3 decoder
  with its reference tables. Nested values are decoded with a bounded depth: \<open>decAmf3 k\<close>
  decodes values nested less than \<open>k\<close> deep. Every level of nesting costs a byte of input, so
  a depth above the length of the input is never exhausted (\<open>DecodeAmf3_safe\<close>).
\<close>

unbundle bit_operations_syntax

abbreviation AMF3UndefinedMarker :: byte where "AMF3UndefinedMarker \<equiv> 0x00"
abbreviation AMF3NullMarker :: byte where "AMF3NullMarker \<equiv> 0x01"
abbreviation AMF3FalseMarker :: byte where "AMF3FalseMarker \<equiv> 0x02"
abbreviation AMF3TrueMarker :: byte where "AMF3TrueMarker \<equiv> 0x03"
abbreviation AMF3IntegerMarker :: byte where "AMF3IntegerMarker \<equiv> 0x04"
abbreviation AMF3DoubleMarker :: byte where "AMF3DoubleMarker \<equiv> 0x05"
abbreviation AMF3StringMarker :: byte where "AMF3StringMarker \<equiv> 0x06"
abbreviation AMF3XMLDocumentMarker :: byte where "AMF3XMLDocumentMarker \<equiv> 0x07"
abbreviation AMF3DateMarker :: byte where "AMF3DateMarker \<equiv> 0x08"
abbreviation AMF3ArrayMarker :: byte where "AMF3ArrayMarker \<equiv> 0x09"
abbreviation AMF3ObjectMarker :: byte where "AMF3ObjectMarker \<equiv> 0x0a"
abbreviation AMF3XMLStringMarker :: byte where "AMF3XMLStringMarker \<equiv> 0x0b"
abbreviation AMF3BytearrayMarker :: byte where "AMF3BytearrayMarker \<equiv> 0x0c"

section \<open>Integers and references\<close>

text \<open>The loop of \<^verbatim>\<open>decodeU29\<close> with \<open>i\<close> rounds left, then the fourth byte.\<close>

fun decodeU29_loop :: "nat \<Rightarrow> u32 \<Rightarrow> u32 amf" where
  "decodeU29_loop 0 result =
     bindA ReadByte (\<lambda>b. retA (push_bit 8 result + ucast b))"
| "decodeU29_loop (Suc i) result =
     bindA ReadByte (\<lambda>b.
       let result = push_bit 7 result + ucast (b AND 0x7f)
       in if b AND 0x80 = 0 then retA result else decodeU29_loop i result)"

definition decodeU29 :: "u32 amf" where
  "decodeU29 = decodeU29_loop 3 0"

definition decodeReferenceInt :: "(bool \<times> u32) amf" where
  "decodeReferenceInt =
     bindA (wrapA ''amf3 decode: unable to decode reference int: '' decodeU29) (\<lambda>u29.
       retA (u29 AND 1 = 0, drop_bit 1 u29))"

section \<open>Values without nesting\<close>

definition DecodeAmf3Undefined :: "bool \<Rightarrow> amfval amf" where
  "DecodeAmf3Undefined m = bindA (AssertMarker m AMF3UndefinedMarker) (\<lambda>_. retA ANil)"

definition DecodeAmf3Null :: "bool \<Rightarrow> amfval amf" where
  "DecodeAmf3Null m = bindA (AssertMarker m AMF3NullMarker) (\<lambda>_. retA ANil)"

definition DecodeAmf3False :: "bool \<Rightarrow> amfval amf" where
  "DecodeAmf3False m = bindA (AssertMarker m AMF3FalseMarker) (\<lambda>_. retA (ABool False))"

definition DecodeAmf3True :: "bool \<Rightarrow> amfval amf" where
  "DecodeAmf3True m = bindA (AssertMarker m AMF3TrueMarker) (\<lambda>_. retA (ABool True))"

definition DecodeAmf3Integer :: "bool \<Rightarrow> amfval amf" where
  "DecodeAmf3Integer m =
     bindA (AssertMarker m AMF3IntegerMarker) (\<lambda>_.
     bindA decodeU29 (\<lambda>u29.
       retA (AInt (if sint u29 > 0xfffffff then sint (u29 - 0x20000000) else sint u29))))"

definition DecodeAmf3Double :: "bool \<Rightarrow> amfval amf" where
  "DecodeAmf3Double m =
     bindA (AssertMarker m AMF3DoubleMarker) (\<lambda>_.
     bindA (wrapA ''amf3 decode: unable to read double: '' (binary_Read 8)) (\<lambda>v. retA (ANumber v)))"

text \<open>\<^verbatim>\<open>r.Read(buf)\<close> with the count discarded: a short read leaves zeros at the end.\<close>

definition readBuf :: "nat \<Rightarrow> bytes amf" where
  "readBuf n = bindA (reader_Read n) (\<lambda>(_, buf). retA buf)"

definition DecodeAmf3String :: "bool \<Rightarrow> bytes amf" where
  "DecodeAmf3String m =
     bindA (AssertMarker m AMF3StringMarker) (\<lambda>_.
     bindA (wrapA ''amf3 decode: unable to decode string reference and length: '' decodeReferenceInt) (\<lambda>(isRef, refVal).
       if isRef then lookupA stringRefs refVal
       else bindA (wrapA ''amf3 decode: unable to read string: '' (readBuf (unat refVal))) (\<lambda>result.
              if result \<noteq> [] then bindA (addStringRef result) (\<lambda>_. retA result) else retA result)))"

definition DecodeAmf3Date :: "bool \<Rightarrow> amfval amf" where
  "DecodeAmf3Date m =
     bindA (AssertMarker m AMF3DateMarker) (\<lambda>_.
     bindA (wrapA ''amf3 decode: unable to decode date reference and length: '' decodeReferenceInt) (\<lambda>(isRef, refVal).
       if isRef
       then bindA (lookupA objectRefs refVal) (\<lambda>v. case v of
              ATime t \<Rightarrow> retA (ATime t)
            | _ \<Rightarrow> failA (Err (Errorf ''amf3 decode: unable to extract time from date object references'')))
       else bindA (wrapA ''amf3 decode: unable to read double: '' (binary_Read 8)) (\<lambda>t.
            bindA (addObjectRef (ATime (unix_of_millis t))) (\<lambda>_. retA (ATime (unix_of_millis t))))))"

definition DecodeAmf3Xml :: "bool \<Rightarrow> amfval amf" where
  "DecodeAmf3Xml m =
     bindA (if m then bindA ReadMarker (\<lambda>marker.
              if marker \<noteq> AMF3XMLDocumentMarker \<and> marker \<noteq> AMF3XMLStringMarker
              then failA (Err (Errorf ''decode assert marker failed: expected'')) else retA ())
            else retA ()) (\<lambda>_.
     bindA (wrapA ''amf3 decode: unable to decode xml reference and length: '' decodeReferenceInt) (\<lambda>(isRef, refVal).
       if isRef
       then bindA (lookupA objectRefs refVal) (\<lambda>v. case v of
              AString x \<Rightarrow> retA (AString x)
            | _ \<Rightarrow> failA (Err (Errorf ''amf3 decode: cannot coerce object reference into xml string'')))
       else bindA (wrapA ''amf3 decode: unable to read xml string: '' (readBuf (unat refVal))) (\<lambda>result.
            if result \<noteq> [] then bindA (addObjectRef (AString result)) (\<lambda>_. retA (AString result))
            else retA (AString result))))"

definition DecodeAmf3ByteArray :: "bool \<Rightarrow> amfval amf" where
  "DecodeAmf3ByteArray m =
     bindA (AssertMarker m AMF3BytearrayMarker) (\<lambda>_.
     bindA (wrapA ''amf3 decode: unable to decode byte array reference and length: '' decodeReferenceInt) (\<lambda>(isRef, refVal).
       if isRef
       then bindA (lookupA objectRefs refVal) (\<lambda>v. case v of
              ABytes b \<Rightarrow> retA (ABytes b)
            | _ \<Rightarrow> failA (Err (Errorf ''amf3 decode: unable to convert object ref to bytes'')))
       else bindA (wrapA ''amf3 decode: unable to read bytearray: '' (readBuf (unat refVal))) (\<lambda>result.
            bindA (addObjectRef (ABytes result)) (\<lambda>_. retA (ABytes result)))))"

section \<open>Nested values\<close>

text \<open>
  The loops take the decoder of the nested values as their argument \<open>dv\<close>. First \<open>n\<close> values
  in a row, and values for a list of property names.
\<close>

fun decodeValues3 :: "amfval amf \<Rightarrow> nat \<Rightarrow> amfval list \<Rightarrow> amfval list amf" where
  "decodeValues3 dv 0 acc = retA acc"
| "decodeValues3 dv (Suc n) acc =
     bindA (wrapA ''amf3 decode: array element could not be decoded: '' dv) (\<lambda>v.
       decodeValues3 dv n (acc @ [v]))"

definition DecodeAmf3Array :: "amfval amf \<Rightarrow> bool \<Rightarrow> amfval amf" where
  "DecodeAmf3Array dv m =
     bindA (AssertMarker m AMF3ArrayMarker) (\<lambda>_.
     bindA (wrapA ''amf3 decode: unable to decode array reference and length: '' decodeReferenceInt) (\<lambda>(isRef, refVal).
       if isRef
       then bindA (lookupA objectRefs (drop_bit 1 refVal)) (\<lambda>v. case v of
              AArray xs \<Rightarrow> retA (AArray xs)
            | _ \<Rightarrow> failA (Err (Errorf ''amf3 decode: unable to extract array from object references'')))
       else bindA (wrapA ''amf3 decode: unable to read key for array: '' (DecodeAmf3String False)) (\<lambda>key.
            if key \<noteq> []
            then failA (Err (Errorf ''amf3 decode: array key is not empty, can't handle associative array''))
            else bindA (decodeValues3 dv (unat refVal) []) (\<lambda>xs.
                 bindA (addObjectRef (AArray xs)) (\<lambda>_. retA (AArray xs))))))"

fun decodeProps :: "amfval amf \<Rightarrow> bytes list \<Rightarrow> (bytes \<times> amfval) list \<Rightarrow> (bytes \<times> amfval) list amf" where
  "decodeProps dv [] obj = retA obj"
| "decodeProps dv (key # keys) obj =
     bindA (wrapA ''amf3 decode: unable to decode object property: '' dv) (\<lambda>v.
       decodeProps dv keys (AList.update key v obj))"

text \<open>The dynamic members (lines 364 to 380), with a bound on the number of rounds.\<close>

fun decodeDynamic :: "nat \<Rightarrow> amfval amf \<Rightarrow> (bytes \<times> amfval) list \<Rightarrow> (bytes \<times> amfval) list amf" where
  "decodeDynamic 0 dv obj = failA OutOfFuel"
| "decodeDynamic (Suc k) dv obj =
     bindA (wrapA ''amf3 decode: unable to decode dynamic key: '' (DecodeAmf3String False)) (\<lambda>key.
       if key = [] then retA obj
       else bindA (wrapA ''amf3 decode: unable to decode dynamic value: '' dv) (\<lambda>v.
            decodeDynamic k dv (AList.update key v obj)))"

fun decodeTraitProps :: "nat \<Rightarrow> bytes list \<Rightarrow> bytes list amf" where
  "decodeTraitProps 0 acc = retA acc"
| "decodeTraitProps (Suc n) acc =
     bindA (wrapA ''amf3 decode: unable to read trait property for object: '' (DecodeAmf3String False)) (\<lambda>p.
       decodeTraitProps n (acc @ [p]))"

definition decodeTrait :: "u32 \<Rightarrow> Trait amf" where
  "decodeTrait refVal =
     (if refVal AND 1 = 0 then lookupA traitRefs (drop_bit 1 refVal)
      else bindA (wrapA ''amf3 decode: unable to read trait type for object: '' (DecodeAmf3String False)) (\<lambda>cls.
           bindA (decodeTraitProps (unat (drop_bit 3 refVal)) []) (\<lambda>props.
             let trait = NewTrait\<lparr>Externalizable := refVal AND 2 \<noteq> 0, Dynamic := refVal AND 4 \<noteq> 0,
                           trait_Type := cls, Properties := props\<rparr>
             in bindA (addTraitRef trait) (\<lambda>_. retA trait))))"

section \<open>decoder\_amf3\_external.go\<close>

fun readFlags_loop :: "bytes \<Rightarrow> byte list \<Rightarrow> byte list res \<times> bytes" where
  "readFlags_loop [] acc = (Inl (Err (Errorf ''unable to read flags: '')), [])"
| "readFlags_loop (flag # r) acc =
     (if flag AND 0x80 = 0 then (Inr (acc @ [flag]), r) else readFlags_loop r (acc @ [flag]))"

definition readFlags :: "byte list amf" where
  "readFlags = (\<lambda>s. case readFlags_loop (amf_rd s) [] of (r, rest) \<Rightarrow> (r, s\<lparr>amf_rd := rest\<rparr>))"

text \<open>The named fields of one flag byte, then the reserved bits \<open>j\<close> below 6.\<close>

fun decodeFields :: "amfval amf \<Rightarrow> byte \<Rightarrow> nat \<Rightarrow> bytes list \<Rightarrow> (bytes \<times> amfval) list \<Rightarrow> (bytes \<times> amfval) list amf" where
  "decodeFields dv flags p [] obj = retA obj"
| "decodeFields dv flags p (nm # nms) obj =
     (if flags AND push_bit p 1 \<noteq> 0
      then bindA (wrapA ''unable to decode external field'' dv) (\<lambda>v.
             decodeFields dv flags (Suc p) nms (AList.update nm v obj))
      else decodeFields dv flags (Suc p) nms obj)"

fun decodeExtras :: "amfval amf \<Rightarrow> byte \<Rightarrow> nat \<Rightarrow> nat list \<Rightarrow> (bytes \<times> amfval) list \<Rightarrow> (bytes \<times> amfval) list amf" where
  "decodeExtras dv flags i [] obj = retA obj"
| "decodeExtras dv flags i (j # js) obj =
     (if drop_bit j flags AND 1 \<noteq> 0
      then bindA (wrapA ''unable to decode post-external field'' dv) (\<lambda>v.
             decodeExtras dv flags i js
               (AList.update (gostr ''extra_'' @ decimal i @ gostr ''_'' @ decimal j) v obj))
      else decodeExtras dv flags i js obj)"

fun decodeFlagSet :: "amfval amf \<Rightarrow> nat \<Rightarrow> byte list \<Rightarrow> bytes list list \<Rightarrow> (bytes \<times> amfval) list \<Rightarrow> (bytes \<times> amfval) list amf" where
  "decodeFlagSet dv i [] fieldSets obj = retA obj"
| "decodeFlagSet dv i (flags # flagSet) fieldSets obj =
     (let fieldNames = (case fieldSets of [] \<Rightarrow> [] | f # _ \<Rightarrow> f);
          reserved = length fieldNames
      in bindA (decodeFields dv flags 0 fieldNames obj) (\<lambda>obj.
         bindA (if drop_bit reserved flags \<noteq> 0 then decodeExtras dv flags i [reserved..<6] obj else retA obj) (\<lambda>obj.
           decodeFlagSet dv (Suc i) flagSet (tl fieldSets) obj)))"

definition decodeExternal :: "amfval amf \<Rightarrow> (bytes \<times> amfval) list \<Rightarrow> bytes list list \<Rightarrow> (bytes \<times> amfval) list amf" where
  "decodeExternal dv obj fieldSets =
     bindA (wrapA ''unable to read flags: '' readFlags) (\<lambda>flagSet. decodeFlagSet dv 0 flagSet fieldSets obj)"

definition decodeAbstractMessage :: "amfval amf \<Rightarrow> (bytes \<times> amfval) list amf" where
  "decodeAbstractMessage dv =
     wrapA ''unable to decode abstract external: '' (decodeExternal dv []
       [map gostr [''body'', ''clientId'', ''destination'', ''headers'', ''messageId'', ''timeStamp'', ''timeToLive''],
        map gostr [''clientIdBytes'', ''messageIdBytes'']])"

definition decodeAsyncMessage :: "amfval amf \<Rightarrow> (bytes \<times> amfval) list amf" where
  "decodeAsyncMessage dv =
     bindA (wrapA ''unable to decode abstract for async: '' (decodeAbstractMessage dv)) (\<lambda>obj.
       wrapA ''unable to decode async external: ''
         (decodeExternal dv obj [map gostr [''correlationId'', ''correlationIdBytes'']]))"

definition decodeAsyncMessageExt :: "amfval amf \<Rightarrow> (bytes \<times> amfval) list amf" where
  "decodeAsyncMessageExt dv = decodeAsyncMessage dv"

definition decodeAcknowledgeMessage :: "amfval amf \<Rightarrow> (bytes \<times> amfval) list amf" where
  "decodeAcknowledgeMessage dv =
     bindA (wrapA ''unable to decode async for ack: '' (decodeAsyncMessage dv)) (\<lambda>obj.
       wrapA ''unable to decode ack external: '' (decodeExternal dv obj []))"

definition decodeAcknowledgeMessageExt :: "amfval amf \<Rightarrow> (bytes \<times> amfval) list amf" where
  "decodeAcknowledgeMessageExt dv = decodeAcknowledgeMessage dv"

definition decodeArrayCollection :: "amfval amf \<Rightarrow> amfval amf" where
  "decodeArrayCollection dv = wrapA ''cannot decode child of array collection: '' dv"

section \<open>Objects and the router\<close>

definition decodeExternalizable :: "amfval amf \<Rightarrow> bytes \<Rightarrow> amfval amf" where
  "decodeExternalizable dv cls =
     (if cls = gostr ''DSA''
      then bindA (wrapA ''amf3 decode: unable to decode dsa: '' (decodeAsyncMessageExt dv)) (\<lambda>o1. retA (AObject o1))
      else if cls = gostr ''DSK''
      then bindA (wrapA ''amf3 decode: unable to decode dsk: '' (decodeAcknowledgeMessageExt dv)) (\<lambda>o1. retA (AObject o1))
      else if cls = gostr ''flex.messaging.io.ArrayCollection''
      then bindA (wrapA ''amf3 decode: unable to decode ac: '' (decodeArrayCollection dv)) (\<lambda>v.
           bindA (addObjectRef v) (\<lambda>_. retA v))
      else failA (Err (Errorf ''amf3 decode: unable to decode external type'')))"

definition DecodeAmf3Object :: "amfval amf \<Rightarrow> bool \<Rightarrow> amfval amf" where
  "DecodeAmf3Object dv m =
     bindA (AssertMarker m AMF3ObjectMarker) (\<lambda>_.
     bindA (wrapA ''amf3 decode: unable to decode object reference and length: '' decodeReferenceInt) (\<lambda>(isRef, refVal).
       if isRef then lookupA objectRefs (drop_bit 1 refVal)
       else bindA (decodeTrait refVal) (\<lambda>trait.
            bindA (addObjectRef ANil) (\<lambda>_.
              if Externalizable trait then decodeExternalizable dv (trait_Type trait)
              else bindA (decodeProps dv (Properties trait) []) (\<lambda>obj.
                   bindA (if Dynamic trait
                          then (\<lambda>s. decodeDynamic (Suc (length (amf_rd s))) dv obj s)
                          else retA obj) (\<lambda>obj. retA (AObject obj)))))))"

text \<open>The switch of \<^verbatim>\<open>DecodeAmf3\<close> on the marker.\<close>

definition decMarked3 :: "amfval amf \<Rightarrow> byte \<Rightarrow> amfval amf" where
  "decMarked3 dv marker =
      (if marker = AMF3UndefinedMarker then DecodeAmf3Undefined False
       else if marker = AMF3NullMarker then DecodeAmf3Null False
       else if marker = AMF3FalseMarker then DecodeAmf3False False
       else if marker = AMF3TrueMarker then DecodeAmf3True False
       else if marker = AMF3IntegerMarker then DecodeAmf3Integer False
       else if marker = AMF3DoubleMarker then DecodeAmf3Double False
       else if marker = AMF3StringMarker then bindA (DecodeAmf3String False) (\<lambda>x. retA (AString x))
       else if marker = AMF3XMLDocumentMarker then DecodeAmf3Xml False
       else if marker = AMF3DateMarker then DecodeAmf3Date False
       else if marker = AMF3ArrayMarker then DecodeAmf3Array dv False
       else if marker = AMF3ObjectMarker then DecodeAmf3Object dv False
       else if marker = AMF3XMLStringMarker then DecodeAmf3Xml False
       else if marker = AMF3BytearrayMarker then DecodeAmf3ByteArray False
       else failA (Err (Errorf ''decode amf3: unsupported type'')))"

primrec decAmf3 :: "nat \<Rightarrow> amfval amf" where
  "decAmf3 0 = failA OutOfFuel"
| "decAmf3 (Suc k) = bindA ReadMarker (decMarked3 (decAmf3 k))"

definition DecodeAmf3 :: "amfval amf" where
  "DecodeAmf3 = (\<lambda>s. decAmf3 (Suc (length (amf_rd s))) s)"


section \<open>Nesting never exhausts the depth\<close>

lemma safe_U29_loop [safe_intros]: "safeA n (decodeU29_loop i r)"
proof (induction i arbitrary: r)
  case (Suc i)
  then show ?case by (auto simp: Let_def intro!: safe_intros)
qed (auto intro!: safe_intros)

lemma eats_U29: "eats decodeU29"
  unfolding decodeU29_def numeral_3_eq_3
  by (auto simp: Let_def simp del: decodeU29_loop.simps(1) intro!: eats_first eats_ReadByte safe_intros)

lemma safe_ReferenceInt [safe_intros]: "safeA n decodeReferenceInt"
  unfolding decodeReferenceInt_def decodeU29_def by (intro safe_intros)

lemma eats_ReferenceInt: "eats decodeReferenceInt"
  unfolding decodeReferenceInt_def by (intro eats_first eats_wrap eats_U29 safe_intros)

lemma safe_readBuf [safe_intros]: "safeA n (readBuf k)"
  unfolding readBuf_def by (intro safe_intros)

lemma safe_String3 [safe_intros]: "safeA n (DecodeAmf3String m)"
  unfolding DecodeAmf3String_def by (intro safe_intros)

lemma eats_String3: "eats (DecodeAmf3String False)"
  unfolding DecodeAmf3String_def AssertMarker_def
  by (simp, intro eats_first eats_wrap eats_ReferenceInt safe_intros)

lemma safe_amfval_case [safe_intros]:
  "(\<And>t. safeA n (f t)) \<Longrightarrow> safeA n g \<Longrightarrow> safeA n (case v of ATime t \<Rightarrow> f t | _ \<Rightarrow> g)"
  "(\<And>x. safeA n (f2 x)) \<Longrightarrow> safeA n g \<Longrightarrow> safeA n (case v of AString x \<Rightarrow> f2 x | _ \<Rightarrow> g)"
  "(\<And>x. safeA n (f2 x)) \<Longrightarrow> safeA n g \<Longrightarrow> safeA n (case v of ABytes x \<Rightarrow> f2 x | _ \<Rightarrow> g)"
  "(\<And>x. safeA n (f3 x)) \<Longrightarrow> safeA n g \<Longrightarrow> safeA n (case v of AArray x \<Rightarrow> f3 x | _ \<Rightarrow> g)"
  by (auto split: amfval.splits)

lemma safe_scalars3 [safe_intros]:
  "safeA n (DecodeAmf3Undefined m)" "safeA n (DecodeAmf3Null m)" "safeA n (DecodeAmf3False m)"
  "safeA n (DecodeAmf3True m)" "safeA n (DecodeAmf3Integer m)" "safeA n (DecodeAmf3Double m)"
  "safeA n (DecodeAmf3Date m)" "safeA n (DecodeAmf3Xml m)" "safeA n (DecodeAmf3ByteArray m)"
  unfolding DecodeAmf3Undefined_def DecodeAmf3Null_def DecodeAmf3False_def DecodeAmf3True_def
    DecodeAmf3Integer_def DecodeAmf3Double_def DecodeAmf3Date_def DecodeAmf3Xml_def
    DecodeAmf3ByteArray_def ReadMarker_def decodeU29_def
  by (auto intro!: safe_intros)

lemma safe_Values3 [safe_intros]: "safeA n dv \<Longrightarrow> safeA n (decodeValues3 dv k acc)"
  by (induction k arbitrary: acc) (auto intro!: safe_intros)

lemma safe_Array3 [safe_intros]: "safeA n dv \<Longrightarrow> safeA n (DecodeAmf3Array dv m)"
  unfolding DecodeAmf3Array_def by (auto intro!: safe_intros)

lemma safe_Props [safe_intros]: "safeA n dv \<Longrightarrow> safeA n (decodeProps dv ks obj)"
  by (induction ks arbitrary: obj) (auto intro!: safe_intros)

lemma safe_Dynamic: "n < k \<Longrightarrow> safeA n dv \<Longrightarrow> safeA n (decodeDynamic k dv obj)"
proof (induction k arbitrary: n obj)
  case (Suc k)
  show ?case
    using Suc.prems unfolding decodeDynamic.simps
    by (intro safe_bind_eats safe_intros eats_wrap eats_String3) (auto intro!: safe_intros Suc.IH intro: safe_mono)
qed simp

lemma safe_Dynamic_start [safe_intros]:
  assumes "safeA n dv"
  shows "safeA n (\<lambda>s. decodeDynamic (Suc (length (amf_rd s))) dv obj s)"
proof (rule safeI)
  fix s :: Decoder assume "length (amf_rd s) \<le> n"
  then have "safeA (length (amf_rd s)) (decodeDynamic (Suc (length (amf_rd s))) dv obj)"
    using assms by (intro safe_Dynamic) (auto intro: safe_mono)
  then show "fst (decodeDynamic (Suc (length (amf_rd s))) dv obj s) \<noteq> Inl OutOfFuel \<and>
      length (amf_rd (snd (decodeDynamic (Suc (length (amf_rd s))) dv obj s))) \<le> length (amf_rd s)"
    unfolding safeA_def by blast
qed

lemma safe_TraitProps [safe_intros]: "safeA n (decodeTraitProps k acc)"
  by (induction k arbitrary: acc) (auto intro!: safe_intros)

lemma safe_Trait [safe_intros]: "safeA n (decodeTrait r)"
  unfolding decodeTrait_def Let_def by (intro safe_intros)

lemma readFlags_loop_length: "readFlags_loop r acc = (x, r') \<Longrightarrow> length r' \<le> length r \<and> x \<noteq> Inl OutOfFuel"
  by (induction r acc rule: readFlags_loop.induct) (auto split: if_splits)

lemma safe_readFlags [safe_intros]: "safeA n readFlags"
  by (auto simp: safeA_def readFlags_def split: prod.splits dest: readFlags_loop_length)

lemma safe_Fields [safe_intros]: "safeA n dv \<Longrightarrow> safeA n (decodeFields dv flags p ns obj)"
  by (induction ns arbitrary: p obj) (auto intro!: safe_intros)

lemma safe_Extras [safe_intros]: "safeA n dv \<Longrightarrow> safeA n (decodeExtras dv flags i js obj)"
  by (induction js arbitrary: obj) (auto intro!: safe_intros)

lemma safe_FlagSet [safe_intros]: "safeA n dv \<Longrightarrow> safeA n (decodeFlagSet dv i fs sets obj)"
  by (induction fs arbitrary: i sets obj) (auto simp: Let_def intro!: safe_intros)

lemma safe_External [safe_intros]: "safeA n dv \<Longrightarrow> safeA n (decodeExternal dv obj sets)"
  unfolding decodeExternal_def by (intro safe_intros)

lemma safe_Externalizable [safe_intros]: "safeA n dv \<Longrightarrow> safeA n (decodeExternalizable dv cls)"
  unfolding decodeExternalizable_def decodeAsyncMessageExt_def decodeAcknowledgeMessageExt_def
    decodeAcknowledgeMessage_def decodeAsyncMessage_def decodeAbstractMessage_def decodeArrayCollection_def
  by (intro safe_intros) simp_all

lemma safe_Object3 [safe_intros]: "safeA n dv \<Longrightarrow> safeA n (DecodeAmf3Object dv m)"
  unfolding DecodeAmf3Object_def by (intro safe_intros)

lemma safe_Marked3: "safeA n dv \<Longrightarrow> safeA n (decMarked3 dv b)"
  unfolding decMarked3_def by (auto intro!: safe_intros)

lemma safe_decAmf3: "n < k \<Longrightarrow> safeA n (decAmf3 k)"
proof (induction k arbitrary: n)
  case (Suc k)
  then show ?case
    unfolding decAmf3.simps ReadMarker_def
    by (intro safe_bind_eats eats_ReadByte) (auto intro!: safe_intros safe_Marked3)
qed simp

lemma eats_DecodeAmf3: "eats DecodeAmf3"
proof -
  have "length (amf_rd s') < length (amf_rd s)" if "DecodeAmf3 s = (Inr v, s')" for s v s'
    using that safe_Marked3 [OF safe_decAmf3 [of "length (amf_rd s) - 1" "length (amf_rd s)"]]
    by (auto simp: DecodeAmf3_def ReadMarker_def intro: eats_after_byte)
  then show ?thesis by (simp add: eats_def)
qed

lemma DecodeAmf3_safe: "safeA n DecodeAmf3"
proof (rule safeI)
  fix s :: Decoder
  show "fst (DecodeAmf3 s) \<noteq> Inl OutOfFuel \<and> length (amf_rd (snd (DecodeAmf3 s))) \<le> length (amf_rd s)"
    using safe_decAmf3 [of "length (amf_rd s)" "Suc (length (amf_rd s))"] unfolding DecodeAmf3_def safeA_def by blast
qed


section \<open>Properties\<close>

lemma small_byte:
  assumes "unat b < 128"
  shows "b AND 0x80 = (0 :: byte)" and "b AND 0x7f = b"
proof -
  have b: "b = take_bit 7 b" using assms by (simp add: take_bit_self)
  have m: "(0x80 :: byte) = push_bit 7 1" "(0x7f :: byte) = mask 7"
    by (simp_all add: push_bit_eq_mult mask_eq_exp_minus_1)
  have "take_bit i b AND push_bit i 1 = 0" "take_bit i b AND mask i = take_bit i b" for i
    by (auto intro!: bit_word_eqI simp: bit_simps)
  from this [of 7] show "b AND 0x80 = 0" "b AND 0x7f = b" unfolding m using b by simp_all
qed

lemma unat_ucast_byte: "unat (ucast b :: u32) = unat b" for b :: byte
proof -
  have "unat b < 2 ^ LENGTH(8)" by (rule unsigned_less)
  then show ?thesis by (simp add: unsigned_ucast_eq take_bit_nat_eq_self_iff)
qed

lemma unat_half: "unat (drop_bit 1 (ucast b :: u32)) = unat b div 2" for b :: byte
  by (simp add: unat_div unat_ucast_byte drop_bit_eq_div)

lemma decodeU29_one:
  assumes "amf_rd s = b # r" and "unat b < 128"
  shows "decodeU29 s = (Inr (ucast b), s\<lparr>amf_rd := r\<rparr>)"
  using small_byte [OF assms(2)] assms(1)
  by (simp add: decodeU29_def numeral_3_eq_3 bindA_def ReadByte_Cons Let_def)

lemma decodeReferenceInt_one:
  assumes "amf_rd s = b # r" and "unat b < 128"
  shows "decodeReferenceInt s = (Inr (even (unat b), drop_bit 1 (ucast b)), s\<lparr>amf_rd := r\<rparr>)"
proof -
  have "(ucast b AND 1 = (0 :: u32)) \<longleftrightarrow> even (unat b)"
    by (simp add: and_one_eq word_unat_eq_iff unat_mod unat_ucast_byte even_iff_mod_2_eq_zero)
  then show ?thesis
    using decodeU29_one [OF assms] by (simp add: decodeReferenceInt_def bindA_def wrapA_def)
qed

text \<open>
  An AMF3 string reference is not checked against the table: a one-byte reference to an entry
  that does not exist makes the decoder panic, whatever follows it. An AMF0 message can carry
  such a value behind the marker \<open>0x11\<close>.
\<close>

theorem amf3_string_reference_panics:
  assumes "amf_rd s = 0x06 # b # r" and "unat b < 128" and "even (unat b)"
    and "length (stringRefs s) \<le> unat b div 2"
  shows "fst (DecodeAmf3 s) = Inl (Panic IndexOutOfRange)"
proof -
  let ?s = "s\<lparr>amf_rd := b # r\<rparr>"
  have "unat (drop_bit 1 (ucast b :: u32)) = unat b div 2" by (rule unat_half)
  moreover have "decodeReferenceInt ?s = (Inr (True, drop_bit 1 (ucast b)), s\<lparr>amf_rd := r\<rparr>)"
    using decodeReferenceInt_one [of ?s b r] assms(2,3) by simp
  ultimately have "fst (DecodeAmf3String False ?s) = Inl (Panic IndexOutOfRange)"
    using assms(4) by (simp add: DecodeAmf3String_def AssertMarker_def bindA_def wrapA_def lookupA_def index_at_def)
  then show ?thesis
    using assms(1) by (auto simp: DecodeAmf3_def bindA_def decMarked3_def ReadMarker_def ReadByte_Cons split: prod.splits sum.splits)
qed

theorem amf3_string_reference_panics_witness:
  "fst (DecodeAmf3 (NewDecoder [6, 0])) = Inl (Panic IndexOutOfRange)"
  by (rule amf3_string_reference_panics [where b = 0 and r = "[]"]) (simp_all add: NewDecoder_def)

text \<open>
  An AMF3 string that is cut off is not an error: when the announced length exceeds the input
  (which is not empty), the decoder returns the bytes there are, filled up with NUL bytes.
\<close>

theorem amf3_short_string_padded:
  assumes "amf_rd s = 0x06 # b # r" and "unat b < 128" and "odd (unat b)"
    and "r \<noteq> []" and "length r < unat b div 2"
  shows "DecodeAmf3 s = (Inr (AString (r @ replicate (unat b div 2 - length r) 0)),
     s\<lparr>amf_rd := [], stringRefs := stringRefs s @ [r @ replicate (unat b div 2 - length r) 0]\<rparr>)"
proof -
  let ?s = "s\<lparr>amf_rd := b # r\<rparr>"
  have "unat (drop_bit 1 (ucast b :: u32)) = unat b div 2" by (rule unat_half)
  moreover have "decodeReferenceInt ?s = (Inr (False, drop_bit 1 (ucast b)), s\<lparr>amf_rd := r\<rparr>)"
    using decodeReferenceInt_one [of ?s b r] assms(2,3) by simp
  ultimately show ?thesis
    using assms by (simp add: DecodeAmf3_def bindA_def decMarked3_def ReadMarker_def ReadByte_Cons DecodeAmf3String_def
        AssertMarker_def wrapA_def readBuf_def reader_Read_def addStringRef_def Let_def min_def)
qed

lemma replicate_2: "replicate 2 x = [x, x]"
  by (simp add: numeral_2_eq_2)

theorem amf3_short_string_padded_witness:
  "DecodeAmf3 (NewDecoder [6, 7, 65]) =
     (Inr (AString [65, 0, 0]), (NewDecoder [])\<lparr>stringRefs := [[65, 0, 0]]\<rparr>)"
  using amf3_short_string_padded [of "NewDecoder [6, 7, 65]" 7 "[65]"]
  by (simp add: NewDecoder_def replicate_2)

end
