(* ===== verification/Amf0.thy ===== *)
theory Amf0
  imports Amf3Decoder
begin

text \<open>
  \<^verbatim>\<open>src/protocol/amf\<close>: the AMF0 decoder (\<^verbatim>\<open>decoder_amf0.go\<close>) and encoder
  (\<^verbatim>\<open>encoder_amf0.go\<close>), the batch entry points (\<^verbatim>\<open>amf.go\<close>) and the reform of metadata
  messages (\<^verbatim>\<open>metadata.go\<close>).

  As in the AMF3 decoder, \<open>decAmf0 k\<close> decodes values nested less than \<open>k\<close> deep, and a depth
  above the length of the input is never exhausted. All callers encode into a
  \<^verbatim>\<open>bytes.Buffer\<close>, which accepts every write; an encoding routine is the bytes it appends.
\<close>

unbundle bit_operations_syntax

abbreviation AMF0NumberMarker :: byte where "AMF0NumberMarker \<equiv> 0x00"
abbreviation AMF0BooleanMarker :: byte where "AMF0BooleanMarker \<equiv> 0x01"
abbreviation AMF0StringMarker :: byte where "AMF0StringMarker \<equiv> 0x02"
abbreviation AMF0ObjectMarker :: byte where "AMF0ObjectMarker \<equiv> 0x03"
abbreviation AMF0MovieclipMarker :: byte where "AMF0MovieclipMarker \<equiv> 0x04"
abbreviation AMF0NullMarker :: byte where "AMF0NullMarker \<equiv> 0x05"
abbreviation AMF0UndefinedMarker :: byte where "AMF0UndefinedMarker \<equiv> 0x06"
abbreviation AMF0ReferenceMarker :: byte where "AMF0ReferenceMarker \<equiv> 0x07"
abbreviation AMF0EcmaArrayMarker :: byte where "AMF0EcmaArrayMarker \<equiv> 0x08"
abbreviation AMF0ObjectEndMarker :: byte where "AMF0ObjectEndMarker \<equiv> 0x09"
abbreviation AMF0StrictArrayMarker :: byte where "AMF0StrictArrayMarker \<equiv> 0x0a"
abbreviation AMF0DateMarker :: byte where "AMF0DateMarker \<equiv> 0x0b"
abbreviation AMF0LongStringMarker :: byte where "AMF0LongStringMarker \<equiv> 0x0c"
abbreviation AMF0UnsupportedMarker :: byte where "AMF0UnsupportedMarker \<equiv> 0x0d"
abbreviation AMF0RecordsetMarker :: byte where "AMF0RecordsetMarker \<equiv> 0x0e"
abbreviation AMF0XMLDocumentMarker :: byte where "AMF0XMLDocumentMarker \<equiv> 0x0f"
abbreviation AMF0TypedObjectMarker :: byte where "AMF0TypedObjectMarker \<equiv> 0x10"
abbreviation AMF0AcmplusObjectMarker :: byte where "AMF0AcmplusObjectMarker \<equiv> 0x11"
abbreviation AMF0StringMax :: nat where "AMF0StringMax \<equiv> 65535"

section \<open>decoder\_amf0.go\<close>

definition DecodeAmf0Number :: "bool \<Rightarrow> u64 amf" where
  "DecodeAmf0Number m =
     bindA (AssertMarker m AMF0NumberMarker) (\<lambda>_.
       wrapA ''amf0 decode: unable to read number: '' (binary_Read 8))"

definition DecodeAmf0Boolean :: "bool \<Rightarrow> amfval amf" where
  "DecodeAmf0Boolean m =
     bindA (AssertMarker m AMF0BooleanMarker) (\<lambda>_.
     bindA ReadByte (\<lambda>b.
       if b = 0 then retA (ABool False)
       else if b = 1 then retA (ABool True)
       else failA (Err (Errorf ''decode amf0: unexpected value''))))"

definition DecodeAmf0String :: "bool \<Rightarrow> bytes amf" where
  "DecodeAmf0String m =
     bindA (AssertMarker m AMF0StringMarker) (\<lambda>_.
     bindA (wrapA ''decode amf0: unable to decode string length: '' (binary_Read 2)) (\<lambda>len :: u16.
       wrapA ''decode amf0: unable to decode string value: '' (ReadBytes (unat len))))"

text \<open>The loop of \<^verbatim>\<open>DecodeAmf0Object\<close>, with a bound on its rounds.\<close>

fun decodeMembers :: "nat \<Rightarrow> amfval amf \<Rightarrow> (bytes \<times> amfval) list \<Rightarrow> (bytes \<times> amfval) list amf" where
  "decodeMembers 0 dv result = failA OutOfFuel"
| "decodeMembers (Suc k) dv result =
     bindA (DecodeAmf0String False) (\<lambda>key.
       if key = []
       then bindA (wrapA ''decode amf0: expected object end marker: '' (AssertMarker True AMF0ObjectEndMarker)) (\<lambda>_.
              retA result)
       else bindA (wrapA ''decode amf0: unable to decode object value: '' dv) (\<lambda>v.
              decodeMembers k dv (AList.update key v result)))"

definition DecodeAmf0Object :: "amfval amf \<Rightarrow> bool \<Rightarrow> (bytes \<times> amfval) list amf" where
  "DecodeAmf0Object dv m =
     bindA (AssertMarker m AMF0ObjectMarker) (\<lambda>_ s. decodeMembers (Suc (length (amf_rd s))) dv [] s)"

definition DecodeAmf0Null :: "bool \<Rightarrow> amfval amf" where
  "DecodeAmf0Null m = bindA (AssertMarker m AMF0NullMarker) (\<lambda>_. retA ANil)"

definition DecodeAmf0Undefined :: "bool \<Rightarrow> amfval amf" where
  "DecodeAmf0Undefined m = bindA (AssertMarker m AMF0UndefinedMarker) (\<lambda>_. retA ANil)"

text \<open>\<^verbatim>\<open>x, _ := m\<close>: an error of \<open>m\<close> is discarded, its effect on the reader is not.\<close>

definition ignoreA :: "'a amf \<Rightarrow> unit amf" where
  "ignoreA m = (\<lambda>s. case m s of (Inl (Err _), s') \<Rightarrow> (Inr (), s') | (Inl e, s') \<Rightarrow> (Inl e, s') | (Inr _, s') \<Rightarrow> (Inr (), s'))"

definition DecodeAmf0EcmaArray :: "amfval amf \<Rightarrow> bool \<Rightarrow> (bytes \<times> amfval) list amf" where
  "DecodeAmf0EcmaArray dv m =
     bindA (AssertMarker m AMF0EcmaArrayMarker) (\<lambda>_.
     bindA (ignoreA (binary_Read 4 :: u32 amf)) (\<lambda>_.
       wrapA ''decode amf0: unable to decode ecma array object: '' (DecodeAmf0Object dv False)))"

fun decodeValues0 :: "amfval amf \<Rightarrow> nat \<Rightarrow> amfval list \<Rightarrow> amfval list amf" where
  "decodeValues0 dv 0 result = retA result"
| "decodeValues0 dv (Suc n) result =
     bindA (wrapA ''decode amf0: unable to decode strict array object: '' dv) (\<lambda>v.
       decodeValues0 dv n (result @ [v]))"

definition DecodeAmf0StrictArray :: "amfval amf \<Rightarrow> bool \<Rightarrow> amfval amf" where
  "DecodeAmf0StrictArray dv m =
     bindA (AssertMarker m AMF0StrictArrayMarker) (\<lambda>_.
     bindA (wrapA ''decode amf0: unable to decode strict array length: '' (binary_Read 4)) (\<lambda>len :: u32.
     bindA (decodeValues0 dv (unat len) []) (\<lambda>xs. retA (AArray xs))))"

definition DecodeAmf0Date :: "bool \<Rightarrow> amfval amf" where
  "DecodeAmf0Date m =
     bindA (AssertMarker m AMF0DateMarker) (\<lambda>_.
     bindA (wrapA ''decode amf0: unable to decode float in date: '' (DecodeAmf0Number False)) (\<lambda>v.
     bindA (wrapA ''decode amf0: unable to read 2 trail bytes in date: '' (ReadBytes 2)) (\<lambda>_. retA (ANumber v))))"

definition DecodeAmf0LongString :: "bool \<Rightarrow> bytes amf" where
  "DecodeAmf0LongString m =
     bindA (AssertMarker m AMF0LongStringMarker) (\<lambda>_.
     bindA (wrapA ''decode amf0: unable to decode long string length: '' (binary_Read 4)) (\<lambda>len :: u32.
       wrapA ''decode amf0: unable to decode long string value: '' (ReadBytes (unat len))))"

definition DecodeAmf0Unsupported :: "bool \<Rightarrow> amfval amf" where
  "DecodeAmf0Unsupported m = bindA (AssertMarker m AMF0UnsupportedMarker) (\<lambda>_. retA ANil)"

definition DecodeAmf0XmlDocument :: "bool \<Rightarrow> bytes amf" where
  "DecodeAmf0XmlDocument m =
     bindA (AssertMarker m AMF0XMLDocumentMarker) (\<lambda>_. DecodeAmf0LongString False)"

definition DecodeAmf0TypedObject :: "amfval amf \<Rightarrow> bool \<Rightarrow> amfval amf" where
  "DecodeAmf0TypedObject dv m =
     bindA (AssertMarker m AMF0TypedObjectMarker) (\<lambda>_.
     bindA (wrapA ''decode amf0: typed object unable to determine type: '' (DecodeAmf0String False)) (\<lambda>cls.
     bindA (wrapA ''decode amf0: typed object unable to determine object: '' (DecodeAmf0Object dv False)) (\<lambda>obj.
       retA (ATyped cls obj))))"

text \<open>The switch of \<^verbatim>\<open>DecodeAmf0\<close> on the marker.\<close>

definition decMarked0 :: "amfval amf \<Rightarrow> byte \<Rightarrow> amfval amf" where
  "decMarked0 dv marker =
      (if marker = AMF0NumberMarker then bindA (DecodeAmf0Number False) (\<lambda>v. retA (ANumber v))
       else if marker = AMF0BooleanMarker then DecodeAmf0Boolean False
       else if marker = AMF0StringMarker then bindA (DecodeAmf0String False) (\<lambda>x. retA (AString x))
       else if marker = AMF0ObjectMarker then bindA (DecodeAmf0Object dv False) (\<lambda>x. retA (AObject x))
       else if marker = AMF0MovieclipMarker then failA (Err (Errorf ''decode amf0: unsupported type movieclip''))
       else if marker = AMF0NullMarker then DecodeAmf0Null False
       else if marker = AMF0UndefinedMarker then DecodeAmf0Undefined False
       else if marker = AMF0ReferenceMarker then failA (Err (Errorf ''decode amf0: unsupported type reference''))
       else if marker = AMF0EcmaArrayMarker then bindA (DecodeAmf0EcmaArray dv False) (\<lambda>x. retA (AObject x))
       else if marker = AMF0StrictArrayMarker then DecodeAmf0StrictArray dv False
       else if marker = AMF0DateMarker then DecodeAmf0Date False
       else if marker = AMF0LongStringMarker then bindA (DecodeAmf0LongString False) (\<lambda>x. retA (AString x))
       else if marker = AMF0UnsupportedMarker then DecodeAmf0Unsupported False
       else if marker = AMF0RecordsetMarker then failA (Err (Errorf ''decode amf0: unsupported type recordset''))
       else if marker = AMF0XMLDocumentMarker then bindA (DecodeAmf0XmlDocument False) (\<lambda>x. retA (AString x))
       else if marker = AMF0TypedObjectMarker then DecodeAmf0TypedObject dv False
       else if marker = AMF0AcmplusObjectMarker then DecodeAmf3
       else failA (Err (Errorf ''decode amf0: unsupported type'')))"

primrec decAmf0 :: "nat \<Rightarrow> amfval amf" where
  "decAmf0 0 = failA OutOfFuel"
| "decAmf0 (Suc k) = bindA ReadMarker (decMarked0 (decAmf0 k))"

definition DecodeAmf0 :: "amfval amf" where
  "DecodeAmf0 = (\<lambda>s. decAmf0 (Suc (length (amf_rd s))) s)"

section \<open>encoder\_amf0.go\<close>

definition marker_if :: "bool \<Rightarrow> byte \<Rightarrow> bytes" where
  "marker_if encodeMarker m = (if encodeMarker then [m] else [])"

definition EncodeAmf0Number :: "u64 \<Rightarrow> bool \<Rightarrow> bytes" where
  "EncodeAmf0Number v m = marker_if m AMF0NumberMarker @ be_bytes 8 v"

definition EncodeAmf0Boolean :: "bool \<Rightarrow> bool \<Rightarrow> bytes" where
  "EncodeAmf0Boolean v m = marker_if m AMF0BooleanMarker @ [if v then 1 else 0]"

definition EncodeAmf0String :: "bytes \<Rightarrow> bool \<Rightarrow> bytes" where
  "EncodeAmf0String v m = marker_if m AMF0StringMarker @ be_bytes 2 (word_of_nat (length v) :: u16) @ v"

definition EncodeAmf0Null :: "bool \<Rightarrow> bytes" where
  "EncodeAmf0Null m = marker_if m AMF0NullMarker"

definition EncodeAmf0Undefined :: "bool \<Rightarrow> bytes" where
  "EncodeAmf0Undefined m = marker_if m AMF0UndefinedMarker"

definition EncodeAmf0LongString :: "bytes \<Rightarrow> bool \<Rightarrow> bytes" where
  "EncodeAmf0LongString v m = marker_if m AMF0LongStringMarker @ be_bytes 4 (word_of_nat (length v) :: u32) @ v"

definition EncodeAmf0Unsupported :: "bool \<Rightarrow> bytes" where
  "EncodeAmf0Unsupported m = marker_if m AMF0UnsupportedMarker"

definition EncodeAmf0Amf3Marker :: bytes where
  "EncodeAmf0Amf3Marker = [AMF0AcmplusObjectMarker]"

text \<open>
  The router with the loops over the members of an object and the elements of an array. A
  byte slice is an array of integers.
\<close>

fun EncodeAmf0 :: "amfval \<Rightarrow> bytes res"
  and encodeMembers :: "(bytes \<times> amfval) list \<Rightarrow> bytes res"
  and encodeElements :: "amfval list \<Rightarrow> bytes res"
where
  "EncodeAmf0 ANil = Inr (EncodeAmf0Null True)"
| "EncodeAmf0 (AString x) =
     Inr (if length x \<le> AMF0StringMax then EncodeAmf0String x True else EncodeAmf0LongString x True)"
| "EncodeAmf0 (ABool b) = Inr (EncodeAmf0Boolean b True)"
| "EncodeAmf0 (AInt i) = Inr (EncodeAmf0Number (float64_of_int i) True)"
| "EncodeAmf0 (ANumber v) = Inr (EncodeAmf0Number v True)"
| "EncodeAmf0 (AArray xs) =
     bindR (encodeElements xs) (\<lambda>b.
       Inr (marker_if True AMF0StrictArrayMarker @ be_bytes 4 (word_of_nat (length xs) :: u32) @ b))"
| "EncodeAmf0 (ABytes xs) =
     Inr (marker_if True AMF0StrictArrayMarker @ be_bytes 4 (word_of_nat (length xs) :: u32) @
          concat (map (\<lambda>x. EncodeAmf0Number (float64_of_int (uint x)) True) xs))"
| "EncodeAmf0 (AObject kvs) =
     bindR (encodeMembers kvs) (\<lambda>b. Inr (marker_if True AMF0ObjectMarker @ b))"
| "EncodeAmf0 (ATyped c kvs) = Inl (Err (Errorf ''encode amf0: unsupported type typed object''))"
| "EncodeAmf0 (ATime t) = Inl (Err (Errorf ''encode amf0: unsupported type''))"
| "encodeMembers [] = Inr (EncodeAmf0String [] False @ [AMF0ObjectEndMarker])"
| "encodeMembers ((k, v) # kvs) =
     bindR (wrapR ''encode amf0: unable to encode object value: '' (EncodeAmf0 v)) (\<lambda>b.
     bindR (encodeMembers kvs) (\<lambda>bs. Inr (EncodeAmf0String k False @ b @ bs)))"
| "encodeElements [] = Inr []"
| "encodeElements (v # vs) =
     bindR (wrapR ''encode amf0: unable to encode strict array element: '' (EncodeAmf0 v)) (\<lambda>b.
     bindR (encodeElements vs) (\<lambda>bs. Inr (b @ bs)))"

definition EncodeAmf0Object :: "(bytes \<times> amfval) list \<Rightarrow> bool \<Rightarrow> bytes res" where
  "EncodeAmf0Object kvs m = bindR (encodeMembers kvs) (\<lambda>b. Inr (marker_if m AMF0ObjectMarker @ b))"

definition EncodeAmf0StrictArray :: "amfval list \<Rightarrow> bool \<Rightarrow> bytes res" where
  "EncodeAmf0StrictArray xs m =
     bindR (encodeElements xs) (\<lambda>b.
       Inr (marker_if m AMF0StrictArrayMarker @ be_bytes 4 (word_of_nat (length xs) :: u32) @ b))"

definition EncodeAmf0EcmaArray :: "(bytes \<times> amfval) list \<Rightarrow> bool \<Rightarrow> bytes res" where
  "EncodeAmf0EcmaArray kvs m =
     bindR (wrapR ''encode amf0: unable to encode ecma array object: '' (EncodeAmf0Object kvs False)) (\<lambda>b.
       Inr (marker_if m AMF0EcmaArrayMarker @ be_bytes 4 (word_of_nat (length kvs) :: u32) @ b))"


section \<open>Nesting never exhausts the depth\<close>

lemma safe_scalars0 [safe_intros]:
  "safeA n (DecodeAmf0Number m)" "safeA n (DecodeAmf0Boolean m)" "safeA n (DecodeAmf0String m)"
  "safeA n (DecodeAmf0Null m)" "safeA n (DecodeAmf0Undefined m)" "safeA n (DecodeAmf0LongString m)"
  "safeA n (DecodeAmf0Unsupported m)"
  unfolding DecodeAmf0Number_def DecodeAmf0Boolean_def DecodeAmf0String_def DecodeAmf0Null_def
    DecodeAmf0Undefined_def DecodeAmf0LongString_def DecodeAmf0Unsupported_def
  by (auto intro!: safe_intros)

lemma safe_scalars0' [safe_intros]: "safeA n (DecodeAmf0Date m)" "safeA n (DecodeAmf0XmlDocument m)"
  unfolding DecodeAmf0Date_def DecodeAmf0XmlDocument_def by (auto intro!: safe_intros)

lemma eats_binary_Read: "0 < k \<Longrightarrow> eats (binary_Read k)"
  by (auto simp: eats_def binary_Read_def split: if_splits)

lemma eats_String0: "eats (DecodeAmf0String False)"
  unfolding DecodeAmf0String_def AssertMarker_def
  by (simp, intro eats_first eats_wrap eats_binary_Read safe_intros) simp

lemma safe_Members: "n < k \<Longrightarrow> safeA n dv \<Longrightarrow> safeA n (decodeMembers k dv obj)"
proof (induction k arbitrary: n obj)
  case (Suc k)
  show ?case
    using Suc.prems unfolding decodeMembers.simps
    by (intro safe_bind_eats safe_intros eats_String0) (auto intro!: safe_intros Suc.IH intro: safe_mono)
qed simp

lemma safe_Object0 [safe_intros]:
  assumes "safeA n dv"
  shows "safeA n (DecodeAmf0Object dv m)"
proof -
  have "safeA n (\<lambda>s. decodeMembers (Suc (length (amf_rd s))) dv [] s)"
  proof (rule safeI)
    fix s :: Decoder assume "length (amf_rd s) \<le> n"
    then have "safeA (length (amf_rd s)) (decodeMembers (Suc (length (amf_rd s))) dv [])"
      using assms by (intro safe_Members) (auto intro: safe_mono)
    then show "fst (decodeMembers (Suc (length (amf_rd s))) dv [] s) \<noteq> Inl OutOfFuel \<and>
        length (amf_rd (snd (decodeMembers (Suc (length (amf_rd s))) dv [] s))) \<le> length (amf_rd s)"
      unfolding safeA_def by blast
  qed
  then show ?thesis unfolding DecodeAmf0Object_def by (intro safe_intros)
qed

lemma safe_ignore [safe_intros]:
  assumes "safeA n m"
  shows "safeA n (ignoreA m)"
proof (rule safeI)
  fix s :: Decoder assume n: "length (amf_rd s) \<le> n"
  obtain r s' where m: "m s = (r, s')" by force
  from safeD [OF assms n m] m show "fst (ignoreA m s) \<noteq> Inl OutOfFuel \<and>
      length (amf_rd (snd (ignoreA m s))) \<le> length (amf_rd s)"
    by (auto simp: ignoreA_def split: sum.splits exn.splits)
qed

lemma safe_Values0 [safe_intros]: "safeA n dv \<Longrightarrow> safeA n (decodeValues0 dv k acc)"
  by (induction k arbitrary: acc) (auto intro!: safe_intros)

lemma safe_nested0 [safe_intros]:
  "safeA n dv \<Longrightarrow> safeA n (DecodeAmf0EcmaArray dv m)"
  "safeA n dv \<Longrightarrow> safeA n (DecodeAmf0StrictArray dv m)"
  "safeA n dv \<Longrightarrow> safeA n (DecodeAmf0TypedObject dv m)"
  unfolding DecodeAmf0EcmaArray_def DecodeAmf0StrictArray_def DecodeAmf0TypedObject_def
  by (auto intro!: safe_intros)

lemma safe_Marked0: "safeA n dv \<Longrightarrow> safeA n (decMarked0 dv b)"
  unfolding decMarked0_def by (auto intro!: safe_intros DecodeAmf3_safe)

lemma safe_decAmf0: "n < k \<Longrightarrow> safeA n (decAmf0 k)"
proof (induction k arbitrary: n)
  case (Suc k)
  then show ?case
    unfolding decAmf0.simps ReadMarker_def
    by (intro safe_bind_eats eats_ReadByte) (auto intro!: safe_intros safe_Marked0)
qed simp

lemma DecodeAmf0_safe: "safeA n DecodeAmf0"
proof (rule safeI)
  fix s :: Decoder
  show "fst (DecodeAmf0 s) \<noteq> Inl OutOfFuel \<and> length (amf_rd (snd (DecodeAmf0 s))) \<le> length (amf_rd s)"
    using safe_decAmf0 [of "length (amf_rd s)" "Suc (length (amf_rd s))"] unfolding DecodeAmf0_def safeA_def by blast
qed

lemma eats_DecodeAmf0: "eats DecodeAmf0"
proof -
  have "length (amf_rd s') < length (amf_rd s)" if "DecodeAmf0 s = (Inr v, s')" for s v s'
    using that safe_Marked0 [OF safe_decAmf0 [of "length (amf_rd s) - 1" "length (amf_rd s)"]]
    by (auto simp: DecodeAmf0_def ReadMarker_def intro: eats_after_byte)
  then show ?thesis by (simp add: eats_def)
qed

section \<open>amf.go\<close>

definition Decode :: "byte \<Rightarrow> amfval amf" where
  "Decode ver =
     (if ver = 0 then DecodeAmf0 else if ver = 3 then DecodeAmf3
      else failA (Err (Errorf ''decode amf: unsupported version'')))"

lemma Decode_safe: "safeA n (Decode ver)"
  unfolding Decode_def by (intro safe_intros DecodeAmf0_safe DecodeAmf3_safe) simp

lemma eats_Decode: "eats (Decode ver)"
  using eats_DecodeAmf0 eats_DecodeAmf3 by (auto simp: Decode_def eats_def)

text \<open>\<^verbatim>\<open>DecodeBatch\<close> always ends with an error, \<^verbatim>\<open>io.EOF\<close> at the end of the input.\<close>

function DecodeBatch :: "byte \<Rightarrow> Decoder \<Rightarrow> amfval list \<times> exn \<times> Decoder" where
  "DecodeBatch ver s =
     (case Decode ver s of
        (Inl e, s') \<Rightarrow> ([], e, s')
      | (Inr v, s') \<Rightarrow> (case DecodeBatch ver s' of (vs, e, s'') \<Rightarrow> (v # vs, e, s'')))"
  by pat_completeness auto
termination
  by (relation "measure (\<lambda>(ver, s). length (amf_rd s))") (auto simp: eats_Decode [unfolded eats_def, rule_format, OF sym])

declare DecodeBatch.simps [simp del]


section \<open>Round trip\<close>

text \<open>
  The values AMF0 can represent: the members of an object have distinct non-empty keys of at
  most 65535 bytes, and lengths fit 32 bits.
\<close>

fun wf0 :: "amfval \<Rightarrow> bool"
  and wfMembers :: "(bytes \<times> amfval) list \<Rightarrow> bool"
  and wfElements :: "amfval list \<Rightarrow> bool"
where
  "wf0 (AString x) \<longleftrightarrow> length x < 2 ^ 32"
| "wf0 (AArray xs) \<longleftrightarrow> length xs < 2 ^ 32 \<and> wfElements xs"
| "wf0 (ABytes xs) \<longleftrightarrow> length xs < 2 ^ 32"
| "wf0 (AObject kvs) \<longleftrightarrow> distinct (map fst kvs) \<and> wfMembers kvs"
| "wf0 (ATyped c kvs) \<longleftrightarrow> False"
| "wf0 (ATime t) \<longleftrightarrow> False"
| "wf0 _ \<longleftrightarrow> True"
| "wfMembers [] \<longleftrightarrow> True"
| "wfMembers ((k, v) # kvs) \<longleftrightarrow> k \<noteq> [] \<and> length k \<le> AMF0StringMax \<and> wf0 v \<and> wfMembers kvs"
| "wfElements [] \<longleftrightarrow> True"
| "wfElements (v # vs) \<longleftrightarrow> wf0 v \<and> wfElements vs"

text \<open>What a value reads back as: integers as numbers, byte slices as arrays of numbers.\<close>

fun norm0 :: "amfval \<Rightarrow> amfval"
  and normMembers :: "(bytes \<times> amfval) list \<Rightarrow> (bytes \<times> amfval) list"
  and normElements :: "amfval list \<Rightarrow> amfval list"
where
  "norm0 (AInt i) = ANumber (float64_of_int i)"
| "norm0 (ABytes xs) = AArray (map (\<lambda>x. ANumber (float64_of_int (uint x))) xs)"
| "norm0 (AArray xs) = AArray (normElements xs)"
| "norm0 (AObject kvs) = AObject (normMembers kvs)"
| "norm0 v = v"
| "normMembers [] = []"
| "normMembers ((k, v) # kvs) = (k, norm0 v) # normMembers kvs"
| "normElements [] = []"
| "normElements (v # vs) = norm0 v # normElements vs"

text \<open>The encoding ends with an empty string, which the reader cannot read at the end of its input.\<close>

fun ends_empty :: "amfval \<Rightarrow> bool" and endsElements :: "amfval list \<Rightarrow> bool" where
  "ends_empty (AString x) \<longleftrightarrow> x = []"
| "ends_empty (AArray xs) \<longleftrightarrow> endsElements xs"
| "ends_empty _ \<longleftrightarrow> False"
| "endsElements [] \<longleftrightarrow> False"
| "endsElements (v # vs) \<longleftrightarrow> (if vs = [] then ends_empty v else endsElements vs)"

text \<open>\<open>reads m bs rest v\<close>: on input \<open>bs @ rest\<close>, \<open>m\<close> returns \<open>v\<close>, leaves \<open>rest\<close> and no other trace.\<close>

definition reads :: "'a amf \<Rightarrow> bytes \<Rightarrow> bytes \<Rightarrow> 'a \<Rightarrow> bool" where
  "reads m bs rest v \<longleftrightarrow> (\<forall>s. amf_rd s = bs @ rest \<longrightarrow> m s = (Inr v, s\<lparr>amf_rd := rest\<rparr>))"

lemma readsD: "reads m bs rest v \<Longrightarrow> amf_rd s = bs @ rest \<Longrightarrow> m s = (Inr v, s\<lparr>amf_rd := rest\<rparr>)"
  by (simp add: reads_def)

lemma reads_ret [simp]: "reads (retA x) [] rest y \<longleftrightarrow> x = y"
  by (auto simp: reads_def intro: exI [of _ "NewDecoder rest"] simp: NewDecoder_def)

lemma reads_bind:
  "reads m bs (bs' @ rest) x \<Longrightarrow> reads (f x) bs' rest y \<Longrightarrow> reads (bindA m f) (bs @ bs') rest y"
  by (auto simp: reads_def bindA_def)

lemma reads_wrap: "reads m bs rest x \<Longrightarrow> reads (wrapA msg m) bs rest x"
  by (simp add: reads_def wrapA_def)

lemma reads_byte: "reads ReadByte [b] rest b"
  by (simp add: reads_def ReadByte_Cons)

lemma reads_binary: "length bs = n \<Longrightarrow> v = be_word bs \<Longrightarrow> reads (binary_Read n) bs rest v"
  by (auto simp: reads_def binary_Read_def)

lemma reads_bytes: "bs @ rest \<noteq> [] \<Longrightarrow> length bs = n \<Longrightarrow> reads (ReadBytes n) bs rest bs"
  by (auto simp: reads_def ReadBytes_def reader_Read_def bindA_def Let_def)

lemma be_word_bytes_full: "8 * n = LENGTH('a) \<Longrightarrow> be_word (be_bytes n v) = (v :: 'a::len word)"
  by (simp add: be_word_be_bytes take_bit_full_word)

lemma reads_number: "reads (DecodeAmf0Number False) (be_bytes 8 v) rest v"
  unfolding DecodeAmf0Number_def AssertMarker_def
  by (simp, intro reads_wrap reads_binary) (simp_all add: be_word_bytes_full)

lemma unat_u16: "n \<le> 65535 \<Longrightarrow> unat (word_of_nat n :: u16) = n"
  by (simp add: unsigned_of_nat take_bit_nat_eq_self_iff)

lemma unat_u32: "n < 2 ^ 32 \<Longrightarrow> unat (word_of_nat n :: u32) = n"
  by (simp add: unsigned_of_nat take_bit_nat_eq_self_iff)

lemma reads_string:
  assumes "length x \<le> AMF0StringMax" and "x @ rest \<noteq> []"
  shows "reads (DecodeAmf0String False) (EncodeAmf0String x False) rest x"
proof -
  have "reads (wrapA msg (binary_Read 2)) (be_bytes 2 (word_of_nat (length x) :: u16)) (x @ rest) (word_of_nat (length x) :: u16)" for msg
    by (intro reads_wrap reads_binary) (simp_all add: be_word_bytes_full)
  moreover have "reads (wrapA msg (ReadBytes (unat (word_of_nat (length x) :: u16)))) x rest x" for msg
    using assms by (intro reads_wrap reads_bytes) (simp_all add: unat_u16)
  ultimately show ?thesis
    unfolding DecodeAmf0String_def AssertMarker_def EncodeAmf0String_def marker_if_def
    by (simp, intro reads_bind)
qed

lemma reads_long_string:
  assumes "length x < 2 ^ 32" and "x @ rest \<noteq> []"
  shows "reads (DecodeAmf0LongString False) (EncodeAmf0LongString x False) rest x"
proof -
  have "reads (wrapA msg (binary_Read 4)) (be_bytes 4 (word_of_nat (length x) :: u32)) (x @ rest) (word_of_nat (length x) :: u32)" for msg
    by (intro reads_wrap reads_binary) (simp_all add: be_word_bytes_full)
  moreover have "reads (wrapA msg (ReadBytes (unat (word_of_nat (length x) :: u32)))) x rest x" for msg
    using assms by (intro reads_wrap reads_bytes) (simp_all add: unat_u32)
  ultimately show ?thesis
    unfolding DecodeAmf0LongString_def AssertMarker_def EncodeAmf0LongString_def marker_if_def
    by (simp, intro reads_bind)
qed

lemma reads_marker:
  assumes "reads (decMarked0 (decAmf0 k) m) bs rest v"
  shows "reads (decAmf0 (Suc k)) (m # bs) rest v"
  using reads_bind [OF reads_byte, of "decMarked0 (decAmf0 k)" m bs rest v] assms by (simp add: ReadMarker_def)

lemma EncodeAmf0_nonempty: "EncodeAmf0 v = Inr bs \<Longrightarrow> bs \<noteq> []"
  by (cases v) (auto simp: EncodeAmf0Null_def EncodeAmf0Boolean_def EncodeAmf0Number_def EncodeAmf0String_def
      EncodeAmf0LongString_def marker_if_def split: if_splits)

lemma update_new: "k \<notin> fst ` set xs \<Longrightarrow> AList.update k v xs = xs @ [(k, v)]"
  by (induction xs) auto


lemma reads_bytes_value:
  "encodeElements (map (\<lambda>x. AInt (uint x)) xs) =
     Inr (concat (map (\<lambda>x. EncodeAmf0Number (float64_of_int (uint x)) True) xs))"
  "normElements (map (\<lambda>x. AInt (uint x)) xs) = map (\<lambda>x. ANumber (float64_of_int (uint x))) xs"
  "wfElements (map (\<lambda>x. AInt (uint x)) xs)" "\<not> endsElements (map (\<lambda>x. AInt (uint x)) xs)"
  by (induction xs) auto

lemma reads_scalar0:
  "reads (decMarked0 dv AMF0NullMarker) [] rest ANil"
  "reads (decMarked0 dv AMF0BooleanMarker) [if b then 1 else 0] rest (ABool b)"
  "reads (decMarked0 dv AMF0NumberMarker) (be_bytes 8 v) rest (ANumber v)"
  using readsD [OF reads_number [of v rest]]
  by (auto simp: decMarked0_def DecodeAmf0Null_def DecodeAmf0Boolean_def AssertMarker_def reads_def bindA_def ReadByte_Cons)

lemma reads_strict_array:
  assumes "reads (decodeValues0 dv (length xs) []) bs rest ys" and "length xs < 2 ^ 32"
  shows "reads (decMarked0 dv AMF0StrictArrayMarker) (be_bytes 4 (word_of_nat (length xs) :: u32) @ bs) rest (AArray ys)"
proof -
  have "reads (wrapA msg (binary_Read 4)) (be_bytes 4 (word_of_nat (length xs) :: u32)) (bs @ rest) (word_of_nat (length xs) :: u32)" for msg
    by (intro reads_wrap reads_binary) (simp_all add: be_word_bytes_full)
  moreover have "reads (bindA (decodeValues0 dv (unat (word_of_nat (length xs) :: u32)) []) (\<lambda>xs. retA (AArray xs))) bs rest (AArray ys)"
    using reads_bind [of _ bs "[]" rest ys "\<lambda>xs. retA (AArray xs)" "AArray ys"] assms by (simp add: unat_u32)
  ultimately show ?thesis
    unfolding decMarked0_def DecodeAmf0StrictArray_def AssertMarker_def by (simp, intro reads_bind)
qed

lemma reads_object:
  assumes "\<And>j. length bs < j \<Longrightarrow> reads (decodeMembers j dv []) bs rest ys"
  shows "reads (decMarked0 dv AMF0ObjectMarker) bs rest (AObject ys)"
proof -
  have "reads (\<lambda>s. decodeMembers (Suc (length (amf_rd s))) dv [] s) bs rest ys"
    using assms by (auto simp: reads_def simp del: decodeMembers.simps)
  from reads_bind [of _ bs "[]" rest ys "\<lambda>x. retA (AObject x)" "AObject ys"] this show ?thesis
    by (simp add: decMarked0_def DecodeAmf0Object_def AssertMarker_def)
qed

lemma members_length: "encodeMembers kvs = Inr bs \<Longrightarrow> length kvs < length bs"
proof (induction kvs arbitrary: bs)
  case (Cons kv kvs)
  then obtain k v b bs' where "kv = (k, v)" "encodeMembers kvs = Inr bs'" "bs = EncodeAmf0String k False @ b @ bs'"
    by (cases kv) auto
  with Cons.IH [of bs'] show ?case by (simp add: EncodeAmf0String_def)
qed (simp add: EncodeAmf0String_def)

lemma reads_member_end:
  "reads (decodeMembers (Suc j) dv acc) (EncodeAmf0String [] False @ [AMF0ObjectEndMarker]) rest acc"
proof -
  have "reads (DecodeAmf0String False) (EncodeAmf0String [] False) ([AMF0ObjectEndMarker] @ rest) []"
    by (rule reads_string) simp_all
  moreover have "reads (AssertMarker True AMF0ObjectEndMarker) [AMF0ObjectEndMarker] rest ()"
    by (simp add: AssertMarker_def ReadMarker_def reads_def bindA_def ReadByte_Cons)
  then have "reads (bindA (wrapA msg (AssertMarker True AMF0ObjectEndMarker)) (\<lambda>_. retA acc)) [AMF0ObjectEndMarker] rest acc" for msg
    using reads_bind [of "wrapA msg (AssertMarker True AMF0ObjectEndMarker)" "[AMF0ObjectEndMarker]" "[]" rest "()" "\<lambda>_. retA acc" acc]
    by (simp add: reads_wrap)
  ultimately show ?thesis unfolding decodeMembers.simps by (intro reads_bind [where x = "[]"]) simp_all
qed

lemma reads_member:
  assumes "key \<noteq> []" and "length key \<le> AMF0StringMax" and "reads dv b (bs @ rest) v"
    and "reads (decodeMembers j dv (AList.update key v acc)) bs rest ys"
  shows "reads (decodeMembers (Suc j) dv acc) (EncodeAmf0String key False @ b @ bs) rest ys"
proof -
  have "reads (DecodeAmf0String False) (EncodeAmf0String key False) ((b @ bs) @ rest) key"
    using assms by (intro reads_string) simp_all
  moreover have "reads (bindA (wrapA msg dv) (\<lambda>v. decodeMembers j dv (AList.update key v acc))) (b @ bs) rest ys" for msg
    using assms by (intro reads_bind reads_wrap)
  ultimately show ?thesis
    using assms(1) unfolding decodeMembers.simps by (intro reads_bind [where x = key]) simp_all
qed

lemma encode_decode:
  "EncodeAmf0 v = Inr bs \<Longrightarrow> wf0 v \<Longrightarrow> rest \<noteq> [] \<or> \<not> ends_empty v \<Longrightarrow> length bs \<le> k \<Longrightarrow>
     reads (decAmf0 k) bs rest (norm0 v)"
  "encodeMembers kvs = Inr bs \<Longrightarrow> wfMembers kvs \<Longrightarrow> distinct (map fst acc @ map fst kvs) \<Longrightarrow> length bs \<le> k \<Longrightarrow>
     length kvs < j \<Longrightarrow> reads (decodeMembers j (decAmf0 k) acc) bs rest (acc @ normMembers kvs)"
  "encodeElements vs = Inr bs \<Longrightarrow> wfElements vs \<Longrightarrow> rest \<noteq> [] \<or> \<not> endsElements vs \<Longrightarrow> length bs \<le> k \<Longrightarrow>
     reads (decodeValues0 (decAmf0 k) (length vs) acc2) bs rest (acc2 @ normElements vs)"
proof (induction v and kvs and vs arbitrary: bs rest k and bs rest k j acc and bs rest k acc2
    rule: EncodeAmf0_encodeMembers_encodeElements.induct)
  case 1
  then show ?case by (cases k) (auto simp: EncodeAmf0Null_def marker_if_def intro!: reads_marker reads_scalar0 simp del: decAmf0.simps)
next
  case (2 x)
  then obtain k' where k: "k = Suc k'" by (cases k) (auto simp: EncodeAmf0String_def EncodeAmf0LongString_def marker_if_def split: if_splits)
  have ne: "x @ rest \<noteq> []" using "2.prems"(3) by auto
  show ?case
  proof (cases "length x \<le> AMF0StringMax")
    case True
    have "reads (decMarked0 (decAmf0 k') AMF0StringMarker) (EncodeAmf0String x False) rest (AString x)"
      using reads_bind [of _ _ "[]" rest x "\<lambda>x. retA (AString x)" "AString x"] reads_string [OF True ne]
      by (simp add: decMarked0_def)
    with reads_marker [OF this] True "2.prems"(1) k show ?thesis
      by (auto simp: EncodeAmf0String_def marker_if_def simp del: decAmf0.simps)
  next
    case False
    have "reads (decMarked0 (decAmf0 k') AMF0LongStringMarker) (EncodeAmf0LongString x False) rest (AString x)"
      using reads_bind [of _ _ "[]" rest x "\<lambda>x. retA (AString x)" "AString x"] reads_long_string [OF _ ne] "2.prems"(2)
      by (simp add: decMarked0_def)
    with reads_marker [OF this] False "2.prems"(1) k show ?thesis
      by (auto simp: EncodeAmf0LongString_def marker_if_def simp del: decAmf0.simps)
  qed
next
  case (3 b)
  then show ?case by (cases k) (auto simp: EncodeAmf0Boolean_def marker_if_def intro!: reads_marker reads_scalar0 simp del: decAmf0.simps)
next
  case (4 i)
  then show ?case by (cases k) (auto simp: EncodeAmf0Number_def marker_if_def intro!: reads_marker reads_scalar0 simp del: decAmf0.simps)
next
  case (5 v)
  then show ?case by (cases k) (auto simp: EncodeAmf0Number_def marker_if_def intro!: reads_marker reads_scalar0 simp del: decAmf0.simps)
next
  case (6 xs)
  then obtain b k' where b: "encodeElements xs = Inr b"
      "bs = AMF0StrictArrayMarker # be_bytes 4 (word_of_nat (length xs) :: u32) @ b" "k = Suc k'"
    by (cases k) (auto simp: marker_if_def)
  have "reads (decodeValues0 (decAmf0 k') (length xs) []) b rest ([] @ normElements xs)"
    using "6.prems" b by (intro "6.IH") auto
  from reads_marker [OF reads_strict_array [OF this]] b "6.prems"(2) show ?case
    by (simp del: decAmf0.simps)
next
  case (7 xs)
  have "reads (decodeValues0 (decAmf0 k) (length ys) acc) (concat (map (\<lambda>x. EncodeAmf0Number (float64_of_int (uint x)) True) ys)) rest
      (acc @ map (\<lambda>x. ANumber (float64_of_int (uint x))) ys)" if pos: "0 < k" for ys :: bytes and k acc
  proof (induction ys arbitrary: acc)
    case (Cons y ys)
    obtain k' where k: "k = Suc k'" using pos by (cases k) auto
    have "reads (decAmf0 k) (EncodeAmf0Number (float64_of_int (uint y)) True) r (ANumber (float64_of_int (uint y)))" for r
      unfolding k EncodeAmf0Number_def marker_if_def by (simp del: decAmf0.simps) (intro reads_marker reads_scalar0)
    from reads_bind [OF reads_wrap [OF this], where f = "\<lambda>v. decodeValues0 (decAmf0 k) (length ys) (acc @ [v])"]
      Cons.IH [of "acc @ [ANumber (float64_of_int (uint y))]"]
    show ?case by simp
  qed simp
  note elems = this
  obtain k' where k: "k = Suc k'" "bs = AMF0StrictArrayMarker # be_bytes 4 (word_of_nat (length xs) :: u32) @
      concat (map (\<lambda>x. EncodeAmf0Number (float64_of_int (uint x)) True) xs)"
    using "7.prems" by (cases k) (auto simp: marker_if_def)
  then have "0 < k'" using "7.prems"(4) by auto
  from reads_marker [OF reads_strict_array [OF elems [OF this, of xs "[]"]]] k "7.prems"(2) show ?case
    by (simp del: decAmf0.simps)
next
  case (8 kvs)
  then obtain b k' where b: "encodeMembers kvs = Inr b" "bs = AMF0ObjectMarker # b" "k = Suc k'"
    by (cases k) (auto simp: marker_if_def)
  have "reads (decodeMembers j (decAmf0 k') []) b rest (normMembers kvs)" if "length b < j" for j
    using "8.IH" [of b "[]" k' j rest] "8.prems" b that members_length [OF b(1)] by simp
  from reads_marker [OF reads_object [OF this]] b show ?case by (simp del: decAmf0.simps)
next
  case (11)
  then show ?case by (cases j) (auto simp del: decodeMembers.simps intro: reads_member_end)
next
  case (12 key v kvs)
  then obtain b b' where b: "EncodeAmf0 v = Inr b" "encodeMembers kvs = Inr b'" "bs = EncodeAmf0String key False @ b @ b'"
    by auto
  obtain i where i: "j = Suc i" using "12.prems"(5) by (cases j) auto
  have new: "AList.update key (norm0 v) acc = acc @ [(key, norm0 v)]"
    using "12.prems"(3) by (intro update_new) auto
  have "b' @ rest \<noteq> []" using members_length [OF b(2)] by auto
  then have "reads (decAmf0 k) b (b' @ rest) (norm0 v)"
    using "12.prems" b by (intro "12.IH"(1)) auto
  moreover have "reads (decodeMembers i (decAmf0 k) (acc @ [(key, norm0 v)])) b' rest ((acc @ [(key, norm0 v)]) @ normMembers kvs)"
    using "12.prems" b i by (intro "12.IH"(2)) auto
  ultimately show ?case
    using "12.prems"(2) unfolding i b(3) by (intro reads_member [where v = "norm0 v"]) (simp_all add: new del: decodeMembers.simps)
next
  case 13
  then show ?case by (auto simp: reads_def)
next
  case (14 v vs)
  then obtain b b' where b: "EncodeAmf0 v = Inr b" "encodeElements vs = Inr b'" "bs = b @ b'" by auto
  have tl: "b' @ rest \<noteq> [] \<or> \<not> ends_empty v"
    using "14.prems"(3) b EncodeAmf0_nonempty by (cases vs) auto
  have "reads (wrapA msg (decAmf0 k)) b (b' @ rest) (norm0 v)" for msg
    using "14.prems" b tl by (intro reads_wrap "14.IH"(1)) auto
  moreover have "reads (decodeValues0 (decAmf0 k) (length vs) (acc2 @ [norm0 v])) b' rest ((acc2 @ [norm0 v]) @ normElements vs)"
    using "14.prems" b by (intro "14.IH"(2)) (auto split: if_splits)
  ultimately show ?case
    using reads_bind [of _ b b' rest "norm0 v" "\<lambda>v. decodeValues0 (decAmf0 k) (length vs) (acc2 @ [v])"] b by simp
qed simp_all


lemma DecodeAmf0_encoded:
  assumes "EncodeAmf0 v = Inr bs" and "wf0 v" and "rest \<noteq> [] \<or> \<not> ends_empty v"
  shows "reads DecodeAmf0 bs rest (norm0 v)"
  using encode_decode(1) [OF assms] by (auto simp: reads_def DecodeAmf0_def simp del: decAmf0.simps)

text \<open>\<^verbatim>\<open>Encode\<close> with version 0 (the only one used by the server), and \<^verbatim>\<open>EncodeBatch\<close>.\<close>

fun EncodeBatch0 :: "amfval list \<Rightarrow> bytes res" where
  "EncodeBatch0 [] = Inr []"
| "EncodeBatch0 (v # vs) = bindR (EncodeAmf0 v) (\<lambda>b. bindR (EncodeBatch0 vs) (\<lambda>bs. Inr (b @ bs)))"

lemma encode_total:
  "wf0 v \<Longrightarrow> \<exists>bs. EncodeAmf0 v = Inr bs"
  "wfMembers kvs \<Longrightarrow> \<exists>bs. encodeMembers kvs = Inr bs"
  "wfElements vs \<Longrightarrow> \<exists>bs. encodeElements vs = Inr bs"
  by (induction v and kvs and vs rule: EncodeAmf0_encodeMembers_encodeElements.induct) auto

lemma EncodeBatch0_decoded:
  assumes "wfElements vs" and "\<not> endsElements vs" and "amf_rd s = []"
  shows "\<exists>bs. EncodeBatch0 vs = Inr bs \<and>
     DecodeBatch 0 (s\<lparr>amf_rd := bs\<rparr>) = (normElements vs, Err EOF, s)"
  using assms
proof (induction vs)
  case Nil
  then show ?case
    by (subst DecodeBatch.simps)
      (simp add: Decode_def DecodeAmf0_def bindA_def ReadMarker_def ReadByte_Nil)
next
  case (Cons v vs)
  obtain b where b: "EncodeAmf0 v = Inr b" using encode_total(1) [of v] Cons.prems(1) by auto
  obtain bs where bs: "EncodeBatch0 vs = Inr bs" and ih: "DecodeBatch 0 (s\<lparr>amf_rd := bs\<rparr>) = (normElements vs, Err EOF, s)"
    using Cons by (cases vs) (auto simp: DecodeBatch.simps [of 0 "_ :: Decoder"] Decode_def DecodeAmf0_def bindA_def
        ReadMarker_def ReadByte_Nil split: if_splits)
  have "bs \<noteq> [] \<or> \<not> ends_empty v"
    using Cons.prems(2) bs EncodeAmf0_nonempty by (cases vs) auto
  from readsD [OF DecodeAmf0_encoded [OF b _ this], of "s\<lparr>amf_rd := b @ bs\<rparr>"] Cons.prems(1)
  have "Decode 0 (s\<lparr>amf_rd := b @ bs\<rparr>) = (Inr (norm0 v), s\<lparr>amf_rd := bs\<rparr>)"
    by (simp add: Decode_def)
  then show ?case
    using b bs ih by (subst DecodeBatch.simps) simp
qed

text \<open>
  C17: a batch of AMF0 values that the format can represent, encoded one after the other, is decoded
  by \<^verbatim>\<open>DecodeBatch\<close> into the same values (integers as their float64), ends with \<^verbatim>\<open>io.EOF\<close> and
  leaves the reference tables alone, unless the batch ends with an empty string.
\<close>

theorem amf0_batch_roundtrip:
  assumes "wfElements vs" and "\<not> endsElements vs" and "amf_rd s = []"
  shows "\<exists>bs. EncodeBatch0 vs = Inr bs \<and>
     DecodeBatch 0 (s\<lparr>amf_rd := bs\<rparr>) = (normElements vs, Err EOF, s)"
  by (rule EncodeBatch0_decoded [OF assms])

theorem amf0_batch_roundtrip_witness:
  "\<exists>bs. EncodeBatch0 [AString (gostr ''connect''), AInt 1, AObject [(gostr ''app'', AString (gostr ''live''))], ANil] = Inr bs \<and>
     DecodeBatch 0 (NewDecoder bs) =
       ([AString (gostr ''connect''), ANumber (float64_of_int 1), AObject [(gostr ''app'', AString (gostr ''live''))], ANil],
        Err EOF, NewDecoder [])"
proof -
  let ?vs = "[AString (gostr ''connect''), AInt 1, AObject [(gostr ''app'', AString (gostr ''live''))], ANil]"
  have "wfElements ?vs" "\<not> endsElements ?vs" "amf_rd (NewDecoder []) = []"
    by (simp_all add: gostr_def NewDecoder_def)
  from amf0_batch_roundtrip [OF this] show ?thesis by (auto simp: NewDecoder_def)
qed

text \<open>
  C32: decoding always returns: on any input, in either version, a decode step ends with a value and
  less input, or with an error or a panic of the source and no more input than before; a batch ends
  after at most as many values as there are bytes. The bounds on nesting depth and on loop rounds
  of the model are never reached.
\<close>

theorem amf_decode_total:
  "(case Decode ver s of
      (Inr v, s') \<Rightarrow> length (amf_rd s') < length (amf_rd s)
    | (Inl e, s') \<Rightarrow> e \<noteq> OutOfFuel \<and> length (amf_rd s') \<le> length (amf_rd s)) \<and>
   (case DecodeBatch ver s of
      (vs, e, s') \<Rightarrow> e \<noteq> OutOfFuel \<and> length vs + length (amf_rd s') \<le> length (amf_rd s))"
proof (rule conjI)
  have one: "case Decode ver s of
      (Inr v, s') \<Rightarrow> length (amf_rd s') < length (amf_rd s)
    | (Inl e, s') \<Rightarrow> e \<noteq> OutOfFuel \<and> length (amf_rd s') \<le> length (amf_rd s)" for s
    using safeD [OF Decode_safe le_refl, of ver s] eats_Decode [of ver]
    by (auto simp: eats_def split: prod.splits sum.splits)
  then show "case Decode ver s of
      (Inr v, s') \<Rightarrow> length (amf_rd s') < length (amf_rd s)
    | (Inl e, s') \<Rightarrow> e \<noteq> OutOfFuel \<and> length (amf_rd s') \<le> length (amf_rd s)" .
  show "case DecodeBatch ver s of
      (vs, e, s') \<Rightarrow> e \<noteq> OutOfFuel \<and> length vs + length (amf_rd s') \<le> length (amf_rd s)"
  proof (induction ver s rule: DecodeBatch.induct)
    case (1 ver s)
    obtain r s1 where d: "Decode ver s = (r, s1)" by force
    show ?case
    proof (cases r)
      case (Inl e)
      with d one [of s] safeD [OF Decode_safe le_refl d] show ?thesis by (subst DecodeBatch.simps) simp
    next
      case (Inr v)
      with d eats_Decode [of ver] have "length (amf_rd s1) < length (amf_rd s)" by (auto simp: eats_def)
      with 1 [OF d [symmetric] Inr] d Inr show ?thesis
        by (subst DecodeBatch.simps) (auto split: prod.splits)
    qed
  qed
qed

text \<open>
  An empty string that is the last value of a message is encoded, but the decoder reports an
  error for it instead of returning it.
\<close>

theorem amf0_trailing_empty_string_fails:
  "EncodeAmf0 (AString []) = Inr [2, 0, 0] \<and>
   DecodeBatch 0 (s\<lparr>amf_rd := [2, 0, 0]\<rparr>) =
     ([], Err (Errorf ''decode amf0: unable to decode string value: ''), s\<lparr>amf_rd := []\<rparr>)"
proof
  show "EncodeAmf0 (AString []) = Inr [2, 0, 0]"
    by (simp add: EncodeAmf0String_def marker_if_def numeral_2_eq_2)
  show "DecodeBatch 0 (s\<lparr>amf_rd := [2, 0, 0]\<rparr>) =
     ([], Err (Errorf ''decode amf0: unable to decode string value: ''), s\<lparr>amf_rd := []\<rparr>)"
    by (subst DecodeBatch.simps)
      (simp add: Decode_def DecodeAmf0_def bindA_def ReadMarker_def ReadByte_Cons decMarked0_def DecodeAmf0String_def
        AssertMarker_def wrapA_def binary_Read_def be_word_def ReadBytes_def reader_Read_def)
qed

section \<open>metadata.go\<close>

abbreviation ADD :: byte where "ADD \<equiv> 0x0"
abbreviation DEL :: byte where "DEL \<equiv> 0x3"

definition SetDataFrame :: bytes where
  "SetDataFrame = gostr ''@setDataFrame''"

definition OnMetaData :: bytes where
  "OnMetaData = gostr ''onMetaData''"

text \<open>The package's \<^verbatim>\<open>init\<close>: the encoding of the marker string.\<close>

definition setFrameFrame :: bytes where
  "setFrameFrame = (case EncodeAmf0 (AString SetDataFrame) of Inr b \<Rightarrow> b | Inl _ \<Rightarrow> [])"

definition MetaDataReform :: "bytes \<Rightarrow> byte \<Rightarrow> bytes res" where
  "MetaDataReform p flag =
     (if flag = ADD then
        (case fst (Decode 0 (NewDecoder p)) of
           Inl e \<Rightarrow> Inl e
         | Inr (AString vv) \<Rightarrow> Inr (if vv \<noteq> SetDataFrame then setFrameFrame @ p else p)
         | Inr _ \<Rightarrow> Inl (Err (Errorf ''setFrameFrame error'')))
      else if flag = DEL then
        (case fst (Decode 0 (NewDecoder p)) of
           Inl e \<Rightarrow> Inl e
         | Inr (AString vv) \<Rightarrow>
             (if vv = SetDataFrame then slice p (length setFrameFrame) (length p) else Inr p)
         | Inr _ \<Rightarrow> Inl (Err (Errorf ''metadata error'')))
      else Inl (Err (Errorf ''invalid flag'')))"

lemma setFrameFrame_eq: "setFrameFrame = EncodeAmf0String SetDataFrame True"
  by (simp add: setFrameFrame_def SetDataFrame_def gostr_def)

lemma SetDataFrame_short: "length SetDataFrame \<le> AMF0StringMax" "SetDataFrame \<noteq> []"
  by (simp_all add: SetDataFrame_def gostr_def)

lemma Decode_first_string:
  assumes "length x \<le> AMF0StringMax" and "x @ rest \<noteq> []"
  shows "fst (Decode 0 (NewDecoder (EncodeAmf0String x True @ rest))) = Inr (AString x)"
proof -
  have "reads DecodeAmf0 (EncodeAmf0String x True) rest (norm0 (AString x))"
    using assms by (intro DecodeAmf0_encoded) auto
  from readsD [OF this] show ?thesis by (simp add: Decode_def NewDecoder_def)
qed

lemma MetaDataReform_string:
  assumes "length x \<le> AMF0StringMax" and "x @ rest \<noteq> []" and "p = EncodeAmf0String x True @ rest"
  shows "MetaDataReform p ADD = Inr (if x = SetDataFrame then p else setFrameFrame @ p)"
    and "MetaDataReform p DEL = Inr (if x = SetDataFrame then rest else p)"
  using Decode_first_string [OF assms(1,2)] assms(3)
  by (simp_all add: MetaDataReform_def setFrameFrame_eq slice_def)

text \<open>
  For a metadata message that starts with an AMF0 string, \<^verbatim>\<open>MetaDataReform\<close> with \<^verbatim>\<open>ADD\<close> yields a
  message that starts with \<^verbatim>\<open>@setDataFrame\<close>, with \<^verbatim>\<open>DEL\<close> one without that frame, adding twice
  is adding once, and deleting after adding is deleting.
\<close>

theorem metadata_add_del:
  assumes "length x \<le> AMF0StringMax" and "x @ rest \<noteq> []" and "p = EncodeAmf0String x True @ rest"
  shows "(\<exists>q. MetaDataReform p ADD = Inr (setFrameFrame @ q)) \<and>
     MetaDataReform p DEL = Inr (if x = SetDataFrame then rest else p) \<and>
     bindR (MetaDataReform p ADD) (\<lambda>q. MetaDataReform q ADD) = MetaDataReform p ADD \<and>
     bindR (MetaDataReform p ADD) (\<lambda>q. MetaDataReform q DEL) = MetaDataReform p DEL"
proof -
  note p = MetaDataReform_string [OF assms]
  have q: "MetaDataReform (setFrameFrame @ r) ADD = Inr (setFrameFrame @ r)"
      "MetaDataReform (setFrameFrame @ r) DEL = Inr r" for r
    using MetaDataReform_string [OF SetDataFrame_short(1), of r "setFrameFrame @ r"] SetDataFrame_short(2)
    by (simp_all add: setFrameFrame_eq)
  show ?thesis
  proof (cases "x = SetDataFrame")
    case True
    then have "p = setFrameFrame @ rest" using assms(3) by (simp add: setFrameFrame_eq)
    with q [of rest] show ?thesis using True by auto
  next
    case False
    with p q [of p] show ?thesis by auto
  qed
qed

theorem metadata_add_del_witness:
  "bindR (MetaDataReform (EncodeAmf0String (gostr ''onMetaData'') True @ [5]) ADD) (\<lambda>q. MetaDataReform q DEL) =
     Inr (EncodeAmf0String (gostr ''onMetaData'') True @ [5])"
  using metadata_add_del [of "gostr ''onMetaData''" "[5]", OF _ _ refl] by (simp add: gostr_def SetDataFrame_def)

end
