(* ===== verification/FlvMuxer.thy ===== *)
theory FlvMuxer
  imports FlvTag Amf0
begin

text \<open>
  \<^verbatim>\<open>src/container/flv/muxer.go\<close>: the writer that stores a stream as an FLV file. 

  The destination (\<^verbatim>\<open>os.File\<close>) is a \<open>sink\<close>.
\<close>

unbundle bit_operations_syntax

declare be_bytes.simps [simp del]

definition flvHeader :: bytes where
  "flvHeader = [0x46, 0x4c, 0x56, 0x01, 0x05, 0x00, 0x00, 0x00, 0x09]"

abbreviation headerLen :: nat where "headerLen \<equiv> 11"

record FlvWriter =
  fw_base :: RWBase
  fw_app :: bytes
  fw_title :: bytes
  fw_url :: bytes
  fw_uid :: bytes
  fw_buf :: bytes
  fw_ctx :: sink
  fw_closed :: bool

text \<open>\<^verbatim>\<open>NewWriter\<close>: the errors of the two writes are discarded.\<close>

definition NewWriter :: "int \<Rightarrow> bytes \<Rightarrow> bytes \<Rightarrow> bytes \<Rightarrow> bytes \<Rightarrow> sink \<Rightarrow> FlvWriter res" where
  "NewWriter now uid app title url ctx =
     (let w = \<lparr>fw_base = NewRWBase now (10 * 1000000000), fw_app = app, fw_title = title, fw_url = url,
               fw_uid = uid, fw_buf = replicate headerLen 0, fw_ctx = snd (sink_Write flvHeader ctx), fw_closed = False\<rparr>
      in bindR (put_range PutI32BE (fw_buf w) 0 4 0) (\<lambda>buf.
           Inr (w\<lparr>fw_buf := buf, fw_ctx := snd (sink_Write (take 4 buf) (fw_ctx w))\<rparr>)))"

text \<open>
  The tag type and the payload of a packet; reforming a metadata packet changes the packet
  (its data becomes nil when that fails).
\<close>

definition tagPayload :: "packet \<Rightarrow> (u32 \<times> bytes) res" where
  "tagPayload p =
     (if IsVideo p then Inr (TagVideo, pkt_Data p)
      else if IsMetadata p
      then bindR (MetaDataReform (pkt_Data p) DEL) (\<lambda>d. Inr (TagScriptDataAMF0, d))
      else Inr (TagAudio, pkt_Data p))"

definition putTagHeader :: "u32 \<Rightarrow> nat \<Rightarrow> u32 \<Rightarrow> bytes \<Rightarrow> bytes res" where
  "putTagHeader typeID dataLen timestamp h =
     bindR (put_range PutU8 h 0 1 (ucast typeID)) (\<lambda>h.
     bindR (put_range PutI24BE h 1 4 (word_of_nat dataLen)) (\<lambda>h.
     bindR (put_range PutI24BE h 4 7 (timestamp AND 0xffffff)) (\<lambda>h.
       put_range PutU8 h 7 8 (ucast (drop_bit 24 timestamp AND 0xff)))))"

definition flv_Write :: "int \<Rightarrow> packet \<Rightarrow> FlvWriter \<Rightarrow> exn option \<times> packet \<times> FlvWriter" where
  "flv_Write now p w =
     (let w = w\<lparr>fw_base := SetPreTime now (fw_base w)\<rparr>
      in case tagPayload p of
           Inl e \<Rightarrow> (Some e, p\<lparr>pkt_Data := []\<rparr>, w)
         | Inr (typeID, d) \<Rightarrow>
             (let p = p\<lparr>pkt_Data := d\<rparr>;
                  timestamp = TimeStamp p + BaseTimestamp (fw_base w);
                  w = w\<lparr>fw_base := RecTimestamp timestamp typeID (fw_base w)\<rparr>
              in case putTagHeader typeID (length d) timestamp (fw_buf w) of
                   Inl e \<Rightarrow> (Some e, p, w)
                 | Inr h \<Rightarrow>
                     (case sink_Write h (fw_ctx w) of
                        (Some e, k) \<Rightarrow> (Some (Err e), p, w\<lparr>fw_buf := h, fw_ctx := k\<rparr>)
                      | (None, k) \<Rightarrow>
                          (case sink_Write d k of
                             (Some e, k) \<Rightarrow> (Some (Err e), p, w\<lparr>fw_buf := h, fw_ctx := k\<rparr>)
                           | (None, k) \<Rightarrow>
                               (case put_range PutI32BE h 0 4 (word_of_nat (length d + headerLen)) of
                                  Inl e \<Rightarrow> (Some e, p, w\<lparr>fw_buf := h, fw_ctx := k\<rparr>)
                                | Inr h \<Rightarrow>
                                    (case sink_Write (take 4 h) k of
                                       (Some e, k) \<Rightarrow> (Some (Err e), p, w\<lparr>fw_buf := h, fw_ctx := k\<rparr>)
                                     | (None, k) \<Rightarrow> (None, p, w\<lparr>fw_buf := h, fw_ctx := k\<rparr>)))))))"

text \<open>\<^verbatim>\<open>close(writer.closed)\<close> panics on a channel that is closed already.\<close>

definition flv_Close :: "FlvWriter \<Rightarrow> FlvWriter res" where
  "flv_Close w = (if fw_closed w then Inl (Panic ClosedChannel) else Inr (w\<lparr>fw_closed := True\<rparr>))"

definition flv_Info :: "FlvWriter \<Rightarrow> bytes \<times> bytes \<times> bytes" where
  "flv_Info w = (fw_app w @ gostr ''/'' @ fw_title w, fw_url w, fw_uid w)"

text \<open>A run of the writer over a sequence of packets, each with the time it is written at.\<close>

fun flv_Write_all :: "(int \<times> packet) list \<Rightarrow> FlvWriter \<Rightarrow> exn option \<times> FlvWriter" where
  "flv_Write_all [] w = (None, w)"
| "flv_Write_all ((now, p) # ps) w =
     (case flv_Write now p w of
        (Some e, _, w) \<Rightarrow> (Some e, w)
      | (None, _, w) \<Rightarrow> flv_Write_all ps w)"

section \<open>The tags in the file\<close>

text \<open>One FLV tag with the size field that follows it.\<close>

definition tag_bytes :: "u32 \<Rightarrow> u32 \<Rightarrow> bytes \<Rightarrow> bytes" where
  "tag_bytes typeID ts d =
     ucast typeID # be_bytes 3 (word_of_nat (length d) :: u32) @ be_bytes 3 ts @ [ucast (drop_bit 24 ts)] @ [0, 0, 0] @
     d @ be_bytes 4 (word_of_nat (length d + headerLen) :: u32)"

definition writer_ok :: "FlvWriter \<Rightarrow> bool" where
  "writer_ok w \<longleftrightarrow> length (fw_buf w) = headerLen \<and> drop 8 (fw_buf w) = [0, 0, 0] \<and> sk_cap (fw_ctx w) = None"

lemma be_bytes_3_low: "be_bytes 3 (ts AND 0xffffff :: u32) = be_bytes 3 ts"
proof -
  have m: "(0xffffff :: u32) = mask 24" by (simp add: mask_eq_exp_minus_1)
  have "ucast (drop_bit k (ts AND mask 24) :: u32) = (ucast (drop_bit k ts) :: byte)" if "k \<le> 16" for k
    using that by (auto intro!: bit_word_eqI simp: bit_simps)
  from this [of 16] this [of 8] this [of 0] show ?thesis unfolding m be_bytes_3 by simp
qed

lemma byte_high: "(ucast (drop_bit 24 ts AND 0xff :: u32) :: byte) = ucast (drop_bit 24 ts)"
proof -
  have m: "(0xff :: u32) = mask 8" by (simp add: mask_eq_exp_minus_1)
  show ?thesis unfolding m by (rule bit_word_eqI) (auto simp: bit_simps)
qed

lemma putTagHeader_eq:
  assumes "length h = headerLen" and "drop 8 h = [0, 0, 0]"
  shows "putTagHeader typeID n ts h =
     Inr (ucast typeID # be_bytes 3 (word_of_nat n :: u32) @ be_bytes 3 ts @ [ucast (drop_bit 24 ts)] @ [0, 0, 0])"
proof -
  let ?h1 = "[ucast typeID] @ drop 1 h"
  let ?h2 = "take 1 ?h1 @ be_bytes 3 (word_of_nat n :: u32) @ drop 4 ?h1"
  let ?h3 = "take 4 ?h2 @ be_bytes 3 ts @ drop 7 ?h2"
  have 1: "put_range PutU8 h 0 1 (ucast typeID) = Inr ?h1"
    using u8.put_range_eq [of 0 1 h "ucast typeID"] assms by simp
  have 2: "put_range PutI24BE ?h1 1 4 (word_of_nat n) = Inr ?h2"
    using i24.put_range_eq [of 1 4 ?h1 "word_of_nat n"] assms by simp
  have l2: "length ?h2 = headerLen" using assms by simp
  have 3: "put_range PutI24BE ?h2 4 7 (ts AND 0xffffff) = Inr ?h3"
    using i24.put_range_eq [of 4 7 ?h2 "ts AND 0xffffff"] l2 by (simp add: be_bytes_3_low)
  have l3: "length ?h3 = headerLen" using assms by simp
  have 4: "put_range PutU8 ?h3 7 8 (ucast (drop_bit 24 ts AND 0xff)) =
      Inr (take 7 ?h3 @ [ucast (drop_bit 24 ts)] @ drop 8 ?h3)"
    using u8.put_range_eq [of 7 8 ?h3 "ucast (drop_bit 24 ts AND 0xff)"] l3 by (simp add: byte_high)
  have "take 7 ?h3 = ucast typeID # be_bytes 3 (word_of_nat n :: u32) @ be_bytes 3 ts" "drop 8 ?h3 = [0, 0, 0]"
    using assms by simp_all
  with 1 2 3 4 show ?thesis by (simp only: putTagHeader_def bindR_simps) simp
qed


lemma RecTimestamp_base [simp]: "baseTimestamp (RecTimestamp ts k b) = baseTimestamp b"
  by (simp add: RecTimestamp_def)

lemma SetPreTime_base [simp]: "baseTimestamp (SetPreTime now b) = baseTimestamp b"
  by (simp add: SetPreTime_def)

lemma flv_Write_ok:
  assumes "writer_ok w" and "tagPayload p = Inr (ty, d)"
  shows "\<exists>w'. flv_Write now p w = (None, p\<lparr>pkt_Data := d\<rparr>, w') \<and> writer_ok w' \<and>
     sk_out (fw_ctx w') = sk_out (fw_ctx w) @ tag_bytes ty (TimeStamp p + BaseTimestamp (fw_base w)) d \<and>
     fw_base w' = RecTimestamp (TimeStamp p + BaseTimestamp (fw_base w)) ty (SetPreTime now (fw_base w))"
proof -
  let ?ts = "TimeStamp p + BaseTimestamp (fw_base w)"
  let ?h = "ucast ty # be_bytes 3 (word_of_nat (length d) :: u32) @ be_bytes 3 ?ts @ [ucast (drop_bit 24 ?ts)] @ [0, 0, 0]"
  have h: "putTagHeader ty (length d) ?ts (fw_buf w) = Inr ?h"
    using assms(1) by (intro putTagHeader_eq) (simp_all add: writer_ok_def)
  have "put_range PutI32BE ?h 0 4 (word_of_nat (length d + headerLen)) =
      Inr (be_bytes 4 (word_of_nat (length d + headerLen) :: u32) @ drop 4 ?h)"
    using i32.put_range_eq [of 0 4 ?h "word_of_nat (length d + headerLen)"] by simp
  with h assms show ?thesis
    by (simp add: flv_Write_def Let_def sink_Write_def writer_ok_def tag_bytes_def BaseTimestamp_def)
qed

definition packet_tag :: "u32 \<Rightarrow> packet \<Rightarrow> bytes" where
  "packet_tag base p = (case tagPayload p of Inr (ty, d) \<Rightarrow> tag_bytes ty (TimeStamp p + base) d | Inl _ \<Rightarrow> [])"

lemma flv_Write_all_ok:
  "writer_ok w \<Longrightarrow> list_all (\<lambda>(_, p). \<not> isl (tagPayload p)) ps \<Longrightarrow>
   \<exists>w'. flv_Write_all ps w = (None, w') \<and> writer_ok w' \<and>
     sk_out (fw_ctx w') = sk_out (fw_ctx w) @ concat (map (\<lambda>(_, p). packet_tag (BaseTimestamp (fw_base w)) p) ps)"
proof (induction ps arbitrary: w)
  case (Cons np ps)
  obtain now p where np: "np = (now, p)" by force
  then obtain ty d where d: "tagPayload p = Inr (ty, d)"
    using Cons.prems(2) by (cases "tagPayload p") auto
  obtain w1 where w1: "flv_Write now p w = (None, p\<lparr>pkt_Data := d\<rparr>, w1)" "writer_ok w1"
      "sk_out (fw_ctx w1) = sk_out (fw_ctx w) @ tag_bytes ty (TimeStamp p + BaseTimestamp (fw_base w)) d"
      "BaseTimestamp (fw_base w1) = BaseTimestamp (fw_base w)"
    using flv_Write_ok [OF Cons.prems(1) d, of now] by (auto simp: BaseTimestamp_def)
  show ?case
    using Cons.IH [OF w1(2)] Cons.prems(2) w1 np d by (auto simp: packet_tag_def)
qed simp

text \<open>
  C34: an FLV recording holds the FLV header and then one tag per packet, in order: the tag's type, its
  payload length, the timestamp split into 24 low and 8 high bits and shifted by the writer's base
  timestamp, a zero stream id, the payload, and the size of the tag for reading backwards. Metadata
  tags carry the payload without the \<^verbatim>\<open>@setDataFrame\<close> frame.
\<close>

theorem flv_file_is_tag_sequence:
  assumes "list_all (\<lambda>(_, p). \<not> isl (tagPayload p)) ps"
  shows "\<exists>w w'. NewWriter now uid app title url \<lparr>sk_out = [], sk_cap = None\<rparr> = Inr w \<and>
     flv_Write_all ps w = (None, w') \<and>
     sk_out (fw_ctx w') = flvHeader @ [0, 0, 0, 0] @ concat (map (\<lambda>(_, p). packet_tag 0 p) ps)"
proof -
  have "put_range PutI32BE (replicate headerLen 0) 0 4 0 = Inr (replicate headerLen 0)"
  proof -
    have z: "be_bytes 4 (0 :: u32) = [0, 0, 0, 0]" by (simp add: be_bytes_4)
    have "[0, 0, 0, 0] @ drop 4 (replicate headerLen 0) = (replicate headerLen 0 :: bytes)"
      by (simp add: numeral_eq_Suc)
    then show ?thesis using i32.put_range_eq [of 0 4 "replicate headerLen 0" 0] z by simp
  qed
  then obtain w where w: "NewWriter now uid app title url \<lparr>sk_out = [], sk_cap = None\<rparr> = Inr w"
      "writer_ok w" "sk_out (fw_ctx w) = flvHeader @ [0, 0, 0, 0]" "BaseTimestamp (fw_base w) = 0"
    by (simp add: NewWriter_def Let_def sink_Write_def writer_ok_def BaseTimestamp_def NewRWBase_def numeral_eq_Suc)
  from flv_Write_all_ok [OF w(2) assms] w show ?thesis by auto
qed

theorem flv_file_is_tag_sequence_witness:
  "\<exists>w w'. NewWriter 0 [] [] [] [] \<lparr>sk_out = [], sk_cap = None\<rparr> = Inr w \<and>
     flv_Write_all [(5, \<lparr>IsAudio = True, IsVideo = False, IsMetadata = False, TimeStamp = 0x01020304, pkt_StreamID = 1,
        Header = None, pkt_Data = [0xaf, 1, 9]\<rparr>)] w = (None, w') \<and>
     sk_out (fw_ctx w') = flvHeader @ [0, 0, 0, 0] @
       [8, 0, 0, 3, 2, 3, 4, 1, 0, 0, 0, 0xaf, 1, 9, 0, 0, 0, 14]"
proof -
  let ?p = "\<lparr>IsAudio = True, IsVideo = False, IsMetadata = False, TimeStamp = 0x01020304, pkt_StreamID = 1,
        Header = None, pkt_Data = [0xaf, 1, 9]\<rparr> :: packet"
  have ok: "list_all (\<lambda>(_, p). \<not> isl (tagPayload p)) [(5 :: int, ?p)]" by (simp add: tagPayload_def)
  have t: "packet_tag 0 ?p = [8, 0, 0, 3, 2, 3, 4, 1, 0, 0, 0, 0xaf, 1, 9, 0, 0, 0, 14]"
    by (simp add: packet_tag_def tagPayload_def tag_bytes_def be_bytes_unfold drop_bit_eq_div)
  show ?thesis
    using flv_file_is_tag_sequence [OF ok, of 0 "[]" "[]" "[]" "[]"] t by simp
qed

end
