(* ===== verification/RtmpCache.thy ===== *)
theory RtmpCache
  imports FlvTag
begin

text \<open>
  \<^verbatim>\<open>src/protocol/rtmp/cache\<close>: what a new player is sent before the live packets. The special
  caches hold the last metadata packet and the last sequence headers (\<^verbatim>\<open>special.go\<close>), the GOP
  cache the last groups of pictures (\<^verbatim>\<open>gop.go\<close>), and \<^verbatim>\<open>cache.go\<close> sorts packets into them.

  The writer a cache is sent to is an \<^verbatim>\<open>av.WriteCloser\<close>: its method \<^verbatim>\<open>Write\<close> is the argument
  \<open>wr\<close> and its state the argument \<open>w\<close>. The number of GOPs comes from the configuration.
\<close>

type_synonym 'w write_packet = "packet \<Rightarrow> 'w \<Rightarrow> go_error option \<times> 'w"

section \<open>special.go\<close>

text \<open>The cached packet, when the cache is full.\<close>

record SpecialCache =
  sc_full :: bool
  sc_p :: "packet option"

definition NewSpecialCache :: SpecialCache where
  "NewSpecialCache = \<lparr>sc_full = False, sc_p = None\<rparr>"

definition special_Write :: "packet \<Rightarrow> SpecialCache \<Rightarrow> SpecialCache" where
  "special_Write p c = c\<lparr>sc_p := Some p, sc_full := True\<rparr>"

text \<open>A full cache without a packet would pass nil to the writer; it does not occur.\<close>

definition special_Send :: "'w write_packet \<Rightarrow> SpecialCache \<Rightarrow> 'w \<Rightarrow> exn option \<times> 'w" where
  "special_Send wr c w =
     (if \<not> sc_full c then (None, w)
      else case sc_p c of
             None \<Rightarrow> (Some (Panic NilDereference), w)
           | Some p \<Rightarrow> (case wr p w of (e, w) \<Rightarrow> (map_option Err e, w)))"

section \<open>gop.go\<close>

abbreviation maxGOPCap :: nat where "maxGOPCap \<equiv> 1024"

record arr =
  arr_index :: nat
  arr_packets :: "packet list"

definition newArray :: arr where
  "newArray = \<lparr>arr_index = 0, arr_packets = []\<rparr>"

definition arr_reset :: "arr \<Rightarrow> arr" where
  "arr_reset a = a\<lparr>arr_index := 0, arr_packets := []\<rparr>"

definition arr_write :: "packet \<Rightarrow> arr \<Rightarrow> go_error option \<times> arr" where
  "arr_write p a =
     (if arr_index a \<ge> maxGOPCap then (Some (Errorf ''gop too big''), a)
      else (None, a\<lparr>arr_packets := arr_packets a @ [p], arr_index := arr_index a + 1\<rparr>))"

text \<open>Packets are sent one by one until the writer reports an error.\<close>

fun send_all :: "'w write_packet \<Rightarrow> packet list \<Rightarrow> 'w \<Rightarrow> exn option \<times> 'w" where
  "send_all wr [] w = (None, w)"
| "send_all wr (p # ps) w =
     (case wr p w of (Some e, w) \<Rightarrow> (Some (Err e), w) | (None, w) \<Rightarrow> send_all wr ps w)"

definition arr_send :: "'w write_packet \<Rightarrow> arr \<Rightarrow> 'w \<Rightarrow> exn option \<times> 'w" where
  "arr_send wr a w =
     (if arr_index a \<le> length (arr_packets a) then send_all wr (take (arr_index a) (arr_packets a)) w
      else case send_all wr (arr_packets a) w of
             (Some e, w) \<Rightarrow> (Some e, w)
           | (None, w) \<Rightarrow> (Some (Panic IndexOutOfRange), w))"

record GopCache =
  gc_start :: bool
  gc_num :: nat
  gc_count :: nat
  gc_nextindex :: nat
  gc_gops :: "arr option list"

definition NewGopCache :: "nat \<Rightarrow> GopCache" where
  "NewGopCache num = \<lparr>gc_start = False, gc_num = 0, gc_count = num, gc_nextindex = 0,
     gc_gops = replicate num None\<rparr>"

text \<open>\<^verbatim>\<open>ginc.write(chunk)\<close> on the array at index \<open>i\<close>: a nil array panics, the error is discarded.\<close>

definition writeAt :: "packet \<Rightarrow> nat \<Rightarrow> GopCache \<Rightarrow> GopCache res" where
  "writeAt chunk i gc =
     bindR (index_at (gc_gops gc) i) (\<lambda>g. case g of
       None \<Rightarrow> Inl (Panic NilDereference)
     | Some a \<Rightarrow> Inr (gc\<lparr>gc_gops := (gc_gops gc)[i := Some (snd (arr_write chunk a))]\<rparr>))"

definition writeToArray :: "packet \<Rightarrow> bool \<Rightarrow> GopCache \<Rightarrow> GopCache res" where
  "writeToArray chunk startNew gc =
     (if startNew then
        bindR (index_at (gc_gops gc) (gc_nextindex gc)) (\<lambda>g.
          let i = gc_nextindex gc;
              gc = (case g of
                      None \<Rightarrow> gc\<lparr>gc_num := gc_num gc + 1, gc_gops := (gc_gops gc)[i := Some newArray]\<rparr>
                    | Some a \<Rightarrow> gc\<lparr>gc_gops := (gc_gops gc)[i := Some (arr_reset a)]\<rparr>)
          in if gc_count gc = 0 then Inl (Panic DivideByZero)
             else writeAt chunk i (gc\<lparr>gc_nextindex := (i + 1) mod gc_count gc\<rparr>))
      else if gc_count gc = 0 then Inl (Panic DivideByZero)
      else writeAt chunk ((gc_nextindex gc + 1) mod gc_count gc) gc)"

text \<open>\<^verbatim>\<open>p.Header.(av.VideoPacketHeader)\<close> panics on a nil header.\<close>

definition gop_Write :: "packet \<Rightarrow> GopCache \<Rightarrow> GopCache res" where
  "gop_Write p gc =
     bindR (if IsVideo p
            then (case Header p of
                    None \<Rightarrow> Inl (Panic TypeAssertion)
                  | Some vh \<Rightarrow> Inr (IsKeyFrame vh \<and> \<not> IsSeq vh))
            else Inr False) (\<lambda>ok.
       if ok \<or> gc_start gc then writeToArray p ok (gc\<lparr>gc_start := True\<rparr>) else Inr gc)"

text \<open>The loop of \<^verbatim>\<open>sendTo\<close> over the indices.\<close>

fun sendTo_loop :: "'w write_packet \<Rightarrow> nat \<Rightarrow> nat list \<Rightarrow> GopCache \<Rightarrow> 'w \<Rightarrow> exn option \<times> 'w" where
  "sendTo_loop wr pos [] gc w = (None, w)"
| "sendTo_loop wr pos (i # is) gc w =
     (let index = (int pos - int (gc_num gc) + 1) + int i;
          index = (if index < 0 then index + int (gc_count gc) else index)
      in if index < 0 then (Some (Panic IndexOutOfRange), w)
         else case index_at (gc_gops gc) (nat index) of
                Inl e \<Rightarrow> (Some e, w)
              | Inr None \<Rightarrow> (Some (Panic NilDereference), w)
              | Inr (Some g) \<Rightarrow>
                  (case arr_send wr g w of
                     (Some e, w) \<Rightarrow> (Some e, w)
                   | (None, w) \<Rightarrow> sendTo_loop wr pos is gc w))"

definition sendTo :: "'w write_packet \<Rightarrow> GopCache \<Rightarrow> 'w \<Rightarrow> exn option \<times> 'w" where
  "sendTo wr gc w =
     (if gc_count gc = 0 then (Some (Panic DivideByZero), w)
      else sendTo_loop wr ((gc_nextindex gc + 1) mod gc_count gc) [0..<gc_num gc] gc w)"

definition gop_Send :: "'w write_packet \<Rightarrow> GopCache \<Rightarrow> 'w \<Rightarrow> exn option \<times> 'w" where
  "gop_Send wr gc w = sendTo wr gc w"

section \<open>cache.go\<close>

record Cache =
  ca_gop :: GopCache
  ca_videoSeq :: SpecialCache
  ca_audioSeq :: SpecialCache
  ca_metadata :: SpecialCache

definition NewCache :: "nat \<Rightarrow> Cache" where
  "NewCache gop_num = \<lparr>ca_gop = NewGopCache gop_num, ca_videoSeq = NewSpecialCache,
     ca_audioSeq = NewSpecialCache, ca_metadata = NewSpecialCache\<rparr>"

text \<open>
  A header is a \<^verbatim>\<open>*flv.Tag\<close>, which implements both header interfaces: the type assertions
  succeed for every header but nil.
\<close>

definition cache_Write :: "packet \<Rightarrow> Cache \<Rightarrow> Cache res" where
  "cache_Write p c =
     (if IsMetadata p then Inr (c\<lparr>ca_metadata := special_Write p (ca_metadata c)\<rparr>)
      else case Header p of
             Some h \<Rightarrow>
               if \<not> IsVideo p
               then Inr (if SoundFormat h = SoundAAC \<and> AACPacketType h = AACSeqHeader
                         then c\<lparr>ca_audioSeq := special_Write p (ca_audioSeq c)\<rparr> else c)
               else Inr (if IsSeq h then c\<lparr>ca_videoSeq := special_Write p (ca_videoSeq c)\<rparr> else c)
           | None \<Rightarrow> bindR (gop_Write p (ca_gop c)) (\<lambda>g. Inr (c\<lparr>ca_gop := g\<rparr>)))"

definition cache_Send :: "'w write_packet \<Rightarrow> Cache \<Rightarrow> 'w \<Rightarrow> exn option \<times> 'w" where
  "cache_Send wr c w =
     (case special_Send wr (ca_metadata c) w of
        (Some e, w) \<Rightarrow> (Some e, w)
      | (None, w) \<Rightarrow>
          (case special_Send wr (ca_videoSeq c) w of
             (Some e, w) \<Rightarrow> (Some e, w)
           | (None, w) \<Rightarrow>
               (case special_Send wr (ca_audioSeq c) w of
                  (Some e, w) \<Rightarrow> (Some e, w)
                | (None, w) \<Rightarrow> gop_Send wr (ca_gop c) w)))"

section \<open>The GOP cache keeps the last groups\<close>

text \<open>
  The specification: a key frame (not a sequence header) starts a group, other packets join the
  last group up to its capacity, packets before the first key frame are dropped, and only the last
  \<open>n\<close> groups are kept.
\<close>

definition starts_gop :: "packet \<Rightarrow> bool" where
  "starts_gop p \<longleftrightarrow> IsVideo p \<and> (case Header p of Some h \<Rightarrow> IsKeyFrame h \<and> \<not> IsSeq h | None \<Rightarrow> False)"

definition spec_write :: "nat \<Rightarrow> packet list list \<Rightarrow> packet \<Rightarrow> packet list list" where
  "spec_write n gs p =
     (if starts_gop p then (if length gs < n then gs @ [[p]] else tl gs @ [[p]])
      else if gs = [] then []
      else butlast gs @ [if length (last gs) < maxGOPCap then last gs @ [p] else last gs])"

text \<open>The groups of a cache of one or two, oldest first.\<close>

definition arr_ok :: "arr option \<Rightarrow> packet list \<Rightarrow> bool" where
  "arr_ok g ps \<longleftrightarrow> (\<exists>a. g = Some a \<and> arr_packets a = ps \<and> arr_index a = length ps)"

definition gop_rep :: "GopCache \<Rightarrow> packet list list \<Rightarrow> bool" where
  "gop_rep gc gs \<longleftrightarrow>
     gc_num gc = length gs \<and> (gc_start gc \<longleftrightarrow> gs \<noteq> []) \<and>
     (case gs of
        [] \<Rightarrow> gc_nextindex gc = 0 \<and> (gc_count gc = 1 \<and> gc_gops gc = [None] \<or> gc_count gc = 2 \<and> gc_gops gc = [None, None])
      | [g] \<Rightarrow> gc_count gc = 1 \<and> gc_nextindex gc = 0 \<and> (\<exists>a. gc_gops gc = [a] \<and> arr_ok a g) \<or>
               gc_count gc = 2 \<and> gc_nextindex gc = 1 \<and> (\<exists>a. gc_gops gc = [a, None] \<and> arr_ok a g)
      | [g, h] \<Rightarrow> gc_count gc = 2 \<and>
               (gc_nextindex gc = 0 \<and> (\<exists>a b. gc_gops gc = [a, b] \<and> arr_ok a g \<and> arr_ok b h) \<or>
                gc_nextindex gc = 1 \<and> (\<exists>a b. gc_gops gc = [b, a] \<and> arr_ok a g \<and> arr_ok b h))
      | _ \<Rightarrow> False)"

lemma arr_write_ok: "arr_ok (Some a) ps \<Longrightarrow>
    arr_ok (Some (snd (arr_write p a))) (if length ps < maxGOPCap then ps @ [p] else ps)"
  by (auto simp: arr_ok_def arr_write_def)

lemma arr_write_new: "arr_ok (Some (snd (arr_write p newArray))) [p]" "arr_ok (Some (snd (arr_write p (arr_reset a)))) [p]"
  by (simp_all add: arr_ok_def arr_write_def newArray_def arr_reset_def)

lemma gop_rep_cases:
  assumes "gop_rep gc gs"
  obtains "gs = []" | g where "gs = [g]" | g h where "gs = [g, h]"
  using assms by (auto simp: gop_rep_def split: list.splits)

lemma gop_Write_refines:
  assumes rep: "gop_rep gc gs" and hdr: "IsVideo p \<longrightarrow> Header p \<noteq> None"
  shows "\<exists>gc'. gop_Write p gc = Inr gc' \<and> gop_rep gc' (spec_write (gc_count gc) gs p) \<and> gc_count gc' = gc_count gc"
proof -
  have s: "gop_Write p gc = (if starts_gop p \<or> gc_start gc then writeToArray p (starts_gop p) (gc\<lparr>gc_start := True\<rparr>) else Inr gc)"
    using hdr by (auto simp: gop_Write_def starts_gop_def split: option.splits)
  note defs = writeToArray_def writeAt_def index_at_def Let_def gop_rep_def spec_write_def
  show ?thesis
  proof (cases rule: gop_rep_cases [OF rep])
    case 1
    show ?thesis
    proof (cases "starts_gop p")
      case True
      have "gc_count gc = 1 \<or> gc_count gc = 2" using rep 1 by (auto simp: gop_rep_def)
      then show ?thesis
        using True rep 1 arr_write_new(1) [of p] unfolding s by (auto simp: defs)
    qed (use rep 1 in \<open>auto simp: s defs\<close>)
  next
    case (2 g)
    then obtain a where a: "arr_ok (Some a) g" and
      c: "gc_count gc = 1 \<and> gc_nextindex gc = 0 \<and> gc_gops gc = [Some a] \<or>
          gc_count gc = 2 \<and> gc_nextindex gc = 1 \<and> gc_gops gc = [Some a, None]"
      using rep by (auto simp: gop_rep_def arr_ok_def)
    show ?thesis
      using c 2 rep a arr_write_ok [OF a, of p] arr_write_new(1) [of p] arr_write_new(2) [of p a] unfolding s
      by (cases "starts_gop p") (auto simp: defs)
  next
    case (3 g h)
    then obtain a b where ab: "arr_ok (Some a) g" "arr_ok (Some b) h" and
      c: "gc_count gc = 2" "gc_nextindex gc = 0 \<and> gc_gops gc = [Some a, Some b] \<or>
          gc_nextindex gc = 1 \<and> gc_gops gc = [Some b, Some a]"
      using rep by (auto simp: gop_rep_def arr_ok_def)
    show ?thesis
      using c 3 rep ab arr_write_ok [OF ab(2), of p] arr_write_new(2) [of p a] unfolding s
      by (cases "starts_gop p") (auto simp: defs)
  qed
qed

lemma send_all_append:
  "send_all wr (ps @ qs) w = (case send_all wr ps w of (Some e, w) \<Rightarrow> (Some e, w) | (None, w) \<Rightarrow> send_all wr qs w)"
  by (induction ps arbitrary: w) (auto split: prod.splits option.splits)

lemma arr_send_ok: "arr_ok (Some a) ps \<Longrightarrow> arr_send wr a w = send_all wr ps w"
  by (auto simp: arr_ok_def arr_send_def)

lemma gop_Send_rep:
  assumes "gop_rep gc gs"
  shows "gop_Send wr gc w = send_all wr (concat gs) w"
proof (cases rule: gop_rep_cases [OF assms])
  case 1
  with assms show ?thesis by (auto simp: gop_Send_def sendTo_def gop_rep_def)
next
  case (2 g)
  then obtain a where a: "arr_ok (Some a) g" and n: "gc_num gc = 1" and
    c: "gc_count gc = 1 \<and> gc_nextindex gc = 0 \<and> gc_gops gc = [Some a] \<or>
        gc_count gc = 2 \<and> gc_nextindex gc = 1 \<and> gc_gops gc = [Some a, None]"
    using assms by (auto simp: gop_rep_def arr_ok_def)
  show ?thesis
    using c n 2 arr_send_ok [OF a, of wr w]
    by (auto simp: gop_Send_def sendTo_def index_at_def split: prod.splits option.splits)
next
  case (3 g h)
  then obtain a b where ab: "arr_ok (Some a) g" "arr_ok (Some b) h" and n: "gc_num gc = 2" and
    c: "gc_count gc = 2" "gc_nextindex gc = 0 \<and> gc_gops gc = [Some a, Some b] \<or>
        gc_nextindex gc = 1 \<and> gc_gops gc = [Some b, Some a]"
    using assms by (auto simp: gop_rep_def arr_ok_def)
  have u: "[0..<2] = [0, 1 :: nat]" by (simp add: upt_rec)
  show ?thesis
    using c n 3 arr_send_ok [OF ab(1), of wr] arr_send_ok [OF ab(2), of wr]
    by (auto simp: gop_Send_def sendTo_def index_at_def u send_all_append split: prod.splits option.splits)
qed

fun gop_Write_all :: "packet list \<Rightarrow> GopCache \<Rightarrow> GopCache res" where
  "gop_Write_all [] gc = Inr gc"
| "gop_Write_all (p # ps) gc = bindR (gop_Write p gc) (gop_Write_all ps)"

lemma gop_Write_all_refines:
  "gop_rep gc gs \<Longrightarrow> list_all (\<lambda>p. IsVideo p \<longrightarrow> Header p \<noteq> None) ps \<Longrightarrow>
   \<exists>gc'. gop_Write_all ps gc = Inr gc' \<and> gop_rep gc' (foldl (spec_write (gc_count gc)) gs ps) \<and>
     gc_count gc' = gc_count gc"
proof (induction ps arbitrary: gc gs)
  case (Cons p ps)
  then obtain gc1 where g: "gop_Write p gc = Inr gc1" "gop_rep gc1 (spec_write (gc_count gc) gs p)"
      "gc_count gc1 = gc_count gc"
    using gop_Write_refines [of gc gs p] by auto
  from Cons.IH [OF g(2)] Cons.prems(2) g show ?case by auto
qed simp

text \<open>
  C31: a GOP cache of one or two groups refines its specification: after any sequence of packets (each
  video packet with its header), no call has panicked and \<^verbatim>\<open>Send\<close> passes to the writer exactly the
  packets of the last groups, oldest group first, each group from its key frame on and cut at 1024
  packets, stopping at the writer's first error.
\<close>

theorem gop_cache_refines:
  assumes "n = 1 \<or> n = 2" and "list_all (\<lambda>p. IsVideo p \<longrightarrow> Header p \<noteq> None) ps"
  shows "\<exists>gc. gop_Write_all ps (NewGopCache n) = Inr gc \<and>
     gop_Send wr gc w = send_all wr (concat (foldl (spec_write n) [] ps)) w"
proof -
  have "gop_rep (NewGopCache n) []"
    using assms(1) by (auto simp: gop_rep_def NewGopCache_def numeral_2_eq_2)
  moreover have "gc_count (NewGopCache n) = n" by (simp add: NewGopCache_def)
  ultimately show ?thesis
    using gop_Write_all_refines [OF _ assms(2)] gop_Send_rep by metis
qed


definition key_packet :: packet where
  "key_packet = \<lparr>IsAudio = False, IsVideo = True, IsMetadata = False, TimeStamp = 0, pkt_StreamID = 1,
     Header = Some (zeroTag\<lparr>mediat := (mediat zeroTag)\<lparr>frameType := 1, codecID := 7, avcPacketType := 1\<rparr>\<rparr>),
     pkt_Data = [0x17, 1, 0, 0, 0]\<rparr>"

definition inter_packet :: packet where
  "inter_packet = key_packet\<lparr>Header := Some (zeroTag\<lparr>mediat := (mediat zeroTag)\<lparr>frameType := 2, codecID := 7,
     avcPacketType := 1\<rparr>\<rparr>), pkt_Data := [0x27, 1, 0, 0, 0]\<rparr>"

lemma sample_packets [simp]:
  "starts_gop key_packet" "\<not> starts_gop inter_packet" "Header key_packet \<noteq> None" "Header inter_packet \<noteq> None"
  by (simp_all add: starts_gop_def key_packet_def inter_packet_def IsKeyFrame_def IsSeq_def zeroTag_def)

theorem gop_cache_refines_witness:
  "\<exists>gc. gop_Write_all [inter_packet, key_packet, inter_packet, key_packet, key_packet, inter_packet] (NewGopCache 2) = Inr gc \<and>
     gop_Send (\<lambda>p w. (None, w @ [p])) gc [] = (None, [key_packet, key_packet, inter_packet])"
proof -
  let ?ps = "[inter_packet, key_packet, inter_packet, key_packet, key_packet, inter_packet]"
  have "list_all (\<lambda>p. IsVideo p \<longrightarrow> Header p \<noteq> None) ?ps" by (simp add: key_packet_def inter_packet_def)
  from gop_cache_refines [OF disjI2 [OF refl] this, of "\<lambda>p w. (None, w @ [p])" "[]"] show ?thesis
    by (simp add: spec_write_def)
qed

text \<open>
  With three or more groups configured the GOP cache is broken: the packet after the first key frame
  is written to a slot that was never filled, which is a nil dereference.
\<close>

theorem gop_cache_three_panics:
  assumes "3 \<le> n" and "starts_gop k" and "\<not> starts_gop p" and "IsVideo p \<longrightarrow> Header p \<noteq> None"
  shows "gop_Write_all [k, p] (NewGopCache n) = Inl (Panic NilDereference)"
proof -
  have m: "1 mod n = 1" "2 mod n = 2" using assms(1) by simp_all
  have k: "gop_Write k gc = writeToArray k True (gc\<lparr>gc_start := True\<rparr>)" for gc
    using assms(2) by (auto simp: gop_Write_def starts_gop_def split: option.splits)
  have p: "gop_Write p gc = writeToArray p False (gc\<lparr>gc_start := True\<rparr>)" if "gc_start gc" for gc
    using assms(3,4) that by (auto simp: gop_Write_def starts_gop_def split: option.splits)
  show ?thesis
    using assms(1) m by (simp add: k p writeToArray_def writeAt_def index_at_def NewGopCache_def Let_def numeral_2_eq_2)
qed

theorem gop_cache_three_panics_witness:
  "gop_Write_all [key_packet, inter_packet] (NewGopCache 3) = Inl (Panic NilDereference)"
  by (rule gop_cache_three_panics) simp_all

section \<open>What a new player is sent\<close>

definition is_videoSeq :: "packet \<Rightarrow> bool" where
  "is_videoSeq p \<longleftrightarrow> \<not> IsMetadata p \<and> IsVideo p \<and> (case Header p of Some h \<Rightarrow> IsSeq h | None \<Rightarrow> False)"

definition is_audioSeq :: "packet \<Rightarrow> bool" where
  "is_audioSeq p \<longleftrightarrow> \<not> IsMetadata p \<and> \<not> IsVideo p \<and>
     (case Header p of Some h \<Rightarrow> SoundFormat h = SoundAAC \<and> AACPacketType h = AACSeqHeader | None \<Rightarrow> False)"

definition last_of :: "(packet \<Rightarrow> bool) \<Rightarrow> packet list \<Rightarrow> packet list" where
  "last_of P ps = (if filter P ps = [] then [] else [last (filter P ps)])"

fun cache_Write_all :: "packet list \<Rightarrow> Cache \<Rightarrow> Cache res" where
  "cache_Write_all [] c = Inr c"
| "cache_Write_all (p # ps) c = bindR (cache_Write p c) (cache_Write_all ps)"

definition holds_last :: "SpecialCache \<Rightarrow> packet list \<Rightarrow> bool" where
  "holds_last c ps \<longleftrightarrow> (case ps of [] \<Rightarrow> \<not> sc_full c | p # _ \<Rightarrow> sc_full c \<and> sc_p c = Some p \<and> ps = [p])"

lemma last_of_snoc: "last_of P (ps @ [p]) = (if P p then [p] else last_of P ps)"
  by (simp add: last_of_def)

lemma special_Send_holds: "holds_last c ps \<Longrightarrow> special_Send wr c w = send_all wr ps w"
  by (cases ps) (auto simp: holds_last_def special_Send_def split: prod.splits option.splits)

lemma cache_Write_all_append:
  "cache_Write_all (ps @ qs) c = bindR (cache_Write_all ps c) (cache_Write_all qs)"
  by (induction ps arbitrary: c) (auto simp: bindR_def split: sum.splits)

lemma cache_Write_all_state:
  "list_all (\<lambda>p. IsMetadata p \<or> Header p \<noteq> None) ps \<Longrightarrow>
   \<exists>c. cache_Write_all ps (NewCache n) = Inr c \<and> ca_gop c = NewGopCache n \<and>
     holds_last (ca_metadata c) (last_of IsMetadata ps) \<and> holds_last (ca_videoSeq c) (last_of is_videoSeq ps) \<and>
     holds_last (ca_audioSeq c) (last_of is_audioSeq ps)"
proof (induction ps rule: rev_induct)
  case Nil
  then show ?case by (simp add: NewCache_def holds_last_def last_of_def NewSpecialCache_def)
next
  case (snoc p ps)
  then obtain c where c: "cache_Write_all ps (NewCache n) = Inr c" "ca_gop c = NewGopCache n"
      "holds_last (ca_metadata c) (last_of IsMetadata ps)" "holds_last (ca_videoSeq c) (last_of is_videoSeq ps)"
      "holds_last (ca_audioSeq c) (last_of is_audioSeq ps)" and p: "IsMetadata p \<or> Header p \<noteq> None"
    by auto
  have h: "holds_last (special_Write p s) [p]" for s by (simp add: holds_last_def special_Write_def)
  have all: "cache_Write_all (ps @ [p]) (NewCache n) = cache_Write p c"
    using c(1) by (cases "cache_Write p c") (simp_all add: cache_Write_all_append)
  show ?case
  proof (cases "IsMetadata p")
    case True
    then show ?thesis unfolding all last_of_snoc cache_Write_def using c h by (simp add: is_videoSeq_def is_audioSeq_def)
  next
    case False
    with p obtain t where "Header p = Some t" by auto
    with False show ?thesis
      unfolding all last_of_snoc cache_Write_def using c h by (simp add: is_videoSeq_def is_audioSeq_def)
  qed
qed

definition headers :: "packet list \<Rightarrow> packet list" where
  "headers ps = last_of IsMetadata ps @ last_of is_videoSeq ps @ last_of is_audioSeq ps"

lemma cache_Send_headers:
  assumes "list_all (\<lambda>p. IsMetadata p \<or> Header p \<noteq> None) ps" and "0 < n"
  shows "\<exists>c. cache_Write_all ps (NewCache n) = Inr c \<and> (\<forall>w. cache_Send wr c w = send_all wr (headers ps) w)"
proof -
  obtain c where c: "cache_Write_all ps (NewCache n) = Inr c" "ca_gop c = NewGopCache n"
      "holds_last (ca_metadata c) (last_of IsMetadata ps)" "holds_last (ca_videoSeq c) (last_of is_videoSeq ps)"
      "holds_last (ca_audioSeq c) (last_of is_audioSeq ps)"
    using cache_Write_all_state [OF assms(1)] by blast
  have g: "gop_Send wr (NewGopCache n) w = (None, w)" for w
    using assms(2) by (simp add: gop_Send_def sendTo_def NewGopCache_def)
  show ?thesis
    using c g special_Send_holds [OF c(3), of wr] special_Send_holds [OF c(4), of wr] special_Send_holds [OF c(5), of wr]
    by (auto simp: cache_Send_def headers_def send_all_append split: prod.splits option.splits)
qed

text \<open>
  After any sequence of demuxed packets, a new player is sent the last metadata packet, the last
  video sequence header and the last AAC sequence header, in this order and each only if there was
  one, and nothing else: no packet ever reaches the GOP cache, whatever number of groups is
  configured.
\<close>

theorem cache_sends_headers_only:
  assumes "list_all (\<lambda>p. IsMetadata p \<or> Header p \<noteq> None) ps" and "0 < n"
  shows "\<exists>c. cache_Write_all ps (NewCache n) = Inr c \<and>
     cache_Send wr c w =
       send_all wr (last_of IsMetadata ps @ last_of is_videoSeq ps @ last_of is_audioSeq ps) w"
  using cache_Send_headers [OF assms, of wr] by (auto simp: headers_def)

theorem cache_sends_headers_only_witness:
  "\<exists>c. cache_Write_all [key_packet, inter_packet, key_packet] (NewCache 1) = Inr c \<and>
     cache_Send (\<lambda>p w. (None, w @ [p])) c [] = (None, [])"
proof -
  have "list_all (\<lambda>p. IsMetadata p \<or> Header p \<noteq> None) [key_packet, inter_packet, key_packet]"
    by (simp add: key_packet_def inter_packet_def)
  from cache_sends_headers_only [OF this zero_less_one, of "\<lambda>p w. (None, w @ [p])" "[]"] show ?thesis
    by (simp add: last_of_def is_videoSeq_def is_audioSeq_def key_packet_def inter_packet_def IsSeq_def zeroTag_def)
qed

end
