(* ===== verification/Codecs.thy ===== *)
theory Codecs
  imports FlvTag
begin

text \<open>
  \<^verbatim>\<open>src/parser\<close>: the codec parsers that turn the payload of a packet into the elementary stream of an
  MPEG transport stream. H.264 (\<^verbatim>\<open>h264/parser.go\<close>) goes from length-prefixed NAL units to the Annex B
  byte stream, AAC (\<^verbatim>\<open>aac/parser.go\<close>) gets an ADTS header, MP3 (\<^verbatim>\<open>mp3/parser.go\<close>) is only read for its
  sampling rate; \<^verbatim>\<open>parser.go\<close> chooses by the header of the packet.

  The lemmas show that the Annex B stream is the one its specification describes, for any sequence of
  NAL units, that anything else is rejected without a panic, and that the ADTS header has the layout of
  ISO/IEC 13818-7.
\<close>

unbundle bit_operations_syntax

declare be_bytes.simps [simp del]

section \<open>h264/parser.go\<close>

abbreviation naluTypeSlice :: byte where "naluTypeSlice \<equiv> 1"
abbreviation naluTypeIdr :: byte where "naluTypeIdr \<equiv> 5"
abbreviation naluTypeSei :: byte where "naluTypeSei \<equiv> 6"
abbreviation naluTypeSps :: byte where "naluTypeSps \<equiv> 7"
abbreviation naluTypePps :: byte where "naluTypePps \<equiv> 8"
abbreviation naluTypeAud :: byte where "naluTypeAud \<equiv> 9"
abbreviation naluBytesLen :: nat where "naluBytesLen \<equiv> 4"
abbreviation maxSpsPpsLen :: nat where "maxSpsPpsLen \<equiv> 2 * 1024"

abbreviation ErrDecDataNil :: exn where "ErrDecDataNil \<equiv> Err (Errorf ''dec buf is nil'')"
abbreviation ErrSpsData :: exn where "ErrSpsData \<equiv> Err (Errorf ''sps data error'')"
abbreviation ErrPpsHeader :: exn where "ErrPpsHeader \<equiv> Err (Errorf ''pps header error'')"
abbreviation ErrPpsData :: exn where "ErrPpsData \<equiv> Err (Errorf ''pps data error'')"
abbreviation ErrInvalidVideoData :: exn where "ErrInvalidVideoData \<equiv> Err (Errorf ''invalid video data'')"
abbreviation ErrDataSizeNotMatch :: exn where "ErrDataSizeNotMatch \<equiv> Err (Errorf ''data size not match'')"
abbreviation ErrNaluBodyLen :: exn where "ErrNaluBodyLen \<equiv> Err (Errorf ''nalu body len error'')"

definition startCode :: bytes where
  "startCode = [0x00, 0x00, 0x00, 0x01]"

definition naluAud :: bytes where
  "naluAud = [0x00, 0x00, 0x00, 0x01, 0x09, 0xf0]"

record h264_Parser =
  h264_frameType :: byte
  h264_specificInfo :: bytes
  h264_pps :: bytes

definition h264_NewParser :: h264_Parser where
  "h264_NewParser = \<lparr>h264_frameType = 0, h264_specificInfo = [], h264_pps = replicate maxSpsPpsLen 0\<rparr>"

text \<open>
  \<^verbatim>\<open>parseSpecificInfo\<close>: of the fields of the sequence header only the two lengths are used
  again. Everything after the length of the first PPS is appended.
\<close>

definition parseSpecificInfo :: "bytes \<Rightarrow> h264_Parser \<Rightarrow> h264_Parser res" where
  "parseSpecificInfo src parser =
     (if length src < 9 then Inl ErrDecDataNil
      else let spsLen = push_bit 8 (unat (src ! 6)) OR unat (src ! 7)
      in if length (drop 8 src) < spsLen \<or> spsLen \<le> 0 then Inl ErrSpsData
      else let sps = startCode @ take spsLen (drop 8 src);
               tmpBuf = drop (8 + spsLen) src
      in if length tmpBuf < 4 then Inl ErrPpsHeader
      else let ppsLen = push_bit 8 (unat (tmpBuf ! 1)) OR unat (tmpBuf ! 2)
      in if length (drop 3 tmpBuf) < ppsLen \<or> ppsLen \<le> 0 then Inl ErrPpsData
      else let pps = startCode @ drop 3 tmpBuf
      in Inr (parser\<lparr>h264_specificInfo := h264_specificInfo parser @ sps @ pps\<rparr>))"

definition isNaluHeader :: "bytes \<Rightarrow> bool" where
  "isNaluHeader src \<longleftrightarrow>
     \<not> length src < naluBytesLen \<and> src ! 0 = 0x00 \<and> src ! 1 = 0x00 \<and> src ! 2 = 0x00 \<and> src ! 3 = 0x01"

definition naluSize :: "bytes \<Rightarrow> nat res" where
  "naluSize src =
     (if length src < naluBytesLen then Inl (Err (Errorf ''nalusizedata invalid''))
      else Inr (foldl (\<lambda>n b. push_bit 8 n + unat b) 0 (take naluBytesLen src)))"

text \<open>
  One NAL unit of \<^verbatim>\<open>getAnnexbH264\<close> (the switch on its type): slices and supplemental information are
  written behind a start code, the first IDR slice behind the parameter sets, and parameter sets are
  kept in the buffer \<^verbatim>\<open>pps\<close>.
\<close>

definition annexb_nalu ::
    "bytes \<Rightarrow> bool \<times> bool \<Rightarrow> h264_Parser \<Rightarrow> sink \<Rightarrow> go_error option \<times> (bool \<times> bool) \<times> h264_Parser \<times> sink" where
  "annexb_nalu nal flags parser w =
     (case flags of (hasSpsPps, hasWriteSpsPps) \<Rightarrow>
      let nalType = nal ! 0 AND 0x1f
      in if nalType = naluTypeAud then (None, flags, parser, w)
         else if nalType = naluTypeIdr then
           (case (if \<not> hasWriteSpsPps
                  then sink_Write (if \<not> hasSpsPps then h264_specificInfo parser else h264_pps parser) w
                  else (None, w)) of
              (Some e, w) \<Rightarrow> (Some e, (hasSpsPps, True), parser, w)
            | (None, w) \<Rightarrow>
                (case sink_Writes [startCode, nal] w of (e, w) \<Rightarrow> (e, (hasSpsPps, True), parser, w)))
         else if nalType = naluTypeSlice \<or> nalType = naluTypeSei then
           (case sink_Writes [startCode, nal] w of (e, w) \<Rightarrow> (e, flags, parser, w))
         else if nalType = naluTypeSps \<or> nalType = naluTypePps then
           (None, (True, hasWriteSpsPps), parser\<lparr>h264_pps := h264_pps parser @ startCode @ nal\<rparr>, w)
         else (None, flags, parser, w))"

text \<open>The loop of \<^verbatim>\<open>getAnnexbH264\<close> on its variables \<^verbatim>\<open>index\<close> and \<^verbatim>\<open>dataSize\<close> (here \<open>dataLeft\<close>).\<close>

function annexb_loop ::
    "bytes \<Rightarrow> nat \<Rightarrow> int \<Rightarrow> bool \<times> bool \<Rightarrow> h264_Parser \<Rightarrow> sink \<Rightarrow> exn option \<times> h264_Parser \<times> sink" where
  "annexb_loop src index dataLeft flags parser w =
     (if dataLeft \<le> 0 then (None, parser, w)
      else case bindR (slice src index (length src)) naluSize of
        Inl (Err _) \<Rightarrow> (Some ErrDataSizeNotMatch, parser, w)
      | Inl e \<Rightarrow> (Some e, parser, w)
      | Inr nalLen \<Rightarrow>
          let index = index + naluBytesLen; dataLeft = dataLeft - int naluBytesLen
          in if int nalLen \<le> dataLeft \<and> nalLen \<le> length (drop index src) \<and> nalLen > 0
             then (case annexb_nalu (take nalLen (drop index src)) flags parser w of
                     (Some e, flags, parser, w) \<Rightarrow> (Some (Err e), parser, w)
                   | (None, flags, parser, w) \<Rightarrow>
                       annexb_loop src (index + nalLen) (dataLeft - int nalLen) flags parser w)
             else (Some ErrNaluBodyLen, parser, w))"
  by pat_completeness auto
termination
  by (relation "measure (\<lambda>(_, _, dataLeft, _). nat dataLeft)") auto

declare annexb_loop.simps [simp del]

definition getAnnexbH264 :: "bytes \<Rightarrow> h264_Parser \<Rightarrow> sink \<Rightarrow> exn option \<times> h264_Parser \<times> sink" where
  "getAnnexbH264 src parser w =
     (if length src < naluBytesLen then (Some ErrInvalidVideoData, parser, w)
      else let parser = parser\<lparr>h264_pps := []\<rparr>
           in case sink_Write naluAud w of
                (Some e, w) \<Rightarrow> (Some (Err e), parser, w)
              | (None, w) \<Rightarrow> annexb_loop src 0 (int (length src)) (False, False) parser w)"

definition h264_Parse :: "bytes \<Rightarrow> bool \<Rightarrow> h264_Parser \<Rightarrow> sink \<Rightarrow> exn option \<times> h264_Parser \<times> sink" where
  "h264_Parse b isSeq parser w =
     (if isSeq
      then (case parseSpecificInfo b parser of
              Inl e \<Rightarrow> (Some e, parser, w)
            | Inr parser \<Rightarrow> (None, parser, w))
      else if isNaluHeader b
      then (case sink_Write b w of (e, w) \<Rightarrow> (map_option Err e, parser, w))
      else getAnnexbH264 b parser w)"

section \<open>The Annex B byte stream\<close>

text \<open>
  The two formats, as data: \<open>avcc ns\<close> is the payload of a video packet, each NAL unit behind its
  length; \<open>annexb ns\<close> puts each behind a start code. \<open>annexb_stream info ns\<close> is what a decoder of the
  transport stream should get: the slices and supplemental units, with parameter sets just before
  the first IDR slice, those of the packet itself if it has brought some by then and else \<open>info\<close>, those
  of the sequence header.
\<close>

definition avcc_unit :: "bytes \<Rightarrow> bytes" where
  "avcc_unit n = be_bytes 4 (word_of_nat (length n) :: u32) @ n"

definition avcc :: "bytes list \<Rightarrow> bytes" where
  "avcc ns = concat (map avcc_unit ns)"

definition nalus_ok :: "bytes list \<Rightarrow> bool" where
  "nalus_ok ns \<longleftrightarrow> list_all (\<lambda>n. n \<noteq> [] \<and> length n < 2 ^ 32) ns"

definition annexb :: "bytes list \<Rightarrow> bytes" where
  "annexb ns = concat (map (\<lambda>n. startCode @ n) ns)"

definition nal_type :: "bytes \<Rightarrow> byte" where
  "nal_type n = n ! 0 AND 0x1f"

definition is_shown :: "bytes \<Rightarrow> bool" where
  "is_shown n \<longleftrightarrow> nal_type n \<in> {naluTypeSlice, naluTypeIdr, naluTypeSei}"

definition is_param :: "bytes \<Rightarrow> bool" where
  "is_param n \<longleftrightarrow> nal_type n \<in> {naluTypeSps, naluTypePps}"

definition is_idr :: "bytes \<Rightarrow> bool" where
  "is_idr n \<longleftrightarrow> nal_type n = naluTypeIdr"

definition annexb_stream :: "bytes \<Rightarrow> bytes list \<Rightarrow> bytes" where
  "annexb_stream info ns =
     (let pre = takeWhile (\<lambda>n. \<not> is_idr n) ns; post = dropWhile (\<lambda>n. \<not> is_idr n) ns;
          params = filter is_param pre
      in annexb (filter is_shown pre) @
         (if post = [] then [] else if params = [] then info else annexb params) @
         annexb (filter is_shown post))"

text \<open>The stream still to be written in the middle of a packet, with the parameter sets \<open>ps\<close> seen so far.\<close>

definition annexb_rest :: "bytes \<Rightarrow> bytes list \<Rightarrow> bool \<Rightarrow> bytes list \<Rightarrow> bytes" where
  "annexb_rest info ps written ns =
     (if written then annexb (filter is_shown ns)
      else let pre = takeWhile (\<lambda>n. \<not> is_idr n) ns; post = dropWhile (\<lambda>n. \<not> is_idr n) ns;
               params = ps @ filter is_param pre
      in annexb (filter is_shown pre) @
         (if post = [] then [] else if params = [] then info else annexb params) @
         annexb (filter is_shown post))"

lemma annexb_simps [simp]:
  "annexb [] = []"
  "annexb (n # ns) = startCode @ n @ annexb ns"
  "annexb (ns @ ms) = annexb ns @ annexb ms"
  by (simp_all add: annexb_def)

lemma annexb_rest_Nil [simp]: "annexb_rest info ps written [] = []"
  by (simp add: annexb_rest_def)

lemma avcc_simps [simp]:
  "avcc [] = []"
  "avcc (n # ns) = avcc_unit n @ avcc ns"
  by (simp_all add: avcc_def)

lemma length_avcc_unit [simp]: "length (avcc_unit n) = 4 + length n"
  by (simp add: avcc_unit_def)

lemma nalus_ok_Cons [simp]: "nalus_ok (n # ns) \<longleftrightarrow> n \<noteq> [] \<and> length n < 2 ^ 32 \<and> nalus_ok ns"
  by (simp add: nalus_ok_def)

lemma nalus_ok_Nil [simp]: "nalus_ok []"
  by (simp add: nalus_ok_def)

text \<open>The number in a big-endian prefix.\<close>

lemma foldl_bytes_bound: "foldl (\<lambda>n b. push_bit 8 n + unat b) 0 bs < 2 ^ (8 * length (bs :: bytes))"
proof (induction bs rule: rev_induct)
  case (snoc b bs)
  have "unat b < 2 ^ 8" using unsigned_less [of b] by simp
  with snoc show ?case by (simp add: push_bit_eq_mult power_add)
qed simp

lemma unat_be_word_32:
  assumes "length bs \<le> 4"
  shows "unat (be_word bs :: u32) = foldl (\<lambda>n b. push_bit 8 n + unat b) 0 bs"
  using assms
proof (induction bs rule: rev_induct)
  case (snoc b bs)
  let ?v = "foldl (\<lambda>n b. push_bit 8 n + unat b) 0 (bs @ [b])"
  have ih: "unat (be_word bs :: u32) = foldl (\<lambda>n b. push_bit 8 n + unat b) 0 bs" using snoc by simp
  have "(2 :: nat) ^ (8 * length (bs @ [b])) \<le> 2 ^ 32"
    using snoc.prems by (intro power_increasing) auto
  then have v: "?v < 2 ^ 32" using foldl_bytes_bound [of "bs @ [b]"] by linarith
  have w: "(be_word (bs @ [b]) :: u32) = word_of_nat ?v"
  proof -
    have "(word_of_nat (foldl (\<lambda>n b. push_bit 8 n + unat b) 0 bs) :: u32) = be_word bs"
      unfolding ih [symmetric] by simp
    then show ?thesis by (simp add: be_word_snoc push_bit_eq_mult)
  qed
  show ?case unfolding w unsigned_of_nat using v by (simp add: take_bit_nat_eq_self)
qed simp

lemma naluSize_unit: "k < 2 ^ 32 \<Longrightarrow> naluSize (be_bytes 4 (word_of_nat k :: u32) @ r) = Inr k"
  using unat_be_word_32 [of "be_bytes 4 (word_of_nat k :: u32)"] be_word_be_bytes [of 4 "word_of_nat k :: u32"]
  by (simp add: naluSize_def take_bit_full_word unsigned_of_nat take_bit_nat_eq_self)

text \<open>What one unit adds to the stream.\<close>

definition nalu_out :: "bytes \<Rightarrow> bytes list \<Rightarrow> bool \<Rightarrow> bytes \<Rightarrow> bytes" where
  "nalu_out info ps written n =
     (if is_idr n \<and> \<not> written then if ps = [] then info else annexb ps else []) @
     (if is_shown n then startCode @ n else [])"

lemma annexb_nalu_ok:
  assumes "sk_cap w = None" and "h264_pps parser = annexb ps"
  shows "annexb_nalu n (ps \<noteq> [], written) parser w =
       (None, (ps @ filter is_param [n] \<noteq> [], written \<or> is_idr n),
        parser\<lparr>h264_pps := annexb (ps @ filter is_param [n])\<rparr>,
        w\<lparr>sk_out := sk_out w @ nalu_out (h264_specificInfo parser) ps written n\<rparr>)"
proof -
  note defs = annexb_nalu_def nalu_out_def is_param_def is_shown_def is_idr_def nal_type_def Let_def
  have p: "parser\<lparr>h264_pps := annexb ps\<rparr> = parser" using assms(2) by simp
  consider "n ! 0 AND 0x1f = naluTypeIdr" | "n ! 0 AND 0x1f = naluTypeSlice" | "n ! 0 AND 0x1f = naluTypeSei"
    | "n ! 0 AND 0x1f = naluTypeSps" | "n ! 0 AND 0x1f = naluTypePps"
    | "n ! 0 AND 0x1f \<notin> {naluTypeSlice, naluTypeIdr, naluTypeSei, naluTypeSps, naluTypePps}"
    by auto
  then show ?thesis using assms p by cases (simp_all add: defs)
qed

lemma annexb_rest_Cons:
  "annexb_rest info ps written (n # ns) =
   nalu_out info ps written n @ annexb_rest info (ps @ filter is_param [n]) (written \<or> is_idr n) ns"
proof -
  have "\<not> is_param n" if "is_idr n" using that by (simp add: is_param_def is_idr_def)
  moreover have "is_shown n" if "is_idr n" using that by (simp add: is_shown_def is_idr_def)
  ultimately show ?thesis
    by (cases "is_idr n"; cases written; cases ps) (simp_all add: annexb_rest_def nalu_out_def Let_def)
qed

lemma annexb_loop_step:
  assumes "0 < dataLeft" and "bindR (slice src index (length src)) naluSize = Inr k"
    and "int k \<le> dataLeft - int naluBytesLen" and "k \<le> length (drop (index + naluBytesLen) src)" and "0 < k"
    and "annexb_nalu (take k (drop (index + naluBytesLen) src)) flags parser w = (None, flags', parser', w')"
  shows "annexb_loop src index dataLeft flags parser w =
    annexb_loop src (index + naluBytesLen + k) (dataLeft - int naluBytesLen - int k) flags' parser' w'"
  by (subst annexb_loop.simps) (use assms in \<open>simp add: Let_def del: bindR_eq_Inr\<close>)

lemma annexb_loop_reject:
  assumes "0 < dataLeft" and "bindR (slice src index (length src)) naluSize = Inr k"
    and "k = 0 \<or> dataLeft - int naluBytesLen < int k"
  shows "annexb_loop src index dataLeft flags parser w = (Some ErrNaluBodyLen, parser, w)"
  by (subst annexb_loop.simps) (use assms in \<open>auto simp: Let_def simp del: bindR_eq_Inr\<close>)

lemma annexb_loop_unit:
  assumes "n \<noteq> []" and "length n < 2 ^ 32" and "sk_cap w = None" and "h264_pps parser = annexb ps"
    and "length pre = index" and "dataLeft = int (length (avcc_unit n @ r))"
  shows "annexb_loop (pre @ avcc_unit n @ r) index dataLeft (ps \<noteq> [], written) parser w =
    annexb_loop ((pre @ avcc_unit n) @ r) (index + 4 + length n) (int (length r))
      (ps @ filter is_param [n] \<noteq> [], written \<or> is_idr n) (parser\<lparr>h264_pps := annexb (ps @ filter is_param [n])\<rparr>)
      (w\<lparr>sk_out := sk_out w @ nalu_out (h264_specificInfo parser) ps written n\<rparr>)"
proof -
  let ?src = "pre @ avcc_unit n @ r"
  have sl: "bindR (slice ?src index (length ?src)) naluSize = Inr (length n)"
    using assms(5) naluSize_unit [OF assms(2), of "n @ r"] by (simp add: slice_def avcc_unit_def)
  have body: "take (length n) (drop (index + naluBytesLen) ?src) = n"
    using assms(5) by (simp add: avcc_unit_def)
  have "annexb_loop ?src index dataLeft (ps \<noteq> [], written) parser w =
    annexb_loop ?src (index + naluBytesLen + length n) (dataLeft - int naluBytesLen - int (length n))
      (ps @ filter is_param [n] \<noteq> [], written \<or> is_idr n) (parser\<lparr>h264_pps := annexb (ps @ filter is_param [n])\<rparr>)
      (w\<lparr>sk_out := sk_out w @ nalu_out (h264_specificInfo parser) ps written n\<rparr>)"
  proof (rule annexb_loop_step [OF _ sl])
    show "annexb_nalu (take (length n) (drop (index + naluBytesLen) ?src)) (ps \<noteq> [], written) parser w =
        (None, (ps @ filter is_param [n] \<noteq> [], written \<or> is_idr n), parser\<lparr>h264_pps := annexb (ps @ filter is_param [n])\<rparr>,
         w\<lparr>sk_out := sk_out w @ nalu_out (h264_specificInfo parser) ps written n\<rparr>)"
      unfolding body by (rule annexb_nalu_ok [OF assms(3,4)])
  qed (use assms in \<open>simp_all\<close>)
  then show ?thesis using assms(6) by simp
qed

lemma annexb_loop_ok:
  assumes "nalus_ok ns" and "sk_cap w = None" and "h264_pps parser = annexb ps"
    and "length pre = index" and "dataLeft = int (length (avcc ns))"
  shows "annexb_loop (pre @ avcc ns) index dataLeft (ps \<noteq> [], written) parser w =
    (None, parser\<lparr>h264_pps := annexb (ps @ filter is_param ns)\<rparr>,
     w\<lparr>sk_out := sk_out w @ annexb_rest (h264_specificInfo parser) ps written ns\<rparr>)"
  using assms
proof (induction ns arbitrary: pre index dataLeft ps written parser w)
  case Nil
  then show ?case by (simp add: annexb_loop.simps)
next
  case (Cons n ns)
  let ?ps = "ps @ filter is_param [n]"
  let ?parser = "parser\<lparr>h264_pps := annexb ?ps\<rparr>"
  let ?w = "w\<lparr>sk_out := sk_out w @ nalu_out (h264_specificInfo parser) ps written n\<rparr>"
  have "annexb_loop (pre @ avcc (n # ns)) index dataLeft (ps \<noteq> [], written) parser w =
      annexb_loop ((pre @ avcc_unit n) @ avcc ns) (index + 4 + length n) (int (length (avcc ns)))
        (?ps \<noteq> [], written \<or> is_idr n) ?parser ?w"
    using annexb_loop_unit [OF _ _ Cons.prems(2-4)] Cons.prems(1,5) by simp
  also have "\<dots> = (None, ?parser\<lparr>h264_pps := annexb (?ps @ filter is_param ns)\<rparr>,
      ?w\<lparr>sk_out := sk_out ?w @ annexb_rest (h264_specificInfo ?parser) ?ps (written \<or> is_idr n) ns\<rparr>)"
    using Cons.prems by (intro Cons.IH) simp_all
  finally show ?case by (simp add: annexb_rest_Cons)
qed

lemma annexb_rest_start: "annexb_rest info [] False ns = annexb_stream info ns"
  by (simp add: annexb_rest_def annexb_stream_def)

text \<open>
  C36: for a packet that is a sequence of NAL units, each non-empty and behind its four-byte length, the
  H.264 parser writes an access unit delimiter and then the Annex B stream of the units: slices and
  supplemental units in their order, parameter sets once, before the first IDR slice, taken from
  the packet if it has brought them before that slice and from the sequence header otherwise. It keeps
  the parameter sets of the packet, and returns no error.
\<close>

theorem annexb_conversion:
  assumes "nalus_ok ns" and "ns \<noteq> []" and "sk_cap w = None"
  shows "getAnnexbH264 (avcc ns) parser w =
    (None, parser\<lparr>h264_pps := annexb (filter is_param ns)\<rparr>,
     w\<lparr>sk_out := sk_out w @ naluAud @ annexb_stream (h264_specificInfo parser) ns\<rparr>)"
proof -
  let ?w = "w\<lparr>sk_out := sk_out w @ naluAud\<rparr>"
  have "\<not> length (avcc ns) < naluBytesLen" using assms(2) by (cases ns) simp_all
  moreover have "annexb_loop ([] @ avcc ns) 0 (int (length (avcc ns))) ([] \<noteq> ([] :: bytes list), False)
      (parser\<lparr>h264_pps := []\<rparr>) ?w =
      (None, (parser\<lparr>h264_pps := []\<rparr>)\<lparr>h264_pps := annexb ([] @ filter is_param ns)\<rparr>,
       ?w\<lparr>sk_out := sk_out ?w @ annexb_rest (h264_specificInfo (parser\<lparr>h264_pps := []\<rparr>)) [] False ns\<rparr>)"
    using assms by (intro annexb_loop_ok) simp_all
  ultimately show ?thesis
    using assms(3) by (simp add: getAnnexbH264_def Let_def annexb_rest_start)
qed

theorem annexb_conversion_witness:
  "getAnnexbH264 (avcc [[0x67, 1], [0x65, 2, 3], [0x41]]) h264_NewParser \<lparr>sk_out = [], sk_cap = None\<rparr> =
    (None, h264_NewParser\<lparr>h264_pps := [0, 0, 0, 1, 0x67, 1]\<rparr>,
     \<lparr>sk_out = [0, 0, 0, 1, 9, 0xf0, 0, 0, 0, 1, 0x67, 1, 0, 0, 0, 1, 0x65, 2, 3, 0, 0, 0, 1, 0x41], sk_cap = None\<rparr>)"
  using annexb_conversion [of "[[0x67, 1], [0x65, 2, 3], [0x41]]" "\<lparr>sk_out = [], sk_cap = None\<rparr>" h264_NewParser]
  by (simp add: annexb_stream_def is_param_def is_shown_def is_idr_def nal_type_def startCode_def naluAud_def)

section \<open>What the conversion rejects\<close>

definition annexb_outcome :: "bytes \<Rightarrow> exn option" where
  "annexb_outcome r =
     (if \<exists>ns. nalus_ok ns \<and> r = avcc ns then None
      else if \<exists>ns t. nalus_ok ns \<and> r = avcc ns @ t \<and> t \<noteq> [] \<and> length t < 4 then Some ErrDataSizeNotMatch
      else Some ErrNaluBodyLen)"

lemma be_word_snoc_parts:
  assumes "length bs < 4"
  shows "drop_bit 8 (be_word (bs @ [b]) :: u32) = be_word bs" and "ucast (be_word (bs @ [b]) :: u32) = b"
proof -
  have u: "unat (be_word (bs @ [b]) :: u32) = unat (be_word bs :: u32) * 256 + unat b"
    using assms unat_be_word_32 [of bs] unat_be_word_32 [of "bs @ [b]"] by (simp add: push_bit_eq_mult)
  have b: "unat b < 256" using unsigned_less [of b] by simp
  show "drop_bit 8 (be_word (bs @ [b]) :: u32) = be_word bs"
    by (simp only: word_unat_eq_iff unat_drop_bit_eq u) (use b in \<open>simp add: drop_bit_eq_div\<close>)
  show "ucast (be_word (bs @ [b]) :: u32) = b"
    by (simp only: word_unat_eq_iff unsigned_ucast_eq u) (use b in \<open>simp add: take_bit_eq_mod\<close>)
qed

lemma be_bytes_be_word: "length bs \<le> 4 \<Longrightarrow> be_bytes (length bs) (be_word bs :: u32) = bs"
proof (induction bs rule: rev_induct)
  case (snoc b bs)
  then show ?case using be_word_snoc_parts [of bs b] by (simp add: be_bytes_snoc)
qed (simp add: be_bytes.simps)

lemma naluSize_prefix:
  assumes "4 \<le> length r"
  obtains k where "naluSize r = Inr k" and "k < 2 ^ 32" and "r = be_bytes 4 (word_of_nat k :: u32) @ drop 4 r"
proof -
  let ?k = "unat (be_word (take 4 r) :: u32)"
  have "naluSize r = Inr ?k" using assms unat_be_word_32 [of "take 4 r"] by (simp add: naluSize_def)
  moreover have "?k < 2 ^ 32" using unsigned_less [of "be_word (take 4 r) :: u32"] by simp
  moreover have "be_bytes 4 (word_of_nat ?k :: u32) = take 4 r" using assms be_bytes_be_word [of "take 4 r"] by simp
  ultimately show thesis using that [of ?k] by simp
qed

lemma avcc_unit_size: "length n < 2 ^ 32 \<Longrightarrow> naluSize (avcc_unit n @ r) = Inr (length n)"
  using naluSize_unit by (simp add: avcc_unit_def)

lemma avcc_unit_cancel:
  assumes "length n < 2 ^ 32" and "length m < 2 ^ 32" and "avcc_unit n @ r = avcc_unit m @ r'"
  shows "n = m" and "r = r'"
proof -
  have "length n = length m" using avcc_unit_size [OF assms(1), of r] avcc_unit_size [OF assms(2), of r'] assms(3) by simp
  then show "n = m" and "r = r'" using assms(3) by (simp_all add: avcc_unit_def)
qed

lemma avcc_cancel:
  assumes "n \<noteq> []" and "length n < 2 ^ 32" and "length t < 4"
  shows "(\<exists>ns. nalus_ok ns \<and> avcc_unit n @ r = avcc ns @ t) \<longleftrightarrow> (\<exists>ns. nalus_ok ns \<and> r = avcc ns @ t)"
proof
  assume "\<exists>ns. nalus_ok ns \<and> avcc_unit n @ r = avcc ns @ t"
  then obtain ns where ns: "nalus_ok ns" "avcc_unit n @ r = avcc ns @ t" by blast
  then have "length (avcc ns @ t) \<ge> 4" by (metis length_append length_avcc_unit le_add1 add.assoc)
  then obtain m ms where m: "ns = m # ms" using assms(3) by (cases ns) auto
  then have "r = avcc ms @ t" using avcc_unit_cancel(2) [of n m r "avcc ms @ t"] ns assms(2) by simp
  then show "\<exists>ns. nalus_ok ns \<and> r = avcc ns @ t" using ns(1) m by auto
next
  assume "\<exists>ns. nalus_ok ns \<and> r = avcc ns @ t"
  then obtain ns where "nalus_ok ns" "r = avcc ns @ t" by blast
  then have "nalus_ok (n # ns)" "avcc_unit n @ r = avcc (n # ns) @ t" using assms by simp_all
  then show "\<exists>ns. nalus_ok ns \<and> avcc_unit n @ r = avcc ns @ t" by blast
qed

lemma annexb_outcome_unit:
  assumes "n \<noteq> []" and "length n < 2 ^ 32"
  shows "annexb_outcome (avcc_unit n @ r) = annexb_outcome r"
proof -
  have "(\<exists>ns. nalus_ok ns \<and> avcc_unit n @ r = avcc ns) \<longleftrightarrow> (\<exists>ns. nalus_ok ns \<and> r = avcc ns)"
    using avcc_cancel [OF assms, of "[]" r] by simp
  moreover have "(\<exists>ns t. nalus_ok ns \<and> avcc_unit n @ r = avcc ns @ t \<and> t \<noteq> [] \<and> length t < 4) \<longleftrightarrow>
      (\<exists>ns t. nalus_ok ns \<and> r = avcc ns @ t \<and> t \<noteq> [] \<and> length t < 4)"
    using avcc_cancel [OF assms] by (metis (no_types))
  ultimately show ?thesis by (simp only: annexb_outcome_def)
qed

lemma annexb_outcome_short:
  assumes "r \<noteq> []" and "length r < 4"
  shows "annexb_outcome r = Some ErrDataSizeNotMatch"
proof -
  have "r \<noteq> avcc ns" for ns using assms by (cases ns) auto
  moreover have "nalus_ok [] \<and> r = avcc [] @ r \<and> r \<noteq> [] \<and> length r < 4" using assms by simp
  ultimately show ?thesis by (simp only: annexb_outcome_def) metis
qed

lemma annexb_outcome_body:
  assumes "naluSize r = Inr k" and "k = 0 \<or> length r < 4 + k"
  shows "annexb_outcome r = Some ErrNaluBodyLen"
proof -
  have len: "4 \<le> length r" using assms(1) by (auto simp: naluSize_def split: if_splits)
  have False if "nalus_ok ns" "r = avcc ns @ t" "length t < 4" for ns t
  proof (cases ns)
    case (Cons m ms)
    then have "k = length m" using that avcc_unit_size [of m "avcc ms @ t"] assms(1) by simp
    then show False using that Cons assms(2) by simp
  qed (use that len in simp)
  from this [of _ "[]"] this show ?thesis unfolding annexb_outcome_def by auto
qed

lemma annexb_loop_outcome:
  assumes "length pre = index" and "dataLeft = int (length r)" and "sk_cap w = None" and "h264_pps parser = annexb ps"
  shows "fst (annexb_loop (pre @ r) index dataLeft (ps \<noteq> [], written) parser w) = annexb_outcome r"
  using assms
proof (induction "length r" arbitrary: r pre index dataLeft ps written parser w rule: less_induct)
  case less
  have sl: "bindR (slice (pre @ r) index (length (pre @ r))) naluSize = naluSize r"
    using less.prems(1) by (simp add: slice_def)
  consider "r = []" | "r \<noteq> []" "length r < 4" | "4 \<le> length r" by linarith
  then show ?case
  proof cases
    case 1
    have "annexb_outcome [] = None" unfolding annexb_outcome_def using nalus_ok_Nil avcc_simps(1) by metis
    with 1 less.prems(2) show ?thesis by (simp add: annexb_loop.simps)
  next
    case 2
    then have "naluSize r = Inl (Err (Errorf ''nalusizedata invalid''))" by (simp add: naluSize_def)
    with 2 sl less.prems(2) show ?thesis
      by (subst annexb_loop.simps) (simp add: annexb_outcome_short)
  next
    case 3
    obtain k where k: "naluSize r = Inr k" "k < 2 ^ 32" "r = be_bytes 4 (word_of_nat k :: u32) @ drop 4 r"
      using naluSize_prefix [OF 3] by blast
    show ?thesis
    proof (cases "k = 0 \<or> length r < 4 + k")
      case True
      then have "annexb_loop (pre @ r) index dataLeft (ps \<noteq> [], written) parser w = (Some ErrNaluBodyLen, parser, w)"
        using less.prems(2) 3 by (intro annexb_loop_reject [where k = k]) (simp_all only: sl k(1), auto)
      then show ?thesis using annexb_outcome_body [OF k(1) True] by simp
    next
      case False
      let ?n = "take k (drop 4 r)" and ?r = "drop (4 + k) r"
      have n: "?n \<noteq> []" "length ?n = k" using False by auto
      have r: "r = avcc_unit ?n @ ?r"
        using k(3) n(2) append_take_drop_id [of k "drop 4 r"] by (simp add: avcc_unit_def add.commute)
      have "annexb_loop (pre @ avcc_unit ?n @ ?r) index dataLeft (ps \<noteq> [], written) parser w =
          annexb_loop ((pre @ avcc_unit ?n) @ ?r) (index + 4 + k) (int (length ?r))
            (ps @ filter is_param [?n] \<noteq> [], written \<or> is_idr ?n) (parser\<lparr>h264_pps := annexb (ps @ filter is_param [?n])\<rparr>)
            (w\<lparr>sk_out := sk_out w @ nalu_out (h264_specificInfo parser) ps written ?n\<rparr>)"
        using annexb_loop_unit [OF n(1) _ less.prems(3,4,1), of dataLeft ?r] n(2) k(2) less.prems(2) r by simp
      moreover have "fst \<dots> = annexb_outcome ?r"
        using False less.prems n(2) by (intro less.hyps) auto
      ultimately show ?thesis
        using r annexb_outcome_unit [OF n(1), of ?r] n(2) k(2) by metis
    qed
  qed
qed

text \<open>
  Whatever bytes a video packet holds, the conversion ends without a panic (to an unlimited writer):
  fewer than four bytes are invalid video data, a sequence of length-prefixed NAL units is accepted,
  one followed by one to three stray bytes does not match in size, and anything else has a bad NAL
  length.
\<close>

theorem annexb_errors:
  assumes "sk_cap w = None"
  shows "fst (getAnnexbH264 src parser w) =
    (if length src < 4 then Some ErrInvalidVideoData
     else if \<exists>ns. nalus_ok ns \<and> src = avcc ns then None
     else if \<exists>ns t. nalus_ok ns \<and> src = avcc ns @ t \<and> t \<noteq> [] \<and> length t < 4 then Some ErrDataSizeNotMatch
     else Some ErrNaluBodyLen)"
proof -
  have "fst (annexb_loop ([] @ src) 0 (int (length src)) ([] \<noteq> ([] :: bytes list), False) (parser\<lparr>h264_pps := []\<rparr>)
      (w\<lparr>sk_out := sk_out w @ naluAud\<rparr>)) = annexb_outcome src"
    using assms by (intro annexb_loop_outcome) simp_all
  then show ?thesis using assms by (simp add: getAnnexbH264_def Let_def annexb_outcome_def)
qed

theorem annexb_errors_witness:
  "fst (getAnnexbH264 [0, 0, 1] h264_NewParser \<lparr>sk_out = [], sk_cap = None\<rparr>) = Some ErrInvalidVideoData"
  using annexb_errors [of "\<lparr>sk_out = [], sk_cap = None\<rparr>" "[0, 0, 1]" h264_NewParser] by simp

text \<open>The configuration record of a sequence header with one SPS and one PPS (ISO/IEC 14496-15).\<close>

definition avc_config :: "byte \<Rightarrow> byte \<Rightarrow> byte \<Rightarrow> bytes \<Rightarrow> bytes \<Rightarrow> bytes" where
  "avc_config profile compatibility level sps pps =
     [1, profile, compatibility, level, 0xff, 0xe1] @ be_bytes 2 (word_of_nat (length sps) :: u16) @ sps @
     [1] @ be_bytes 2 (word_of_nat (length pps) :: u16) @ pps"

lemma two_bytes_value:
  assumes "n < 65536"
  shows "push_bit 8 (unat (ucast (drop_bit 8 (word_of_nat n :: u16)) :: byte)) OR unat (ucast (word_of_nat n :: u16) :: byte) = n"
proof -
  have "unat (ucast (drop_bit 8 (word_of_nat n :: u16)) :: byte) = n div 256"
    by (simp only: unsigned_ucast_eq unat_drop_bit_eq unsigned_of_nat) (use assms in \<open>simp add: take_bit_eq_mod drop_bit_eq_div\<close>)
  moreover have "unat (ucast (word_of_nat n :: u16) :: byte) = take_bit 8 n"
    using assms by (simp add: unsigned_ucast_eq unsigned_of_nat take_bit_eq_mod mod_mod_cancel)
  moreover have "push_bit 8 (n div 256) OR take_bit 8 n = n"
  proof -
    have "push_bit 8 (drop_bit 8 n) OR take_bit 8 n = n"
      by (rule bit_eqI) (auto simp: bit_simps)
    then show ?thesis by (simp add: drop_bit_eq_div)
  qed
  ultimately show ?thesis by simp
qed

lemma be_bytes_2_unfold: "be_bytes 2 v = [ucast (drop_bit 8 v), ucast v]"
  by (simp add: be_bytes.simps numeral_2_eq_2)

lemma parseSpecificInfo_parts:
  assumes "length pre = 8" and "push_bit 8 (unat (pre ! 6)) OR unat (pre ! 7) = length sps" and "sps \<noteq> []"
    and "push_bit 8 (unat h) OR unat l = length pps" and "pps \<noteq> []"
  shows "parseSpecificInfo (pre @ sps @ [c, h, l] @ pps @ rest) parser =
    Inr (parser\<lparr>h264_specificInfo := h264_specificInfo parser @ annexb [sps, pps] @ rest\<rparr>)"
  using assms by (simp add: parseSpecificInfo_def nth_append Let_def)

lemma parseSpecificInfo_config:
  assumes "sps \<noteq> []" and "length sps < 65536" and "pps \<noteq> []" and "length pps < 65536"
  shows "parseSpecificInfo (avc_config profile compatibility level sps pps @ rest) parser =
    Inr (parser\<lparr>h264_specificInfo := h264_specificInfo parser @ annexb [sps, pps] @ rest\<rparr>)"
  using parseSpecificInfo_parts [where pre = "[1, profile, compatibility, level, 0xff, 0xe1] @ be_bytes 2 (word_of_nat (length sps) :: u16)"
      and c = 1 and sps = sps and pps = pps and rest = rest] two_bytes_value [OF assms(2)] two_bytes_value [OF assms(4)] assms(1,3)
  by (simp add: avc_config_def be_bytes_2_unfold)

text \<open>
  From a sequence header with one SPS and one PPS the parser takes both, behind start codes, for the
  key frames that follow. It appends everything after the length of the PPS, so that what a profile puts
  behind it (\<open>rest\<close>) becomes part of the PPS, and it appends to what earlier sequence headers left.
\<close>

theorem h264_sequence_header:
  assumes "sps \<noteq> []" and "length sps < 65536" and "pps \<noteq> []" and "length pps < 65536"
    and "nalus_ok ns" and "ns \<noteq> []" and "sk_cap w = None" and "\<not> isNaluHeader (avcc ns)"
  shows "\<exists>parser' parser''.
    h264_Parse (avc_config profile compatibility level sps pps @ rest) True h264_NewParser w = (None, parser', w) \<and>
    h264_Parse (avcc ns) False parser' w =
      (None, parser'', w\<lparr>sk_out := sk_out w @ naluAud @ annexb_stream (annexb [sps, pps] @ rest) ns\<rparr>) \<and>
    fst (snd (h264_Parse (avc_config profile compatibility level sps pps) True parser' w)) =
      parser'\<lparr>h264_specificInfo := (annexb [sps, pps] @ rest) @ annexb [sps, pps]\<rparr>"
proof -
  note seq = parseSpecificInfo_config [OF assms(1-4), of profile compatibility level]
  have "h264_specificInfo h264_NewParser = []" by (simp add: h264_NewParser_def)
  then show ?thesis
    using seq [of rest h264_NewParser] seq [of "[]"] annexb_conversion [OF assms(5-7)] assms(8)
    by (simp add: h264_Parse_def)
qed

theorem h264_sequence_header_witness:
  "\<exists>parser' parser''.
    h264_Parse (avc_config 0x64 0 0x1f [0x67, 1] [0x68, 2] @ []) True h264_NewParser \<lparr>sk_out = [], sk_cap = None\<rparr> =
      (None, parser', \<lparr>sk_out = [], sk_cap = None\<rparr>) \<and>
    h264_Parse [0, 0, 0, 2, 0x65, 3] False parser' \<lparr>sk_out = [], sk_cap = None\<rparr> =
      (None, parser'', \<lparr>sk_out = [0, 0, 0, 1, 9, 0xf0, 0, 0, 0, 1, 0x67, 1, 0, 0, 0, 1, 0x68, 2, 0, 0, 0, 1, 0x65, 3],
         sk_cap = None\<rparr>)"
proof -
  have a: "avcc [[0x65, 3]] = [0, 0, 0, 2, 0x65, 3]"
    by (simp add: avcc_unit_def be_bytes_4)
  show ?thesis
    using h264_sequence_header [where sps = "[0x67, 1]" and pps = "[0x68, 2]" and ns = "[[0x65, 3]]"
        and w = "\<lparr>sk_out = [], sk_cap = None\<rparr>" and profile = "0x64" and compatibility = 0 and level = "0x1f" and rest = "[]"]
    unfolding a
    by (simp add: isNaluHeader_def annexb_stream_def is_shown_def is_param_def is_idr_def nal_type_def startCode_def naluAud_def)
      blast
qed

section \<open>aac/parser.go\<close>

record mpegExtension =
  ext_objectType :: byte
  ext_sampleRate :: byte

record mpegCfgInfo =
  cfg_objectType :: byte
  cfg_sampleRate :: byte
  cfg_channel :: byte
  cfg_sbr :: byte
  cfg_ps :: byte
  cfg_frameLen :: byte
  cfg_exceptionLogTs :: int
  cfg_extension :: "mpegExtension option"

record aac_Parser =
  gettedSpecific :: bool
  adtsHeader :: bytes
  cfgInfo :: mpegCfgInfo

abbreviation adtsHeaderLen :: nat where "adtsHeaderLen \<equiv> 7"
abbreviation ErrInvalidSpecificBuff :: exn where "ErrInvalidSpecificBuff \<equiv> Err (Errorf ''invalid audio mpegspecific'')"
abbreviation ErrInvalidAudioBuff :: exn where "ErrInvalidAudioBuff \<equiv> Err (Errorf ''invalid audiodata'')"

definition aacRates :: "nat list" where
  "aacRates = [96000, 88200, 64000, 48000, 44100, 32000, 24000, 22050, 16000, 12000, 11025, 8000, 7350]"

definition aac_NewParser :: aac_Parser where
  "aac_NewParser = \<lparr>gettedSpecific = False, adtsHeader = replicate adtsHeaderLen 0,
     cfgInfo = \<lparr>cfg_objectType = 0, cfg_sampleRate = 0, cfg_channel = 0, cfg_sbr = 0, cfg_ps = 0, cfg_frameLen = 0,
       cfg_exceptionLogTs = 0, cfg_extension = None\<rparr>\<rparr>"

definition specificInfo :: "bytes \<Rightarrow> aac_Parser \<Rightarrow> aac_Parser res" where
  "specificInfo src parser =
     (if length src < 2 then Inl ErrInvalidSpecificBuff
      else Inr (parser\<lparr>gettedSpecific := True,
             cfgInfo := (cfgInfo parser)\<lparr>cfg_objectType := drop_bit 3 (src ! 0) AND 0xff,
               cfg_sampleRate := push_bit 1 (src ! 0 AND 0x07) OR drop_bit 7 (src ! 1),
               cfg_channel := drop_bit 3 (src ! 1) AND 0x0f\<rparr>\<rparr>))"

text \<open>The header bytes of \<^verbatim>\<open>adts\<close>; the buffer has seven bytes, so that no store is out of range.\<close>

definition adts_header :: "mpegCfgInfo \<Rightarrow> u16 \<Rightarrow> bytes \<Rightarrow> bytes" where
  "adts_header cfg frameLen h =
     h[0 := 0xff, 1 := 0xf1,
       2 := push_bit 6 (cfg_objectType cfg - 1) OR push_bit 2 (cfg_sampleRate cfg),
       3 := push_bit 4 (push_bit 2 (cfg_channel cfg)) OR ucast (drop_bit 14 (push_bit 3 frameLen)),
       4 := ucast (drop_bit 8 (push_bit 5 frameLen)),
       5 := ucast (push_bit 5 (drop_bit 13 (push_bit 13 frameLen))) OR drop_bit 3 (push_bit 1 0x7C),
       6 := 0xfc]"

definition adts :: "bytes \<Rightarrow> aac_Parser \<Rightarrow> sink \<Rightarrow> exn option \<times> aac_Parser \<times> sink" where
  "adts src parser w =
     (if length src \<le> 0 \<or> \<not> gettedSpecific parser then (Some ErrInvalidAudioBuff, parser, w)
      else let frameLen = word_of_nat (length src) + 7;
               parser = parser\<lparr>adtsHeader := adts_header (cfgInfo parser) frameLen (adtsHeader parser)\<rparr>
           in case sink_Writes [adtsHeader parser, src] w of (e, w) \<Rightarrow> (map_option Err e, parser, w))"

definition aac_SampleRate :: "aac_Parser \<Rightarrow> nat" where
  "aac_SampleRate parser =
     (if cfg_sampleRate (cfgInfo parser) \<le> word_of_nat (length aacRates - 1)
      then aacRates ! unat (cfg_sampleRate (cfgInfo parser)) else 44100)"

definition aac_Parse :: "bytes \<Rightarrow> byte \<Rightarrow> aac_Parser \<Rightarrow> sink \<Rightarrow> exn option \<times> aac_Parser \<times> sink" where
  "aac_Parse b packetType parser w =
     (if packetType = AACSeqHeader
      then (case specificInfo b parser of Inl e \<Rightarrow> (Some e, parser, w) | Inr parser \<Rightarrow> (None, parser, w))
      else if packetType = AACRaw then adts b parser w
      else (None, parser, w))"

section \<open>The ADTS header\<close>

text \<open>
  A bit string given by its fields, most significant first, and the fields of an ADTS header: the
  sync word with MPEG-4, layer 0 and no checksum, the profile, the index of the sampling rate, a zero
  bit and the three bits of the channel configuration, four zero bits, the length of the frame with its
  header, a buffer fullness of all ones and one data block.
\<close>

definition pack :: "(nat \<times> 'a::len word) list \<Rightarrow> 'a word" where
  "pack fs = foldl (\<lambda>acc (n, v). push_bit n acc OR take_bit n v) 0 fs"

definition adts_fields :: "byte \<Rightarrow> byte \<Rightarrow> byte \<Rightarrow> nat \<Rightarrow> 56 word" where
  "adts_fields objectType rate channel len =
     pack [(16, 0xfff1), (2, ucast (objectType - 1)), (4, ucast rate), (4, take_bit 3 (ucast channel)), (4, 0),
           (13, word_of_nat len), (11, 0x7ff), (2, 0)]"

lemma list_7: "length h = 7 \<Longrightarrow> \<exists>a b c d e f g. h = [a, b, c, d, e, f, g]"
  by (auto simp: numeral_eq_Suc length_Suc_conv)

lemma be_bytes_7: "be_bytes 7 v = [ucast (drop_bit 48 v), ucast (drop_bit 40 v), ucast (drop_bit 32 v),
    ucast (drop_bit 24 v), ucast (drop_bit 16 v), ucast (drop_bit 8 v), ucast v]"
  by (simp add: be_bytes.simps numeral_eq_Suc)

lemma upto_8: "n < 8 \<longleftrightarrow> n \<in> {0, 1, 2, 3, 4, 5, 6, 7 :: nat}"
  by auto

lemma adts_fields_bytes:
  fixes len :: nat and ot sr ch :: byte
  defines "fl \<equiv> word_of_nat len :: u16" and "v \<equiv> adts_fields ot sr (ch AND 3) len"
  shows "(ucast (drop_bit 48 v) :: byte) = 0xff"
    and "(ucast (drop_bit 40 v) :: byte) = 0xf1"
    and "(ucast (drop_bit 32 v) :: byte) = push_bit 6 (ot - 1) OR push_bit 2 (take_bit 4 sr)"
    and "(ucast (drop_bit 24 v) :: byte) = push_bit 4 (push_bit 2 ch) OR ucast (drop_bit 14 (push_bit 3 fl))"
    and "(ucast (drop_bit 16 v) :: byte) = ucast (drop_bit 8 (push_bit 5 fl))"
    and "(ucast (drop_bit 8 v) :: byte) = ucast (push_bit 5 (drop_bit 13 (push_bit 13 fl))) OR drop_bit 3 (push_bit 1 0x7C)"
    and "(ucast v :: byte) = 0xfc"
  unfolding adts_fields_def pack_def fl_def v_def
        apply (rule_tac [!] bit_word_eqI)
        apply (simp_all add: upto_8)
        apply (elim disjE, simp_all add: bit_simps)+
  done

lemma adts_header_layout:
  assumes "length h = 7" and "cfg_sampleRate cfg < 16"
  shows "adts_header cfg (word_of_nat n + 7) h =
    be_bytes 7 (adts_fields (cfg_objectType cfg) (cfg_sampleRate cfg) (cfg_channel cfg AND 3) (n + 7))"
proof -
  obtain a b c d e f g where h: "h = [a, b, c, d, e, f, g]" using list_7 [OF assms(1)] by blast
  have r: "take_bit 4 (cfg_sampleRate cfg) = cfg_sampleRate cfg"
    using assms(2) by (intro take_bit_self) (simp add: word_less_nat_alt)
  show ?thesis
    unfolding be_bytes_7 adts_fields_bytes adts_header_def h r
    by simp
qed

definition aac_ok :: "aac_Parser \<Rightarrow> bool" where
  "aac_ok parser \<longleftrightarrow> length (adtsHeader parser) = 7 \<and> cfg_sampleRate (cfgInfo parser) < 16 \<and> cfg_channel (cfgInfo parser) < 16"

lemma byte_less_16: "(x :: byte) < 16 \<longleftrightarrow> take_bit 4 x = x"
  by (simp add: word_less_nat_alt word_unat_eq_iff unsigned_take_bit_eq take_bit_nat_eq_self_iff)

lemma specificInfo_ok:
  assumes "aac_ok parser" and "specificInfo src parser = Inr parser'"
  shows "aac_ok parser'"
proof -
  have m: "(7 :: byte) = mask 3" "(0xf :: byte) = mask 4" by (simp_all add: mask_eq_exp_minus_1)
  have "take_bit 4 (push_bit i (x AND mask 3) OR drop_bit 7 y) = push_bit i (x AND mask 3) OR drop_bit 7 y"
    if "0 < i" "i < 2" for i and x y :: byte
    using that by (intro bit_word_eqI) (auto simp: bit_simps dest: bit_imp_le_length)
  from this [of 1] have "push_bit 1 (x AND 7) OR drop_bit 7 y < 16" for x y :: byte
    unfolding byte_less_16 m by simp
  moreover have "drop_bit 3 y AND 0xf < 16" for y :: byte
    unfolding byte_less_16 m by (rule bit_word_eqI) (auto simp: bit_simps)
  ultimately show ?thesis
    using assms by (auto simp: aac_ok_def specificInfo_def split: if_splits)
qed

text \<open>The first two bytes of an AudioSpecificConfig (ISO/IEC 14496-3).\<close>

definition audio_config :: "byte \<Rightarrow> byte \<Rightarrow> byte \<Rightarrow> byte \<Rightarrow> bytes" where
  "audio_config objectType rate channel rest =
     be_bytes 2 (pack [(5, ucast objectType), (4, ucast rate), (4, ucast channel), (3, ucast rest)] :: u16)"

lemma bit_times_2: "bit (a * 2) n \<longleftrightarrow> 0 < n \<and> n < 8 \<and> bit (a :: byte) (n - 1)"
  using bit_push_bit_iff [of 1 a n] by (auto simp: push_bit_eq_mult bit_simps dest: bit_imp_le_length)

lemma audio_config_fields:
  fixes ot sr ch x :: byte
  defines "v \<equiv> pack [(5, ucast ot), (4, ucast sr), (4, ucast ch), (3, ucast x)] :: u16"
  shows "drop_bit 3 (ucast (drop_bit 8 v) :: byte) = take_bit 5 ot"
    and "push_bit 1 ((ucast (drop_bit 8 v) :: byte) AND 7) OR drop_bit 7 (ucast v) = take_bit 4 sr"
    and "drop_bit 3 (ucast v :: byte) AND 0xf = take_bit 4 ch"
proof -
  have m: "(7 :: byte) = mask 3" "(0xf :: byte) = mask 4" by (simp_all add: mask_eq_exp_minus_1)
  show "drop_bit 3 (ucast (drop_bit 8 v) :: byte) = take_bit 5 ot"
    unfolding pack_def v_def
    apply (rule bit_word_eqI)
    apply (simp add: upto_8)
    apply (elim disjE, simp_all add: bit_simps)
    done
  show "push_bit 1 ((ucast (drop_bit 8 v) :: byte) AND 7) OR drop_bit 7 (ucast v) = take_bit 4 sr"
    unfolding pack_def v_def m
    apply (rule bit_word_eqI)
    apply (simp add: upto_8)
    apply (elim disjE, simp_all add: bit_simps bit_times_2)
    done
  show "drop_bit 3 (ucast v :: byte) AND 0xf = take_bit 4 ch"
    unfolding pack_def v_def m
    apply (rule bit_word_eqI)
    apply (simp add: upto_8)
    apply (elim disjE, simp_all add: bit_simps)
    done
qed

text \<open>
  After an AudioSpecificConfig, every raw AAC frame is written behind an ADTS header with the profile and
  the rate of the configuration, the length of the frame with its header (its low 13 bits), and the
  two low bits of the channel configuration: configurations 4 to 7 (four to eight channels) lose
  their high bit.
\<close>

theorem aac_adts_frame:
  assumes "ot < 32" and "rate < 16" and "ch < 16" and "d \<noteq> []" and "sk_cap w = None" and "aac_ok parser"
  shows "\<exists>p1 p2. aac_Parse (audio_config ot rate ch x @ ext) AACSeqHeader parser w = (None, p1, w) \<and>
    aac_Parse d AACRaw p1 w =
      (None, p2, w\<lparr>sk_out := sk_out w @ be_bytes 7 (adts_fields ot rate (ch AND 3) (length d + 7)) @ d\<rparr>) \<and> aac_ok p2"
proof -
  let ?c = "audio_config ot rate ch x @ ext"
  have t: "take_bit 5 ot = ot" "take_bit 4 rate = rate" "take_bit 4 ch = ch"
    using assms(1-3) by (auto intro!: take_bit_self simp: word_less_nat_alt)
  obtain p1 where p1: "specificInfo ?c parser = Inr p1" "adtsHeader p1 = adtsHeader parser" "gettedSpecific p1"
      "cfg_objectType (cfgInfo p1) = ot" "cfg_sampleRate (cfgInfo p1) = rate" "cfg_channel (cfgInfo p1) = ch"
    using audio_config_fields [of ot rate ch x] t
    by (simp add: specificInfo_def audio_config_def be_bytes_2_unfold)
  have h: "adts_header (cfgInfo p1) (word_of_nat (length d) + 7) (adtsHeader p1) =
      be_bytes 7 (adts_fields ot rate (ch AND 3) (length d + 7))"
    using adts_header_layout [of "adtsHeader p1" "cfgInfo p1" "length d"] assms(2,6) p1 by (simp add: aac_ok_def)
  show ?thesis
    using assms p1 h by (auto simp: aac_Parse_def adts_def Let_def aac_ok_def)
qed

theorem aac_adts_frame_witness:
  "\<exists>p1 p2. aac_Parse (audio_config 2 4 2 0) AACSeqHeader aac_NewParser \<lparr>sk_out = [], sk_cap = None\<rparr> =
      (None, p1, \<lparr>sk_out = [], sk_cap = None\<rparr>) \<and>
    aac_Parse [1, 2, 3] AACRaw p1 \<lparr>sk_out = [], sk_cap = None\<rparr> =
      (None, p2, \<lparr>sk_out = [0xff, 0xf1, 0x50, 0x80, 1, 0x5f, 0xfc, 1, 2, 3], sk_cap = None\<rparr>) \<and> aac_ok p2"
proof -
  have "aac_ok aac_NewParser" by (simp add: aac_ok_def aac_NewParser_def)
  moreover have "be_bytes 7 (adts_fields 2 4 2 10) = [0xff, 0xf1, 0x50, 0x80, 1, 0x5f, 0xfc]"
    by (simp add: adts_fields_def pack_def be_bytes_7)
  ultimately show ?thesis
    using aac_adts_frame [of 2 4 2 "[1, 2, 3]" "\<lparr>sk_out = [], sk_cap = None\<rparr>" aac_NewParser 0 "[]"] by simp
qed

section \<open>mp3/parser.go\<close>

record mp3_Parser =
  samplingFrequency :: nat

definition mp3_NewParser :: mp3_Parser where
  "mp3_NewParser = \<lparr>samplingFrequency = 0\<rparr>"

definition mp3Rates :: "nat list" where
  "mp3Rates = [44100, 48000, 32000]"

abbreviation ErrInvalidMp3Data :: exn where "ErrInvalidMp3Data \<equiv> Err (Errorf ''invalid mp3data'')"
abbreviation ErrInvalidIndex :: exn where "ErrInvalidIndex \<equiv> Err (Errorf ''invalid rate index'')"

definition mp3_Parse :: "bytes \<Rightarrow> mp3_Parser \<Rightarrow> mp3_Parser res" where
  "mp3_Parse src parser =
     (if length src < 3 then Inl ErrInvalidMp3Data
      else let index = drop_bit 2 (src ! 2) AND 0x3
           in if index \<le> word_of_nat (length mp3Rates - 1)
              then Inr (parser\<lparr>samplingFrequency := mp3Rates ! unat index\<rparr>)
              else Inl ErrInvalidIndex)"

definition mp3_SampleRate :: "mp3_Parser \<Rightarrow> nat \<times> mp3_Parser" where
  "mp3_SampleRate parser =
     (let parser = (if samplingFrequency parser = 0 then parser\<lparr>samplingFrequency := 44100\<rparr> else parser)
      in (samplingFrequency parser, parser))"

section \<open>parser.go\<close>

record CodecParser =
  cp_aac :: "aac_Parser option"
  cp_mp3 :: "mp3_Parser option"
  cp_h264 :: "h264_Parser option"

definition NewCodecParser :: CodecParser where
  "NewCodecParser = \<lparr>cp_aac = None, cp_mp3 = None, cp_h264 = None\<rparr>"

definition codec_SampleRate :: "CodecParser \<Rightarrow> nat res \<times> CodecParser" where
  "codec_SampleRate cp =
     (case (cp_aac cp, cp_mp3 cp) of
        (None, None) \<Rightarrow> (Inl (Err (Errorf ''no audio in demuxer'')), cp)
      | (Some aac, _) \<Rightarrow> (Inr (aac_SampleRate aac), cp)
      | (None, Some mp3) \<Rightarrow> (case mp3_SampleRate mp3 of (r, mp3) \<Rightarrow> (Inr r, cp\<lparr>cp_mp3 := Some mp3\<rparr>)))"

definition codec_Parse :: "packet \<Rightarrow> CodecParser \<Rightarrow> sink \<Rightarrow> exn option \<times> CodecParser \<times> sink" where
  "codec_Parse p cp w =
     (case Header p of
        None \<Rightarrow> (None, cp, w)
      | Some f \<Rightarrow>
          if IsVideo p then
            if CodecID f = VideoH264
            then (let h264 = (case cp_h264 cp of None \<Rightarrow> h264_NewParser | Some h \<Rightarrow> h)
                  in case h264_Parse (pkt_Data p) (IsSeq f) h264 w of (e, h264, w) \<Rightarrow> (e, cp\<lparr>cp_h264 := Some h264\<rparr>, w))
            else (None, cp, w)
          else if SoundFormat f = SoundAAC
          then (let aac = (case cp_aac cp of None \<Rightarrow> aac_NewParser | Some a \<Rightarrow> a)
                in case aac_Parse (pkt_Data p) (AACPacketType f) aac w of (e, aac, w) \<Rightarrow> (e, cp\<lparr>cp_aac := Some aac\<rparr>, w))
          else if SoundFormat f = SoundMP3
          then (let mp3 = (case cp_mp3 cp of None \<Rightarrow> mp3_NewParser | Some m \<Rightarrow> m)
                in case mp3_Parse (pkt_Data p) mp3 of
                     Inl e \<Rightarrow> (Some e, cp\<lparr>cp_mp3 := Some mp3\<rparr>, w)
                   | Inr mp3 \<Rightarrow> (None, cp\<lparr>cp_mp3 := Some mp3\<rparr>, w))
          else (None, cp, w))"

section \<open>Any sequence of packets\<close>

lemma annexb_loop_no_panic:
  assumes "index \<le> length src" and "dataLeft = int (length src - index)"
  shows "fst (annexb_loop src index dataLeft flags parser w) \<noteq> Some (Panic e)"
  using assms
proof (induction src index dataLeft flags parser w rule: annexb_loop.induct)
  case (1 src index dataLeft flags parser w)
  show ?case
  proof (cases "naluSize (drop index src)")
    case (Inl x)
    then obtain y where "x = Err y" by (auto simp: naluSize_def split: if_splits)
    with Inl 1(2) show ?thesis by (subst annexb_loop.simps) (simp add: slice_def)
  next
    case (Inr k)
    then have len: "4 \<le> length (drop index src)" by (auto simp: naluSize_def split: if_splits)
    have sl: "bindR (slice src index (length src)) naluSize = Inr k" using Inr 1(2) by (simp add: slice_def)
    obtain x flags' parser' w' where n: "annexb_nalu (take k (drop (index + naluBytesLen) src)) flags parser w = (x, flags', parser', w')"
      by (metis prod_cases4)
    show ?thesis
      using 1(1) [OF _ sl refl refl _ n [symmetric]] 1(2,3) len sl n
      by (subst annexb_loop.simps) (auto simp: Let_def simp del: bindR_eq_Inr split: option.splits)
  qed
qed

lemma h264_Parse_no_panic: "h264_Parse b isSeq parser w = (e, r) \<Longrightarrow> \<not> is_panic e"
proof -
  have "annexb_loop b 0 (int (length b)) f p w' \<noteq> (Some (Panic x), r')" for f p w' x r'
    using annexb_loop_no_panic [of 0 b "int (length b)" f p w' x] by auto
  then show "h264_Parse b isSeq parser w = (e, r) \<Longrightarrow> \<not> is_panic e"
    by (cases r) (auto simp: h264_Parse_def getAnnexbH264_def parseSpecificInfo_def is_panic_def Let_def
        split: if_splits prod.splits option.splits)
qed

lemma aac_Parse_ok:
  assumes "aac_ok parser" and "aac_Parse b ty parser w = (e, parser', w')"
  shows "\<not> is_panic e" and "aac_ok parser'"
proof -
  have "\<not> is_panic e \<and> aac_ok parser'"
  proof (cases "ty = AACSeqHeader")
    case True
    then show ?thesis
      using assms specificInfo_ok [OF assms(1), of b]
      by (cases "specificInfo b parser") (auto simp: aac_Parse_def specificInfo_def split: if_splits)
  next
    case False
    then show ?thesis
      using assms by (auto simp: aac_Parse_def adts_def adts_header_def aac_ok_def Let_def split: if_splits prod.splits)
  qed
  then show "\<not> is_panic e" and "aac_ok parser'" by simp_all
qed

lemma aac_SampleRate_known: "aac_SampleRate parser \<in> set aacRates"
proof (cases "cfg_sampleRate (cfgInfo parser) \<le> word_of_nat (length aacRates - 1)")
  case True
  then have "unat (cfg_sampleRate (cfgInfo parser)) < length aacRates"
    by (simp add: word_le_nat_alt aacRates_def)
  with True show ?thesis by (simp add: aac_SampleRate_def)
qed (simp add: aac_SampleRate_def aacRates_def)

lemma mp3_Parse_rate:
  assumes "mp3_Parse src parser = Inr parser'"
  shows "samplingFrequency parser' \<in> set mp3Rates"
proof -
  let ?i = "drop_bit 2 (src ! 2) AND 0x3"
  have "?i \<le> word_of_nat (length mp3Rates - 1)" "samplingFrequency parser' = mp3Rates ! unat ?i"
    using assms by (auto simp: mp3_Parse_def Let_def split: if_splits)
  moreover from this(1) have "unat ?i < length mp3Rates" by (simp add: word_le_nat_alt mp3Rates_def)
  ultimately show ?thesis by simp
qed

lemma mp3_Parse_no_panic: "mp3_Parse src parser = Inl e \<Longrightarrow> \<not> is_panic (Some e)"
  by (auto simp: mp3_Parse_def Let_def split: if_splits)

definition codec_ok :: "CodecParser \<Rightarrow> bool" where
  "codec_ok cp \<longleftrightarrow> (\<forall>a. cp_aac cp = Some a \<longrightarrow> aac_ok a) \<and>
     (\<forall>m. cp_mp3 cp = Some m \<longrightarrow> samplingFrequency m \<in> insert 0 (set mp3Rates))"

lemma codec_Parse_ok:
  assumes "codec_ok cp" and "codec_Parse p cp w = (e, cp', w')"
  shows "\<not> is_panic e \<and> codec_ok cp'"
proof (cases "Header p")
  case None
  with assms show ?thesis by (simp add: codec_Parse_def)
next
  case (Some f)
  consider (video) "IsVideo p" | (aac) "\<not> IsVideo p" "SoundFormat f = SoundAAC"
    | (mp3) "\<not> IsVideo p" "SoundFormat f = SoundMP3"
    | (none) "\<not> IsVideo p" "SoundFormat f \<noteq> SoundAAC" "SoundFormat f \<noteq> SoundMP3" by blast
  then show ?thesis
  proof cases
    case video
    with Some assms h264_Parse_no_panic show ?thesis
      by (auto simp: codec_Parse_def codec_ok_def Let_def split: if_splits prod.splits)
  next
    case aac
    let ?a = "case cp_aac cp of None \<Rightarrow> aac_NewParser | Some a \<Rightarrow> a"
    have "aac_ok ?a" using assms(1) by (auto simp: codec_ok_def aac_ok_def aac_NewParser_def split: option.splits)
    with aac Some assms aac_Parse_ok [of ?a] show ?thesis
      by (auto simp: codec_Parse_def codec_ok_def Let_def split: prod.splits)
  next
    case mp3
    then have "SoundFormat f \<noteq> SoundAAC" by simp
    with mp3 Some assms show ?thesis
      by (auto simp: codec_Parse_def codec_ok_def Let_def mp3_NewParser_def mp3_Parse_rate mp3_Parse_no_panic
          split: sum.splits option.splits)
  next
    case none
    with Some assms show ?thesis by (simp add: codec_Parse_def)
  qed
qed

text \<open>A run over packets, with the results of the calls.\<close>

fun codec_run :: "packet list \<Rightarrow> CodecParser \<Rightarrow> sink \<Rightarrow> exn option list \<times> CodecParser \<times> sink" where
  "codec_run [] cp w = ([], cp, w)"
| "codec_run (p # ps) cp w =
     (case codec_Parse p cp w of (e, cp, w) \<Rightarrow>
      case codec_run ps cp w of (es, cp, w) \<Rightarrow> (e # es, cp, w))"

lemma codec_run_ok:
  "codec_ok cp \<Longrightarrow> codec_run ps cp w = (es, cp', w') \<Longrightarrow> list_all (\<lambda>e. \<not> is_panic e) es \<and> codec_ok cp'"
proof (induction ps arbitrary: cp w es)
  case (Cons p ps)
  then show ?case using codec_Parse_ok [OF Cons.prems(1), of p w] by (auto split: prod.splits)
qed simp

text \<open>
  The codec parsers never panic, whatever packets they are given and however the writer fails; and once
  there is an audio parser the sampling rate it reports is one of the tables' rates, so that it is
  never zero.
\<close>

theorem codec_parsers_safe:
  "case codec_run ps NewCodecParser w of (es, cp, w') \<Rightarrow>
     list_all (\<lambda>e. \<not> is_panic e) es \<and>
     (case codec_SampleRate cp of
        (Inl e, _) \<Rightarrow> cp_aac cp = None \<and> cp_mp3 cp = None
      | (Inr r, _) \<Rightarrow> r \<in> set aacRates \<union> set mp3Rates \<and> 0 < r)"
proof -
  obtain es cp w' where run: "codec_run ps NewCodecParser w = (es, cp, w')" by (metis prod_cases3)
  have "codec_ok NewCodecParser" by (simp add: codec_ok_def NewCodecParser_def)
  then have ok: "list_all (\<lambda>e. \<not> is_panic e) es" "codec_ok cp" using codec_run_ok run by blast+
  have pos: "r \<in> set aacRates \<union> set mp3Rates \<Longrightarrow> 0 < r" for r by (auto simp: aacRates_def mp3Rates_def)
  have m: "fst (mp3_SampleRate m) \<in> set mp3Rates" if "cp_mp3 cp = Some m" for m
    using ok(2) that by (auto simp: codec_ok_def mp3_SampleRate_def Let_def mp3Rates_def)
  show ?thesis
    using ok(1) run m pos aac_SampleRate_known
    by (auto simp: codec_SampleRate_def split: option.splits prod.splits)
qed

end
