(* ===== verification/Crc32.thy ===== *)
theory Crc32
  imports Prelude
begin

text \<open>
  \<^verbatim>\<open>src/container/ts/crc32.go\<close>: the checksum of the program tables of a transport stream, by a table
  of 256 remainders. It is shown to be the bitwise division by the polynomial \<^verbatim>\<open>0x04c11db7\<close>, and a
  section that ends in its own checksum has checksum zero, which is how a receiver checks it.
\<close>

unbundle bit_operations_syntax

definition crcTable :: "u32 list" where
  "crcTable =
    [0x00000000, 0x04c11db7, 0x09823b6e, 0x0d4326d9, 0x130476dc, 0x17c56b6b, 0x1a864db2, 0x1e475005,
     0x2608edb8, 0x22c9f00f, 0x2f8ad6d6, 0x2b4bcb61, 0x350c9b64, 0x31cd86d3, 0x3c8ea00a, 0x384fbdbd,
     0x4c11db70, 0x48d0c6c7, 0x4593e01e, 0x4152fda9, 0x5f15adac, 0x5bd4b01b, 0x569796c2, 0x52568b75,
     0x6a1936c8, 0x6ed82b7f, 0x639b0da6, 0x675a1011, 0x791d4014, 0x7ddc5da3, 0x709f7b7a, 0x745e66cd,
     0x9823b6e0, 0x9ce2ab57, 0x91a18d8e, 0x95609039, 0x8b27c03c, 0x8fe6dd8b, 0x82a5fb52, 0x8664e6e5,
     0xbe2b5b58, 0xbaea46ef, 0xb7a96036, 0xb3687d81, 0xad2f2d84, 0xa9ee3033, 0xa4ad16ea, 0xa06c0b5d,
     0xd4326d90, 0xd0f37027, 0xddb056fe, 0xd9714b49, 0xc7361b4c, 0xc3f706fb, 0xceb42022, 0xca753d95,
     0xf23a8028, 0xf6fb9d9f, 0xfbb8bb46, 0xff79a6f1, 0xe13ef6f4, 0xe5ffeb43, 0xe8bccd9a, 0xec7dd02d,
     0x34867077, 0x30476dc0, 0x3d044b19, 0x39c556ae, 0x278206ab, 0x23431b1c, 0x2e003dc5, 0x2ac12072,
     0x128e9dcf, 0x164f8078, 0x1b0ca6a1, 0x1fcdbb16, 0x018aeb13, 0x054bf6a4, 0x0808d07d, 0x0cc9cdca,
     0x7897ab07, 0x7c56b6b0, 0x71159069, 0x75d48dde, 0x6b93dddb, 0x6f52c06c, 0x6211e6b5, 0x66d0fb02,
     0x5e9f46bf, 0x5a5e5b08, 0x571d7dd1, 0x53dc6066, 0x4d9b3063, 0x495a2dd4, 0x44190b0d, 0x40d816ba,
     0xaca5c697, 0xa864db20, 0xa527fdf9, 0xa1e6e04e, 0xbfa1b04b, 0xbb60adfc, 0xb6238b25, 0xb2e29692,
     0x8aad2b2f, 0x8e6c3698, 0x832f1041, 0x87ee0df6, 0x99a95df3, 0x9d684044, 0x902b669d, 0x94ea7b2a,
     0xe0b41de7, 0xe4750050, 0xe9362689, 0xedf73b3e, 0xf3b06b3b, 0xf771768c, 0xfa325055, 0xfef34de2,
     0xc6bcf05f, 0xc27dede8, 0xcf3ecb31, 0xcbffd686, 0xd5b88683, 0xd1799b34, 0xdc3abded, 0xd8fba05a,
     0x690ce0ee, 0x6dcdfd59, 0x608edb80, 0x644fc637, 0x7a089632, 0x7ec98b85, 0x738aad5c, 0x774bb0eb,
     0x4f040d56, 0x4bc510e1, 0x46863638, 0x42472b8f, 0x5c007b8a, 0x58c1663d, 0x558240e4, 0x51435d53,
     0x251d3b9e, 0x21dc2629, 0x2c9f00f0, 0x285e1d47, 0x36194d42, 0x32d850f5, 0x3f9b762c, 0x3b5a6b9b,
     0x0315d626, 0x07d4cb91, 0x0a97ed48, 0x0e56f0ff, 0x1011a0fa, 0x14d0bd4d, 0x19939b94, 0x1d528623,
     0xf12f560e, 0xf5ee4bb9, 0xf8ad6d60, 0xfc6c70d7, 0xe22b20d2, 0xe6ea3d65, 0xeba91bbc, 0xef68060b,
     0xd727bbb6, 0xd3e6a601, 0xdea580d8, 0xda649d6f, 0xc423cd6a, 0xc0e2d0dd, 0xcda1f604, 0xc960ebb3,
     0xbd3e8d7e, 0xb9ff90c9, 0xb4bcb610, 0xb07daba7, 0xae3afba2, 0xaafbe615, 0xa7b8c0cc, 0xa379dd7b,
     0x9b3660c6, 0x9ff77d71, 0x92b45ba8, 0x9675461f, 0x8832161a, 0x8cf30bad, 0x81b02d74, 0x857130c3,
     0x5d8a9099, 0x594b8d2e, 0x5408abf7, 0x50c9b640, 0x4e8ee645, 0x4a4ffbf2, 0x470cdd2b, 0x43cdc09c,
     0x7b827d21, 0x7f436096, 0x7200464f, 0x76c15bf8, 0x68860bfd, 0x6c47164a, 0x61043093, 0x65c52d24,
     0x119b4be9, 0x155a565e, 0x18197087, 0x1cd86d30, 0x029f3d35, 0x065e2082, 0x0b1d065b, 0x0fdc1bec,
     0x3793a651, 0x3352bbe6, 0x3e119d3f, 0x3ad08088, 0x2497d08d, 0x2056cd3a, 0x2d15ebe3, 0x29d4f654,
     0xc5a92679, 0xc1683bce, 0xcc2b1d17, 0xc8ea00a0, 0xd6ad50a5, 0xd26c4d12, 0xdf2f6bcb, 0xdbee767c,
     0xe3a1cbc1, 0xe760d676, 0xea23f0af, 0xeee2ed18, 0xf0a5bd1d, 0xf464a0aa, 0xf9278673, 0xfde69bc4,
     0x89b8fd09, 0x8d79e0be, 0x803ac667, 0x84fbdbd0, 0x9abc8bd5, 0x9e7d9662, 0x933eb0bb, 0x97ffad0c,
     0xafb010b1, 0xab710d06, 0xa6322bdf, 0xa2f33668, 0xbcb4666d, 0xb8757bda, 0xb5365d03, 0xb1f740b4]"

fun crc32_loop :: "u32 \<Rightarrow> bytes \<Rightarrow> u32" where
  "crc32_loop crc32 [] = crc32"
| "crc32_loop crc32 (b # src) =
     (let j = (ucast (drop_bit 24 crc32) XOR b) AND 0xff
      in crc32_loop (push_bit 8 crc32 XOR crcTable ! unat j) src)"

definition GenCrc32 :: "bytes \<Rightarrow> u32" where
  "GenCrc32 src = crc32_loop 0xFFFFFFFF src"

section \<open>Division bit by bit\<close>

text \<open>One step of the shift register, eight of them, and the checksum of a message.\<close>

definition crc_shift :: "u32 \<Rightarrow> u32" where
  "crc_shift r = push_bit 1 r XOR (if bit r 31 then 0x04c11db7 else 0)"

definition crc_byte :: "u32 \<Rightarrow> u32" where
  "crc_byte r = (crc_shift ^^ 8) r"

definition crc_mpeg2 :: "bytes \<Rightarrow> u32" where
  "crc_mpeg2 src = foldl (\<lambda>r b. crc_byte (r XOR push_bit 24 (ucast b))) 0xFFFFFFFF src"


text \<open>
  The table by doubling: the entry of \<open>2 * k\<close> is one shift of the entry of \<open>k\<close>, and the entry of
  \<open>2 * k + 1\<close> adds the polynomial.
\<close>

fun in_pairs :: "'a list \<Rightarrow> ('a \<times> 'a) list" where
  "in_pairs (a # b # xs) = (a, b) # in_pairs xs"
| "in_pairs _ = []"

lemma crcTable_doubling:
  "in_pairs crcTable = map (\<lambda>r. (crc_shift r, crc_shift r XOR 0x04c11db7)) (take 128 crcTable)"
  by (simp add: crcTable_def crc_shift_def)

lemma length_crcTable: "length crcTable = 256"
  by (simp add: crcTable_def)

lemma nth_in_pairs: "2 * k + 1 < length xs \<Longrightarrow> in_pairs xs ! k = (xs ! (2 * k), xs ! (2 * k + 1))"
proof (induction xs arbitrary: k rule: in_pairs.induct)
  case (1 a b xs)
  then show ?case by (cases k) auto
qed auto

lemma crcTable_double:
  assumes "k < 128"
  shows "crcTable ! (2 * k) = crc_shift (crcTable ! k)"
    and "crcTable ! (2 * k + 1) = crc_shift (crcTable ! k) XOR 0x04c11db7"
proof -
  have "in_pairs crcTable ! k = (crcTable ! (2 * k), crcTable ! (2 * k + 1))"
    using assms by (intro nth_in_pairs) (simp add: length_crcTable)
  moreover have "in_pairs crcTable ! k = (crc_shift (crcTable ! k), crc_shift (crcTable ! k) XOR 0x04c11db7)"
    unfolding crcTable_doubling using assms by (simp add: length_crcTable)
  ultimately have "(crcTable ! (2 * k), crcTable ! (2 * k + 1)) = (crc_shift (crcTable ! k), crc_shift (crcTable ! k) XOR 0x04c11db7)"
    by (rule trans [OF sym])
  then show "crcTable ! (2 * k) = crc_shift (crcTable ! k)"
    and "crcTable ! (2 * k + 1) = crc_shift (crcTable ! k) XOR 0x04c11db7"
    by (simp_all only: prod.inject)
qed

text \<open>The shift register is linear.\<close>

lemma crc_shift_xor: "crc_shift (a XOR b) = crc_shift a XOR crc_shift b"
proof -
  have "push_bit n (a XOR b) = push_bit n a XOR push_bit n b" for n
    by (rule bit_word_eqI) (auto simp: bit_simps)
  then show ?thesis
    by (cases "bit a 31"; cases "bit b 31")
      (simp_all add: crc_shift_def bit_xor_iff xor.assoc xor.commute xor.left_commute)
qed

lemma crc_byte_xor: "crc_byte (a XOR b) = crc_byte a XOR crc_byte b"
proof -
  have "(crc_shift ^^ n) (a XOR b) = (crc_shift ^^ n) a XOR (crc_shift ^^ n) b" for n
    by (induction n) (simp_all add: crc_shift_xor)
  then show ?thesis by (simp add: crc_byte_def)
qed

lemma crc_byte_low: "crc_byte (take_bit 24 r) = push_bit 8 r"
proof -
  have "(crc_shift ^^ n) (take_bit 24 r) = push_bit n (take_bit 24 r)" if "n \<le> 8" for n
    using that
  proof (induction n)
    case (Suc n)
    have "\<not> 31 - n < 24" using Suc.prems by simp
    then have "\<not> bit (push_bit n (take_bit 24 r)) 31" by (simp add: bit_push_bit_iff bit_take_bit_iff)
    moreover have "push_bit 1 (push_bit n (take_bit 24 r)) = push_bit (Suc n) (take_bit 24 r)"
      by (simp add: push_bit_eq_mult)
    ultimately show ?case using Suc by (simp only: funpow.simps o_apply crc_shift_def) simp
  qed simp
  moreover have "push_bit 8 (take_bit 24 r) = push_bit 8 r"
    by (rule bit_word_eqI) (auto simp: bit_simps)
  ultimately show ?thesis by (simp add: crc_byte_def)
qed

lemma crc_shift_byte: "crc_shift (crc_byte r) = crc_byte (crc_shift r)"
  by (simp add: crc_byte_def funpow_swap1)

lemma crc_byte_unfold:
  "crc_byte r = crc_shift (crc_shift (crc_shift (crc_shift (crc_shift (crc_shift (crc_shift (crc_shift r)))))))"
  by (simp add: crc_byte_def eval_nat_numeral)

lemma crc_shift_top:
  assumes "k < 128"
  shows "crc_shift (push_bit 24 (word_of_nat k)) = push_bit 24 (word_of_nat (2 * k))"
proof -
  have "\<not> bit k 7" using assms by (simp add: bit_iff_odd)
  then have "\<not> bit (push_bit 24 (word_of_nat k :: u32)) 31" by (simp add: bit_push_bit_iff bit_of_nat_iff)
  moreover have "push_bit 1 (push_bit 24 (word_of_nat k :: u32)) = push_bit 24 (word_of_nat (2 * k))"
    by (simp add: push_bit_eq_mult)
  ultimately show ?thesis by (simp add: crc_shift_def)
qed

lemma push_bit_odd: "push_bit 24 (word_of_nat (2 * k + 1)) = push_bit 24 (word_of_nat (2 * k)) XOR (push_bit 24 1 :: u32)"
proof -
  have "(word_of_nat (2 * k + 1) :: u32) = word_of_nat (2 * k) XOR 1"
    by (rule bit_word_eqI) (auto simp: bit_of_nat_iff bit_xor_iff bit_1_iff even_bit_succ_iff bit_0 bit_double_iff)
  moreover have "push_bit 24 (a XOR b) = push_bit 24 a XOR (push_bit 24 b :: u32)" for a b
    by (rule bit_word_eqI) (auto simp: bit_simps)
  ultimately show ?thesis by simp
qed

lemma crcTable_nth: "j < 256 \<Longrightarrow> crcTable ! j = crc_byte (push_bit 24 (word_of_nat j))"
proof (induction j rule: less_induct)
  case (less j)
  let ?k = "j div 2"
  have k: "?k < 128" using less.prems by simp
  show ?case
  proof (cases "j = 0")
    case True
    then show ?thesis by (simp add: crcTable_def crc_byte_unfold crc_shift_def)
  next
    case False
    then have ih: "crcTable ! ?k = crc_byte (push_bit 24 (word_of_nat ?k))" using less by simp
    have even: "crcTable ! (2 * ?k) = crc_byte (push_bit 24 (word_of_nat (2 * ?k)))"
      using crcTable_double(1) [OF k] crc_shift_top [OF k] ih by (simp only: crc_shift_byte)
    show ?thesis
    proof (cases "even j")
      case True
      with even show ?thesis by simp
    next
      case False
      then have j: "j = 2 * ?k + 1" by simp
      have "crc_byte (push_bit 24 1) = 0x04c11db7" by (simp add: crc_byte_unfold crc_shift_def)
      then have "crcTable ! (2 * ?k + 1) = crc_byte (push_bit 24 (word_of_nat (2 * ?k + 1)))"
        using crcTable_double [OF k] even by (simp only: push_bit_odd crc_byte_xor)
      then show ?thesis by (simp only: j [symmetric])
    qed
  qed
qed

text \<open>One round of the table version is eight shifts.\<close>

lemma crc_byte_table:
  "crc_byte (crc XOR push_bit 24 (ucast b)) =
   push_bit 8 crc XOR crcTable ! unat ((ucast (drop_bit 24 crc) XOR b) AND 0xff)" for b :: byte
proof -
  let ?r = "crc XOR push_bit 24 (ucast b)"
  let ?j = "ucast (drop_bit 24 crc) XOR b :: byte"
  have r: "?r = push_bit 24 (ucast ?j) XOR take_bit 24 ?r"
    by (rule bit_word_eqI) (auto simp: bit_simps)
  have "crc_byte ?r = crc_byte (push_bit 24 (ucast ?j)) XOR push_bit 8 ?r"
    by (subst r) (simp only: crc_byte_xor [of "push_bit 24 (ucast ?j)" "take_bit 24 ?r"] crc_byte_low)
  moreover have "crcTable ! unat ?j = crc_byte (push_bit 24 (ucast ?j))"
    using crcTable_nth [of "unat ?j"] unsigned_less [of ?j] by simp
  moreover have "push_bit 8 ?r = push_bit 8 crc"
    by (rule bit_word_eqI) (auto simp: bit_simps)
  ultimately show ?thesis by (simp add: xor.commute)
qed

lemma crc32_loop_foldl: "crc32_loop r src = foldl (\<lambda>r b. crc_byte (r XOR push_bit 24 (ucast b))) r src"
  by (induction src arbitrary: r) (simp_all add: crc_byte_table Let_def del: byte_and_255)

lemma crc32_loop_append: "crc32_loop r (xs @ ys) = crc32_loop (crc32_loop r xs) ys"
  by (simp add: crc32_loop_foldl)

lemma GenCrc32_self: "GenCrc32 (src @ be_bytes 4 (GenCrc32 src)) = 0"
proof -
  have z: "crcTable ! 0 = 0" by (simp add: crcTable_def)
  have top: "ucast (drop_bit 24 (push_bit n r)) = (ucast (drop_bit (24 - n) r) :: byte)" if "n \<le> 24" for n and r :: u32
    using that by (intro bit_word_eqI) (auto simp: bit_simps)
  have "crc32_loop r (be_bytes 4 r) = 0" for r
  proof -
    have "push_bit 8 (push_bit 8 (push_bit 8 (push_bit 8 r))) = 0" by (rule bit_word_eqI) (simp add: bit_simps)
    moreover have "be_bytes 4 r = [ucast (drop_bit 24 r), ucast (drop_bit 16 r), ucast (drop_bit 8 r), ucast r]"
      by (simp add: eval_nat_numeral)
    ultimately show ?thesis
      using top [of 8 r] top [of 16 r] top [of 24 r] by (simp add: z push_bit_push_bit)
  qed
  then show ?thesis by (simp add: GenCrc32_def crc32_loop_append)
qed

text \<open>
  C37: the table-driven checksum is the remainder of the bitwise division of MPEG-2 (polynomial
  \<^verbatim>\<open>0x04c11db7\<close>, register preset to ones, nothing reflected), and a message followed by its own checksum
  has checksum zero.
\<close>

theorem crc32_is_mpeg2:
  "GenCrc32 src = crc_mpeg2 src \<and> GenCrc32 (src @ be_bytes 4 (GenCrc32 src)) = 0"
  using GenCrc32_self by (simp add: GenCrc32_def crc_mpeg2_def crc32_loop_foldl)

end
