(* ===== verification/TsMuxer.thy ===== *)
theory TsMuxer
  imports FlvTag Crc32
begin

text \<open>
  \<^verbatim>\<open>src/container/ts/muxer.go\<close>: cutting a packet of elementary stream into the 188-byte packets of an
  MPEG transport stream, and the two program tables.

  The byte variables \<^verbatim>\<open>i\<close>, \<^verbatim>\<open>dataLen\<close>, \<^verbatim>\<open>remainBytes\<close> and \<^verbatim>\<open>tmpLen\<close> are natural numbers below 256 with
  the wrap-around of \<^verbatim>\<open>uint8\<close> written out (\<open>byte_add\<close>, \<open>byte_sub\<close>); it happens for small key frames.
  Time stamps are \<^verbatim>\<open>int64\<close> products of a 32-bit number and 90, which do not overflow.
\<close>

unbundle bit_operations_syntax

declare be_bytes.simps [simp del]

abbreviation tsDefaultDataLen :: nat where "tsDefaultDataLen \<equiv> 184"
abbreviation tsPacketLen :: nat where "tsPacketLen \<equiv> 188"
abbreviation h264DefaultHZ :: int where "h264DefaultHZ \<equiv> 90"
abbreviation videoPID :: u32 where "videoPID \<equiv> 0x100"
abbreviation audioPID :: u32 where "audioPID \<equiv> 0x101"
abbreviation videoSID :: byte where "videoSID \<equiv> 0xe0"
abbreviation audioSID :: byte where "audioSID \<equiv> 0xc0"

definition byte_add :: "nat \<Rightarrow> nat \<Rightarrow> nat" where
  "byte_add a b = (a + b) mod 256"

definition byte_sub :: "nat \<Rightarrow> nat \<Rightarrow> nat" where
  "byte_sub a b = nat ((int a - int b) mod 256)"

record Muxer =
  videoCc :: byte
  audioCc :: byte
  patCc :: byte
  pmtCc :: byte
  mx_pat :: bytes
  mx_pmt :: bytes
  tsPacket :: bytes

definition NewMuxer :: Muxer where
  "NewMuxer = \<lparr>videoCc = 0, audioCc = 0, patCc = 0, pmtCc = 0, mx_pat = replicate tsPacketLen 0,
     mx_pmt = replicate tsPacketLen 0, tsPacket = replicate tsPacketLen 0\<rparr>"

section \<open>The PES header\<close>

record pesHeader =
  pes_len :: nat
  pes_data :: bytes

text \<open>The five bytes that \<^verbatim>\<open>writeTs\<close> stores.\<close>

definition writeTs :: "nat \<Rightarrow> int \<Rightarrow> bytes" where
  "writeTs fb ts =
     (let ts = (if ts > 0x1ffffffff then ts - 0x1ffffffff else ts);
          v1 = (word_of_nat (push_bit 4 fb) OR push_bit 1 (word_of_int (drop_bit 30 ts) AND 0x07) OR 1 :: u32);
          v2 = (push_bit 1 (word_of_int (drop_bit 15 ts) AND 0x7fff) OR 1 :: u32);
          v3 = (push_bit 1 (word_of_int (ts AND 0x7fff)) OR 1 :: u32)
      in [ucast v1, ucast (drop_bit 8 v2), ucast v2, ucast (drop_bit 8 v3), ucast v3])"

definition pes_packet :: "packet \<Rightarrow> int \<Rightarrow> int \<Rightarrow> pesHeader" where
  "pes_packet p pts dts =
     (let sid = (if IsVideo p then videoSID else audioSID);
          withDts = (IsVideo p \<and> pts \<noteq> dts);
          flag = (if withDts then 0x80 OR 0x40 else 0x80 :: nat);
          headerSize = (if withDts then 5 + 5 else 5 :: nat);
          size = length (pkt_Data p) + headerSize + 3;
          size = (if size > 0xffff then 0 else size);
          hdr = [0x00, 0x00, 0x01, sid, word_of_nat (drop_bit 8 size), word_of_nat size, 0x80, word_of_nat flag,
                 word_of_nat headerSize] @ writeTs (drop_bit 6 flag) pts @ (if withDts then writeTs 1 dts else [])
      in \<lparr>pes_len = length hdr, pes_data = hdr @ replicate (tsPacketLen - length hdr) 0\<rparr>)"

section \<open>Transport packets\<close>

text \<open>\<^verbatim>\<open>writePcr\<close> stores six bytes at \<open>i\<close>; \<^verbatim>\<open>adaptationBufInit\<close> gets the packet from \<^verbatim>\<open>i\<close> on.\<close>

definition writePcr :: "bytes \<Rightarrow> nat \<Rightarrow> int \<Rightarrow> bytes" where
  "writePcr b i pcr =
     b[i := word_of_int (drop_bit 25 pcr), i + 1 := word_of_int (drop_bit 17 pcr AND 0xff),
       i + 2 := word_of_int (drop_bit 9 pcr AND 0xff), i + 3 := word_of_int (drop_bit 1 pcr AND 0xff),
       i + 4 := word_of_int (push_bit 7 (pcr AND 1) OR 0x7e), i + 5 := 0x00]"

definition adaptationBufInit :: "bytes \<Rightarrow> nat \<Rightarrow> bytes res" where
  "adaptationBufInit src remainBytes =
     bindR (index_at src 0) (\<lambda>_.
       let src = src[0 := word_of_nat (byte_sub remainBytes 1)]
       in if remainBytes = 1 then Inr src
          else bindR (index_at src 1) (\<lambda>_.
                 Inr (take 1 src @ [0x00] @ replicate (length src - 2) 0xff)))"

definition nextCc :: "byte \<Rightarrow> byte" where
  "nextCc cc = (let cc = cc + 1 in if cc > 0xf then 0 else cc)"

text \<open>The variables of the loop of \<^verbatim>\<open>Mux\<close> that live across its rounds.\<close>

record mux_vars =
  mv_first :: bool
  mv_wBytes :: nat
  mv_pesIndex :: nat
  mv_pesHeaderLen :: nat
  mv_packetBytesLen :: int

text \<open>
  The parts of one round: the four header bytes with the clock reference of a key frame (lines 77 to 111),
  the length of the payload with its stuffing (lines 114 to 130), the PES header (131 to 142) and the data
  (144 to 152).
\<close>

definition mux_header :: "bool \<Rightarrow> bool \<Rightarrow> bool \<Rightarrow> byte \<Rightarrow> int \<Rightarrow> bytes \<Rightarrow> bytes \<times> nat" where
  "mux_header first video key cc dts pkt =
     (let pid = (if video then videoPID else audioPID);
          pkt = pkt[0 := 0x47, 1 := ucast (drop_bit 8 pid) OR (if first then 0x40 else 0), 2 := ucast pid, 3 := 0x10 OR (cc AND 0x0f)]
      in if first \<and> video \<and> key
         then (writePcr (pkt[3 := pkt ! 3 OR 0x20, 4 := 7, 5 := 0x50]) 6 dts, 12)
         else (pkt, 4))"

definition mux_stuff :: "bool \<Rightarrow> int \<Rightarrow> bytes \<times> nat \<Rightarrow> (bytes \<times> nat \<times> nat) res" where
  "mux_stuff first packetBytesLen = (\<lambda>(pkt, i).
     if packetBytesLen \<ge> int tsDefaultDataLen
     then Inr (pkt, i, if first then byte_sub tsDefaultDataLen (i - 4) else tsDefaultDataLen)
     else let pkt = pkt[3 := pkt ! 3 OR 0x20];
              dataLen = nat (packetBytesLen mod 256);
              remainBytes = (if first then byte_sub (byte_sub tsDefaultDataLen dataLen) (i - 4)
                             else byte_sub tsDefaultDataLen dataLen)
          in bindR (adaptationBufInit (drop i pkt) remainBytes) (\<lambda>src.
               Inr (take i pkt @ src, byte_add i remainBytes, dataLen)))"

definition mux_pes :: "pesHeader \<Rightarrow> mux_vars \<Rightarrow> bytes \<times> nat \<times> nat \<Rightarrow> ((bytes \<times> nat \<times> nat) \<times> mux_vars) res" where
  "mux_pes pes v = (\<lambda>(pkt, i, dataLen).
     if mv_first v \<and> i < tsPacketLen \<and> mv_pesHeaderLen v > 0
     then let tmpLen = (if mv_pesHeaderLen v \<le> tsPacketLen - i then mv_pesHeaderLen v else tsPacketLen - i)
          in bindR (slice (pes_data pes) (mv_pesIndex v) (mv_pesIndex v + tmpLen)) (\<lambda>h.
               Inr ((copy_at pkt i h, byte_add i tmpLen, byte_sub dataLen tmpLen),
                    v\<lparr>mv_packetBytesLen := mv_packetBytesLen v - int tmpLen,
                      mv_pesHeaderLen := mv_pesHeaderLen v - tmpLen, mv_pesIndex := mv_pesIndex v + tmpLen\<rparr>))
     else Inr ((pkt, i, dataLen), v))"

definition mux_data :: "bytes \<Rightarrow> mux_vars \<Rightarrow> bytes \<times> nat \<times> nat \<Rightarrow> (bytes \<times> mux_vars) res" where
  "mux_data data v = (\<lambda>(pkt, i, dataLen).
     if i < tsPacketLen
     then let dataLen = (if tsPacketLen - i \<le> dataLen then tsPacketLen - i else dataLen)
          in bindR (slice data (mv_wBytes v) (mv_wBytes v + dataLen)) (\<lambda>d.
               Inr (copy_at pkt i d, v\<lparr>mv_wBytes := mv_wBytes v + dataLen,
                      mv_packetBytesLen := mv_packetBytesLen v - int dataLen\<rparr>))
     else Inr (pkt, v))"

definition mux_round :: "packet \<Rightarrow> pesHeader \<Rightarrow> int \<Rightarrow> bool \<Rightarrow> mux_vars \<Rightarrow> Muxer \<Rightarrow> (mux_vars \<times> Muxer) res" where
  "mux_round p pes dts key v muxer =
     (let muxer = (if IsVideo p then muxer\<lparr>videoCc := nextCc (videoCc muxer)\<rparr> else muxer\<lparr>audioCc := nextCc (audioCc muxer)\<rparr>);
          cc = (if IsVideo p then videoCc muxer else audioCc muxer)
      in bindR (mux_stuff (mv_first v) (mv_packetBytesLen v)
                  (mux_header (mv_first v) (IsVideo p) key cc dts (tsPacket muxer))) (\<lambda>s.
         bindR (mux_pes pes v s) (\<lambda>(s, v).
         bindR (mux_data (pkt_Data p) v s) (\<lambda>(pkt, v).
           Inr (v\<lparr>mv_first := False\<rparr>, muxer\<lparr>tsPacket := pkt\<rparr>)))))"

text \<open>Every round consumes something, so that the loop ends.\<close>

lemma byte_sub_less [simp]: "byte_sub a b < 256"
  by (simp add: byte_sub_def nat_less_iff)

lemma byte_sub_le: "b \<le> a \<Longrightarrow> a < 256 \<Longrightarrow> byte_sub a b = a - b"
  by (simp add: byte_sub_def nat_mod_as_int)

lemma byte_add_small: "a + b < 256 \<Longrightarrow> byte_add a b = a + b"
  by (simp add: byte_add_def)

lemma mux_header_index: "snd (mux_header first video key cc dts pkt) \<in> {4, 12}"
  and mux_header_plain: "\<not> first \<Longrightarrow> snd (mux_header first video key cc dts pkt) = 4"
  by (auto simp: mux_header_def Let_def)

lemma mux_stuff_index:
  assumes "mux_stuff first n (pkt, i) = Inr (pkt', i', dataLen)" and "0 < n" and "i = 4 \<or> first \<and> i = 12"
  shows "i' < tsPacketLen" and "0 < dataLen"
proof -
  have "i' < tsPacketLen \<and> 0 < dataLen"
  proof (cases "n \<ge> 184")
    case True
    with assms show ?thesis by (auto simp: mux_stuff_def byte_sub_le)
  next
    case False
    obtain k where k: "n = int k" "0 < k" "k < 184" using False assms(2) by (metis nat_0_le nat_less_iff order_less_imp_le zero_less_imp_eq_int not_le of_nat_numeral of_nat_less_iff)
    have r: "byte_sub 184 k = 184 - k" using k by (intro byte_sub_le) auto
    have "byte_add 4 (184 - k) = 188 - k" using k by (simp add: byte_add_def)
    moreover have "byte_add 4 (byte_sub (184 - k) 0) = 188 - k" using k by (simp add: byte_add_def byte_sub_le)
    moreover have "byte_add 12 (byte_sub (184 - k) 8) = 188 - k"
    proof (cases "k \<le> 176")
      case True
      then show ?thesis using k by (simp add: byte_add_def byte_sub_le)
    next
      case False
      have "(176 - int k) mod 256 = (176 - int k + 256) mod 256" by (rule mod_add_self2 [symmetric])
      also have "\<dots> = 432 - int k" using False k by (subst mod_pos_pos_trivial) auto
      finally have "byte_sub (184 - k) 8 = 432 - k"
        using k by (simp add: byte_sub_def of_nat_diff)
      then show ?thesis using False k by (simp add: byte_add_def mod_if)
    qed
    ultimately show ?thesis
      using assms k False r by (auto simp: mux_stuff_def Let_def split: if_splits)
  qed
  then show "i' < tsPacketLen" and "0 < dataLen" by simp_all
qed

lemma mux_pes_progress:
  assumes "mux_pes pes v (pkt, i, dataLen) = Inr ((pkt', i', dataLen'), v')"
  shows "mv_packetBytesLen v' < mv_packetBytesLen v \<or> mv_packetBytesLen v' = mv_packetBytesLen v \<and> i' = i \<and> dataLen' = dataLen"
  using assms by (auto simp: mux_pes_def Let_def split: if_splits)

lemma mux_data_progress:
  assumes "mux_data d v (pkt, i, dataLen) = Inr (pkt', v')"
  shows "mv_packetBytesLen v' \<le> mv_packetBytesLen v"
    and "i < tsPacketLen \<Longrightarrow> 0 < dataLen \<Longrightarrow> mv_packetBytesLen v' < mv_packetBytesLen v"
  using assms by (auto simp: mux_data_def Let_def split: if_splits)

lemma mux_round_progress:
  assumes "mux_round p pes dts key v muxer = Inr (v', muxer')" and "0 < mv_packetBytesLen v"
  shows "mv_packetBytesLen v' < mv_packetBytesLen v"
proof -
  define cc where "cc = nextCc (if IsVideo p then videoCc muxer else audioCc muxer)"
  obtain h i where h: "mux_header (mv_first v) (IsVideo p) key cc dts (tsPacket muxer) = (h, i)" by force
  have i: "i = 4 \<or> mv_first v \<and> i = 12"
    using h mux_header_index [of "mv_first v" "IsVideo p" key cc dts "tsPacket muxer"]
      mux_header_plain [of "mv_first v" "IsVideo p" key cc dts "tsPacket muxer"] by (cases "mv_first v") auto
  obtain s1 i1 d1 s2 i2 d2 v2 pkt v3 where st:
      "mux_stuff (mv_first v) (mv_packetBytesLen v) (h, i) = Inr (s1, i1, d1)"
      "mux_pes pes v (s1, i1, d1) = Inr ((s2, i2, d2), v2)"
      "mux_data (pkt_Data p) v2 (s2, i2, d2) = Inr (pkt, v3)" "v' = v3\<lparr>mv_first := False\<rparr>"
    using assms(1) h by (auto simp: mux_round_def Let_def cc_def split: if_splits)
  show ?thesis
    using mux_stuff_index [OF st(1) assms(2) i] mux_pes_progress [OF st(2)] mux_data_progress [OF st(3)] st(4) by auto
qed

function mux_loop ::
    "packet \<Rightarrow> pesHeader \<Rightarrow> int \<Rightarrow> bool \<Rightarrow> mux_vars \<Rightarrow> Muxer \<Rightarrow> sink option \<Rightarrow> exn option \<times> Muxer \<times> sink option" where
  "mux_loop p pes dts key v muxer w =
     (if mv_packetBytesLen v \<le> 0 then (None, muxer, w)
      else case mux_round p pes dts key v muxer of
        Inl e \<Rightarrow> (Some e, muxer, w)
      | Inr (v, muxer) \<Rightarrow>
          (case (case w of None \<Rightarrow> (None, None)
                 | Some k \<Rightarrow> (case sink_Write (tsPacket muxer) k of (e, k) \<Rightarrow> (e, Some k))) of
             (Some e, w) \<Rightarrow> (Some (Err e), muxer, w)
           | (None, w) \<Rightarrow> mux_loop p pes dts key v muxer w))"
  by pat_completeness auto
termination
  by (relation "measure (\<lambda>(_, _, _, _, v, _). nat (mv_packetBytesLen v))")
    (auto dest!: mux_round_progress)

declare mux_loop.simps [simp del]

text \<open>\<^verbatim>\<open>videoH\<close> is nil when the packet has no header, and a call on it panics.\<close>

definition Mux :: "packet \<Rightarrow> Muxer \<Rightarrow> sink option \<Rightarrow> exn option \<times> Muxer \<times> sink option" where
  "Mux p muxer w =
     (let dts = uint (TimeStamp p) * h264DefaultHZ
      in case (if IsVideo p
               then (case Header p of
                       None \<Rightarrow> Inl (Panic NilDereference)
                     | Some h \<Rightarrow> Inr (dts + sint (CompositionTime h) * h264DefaultHZ, IsKeyFrame h))
               else Inr (dts, False)) of
           Inl e \<Rightarrow> (Some e, muxer, w)
         | Inr (pts, key) \<Rightarrow>
             (let pes = pes_packet p pts dts
              in mux_loop p pes dts key
                   \<lparr>mv_first = True, mv_wBytes = 0, mv_pesIndex = 0, mv_pesHeaderLen = pes_len pes,
                    mv_packetBytesLen = int (length (pkt_Data p)) + int (pes_len pes)\<rparr> muxer w))"

section \<open>Program tables\<close>

definition PAT :: "Muxer \<Rightarrow> bytes \<times> Muxer" where
  "PAT muxer =
     (let patCc0 = (if patCc muxer > 0xf then 0 else patCc muxer);
          tsHeader = [0x47, 0x40, 0x00, 0x10 OR (patCc0 AND 0x0f), 0x00];
          patHeader = [0x00, 0xb0, 0x0d, 0x00, 0x01, 0xc1, 0x00, 0x00, 0x00, 0x01, 0xf0, 0x01];
          pat = copy_at (mx_pat muxer) 0 tsHeader;
          pat = copy_at pat 5 patHeader;
          crc = GenCrc32 patHeader;
          pat = pat[17 := ucast (drop_bit 24 crc), 18 := ucast (drop_bit 16 crc), 19 := ucast (drop_bit 8 crc), 20 := ucast crc];
          pat = take 21 pat @ replicate (tsPacketLen - 21) 0xff
      in (pat, muxer\<lparr>patCc := patCc0 + 1, mx_pat := pat\<rparr>))"

definition PMT :: "byte \<Rightarrow> bool \<Rightarrow> Muxer \<Rightarrow> bytes \<times> Muxer" where
  "PMT sound hasVideo muxer =
     (let progInfo = (if \<not> hasVideo then [0x0f, 0xe1, 0x01, 0xf0, 0x00]
                      else [0x1b, 0xe1, 0x00, 0xf0, 0x00, 0x0f, 0xe1, 0x01, 0xf0, 0x00]);
          pmtHeader = [0x02, 0xb0, 0xff, 0x00, 0x01, 0xc1, 0x00, 0x00, 0xe1, 0x00, 0xf0, 0x00];
          pmtHeader = (if \<not> hasVideo then pmtHeader[9 := 0x01] else pmtHeader);
          pmtHeader = pmtHeader[2 := word_of_nat (length progInfo + 9 + 4)];
          pmtCc0 = (if pmtCc muxer > 0xf then 0 else pmtCc muxer);
          tsHeader = [0x47, 0x50, 0x01, 0x10 OR (pmtCc0 AND 0x0f), 0x00];
          progInfo = (if sound = 2 \<or> sound = 14
                      then (if hasVideo then progInfo[5 := 0x4] else progInfo[0 := 0x4]) else progInfo);
          pmt = copy_at (mx_pmt muxer) 0 tsHeader;
          pmt = copy_at pmt 5 pmtHeader;
          pmt = copy_at pmt 17 progInfo;
          i = 17 + length progInfo;
          crc = GenCrc32 (take (length pmtHeader + length progInfo) (drop 5 pmt));
          pmt = pmt[i := ucast (drop_bit 24 crc), i + 1 := ucast (drop_bit 16 crc), i + 2 := ucast (drop_bit 8 crc), i + 3 := ucast crc];
          pmt = take (i + 4) pmt @ replicate (tsPacketLen - (i + 4)) 0xff
      in (pmt, muxer\<lparr>pmtCc := pmtCc0 + 1, mx_pmt := pmt\<rparr>))"

section \<open>Reading a transport packet\<close>

text \<open>
  The fields of a transport packet, as a receiver reads them (ISO/IEC 13818-1): the packet identifier, the
  mark of the first packet of a PES packet, the continuity counter, and the payload behind the
  adaptation field, whose first byte is its length.
\<close>

definition ts_pid :: "bytes \<Rightarrow> nat" where
  "ts_pid pkt = unat (pkt ! 1 AND 0x1f) * 256 + unat (pkt ! 2)"

definition ts_start :: "bytes \<Rightarrow> bool" where
  "ts_start pkt \<longleftrightarrow> bit (pkt ! 1) 6"

definition ts_cc :: "bytes \<Rightarrow> nat" where
  "ts_cc pkt = unat (pkt ! 3 AND 0x0f)"

definition ts_payload :: "bytes \<Rightarrow> bytes" where
  "ts_payload pkt = (if bit (pkt ! 3) 5 then drop (5 + unat (pkt ! 4)) pkt else drop 4 pkt)"

text \<open>The packets of one elementary stream, with counters that follow \<open>n\<close>.\<close>

definition ts_ok :: "bool \<Rightarrow> bool \<Rightarrow> nat \<Rightarrow> bytes \<Rightarrow> bool" where
  "ts_ok video start n pkt \<longleftrightarrow> length pkt = 188 \<and> pkt ! 0 = 0x47 \<and> ts_pid pkt = (if video then 0x100 else 0x101) \<and>
     (ts_start pkt \<longleftrightarrow> start) \<and> ts_cc pkt = n"

fun ts_seq :: "bool \<Rightarrow> bool \<Rightarrow> nat \<Rightarrow> bytes list \<Rightarrow> bool" where
  "ts_seq video start n [] \<longleftrightarrow> True"
| "ts_seq video start n (pkt # pkts) \<longleftrightarrow>
     ts_ok video start ((n + 1) mod 16) pkt \<and> ts_seq video False ((n + 1) mod 16) pkts"

section \<open>One round\<close>

definition stuffing :: "nat \<Rightarrow> bytes" where
  "stuffing s = (if s = 0 then [] else if s = 1 then [0] else word_of_nat (s - 1) # 0 # replicate (s - 2) 0xff)"

definition ts_header :: "bool \<Rightarrow> bool \<Rightarrow> bool \<Rightarrow> byte \<Rightarrow> bytes" where
  "ts_header video start adapt cc =
     [0x47, if start then 0x41 else 0x01, if video then 0x00 else 0x01, (if adapt then 0x30 else 0x10) OR (cc AND 0x0f)]"

definition pcr_field :: "int \<Rightarrow> bytes" where
  "pcr_field dts = 7 # 0x50 # writePcr [0, 0, 0, 0, 0, 0] 0 dts"

lemma length_stuffing [simp]: "length (stuffing s) = s"
  by (auto simp: stuffing_def)

lemma length_ts_header [simp]: "length (ts_header video start adapt cc) = 4"
  by (simp add: ts_header_def)

lemma length_pcr_field [simp]: "length (pcr_field dts) = 8"
  by (simp add: pcr_field_def writePcr_def)

lemma cc_or_20: "(0x10 OR (cc AND 0x0f)) OR 0x20 = (0x30 OR (cc AND 0x0f) :: byte)"
proof -
  have "(0x10 OR (x :: byte)) OR 0x20 = (0x10 OR 0x20) OR x" for x by (simp only: or.assoc or.commute or.left_commute)
  then show ?thesis by simp
qed

lemma list_12: "length h = 12 \<Longrightarrow> \<exists>x0 x1 x2 x3 x4 x5 x6 x7 x8 x9 x10 x11. h = [x0, x1, x2, x3, x4, x5, x6, x7, x8, x9, x10, x11]"
  by (auto simp: numeral_eq_Suc length_Suc_conv)

lemma pid_bytes:
  "(ucast (drop_bit 8 videoPID) :: byte) = 1" "(ucast (drop_bit 8 audioPID) :: byte) = 1"
  "(ucast videoPID :: byte) = 0" "(ucast audioPID :: byte) = 1" "(1 OR 0x40 :: byte) = 0x41"
  by simp_all

lemma mux_header_eq:
  assumes "length pkt = 188"
  shows "mux_header first video key cc dts pkt =
    (if first \<and> video \<and> key then (ts_header video first True cc @ pcr_field dts @ drop 12 pkt, 12)
     else (ts_header video first False cc @ drop 4 pkt, 4))"
proof -
  have l: "length (take 12 pkt) = 12" using assms by simp
  obtain x0 x1 x2 x3 x4 x5 x6 x7 x8 x9 x10 x11 where "take 12 pkt = [x0, x1, x2, x3, x4, x5, x6, x7, x8, x9, x10, x11]"
    using list_12 [OF l] by (elim exE) blast
  then obtain r where r: "pkt = [x0, x1, x2, x3, x4, x5, x6, x7, x8, x9, x10, x11] @ r" "drop 12 pkt = r"
    by (metis append_take_drop_id)
  show ?thesis
    unfolding r(1) by (cases first; cases video; cases key)
      (simp_all add: mux_header_def ts_header_def pcr_field_def writePcr_def Let_def cc_or_20 pid_bytes)
qed

lemma adaptationBufInit_stuffing:
  assumes "0 < s" and "s \<le> length src" and "s < 256" and "2 \<le> length src"
  shows "\<exists>tail. adaptationBufInit src s = Inr (stuffing s @ tail) \<and> length tail = length src - s"
proof -
  obtain a b r where src: "src = a # b # r" using assms(4) by (cases src; cases "tl src") auto
  have "s = 1 \<or> 2 \<le> s" using assms(1) by linarith
  then show ?thesis
  proof
    assume "2 \<le> s"
    moreover have "replicate (length r) (0xff :: byte) = replicate (s - 2) 0xff @ replicate (length src - s) 0xff"
      using assms(2) \<open>2 \<le> s\<close> src by (simp flip: replicate_add)
    ultimately show ?thesis
      using src assms(3) by (auto simp: adaptationBufInit_def index_at_def stuffing_def byte_sub_le Let_def)
  qed (simp add: src adaptationBufInit_def index_at_def stuffing_def byte_sub_def)
qed

lemma adaptationBufInit_length: "2 \<le> length src \<Longrightarrow> \<exists>out. adaptationBufInit src s = Inr out \<and> length out = length src"
  by (cases src; cases "tl src") (auto simp: adaptationBufInit_def index_at_def Let_def)

text \<open>The stuffing of a packet without and with a clock reference; \<open>k\<close> bytes of payload follow.\<close>

lemma ts_header_adapt: "(ts_header video start False cc)[3 := ts_header video start False cc ! 3 OR 0x20] = ts_header video start True cc"
  by (simp add: ts_header_def cc_or_20)

lemma mux_stuff_plain:
  assumes "length r = 184" and "0 < n" and "k = min 184 n"
  shows "\<exists>tail. mux_stuff first (int n) (ts_header video start False cc @ r, 4) =
      Inr ((ts_header video start (k < 184) cc @ stuffing (184 - k)) @ tail, 188 - k, k) \<and> length tail = k"
proof (cases "184 \<le> n")
  case True
  with assms show ?thesis by (simp add: mux_stuff_def byte_sub_le stuffing_def)
next
  case False
  have k: "k = n" "n < 184" using assms(3) False by auto
  have rem: "byte_sub 184 n = 184 - n" "byte_sub (184 - n) 0 = 184 - n" "byte_add 4 (184 - n) = 188 - n"
    using k assms(2) by (auto simp: byte_sub_le byte_add_def)
  have "184 - n < (256 :: nat)" by linarith
  then obtain tail where t: "adaptationBufInit r (184 - n) = Inr (stuffing (184 - n) @ tail)" "length tail = n"
    using adaptationBufInit_stuffing [of "184 - n" r] assms(1,2) k by auto
  have d: "drop 4 (ts_header video start True cc @ r) = r" "take 4 (ts_header video start True cc @ r) = ts_header video start True cc"
    by simp_all
  have "(ts_header video start False cc @ r)[3 := (ts_header video start False cc @ r) ! 3 OR 0x20] = ts_header video start True cc @ r"
    using ts_header_adapt [of video start cc] by (simp add: list_update_append nth_append)
  then show ?thesis using k rem t d assms(2) by (auto simp: mux_stuff_def Let_def)
qed

lemma mux_stuff_pcr:
  assumes "length r = 176" and "8 < n" and "k = (if 184 \<le> n then 176 else n)" and "length h = 12" and "h ! 3 OR 0x20 = h ! 3"
  shows "\<exists>tail. mux_stuff True (int n) (h @ r, 12) = Inr (take (188 - k) (h @ stuffing (176 - k)) @ tail, 188 - k, k) \<and> length tail = k"
proof (cases "184 \<le> n")
  case True
  with assms show ?thesis by (simp add: mux_stuff_def byte_sub_le stuffing_def)
next
  case False
  have k: "k = n" "n < 184" using assms(3) False by auto
  have h: "(h @ r)[3 := (h @ r) ! 3 OR 0x20] = h @ r"
    using assms(4,5) by (simp add: nth_append list_update_append list_update_same_conv)
  have rem: "byte_sub 184 n = 184 - n" using k by (simp add: byte_sub_le)
  consider (small) "n < 176" | (large) "176 \<le> n" by linarith
  then show ?thesis
  proof cases
    case small
    then have "byte_sub (184 - n) 8 = 176 - n" "byte_add 12 (176 - n) = 188 - n"
      using k by (auto simp: byte_sub_le byte_add_def)
    moreover have "176 - n < (256 :: nat)" by linarith
    then obtain tail where "adaptationBufInit r (176 - n) = Inr (stuffing (176 - n) @ tail)" "length tail = n"
      using adaptationBufInit_stuffing [of "176 - n" r] assms(1) small by auto
    ultimately show ?thesis using h k rem assms(4) small by (auto simp: mux_stuff_def Let_def)
  next
    case large
    have m: "byte_sub (184 - n) 8 = (if n = 176 then 0 else 432 - n)"
      using large k mod_pos_pos_trivial [of "432 - int n" 256] mod_add_self2 [of "176 - int n" 256]
      by (auto simp: byte_sub_def of_nat_diff)
    then have a: "byte_add 12 (byte_sub (184 - n) 8) = 188 - n" using large k by (auto simp: byte_add_def mod_if)
    obtain src where s: "adaptationBufInit r (byte_sub (184 - n) 8) = Inr src" "length src = 176"
      using adaptationBufInit_length [of r] assms(1) by auto
    show ?thesis
      by (intro exI [where x = "drop (188 - n) h @ src"])
        (use h k rem a s assms(4) large in \<open>simp add: mux_stuff_def Let_def\<close>)
  qed
qed

lemma copy_at_front: "length front = i \<Longrightarrow> copy_at (front @ tail) i src = front @ take (length tail) src @ drop (length src) tail"
  by (simp add: copy_at_def)

lemma mux_data_fill:
  assumes "length front = 188 - j" and "length tail = j" and "j \<le> 188" and "mv_wBytes v + j \<le> length d"
  shows "mux_data d v (front @ tail, 188 - j, j) =
    Inr (front @ take j (drop (mv_wBytes v) d), v\<lparr>mv_wBytes := mv_wBytes v + j, mv_packetBytesLen := mv_packetBytesLen v - int j\<rparr>)"
  using assms by (cases "j = 0") (auto simp: mux_data_def slice_def copy_at_front)

text \<open>The header and the data fill the \<open>k\<close> bytes behind \<open>front\<close>.\<close>

lemma mux_fill:
  assumes "length front = 188 - k" and "length tail = k" and "0 < k" and "k \<le> 184"
    and "mv_first v \<Longrightarrow> mv_pesIndex v = 0 \<and> 0 < mv_pesHeaderLen v \<and> mv_pesHeaderLen v \<le> length (pes_data pes)"
    and "hdr = (if mv_first v then take (mv_pesHeaderLen v) (pes_data pes) else [])"
    and "length hdr \<le> k" and "mv_wBytes v \<le> length d" and "k \<le> length (hdr @ drop (mv_wBytes v) d)"
  shows "\<exists>v'. bindR (mux_pes pes v (front @ tail, 188 - k, k)) (\<lambda>(s, v). mux_data d v s) =
      Inr (front @ take k (hdr @ drop (mv_wBytes v) d), v') \<and>
     mv_wBytes v' = mv_wBytes v + (k - length hdr) \<and> mv_packetBytesLen v' = mv_packetBytesLen v - int k"
proof (cases "mv_first v")
  case False
  with assms show ?thesis by (auto simp: mux_pes_def mux_data_def slice_def copy_at_front)
next
  case True
  let ?L = "mv_pesHeaderLen v"
  have L: "0 < ?L" "?L \<le> k" "length hdr = ?L" "hdr = take ?L (pes_data pes)"
    using assms(5-7) True by auto
  have "mux_pes pes v (front @ tail, 188 - k, k) =
      Inr (((front @ hdr) @ drop ?L tail, 188 - k + ?L, k - ?L),
        v\<lparr>mv_packetBytesLen := mv_packetBytesLen v - int ?L, mv_pesHeaderLen := 0, mv_pesIndex := ?L\<rparr>)"
    using True L assms by (simp add: mux_pes_def slice_def copy_at_front byte_add_small byte_sub_le Let_def)
  moreover have "mux_data d u ((front @ hdr) @ drop ?L tail, 188 - (k - ?L), k - ?L) =
      Inr ((front @ hdr) @ take (k - ?L) (drop (mv_wBytes u) d),
        u\<lparr>mv_wBytes := mv_wBytes u + (k - ?L), mv_packetBytesLen := mv_packetBytesLen u - int (k - ?L)\<rparr>)"
    if "mv_wBytes u = mv_wBytes v" for u
    using L assms(1,2,4,8,9) that by (intro mux_data_fill) auto
  moreover have "188 - k + ?L = 188 - (k - ?L)" using L assms(4) by simp
  ultimately show ?thesis using L by simp
qed

section \<open>The packets of one PES packet\<close>

definition muxer_ok :: "Muxer \<Rightarrow> bool" where
  "muxer_ok muxer \<longleftrightarrow> length (tsPacket muxer) = 188 \<and> videoCc muxer < 16 \<and> audioCc muxer < 16"

definition ccOf :: "bool \<Rightarrow> Muxer \<Rightarrow> nat" where
  "ccOf video muxer = unat (if video then videoCc muxer else audioCc muxer)"

lemma nextCc_spec: "cc < 16 \<Longrightarrow> unat (nextCc cc) = (unat cc + 1) mod 16" and nextCc_less: "nextCc cc < 16"
proof -
  have "unat (cc + 1) = unat cc + 1" if "cc < 16"
    using that by (simp add: unat_word_ariths word_less_nat_alt)
  then show "cc < 16 \<Longrightarrow> unat (nextCc cc) = (unat cc + 1) mod 16"
    by (auto simp: nextCc_def Let_def word_less_nat_alt mod_if)
  show "nextCc cc < 16" by (auto simp: nextCc_def Let_def word_less_nat_alt)
qed

lemma cc_field:
  assumes "(cc :: byte) < 16"
  shows "(0x10 OR (cc AND 0x0f)) AND 0x0f = cc" and "(0x30 OR (cc AND 0x0f)) AND 0x0f = cc"
proof -
  have m: "(0x0f :: byte) = mask 4" by (simp add: mask_eq_exp_minus_1)
  have t: "cc AND mask 4 = cc" using assms by (simp add: take_bit_self word_less_nat_alt flip: take_bit_eq_mask)
  have "(x OR (cc AND mask 4)) AND mask 4 = cc" if "x AND mask 4 = 0" for x
    using that t by (simp add: bit.conj_disj_distrib2)
  from this [of "0x10"] this [of "0x30"] show "(0x10 OR (cc AND 0x0f)) AND 0x0f = cc" and "(0x30 OR (cc AND 0x0f)) AND 0x0f = cc"
    by (simp_all flip: m)
qed

lemma ts_ok_front:
  assumes "length (ts_header video start adapt cc @ r) = 188" and "cc < 16"
  shows "ts_ok video start (unat cc) (ts_header video start adapt cc @ r)"
  using assms cc_field [OF assms(2)] by (auto simp: ts_ok_def ts_header_def ts_pid_def ts_start_def ts_cc_def)

text \<open>The payload of a packet with stuffing, or with a clock reference alone.\<close>

lemma adapt_bit: "bit (0x30 OR (cc AND 0x0f) :: byte) 5" "\<not> bit (0x10 OR (cc AND 0x0f) :: byte) 5"
proof -
  have m: "(0x0f :: byte) = mask 4" by (simp add: mask_eq_exp_minus_1)
  show "bit (0x30 OR (cc AND 0x0f) :: byte) 5" "\<not> bit (0x10 OR (cc AND 0x0f) :: byte) 5"
    unfolding m by (simp_all add: bit_simps)
qed

lemma ts_header_flags:
  "(ts_header video start True cc @ r) ! 3 = 0x30 OR (cc AND 0x0f)"
  "(ts_header video start False cc @ r) ! 3 = 0x10 OR (cc AND 0x0f)"
  "(ts_header video start adapt cc @ b # r) ! 4 = b"
  by (simp_all add: ts_header_def)

lemma ts_payload_stuffed:
  assumes "k \<le> 184" and "length d = k"
  shows "ts_payload (ts_header video start (k < 184) cc @ stuffing (184 - k) @ d) = d"
proof (cases "k < 184")
  case True
  obtain t where t: "stuffing (184 - k) = (word_of_nat (183 - k) :: byte) # t" "length t = 183 - k"
  proof
    show "stuffing (184 - k) = (word_of_nat (183 - k) :: byte) # tl (stuffing (184 - k))"
      using True by (cases "k = 183") (auto simp: stuffing_def)
  qed simp
  have "unat (word_of_nat (183 - k) :: byte) = 183 - k" by (simp add: unsigned_of_nat take_bit_nat_eq_self_iff)
  then have "ts_payload (ts_header video start True cc @ (word_of_nat (183 - k) :: byte) # t @ d) = d"
    using t(2) adapt_bit(1) [of cc] by (simp add: ts_payload_def ts_header_flags del: of_nat_diff)
  with True t(1) show ?thesis by simp
next
  case False
  with assms adapt_bit(2) [of cc] show ?thesis by (simp add: ts_payload_def ts_header_flags stuffing_def)
qed

lemma ts_payload_pcr: "ts_payload (ts_header video start True cc @ pcr_field dts @ d) = d"
  using adapt_bit(1) [of cc] by (simp add: ts_payload_def ts_header_def pcr_field_def writePcr_def)

text \<open>One round behind the first, and the rounds that follow.\<close>

definition step_cc :: "bool \<Rightarrow> Muxer \<Rightarrow> Muxer" where
  "step_cc video muxer = (if video then muxer\<lparr>videoCc := nextCc (videoCc muxer)\<rparr> else muxer\<lparr>audioCc := nextCc (audioCc muxer)\<rparr>)"

definition cc_byte :: "bool \<Rightarrow> Muxer \<Rightarrow> byte" where
  "cc_byte video muxer = (if video then videoCc muxer else audioCc muxer)"

lemma step_cc_simps [simp]:
  "tsPacket (step_cc video muxer) = tsPacket muxer"
  "cc_byte video (step_cc video muxer) = nextCc (cc_byte video muxer)"
  "cc_byte video (muxer\<lparr>tsPacket := pkt\<rparr>) = cc_byte video muxer"
  by (simp_all add: step_cc_def cc_byte_def)

lemma muxer_ok_step: "muxer_ok muxer \<Longrightarrow> length pkt = 188 \<Longrightarrow> muxer_ok ((step_cc video muxer)\<lparr>tsPacket := pkt\<rparr>)"
  by (simp add: muxer_ok_def step_cc_def nextCc_less)

lemma cc_step: "muxer_ok muxer \<Longrightarrow> unat (nextCc (cc_byte video muxer)) = (unat (cc_byte video muxer) + 1) mod 16"
  by (intro nextCc_spec) (auto simp: muxer_ok_def cc_byte_def)

lemma mux_round_fold:
  "mux_round p pes dts key v muxer =
     bindR (mux_stuff (mv_first v) (mv_packetBytesLen v)
       (mux_header (mv_first v) (IsVideo p) key (nextCc (cc_byte (IsVideo p) muxer)) dts (tsPacket muxer))) (\<lambda>s.
     bindR (bindR (mux_pes pes v s) (\<lambda>(s, v). mux_data (pkt_Data p) v s)) (\<lambda>(pkt, v).
       Inr (v\<lparr>mv_first := False\<rparr>, (step_cc (IsVideo p) muxer)\<lparr>tsPacket := pkt\<rparr>)))"
proof -
  have assoc: "bindR (bindR m f) g = bindR m (\<lambda>x. bindR (f x) g)" for m :: "'x res" and f :: "'x \<Rightarrow> 'y res" and g :: "'y \<Rightarrow> 'z res"
    by (cases m) simp_all
  show ?thesis
    by (simp add: mux_round_def step_cc_def cc_byte_def assoc case_prod_unfold Let_def)
qed

text \<open>
  What a round has still to send: the PES header in the first round, then the data. \<open>round_ok\<close> is the
  invariant of the loop.
\<close>

definition pending :: "packet \<Rightarrow> pesHeader \<Rightarrow> mux_vars \<Rightarrow> bytes" where
  "pending p pes v = (if mv_first v then take (mv_pesHeaderLen v) (pes_data pes) else []) @ drop (mv_wBytes v) (pkt_Data p)"

definition round_ok :: "packet \<Rightarrow> pesHeader \<Rightarrow> mux_vars \<Rightarrow> bool" where
  "round_ok p pes v \<longleftrightarrow> mv_wBytes v \<le> length (pkt_Data p) \<and> mv_packetBytesLen v = int (length (pending p pes v)) \<and>
     (mv_first v \<longrightarrow> mv_pesIndex v = 0 \<and> 8 < mv_pesHeaderLen v \<and> mv_pesHeaderLen v \<le> 176 \<and> mv_pesHeaderLen v \<le> length (pes_data pes))"

lemma round_fill:
  assumes "round_ok p pes v" and "length front = 188 - k" and "length tail = k" and "0 < k" and "k \<le> 184"
    and "k \<le> length (pending p pes v)" and "mv_first v \<Longrightarrow> mv_pesHeaderLen v \<le> k"
  shows "\<exists>v'. bindR (mux_pes pes v (front @ tail, 188 - k, k)) (\<lambda>(s, v). mux_data (pkt_Data p) v s) =
      Inr (front @ take k (pending p pes v), v') \<and> round_ok p pes (v'\<lparr>mv_first := False\<rparr>) \<and>
      pending p pes (v'\<lparr>mv_first := False\<rparr>) = drop k (pending p pes v)"
proof -
  define hdr where "hdr = (if mv_first v then take (mv_pesHeaderLen v) (pes_data pes) else [])"
  have pend: "pending p pes v = hdr @ drop (mv_wBytes v) (pkt_Data p)" by (simp add: pending_def hdr_def)
  have len: "length hdr = (if mv_first v then mv_pesHeaderLen v else 0)" using assms(1) by (simp add: round_ok_def hdr_def)
  have v: "mv_first v \<Longrightarrow> mv_pesIndex v = 0 \<and> 0 < mv_pesHeaderLen v \<and> mv_pesHeaderLen v \<le> length (pes_data pes)"
      "mv_wBytes v \<le> length (pkt_Data p)" "mv_packetBytesLen v = int (length (pending p pes v))"
    using assms(1) by (auto simp: round_ok_def)
  have hk: "length hdr \<le> k" using assms(7) len by simp
  obtain v' where v': "bindR (mux_pes pes v (front @ tail, 188 - k, k)) (\<lambda>(s, v). mux_data (pkt_Data p) v s) =
      Inr (front @ take k (hdr @ drop (mv_wBytes v) (pkt_Data p)), v')" "mv_wBytes v' = mv_wBytes v + (k - length hdr)"
      "mv_packetBytesLen v' = mv_packetBytesLen v - int k"
    using mux_fill [OF assms(2-5) v(1) hdr_def hk v(2) assms(6) [unfolded pend]] by blast
  have "drop (mv_wBytes v') (pkt_Data p) = drop k (pending p pes v)"
    using v'(2) hk by (simp add: pend add.commute)
  with v' assms(6) v(2,3) hk show ?thesis
    by (intro exI [of _ v']) (auto simp: round_ok_def pending_def pend [unfolded pending_def])
qed

lemma mux_round_plain:
  assumes "muxer_ok muxer" and "\<not> (mv_first v \<and> IsVideo p \<and> key)" and "round_ok p pes v"
    and "pending p pes v \<noteq> []" and "k = min 184 (length (pending p pes v))"
  shows "\<exists>v' pkt. mux_round p pes dts key v muxer = Inr (v', (step_cc (IsVideo p) muxer)\<lparr>tsPacket := pkt\<rparr>) \<and>
     ts_ok (IsVideo p) (mv_first v) ((unat (cc_byte (IsVideo p) muxer) + 1) mod 16) pkt \<and>
     ts_payload pkt = take k (pending p pes v) \<and> \<not> mv_first v' \<and> round_ok p pes v' \<and> pending p pes v' = drop k (pending p pes v)"
proof -
  let ?cc = "nextCc (cc_byte (IsVideo p) muxer)" and ?pend = "pending p pes v"
  let ?front = "ts_header (IsVideo p) (mv_first v) (k < 184) ?cc @ stuffing (184 - k)"
  have h: "mux_header (mv_first v) (IsVideo p) key ?cc dts (tsPacket muxer) =
      (ts_header (IsVideo p) (mv_first v) False ?cc @ drop 4 (tsPacket muxer), 4)"
    using assms(1,2) by (simp add: mux_header_eq muxer_ok_def)
  have n: "mv_packetBytesLen v = int (length ?pend)" using assms(3) by (simp add: round_ok_def)
  obtain tail where st: "mux_stuff (mv_first v) (int (length ?pend))
        (ts_header (IsVideo p) (mv_first v) False ?cc @ drop 4 (tsPacket muxer), 4) = Inr (?front @ tail, 188 - k, k)" "length tail = k"
    using mux_stuff_plain [of "drop 4 (tsPacket muxer)" "length ?pend" k "mv_first v" "IsVideo p" "mv_first v" ?cc] assms(1,4,5)
    by (auto simp: muxer_ok_def)
  have k: "0 < k" "k \<le> 184" "k \<le> length ?pend" using assms(4,5) by auto
  have "mv_first v \<Longrightarrow> mv_pesHeaderLen v \<le> k" using assms(3,5) by (auto simp: round_ok_def pending_def)
  then obtain v' where f: "bindR (mux_pes pes v (?front @ tail, 188 - k, k)) (\<lambda>(s, v). mux_data (pkt_Data p) v s) = Inr (?front @ take k ?pend, v')"
      "round_ok p pes (v'\<lparr>mv_first := False\<rparr>)" "pending p pes (v'\<lparr>mv_first := False\<rparr>) = drop k ?pend"
    using round_fill [OF assms(3), of ?front k tail] st(2) k by auto
  have "ts_ok (IsVideo p) (mv_first v) (unat ?cc) (?front @ take k ?pend)"
    using ts_ok_front [of "IsVideo p" "mv_first v" "k < 184" ?cc "stuffing (184 - k) @ take k ?pend"] k nextCc_less by simp
  moreover have "unat ?cc = (unat (cc_byte (IsVideo p) muxer) + 1) mod 16"
    by (rule cc_step [OF assms(1)])
  moreover have "ts_payload (?front @ take k ?pend) = take k ?pend"
    using ts_payload_stuffed [of k "take k ?pend"] k by simp
  moreover have "mux_round p pes dts key v muxer =
      Inr (v'\<lparr>mv_first := False\<rparr>, (step_cc (IsVideo p) muxer)\<lparr>tsPacket := ?front @ take k ?pend\<rparr>)"
    by (simp only: mux_round_fold n h st f bindR_simps prod.case)
  ultimately show ?thesis
    using f by (intro exI [of _ "v'\<lparr>mv_first := False\<rparr>"] exI [of _ "?front @ take k ?pend"]) simp
qed

text \<open>The first round of a key frame: the stuffing is put behind the clock reference.\<close>

lemma mux_round_key:
  assumes "muxer_ok muxer" and "mv_first v" and "IsVideo p" and "round_ok p pes v"
    and "n = length (pending p pes v)" and "k = (if 184 \<le> n then 176 else n)"
    and "h = ts_header True True True (nextCc (videoCc muxer)) @ pcr_field dts"
    and "pkt = take (188 - k) (h @ stuffing (176 - k)) @ take k (pending p pes v)"
  shows "\<exists>v'. mux_round p pes dts True v muxer = Inr (v', (step_cc True muxer)\<lparr>tsPacket := pkt\<rparr>) \<and>
     \<not> mv_first v' \<and> round_ok p pes v' \<and> pending p pes v' = drop k (pending p pes v)"
proof -
  let ?cc = "nextCc (videoCc muxer)"
  have hd: "mux_header True True True ?cc dts (tsPacket muxer) = (h @ drop 12 (tsPacket muxer), 12)"
    using assms(1,7) by (simp add: mux_header_eq muxer_ok_def)
  have "h ! 3 = 0x30 OR (?cc AND 0x0f)" by (simp add: assms(7) ts_header_flags)
  moreover have "(0x30 OR (x :: byte)) OR 0x20 = (0x30 OR 0x20) OR x" for x by (simp only: or.assoc or.commute or.left_commute)
  ultimately have h3: "h ! 3 OR 0x20 = h ! 3" by simp
  have n: "mv_packetBytesLen v = int n" "8 < n" "mv_pesHeaderLen v \<le> k"
    using assms(2,4,5,6) by (auto simp: round_ok_def pending_def)
  define front where "front = take (188 - k) (h @ stuffing (176 - k))"
  obtain tail where st: "mux_stuff True (int n) (h @ drop 12 (tsPacket muxer), 12) = Inr (front @ tail, 188 - k, k)" "length tail = k"
    unfolding front_def using mux_stuff_pcr [of "drop 12 (tsPacket muxer)", OF _ n(2) assms(6) _ h3] assms(1,7) by (force simp: muxer_ok_def)
  have fk: "length front = 188 - k" "0 < k" "k \<le> 184" "k \<le> length (pending p pes v)"
    using assms(5,6,7) n(2) by (auto simp: front_def)
  have pkt: "pkt = front @ take k (pending p pes v)" using assms(8) by (simp only: front_def)
  obtain v' where f: "bindR (mux_pes pes v (front @ tail, 188 - k, k)) (\<lambda>(s, v). mux_data (pkt_Data p) v s) =
      Inr (pkt, v')" "round_ok p pes (v'\<lparr>mv_first := False\<rparr>)" "pending p pes (v'\<lparr>mv_first := False\<rparr>) = drop k (pending p pes v)"
    using round_fill [OF assms(4) fk(1) st(2) fk(2-4) n(3)] unfolding pkt by blast
  have "mux_round p pes dts True v muxer = Inr (v'\<lparr>mv_first := False\<rparr>, (step_cc True muxer)\<lparr>tsPacket := pkt\<rparr>)"
    using assms(2,3) by (simp add: mux_round_fold cc_byte_def n(1) hd st f)
  with f show ?thesis by auto
qed

lemma mux_loop_end: "mv_packetBytesLen v = 0 \<Longrightarrow> mux_loop p pes dts key v muxer w = (None, muxer, w)"
  by (simp add: mux_loop.simps)

lemma mux_loop_write:
  assumes "mux_round p pes dts key v muxer = Inr (v', muxer')" and "0 < mv_packetBytesLen v" and "sk_cap w = None"
  shows "mux_loop p pes dts key v muxer (Some w) = mux_loop p pes dts key v' muxer' (Some (w\<lparr>sk_out := sk_out w @ tsPacket muxer'\<rparr>))"
  using assms by (subst mux_loop.simps) simp

text \<open>The packets behind the first.\<close>

lemma mux_loop_rest:
  assumes "muxer_ok muxer" and "\<not> mv_first v" and "round_ok p pes v" and "sk_cap w = None"
  shows "\<exists>pkts muxer'. mux_loop p pes dts key v muxer (Some w) = (None, muxer', Some (w\<lparr>sk_out := sk_out w @ concat pkts\<rparr>)) \<and>
     muxer_ok muxer' \<and> ts_seq (IsVideo p) False (unat (cc_byte (IsVideo p) muxer)) pkts \<and>
     concat (map ts_payload pkts) = pending p pes v"
  using assms
proof (induction "length (pending p pes v)" arbitrary: v muxer w rule: less_induct)
  case less
  let ?k = "min 184 (length (pending p pes v))"
  have n: "mv_packetBytesLen v = int (length (pending p pes v))" using less.prems(3) by (simp add: round_ok_def)
  show ?case
  proof (cases "pending p pes v = []")
    case True
    with n less.prems show ?thesis by (intro exI [of _ "[]"]) (simp add: mux_loop_end)
  next
    case False
    then obtain v' pkt where r: "mux_round p pes dts key v muxer = Inr (v', (step_cc (IsVideo p) muxer)\<lparr>tsPacket := pkt\<rparr>)"
        "ts_ok (IsVideo p) False ((unat (cc_byte (IsVideo p) muxer) + 1) mod 16) pkt"
        "ts_payload pkt = take ?k (pending p pes v)" "\<not> mv_first v'" "round_ok p pes v'" "pending p pes v' = drop ?k (pending p pes v)"
      using mux_round_plain [OF less.prems(1) _ less.prems(3) False refl, of key dts] less.prems(2) by auto
    let ?m = "(step_cc (IsVideo p) muxer)\<lparr>tsPacket := pkt\<rparr>" and ?w = "w\<lparr>sk_out := sk_out w @ pkt\<rparr>"
    have ok: "muxer_ok ?m" using r(2) less.prems(1) by (simp add: muxer_ok_step ts_ok_def)
    have "length (pending p pes v') < length (pending p pes v)" using r(6) False by simp
    then obtain pkts muxer' where ih: "mux_loop p pes dts key v' ?m (Some ?w) = (None, muxer', Some (?w\<lparr>sk_out := sk_out ?w @ concat pkts\<rparr>))"
        "muxer_ok muxer'" "ts_seq (IsVideo p) False (unat (cc_byte (IsVideo p) ?m)) pkts" "concat (map ts_payload pkts) = pending p pes v'"
      using less.hyps [OF _ ok r(4,5), of ?w] less.prems(4) by auto
    have cc: "unat (cc_byte (IsVideo p) ?m) = (unat (cc_byte (IsVideo p) muxer) + 1) mod 16"
      using cc_step [OF less.prems(1)] by simp
    have "mux_loop p pes dts key v muxer (Some w) = mux_loop p pes dts key v' ?m (Some ?w)"
      using mux_loop_write [OF r(1) _ less.prems(4)] n False by simp
    with ih cc r show ?thesis
      by (intro exI [of _ "pkt # pkts"] exI [of _ muxer']) (auto simp: append_assoc)
  qed
qed

text \<open>The first packet.\<close>

lemma mux_loop_first:
  assumes "muxer_ok muxer" and "mv_first v" and "round_ok p pes v" and "sk_cap w = None"
    and "full = (IsVideo p \<and> key \<longrightarrow> 184 \<le> length (pending p pes v) \<or> length (pending p pes v) = 176)"
  shows "\<exists>pkts muxer'. mux_loop p pes dts key v muxer (Some w) = (None, muxer', Some (w\<lparr>sk_out := sk_out w @ concat pkts\<rparr>)) \<and>
     muxer_ok muxer' \<and> pkts \<noteq> [] \<and> ts_seq (IsVideo p) True (unat (cc_byte (IsVideo p) muxer)) pkts \<and>
     (full \<longrightarrow> concat (map ts_payload pkts) = pending p pes v)"
proof -
  let ?n = "length (pending p pes v)"
  have n: "mv_packetBytesLen v = int ?n" "0 < ?n" using assms(2,3) by (auto simp: round_ok_def pending_def)
  have cc: "unat (nextCc (cc_byte (IsVideo p) muxer)) = (unat (cc_byte (IsVideo p) muxer) + 1) mod 16"
    by (rule cc_step [OF assms(1)])
  obtain v' pkt k where r: "mux_round p pes dts key v muxer = Inr (v', (step_cc (IsVideo p) muxer)\<lparr>tsPacket := pkt\<rparr>)"
      "ts_ok (IsVideo p) True ((unat (cc_byte (IsVideo p) muxer) + 1) mod 16) pkt"
      "full \<longrightarrow> ts_payload pkt = take k (pending p pes v)" "\<not> mv_first v'" "round_ok p pes v'" "pending p pes v' = drop k (pending p pes v)"
  proof (cases "IsVideo p \<and> key")
    case False
    with n mux_round_plain [OF assms(1) _ assms(3) _ refl, of key dts] assms(2) that show ?thesis by auto
  next
    case True
    let ?h = "ts_header True True True (nextCc (videoCc muxer)) @ pcr_field dts"
    let ?k = "if 184 \<le> ?n then 176 else ?n"
    let ?pkt = "take (188 - ?k) (?h @ stuffing (176 - ?k)) @ take ?k (pending p pes v)"
    have front: "take (188 - k) (a @ b @ c) = a @ take (184 - k) (b @ c)" if "length a = 4" "k \<le> 184" for k and a b c :: bytes
      using that by simp
    have k184: "?k \<le> 184" by simp
    have "?pkt = ts_header True True True (nextCc (videoCc muxer)) @
        take (184 - ?k) (pcr_field dts @ stuffing (176 - ?k)) @ take ?k (pending p pes v)"
      using front [OF length_ts_header k184] by (simp only: append_assoc)
    then have "ts_ok True True (unat (nextCc (videoCc muxer))) ?pkt"
      using ts_ok_front [of True True True "nextCc (videoCc muxer)"
          "take (184 - ?k) (pcr_field dts @ stuffing (176 - ?k)) @ take ?k (pending p pes v)"] nextCc_less by simp
    moreover have "ts_payload ?pkt = take ?k (pending p pes v)" if full
    proof -
      have k: "?k = 176" using that assms(5) True by auto
      show ?thesis unfolding k using ts_payload_pcr by (simp add: stuffing_def)
    qed
    ultimately show ?thesis
      using mux_round_key [OF assms(1,2) _ assms(3) refl refl refl refl, of dts] True that cc by (auto simp: cc_byte_def)
  qed
  let ?m = "(step_cc (IsVideo p) muxer)\<lparr>tsPacket := pkt\<rparr>" and ?w = "w\<lparr>sk_out := sk_out w @ pkt\<rparr>"
  have ok: "muxer_ok ?m" using r(2) assms(1) by (simp add: muxer_ok_step ts_ok_def)
  obtain pkts muxer' where rest: "mux_loop p pes dts key v' ?m (Some ?w) = (None, muxer', Some (?w\<lparr>sk_out := sk_out ?w @ concat pkts\<rparr>))"
      "muxer_ok muxer'" "ts_seq (IsVideo p) False (unat (cc_byte (IsVideo p) ?m)) pkts" "concat (map ts_payload pkts) = pending p pes v'"
    using mux_loop_rest [OF ok r(4,5), of ?w dts key] assms(4) by auto
  have "mux_loop p pes dts key v muxer (Some w) = mux_loop p pes dts key v' ?m (Some ?w)"
    using mux_loop_write [OF r(1) _ assms(4)] n by simp
  with rest cc r show ?thesis by (intro exI [of _ "pkt # pkts"] exI [of _ muxer']) auto
qed

section \<open>Muxing a packet\<close>

text \<open>The times and the PES header of a packet.\<close>

definition mux_times :: "packet \<Rightarrow> int \<times> int" where
  "mux_times p = (let dts = uint (TimeStamp p) * 90
     in (if IsVideo p then dts + sint (CompositionTime (the (Header p))) * 90 else dts, dts))"

definition pes_bytes :: "packet \<Rightarrow> bytes" where
  "pes_bytes p = (let pes = pes_packet p (fst (mux_times p)) (snd (mux_times p)) in take (pes_len pes) (pes_data pes))"

definition is_key :: "packet \<Rightarrow> bool" where
  "is_key p \<longleftrightarrow> IsVideo p \<and> IsKeyFrame (the (Header p))"

lemma length_writeTs [simp]: "length (writeTs fb ts) = 5"
  by (simp add: writeTs_def Let_def)

lemma pes_packet_length: "pes_len (pes_packet p pts dts) \<in> {14, 19}"
    "pes_len (pes_packet p pts dts) \<le> length (pes_data (pes_packet p pts dts))"
  by (auto simp: pes_packet_def Let_def)

lemma length_pes_bytes: "length (pes_bytes p) \<in> {14, 19}"
  using pes_packet_length [of p "fst (mux_times p)" "snd (mux_times p)"] by (auto simp: pes_bytes_def Let_def)

lemma Mux_loop:
  assumes "IsVideo p \<longrightarrow> Header p \<noteq> None"
  defines "pes \<equiv> pes_packet p (fst (mux_times p)) (snd (mux_times p))"
  shows "\<exists>v. Mux p muxer w = mux_loop p pes (snd (mux_times p)) (is_key p) v muxer w \<and>
     mv_first v \<and> round_ok p pes v \<and> pending p pes v = pes_bytes p @ pkt_Data p"
proof -
  let ?v = "\<lparr>mv_first = True, mv_wBytes = 0, mv_pesIndex = 0, mv_pesHeaderLen = pes_len pes,
    mv_packetBytesLen = int (length (pkt_Data p)) + int (pes_len pes)\<rparr>"
  have l: "pes_len pes \<in> {14, 19}" "pes_len pes \<le> length (pes_data pes)"
    unfolding pes_def by (rule pes_packet_length)+
  have pend: "pending p pes ?v = pes_bytes p @ pkt_Data p"
    by (simp add: pending_def pes_bytes_def pes_def Let_def)
  have "Mux p muxer w = mux_loop p pes (snd (mux_times p)) (is_key p) ?v muxer w"
    using assms(1) by (auto simp: Mux_def mux_times_def is_key_def pes_def Let_def split: option.splits)
  moreover have "round_ok p pes ?v"
    using l length_pes_bytes [of p] by (auto simp: round_ok_def pend) (auto simp: pes_bytes_def pes_def Let_def)
  ultimately show ?thesis using pend by (intro exI [of _ ?v]) simp
qed

text \<open>Whatever the size of the packet, muxing it into a buffer succeeds and appends whole packets of its stream.\<close>

lemma Mux_packets:
  assumes "muxer_ok muxer" and "IsVideo p \<longrightarrow> Header p \<noteq> None" and "sk_cap w = None"
  shows "\<exists>pkts muxer'. Mux p muxer (Some w) = (None, muxer', Some (w\<lparr>sk_out := sk_out w @ concat pkts\<rparr>)) \<and>
     muxer_ok muxer' \<and> pkts \<noteq> [] \<and> ts_seq (IsVideo p) True (unat (cc_byte (IsVideo p) muxer)) pkts"
proof -
  let ?pes = "pes_packet p (fst (mux_times p)) (snd (mux_times p))"
  obtain v where v: "Mux p muxer (Some w) = mux_loop p ?pes (snd (mux_times p)) (is_key p) v muxer (Some w)"
      "mv_first v" "round_ok p ?pes v"
    using Mux_loop [OF assms(2)] by blast
  show ?thesis
    using mux_loop_first [OF assms(1) v(2,3) assms(3) refl, where key = "is_key p" and dts = "snd (mux_times p)"] v(1) by auto
qed

text \<open>
  C38: a packet comes out of the muxer as a run of 188-byte transport packets of its stream, the first of
  them marked as the start of a PES packet, with consecutive continuity counters; their payloads, as a
  receiver reads them behind the adaptation fields, are together the PES header and the data. Key
  frames are required to fill the first packet (or to have exactly 176 bytes with their header).
\<close>

theorem ts_mux_payload:
  assumes "muxer_ok muxer" and "IsVideo p \<longrightarrow> Header p \<noteq> None" and "sk_cap w = None"
    and "is_key p \<longrightarrow> 184 \<le> length (pes_bytes p @ pkt_Data p) \<or> length (pes_bytes p @ pkt_Data p) = 176"
  shows "\<exists>pkts muxer'. Mux p muxer (Some w) = (None, muxer', Some (w\<lparr>sk_out := sk_out w @ concat pkts\<rparr>)) \<and>
     muxer_ok muxer' \<and> pkts \<noteq> [] \<and>
     ts_seq (IsVideo p) True (unat (if IsVideo p then videoCc muxer else audioCc muxer)) pkts \<and>
     concat (map ts_payload pkts) = pes_bytes p @ pkt_Data p"
proof -
  let ?pes = "pes_packet p (fst (mux_times p)) (snd (mux_times p))"
  obtain v where v: "Mux p muxer (Some w) = mux_loop p ?pes (snd (mux_times p)) (is_key p) v muxer (Some w)"
      "mv_first v" "round_ok p ?pes v" "pending p ?pes v = pes_bytes p @ pkt_Data p"
    using Mux_loop [OF assms(2)] by blast
  show ?thesis
    using mux_loop_first [OF assms(1) v(2,3) assms(3) refl, where key = "is_key p" and dts = "snd (mux_times p)"] assms(4) v
    by (auto simp: cc_byte_def)
qed

definition sample_audio :: packet where
  "sample_audio = \<lparr>IsAudio = True, IsVideo = False, IsMetadata = False, TimeStamp = 40, pkt_StreamID = 1,
     Header = None, pkt_Data = replicate 200 1\<rparr>"

theorem ts_mux_payload_witness:
  "\<exists>pkts muxer'. Mux sample_audio NewMuxer (Some \<lparr>sk_out = [], sk_cap = None\<rparr>) = (None, muxer', Some \<lparr>sk_out = concat pkts, sk_cap = None\<rparr>) \<and>
     ts_seq False True 0 pkts \<and> concat (map ts_payload pkts) = pes_bytes sample_audio @ replicate 200 1"
proof -
  have m: "muxer_ok NewMuxer" by (simp add: muxer_ok_def NewMuxer_def)
  have a: "\<not> IsVideo sample_audio" "\<not> is_key sample_audio" "pkt_Data sample_audio = replicate 200 1"
    by (simp_all add: sample_audio_def is_key_def)
  have "audioCc NewMuxer = 0" by (simp add: NewMuxer_def)
  with ts_mux_payload [of NewMuxer sample_audio "\<lparr>sk_out = [], sk_cap = None\<rparr>"] m a show ?thesis by auto
qed

text \<open>
  A key frame that does not fill its first packet is garbled. Its stuffing is put behind the clock
  reference but not counted in the length of the adaptation field, so that a receiver reads it as the
  beginning of the payload; and when the frame and its header have 177 to 183 bytes they overwrite
  the clock reference, and a receiver loses up to seven bytes of the PES header.
\<close>

theorem small_key_frame_garbled:
  assumes "muxer_ok muxer" and "is_key p" and "Header p \<noteq> None" and "sk_cap w = None"
    and "n = length (pes_bytes p @ pkt_Data p)" and "n < 184" and "n \<noteq> 176"
  shows "\<exists>pkt muxer'. Mux p muxer (Some w) = (None, muxer', Some (w\<lparr>sk_out := sk_out w @ pkt\<rparr>)) \<and> length pkt = 188 \<and>
     ts_payload pkt = (if n < 176 then stuffing (176 - n) @ pes_bytes p @ pkt_Data p
                       else drop (n - 176) (pes_bytes p @ pkt_Data p)) \<and>
     ts_payload pkt \<noteq> pes_bytes p @ pkt_Data p"
proof -
  let ?pes = "pes_packet p (fst (mux_times p)) (snd (mux_times p))" and ?dts = "snd (mux_times p)"
  have vid: "IsVideo p" using assms(2) by (simp add: is_key_def)
  obtain v where v: "Mux p muxer (Some w) = mux_loop p ?pes ?dts True v muxer (Some w)"
      "mv_first v" "round_ok p ?pes v" "pending p ?pes v = pes_bytes p @ pkt_Data p"
    using Mux_loop [of p muxer "Some w"] assms(2,3) by auto
  define h where "h = ts_header True True True (nextCc (videoCc muxer)) @ pcr_field ?dts"
  define pkt where "pkt = take (188 - n) (h @ stuffing (176 - n)) @ pending p ?pes v"
  have n: "n = length (pending p ?pes v)" using assms(5) v(4) by simp
  obtain v' where r: "mux_round p ?pes ?dts True v muxer = Inr (v', (step_cc True muxer)\<lparr>tsPacket := pkt\<rparr>)"
      "round_ok p ?pes v'" "pending p ?pes v' = []"
    using mux_round_key [OF assms(1) v(2) vid v(3) n refl h_def refl] assms(6) n by (auto simp: pkt_def)
  have "mux_loop p ?pes ?dts True v muxer (Some w) = mux_loop p ?pes ?dts True v' ((step_cc True muxer)\<lparr>tsPacket := pkt\<rparr>)
      (Some (w\<lparr>sk_out := sk_out w @ pkt\<rparr>))"
    using mux_loop_write [OF r(1) _ assms(4)] v(3,4) n length_pes_bytes [of p] by (auto simp: round_ok_def)
  then have m: "Mux p muxer (Some w) = (None, (step_cc True muxer)\<lparr>tsPacket := pkt\<rparr>, Some (w\<lparr>sk_out := sk_out w @ pkt\<rparr>))"
    using v(1) r(2,3) by (simp add: mux_loop_end round_ok_def)
  have "length h = 12" by (simp add: h_def)
  moreover have "h ! 4 = 7" "bit (h ! 3) 5"
    using adapt_bit(1) by (simp_all add: h_def ts_header_def pcr_field_def)
  ultimately have hl: "length h = 12" "h ! 4 = 7" "bit (h ! 3) 5" by blast+
  have "4 < 188 - n" using assms(6) by simp
  then have pl: "ts_payload pkt = drop 12 pkt"
    using hl by (simp add: ts_payload_def pkt_def nth_append)
  have "ts_payload pkt = (if n < 176 then stuffing (176 - n) @ pes_bytes p @ pkt_Data p else drop (n - 176) (pes_bytes p @ pkt_Data p))"
    unfolding pl using hl assms(6) v(4) by (simp add: pkt_def)
  moreover from this have "ts_payload pkt \<noteq> pes_bytes p @ pkt_Data p"
    using assms(5,7) by (auto dest: arg_cong [where f = length])
  moreover have "length pkt = 188" using n assms(6) hl by (simp add: pkt_def)
  ultimately show ?thesis using m by (intro exI [of _ pkt] exI [of _ "(step_cc True muxer)\<lparr>tsPacket := pkt\<rparr>"] conjI)
qed

definition sample_key :: packet where
  "sample_key = \<lparr>IsAudio = False, IsVideo = True, IsMetadata = False, TimeStamp = 0, pkt_StreamID = 1,
     Header = Some (video_tag ((mediat zeroTag)\<lparr>frameType := FrameKey, codecID := VideoH264, avcPacketType := 1\<rparr>)),
     pkt_Data = [0, 0, 0, 1, 0x65]\<rparr>"

theorem small_key_frame_garbled_witness:
  "\<exists>pkt muxer'. Mux sample_key NewMuxer (Some \<lparr>sk_out = [], sk_cap = None\<rparr>) =
       (None, muxer', Some \<lparr>sk_out = pkt, sk_cap = None\<rparr>) \<and>
     ts_payload pkt = stuffing 157 @ pes_bytes sample_key @ [0, 0, 0, 1, 0x65]"
proof -
  have m: "muxer_ok NewMuxer" by (simp add: muxer_ok_def NewMuxer_def)
  have k: "is_key sample_key" "pkt_Data sample_key = [0, 0, 0, 1, 0x65]" "Header sample_key \<noteq> None"
    by (simp_all add: sample_key_def is_key_def IsKeyFrame_def video_tag_def zeroTag_def)
  have l: "length (pes_bytes sample_key) = 14"
    by (simp add: pes_bytes_def pes_packet_def mux_times_def sample_key_def CompositionTime_def video_tag_def zeroTag_def Let_def)
  then have "length (pes_bytes sample_key @ pkt_Data sample_key) = 19" using k(2) by simp
  with small_key_frame_garbled [OF m k(1,3), of "\<lparr>sk_out = [], sk_cap = None\<rparr>" 19] k(2) show ?thesis by auto
qed

section \<open>Time stamps\<close>

text \<open>The marker nibble and the 33-bit time stamp in the five bytes of a PES header (ISO/IEC 13818-1).\<close>

definition pts_value :: "bytes \<Rightarrow> 33 word" where
  "pts_value b = push_bit 30 (ucast (drop_bit 1 (b ! 0) AND 0x07)) OR push_bit 22 (ucast (b ! 1)) OR
     push_bit 15 (ucast (drop_bit 1 (b ! 2))) OR push_bit 7 (ucast (b ! 3)) OR ucast (drop_bit 1 (b ! 4))"

lemma bit_times_2_u32: "bit (a * 2) n \<longleftrightarrow> 0 < n \<and> n < 32 \<and> bit (a :: u32) (n - 1)"
  using bit_push_bit_iff [of 1 a n] by (auto simp: push_bit_eq_mult bit_simps dest: bit_imp_le_length)

lemma upto_33: "n < 33 \<longleftrightarrow> n \<in> {0, 1, 2, 3, 4, 5, 6, 7, 8, 9, 10, 11, 12, 13, 14, 15, 16, 17, 18, 19, 20, 21, 22, 23, 24, 25,
    26, 27, 28, 29, 30, 31, 32 :: nat}"
proof -
  have "n < 33 \<longleftrightarrow> n \<in> set [0..<33]" by simp
  also have "\<dots> \<longleftrightarrow> n \<in> {0, 1, 2, 3, 4, 5, 6, 7, 8, 9, 10, 11, 12, 13, 14, 15, 16, 17, 18, 19, 20, 21, 22, 23, 24, 25,
    26, 27, 28, 29, 30, 31, 32 :: nat}"
    by (simp add: upt_rec eval_nat_numeral)
  finally show ?thesis .
qed

lemma pts_value_writeTs:
  "pts_value (writeTs fb ts) = word_of_int (if ts > 0x1ffffffff then ts - 0x1ffffffff else ts)"
proof -
  have "pts_value [ucast (word_of_nat (push_bit 4 fb) OR push_bit 1 (word_of_int (drop_bit 30 t) AND 0x07) OR 1 :: u32),
      ucast (drop_bit 8 (push_bit 1 (word_of_int (drop_bit 15 t) AND 0x7fff) OR 1 :: u32)),
      ucast (push_bit 1 (word_of_int (drop_bit 15 t) AND 0x7fff) OR 1 :: u32),
      ucast (drop_bit 8 (push_bit 1 (word_of_int (t AND 0x7fff)) OR 1 :: u32)),
      ucast (push_bit 1 (word_of_int (t AND 0x7fff)) OR 1 :: u32)] = word_of_int t" for t
    apply (rule bit_word_eqI)
    apply (simp add: upto_33)
    apply (elim disjE)
    apply (simp_all add: pts_value_def bit_simps bit_times_2_u32 flip: bit_Suc)
    apply (simp add: numeral_2_eq_2)
    done
  then show ?thesis by (simp only: writeTs_def Let_def)
qed

text \<open>
  The presentation and decoding time stamps of a PES header are the low 33 bits of the 90 kHz time up to
  \<^verbatim>\<open>0x1ffffffff\<close>. Beyond it \<^verbatim>\<open>writeTs\<close> subtracts \<^verbatim>\<open>0x1ffffffff\<close> where the period is
  \<^verbatim>\<open>0x200000000\<close>, so that every later time stamp is one tick too high (after about 26.5 hours).
\<close>

theorem pes_time_stamps:
  "pts_value (drop 9 (pes_bytes p)) =
     word_of_int (if fst (mux_times p) > 0x1ffffffff then fst (mux_times p) + 1 else fst (mux_times p)) \<and>
   (if IsVideo p \<and> fst (mux_times p) \<noteq> snd (mux_times p)
    then length (pes_bytes p) = 19 \<and> pts_value (drop 14 (pes_bytes p)) =
           word_of_int (if snd (mux_times p) > 0x1ffffffff then snd (mux_times p) + 1 else snd (mux_times p))
    else length (pes_bytes p) = 14)"
proof -
  have e: "(word_of_int (t - 0x1ffffffff) :: 33 word) = word_of_int (t + 1)" for t
  proof -
    have "(word_of_int (t - 0x1ffffffff) :: 33 word) = word_of_int (t - 0x1ffffffff + 2 ^ 33)" by simp
    then show ?thesis by simp
  qed
  have v: "pts_value (writeTs fb t @ r) = word_of_int (if t > 0x1ffffffff then t + 1 else t)" for fb t r
  proof -
    have "pts_value (writeTs fb t @ r) = pts_value (writeTs fb t)" by (simp add: pts_value_def nth_append)
    then show ?thesis using e [of t] by (simp add: pts_value_writeTs)
  qed
  show ?thesis
    using v [of _ "snd (mux_times p)" "[]"] v [of _ "fst (mux_times p)" "[]"] by (simp add: pes_bytes_def pes_packet_def Let_def v)
qed

section \<open>The program tables\<close>

text \<open>The section in a packet that carries a table: its length is in the low 12 bits behind the table id.\<close>

definition psi_section :: "bytes \<Rightarrow> bytes" where
  "psi_section pkt = take (3 + (unat (pkt ! 6 AND 0x0f) * 256 + unat (pkt ! 7))) (drop 5 pkt)"

lemma store_crc:
  assumes "length front = i" and "4 \<le> length r"
  shows "take (i + 4) ((front @ r)[i := ucast (drop_bit 24 c), i + 1 := ucast (drop_bit 16 c), i + 2 := ucast (drop_bit 8 c),
      i + 3 := ucast c]) = front @ be_bytes 4 (c :: u32)"
proof -
  obtain r0 r1 r2 r3 rs where "r = r0 # r1 # r2 # r3 # rs"
    using assms(2) by (auto simp: numeral_eq_Suc Suc_le_length_iff)
  then show ?thesis using assms(1) by (simp add: list_update_append be_bytes_4)
qed

lemma copy_at_next: "length front = i \<Longrightarrow> length src \<le> length r \<Longrightarrow> copy_at (front @ r) i src = (front @ src) @ drop (length src) r"
  by (simp add: copy_at_def)

definition tables_ok :: "Muxer \<Rightarrow> bool" where
  "tables_ok muxer \<longleftrightarrow> length (mx_pat muxer) = 188 \<and> length (mx_pmt muxer) = 188 \<and> patCc muxer \<le> 16 \<and> pmtCc muxer \<le> 16"

lemma table_layout:
  assumes "length buf = 188" and "length tsh = 5" and "length a = 12" and "length b \<le> 20"
  shows "copy_at (copy_at (copy_at buf 0 tsh) 5 a) 17 b = (tsh @ a @ b) @ drop (17 + length b) buf"
    and "copy_at (copy_at buf 0 tsh) 5 a = (tsh @ a) @ drop 17 buf"
proof -
  have 1: "copy_at buf 0 tsh = tsh @ drop 5 buf"
    using copy_at_next [of "[]" 0 tsh buf] assms by simp
  then show 2: "copy_at (copy_at buf 0 tsh) 5 a = (tsh @ a) @ drop 17 buf"
    using copy_at_next [of tsh 5 a "drop 5 buf"] assms by simp
  show "copy_at (copy_at (copy_at buf 0 tsh) 5 a) 17 b = (tsh @ a @ b) @ drop (17 + length b) buf"
    unfolding 2 using copy_at_next [of "tsh @ a" 17 b "drop 17 buf"] assms by (simp add: add.commute)
qed

text \<open>A table packet: header, section, checksum, stuffing.\<close>

definition table_packet :: "byte \<Rightarrow> byte \<Rightarrow> byte \<Rightarrow> bytes \<Rightarrow> bytes" where
  "table_packet pidHigh pidLow cc sec =
     [0x47, pidHigh, pidLow, 0x10 OR (cc AND 0x0f), 0x00] @ sec @ be_bytes 4 (GenCrc32 sec) @ replicate (179 - length sec) 0xff"

definition pat_section :: bytes where
  "pat_section = [0x00, 0xb0, 0x0d, 0x00, 0x01, 0xc1, 0x00, 0x00, 0x00, 0x01, 0xf0, 0x01]"

definition pmt_section :: "byte \<Rightarrow> bool \<Rightarrow> bytes" where
  "pmt_section sound hasVideo =
     (let audio = [if sound = 2 \<or> sound = 14 then 0x04 else 0x0f, 0xe1, 0x01, 0xf0, 0x00]
      in if hasVideo
         then [0x02, 0xb0, 23, 0x00, 0x01, 0xc1, 0x00, 0x00, 0xe1, 0x00, 0xf0, 0x00, 0x1b, 0xe1, 0x00, 0xf0, 0x00] @ audio
         else [0x02, 0xb0, 18, 0x00, 0x01, 0xc1, 0x00, 0x00, 0xe1, 0x01, 0xf0, 0x00] @ audio)"

definition tableCc :: "byte \<Rightarrow> byte" where
  "tableCc cc = (if cc > 0xf then 0 else cc)"

lemma PAT_eq:
  assumes "length (mx_pat muxer) = 188"
  shows "PAT muxer = (let t = table_packet 0x40 0x00 (tableCc (patCc muxer)) pat_section
     in (t, muxer\<lparr>patCc := tableCc (patCc muxer) + 1, mx_pat := t\<rparr>))"
proof -
  define tsh where "tsh = [0x47, 0x40, 0x00, 0x10 OR (tableCc (patCc muxer) AND 0x0f), 0x00 :: byte]"
  define t where "t = take 21 ((copy_at (copy_at (mx_pat muxer) 0 tsh) 5 pat_section)[17 := ucast (drop_bit 24 (GenCrc32 pat_section)),
      18 := ucast (drop_bit 16 (GenCrc32 pat_section)), 19 := ucast (drop_bit 8 (GenCrc32 pat_section)),
      20 := ucast (GenCrc32 pat_section)]) @ replicate 167 0xff"
  have l: "length tsh = 5" "length pat_section = 12" by (simp_all add: tsh_def pat_section_def)
  have c: "copy_at (copy_at (mx_pat muxer) 0 tsh) 5 pat_section = (tsh @ pat_section) @ drop 17 (mx_pat muxer)"
    using table_layout(2) [OF assms l(1) l(2), of "[]"] by simp
  have "t = (tsh @ pat_section) @ be_bytes 4 (GenCrc32 pat_section) @ replicate 167 0xff"
    unfolding t_def c using store_crc [of "tsh @ pat_section" 17 "drop 17 (mx_pat muxer)" "GenCrc32 pat_section"] assms l by simp
  moreover have "PAT muxer = (t, muxer\<lparr>patCc := tableCc (patCc muxer) + 1, mx_pat := t\<rparr>)"
    by (simp only: PAT_def Let_def t_def tsh_def pat_section_def tableCc_def) simp
  ultimately show ?thesis by (simp add: table_packet_def tsh_def l Let_def)
qed

lemma PMT_eq:
  assumes "length (mx_pmt muxer) = 188"
  shows "PMT sound hasVideo muxer = (let t = table_packet 0x50 0x01 (tableCc (pmtCc muxer)) (pmt_section sound hasVideo)
     in (t, muxer\<lparr>pmtCc := tableCc (pmtCc muxer) + 1, mx_pmt := t\<rparr>))"
proof -
  define tsh where "tsh = [0x47, 0x50, 0x01, 0x10 OR (tableCc (pmtCc muxer) AND 0x0f), 0x00 :: byte]"
  define a b where "a = take 12 (pmt_section sound hasVideo)" and "b = drop 12 (pmt_section sound hasVideo)"
  define i where "i = 17 + length b"
  define m where "m = copy_at (copy_at (copy_at (mx_pmt muxer) 0 tsh) 5 a) 17 b"
  define crc where "crc = GenCrc32 (take (length a + length b) (drop 5 m))"
  define t where "t = take (i + 4) (m[i := ucast (drop_bit 24 crc), i + 1 := ucast (drop_bit 16 crc), i + 2 := ucast (drop_bit 8 crc),
      i + 3 := ucast crc]) @ replicate (188 - (i + 4)) 0xff"
  have l: "length tsh = 5" "length a = 12" "length b \<le> 20" "a @ b = pmt_section sound hasVideo"
    by (simp_all add: tsh_def a_def b_def pmt_section_def Let_def)
  have "m = (tsh @ a @ b) @ drop i (mx_pmt muxer)"
    unfolding m_def i_def using assms l by (intro table_layout(1)) simp_all
  then have m: "m = (tsh @ a @ b) @ drop i (mx_pmt muxer)" "crc = GenCrc32 (a @ b)"
    using l(1-3) by (simp_all add: crc_def)
  have "t = (tsh @ a @ b) @ be_bytes 4 crc @ replicate (188 - (i + 4)) 0xff"
  proof -
    have "length (tsh @ a @ b) = i" "4 \<le> length (drop i (mx_pmt muxer))" using l(1-3) assms by (simp_all add: i_def)
    from store_crc [OF this, of crc] show ?thesis unfolding t_def m(1) by simp
  qed
  then have "t = tsh @ (a @ b) @ be_bytes 4 (GenCrc32 (a @ b)) @ replicate (179 - length (a @ b)) 0xff"
    using m(2) l(2) by (simp add: i_def)
  then have "t = table_packet 0x50 0x01 (tableCc (pmtCc muxer)) (pmt_section sound hasVideo)"
    unfolding l(4) by (simp add: table_packet_def tsh_def)
  moreover have "PMT sound hasVideo muxer = (t, muxer\<lparr>pmtCc := tableCc (pmtCc muxer) + 1, mx_pmt := t\<rparr>)"
  proof -
    have "a = (if hasVideo then [0x02, 0xb0, 23, 0x00, 0x01, 0xc1, 0x00, 0x00, 0xe1, 0x00, 0xf0, 0x00]
          else [0x02, 0xb0, 18, 0x00, 0x01, 0xc1, 0x00, 0x00, 0xe1, 0x01, 0xf0, 0x00])"
        "b = (if hasVideo then [0x1b, 0xe1, 0x00, 0xf0, 0x00] else []) @ [if sound = 2 \<or> sound = 14 then 0x04 else 0x0f, 0xe1, 0x01, 0xf0, 0x00]"
      by (simp_all add: a_def b_def pmt_section_def Let_def)
    then show ?thesis
      unfolding t_def crc_def m_def i_def tsh_def tableCc_def
      by (cases hasVideo; cases "sound = 2 \<or> sound = 14") (simp_all add: PMT_def Let_def)
  qed
  ultimately show ?thesis by (simp add: Let_def)
qed

lemma table_packet_section:
  assumes "length sec = n" and "n < 180" and "sec = b0 # b1 # b2 # r" and "unat (b1 AND 0x0f) * 256 + unat b2 = n + 1"
  shows "psi_section (table_packet pidHigh pidLow cc sec) = sec @ be_bytes 4 (GenCrc32 sec)"
    and "length (table_packet pidHigh pidLow cc sec) = 188"
proof -
  let ?t = "table_packet pidHigh pidLow cc sec"
  show "length ?t = 188" using assms(1,2) by (simp add: table_packet_def)
  have "?t ! 6 = b1" "?t ! 7 = b2" using assms(3) by (simp_all add: table_packet_def)
  moreover have "drop 5 ?t = (sec @ be_bytes 4 (GenCrc32 sec)) @ replicate (179 - length sec) 0xff"
    by (simp add: table_packet_def)
  moreover have "3 + (n + 1) = length (sec @ be_bytes 4 (GenCrc32 sec))" using assms(1) by simp
  ultimately show "psi_section ?t = sec @ be_bytes 4 (GenCrc32 sec)"
    unfolding psi_section_def using assms(4) by (simp only: take_append) simp
qed

lemma pat_section_ok:
  "psi_section (table_packet pidHigh pidLow cc pat_section) = pat_section @ be_bytes 4 (GenCrc32 pat_section)"
  "length (table_packet pidHigh pidLow cc pat_section) = 188"
  by (rule table_packet_section [where n = 12, OF _ _ pat_section_def]; simp add: pat_section_def)+

lemma pmt_section_ok:
  "psi_section (table_packet pidHigh pidLow cc (pmt_section sound hasVideo)) =
     pmt_section sound hasVideo @ be_bytes 4 (GenCrc32 (pmt_section sound hasVideo))"
  "length (table_packet pidHigh pidLow cc (pmt_section sound hasVideo)) = 188"
proof -
  have "psi_section (table_packet pidHigh pidLow cc (pmt_section sound hasVideo)) =
      pmt_section sound hasVideo @ be_bytes 4 (GenCrc32 (pmt_section sound hasVideo)) \<and>
    length (table_packet pidHigh pidLow cc (pmt_section sound hasVideo)) = 188"
  proof (cases hasVideo)
    case True
    have "pmt_section sound True = 0x02 # 0xb0 # 23 # drop 3 (pmt_section sound True)" "length (pmt_section sound True) = 22"
      by (simp_all add: pmt_section_def Let_def)
    from table_packet_section [OF this(2) _ this(1)] show ?thesis using True by simp
  next
    case False
    have "pmt_section sound False = 0x02 # 0xb0 # 18 # drop 3 (pmt_section sound False)" "length (pmt_section sound False) = 17"
      by (simp_all add: pmt_section_def Let_def)
    from table_packet_section [OF this(2) _ this(1)] show ?thesis using False by simp
  qed
  then show "psi_section (table_packet pidHigh pidLow cc (pmt_section sound hasVideo)) =
      pmt_section sound hasVideo @ be_bytes 4 (GenCrc32 (pmt_section sound hasVideo))"
    and "length (table_packet pidHigh pidLow cc (pmt_section sound hasVideo)) = 188" by simp_all
qed

lemma table_cc:
  assumes "cc \<le> 16"
  shows "ts_cc (table_packet pidHigh pidLow (tableCc cc) sec) = unat cc mod 16" and "tableCc cc + 1 \<le> 16"
    and "unat (tableCc cc + 1) mod 16 = (unat cc + 1) mod 16"
proof -
  have t: "unat (tableCc cc) = unat cc mod 16" "tableCc cc < 16"
    using assms by (auto simp: tableCc_def word_le_nat_alt word_less_nat_alt mod_if)
  then show "ts_cc (table_packet pidHigh pidLow (tableCc cc) sec) = unat cc mod 16"
    using cc_field(1) [OF t(2)] by (simp add: ts_cc_def table_packet_def)
  have "unat (tableCc cc + 1) = unat cc mod 16 + 1"
    using t by (simp add: unat_word_ariths word_less_nat_alt)
  then show "tableCc cc + 1 \<le> 16" and "unat (tableCc cc + 1) mod 16 = (unat cc + 1) mod 16"
    by (simp_all add: word_le_nat_alt mod_simps)
qed

text \<open>Muxing does not touch the program tables.\<close>

lemma mux_round_tables: "mux_round p pes dts key v muxer = Inr (v', muxer') \<Longrightarrow> tables_ok muxer' = tables_ok muxer"
  unfolding mux_round_def Let_def by (auto simp: tables_ok_def split: if_splits)

lemma mux_loop_tables: "mux_loop p pes dts key v muxer w = (e, muxer', w') \<Longrightarrow> tables_ok muxer' = tables_ok muxer"
proof (induction p pes dts key v muxer w rule: mux_loop.induct)
  case (1 p pes dts key v muxer w)
  from "1.prems" show ?case
    by (subst (asm) mux_loop.simps)
      (auto split: if_splits sum.splits option.splits prod.splits dest: mux_round_tables "1.IH" [rotated -1])
qed

lemma Mux_tables: "Mux p muxer w = (e, muxer', w') \<Longrightarrow> tables_ok muxer' = tables_ok muxer"
  by (auto simp: Mux_def Let_def split: if_splits option.splits dest: mux_loop_tables)

text \<open>
  The program association table and the program map table are well-formed: 188-byte packets with the
  identifiers 0 and \<^verbatim>\<open>0x1001\<close>, a section that ends in its checksum (so that its checksum is zero) with the
  association table pointing to the map table, and continuity counters that advance by one, modulo 16.
\<close>

theorem program_tables_valid:
  assumes "tables_ok muxer" and "(pat, m1) = PAT muxer" and "(pmt, m2) = PMT sound hasVideo muxer"
  shows "(length pat = 188 \<and> ts_pid pat = 0 \<and> ts_start pat \<and> GenCrc32 (psi_section pat) = 0 \<and>
     unat (psi_section pat ! 10 AND 0x1f) * 256 + unat (psi_section pat ! 11) = ts_pid pmt \<and>
     ts_cc pat = unat (patCc muxer) mod 16 \<and> unat (patCc m1) mod 16 = (ts_cc pat + 1) mod 16 \<and> tables_ok m1) \<and>
    (length pmt = 188 \<and> ts_pid pmt = 0x1001 \<and> ts_start pmt \<and> GenCrc32 (psi_section pmt) = 0 \<and>
     ts_cc pmt = unat (pmtCc muxer) mod 16 \<and> unat (pmtCc m2) mod 16 = (ts_cc pmt + 1) mod 16 \<and> tables_ok m2)"
proof -
  have t: "length (mx_pat muxer) = 188" "length (mx_pmt muxer) = 188" "patCc muxer \<le> 16" "pmtCc muxer \<le> 16"
    using assms(1) by (simp_all add: tables_ok_def)
  have pat: "pat = table_packet 0x40 0x00 (tableCc (patCc muxer)) pat_section"
      "m1 = muxer\<lparr>patCc := tableCc (patCc muxer) + 1, mx_pat := pat\<rparr>"
    using assms(2) PAT_eq [OF t(1)] by (simp_all add: Let_def)
  have pmt: "pmt = table_packet 0x50 0x01 (tableCc (pmtCc muxer)) (pmt_section sound hasVideo)"
      "m2 = muxer\<lparr>pmtCc := tableCc (pmtCc muxer) + 1, mx_pmt := pmt\<rparr>"
    using assms(3) PMT_eq [OF t(2)] by (simp_all add: Let_def)
  have pids: "ts_pid pat = 0" "ts_start pat" "ts_pid pmt = 0x1001" "ts_start pmt"
    by (simp_all add: pat(1) pmt(1) table_packet_def ts_pid_def ts_start_def)
  have link: "unat (psi_section pat ! 10 AND 0x1f) * 256 + unat (psi_section pat ! 11) = 0x1001"
    unfolding pat(1) pat_section_ok by (simp add: pat_section_def)
  have crc: "GenCrc32 (psi_section pat) = 0" "GenCrc32 (psi_section pmt) = 0"
    unfolding pat(1) pmt(1) pat_section_ok pmt_section_ok by (rule GenCrc32_self)+
  have len: "length pat = 188" "length pmt = 188" unfolding pat(1) pmt(1) by (rule pat_section_ok pmt_section_ok)+
  have "length pat = 188 \<and> ts_pid pat = 0 \<and> ts_start pat \<and> GenCrc32 (psi_section pat) = 0 \<and>
     unat (psi_section pat ! 10 AND 0x1f) * 256 + unat (psi_section pat ! 11) = ts_pid pmt \<and>
     ts_cc pat = unat (patCc muxer) mod 16 \<and> unat (patCc m1) mod 16 = (ts_cc pat + 1) mod 16 \<and> tables_ok m1"
    using pids link crc len t table_cc [OF t(3)] by (simp add: pat tables_ok_def mod_simps)
  moreover have "length pmt = 188 \<and> ts_pid pmt = 0x1001 \<and> ts_start pmt \<and> GenCrc32 (psi_section pmt) = 0 \<and>
     ts_cc pmt = unat (pmtCc muxer) mod 16 \<and> unat (pmtCc m2) mod 16 = (ts_cc pmt + 1) mod 16 \<and> tables_ok m2"
    using pids crc len t table_cc [OF t(4)] by (simp add: pmt tables_ok_def mod_simps)
  ultimately show ?thesis by (rule conjI)
qed

theorem program_tables_valid_witness:
  "GenCrc32 (psi_section (fst (PAT NewMuxer))) = 0 \<and> ts_pid (fst (PMT 10 True NewMuxer)) = 0x1001"
proof -
  have "tables_ok NewMuxer" by (simp add: tables_ok_def NewMuxer_def)
  from program_tables_valid [OF this, of "fst (PAT NewMuxer)" "snd (PAT NewMuxer)" "fst (PMT 10 True NewMuxer)" "snd (PMT 10 True NewMuxer)" 10 True]
  show ?thesis by simp
qed

end
