(* ===== verification/Hls.thy ===== *)
theory Hls
  imports Codecs TsMuxer
begin

text \<open>
  \<^verbatim>\<open>src/protocol/hls\<close>: cutting a published stream into the segments of an HLS playlist. \<^verbatim>\<open>align.go\<close>
  (audio clock), \<^verbatim>\<open>audio_cache.go\<close>, \<^verbatim>\<open>status.go\<close>, \<^verbatim>\<open>item.go\<close>, \<^verbatim>\<open>cache.go\<close> (the segments on
  offer) and \<^verbatim>\<open>source.go\<close> (the sender that turns packets into segments).

  \<^verbatim>\<open>time.Now()\<close> is an argument in nanoseconds, read once per packet. A \<^verbatim>\<open>*bytes.Buffer\<close> is its
  contents. A pointer that \<^verbatim>\<open>cleanup\<close> sets to nil is an option, and using it then panics.
\<close>

section \<open>align.go\<close>

abbreviation defaultH264Hz :: u64 where "defaultH264Hz \<equiv> 90"

record align =
  frameNum :: u64
  frameBase :: u64

definition align_align :: "u64 \<Rightarrow> u32 \<Rightarrow> align \<Rightarrow> u64 \<times> align" where
  "align_align aFrameDts inc a =
     (let estPts = frameBase a + frameNum a * ucast inc;
          dPts = (if estPts \<ge> aFrameDts then estPts - aFrameDts else aFrameDts - estPts)
      in if dPts \<le> 2 * defaultH264Hz then (estPts, a\<lparr>frameNum := frameNum a + 1\<rparr>)
         else (aFrameDts, a\<lparr>frameNum := 1, frameBase := aFrameDts\<rparr>))"

section \<open>audio\_cache.go\<close>

abbreviation cacheMaxFrames :: byte where "cacheMaxFrames \<equiv> 6"

record audioCache =
  ac_soundFormat :: byte
  ac_num :: byte
  ac_offset :: nat
  ac_pts :: u64
  ac_buf :: bytes

definition newAudioCache :: audioCache where
  "newAudioCache = \<lparr>ac_soundFormat = 0, ac_num = 0, ac_offset = 0, ac_pts = 0, ac_buf = replicate (10 * 1024) 0\<rparr>"

text \<open>The result of \<^verbatim>\<open>Cache\<close> is always false and is not used.\<close>

definition ac_Cache :: "bytes \<Rightarrow> u64 \<Rightarrow> audioCache \<Rightarrow> audioCache" where
  "ac_Cache src pts a =
     (let a = (if ac_num a = 0 then a\<lparr>ac_offset := 0, ac_pts := pts, ac_buf := []\<rparr> else a)
      in a\<lparr>ac_buf := ac_buf a @ src, ac_offset := ac_offset a + length src, ac_num := ac_num a + 1\<rparr>)"

definition GetFrame :: "audioCache \<Rightarrow> (nat \<times> u64 \<times> bytes) \<times> audioCache" where
  "GetFrame a = ((ac_offset a, ac_pts a, ac_buf a), a\<lparr>ac_num := 0\<rparr>)"

definition CacheNum :: "audioCache \<Rightarrow> byte" where
  "CacheNum a = ac_num a"

section \<open>status.go\<close>

record status =
  hasVideo :: bool
  seqID :: int
  createdAt :: int
  segBeginAt :: int
  hasSetFirstTs :: bool
  firstTimestamp :: int
  lastTimestamp :: int

text \<open>The zero \<^verbatim>\<open>time.Time\<close> of \<^verbatim>\<open>createdAt\<close> is 0 here; it is never read.\<close>

definition newStatus :: "int \<Rightarrow> status" where
  "newStatus now = \<lparr>hasVideo = False, seqID = 0, createdAt = 0, segBeginAt = now, hasSetFirstTs = False,
     firstTimestamp = 0, lastTimestamp = 0\<rparr>"

definition status_update :: "bool \<Rightarrow> u32 \<Rightarrow> status \<Rightarrow> status" where
  "status_update isVideo timestamp t =
     (let t = (if isVideo then t\<lparr>hasVideo := True\<rparr> else t);
          t = (if \<not> hasSetFirstTs t then t\<lparr>hasSetFirstTs := True, firstTimestamp := uint timestamp\<rparr> else t)
      in t\<lparr>lastTimestamp := uint timestamp\<rparr>)"

definition resetAndNew :: "int \<Rightarrow> status \<Rightarrow> status" where
  "resetAndNew now t = t\<lparr>seqID := seqID t + 1, hasVideo := False, createdAt := now, hasSetFirstTs := False\<rparr>"

definition durationMs :: "status \<Rightarrow> int" where
  "durationMs t = lastTimestamp t - firstTimestamp t"

section \<open>item.go\<close>

record TSItem =
  ts_Name :: bytes
  SeqNum :: int
  Duration :: int
  ts_Data :: bytes

definition NewTSItem :: "bytes \<Rightarrow> int \<Rightarrow> int \<Rightarrow> bytes \<Rightarrow> TSItem" where
  "NewTSItem name dur seqNum b = \<lparr>ts_Name = name, SeqNum = seqNum, Duration = dur, ts_Data = b\<rparr>"

section \<open>cache.go\<close>

abbreviation maxTSCacheNum :: nat where "maxTSCacheNum \<equiv> 3"

record TSCacheItem =
  tc_id :: bytes
  tc_num :: nat
  tc_ll :: "bytes list"
  tc_lm :: "bytes \<rightharpoonup> TSItem"

definition NewTSCacheItem :: "bytes \<Rightarrow> TSCacheItem" where
  "NewTSCacheItem i = \<lparr>tc_id = i, tc_num = maxTSCacheNum, tc_ll = [], tc_lm = Map.empty\<rparr>"

text \<open>\<^verbatim>\<open>%.3f\<close> of \<^verbatim>\<open>float64(d)/1000\<close> has the exact three decimals for the durations that 32-bit time stamps give.\<close>

definition thousandths :: "int \<Rightarrow> bytes" where
  "thousandths d =
     (let n = nat \<bar>d\<bar>
      in (if d < 0 then gostr ''-'' else []) @ decimal (n div 1000) @ gostr ''.'' @
         decimal (n div 100 mod 10) @ decimal (n div 10 mod 10) @ decimal (n mod 10))"

definition newline :: bytes where
  "newline = [10]"

definition extinf :: "TSItem \<Rightarrow> bytes" where
  "extinf v = gostr ''#EXTINF:'' @ thousandths (Duration v) @ gostr '','' @ newline @ ts_Name v @ newline"

text \<open>The loop over the keys carries \<^verbatim>\<open>seq\<close>, \<^verbatim>\<open>getSeq\<close>, \<^verbatim>\<open>maxDuration\<close> and the body.\<close>

definition playlist_step :: "TSCacheItem \<Rightarrow> bytes \<Rightarrow> int \<times> bool \<times> int \<times> bytes \<Rightarrow> int \<times> bool \<times> int \<times> bytes" where
  "playlist_step tc key = (\<lambda>(seqn, getSeq, maxDuration, body).
     case tc_lm tc key of
       None \<Rightarrow> (seqn, getSeq, maxDuration, body)
     | Some v \<Rightarrow> (if getSeq then seqn else SeqNum v, True,
                  if Duration v > maxDuration then Duration v else maxDuration, body @ extinf v))"

definition m3u8_header :: "int \<Rightarrow> int \<Rightarrow> bytes" where
  "m3u8_header target seqn =
     gostr ''#EXTM3U'' @ newline @ gostr ''#EXT-X-VERSION:3'' @ newline @ gostr ''#EXT-X-ALLOW-CACHE:NO'' @ newline @
     gostr ''#EXT-X-TARGETDURATION:'' @ decimal_int target @ newline @
     gostr ''#EXT-X-MEDIA-SEQUENCE:'' @ decimal_int seqn @ newline @ newline"

definition GenM3U8PlayList :: "TSCacheItem \<Rightarrow> bytes" where
  "GenM3U8PlayList tc =
     (case fold (playlist_step tc) (tc_ll tc) (0, False, 0, []) of
        (seqn, _, maxDuration, body) \<Rightarrow> m3u8_header (maxDuration div 1000 + 1) seqn @ body)"

definition SetItem :: "bytes \<Rightarrow> TSItem \<Rightarrow> TSCacheItem \<Rightarrow> TSCacheItem res" where
  "SetItem key item tc =
     bindR (if length (tc_ll tc) = tc_num tc
            then (case tc_ll tc of
                    [] \<Rightarrow> Inl (Panic NilDereference)
                  | k # ks \<Rightarrow> Inr (tc\<lparr>tc_ll := ks, tc_lm := (tc_lm tc)(k := None)\<rparr>))
            else Inr tc) (\<lambda>tc.
       Inr (tc\<lparr>tc_lm := (tc_lm tc)(key \<mapsto> item), tc_ll := tc_ll tc @ [key]\<rparr>))"

definition GetItem :: "bytes \<Rightarrow> TSCacheItem \<Rightarrow> TSItem res" where
  "GetItem key tc = (case tc_lm tc key of None \<Rightarrow> Inl (Err (Errorf ''No key for cache'')) | Some item \<Rightarrow> Inr item)"

section \<open>The audio clock\<close>

text \<open>
  Audio time stamps come in milliseconds; \<^verbatim>\<open>align\<close> replaces them by equidistant ones while they stay within
  two milliseconds of the expected ones, and otherwise starts again from the packet's own.
\<close>

fun align_run :: "u32 \<Rightarrow> u64 list \<Rightarrow> align \<Rightarrow> u64 list \<times> align" where
  "align_run inc [] a = ([], a)"
| "align_run inc (d # ds) a =
     (case align_align d inc a of (t, a) \<Rightarrow> case align_run inc ds a of (ts, a) \<Rightarrow> (t # ts, a))"

definition close_ticks :: "u64 \<Rightarrow> u64 \<Rightarrow> bool" where
  "close_ticks t d \<longleftrightarrow> (if t \<ge> d then t - d else d - t) \<le> 180"

lemma align_align_close: "align_align d inc a = (t, a') \<Longrightarrow> close_ticks t d"
  by (auto simp: align_align_def close_ticks_def Let_def split: if_splits)

lemma align_run_close: "align_run inc ds a = (ts, a') \<Longrightarrow> list_all2 close_ticks ts ds"
proof (induction ds arbitrary: a ts)
  case (Cons d ds)
  then show ?case using align_align_close [of d inc a] by (auto split: prod.splits)
qed auto

text \<open>Frames that stay close to a regular clock get exactly its times.\<close>

lemma align_run_regular:
  assumes "\<And>i. i < length ds \<Longrightarrow> close_ticks (frameBase a + (frameNum a + word_of_nat i) * ucast inc) (ds ! i)"
  shows "fst (align_run inc ds a) = map (\<lambda>i. frameBase a + (frameNum a + word_of_nat i) * ucast inc) [0..<length ds]"
  using assms
proof (induction ds arbitrary: a)
  case (Cons d ds)
  let ?a = "a\<lparr>frameNum := frameNum a + 1\<rparr>"
  have first: "align_align d inc a = (frameBase a + frameNum a * ucast inc, ?a)"
    using Cons.prems [of 0] by (simp add: align_align_def close_ticks_def Let_def)
  have "close_ticks (frameBase ?a + (frameNum ?a + word_of_nat i) * ucast inc) (ds ! i)" if "i < length ds" for i
    using Cons.prems [of "Suc i"] that by (simp add: ac_simps)
  from Cons.IH [of ?a, OF this]
  have "fst (align_run inc ds ?a) = map (\<lambda>i. frameBase a + (frameNum a + 1 + word_of_nat i) * ucast inc) [0..<length ds]"
    by simp
  moreover have "[0..<length (d # ds)] = 0 # map Suc [0..<length ds]" by (simp add: map_Suc_upt upt_conv_Cons del: upt_Suc)
  ultimately show ?case
    using first by (auto simp: ac_simps split: prod.splits simp del: upt_Suc)
qed simp

section \<open>The segments on offer\<close>

fun set_items :: "(bytes \<times> TSItem) list \<Rightarrow> TSCacheItem \<Rightarrow> TSCacheItem res" where
  "set_items [] tc = Inr tc"
| "set_items ((key, item) # items) tc = bindR (SetItem key item tc) (set_items items)"

text \<open>The specification: a window of the last segments, and the playlist of a list of segments.\<close>

definition window :: "nat \<Rightarrow> 'a list \<Rightarrow> 'a list" where
  "window n xs = drop (length xs - n) xs"

definition m3u8_of :: "TSItem list \<Rightarrow> bytes" where
  "m3u8_of items =
     m3u8_header (fold max (map Duration items) 0 div 1000 + 1) (case items of [] \<Rightarrow> 0 | v # _ \<Rightarrow> SeqNum v) @
     concat (map extinf items)"

lemma window_snoc:
  "0 < n \<Longrightarrow> window n (xs @ [x]) = (if length (window n xs) = n then tl (window n xs) else window n xs) @ [x]"
  by (cases "n \<le> length xs") (auto simp: window_def Suc_diff_le drop_Suc tl_drop)

lemma window_map: "window n (map f xs) = map f (window n xs)"
  by (simp add: window_def drop_map)

lemma set_window: "set (window n xs) \<subseteq> set xs"
  by (simp add: window_def set_drop_subset)

definition tc_represents :: "TSCacheItem \<Rightarrow> (bytes \<times> TSItem) list \<Rightarrow> bool" where
  "tc_represents tc items \<longleftrightarrow> tc_num tc = 3 \<and> tc_ll tc = map fst (window 3 items) \<and> tc_lm tc = map_of (window 3 items)"

lemma map_of_tl:
  assumes "distinct (map fst xs)" and "xs \<noteq> []"
  shows "(map_of xs)(fst (hd xs) := None) = map_of (tl xs)"
proof -
  obtain k v r where xs: "xs = (k, v) # r" using assms(2) by (cases xs) auto
  have "k \<notin> fst ` set r" using assms(1) xs by simp
  then have "map_of r k = None" by (simp add: map_of_eq_None_iff)
  then show ?thesis using xs by auto
qed

lemma map_of_snoc: "k \<notin> fst ` set xs \<Longrightarrow> map_of (xs @ [(k, v)]) = (map_of xs)(k \<mapsto> v)"
  by (induction xs) auto

lemma SetItem_represents:
  assumes "tc_represents tc items" and "distinct (map fst items)" and "key \<notin> fst ` set items"
  shows "\<exists>tc'. SetItem key item tc = Inr tc' \<and> tc_represents tc' (items @ [(key, item)])"
proof -
  let ?w = "window 3 items"
  have "distinct (map fst ?w)" using assms(2) by (simp add: window_def drop_map [symmetric])
  moreover have "key \<notin> fst ` set ?w" using assms(3) set_window [of 3 items] by blast
  moreover from this have "key \<notin> fst ` set (tl ?w)" by (cases ?w) auto
  ultimately have d: "distinct (map fst ?w)" "key \<notin> fst ` set ?w" "key \<notin> fst ` set (tl ?w)" by blast+
  show ?thesis
  proof (cases "length ?w = 3")
    case True
    then have "?w \<noteq> []" by auto
    with assms(1) d True map_of_tl [OF d(1)] show ?thesis
      by (cases ?w) (auto simp: SetItem_def tc_represents_def window_snoc map_of_snoc simp del: fun_upd_apply map_of_append)
  next
    case False
    with assms(1) d show ?thesis
      by (simp add: SetItem_def tc_represents_def window_snoc map_of_snoc del: map_of_append)
  qed
qed

lemma set_items_append: "set_items (xs @ ys) tc = bindR (set_items xs tc) (set_items ys)"
  by (induction xs arbitrary: tc) (auto simp: bindR_def split: sum.splits)

lemma set_items_represents:
  "distinct (map fst items) \<Longrightarrow> \<exists>tc. set_items items (NewTSCacheItem i) = Inr tc \<and> tc_represents tc items"
proof (induction items rule: rev_induct)
  case Nil
  show ?case by (simp add: NewTSCacheItem_def tc_represents_def window_def)
next
  case (snoc x items)
  obtain key item where x: "x = (key, item)" by (cases x)
  from snoc obtain tc where tc: "set_items items (NewTSCacheItem i) = Inr tc" "tc_represents tc items" by auto
  from SetItem_represents [OF tc(2), of key item] snoc.prems x
  obtain tc' where "SetItem key item tc = Inr tc'" "tc_represents tc' (items @ [(key, item)])" by auto
  with tc x show ?case by (simp add: set_items_append)
qed

lemma playlist_fold:
  assumes "\<And>k. k \<in> set keys \<Longrightarrow> tc_lm tc k = Some (f k)"
  shows "fold (playlist_step tc) keys (s, g, m, body) =
    (if g \<or> keys = [] then s else SeqNum (f (hd keys)), g \<or> keys \<noteq> [], fold max (map (Duration \<circ> f) keys) m, body @ concat (map (extinf \<circ> f) keys))"
  using assms
proof (induction keys arbitrary: s g m body)
  case (Cons k keys)
  have "(if Duration (f k) > m then Duration (f k) else m) = max (Duration (f k)) m" by simp
  with Cons.prems [of k] Cons.IH Cons.prems show ?case by (simp add: playlist_step_def)
qed simp

lemma playlist_represents:
  assumes "tc_represents tc items" and "distinct (map fst items)"
  shows "GenM3U8PlayList tc = m3u8_of (map snd (window 3 items))"
proof -
  let ?w = "window 3 items" and ?f = "\<lambda>k. the (map_of (window 3 items) k)"
  have d: "distinct (map fst ?w)" using assms(2) by (simp add: window_def drop_map [symmetric])
  have f: "?f (fst x) = snd x" if "x \<in> set ?w" for x
    using d that by (metis map_of_eq_Some_iff option.sel prod.collapse)
  have l: "tc_lm tc k = Some (?f k)" if "k \<in> set (tc_ll tc)" for k
    using assms(1) that by (auto simp: tc_represents_def map_of_eq_None_iff image_iff domIff [symmetric] dom_map_of_conv_image_fst)
  have m: "map (g \<circ> ?f) (map fst ?w) = map g (map snd ?w)" for g :: "TSItem \<Rightarrow> 'z"
    using f by simp
  have "fold (playlist_step tc) (map fst ?w) (0, False, 0, []) =
    (if ?w = [] then 0 else SeqNum (?f (hd (map fst ?w))), ?w \<noteq> [], fold max (map (Duration \<circ> ?f) (map fst ?w)) 0,
     concat (map (extinf \<circ> ?f) (map fst ?w)))"
    using playlist_fold [of "map fst ?w" tc ?f 0 False 0 "[]"] l assms(1) by (simp add: tc_represents_def)
  moreover have "?w \<noteq> [] \<Longrightarrow> ?f (hd (map fst ?w)) = snd (hd ?w)" using f [of "hd ?w"] by (simp add: hd_map)
  ultimately have "fold (playlist_step tc) (tc_ll tc) (0, False, 0, []) =
    (if ?w = [] then 0 else SeqNum (snd (hd ?w)), ?w \<noteq> [], fold max (map Duration (map snd ?w)) 0, concat (map extinf (map snd ?w)))"
    using assms(1) by (simp add: tc_represents_def m del: map_map)
  then show ?thesis by (cases ?w) (auto simp: GenM3U8PlayList_def m3u8_of_def)
qed

text \<open>
  C30: while no two segments get the same name, the cache refines a window of the last three segments: the
  playlist lists exactly these, in order, with the sequence number of the first and the longest
  duration; every listed segment can be fetched, and an older one gives the error.
\<close>

theorem ts_cache_is_window:
  assumes "distinct (map fst items)"
  shows "\<exists>tc. set_items items (NewTSCacheItem i) = Inr tc \<and>
     GenM3U8PlayList tc = m3u8_of (map snd (window 3 items)) \<and>
     (\<forall>key. GetItem key tc = (case map_of (window 3 items) key of
        Some item \<Rightarrow> Inr item | None \<Rightarrow> Inl (Err (Errorf ''No key for cache''))))"
proof -
  obtain tc where tc: "set_items items (NewTSCacheItem i) = Inr tc" "tc_represents tc items"
    using set_items_represents [OF assms] by blast
  then have "\<forall>key. GetItem key tc = (case map_of (window 3 items) key of
        Some item \<Rightarrow> Inr item | None \<Rightarrow> Inl (Err (Errorf ''No key for cache'')))"
    by (simp add: GetItem_def tc_represents_def split: option.splits)
  with tc playlist_represents [OF tc(2) assms] show ?thesis by blast
qed

definition sample_item :: "nat \<Rightarrow> bytes \<times> TSItem" where
  "sample_item n = (gostr ''/live/'' @ decimal n @ gostr ''.ts'',
     NewTSItem (gostr ''/live/'' @ decimal n @ gostr ''.ts'') (3000 + int n) (int n) [])"

theorem ts_cache_is_window_witness:
  "\<exists>tc. set_items (map sample_item [1, 2, 3, 4]) (NewTSCacheItem (gostr ''live'')) = Inr tc \<and>
     GenM3U8PlayList tc = m3u8_header 4 2 @ concat (map extinf (map (\<lambda>n. snd (sample_item n)) [2, 3, 4])) \<and>
     GetItem (fst (sample_item 1)) tc = Inl (Err (Errorf ''No key for cache''))"
proof -
  have d: "distinct (map fst (map sample_item [1, 2, 3, 4]))" by (simp add: sample_item_def)
  have w: "window 3 (map sample_item [1, 2, 3, 4]) = map sample_item [2, 3, 4]" by (simp add: window_def)
  have "m3u8_of (map snd (map sample_item [2, 3, 4])) = m3u8_header 4 2 @ concat (map extinf (map (\<lambda>n. snd (sample_item n)) [2, 3, 4]))"
    by (simp add: m3u8_of_def sample_item_def NewTSItem_def)
  moreover have "map_of (map sample_item [2, 3, 4]) (fst (sample_item 1)) = None" by (simp add: sample_item_def)
  ultimately show ?thesis using ts_cache_is_window [OF d, of "gostr ''live''"] unfolding w by auto
qed

text \<open>
  Segments are named by the second in which they are cut. When two get the same name, the newer replaces the
  older in the map but not in the list: the playlist offers the newer one twice, and when the list
  entry of the older one goes, the newer one is lost.
\<close>

theorem segment_name_collision:
  assumes "k \<noteq> c" and "k \<noteq> d" and "c \<noteq> d"
  shows "\<exists>tc tc'. set_items [(k, a), (k, b)] (NewTSCacheItem i) = Inr tc \<and>
     set_items [(c, x), (d, y)] tc = Inr tc' \<and> GenM3U8PlayList tc = m3u8_of [b, b] \<and>
     GenM3U8PlayList tc' = m3u8_of [x, y] \<and> GetItem k tc' = Inl (Err (Errorf ''No key for cache''))"
  using assms
  by (auto simp: SetItem_def NewTSCacheItem_def GenM3U8PlayList_def playlist_step_def m3u8_of_def GetItem_def max_def)

end
