(* ===== verification/Queue.thy ===== *)
theory Queue
  imports FlvTag
begin

text \<open>
  The packet queue between the goroutine of a publisher and the goroutine that sends to one player: a
  buffered Go channel. \<^verbatim>\<open>protocol/rtmp/rtmp.go\<close> and \<^verbatim>\<open>protocol/hls/source.go\<close> have the same
  \<^verbatim>\<open>DropPacket\<close> and \<^verbatim>\<open>Write\<close> around it, up to the length of the queue; \<^verbatim>\<open>protocol/httpflv/writer.go\<close>
  has a variant of its own.

  An operation on a channel may block. The result \<open>None\<close> says that the goroutine waits. Between the writes, and between the
  rounds of a \<^verbatim>\<open>DropPacket\<close>, the goroutine of the player may take packets from the queue (\<open>taken\<close>, \<open>drop_with\<close>). A writer that waits for
  a packet waits for good, since it is the only one that puts packets into the queue.
\<close>

section \<open>Channels\<close>

record 'a chan =
  ch_buf :: "'a list"
  ch_cap :: nat
  ch_closed :: bool

type_synonym 'a blk = "'a res option"

definition make_chan :: "nat \<Rightarrow> 'a chan" where
  "make_chan n = \<lparr>ch_buf = [], ch_cap = n, ch_closed = False\<rparr>"

lemma make_chan_simps [simp]:
  "ch_buf (make_chan n) = []" "ch_cap (make_chan n) = n" "\<not> ch_closed (make_chan n)"
  by (simp_all add: make_chan_def)

definition bindB :: "'a blk \<Rightarrow> ('a \<Rightarrow> 'b blk) \<Rightarrow> 'b blk" where
  "bindB m f = (case m of None \<Rightarrow> None | Some (Inl e) \<Rightarrow> Some (Inl e) | Some (Inr x) \<Rightarrow> f x)"

abbreviation retB :: "'a \<Rightarrow> 'a blk" where "retB x \<equiv> Some (Inr x)"

lemma bindB_simps [simp]:
  "bindB None f = None"
  "bindB (Some (Inl e)) f = Some (Inl e)"
  "bindB (retB x) f = f x"
  by (simp_all add: bindB_def)

lemma bindB_cong [fundef_cong]:
  "m = m' \<Longrightarrow> (\<And>x. m' = retB x \<Longrightarrow> f x = f' x) \<Longrightarrow> bindB m f = bindB m' f'"
  by (auto simp: bindB_def split: option.splits sum.splits)

text \<open>A send to a closed channel panics; a receive from a closed and empty one reports \<^verbatim>\<open>ok == false\<close>.\<close>

definition chan_send :: "'a \<Rightarrow> 'a chan \<Rightarrow> 'a chan blk" where
  "chan_send x c =
     (if ch_closed c then Some (Inl (Panic ClosedChannel))
      else if length (ch_buf c) < ch_cap c then retB (c\<lparr>ch_buf := ch_buf c @ [x]\<rparr>)
      else None)"

definition chan_recv :: "'a chan \<Rightarrow> ('a option \<times> 'a chan) blk" where
  "chan_recv c =
     (case ch_buf c of
        x # xs \<Rightarrow> retB (Some x, c\<lparr>ch_buf := xs\<rparr>)
      | [] \<Rightarrow> if ch_closed c then retB (None, c) else None)"

definition chan_close :: "'a chan \<Rightarrow> 'a chan res" where
  "chan_close c = (if ch_closed c then Inl (Panic ClosedChannel) else Inr (c\<lparr>ch_closed := True\<rparr>))"

text \<open>\<^verbatim>\<open>defer func() { if e := recover(); e != nil { err = ... } }()\<close> around a send.\<close>

definition recoverB :: "string \<Rightarrow> 'a blk \<Rightarrow> 'a blk" where
  "recoverB s m = (case m of Some (Inl (Panic _)) \<Rightarrow> Some (Inl (Err (Errorf s))) | _ \<Rightarrow> m)"

lemma recoverB_simps [simp]:
  "recoverB s None = None" "recoverB s (retB x) = retB x"
  "recoverB s (Some (Inl (Err e))) = Some (Inl (Err e))"
  "recoverB s (Some (Inl (Panic p))) = Some (Inl (Err (Errorf s)))"
  by (simp_all add: recoverB_def)

section \<open>Dropping packets, rtmp and hls\<close>

text \<open>A video packet that must not be dropped: a sequence header or a key frame.\<close>

definition keep_video :: "packet \<Rightarrow> bool" where
  "keep_video p = (case Header p of None \<Rightarrow> False | Some h \<Rightarrow> IsSeq h \<or> IsKeyFrame h)"

definition drop_audio :: "nat \<Rightarrow> packet \<Rightarrow> packet chan \<Rightarrow> packet chan blk" where
  "drop_audio maxQueueNum p c =
     (if IsAudio p
      then if length (ch_buf c) > maxQueueNum - 2 then bindB (chan_recv c) (\<lambda>(_, c). retB c) else chan_send p c
      else retB c)"

definition drop_video :: "nat \<Rightarrow> packet \<Rightarrow> packet chan \<Rightarrow> packet chan blk" where
  "drop_video maxQueueNum p c =
     (if IsVideo p
      then bindB (if keep_video p then chan_send p c else retB c) (\<lambda>c.
             if length (ch_buf c) > maxQueueNum - 10 then bindB (chan_recv c) (\<lambda>(_, c). retB c) else retB c)
      else retB c)"

definition drop_round :: "nat \<Rightarrow> packet chan \<Rightarrow> packet chan blk" where
  "drop_round maxQueueNum c =
     bindB (chan_recv c) (\<lambda>(tmpPkt, c).
       case tmpPkt of
         None \<Rightarrow> retB c
       | Some p \<Rightarrow> bindB (drop_audio maxQueueNum p c) (drop_video maxQueueNum p))"

fun repeatB :: "nat \<Rightarrow> ('a \<Rightarrow> 'a blk) \<Rightarrow> 'a \<Rightarrow> 'a blk" where
  "repeatB 0 f x = retB x"
| "repeatB (Suc n) f x = bindB (f x) (repeatB n f)"

definition drop_packets :: "nat \<Rightarrow> packet chan \<Rightarrow> packet chan blk" where
  "drop_packets maxQueueNum = repeatB (maxQueueNum - 84) (drop_round maxQueueNum)"

abbreviation rtmp_maxQueueNum :: nat where "rtmp_maxQueueNum \<equiv> 1024"
abbreviation hls_maxQueueNum :: nat where "hls_maxQueueNum \<equiv> 512"

definition rtmp_DropPacket :: "packet chan \<Rightarrow> packet chan blk" where
  "rtmp_DropPacket = drop_packets rtmp_maxQueueNum"

definition hls_DropPacket :: "packet chan \<Rightarrow> packet chan blk" where
  "hls_DropPacket = drop_packets hls_maxQueueNum"

section \<open>Dropping packets, http-flv\<close>

abbreviation flv_maxQueueNum :: nat where "flv_maxQueueNum \<equiv> 1024"

definition flv_drop_video :: "packet \<Rightarrow> packet chan \<Rightarrow> packet chan blk" where
  "flv_drop_video p c =
     (if IsVideo p
      then bindB (if keep_video p then chan_send p c else retB c) (\<lambda>c.
           bindB (if length (ch_buf c) > flv_maxQueueNum - 10 then bindB (chan_recv c) (\<lambda>(_, c). retB c) else retB c) (\<lambda>c.
           bindB (chan_recv c) (\<lambda>(_, c). retB c)))
      else retB c)"

definition flv_drop_round :: "packet chan \<Rightarrow> packet chan blk" where
  "flv_drop_round c =
     bindB (chan_recv c) (\<lambda>(tmpPkt, c).
       case tmpPkt of
         None \<Rightarrow> retB c
       | Some p \<Rightarrow> bindB (flv_drop_video p c) (\<lambda>c. if IsAudio p then chan_send p c else retB c))"

definition flv_DropPacket :: "packet chan \<Rightarrow> packet chan blk" where
  "flv_DropPacket = repeatB (flv_maxQueueNum - 84) flv_drop_round"

section \<open>Writing to the queue\<close>

text \<open>The last part of every \<^verbatim>\<open>Write\<close>: make room when the queue is nearly full, else send the packet.\<close>

definition enqueue :: "nat \<Rightarrow> (packet chan \<Rightarrow> packet chan blk) \<Rightarrow> packet \<Rightarrow> packet chan \<Rightarrow> packet chan blk" where
  "enqueue maxQueueNum DropPacket p c =
     (if length (ch_buf c) \<ge> maxQueueNum - 24 then DropPacket c else chan_send p c)"

fun enqueue_all :: "nat \<Rightarrow> (packet chan \<Rightarrow> packet chan blk) \<Rightarrow> packet list \<Rightarrow> packet chan \<Rightarrow> packet chan blk" where
  "enqueue_all maxQueueNum DropPacket [] c = retB c"
| "enqueue_all maxQueueNum DropPacket (p # ps) c =
     bindB (enqueue maxQueueNum DropPacket p c) (enqueue_all maxQueueNum DropPacket ps)"

text \<open>
  The player at the other end: it takes up to \<open>n\<close> packets, here before each of the rounds of a \<^verbatim>\<open>DropPacket\<close>; and a run of the
  queue, in which the player takes packets before each write and during it.
\<close>

definition taken :: "nat \<Rightarrow> packet chan \<Rightarrow> packet chan" where
  "taken n c = c\<lparr>ch_buf := drop n (ch_buf c)\<rparr>"

fun drop_with :: "nat \<Rightarrow> nat list \<Rightarrow> packet chan \<Rightarrow> packet chan blk" where
  "drop_with maxQueueNum [] c = retB c"
| "drop_with maxQueueNum (n # ns) c = bindB (drop_round maxQueueNum (taken n c)) (drop_with maxQueueNum ns)"

fun queue_run :: "nat \<Rightarrow> (nat \<times> packet \<times> nat list) list \<Rightarrow> packet chan \<Rightarrow> packet chan blk" where
  "queue_run maxQueueNum [] c = retB c"
| "queue_run maxQueueNum ((n, p, ns) # ops) c =
     bindB (enqueue maxQueueNum (drop_with maxQueueNum ns) p (taken n c)) (queue_run maxQueueNum ops)"

lemma drop_packets_alone: "drop_packets maxQueueNum = drop_with maxQueueNum (replicate (maxQueueNum - 84) 0)"
proof -
  have "repeatB n (drop_round maxQueueNum) c = drop_with maxQueueNum (replicate n 0) c" for n c
    by (induction n arbitrary: c) (simp_all add: taken_def cong: bindB_cong)
  then show ?thesis by (auto simp: drop_packets_def)
qed

text \<open>
  No packet of the readers is audio and video at once. A queue that is open, has its capacity and stays below the
  bound at which \<^verbatim>\<open>Write\<close> drops packets:
\<close>

definition kept :: "packet \<Rightarrow> bool" where
  "kept p \<longleftrightarrow> IsAudio p \<or> IsVideo p \<and> keep_video p"

definition one_kind :: "packet \<Rightarrow> bool" where
  "one_kind p \<longleftrightarrow> \<not> (IsAudio p \<and> IsVideo p)"

definition queue_ok :: "nat \<Rightarrow> packet chan \<Rightarrow> bool" where
  "queue_ok maxQueueNum c \<longleftrightarrow> \<not> ch_closed c \<and> ch_cap c = maxQueueNum \<and> length (ch_buf c) \<le> maxQueueNum - 24 \<and>
     list_all one_kind (ch_buf c)"

text \<open>
  What a player's queue promises the publisher, whatever it drops: an open queue below the bound takes a packet
  without blocking, stays below the bound and never gets packets that were not written.
\<close>

locale packet_queue =
  fixes maxQueueNum :: nat and DropPacket :: "packet chan \<Rightarrow> packet chan blk"
  assumes room: "24 < maxQueueNum"
    and drops: "queue_ok maxQueueNum c \<Longrightarrow> length (ch_buf c) = maxQueueNum - 24 \<Longrightarrow>
      \<exists>q. DropPacket c = retB (c\<lparr>ch_buf := q\<rparr>) \<and> length q \<le> maxQueueNum - 24 \<and> set q \<subseteq> set (ch_buf c)"
begin

lemma make_chan_ok: "queue_ok maxQueueNum (make_chan maxQueueNum)"
  by (simp add: queue_ok_def make_chan_def)

lemma enqueue_ok:
  assumes "queue_ok maxQueueNum c" and "one_kind p"
  shows "\<exists>c'. enqueue maxQueueNum DropPacket p c = retB c' \<and> queue_ok maxQueueNum c' \<and>
    set (ch_buf c') \<subseteq> insert p (set (ch_buf c))"
proof (cases "length (ch_buf c) = maxQueueNum - 24")
  case True
  with assms drops [of c] show ?thesis by (fastforce simp: enqueue_def queue_ok_def list_all_iff)
next
  case False
  with assms room show ?thesis by (auto simp: enqueue_def queue_ok_def chan_send_def)
qed

lemma enqueue_sends:
  assumes "queue_ok maxQueueNum c" and "length (ch_buf c) < maxQueueNum - 24"
  shows "enqueue maxQueueNum DropPacket p c = retB (c\<lparr>ch_buf := ch_buf c @ [p]\<rparr>)"
  using assms by (auto simp: enqueue_def queue_ok_def chan_send_def)

text \<open>A publisher that goes on while the player takes nothing never waits for it.\<close>

lemma enqueue_all_ok:
  assumes "queue_ok maxQueueNum c" and "list_all one_kind ps"
  shows "\<exists>c'. enqueue_all maxQueueNum DropPacket ps c = retB c' \<and> queue_ok maxQueueNum c' \<and>
    set (ch_buf c') \<subseteq> set ps \<union> set (ch_buf c)"
  using assms
proof (induction ps arbitrary: c)
  case (Cons p ps)
  obtain c1 where c1: "enqueue maxQueueNum DropPacket p c = retB c1" "queue_ok maxQueueNum c1"
      "set (ch_buf c1) \<subseteq> insert p (set (ch_buf c))"
    using enqueue_ok [OF Cons.prems(1)] Cons.prems(2) by auto
  with Cons.IH [OF c1(2)] Cons.prems(2) show ?case by fastforce
qed simp

end

section \<open>What DropPacket leaves in the queue\<close>

lemma drop_round_spec:
  assumes "\<not> ch_closed c" and "ch_cap c = maxQueueNum" and "ch_buf c = p # q" and "length q < maxQueueNum - 10" and "one_kind p"
  shows "drop_round maxQueueNum c = retB (c\<lparr>ch_buf := q @ filter kept [p]\<rparr>)"
proof -
  have "length q < maxQueueNum" "\<not> length q > maxQueueNum - 2" "\<not> Suc (length q) > maxQueueNum - 10"
    using assms(4) by auto
  with assms show ?thesis
    by (auto simp: drop_round_def chan_recv_def drop_audio_def drop_video_def chan_send_def kept_def one_kind_def)
qed

lemma drop_rounds_spec:
  assumes "\<not> ch_closed c" and "ch_cap c = maxQueueNum" and "n \<le> length (ch_buf c)" and "length (ch_buf c) \<le> maxQueueNum - 10"
    and "list_all one_kind (take n (ch_buf c))"
  shows "repeatB n (drop_round maxQueueNum) c = retB (c\<lparr>ch_buf := drop n (ch_buf c) @ filter kept (take n (ch_buf c))\<rparr>)"
  using assms
proof (induction n arbitrary: c)
  case (Suc n)
  obtain p q where q: "ch_buf c = p # q" using Suc.prems(3) by (cases "ch_buf c") auto
  let ?c = "c\<lparr>ch_buf := q @ filter kept [p]\<rparr>"
  have "drop_round maxQueueNum c = retB ?c"
    using Suc.prems q by (intro drop_round_spec) auto
  moreover have "n \<le> length (ch_buf ?c)" "length (ch_buf ?c) \<le> maxQueueNum - 10" "n \<le> length q"
    using Suc.prems q by auto
  ultimately show ?case
    using Suc.IH [of ?c] Suc.prems q by (simp add: take_append)
qed simp

lemma drop_packets_spec:
  assumes "\<not> ch_closed c" and "ch_cap c = maxQueueNum" and "maxQueueNum - 84 \<le> length (ch_buf c)"
    and "length (ch_buf c) \<le> maxQueueNum - 10" and "list_all one_kind (ch_buf c)"
  shows "drop_packets maxQueueNum c = retB (c\<lparr>ch_buf := drop (maxQueueNum - 84) (ch_buf c) @
    filter kept (take (maxQueueNum - 84) (ch_buf c))\<rparr>)"
proof -
  have "list_all one_kind (take n (ch_buf c))" for n using assms(5) by (metis append_take_drop_id list_all_append)
  with assms show ?thesis unfolding drop_packets_def by (intro drop_rounds_spec) auto
qed

lemma drop_packets_contract:
  assumes "84 \<le> maxQueueNum" and "queue_ok maxQueueNum c" and "length (ch_buf c) = maxQueueNum - 24"
  shows "\<exists>q. drop_packets maxQueueNum c = retB (c\<lparr>ch_buf := q\<rparr>) \<and> length q \<le> maxQueueNum - 24 \<and> set q \<subseteq> set (ch_buf c)"
proof -
  let ?n = "maxQueueNum - 84" and ?b = "ch_buf c"
  let ?q = "drop ?n ?b @ filter kept (take ?n ?b)"
  have "length (filter kept (take ?n ?b)) \<le> ?n" by (metis length_filter_le length_take min.bounded_iff)
  then have "length ?q \<le> maxQueueNum - 24" using assms(1,3) by simp
  moreover have "set ?q \<subseteq> set ?b" by (auto dest: in_set_dropD in_set_takeD)
  moreover have "drop_packets maxQueueNum c = retB (c\<lparr>ch_buf := ?q\<rparr>)"
    using assms by (intro drop_packets_spec) (auto simp: queue_ok_def)
  ultimately show ?thesis by blast
qed

text \<open>With a player that takes packets meanwhile: as long as there is a packet for every round, the rounds do not wait.\<close>

lemma drop_with_spec:
  assumes "\<not> ch_closed c" and "ch_cap c = maxQueueNum" and "length ns + sum_list ns \<le> length (ch_buf c)" and "length (ch_buf c) \<le> maxQueueNum - 10"
    and "list_all one_kind (ch_buf c)"
  shows "\<exists>q. drop_with maxQueueNum ns c = retB (c\<lparr>ch_buf := q\<rparr>) \<and> length q \<le> length (ch_buf c) \<and> set q \<subseteq> set (ch_buf c)"
  using assms
proof (induction ns arbitrary: c)
  case Nil
  then show ?case by (auto intro!: exI [of _ "ch_buf c"])
next
  case (Cons n ns)
  obtain p q where q: "drop n (ch_buf c) = p # q" using Cons.prems(3) by (cases "drop n (ch_buf c)") auto
  have l: "length (ch_buf c) = n + Suc (length q)" using arg_cong [OF q, of length] by simp
  have s: "set (p # q) \<subseteq> set (ch_buf c)" unfolding q [symmetric] by (rule set_drop_subset)
  let ?c = "(taken n c)\<lparr>ch_buf := q @ filter kept [p]\<rparr>"
  have r: "drop_round maxQueueNum (taken n c) = retB ?c"
    using Cons.prems q l s by (intro drop_round_spec) (auto simp: taken_def list_all_iff)
  have "length ns + sum_list ns \<le> length (ch_buf ?c)" "length (ch_buf ?c) \<le> maxQueueNum - 10" "list_all one_kind (ch_buf ?c)"
    using Cons.prems l s by (auto simp: list_all_iff)
  with Cons.IH [of ?c] Cons.prems(1,2) obtain q' where
    "drop_with maxQueueNum ns ?c = retB (?c\<lparr>ch_buf := q'\<rparr>)" "length q' \<le> length (ch_buf ?c)" "set q' \<subseteq> set (ch_buf ?c)"
    by (auto simp: taken_def)
  with r l s show ?case by (intro exI [of _ q']) (auto simp: taken_def split: if_splits)
qed

text \<open>A player that takes at most 60 packets meanwhile leaves enough of them.\<close>

definition modest :: "nat \<Rightarrow> nat list \<Rightarrow> bool" where
  "modest maxQueueNum ns \<longleftrightarrow> length ns = maxQueueNum - 84 \<and> sum_list ns \<le> 60"

lemma drop_with_queue:
  assumes "84 \<le> maxQueueNum" and "modest maxQueueNum ns"
  shows "packet_queue maxQueueNum (drop_with maxQueueNum ns)"
proof
  show "24 < maxQueueNum" using assms(1) by simp
  show "\<exists>q. drop_with maxQueueNum ns c = retB (c\<lparr>ch_buf := q\<rparr>) \<and> length q \<le> maxQueueNum - 24 \<and> set q \<subseteq> set (ch_buf c)"
    if "queue_ok maxQueueNum c" "length (ch_buf c) = maxQueueNum - 24" for c
    using drop_with_spec [of c maxQueueNum ns] that assms by (auto simp: queue_ok_def modest_def)
qed

lemma taken_ok: "queue_ok maxQueueNum c \<Longrightarrow> queue_ok maxQueueNum (taken n c)"
  by (auto simp: queue_ok_def taken_def list_all_iff dest: in_set_dropD)

lemma queue_run_ok:
  assumes "84 \<le> maxQueueNum" and "queue_ok maxQueueNum c" and "list_all (\<lambda>(n, p, ns). one_kind p \<and> modest maxQueueNum ns) ops"
  shows "\<exists>c'. queue_run maxQueueNum ops c = retB c' \<and> queue_ok maxQueueNum c' \<and> set (ch_buf c') \<subseteq> {p. \<exists>n ns. (n, p, ns) \<in> set ops} \<union> set (ch_buf c)"
  using assms(2,3)
proof (induction ops arbitrary: c)
  case (Cons x ops)
  obtain n p ns where x: "x = (n, p, ns)" by (cases x)
  have ok: "one_kind p" "packet_queue maxQueueNum (drop_with maxQueueNum ns)" using Cons.prems(2) x drop_with_queue [OF assms(1)] by auto
  obtain c1 where c1: "enqueue maxQueueNum (drop_with maxQueueNum ns) p (taken n c) = retB c1" "queue_ok maxQueueNum c1"
      "set (ch_buf c1) \<subseteq> insert p (set (ch_buf (taken n c)))"
    using packet_queue.enqueue_ok [OF ok(2) taken_ok [OF Cons.prems(1)] ok(1)] by blast
  have "set (ch_buf (taken n c)) \<subseteq> set (ch_buf c)" by (simp add: taken_def set_drop_subset)
  with c1 Cons.IH [OF c1(2)] Cons.prems(2) x show ?case by fastforce
qed simp

text \<open>And when there is not, a round waits.\<close>

lemma drop_with_waits:
  assumes "\<not> ch_closed c" and "ch_cap c = maxQueueNum" and "length (ch_buf c) < length ns + sum_list ns" and "length (ch_buf c) \<le> maxQueueNum - 10"
    and "list_all (\<lambda>p. one_kind p \<and> \<not> kept p) (ch_buf c)"
  shows "drop_with maxQueueNum ns c = None"
  using assms
proof (induction ns arbitrary: c)
  case (Cons n ns)
  show ?case
  proof (cases "drop n (ch_buf c)")
    case Nil
    then show ?thesis using Cons.prems(1) by (simp add: drop_round_def chan_recv_def taken_def)
  next
    case q: (Cons p q)
    have l: "length (ch_buf c) = n + Suc (length q)" using arg_cong [OF q, of length] by simp
    have s: "set (p # q) \<subseteq> set (ch_buf c)" unfolding q [symmetric] by (rule set_drop_subset)
    let ?c = "(taken n c)\<lparr>ch_buf := q\<rparr>"
    have "\<not> kept p" "one_kind p" using s Cons.prems(5) by (auto simp: list_all_iff)
    then have "drop_round maxQueueNum (taken n c) = retB ?c"
      using drop_round_spec [of "taken n c" maxQueueNum p q] Cons.prems q l by (auto simp: taken_def)
    moreover have "drop_with maxQueueNum ns ?c = None"
      using Cons.prems l s by (intro Cons.IH) (auto simp: taken_def list_all_iff)
    ultimately show ?thesis by simp
  qed
qed simp

interpretation rtmpq: packet_queue rtmp_maxQueueNum rtmp_DropPacket
  by unfold_locales (simp, unfold rtmp_DropPacket_def, rule drop_packets_contract, simp_all)

interpretation hlsq: packet_queue hls_maxQueueNum hls_DropPacket
  by unfold_locales (simp, unfold hls_DropPacket_def, rule drop_packets_contract, simp_all)

section \<open>The variant of http-flv\<close>

text \<open>It takes an extra packet for every video packet, so that it may find the queue empty.\<close>

lemma flv_drop_round_video:
  assumes "\<not> ch_closed c" and "ch_buf c = p # q" and "IsVideo p" and "\<not> IsAudio p" and "\<not> keep_video p" and "length q \<le> 1014"
  shows "flv_drop_round c = (case q of [] \<Rightarrow> None | _ # r \<Rightarrow> retB (c\<lparr>ch_buf := r\<rparr>))"
  using assms by (cases q) (auto simp: flv_drop_round_def flv_drop_video_def chan_recv_def)

lemma flv_drop_blocks:
  assumes "\<not> ch_closed c" and "length (ch_buf c) < 2 * n" and "length (ch_buf c) \<le> 1014"
    and "list_all (\<lambda>p. IsVideo p \<and> \<not> IsAudio p \<and> \<not> keep_video p) (ch_buf c)"
  shows "repeatB n flv_drop_round c = None"
  using assms
proof (induction n arbitrary: c)
  case (Suc n)
  show ?case
  proof (cases "ch_buf c")
    case Nil
    with Suc.prems(1) show ?thesis by (simp add: flv_drop_round_def chan_recv_def)
  next
    case (Cons p q)
    then have r: "flv_drop_round c = (case q of [] \<Rightarrow> None | _ # r \<Rightarrow> retB (c\<lparr>ch_buf := r\<rparr>))"
      using Suc.prems by (intro flv_drop_round_video) auto
    show ?thesis
    proof (cases q)
      case Nil
      with r show ?thesis by simp
    next
      case (Cons _ q')
      with r Suc.IH [of "c\<lparr>ch_buf := q'\<rparr>"] Suc.prems \<open>ch_buf c = p # q\<close> show ?thesis by simp
    qed
  qed
qed simp

section \<open>Properties\<close>


text \<open>
  The bound is sharp. From a full queue of video packets that are no key frames (or of script data), a player that takes more than 60 packets
  while the write drops its 940 (428) leaves one of its rounds without a packet; the publisher, the only one who writes to this queue, waits for one.
\<close>

theorem drained_drop_waits:
  assumes "\<not> ch_closed c" and "ch_cap c = maxQueueNum" and "maxQueueNum \<in> {rtmp_maxQueueNum, hls_maxQueueNum}"
    and "length (ch_buf c) = maxQueueNum - 24" and "list_all (\<lambda>p. one_kind p \<and> \<not> kept p) (ch_buf c)"
    and "length ns = maxQueueNum - 84" and "60 < sum_list ns"
  shows "enqueue maxQueueNum (drop_with maxQueueNum ns) p c = None"
  using assms drop_with_waits [of c maxQueueNum ns] by (auto simp: enqueue_def)

definition sample_packet :: "bool \<Rightarrow> u32 \<Rightarrow> packet" where
  "sample_packet audio ts = \<lparr>IsAudio = audio, IsVideo = \<not> audio, IsMetadata = False, TimeStamp = ts, pkt_StreamID = 1,
     Header = None, pkt_Data = []\<rparr>"


theorem drained_drop_waits_witness:
  "enqueue rtmp_maxQueueNum (drop_with rtmp_maxQueueNum (61 # replicate 939 0)) (sample_packet False 1)
     \<lparr>ch_buf = replicate 1000 (sample_packet False 0), ch_cap = 1024, ch_closed = False\<rparr> = None"
proof (rule drained_drop_waits)
  show "list_all (\<lambda>p. one_kind p \<and> \<not> kept p) (ch_buf \<lparr>ch_buf = replicate 1000 (sample_packet False 0), ch_cap = 1024, ch_closed = False\<rparr>)"
    by (simp add: list_all_iff sample_packet_def keep_video_def one_kind_def kept_def)
qed (simp_all add: sum_list_replicate)

text \<open>
  What a write to a full queue does: the 940 oldest packets of an RTMP player's 1000 (428 of the 488 of the HLS source)
  are taken out and the audio packets, sequence headers and key frames among them are put back, behind the newer ones:
  the queue is no longer in order, and script data is lost. The packet that was to be written is lost, whatever it is.
\<close>

theorem full_queue_reordered:
  assumes "\<not> ch_closed c" and "list_all one_kind (ch_buf c)"
  shows "(ch_cap c = rtmp_maxQueueNum \<and> length (ch_buf c) = 1000 \<longrightarrow>
       enqueue rtmp_maxQueueNum rtmp_DropPacket p c =
         retB (c\<lparr>ch_buf := drop 940 (ch_buf c) @ filter kept (take 940 (ch_buf c))\<rparr>)) \<and>
     (ch_cap c = hls_maxQueueNum \<and> length (ch_buf c) = 488 \<longrightarrow>
       enqueue hls_maxQueueNum hls_DropPacket p c =
         retB (c\<lparr>ch_buf := drop 428 (ch_buf c) @ filter kept (take 428 (ch_buf c))\<rparr>))"
  using drop_packets_spec [of c "1024"] drop_packets_spec [of c "512"] assms
  by (auto simp: enqueue_def rtmp_DropPacket_def hls_DropPacket_def)

theorem full_queue_reordered_witness:
  "enqueue rtmp_maxQueueNum rtmp_DropPacket (sample_packet True 1000)
     \<lparr>ch_buf = replicate 940 (sample_packet True 0) @ replicate 60 (sample_packet True 7), ch_cap = 1024, ch_closed = False\<rparr> =
   retB \<lparr>ch_buf = replicate 60 (sample_packet True 7) @ replicate 940 (sample_packet True 0), ch_cap = 1024, ch_closed = False\<rparr>"
proof -
  let ?c = "\<lparr>ch_buf = replicate 940 (sample_packet True 0) @ replicate 60 (sample_packet True 7), ch_cap = 1024, ch_closed = False\<rparr>"
  have o: "list_all one_kind (ch_buf ?c)" by (simp add: list_all_iff sample_packet_def one_kind_def)
  have f: "filter kept (replicate 940 (sample_packet True 0)) = replicate 940 (sample_packet True 0)"
    by (simp add: filter_replicate kept_def sample_packet_def)
  show ?thesis using full_queue_reordered [of ?c "sample_packet True 1000", OF _ o] f by simp
qed

text \<open>
  The queue of an http-flv player stalls the publisher. When it is full of video packets that are no key frames, its
  \<^verbatim>\<open>DropPacket\<close> takes two packets in each of its 940 rounds, empties the queue after 500 of them and waits for a packet that
  only the waiting goroutine could write.
\<close>

theorem httpflv_full_queue_blocks:
  assumes "\<not> ch_closed c" and "length (ch_buf c) = 1000"
    and "list_all (\<lambda>p. IsVideo p \<and> \<not> IsAudio p \<and> \<not> keep_video p) (ch_buf c)"
  shows "enqueue flv_maxQueueNum flv_DropPacket p c = None"
  using flv_drop_blocks [of c 940] assms by (simp add: enqueue_def flv_DropPacket_def)

theorem httpflv_full_queue_blocks_witness:
  "enqueue flv_maxQueueNum flv_DropPacket (sample_packet False 1)
     \<lparr>ch_buf = replicate 1000 (sample_packet False 0), ch_cap = 1024, ch_closed = False\<rparr> = None"
proof (rule httpflv_full_queue_blocks)
  show "list_all (\<lambda>p. IsVideo p \<and> \<not> IsAudio p \<and> \<not> keep_video p)
     (ch_buf \<lparr>ch_buf = replicate 1000 (sample_packet False 0), ch_cap = 1024, ch_closed = False\<rparr>)"
    by (simp add: list_all_iff sample_packet_def keep_video_def)
qed simp_all

end
