(* ===== verification/HlsSource.thy ===== *)
theory HlsSource
  imports Hls Queue
begin

text \<open>
  \<^verbatim>\<open>src/protocol/hls/source.go\<close>: the writer that a published stream gets for HLS. \<^verbatim>\<open>Write\<close> queues the
  packets; the goroutine of \<^verbatim>\<open>SendPacket\<close> takes them from the queue, demuxes and converts them and
  appends them to the current segment, and starts a new segment at a key frame.
\<close>

section \<open>State\<close>

record Source =
  src_rw :: RWBase
  src_seq :: int
  src_info :: Info
  src_bwriter :: "bytes option"
  src_btswriter :: "bytes option"
  src_muxer :: Muxer
  src_pts :: u64
  src_dts :: u64
  src_stat :: status
  src_align :: align
  src_cache :: "audioCache option"
  src_tsCache :: "TSCacheItem option"
  src_tsparser :: CodecParser
  src_closed :: bool
  src_packetQueue :: "packet chan"

definition NewSource :: "int \<Rightarrow> Info \<Rightarrow> Source" where
  "NewSource now info =
     \<lparr>src_rw = NewRWBase now 10000000000, src_seq = 0, src_info = info\<lparr>Inter := True\<rparr>,
      src_bwriter = Some (replicate (100 * 1024) 0), src_btswriter = None, src_muxer = NewMuxer,
      src_pts = 0, src_dts = 0, src_stat = newStatus now, src_align = \<lparr>frameNum = 0, frameBase = 0\<rparr>,
      src_cache = Some newAudioCache, src_tsCache = Some (NewTSCacheItem (Key info)), src_tsparser = NewCodecParser,
      src_closed = False, src_packetQueue = make_chan hls_maxQueueNum\<rparr>"

definition buffer :: "bytes \<Rightarrow> sink" where
  "buffer b = \<lparr>sk_out = b, sk_cap = None\<rparr>"

definition GetCacheInc :: "Source \<Rightarrow> TSCacheItem option" where
  "GetCacheInc source = src_tsCache source"

definition source_Info :: "Source \<Rightarrow> Info" where
  "source_Info source = src_info source"

section \<open>Muxing\<close>

text \<open>
  An operation returns the panic or the error it ended with, and the source. The returned errors of
  \<^verbatim>\<open>muxAudio\<close>, \<^verbatim>\<open>flushAudio\<close> and \<^verbatim>\<open>tsMux\<close> are dropped by their callers.
\<close>

definition src_mux :: "packet \<Rightarrow> Source \<Rightarrow> exn option \<times> Source" where
  "src_mux p source =
     (case src_btswriter source of
        None \<Rightarrow> (Some (Panic NilDereference), source)
      | Some b \<Rightarrow>
          (case Mux p (src_muxer source) (Some (buffer b)) of
             (e, muxer, w) \<Rightarrow> (e, source\<lparr>src_muxer := muxer, src_btswriter := map_option sk_out w\<rparr>)))"

definition emptyPacket :: packet where
  "emptyPacket = \<lparr>IsAudio = False, IsVideo = False, IsMetadata = False, TimeStamp = 0, pkt_StreamID = 0, Header = None, pkt_Data = []\<rparr>"

definition muxAudio :: "byte \<Rightarrow> Source \<Rightarrow> exn option \<times> Source" where
  "muxAudio limit source =
     (case src_cache source of
        None \<Rightarrow> (Some (Panic NilDereference), source)
      | Some cache \<Rightarrow>
          if CacheNum cache < limit then (None, source)
          else (case GetFrame cache of ((_, pts, buf), cache) \<Rightarrow>
                  src_mux (emptyPacket\<lparr>pkt_Data := buf, TimeStamp := ucast (pts div defaultH264Hz)\<rparr>)
                    (source\<lparr>src_cache := Some cache\<rparr>)))"

definition flushAudio :: "Source \<Rightarrow> exn option \<times> Source" where
  "flushAudio source = muxAudio 1 source"

definition tsMux :: "packet \<Rightarrow> Source \<Rightarrow> exn option \<times> Source" where
  "tsMux p source =
     (if IsVideo p then src_mux p source
      else (case src_cache source of
              None \<Rightarrow> (Some (Panic NilDereference), source)
            | Some cache \<Rightarrow> muxAudio cacheMaxFrames (source\<lparr>src_cache := Some (ac_Cache (pkt_Data p) (src_pts source) cache)\<rparr>)))"

definition calcPtsDts :: "bool \<Rightarrow> u32 \<Rightarrow> u32 \<Rightarrow> Source \<Rightarrow> exn option \<times> Source" where
  "calcPtsDts isVideo ts compositionTs source =
     (let dts = ucast ts * defaultH264Hz;
          source = source\<lparr>src_dts := dts\<rparr>
      in if isVideo then (None, source\<lparr>src_pts := dts + ucast compositionTs * defaultH264Hz\<rparr>)
         else (case codec_SampleRate (src_tsparser source) of (r, tsparser) \<Rightarrow>
                 let sampleRate = (case r of Inl _ \<Rightarrow> 0 | Inr n \<Rightarrow> n);
                     source = source\<lparr>src_tsparser := tsparser\<rparr>
                 in if sampleRate = 0 then (Some (Panic DivideByZero), source)
                    else (case align_align dts (word_of_nat (90000 * 1024 div sampleRate)) (src_align source) of
                            (dts, a) \<Rightarrow> (None, source\<lparr>src_dts := dts, src_align := a, src_pts := dts\<rparr>))))"

section \<open>Cutting segments\<close>

definition segment_name :: "bytes \<Rightarrow> int \<Rightarrow> bytes" where
  "segment_name key now = gostr ''/'' @ key @ gostr ''/'' @ decimal_int (now div 1000000000) @ gostr ''.ts''"

definition writeTables :: "Source \<Rightarrow> exn option \<times> Source" where
  "writeTables source =
     (case src_btswriter source of
        None \<Rightarrow> (Some (Panic NilDereference), source)
      | Some b \<Rightarrow>
          (case PAT (src_muxer source) of (pat, muxer) \<Rightarrow>
           case PMT SoundAAC True muxer of (pmt, muxer) \<Rightarrow>
             (None, source\<lparr>src_muxer := muxer, src_btswriter := Some (b @ pat @ pmt)\<rparr>)))"

definition storeSegment :: "int \<Rightarrow> Source \<Rightarrow> exn option \<times> Source" where
  "storeSegment now source =
     (case (src_btswriter source, src_tsCache source) of
        (Some b, Some tc) \<Rightarrow>
          (let source = source\<lparr>src_seq := src_seq source + 1\<rparr>;
               filename = segment_name (Key (src_info source)) now;
               item = NewTSItem filename (durationMs (src_stat source)) (src_seq source) b
           in case SetItem filename item tc of
                Inl e \<Rightarrow> (Some e, source)
              | Inr tc \<Rightarrow> (None, source\<lparr>src_tsCache := Some tc, src_btswriter := Some [], src_stat := resetAndNew now (src_stat source)\<rparr>))
      | _ \<Rightarrow> (Some (Panic NilDereference), source\<lparr>src_seq := src_seq source + 1\<rparr>))"

definition cut :: "int \<Rightarrow> Source \<Rightarrow> exn option \<times> Source" where
  "cut now source =
     (case src_btswriter source of
        None \<Rightarrow> writeTables (source\<lparr>src_btswriter := Some []\<rparr>)
      | Some _ \<Rightarrow>
          if durationMs (src_stat source) \<ge> 3000
          then (case flushAudio source of
                  (Some (Panic x), source) \<Rightarrow> (Some (Panic x), source)
                | (_, source) \<Rightarrow>
                    (case storeSegment now source of
                       (Some e, source) \<Rightarrow> (Some e, source)
                     | (None, source) \<Rightarrow> writeTables source))
          else (None, source))"

section \<open>Parsing a packet\<close>

text \<open>
  The result is the composition time, whether the packet is a sequence header, and the packet, whose data is
  replaced. The parsers do not write for a sequence header, so that a nil writer is no panic there.
\<close>

definition src_Parse :: "packet \<Rightarrow> Source \<Rightarrow> exn option \<times> Source" where
  "src_Parse p source =
     (case codec_Parse p (src_tsparser source) (buffer (case src_bwriter source of None \<Rightarrow> [] | Some b \<Rightarrow> b)) of
        (e, cp, w) \<Rightarrow> (e, source\<lparr>src_tsparser := cp, src_bwriter := map_option (\<lambda>_. sk_out w) (src_bwriter source)\<rparr>))"

definition parse_frame :: "int \<Rightarrow> bool \<Rightarrow> packet \<Rightarrow> Source \<Rightarrow> exn option \<times> packet \<times> Source" where
  "parse_frame now key p source =
     (case src_bwriter source of
        None \<Rightarrow> (Some (Panic NilDereference), p, source)
      | Some _ \<Rightarrow>
          (case src_Parse p (source\<lparr>src_bwriter := Some []\<rparr>) of
             (Some e, source) \<Rightarrow> (Some e, p, source)
           | (None, source) \<Rightarrow>
               (let p = p\<lparr>pkt_Data := (case src_bwriter source of None \<Rightarrow> [] | Some b \<Rightarrow> b)\<rparr>
                in if IsVideo p \<and> key then (case cut now source of (e, source) \<Rightarrow> (e, p, source))
                   else (None, p, source))))"

definition parse :: "int \<Rightarrow> packet \<Rightarrow> Source \<Rightarrow> (exn option \<times> u32 \<times> bool) \<times> packet \<times> Source" where
  "parse now p source =
     (case Header p of
        None \<Rightarrow> ((Some (Panic TypeAssertion), 0, False), p, source)
      | Some h \<Rightarrow>
          if IsVideo p then
            if CodecID h \<noteq> VideoH264 then ((Some (Err (Errorf ''unsupported video codec'')), 0, False), p, source)
            else if IsKeyFrame h \<and> IsSeq h
            then (case src_Parse p source of (e, source) \<Rightarrow> ((e, CompositionTime h, True), p, source))
            else (case parse_frame now (IsKeyFrame h) p source of (e, p, source) \<Rightarrow> ((e, CompositionTime h, False), p, source))
          else
            if SoundFormat h \<noteq> SoundAAC then ((Some (Err (Errorf ''unsupported audio codec'')), 0, False), p, source)
            else if AACPacketType h = AACSeqHeader
            then (case src_Parse p source of (e, source) \<Rightarrow> ((e, 0, True), p, source))
            else (case parse_frame now False p source of (e, p, source) \<Rightarrow> ((e, 0, False), p, source)))"

section \<open>The sender\<close>

text \<open>One packet of the loop of \<^verbatim>\<open>SendPacket\<close>; a result other than \<open>None\<close> ends the loop.\<close>

definition SendPacket_packet :: "int \<Rightarrow> packet \<Rightarrow> Source \<Rightarrow> exn option \<times> Source" where
  "SendPacket_packet now p source =
     (if IsMetadata p then (None, source)
      else case Demux p of
        Inl e \<Rightarrow> (if e = Err (Errorf ''avc end sequence'') then (None, source) else (Some e, source))
      | Inr p \<Rightarrow>
          (case parse now p source of ((e, ct, isSeq), p, source) \<Rightarrow>
             case e of
               Some (Err _) \<Rightarrow> (None, source)
             | Some e \<Rightarrow> (Some e, source)
             | None \<Rightarrow>
                 if isSeq \<or> src_btswriter source = None then (None, source)
                 else (case calcPtsDts (IsVideo p) (TimeStamp p) ct
                             (source\<lparr>src_stat := status_update (IsVideo p) (TimeStamp p) (src_stat source)\<rparr>) of
                         (Some e, source) \<Rightarrow> (Some e, source)
                       | (None, source) \<Rightarrow> (case tsMux p source of (e, source) \<Rightarrow> (ignore_err e, source)))))"

text \<open>
  The loop, over the packets the channel delivers, each with the time it is handled; behind them the channel is
  empty, and closed or not. \<open>None\<close> is the goroutine waiting for the next packet.
\<close>

fun SendPacket :: "(int \<times> packet) list \<Rightarrow> bool \<Rightarrow> Source \<Rightarrow> exn option \<times> Source" where
  "SendPacket [] chClosed source =
     (if src_closed source \<or> chClosed then (Some (Err (Errorf ''closed'')), source) else (None, source))"
| "SendPacket ((now, p) # ps) chClosed source =
     (if src_closed source then (Some (Err (Errorf ''closed'')), source)
      else case SendPacket_packet now p source of
             (None, source) \<Rightarrow> SendPacket ps chClosed source
           | (Some e, source) \<Rightarrow> (Some e, source))"

text \<open>The goroutine of \<^verbatim>\<open>NewSource\<close>: a panic is recovered in \<^verbatim>\<open>SendPacket\<close>, which then returns nil.\<close>

definition sender :: "(int \<times> packet) list \<Rightarrow> bool \<Rightarrow> Source \<Rightarrow> Source" where
  "sender ps chClosed source =
     (case SendPacket ps chClosed source of
        (Some (Err _), source) \<Rightarrow> source\<lparr>src_closed := True\<rparr>
      | (_, source) \<Rightarrow> source)"

section \<open>Writing and closing\<close>

definition source_Write :: "int \<Rightarrow> packet \<Rightarrow> Source \<Rightarrow> Source blk" where
  "source_Write now p source =
     (if src_closed source then Some (Inl (Err (Errorf ''hls source closed'')))
      else let source = source\<lparr>src_rw := SetPreTime now (src_rw source)\<rparr>
           in bindB (recoverB ''hls source has already been closed:'' (enqueue hls_maxQueueNum hls_DropPacket p (src_packetQueue source)))
                (\<lambda>c. retB (source\<lparr>src_packetQueue := c\<rparr>)))"

definition source_cleanup :: "Source \<Rightarrow> Source res" where
  "source_cleanup source =
     bindR (chan_close (src_packetQueue source)) (\<lambda>c.
       Inr (source\<lparr>src_packetQueue := c, src_bwriter := None, src_btswriter := None, src_cache := None, src_tsCache := None\<rparr>))"

definition source_Close :: "bool \<Rightarrow> Source \<Rightarrow> Source res" where
  "source_Close hls_keep_after_end source =
     bindR (if \<not> src_closed source \<and> \<not> hls_keep_after_end then source_cleanup source else Inr source) (\<lambda>source.
       Inr (source\<lparr>src_closed := True\<rparr>))"

section \<open>Segments\<close>

text \<open>
  A segment: the two program tables, and transport packets of the two streams, the first of which begins
  a PES packet of the video stream (the key frame at which the segment was cut).
\<close>

definition table_ok :: "nat \<Rightarrow> bytes \<Rightarrow> bool" where
  "table_ok pid t \<longleftrightarrow> length t = 188 \<and> ts_pid t = pid \<and> ts_start t \<and> GenCrc32 (psi_section t) = 0"

definition stream_packet :: "bytes \<Rightarrow> bool" where
  "stream_packet pkt \<longleftrightarrow> length pkt = 188 \<and> pkt ! 0 = 0x47 \<and> ts_pid pkt \<in> {0x100, 0x101}"

definition segment :: "bytes \<Rightarrow> bytes list \<Rightarrow> bool" where
  "segment b pkts \<longleftrightarrow> (\<exists>pat pmt. b = pat @ pmt @ concat pkts \<and> table_ok 0 pat \<and> table_ok 0x1001 pmt \<and> list_all stream_packet pkts)"

definition starts_video :: "bytes list \<Rightarrow> bool" where
  "starts_video pkts \<longleftrightarrow> (\<exists>pkt rest. pkts = pkt # rest \<and> ts_pid pkt = 0x100 \<and> ts_start pkt)"

lemma segment_append: "segment b pkts \<Longrightarrow> list_all stream_packet added \<Longrightarrow> segment (b @ concat added) (pkts @ added)"
  by (auto simp: segment_def)

lemma starts_video_append: "starts_video pkts \<Longrightarrow> starts_video (pkts @ added)"
  by (auto simp: starts_video_def)

lemma ts_seq_packets: "ts_seq video start n pkts \<Longrightarrow> list_all stream_packet pkts"
  by (induction pkts arbitrary: start n) (auto simp: ts_ok_def stream_packet_def)

lemma ts_seq_starts: "ts_seq True True n pkts \<Longrightarrow> pkts \<noteq> [] \<Longrightarrow> starts_video pkts"
  by (cases pkts) (auto simp: starts_video_def ts_ok_def)

lemma PAT_table:
  assumes "tables_ok muxer"
  shows "\<exists>pat muxer'. PAT muxer = (pat, muxer') \<and> table_ok 0 pat \<and> tables_ok muxer' \<and> muxer_ok muxer' = muxer_ok muxer"
proof -
  let ?t = "table_packet 0x40 0x00 (tableCc (patCc muxer)) pat_section"
  have t: "length (mx_pat muxer) = 188" "patCc muxer \<le> 16" using assms by (simp_all add: tables_ok_def)
  have "ts_pid ?t = 0" "ts_start ?t" by (simp_all add: table_packet_def ts_pid_def ts_start_def)
  then have "table_ok 0 ?t"
    unfolding table_ok_def pat_section_ok by (simp add: GenCrc32_self)
  then show ?thesis
    using assms PAT_eq [OF t(1)] pat_section_ok(2) table_cc(2) [OF t(2)]
    by (simp add: Let_def tables_ok_def muxer_ok_def)
qed

lemma PMT_table:
  assumes "tables_ok muxer"
  shows "\<exists>pmt muxer'. PMT sound video muxer = (pmt, muxer') \<and> table_ok 0x1001 pmt \<and> tables_ok muxer' \<and> muxer_ok muxer' = muxer_ok muxer"
proof -
  let ?t = "table_packet 0x50 0x01 (tableCc (pmtCc muxer)) (pmt_section sound video)"
  have t: "length (mx_pmt muxer) = 188" "pmtCc muxer \<le> 16" using assms by (simp_all add: tables_ok_def)
  have "ts_pid ?t = 0x1001" "ts_start ?t" by (simp_all add: table_packet_def ts_pid_def ts_start_def)
  then have "table_ok 0x1001 ?t"
    unfolding table_ok_def pmt_section_ok by (simp add: GenCrc32_self)
  then show ?thesis
    using assms PMT_eq [OF t(1)] pmt_section_ok(2) table_cc(2) [OF t(2)]
    by (simp add: Let_def tables_ok_def muxer_ok_def)
qed

section \<open>The invariant of the sender\<close>

text \<open>
  \<open>stored\<close> is the history of the segments that were cut: the cache is the result of storing them in turn,
  they are numbered from 1, last at least three seconds and are named after the stream.
\<close>

definition stored_item :: "bytes \<Rightarrow> TSItem \<Rightarrow> bool" where
  "stored_item key item \<longleftrightarrow> 3000 \<le> Duration item \<and> (\<exists>now. ts_Name item = segment_name key now) \<and>
     (\<exists>pkts. segment (ts_Data item) pkts \<and> starts_video pkts)"

definition stored :: "Source \<Rightarrow> TSItem list \<Rightarrow> bool" where
  "stored source items \<longleftrightarrow>
     (\<exists>tc. src_tsCache source = Some tc \<and>
       set_items (map (\<lambda>item. (ts_Name item, item)) items) (NewTSCacheItem (Key (src_info source))) = Inr tc) \<and>
     map SeqNum items = map (\<lambda>n. int n + 1) [0..<length items] \<and> src_seq source = int (length items) \<and>
     list_all (stored_item (Key (src_info source))) items"

definition parts_ok :: "Source \<Rightarrow> bool" where
  "parts_ok source \<longleftrightarrow> muxer_ok (src_muxer source) \<and> tables_ok (src_muxer source) \<and> codec_ok (src_tsparser source) \<and>
     src_bwriter source \<noteq> None \<and> src_cache source \<noteq> None"

definition source_ok :: "Source \<Rightarrow> bool" where
  "source_ok source \<longleftrightarrow> parts_ok source \<and> (\<exists>items. stored source items) \<and>
     (\<forall>b. src_btswriter source = Some b \<longrightarrow> (\<exists>pkts. segment b pkts \<and> starts_video pkts))"

text \<open>An open segment, with or without its key frame.\<close>

definition open_segment :: "Source \<Rightarrow> bytes list \<Rightarrow> bool" where
  "open_segment source pkts \<longleftrightarrow> parts_ok source \<and> (\<exists>items. stored source items) \<and>
     (\<exists>b. src_btswriter source = Some b \<and> segment b pkts)"

lemma source_okI: "open_segment source pkts \<Longrightarrow> starts_video pkts \<Longrightarrow> source_ok source"
  by (auto simp: source_ok_def open_segment_def)

lemma src_mux_open:
  assumes "open_segment source pkts" and "IsVideo p \<longrightarrow> Header p \<noteq> None"
  shows "\<exists>source' added. src_mux p source = (None, source') \<and> open_segment source' (pkts @ added) \<and>
     (IsVideo p \<longrightarrow> starts_video added) \<and> src_btswriter source' = map_option (\<lambda>b. b @ concat added) (src_btswriter source)"
proof -
  obtain b where b: "src_btswriter source = Some b" "segment b pkts" and parts: "parts_ok source" and st: "\<exists>items. stored source items"
    using assms(1) by (auto simp: open_segment_def)
  have ok: "muxer_ok (src_muxer source)" "tables_ok (src_muxer source)" using parts by (simp_all add: parts_ok_def)
  obtain added muxer where m: "Mux p (src_muxer source) (Some (buffer b)) = (None, muxer, Some (buffer (b @ concat added)))"
      "muxer_ok muxer" "added \<noteq> []" "ts_seq (IsVideo p) True (unat (cc_byte (IsVideo p) (src_muxer source))) added"
    using Mux_packets [OF ok(1) assms(2), of "buffer b"] by (auto simp: buffer_def)
  have "tables_ok muxer" using Mux_tables [OF m(1)] ok(2) by simp
  moreover have "segment (b @ concat added) (pkts @ added)" by (rule segment_append [OF b(2) ts_seq_packets [OF m(4)]])
  moreover have "IsVideo p \<longrightarrow> starts_video added" using m(3,4) ts_seq_starts by auto
  ultimately show ?thesis
    using b m parts st by (auto simp: src_mux_def open_segment_def parts_ok_def stored_def buffer_def)
qed

lemma muxAudio_open:
  assumes "open_segment source pkts"
  shows "\<exists>source' added. muxAudio limit source = (None, source') \<and> open_segment source' (pkts @ added) \<and>
     src_btswriter source' = map_option (\<lambda>b. b @ concat added) (src_btswriter source)"
proof -
  obtain cache where c: "src_cache source = Some cache" using assms by (auto simp: open_segment_def parts_ok_def)
  show ?thesis
  proof (cases "CacheNum cache < limit")
    case True
    with c assms show ?thesis by (auto simp: muxAudio_def option.map_ident intro!: exI [of _ "[]"])
  next
    case False
    let ?p = "emptyPacket\<lparr>pkt_Data := ac_buf cache, TimeStamp := ucast (ac_pts cache div defaultH264Hz)\<rparr>"
    let ?s = "source\<lparr>src_cache := Some (cache\<lparr>ac_num := 0\<rparr>)\<rparr>"
    have "open_segment ?s pkts" using assms by (auto simp: open_segment_def parts_ok_def stored_def)
    from src_mux_open [OF this, of ?p] False c show ?thesis
      by (auto simp: muxAudio_def GetFrame_def emptyPacket_def)
  qed
qed

lemma writeTables_open:
  assumes "parts_ok source" and "stored source items" and "src_btswriter source = Some []"
  shows "\<exists>source'. writeTables source = (None, source') \<and> open_segment source' [] \<and> stored source' items"
proof -
  obtain pat m1 where pat: "PAT (src_muxer source) = (pat, m1)" "table_ok 0 pat" "tables_ok m1" "muxer_ok m1"
    using PAT_table assms(1) by (force simp: parts_ok_def)
  obtain pmt m2 where pmt: "PMT SoundAAC True m1 = (pmt, m2)" "table_ok 0x1001 pmt" "tables_ok m2" "muxer_ok m2"
    using PMT_table [OF pat(3), of SoundAAC True] pat(4) by auto
  have "segment (pat @ pmt) []" using pat pmt by (auto simp: segment_def)
  with assms pat pmt show ?thesis
    by (auto simp: writeTables_def open_segment_def parts_ok_def stored_def)
qed

lemma SetItem_never_panics: "tc_num tc = 3 \<Longrightarrow> \<exists>tc'. SetItem key item tc = Inr tc' \<and> tc_num tc' = 3"
  by (cases "tc_ll tc") (auto simp: SetItem_def)

lemma set_items_num: "set_items items tc = Inr tc' \<Longrightarrow> tc_num tc = 3 \<Longrightarrow> tc_num tc' = 3"
proof (induction items arbitrary: tc)
  case (Cons x items)
  obtain key item where x: "x = (key, item)" by (cases x)
  obtain tc1 where "SetItem key item tc = Inr tc1" "tc_num tc1 = 3"
    using SetItem_never_panics [OF Cons.prems(2)] by blast
  with Cons x show ?case by auto
qed simp

lemma storeSegment_stored:
  assumes "parts_ok source" and "stored source items" and "src_btswriter source = Some b" and "segment b pkts" and "starts_video pkts"
    and "3000 \<le> durationMs (src_stat source)"
  shows "\<exists>source' item. storeSegment now source = (None, source') \<and> parts_ok source' \<and> stored source' (items @ [item]) \<and>
     src_btswriter source' = Some [] \<and>
     item = NewTSItem (segment_name (Key (src_info source)) now) (durationMs (src_stat source)) (src_seq source + 1) b"
proof -
  let ?key = "Key (src_info source)"
  define name where "name = segment_name ?key now"
  define item where "item = NewTSItem name (durationMs (src_stat source)) (src_seq source + 1) b"
  obtain tc where tc: "src_tsCache source = Some tc"
      "set_items (map (\<lambda>item. (ts_Name item, item)) items) (NewTSCacheItem ?key) = Inr tc"
    using assms(2) by (auto simp: stored_def)
  have "tc_num tc = 3" using set_items_num [OF tc(2)] by (simp add: NewTSCacheItem_def)
  then obtain tc' where tc': "SetItem name item tc = Inr tc'" using SetItem_never_panics by blast
  let ?s = "source\<lparr>src_seq := src_seq source + 1, src_tsCache := Some tc', src_btswriter := Some [],
    src_stat := resetAndNew now (src_stat source)\<rparr>"
  have n: "ts_Name item = name" "SeqNum item = src_seq source + 1" by (simp_all add: item_def NewTSItem_def)
  have si: "stored_item ?key item"
    using assms(4-6) by (auto simp: stored_item_def item_def NewTSItem_def name_def)
  have "stored ?s (items @ [item])"
    using assms(2) tc tc' n si by (auto simp: stored_def set_items_append)
  moreover have "storeSegment now source = (None, ?s)"
    using assms(3) tc(1) tc' by (simp add: storeSegment_def name_def item_def Let_def)
  ultimately show ?thesis using assms(1) by (auto simp: parts_ok_def item_def name_def)
qed

lemma stored_flush:
  assumes "flushAudio source = (None, source')" and "src_btswriter source = Some b"
  shows "stored source' = stored source \<and> src_info source' = src_info source \<and> src_stat source' = src_stat source"
  using assms by (auto simp: flushAudio_def muxAudio_def src_mux_def GetFrame_def stored_def fun_eq_iff split: option.splits if_splits prod.splits)

lemma cut_stores:
  assumes "source_ok source" and "stored source items" and "src_btswriter source = Some b" and "3000 \<le> durationMs (src_stat source)"
  shows "\<exists>source' item added. cut now source = (None, source') \<and> stored source' (items @ [item]) \<and>
     item = NewTSItem (segment_name (Key (src_info source)) now) (durationMs (src_stat source)) (src_seq source + 1) (b @ added) \<and>
     open_segment source' []"
proof -
  obtain pkts where b: "segment b pkts" "starts_video pkts" using assms(1,3) by (auto simp: source_ok_def)
  have op: "open_segment source pkts" using assms(1,3) b by (auto simp: open_segment_def source_ok_def)
  obtain s1 added where s1: "flushAudio source = (None, s1)" "open_segment s1 (pkts @ added)"
      "src_btswriter s1 = Some (b @ concat added)"
    unfolding flushAudio_def using muxAudio_open [OF op, of 1] assms(3) by auto
  have f: "stored s1 items" "src_info s1 = src_info source" "src_stat s1 = src_stat source"
    using stored_flush [OF s1(1) assms(3)] assms(2) by simp_all
  have "src_seq s1 = src_seq source" using f(1) assms(2) by (simp add: stored_def)
  moreover have "parts_ok s1" "segment (b @ concat added) (pkts @ added)" using s1(2,3) by (auto simp: open_segment_def)
  ultimately obtain s2 item where s2: "storeSegment now s1 = (None, s2)" "parts_ok s2" "stored s2 (items @ [item])" "src_btswriter s2 = Some []"
      "item = NewTSItem (segment_name (Key (src_info source)) now) (durationMs (src_stat source)) (src_seq source + 1) (b @ concat added)"
    using storeSegment_stored [OF _ f(1) s1(3) _ starts_video_append [OF b(2), of added], where now = now] assms(4) f by auto
  obtain s3 where "writeTables s2 = (None, s3)" "open_segment s3 []" "stored s3 (items @ [item])"
    using writeTables_open [OF s2(2-4)] by blast
  with s1 s2 assms(3,4) show ?thesis by (auto simp: cut_def)
qed

lemma cut_open:
  assumes "source_ok source"
  shows "\<exists>source' pkts. cut now source = (None, source') \<and> open_segment source' pkts \<and> (pkts = [] \<or> starts_video pkts)"
proof (cases "src_btswriter source")
  case None
  obtain items where "stored source items" using assms by (auto simp: source_ok_def)
  then have "\<exists>source'. writeTables (source\<lparr>src_btswriter := Some []\<rparr>) = (None, source') \<and> open_segment source' [] \<and> stored source' items"
    using assms by (intro writeTables_open) (auto simp: source_ok_def parts_ok_def stored_def)
  with None show ?thesis by (auto simp: cut_def)
next
  case (Some b)
  then obtain pkts where b: "segment b pkts" "starts_video pkts" using assms by (auto simp: source_ok_def)
  have op: "open_segment source pkts" using assms b Some by (auto simp: open_segment_def source_ok_def)
  show ?thesis
  proof (cases "durationMs (src_stat source) \<ge> 3000")
    case False
    with Some op b show ?thesis by (auto simp: cut_def)
  next
    case True
    obtain items where "stored source items" using assms by (auto simp: source_ok_def)
    from cut_stores [OF assms this Some True] show ?thesis by blast
  qed
qed

section \<open>One packet\<close>

lemma src_Parse_ok:
  assumes "source_ok source" and "src_Parse p source = (e, source')"
  shows "source_ok source' \<and> \<not> is_panic e \<and> src_closed source' = src_closed source"
proof -
  have "codec_ok (src_tsparser source)" using assms(1) by (simp add: source_ok_def parts_ok_def)
  from codec_Parse_ok [OF this] assms show ?thesis
    by (auto simp: src_Parse_def source_ok_def parts_ok_def stored_def split: prod.splits)
qed

lemma codec_Parse_aac:
  assumes "Header p = Some h" and "\<not> IsVideo p" and "SoundFormat h = SoundAAC" and "codec_Parse p cp w = (e, cp', w')"
  shows "cp_aac cp' \<noteq> None"
  using assms by (auto simp: codec_Parse_def Let_def split: prod.splits)

lemma calcPtsDts_ok:
  assumes "isVideo \<or> cp_aac (src_tsparser source) \<noteq> None"
  shows "\<exists>source'. calcPtsDts isVideo ts ct source = (None, source') \<and> open_segment source' = open_segment source"
proof (cases isVideo)
  case True
  then show ?thesis by (auto simp: calcPtsDts_def Let_def open_segment_def parts_ok_def stored_def)
next
  case False
  with assms obtain a where a: "cp_aac (src_tsparser source) = Some a" by auto
  have "0 \<notin> set aacRates" by (simp add: aacRates_def)
  with aac_SampleRate_known [of a] have "aac_SampleRate a \<noteq> 0" by metis
  with False a show ?thesis
    by (auto simp: calcPtsDts_def codec_SampleRate_def Let_def open_segment_def parts_ok_def stored_def split: prod.splits)
qed

lemma tsMux_ok:
  assumes "open_segment source pkts" and "starts_video pkts \<or> pkts = [] \<and> IsVideo p" and "IsVideo p \<longrightarrow> Header p \<noteq> None"
  shows "\<exists>source'. tsMux p source = (None, source') \<and> source_ok source'"
proof (cases "IsVideo p")
  case True
  with src_mux_open [OF assms(1), of p] assms(3) obtain source' added where
    s: "src_mux p source = (None, source')" "open_segment source' (pkts @ added)" "starts_video added" by auto
  have "starts_video (pkts @ added)" using s(3) assms(2) starts_video_append by auto
  with s True show ?thesis by (auto simp: tsMux_def intro: source_okI)
next
  case False
  obtain cache where c: "src_cache source = Some cache" using assms by (auto simp: open_segment_def parts_ok_def)
  let ?s = "source\<lparr>src_cache := Some (ac_Cache (pkt_Data p) (src_pts source) cache)\<rparr>"
  have "open_segment ?s pkts" using assms(1) by (auto simp: open_segment_def parts_ok_def stored_def)
  from muxAudio_open [OF this, of cacheMaxFrames] False c assms(2) show ?thesis
    by (auto simp: tsMux_def intro: source_okI [OF _ starts_video_append])
qed

text \<open>What \<^verbatim>\<open>parse\<close> leaves for a frame: no segment yet, or an open one.\<close>

definition frame_ready :: "packet \<Rightarrow> Source \<Rightarrow> bool" where
  "frame_ready p source \<longleftrightarrow> (IsVideo p \<longrightarrow> Header p \<noteq> None) \<and> (IsVideo p \<or> cp_aac (src_tsparser source) \<noteq> None) \<and>
     (source_ok source \<and> src_btswriter source = None \<or>
      (\<exists>pkts. open_segment source pkts \<and> (starts_video pkts \<or> pkts = [] \<and> IsVideo p)))"

lemma source_ok_open:
  "source_ok source \<Longrightarrow> src_btswriter source = None \<or> (\<exists>pkts. open_segment source pkts \<and> starts_video pkts)"
  by (cases "src_btswriter source") (auto simp: source_ok_def open_segment_def)

lemma parse_frame_ok:
  assumes "source_ok source" and "Header p = Some h" and "IsVideo p \<or> SoundFormat h = SoundAAC"
    and "parse_frame now key p source = (e, p', source')"
  shows "\<not> is_panic e \<and> IsVideo p' = IsVideo p \<and> (if e = None then frame_ready p' source' else source_ok source')"
proof -
  obtain b where b: "src_bwriter source = Some b" using assms(1) by (auto simp: source_ok_def parts_ok_def)
  let ?s = "source\<lparr>src_bwriter := Some []\<rparr>"
  have s0: "source_ok ?s" using assms(1) by (auto simp: source_ok_def parts_ok_def stored_def)
  obtain e1 s1 where s1: "src_Parse p ?s = (e1, s1)" by force
  have ok: "source_ok s1" "\<not> is_panic e1" using src_Parse_ok [OF s0 s1] by simp_all
  have aac: "IsVideo p \<or> cp_aac (src_tsparser s1) \<noteq> None"
    using s1 codec_Parse_aac [OF assms(2)] assms(3) by (fastforce simp: src_Parse_def split: prod.splits)
  show ?thesis
  proof (cases e1)
    case (Some x)
    with assms(4) b s1 ok show ?thesis by (auto simp: parse_frame_def)
  next
    case None
    show ?thesis
    proof (cases "IsVideo p \<and> key")
      case True
      obtain s2 pkts where "cut now s1 = (None, s2)" "open_segment s2 pkts" "pkts = [] \<or> starts_video pkts"
        using cut_open [OF ok(1), of now] by blast
      with True None assms(2,4) b s1 show ?thesis by (auto simp: parse_frame_def frame_ready_def Let_def)
    next
      case False
      with None assms(2,4) b s1 source_ok_open [OF ok(1)] ok(1) aac show ?thesis
        by (auto simp: parse_frame_def frame_ready_def Let_def)
    qed
  qed
qed

lemma parse_ok:
  assumes "source_ok source" and "Header p \<noteq> None" and "parse now p source = ((e, ct, isSeq), p', source')"
  shows "\<not> is_panic e \<and> (if e = None \<and> \<not> isSeq then frame_ready p' source' else source_ok source')"
proof -
  obtain h where h: "Header p = Some h" using assms(2) by auto
  show ?thesis
    using assms(1,3) h src_Parse_ok [OF assms(1), of p] parse_frame_ok [OF assms(1) h, of now]
    by (auto simp: parse_def split: if_splits prod.splits)
qed

lemma Demux_header: "Demux p = Inr p' \<Longrightarrow> Header p' \<noteq> None"
  by (auto simp: Demux_def split: if_splits)

text \<open>The only panic: an AAC packet whose second header byte is missing.\<close>

definition short_aac :: "packet \<Rightarrow> bool" where
  "short_aac p \<longleftrightarrow> \<not> IsVideo p \<and> (\<exists>b. pkt_Data p = [b] \<and> drop_bit 4 b = SoundAAC)"

lemma Demux_panic:
  assumes "Demux p = Inl (Panic x)"
  shows "short_aac p"
proof (cases "IsVideo p")
  case True
  have "5 \<le> length (pkt_Data p) \<Longrightarrow> \<exists>n t. parseVideoHeader zeroTag (pkt_Data p) = Inr (n, t) \<and> n \<le> 5"
    by (auto simp: parseVideoHeader_def index_at_def slice_def Let_def)
  moreover have "length (pkt_Data p) < 5 \<Longrightarrow> \<exists>e. parseVideoHeader zeroTag (pkt_Data p) = Inl (Err e)"
    by (simp add: parseVideoHeader_def)
  ultimately show ?thesis
    using assms True by (cases "length (pkt_Data p) < 5")
      (auto simp: Demux_def ParseMediaTagHeader_def bindR_eq_Inl index_at_def slice_def split: if_splits)
next
  case False
  with assms show ?thesis
    by (cases "pkt_Data p"; cases "tl (pkt_Data p)")
      (auto simp: Demux_def ParseMediaTagHeader_def parseAudioHeader_def index_at_def slice_def short_aac_def
        CodecID_def zeroTag_def bindR_eq_Inl Let_def split: if_splits)
qed

lemma SendPacket_packet_ok:
  assumes "source_ok source" and "SendPacket_packet now p source = (e, source')"
  shows "source_ok source' \<and> (is_panic e \<longrightarrow> short_aac p)"
proof (cases "IsMetadata p \<or> (\<exists>x. Demux p = Inl x)")
  case True
  with assms Demux_panic [of p] show ?thesis
    by (auto simp: SendPacket_packet_def is_panic_def split: if_splits)
next
  case False
  then obtain p1 where p1: "Demux p = Inr p1" "\<not> IsMetadata p" by (cases "Demux p") auto
  obtain e2 ct isSeq p2 s2 where s2: "parse now p1 source = ((e2, ct, isSeq), p2, s2)" by (metis prod_cases3)
  note ok = parse_ok [OF assms(1) Demux_header [OF p1(1)] s2]
  show ?thesis
  proof (cases "e2 = None \<and> \<not> isSeq \<and> src_btswriter s2 \<noteq> None")
    case False
    have "source_ok s2" using False ok by (auto simp: frame_ready_def open_segment_def split: if_splits)
    moreover have "e2 = None \<or> (\<exists>x. e2 = Some (Err x)) \<or> e2 = Some OutOfFuel"
      using ok by (auto simp: is_panic_def) (metis exn.exhaust)
    ultimately show ?thesis
      using False assms(2) p1 s2 by (auto simp: SendPacket_packet_def is_panic_def)
  next
    case True
    let ?s = "s2\<lparr>src_stat := status_update (IsVideo p2) (TimeStamp p2) (src_stat s2)\<rparr>"
    obtain pkts where pk: "open_segment s2 pkts" "starts_video pkts \<or> pkts = [] \<and> IsVideo p2"
        "IsVideo p2 \<longrightarrow> Header p2 \<noteq> None" "IsVideo p2 \<or> cp_aac (src_tsparser ?s) \<noteq> None"
      using True ok by (auto simp: frame_ready_def)
    have "open_segment ?s = open_segment s2" by (auto simp: open_segment_def parts_ok_def stored_def)
    with calcPtsDts_ok [OF pk(4), of "TimeStamp p2" ct] pk(1) obtain s3 where
      s3: "calcPtsDts (IsVideo p2) (TimeStamp p2) ct ?s = (None, s3)" "open_segment s3 pkts" by auto
    obtain s4 where "tsMux p2 s3 = (None, s4)" "source_ok s4" using tsMux_ok [OF s3(2) pk(2,3)] by blast
    with True assms(2) p1 s2 s3 show ?thesis by (auto simp: SendPacket_packet_def is_panic_def)
  qed
qed

lemma SendPacket_ok:
  "source_ok source \<Longrightarrow> SendPacket ps chClosed source = (e, source') \<Longrightarrow>
   source_ok source' \<and> (is_panic e \<longrightarrow> list_ex (\<lambda>(_, p). short_aac p) ps)"
proof (induction ps chClosed source rule: SendPacket.induct)
  case (2 now p ps chClosed source)
  obtain e1 s1 where s1: "SendPacket_packet now p source = (e1, s1)" by force
  note ok = SendPacket_packet_ok [OF "2.prems"(1) s1]
  show ?case
    using "2.IH" [OF _ s1 [symmetric], of] "2.prems" s1 ok by (cases e1) (auto split: if_splits)
qed (auto split: if_splits)

lemma NewSource_ok: "source_ok (NewSource now info)"
  by (auto simp: NewSource_def source_ok_def parts_ok_def muxer_ok_def tables_ok_def NewMuxer_def codec_ok_def NewCodecParser_def
      stored_def intro!: exI [of _ "[]"])

section \<open>Properties\<close>

text \<open>
  C19: whatever packets a source is given, the segments on offer come from a history of segments that are
  numbered from 1, last at least three seconds and are whole: the program association and map tables with
  valid checksums, then 188-byte transport packets, the first of which starts a video frame. The sender panics
  only on an AAC packet of one byte.
\<close>

theorem hls_segments_whole:
  assumes "SendPacket ps chClosed (NewSource now info) = (e, source)"
  shows "(\<exists>items. stored source items) \<and> (is_panic e \<longrightarrow> list_ex (\<lambda>(_, p). short_aac p) ps)"
  using SendPacket_ok [OF NewSource_ok assms] by (simp add: source_ok_def)

definition sample_info :: Info where
  "sample_info = \<lparr>Key = gostr ''live/movie'', URL = [], UID = [], Inter = False\<rparr>"

theorem hls_segments_whole_witness:
  "\<exists>e source. SendPacket [(0, emptyPacket\<lparr>pkt_Data := [0xaf]\<rparr>)] False (NewSource 0 sample_info) = (e, source) \<and> is_panic e \<and>
     (\<exists>items. stored source items)"
proof -
  let ?r = "SendPacket [(0, emptyPacket\<lparr>pkt_Data := [0xaf]\<rparr>)] False (NewSource 0 sample_info)"
  have "is_panic (fst ?r)"
    by (simp add: NewSource_def SendPacket_packet_def emptyPacket_def Demux_def ParseMediaTagHeader_def parseAudioHeader_def
        index_at_def drop_bit_eq_div is_panic_def)
  with hls_segments_whole [of "[(0, emptyPacket\<lparr>pkt_Data := [0xaf]\<rparr>)]" False 0 sample_info "fst ?r" "snd ?r"] show ?thesis
    by (metis prod.collapse)
qed

text \<open>
  A key frame that comes three seconds or more after the first packet of the current segment closes it: the
  segment is stored under the stream's name and the current second with the next sequence number, its duration and
  everything muxed so far, pending audio included, and a new segment with its tables is begun.
\<close>

theorem hls_key_frame_cuts:
  assumes "source_ok source" and "stored source items" and "src_btswriter source = Some b" and "3000 \<le> durationMs (src_stat source)"
  shows "\<exists>source' item added. cut now source = (None, source') \<and> stored source' (items @ [item]) \<and>
     ts_Name item = segment_name (Key (src_info source)) now \<and> Duration item = durationMs (src_stat source) \<and>
     SeqNum item = int (length items) + 1 \<and> ts_Data item = b @ added \<and> open_segment source' []"
proof -
  have "src_seq source = int (length items)" using assms(2) by (simp add: stored_def)
  moreover obtain source' item added where "cut now source = (None, source')" "stored source' (items @ [item])" "open_segment source' []"
      "item = NewTSItem (segment_name (Key (src_info source)) now) (durationMs (src_stat source)) (src_seq source + 1) (b @ added)"
    using cut_stores [OF assms, of now] by blast
  ultimately show ?thesis by (intro exI [of _ source'] exI [of _ item] exI [of _ added]) (simp add: NewTSItem_def)
qed

text \<open>A segment with its tables and one video packet, three seconds long.\<close>

definition sample_source :: Source where
  "sample_source = (case writeTables ((NewSource 0 sample_info)\<lparr>src_btswriter := Some []\<rparr>) of
     (_, source) \<Rightarrow> (case src_mux sample_key source of (_, source) \<Rightarrow>
       source\<lparr>src_stat := (newStatus 0)\<lparr>lastTimestamp := 3040\<rparr>\<rparr>))"

lemma sample_source_ok:
  "\<exists>b. src_btswriter sample_source = Some b \<and> source_ok sample_source \<and> stored sample_source [] \<and>
     durationMs (src_stat sample_source) = 3040 \<and> src_info sample_source = sample_info\<lparr>Inter := True\<rparr>"
proof -
  let ?s0 = "(NewSource 0 sample_info)\<lparr>src_btswriter := Some []\<rparr>"
  have s0: "parts_ok ?s0" "stored ?s0 []"
    using NewSource_ok [of 0 sample_info] by (auto simp: source_ok_def parts_ok_def stored_def NewSource_def)
  obtain s1 where s1: "writeTables ?s0 = (None, s1)" "open_segment s1 []" "stored s1 []"
    using writeTables_open [OF s0] by auto
  have k: "IsVideo sample_key" "Header sample_key \<noteq> None" by (simp_all add: sample_key_def)
  obtain s2 added where s2: "src_mux sample_key s1 = (None, s2)" "open_segment s2 added" "starts_video added"
    using src_mux_open [OF s1(2), of sample_key] k by auto
  have i: "src_info s2 = sample_info\<lparr>Inter := True\<rparr>" "stored s2 = stored s1"
    using s1(1) s2(1) by (auto simp: writeTables_def src_mux_def stored_def NewSource_def fun_eq_iff split: option.splits prod.splits)
  let ?s = "s2\<lparr>src_stat := (newStatus 0)\<lparr>lastTimestamp := 3040\<rparr>\<rparr>"
  have s: "sample_source = ?s" using s1 s2 by (simp add: sample_source_def)
  have "stored ?s = stored s2" "parts_ok ?s = parts_ok s2" "src_btswriter ?s = src_btswriter s2"
    by (simp_all add: stored_def parts_ok_def fun_eq_iff)
  then have ok: "source_ok ?s" "stored ?s []" "durationMs (src_stat ?s) = 3040"
    using source_okI [OF s2(2,3)] i(2) s1(3) by (simp_all add: source_ok_def durationMs_def newStatus_def)
  obtain b where b: "src_btswriter ?s = Some b" using s2(2) by (auto simp: open_segment_def)
  show ?thesis unfolding s using ok b i by auto
qed

lemma sample_name: "segment_name (Key (sample_info\<lparr>Inter := True\<rparr>)) 1600000000000000000 = gostr ''/live/movie/1600000000.ts''"
  by (simp add: sample_info_def segment_name_def gostr_def decimal_int_def decimal.simps)

theorem hls_key_frame_cuts_witness:
  "\<exists>source item. cut 1600000000000000000 sample_source = (None, source) \<and> stored source [item] \<and>
     ts_Name item = gostr ''/live/movie/1600000000.ts'' \<and> Duration item = 3040 \<and> SeqNum item = 1"
proof -
  obtain b where b: "src_btswriter sample_source = Some b" "source_ok sample_source" "stored sample_source []"
      "durationMs (src_stat sample_source) = 3040" "src_info sample_source = sample_info\<lparr>Inter := True\<rparr>"
    using sample_source_ok by blast
  show ?thesis
    using hls_key_frame_cuts [OF b(2,3,1), of 1600000000000000000] b(4,5) sample_name by auto
qed

end
