(* ===== verification/Amf3Encoder.thy ===== *)
theory Amf3Encoder
  imports Amf0 "HOL-Library.List_Lexorder"
begin

text \<open>
  \<^verbatim>\<open>src/protocol/amf/encoder_amf3.go\<close>: the AMF3 encoder, and the entry points of \<^verbatim>\<open>amf.go\<close> that choose between the two encoders.

  An encoding routine is the bytes it appends to the buffer, or its error. The encoder never emits a reference, a dynamic member or an
  externalizable object (\<^verbatim>\<open>Dynamic\<close> and \<^verbatim>\<open>Externalizable\<close> of its trait are constants), so these branches of the source do not occur here.
  \<open>AInt\<close> stands for the integer types of at most 32 bits and \<^verbatim>\<open>int\<close>. A property name is compared bytewise, which is the order of
  \<^verbatim>\<open>sort.Strings\<close>.
\<close>

unbundle bit_operations_syntax

abbreviation AMF3IntegerMax :: int where "AMF3IntegerMax \<equiv> 536870911"

section \<open>Routines\<close>

definition encodeAmf3Uint29 :: "u32 \<Rightarrow> bytes res" where
  "encodeAmf3Uint29 val =
     (if val \<le> 0x7F then Inr [ucast val]
      else if val \<le> 0x3FFF then Inr [ucast (drop_bit 7 val OR 0x80), ucast (val AND 0x7F)]
      else if val \<le> 0x1FFFFF then Inr [ucast (drop_bit 14 val OR 0x80), ucast (drop_bit 7 val AND 0x7F OR 0x80), ucast (val AND 0x7F)]
      else if val \<le> 0x1FFFFFFF
      then Inr [ucast (drop_bit 22 val OR 0x80), ucast (drop_bit 15 val AND 0x7F OR 0x80), ucast (drop_bit 8 val AND 0x7F OR 0x80), ucast val]
      else Inl (Err (Errorf ''amf3 encode: cannot encode u29 with value %d (out of range)'')))"

definition encodeAmf3Utf8 :: "bytes \<Rightarrow> bytes res" where
  "encodeAmf3Utf8 val =
     bindR (wrapR ''amf3 encode: cannot encode u29 for string: '' (encodeAmf3Uint29 (push_bit 1 (word_of_nat (length val)) OR 1))) (\<lambda>b.
       Inr (b @ val))"

definition EncodeAmf3Undefined :: "bool \<Rightarrow> bytes" where
  "EncodeAmf3Undefined m = marker_if m AMF3UndefinedMarker"

definition EncodeAmf3Null :: "bool \<Rightarrow> bytes" where
  "EncodeAmf3Null m = marker_if m AMF3NullMarker"

definition EncodeAmf3False :: "bool \<Rightarrow> bytes" where
  "EncodeAmf3False m = marker_if m AMF3FalseMarker"

definition EncodeAmf3True :: "bool \<Rightarrow> bytes" where
  "EncodeAmf3True m = marker_if m AMF3TrueMarker"

definition EncodeAmf3Integer :: "u32 \<Rightarrow> bool \<Rightarrow> bytes res" where
  "EncodeAmf3Integer val m = bindR (encodeAmf3Uint29 val) (\<lambda>b. Inr (marker_if m AMF3IntegerMarker @ b))"

definition EncodeAmf3Double :: "u64 \<Rightarrow> bool \<Rightarrow> bytes" where
  "EncodeAmf3Double val m = marker_if m AMF3DoubleMarker @ be_bytes 8 val"

definition EncodeAmf3String :: "bytes \<Rightarrow> bool \<Rightarrow> bytes res" where
  "EncodeAmf3String val m = bindR (encodeAmf3Utf8 val) (\<lambda>b. Inr (marker_if m AMF3StringMarker @ b))"

definition EncodeAmf3Date :: "int \<Rightarrow> bool \<Rightarrow> bytes" where
  "EncodeAmf3Date val m = marker_if m AMF3DateMarker @ [0x01] @ be_bytes 8 (millis_of_unix val)"

definition EncodeAmf3ByteArray :: "bytes \<Rightarrow> bool \<Rightarrow> bytes res" where
  "EncodeAmf3ByteArray val m =
     bindR (wrapR ''amf3 encode: cannot encode u29 for bytearray: '' (encodeAmf3Uint29 (push_bit 1 (word_of_nat (length val)) OR 1))) (\<lambda>b.
       Inr (marker_if m AMF3BytearrayMarker @ b @ val))"

text \<open>Arrays and objects, given what their elements and members encode to.\<close>

fun encodeElements3 :: "bytes res list \<Rightarrow> bytes res" where
  "encodeElements3 [] = Inr []"
| "encodeElements3 (v # vs) =
     bindR (wrapR ''amf3 encode: cannot encode array element: '' v) (\<lambda>b. bindR (encodeElements3 vs) (\<lambda>bs. Inr (b @ bs)))"

definition EncodeAmf3Array :: "bytes res list \<Rightarrow> bool \<Rightarrow> bytes res" where
  "EncodeAmf3Array vs m =
     bindR (wrapR ''amf3 encode: cannot encode u29 for array: '' (encodeAmf3Uint29 (push_bit 1 (word_of_nat (length vs)) OR 1))) (\<lambda>b.
     bindR (wrapR ''amf3 encode: cannot encode empty string for array: '' (encodeAmf3Utf8 [])) (\<lambda>e.
     bindR (encodeElements3 vs) (\<lambda>bs. Inr (marker_if m AMF3ArrayMarker @ b @ e @ bs))))"

fun encodeTraitProps :: "bytes list \<Rightarrow> bytes res" where
  "encodeTraitProps [] = Inr []"
| "encodeTraitProps (p # ps) =
     bindR (wrapR ''amf3 encode: cannot encode trait property for object: '' (encodeAmf3Utf8 p)) (\<lambda>b.
     bindR (encodeTraitProps ps) (\<lambda>bs. Inr (b @ bs)))"

fun encodeSealed :: "bytes list \<Rightarrow> (bytes \<times> bytes res) list \<Rightarrow> bytes res" where
  "encodeSealed [] obj = Inr []"
| "encodeSealed (p # ps) obj =
     bindR (wrapR ''amf3 encode: cannot encode sealed object value: '' (case map_of obj p of Some r \<Rightarrow> r | None \<Rightarrow> Inr (EncodeAmf3Null True))) (\<lambda>b.
     bindR (encodeSealed ps obj) (\<lambda>bs. Inr (b @ bs)))"

definition EncodeAmf3Object :: "bytes \<Rightarrow> (bytes \<times> bytes res) list \<Rightarrow> bool \<Rightarrow> bytes res" where
  "EncodeAmf3Object cls obj m =
     (let props = sort (map fst obj); u29 = 0x03 OR push_bit 4 (word_of_nat (length props))
      in bindR (wrapR ''amf3 encode: cannot encode trait header for object: '' (encodeAmf3Uint29 u29)) (\<lambda>b.
         bindR (wrapR ''amf3 encode: cannot encode trait type for object: '' (encodeAmf3Utf8 cls)) (\<lambda>t.
         bindR (encodeTraitProps props) (\<lambda>ps.
         bindR (encodeSealed props obj) (\<lambda>vs. Inr (marker_if m AMF3ObjectMarker @ b @ t @ ps @ vs))))))"

text \<open>The router. A byte slice is an array of integers: \<^verbatim>\<open>EncodeAmf3ByteArray\<close> is not reached from it.\<close>

definition EncodeAmf3Int :: "int \<Rightarrow> bytes res" where
  "EncodeAmf3Int n =
     (if 0 \<le> n \<and> n \<le> AMF3IntegerMax then EncodeAmf3Integer (word_of_int n) True else Inr (EncodeAmf3Double (float64_of_int n) True))"

fun EncodeAmf3 :: "amfval \<Rightarrow> bytes res"
  and EncodeAmf3_members :: "(bytes \<times> amfval) list \<Rightarrow> (bytes \<times> bytes res) list"
  and EncodeAmf3_all :: "amfval list \<Rightarrow> bytes res list"
where
  "EncodeAmf3 ANil = Inr (EncodeAmf3Null True)"
| "EncodeAmf3 (AString x) = EncodeAmf3String x True"
| "EncodeAmf3 (ABool b) = Inr (if b then EncodeAmf3True True else EncodeAmf3False True)"
| "EncodeAmf3 (AInt n) = EncodeAmf3Int n"
| "EncodeAmf3 (ANumber v) = Inr (EncodeAmf3Double v True)"
| "EncodeAmf3 (AArray xs) = EncodeAmf3Array (EncodeAmf3_all xs) True"
| "EncodeAmf3 (ABytes xs) = EncodeAmf3Array (map (\<lambda>x. EncodeAmf3Int (uint x)) xs) True"
| "EncodeAmf3 (AObject kvs) = EncodeAmf3Object [] (EncodeAmf3_members kvs) True"
| "EncodeAmf3 (ATime t) = Inr (EncodeAmf3Date t True)"
| "EncodeAmf3 (ATyped c kvs) = EncodeAmf3Object c (EncodeAmf3_members kvs) True"
| "EncodeAmf3_members [] = []"
| "EncodeAmf3_members ((k, v) # kvs) = (k, EncodeAmf3 v) # EncodeAmf3_members kvs"
| "EncodeAmf3_all [] = []"
| "EncodeAmf3_all (v # vs) = EncodeAmf3 v # EncodeAmf3_all vs"

section \<open>amf.go\<close>

definition Encode :: "byte \<Rightarrow> amfval \<Rightarrow> bytes res" where
  "Encode ver v =
     (if ver = 0 then EncodeAmf0 v else if ver = 3 then EncodeAmf3 v
      else Inl (Err (Errorf ''encode amf: unsupported version %d'')))"

fun EncodeBatch :: "byte \<Rightarrow> amfval list \<Rightarrow> bytes res" where
  "EncodeBatch ver [] = Inr []"
| "EncodeBatch ver (v # vs) = bindR (Encode ver v) (\<lambda>b. bindR (EncodeBatch ver vs) (\<lambda>bs. Inr (b @ bs)))"

lemma EncodeBatch_0: "EncodeBatch 0 vs = EncodeBatch0 vs"
  by (induction vs) (simp_all add: Encode_def)

section \<open>Integers of 29 bits\<close>

lemma take_bit_join: "push_bit n (take_bit k (drop_bit n x)) + take_bit n x = take_bit (k + n) (x :: u32)"
proof -
  have "push_bit n (take_bit k (drop_bit n x)) + take_bit n x = push_bit n (take_bit k (drop_bit n x)) OR take_bit n x"
    by (rule disjunctive_add) (auto simp: bit_simps)
  also have "\<dots> = take_bit (k + n) x" by (rule bit_word_eqI) (auto simp: bit_simps)
  finally show ?thesis .
qed

lemma bit_7F_80:
  "bit (0x7F :: nat) n \<longleftrightarrow> n < 7" "bit (0x80 :: nat) n \<longleftrightarrow> n = 7"
  "bit (0x7F :: int) n \<longleftrightarrow> n < 7" "bit (0x80 :: int) n \<longleftrightarrow> n = 7"
proof -
  have m: "(0x7F :: nat) = mask 7" "(0x7F :: int) = mask 7" by (simp_all add: mask_eq_exp_minus_1)
  show "bit (0x7F :: nat) n \<longleftrightarrow> n < 7" "bit (0x7F :: int) n \<longleftrightarrow> n < 7" unfolding m by (simp_all only: bit_mask_iff possible_bit_def, simp_all)
  show "bit (0x80 :: nat) n \<longleftrightarrow> n = 7" "bit (0x80 :: int) n \<longleftrightarrow> n = 7"
    using bit_exp_iff [of 7 n, where 'a = nat] bit_exp_iff [of 7 n, where 'a = int] by auto
qed

text \<open>The last byte of an integer has its high bit clear, the others have it set; the seven bits below it are those of the integer.\<close>

lemma byte_last:
  "(ucast (a AND 0x7F :: u32) :: byte) AND 0x80 = 0" "(ucast ((ucast (a AND 0x7F :: u32) :: byte) AND 0x7F) :: u32) = take_bit 7 a"
  by (rule bit_word_eqI, auto simp add: bit_simps bit_7F_80)+

lemma byte_more:
  "(ucast (a OR 0x80 :: u32) :: byte) AND 0x80 \<noteq> 0" "(ucast ((ucast (a OR 0x80 :: u32) :: byte) AND 0x7F) :: u32) = take_bit 7 a"
proof -
  have "bit ((ucast (a OR 0x80 :: u32) :: byte) AND 0x80) 7" by (simp add: bit_simps bit_7F_80)
  then show "(ucast (a OR 0x80 :: u32) :: byte) AND 0x80 \<noteq> 0" by (metis bit_0_eq bot_apply bot_bool_def)
qed (rule bit_word_eqI, auto simp add: bit_simps bit_7F_80)

lemma and_7F: "a AND 0x7F = take_bit 7 (a :: u32)"
  by (rule bit_word_eqI) (auto simp add: bit_simps bit_7F_80)

lemma U29_more:
  assumes "reads (decodeU29_loop i (push_bit 7 r + take_bit 7 a)) bs rest y"
  shows "reads (decodeU29_loop (Suc i) r) (ucast (a OR 0x80 :: u32) # bs) rest y"
  using reads_bind [OF reads_byte, of "\<lambda>b. let result = push_bit 7 r + ucast (b AND 0x7f) in if b AND 0x80 = 0 then retA result else decodeU29_loop i result"
      "ucast (a OR 0x80)" bs rest y] assms
  by (simp add: byte_more Let_def)

lemma U29_last: "reads (decodeU29_loop (Suc i) r) [ucast (a AND 0x7F :: u32)] rest (push_bit 7 r + take_bit 7 a)"
  using reads_bind [OF reads_byte, of "\<lambda>b. let result = push_bit 7 r + ucast (b AND 0x7f) in if b AND 0x80 = 0 then retA result else decodeU29_loop i result"
      "ucast (a AND 0x7F)" "[]" rest]
  by (simp add: byte_last Let_def)

lemma U29_fourth: "reads (decodeU29_loop 0 r) [ucast (a :: u32)] rest (push_bit 8 r + take_bit 8 a)"
  using reads_bind [OF reads_byte, of "\<lambda>b. retA (push_bit 8 r + ucast b)" "ucast a" "[]" rest]
  by (simp add: byte_of_word_of_byte)

lemma reads_U29:
  assumes "encodeAmf3Uint29 v = Inr bs"
  shows "reads decodeU29 bs rest v"
proof -
  have join: "push_bit 7 (take_bit 7 (drop_bit 7 x)) + take_bit 7 x = take_bit 14 x" "push_bit 7 (take_bit 14 (drop_bit 7 x)) + take_bit 7 x = take_bit 21 x"
      "push_bit 8 (take_bit 21 (drop_bit 8 x)) + take_bit 8 x = take_bit 29 x" for x :: u32
    using take_bit_join [of 7 7 x] take_bit_join [of 7 14 x] take_bit_join [of 8 21 x] by simp_all
  consider "v \<le> 0x7F" "bs = [ucast (v AND 0x7F)]" | "v \<le> 0x3FFF" "bs = [ucast (drop_bit 7 v OR 0x80), ucast (v AND 0x7F)]"
    | "v \<le> 0x1FFFFF" "bs = [ucast (drop_bit 14 v OR 0x80), ucast (drop_bit 7 v AND 0x7F OR 0x80), ucast (v AND 0x7F)]"
    | "v \<le> 0x1FFFFFFF" "bs = [ucast (drop_bit 22 v OR 0x80), ucast (drop_bit 15 v AND 0x7F OR 0x80), ucast (drop_bit 8 v AND 0x7F OR 0x80), ucast v]"
    using assms by (auto simp: encodeAmf3Uint29_def and_7F take_bit_self word_le_nat_alt split: if_splits)
  moreover have t: "v \<le> 0x7F \<Longrightarrow> take_bit 7 v = v" "v \<le> 0x3FFF \<Longrightarrow> take_bit 14 v = v" "v \<le> 0x1FFFFF \<Longrightarrow> take_bit 21 v = v"
      "v \<le> 0x1FFFFFFF \<Longrightarrow> take_bit 29 v = v"
    by (simp_all add: take_bit_self word_le_nat_alt)
  ultimately show ?thesis unfolding decodeU29_def
  proof cases
    case 1
    with U29_last [of 2 0 v rest] t(1) show "reads (decodeU29_loop 3 0) bs rest v" by simp
  next
    case 2
    have "reads (decodeU29_loop 2 (take_bit 7 (drop_bit 7 v))) [ucast (v AND 0x7F)] rest v"
      using U29_last [of 1 "take_bit 7 (drop_bit 7 v)" v rest] join(1) [of v] t(2) 2 by (simp add: numeral_2_eq_2 del: decodeU29_loop.simps)
    then show "reads (decodeU29_loop 3 0) bs rest v" using U29_more [of 2 0 "drop_bit 7 v"] 2 by simp
  next
    case 3
    have "reads (decodeU29_loop 1 (take_bit 14 (drop_bit 7 v))) [ucast (v AND 0x7F)] rest v"
      using U29_last [of 0 "take_bit 14 (drop_bit 7 v)" v rest] join(2) [of v] t(3) 3 by (simp del: decodeU29_loop.simps)
    then have "reads (decodeU29_loop 2 (take_bit 7 (drop_bit 14 v))) [ucast (drop_bit 7 v AND 0x7F OR 0x80), ucast (v AND 0x7F)] rest v"
      using U29_more [of 1 "take_bit 7 (drop_bit 14 v)" "drop_bit 7 v AND 0x7F"] join(1) [of "drop_bit 7 v"]
      by (simp add: numeral_2_eq_2 and_7F del: decodeU29_loop.simps)
    then show "reads (decodeU29_loop 3 0) bs rest v" using U29_more [of 2 0 "drop_bit 14 v"] 3 by simp
  next
    case 4
    have "reads (decodeU29_loop 0 (take_bit 21 (drop_bit 8 v))) [ucast v] rest v"
      using U29_fourth [of "take_bit 21 (drop_bit 8 v)" v rest] join(3) [of v] t(4) 4 by (simp del: decodeU29_loop.simps)
    then have "reads (decodeU29_loop 1 (take_bit 14 (drop_bit 15 v))) [ucast (drop_bit 8 v AND 0x7F OR 0x80), ucast v] rest v"
      using U29_more [of 0 "take_bit 14 (drop_bit 15 v)" "drop_bit 8 v AND 0x7F"] join(2) [of "drop_bit 8 v"]
      by (simp add: and_7F del: decodeU29_loop.simps)
    then have "reads (decodeU29_loop 2 (take_bit 7 (drop_bit 22 v))) [ucast (drop_bit 15 v AND 0x7F OR 0x80), ucast (drop_bit 8 v AND 0x7F OR 0x80), ucast v] rest v"
      using U29_more [of 1 "take_bit 7 (drop_bit 22 v)" "drop_bit 15 v AND 0x7F"] join(1) [of "drop_bit 7 (drop_bit 8 v)"]
      by (simp add: numeral_2_eq_2 and_7F del: decodeU29_loop.simps)
    then show "reads (decodeU29_loop 3 0) bs rest v" using U29_more [of 2 0 "drop_bit 22 v"] 4 by simp
  qed
qed

lemma encodeU29_range: "v \<le> 0x1FFFFFFF \<Longrightarrow> \<exists>bs. encodeAmf3Uint29 v = Inr bs \<and> bs \<noteq> []"
  by (simp add: encodeAmf3Uint29_def)

lemma unat_shift_add: "unat r < 2 ^ (32 - k) \<Longrightarrow> k \<le> 8 \<Longrightarrow> unat (b :: u32) < 2 ^ k \<Longrightarrow> unat (push_bit k r + b :: u32) = 2 ^ k * unat r + unat b"
proof -
  assume r: "unat r < 2 ^ (32 - k)" and k: "k \<le> 8" and b: "unat b < 2 ^ k"
  have "unat r + 1 \<le> 2 ^ (32 - k)" using r by simp
  then have "2 ^ k * (unat r + 1) \<le> 2 ^ k * 2 ^ (32 - k)" by (intro mult_le_mono2)
  also have "\<dots> = (2 :: nat) ^ 32" using k by (simp flip: power_add)
  finally have "2 ^ k * unat r + unat b < 2 ^ 32" using b by (simp add: algebra_simps)
  moreover have "unat (2 ^ k :: u32) = 2 ^ k" 
    using unat_u32 [of "2 ^ k"] power_strict_increasing [of k 32 "2 :: nat"] k by simp
  ultimately show ?thesis by (simp add: push_bit_eq_mult unat_word_ariths mod_simps mult.commute)
qed

lemma unat_7F: "unat (ucast (b AND 0x7F :: byte) :: u32) < 2 ^ 7"
proof -
  have "b AND 0x7F = take_bit 7 b" by (rule bit_word_eqI) (auto simp add: bit_simps bit_7F_80)
  moreover have "unat (ucast (take_bit 7 b) :: u32) = take_bit 7 (unat b)" by (simp add: unsigned_ucast_eq unsigned_take_bit_eq)
  ultimately show ?thesis by (simp only: take_bit_nat_less_exp)
qed

lemma decodeU29_loop_bound:
  assumes "decodeU29_loop i r s = (Inr v, s')" and "i \<le> 3" and "unat r < 2 ^ (7 * (3 - i))"
  shows "unat v < 2 ^ 29"
  using assms
proof (induction i arbitrary: r s)
  case 0
  then obtain b where "v = push_bit 8 r + (ucast (b :: byte) :: u32)" by (auto simp: bindA_def split: prod.splits sum.splits)
  moreover have "unat (ucast b :: u32) < 2 ^ 8" using unsigned_less [of b, where 'a = nat] by (simp add: unsigned_ucast_eq take_bit_nat_eq_self)
  ultimately show ?case using unat_shift_add [of r 8 "ucast b"] 0(3) by simp
next
  case (Suc i)
  then obtain b s1 where b: "decodeU29_loop i (push_bit 7 r + ucast (b AND 0x7f :: byte)) s1 = (Inr v, s') \<or> v = push_bit 7 r + ucast (b AND 0x7f)"
    by (auto simp: bindA_def Let_def split: prod.splits sum.splits if_splits)
  have e: "7 * (3 - i) = 7 * (3 - Suc i) + 7" using Suc.prems(2) by simp
  have "7 * (3 - Suc i) \<le> 25" by simp
  then have "unat r < 2 ^ (32 - 7)" using Suc.prems(3) power_increasing [of "7 * (3 - Suc i)" 25 "2 :: nat"] by auto
  then have "unat (push_bit 7 r + ucast (b AND 0x7f :: byte) :: u32) = 2 ^ 7 * unat r + unat (ucast (b AND 0x7f :: byte) :: u32)"
    by (intro unat_shift_add unat_7F) simp_all
  then have u: "unat (push_bit 7 r + ucast (b AND 0x7f :: byte) :: u32) < 2 ^ (7 * (3 - i))"
    using unat_7F [of b] Suc.prems(3) unfolding e power_add by simp
  moreover have "(2 :: nat) ^ (7 * (3 - i)) \<le> 2 ^ 29" by (intro power_increasing) simp_all
  ultimately show ?case using Suc.IH [of "push_bit 7 r + ucast (b AND 0x7f)" s1] b Suc.prems(2) by auto
qed

text \<open>
  C33: the variable-length integers of AMF3. Exactly the integers below \<open>2 ^ 29\<close> can be written, in the fewest bytes of 1 to 4 that hold their bits; they are read back, with
  whatever follows left unread; and no input is read as an integer of \<open>2 ^ 29\<close> or more.
\<close>

theorem u29_bounds:
  "(case encodeAmf3Uint29 v of
      Inl e \<Rightarrow> e \<noteq> OutOfFuel \<and> (\<forall>p. e \<noteq> Panic p) \<and> 2 ^ 29 \<le> unat v
    | Inr bs \<Rightarrow> unat v < 2 ^ 29 \<and> length bs = (if unat v < 2 ^ 7 then 1 else if unat v < 2 ^ 14 then 2 else if unat v < 2 ^ 21 then 3 else 4) \<and>
        (\<forall>s rest. amf_rd s = bs @ rest \<longrightarrow> decodeU29 s = (Inr v, s\<lparr>amf_rd := rest\<rparr>))) \<and>
   (\<forall>s v' s'. decodeU29 s = (Inr v', s') \<longrightarrow> unat v' < 2 ^ 29)"
proof -
  have "unat v' < 2 ^ 29" if "decodeU29 s = (Inr v', s')" for s v' s'
    using decodeU29_loop_bound [of 3 0 s v' s'] that by (simp add: decodeU29_def del: decodeU29_loop.simps)
  moreover have "decodeU29 s = (Inr v, s\<lparr>amf_rd := rest\<rparr>)" if "encodeAmf3Uint29 v = Inr bs" "amf_rd s = bs @ rest" for s rest bs
    using readsD [OF reads_U29 [OF that(1)] that(2)] .
  ultimately show ?thesis
    by (auto simp: encodeAmf3Uint29_def word_le_nat_alt split: sum.splits)
qed

theorem u29_bounds_witness:
  "decodeU29 (NewDecoder [0x81, 0x00]) = (Inr 128, NewDecoder [])"
proof -
  have "encodeAmf3Uint29 128 = Inr [0x81, 0x00]" by (simp add: encodeAmf3Uint29_def)
  with u29_bounds [of 128] show ?thesis by (simp add: NewDecoder_def)
qed

section \<open>Round trip\<close>

text \<open>\<open>reads3 m bs rest v\<close>: on input \<open>bs @ rest\<close>, \<open>m\<close> returns \<open>v\<close> and leaves \<open>rest\<close>; it may add to the reference tables.\<close>

definition reads3 :: "'a amf \<Rightarrow> bytes \<Rightarrow> bytes \<Rightarrow> 'a \<Rightarrow> bool" where
  "reads3 m bs rest v \<longleftrightarrow> (\<forall>s. amf_rd s = bs @ rest \<longrightarrow> (\<exists>s'. m s = (Inr v, s') \<and> amf_rd s' = rest))"

lemma reads3_reads: "reads m bs rest v \<Longrightarrow> reads3 m bs rest v"
  by (auto simp: reads_def reads3_def)

lemma reads3_bind: "reads3 m bs (bs' @ rest) x \<Longrightarrow> reads3 (f x) bs' rest y \<Longrightarrow> reads3 (bindA m f) (bs @ bs') rest y"
  by (fastforce simp: reads3_def bindA_def)

lemma reads3_wrap: "reads3 m bs rest x \<Longrightarrow> reads3 (wrapA msg m) bs rest x"
  by (fastforce simp: reads3_def wrapA_def)

lemma reads3_ret: "reads3 (retA x) [] rest x"
  by (simp add: reads3_def)

lemma reads3_map: "reads3 m bs rest x \<Longrightarrow> reads3 (bindA m (\<lambda>x. retA (f x))) bs rest (f x)"
  using reads3_bind [of m bs "[]" rest x "\<lambda>x. retA (f x)" "f x"] by (simp add: reads3_ret)

lemma reads3_then: "reads3 m bs rest x \<Longrightarrow> reads3 (f x) [] rest y \<Longrightarrow> reads3 (bindA m f) bs rest y"
  using reads3_bind [of m bs "[]" rest x f y] by simp

lemma reads3_add:
  "reads3 m bs rest y \<Longrightarrow> reads3 (bindA (addStringRef x) (\<lambda>_. m)) bs rest y"
  "reads3 m bs rest y \<Longrightarrow> reads3 (bindA (addObjectRef v) (\<lambda>_. m)) bs rest y"
  "reads3 m bs rest y \<Longrightarrow> reads3 (bindA (addTraitRef t) (\<lambda>_. m)) bs rest y"
  by (auto simp: reads3_def bindA_def addStringRef_def addObjectRef_def addTraitRef_def)

lemma reads3_marker: "reads3 (decMarked3 (decAmf3 k) m) bs rest v \<Longrightarrow> reads3 (decAmf3 (Suc k)) (m # bs) rest v"
  using reads3_bind [OF reads3_reads [OF reads_byte], of "decMarked3 (decAmf3 k)" m bs rest v] by (simp add: ReadMarker_def)

lemma reads3_buf: "bs @ rest \<noteq> [] \<Longrightarrow> length bs = n \<Longrightarrow> reads3 (readBuf n) bs rest bs"
  by (auto simp: reads3_def readBuf_def reader_Read_def bindA_def Let_def)

text \<open>A length in the form \<open>2 * n + 1\<close>.\<close>

definition odd29 :: "nat \<Rightarrow> u32" where
  "odd29 n = push_bit 1 (word_of_nat n) OR 1"

lemma odd29_nat: "odd29 n = word_of_nat (2 * n + 1)"
proof -
  have "bit (push_bit 1 w) j \<Longrightarrow> 0 < j" for w :: u32 and j unfolding bit_push_bit_iff by auto
  then have "push_bit 1 (word_of_nat n :: u32) OR 1 = push_bit 1 (word_of_nat n) + 1"
    by (intro disjunctive_add [symmetric]) (metis bit_1_iff gr_implies_not0)
  then show ?thesis by (simp add: odd29_def push_bit_eq_mult)
qed

lemma unat_29: "m < 2 ^ 29 \<Longrightarrow> unat (word_of_nat m :: u32) = m"
  by (rule unat_u32) simp

lemma unat_div_29: "m < 2 ^ 29 \<Longrightarrow> unat (word_of_nat (m div 2 ^ j) :: u32) = m div 2 ^ j"
  by (rule unat_29) (rule le_less_trans [OF div_le_dividend])

lemma drop_bit_29: "m < 2 ^ 29 \<Longrightarrow> drop_bit j (word_of_nat m :: u32) = word_of_nat (m div 2 ^ j)"
  by (simp only: word_unat_eq_iff unsigned_drop_bit_eq unat_div_29 unat_29) (simp add: drop_bit_eq_div take_bit_nat_eq_self)

lemma and_1_29: "(word_of_nat m :: u32) AND 1 = 0 \<longleftrightarrow> even m"
  by (simp add: and_one_eq even_iff_mod_2_eq_zero [symmetric])

lemma odd29:
  assumes "n < 2 ^ 28"
  shows "unat (odd29 n) = 2 * n + 1" and "odd29 n AND 1 \<noteq> 0" and "drop_bit 1 (odd29 n) = word_of_nat n"
proof -
  have m: "2 * n + 1 < 2 ^ 29" "(2 * n + 1) div 2 ^ 1 = n" using assms by simp_all
  show "unat (odd29 n) = 2 * n + 1" unfolding odd29_nat by (rule unat_29 [OF m(1)])
  show "odd29 n AND 1 \<noteq> 0" unfolding odd29_nat and_1_29 by simp
  show "drop_bit 1 (odd29 n) = word_of_nat n" unfolding odd29_nat drop_bit_29 [OF m(1)] m(2) ..
qed

lemma reads3_ref:
  assumes "encodeAmf3Uint29 u = Inr bs" and "u AND 1 \<noteq> 0"
  shows "reads3 decodeReferenceInt bs rest (False, drop_bit 1 u)"
  using reads3_map [OF reads3_wrap [OF reads3_reads [OF reads_U29 [OF assms(1)]]], where f = "\<lambda>u29. (u29 AND 1 = 0, drop_bit 1 u29)"] assms(2)
  unfolding decodeReferenceInt_def by simp

lemma encodeU29_odd: "n < 2 ^ 28 \<Longrightarrow> \<exists>bs. encodeAmf3Uint29 (odd29 n) = Inr bs \<and> bs \<noteq> []"
  by (rule encodeU29_range) (simp add: word_le_nat_alt odd29)

lemma encodeUtf8_total: "length x < 2 ^ 28 \<Longrightarrow> \<exists>bs. encodeAmf3Utf8 x = Inr bs \<and> length x < length bs"
  using encodeU29_odd [of "length x"] unfolding encodeAmf3Utf8_def odd29_def [symmetric] by auto

lemma reads3_string:
  assumes "encodeAmf3Utf8 x = Inr bs" and "length x < 2 ^ 28" and "x @ rest \<noteq> []"
  shows "reads3 (DecodeAmf3String False) bs rest x"
proof -
  obtain b where b: "encodeAmf3Uint29 (odd29 (length x)) = Inr b" "bs = b @ x"
    using assms(1) unfolding encodeAmf3Utf8_def odd29_def [symmetric] by auto
  let ?f = "\<lambda>result. if result \<noteq> [] then bindA (addStringRef result) (\<lambda>_. retA result) else retA result"
  have "reads3 (readBuf (unat (word_of_nat (length x) :: u32))) x rest x"
    using assms(2,3) by (intro reads3_buf) (simp_all add: unat_29)
  moreover have "reads3 (?f x) [] rest x" by (simp add: reads3_add reads3_ret)
  ultimately have "reads3 (bindA (wrapA msg (readBuf (unat (word_of_nat (length x) :: u32)))) ?f) x rest x" for msg
    using reads3_bind [OF reads3_wrap, of _ x "[]" rest x ?f x] by simp
  with reads3_wrap [OF reads3_ref [OF b(1) odd29(2) [OF assms(2)]]] show ?thesis
    unfolding DecodeAmf3String_def AssertMarker_def b(2) odd29(3) [OF assms(2)]
    by (simp, intro reads3_bind [where x = "(False, word_of_nat (length x))"]) simp_all
qed

text \<open>The header of an object with \<open>n\<close> properties.\<close>

definition trait29 :: "nat \<Rightarrow> u32" where
  "trait29 n = 0x03 OR push_bit 4 (word_of_nat n)"

lemma bit_2_3_4:
  "bit (2 :: u32) n \<longleftrightarrow> n = 1" "bit (3 :: u32) n \<longleftrightarrow> n < 2" "bit (4 :: u32) n \<longleftrightarrow> n = 2"
proof -
  have m: "(3 :: u32) = mask 2" by (simp add: mask_eq_exp_minus_1)
  show "bit (3 :: u32) n \<longleftrightarrow> n < 2" unfolding m by (simp only: bit_mask_iff possible_bit_def) auto
  show "bit (2 :: u32) n \<longleftrightarrow> n = 1" "bit (4 :: u32) n \<longleftrightarrow> n = 2"
    using bit_exp_iff [of 1 n, where 'a = u32] bit_exp_iff [of 2 n, where 'a = u32] by auto
qed

lemma high_bits:
  assumes "\<And>j. bit w j \<Longrightarrow> 4 \<le> j"
  shows "w OR 0x03 = w + (0x03 :: u32)" and "drop_bit 1 (0x03 OR w) AND 2 = 0" and "drop_bit 1 (0x03 OR w) AND 4 = 0"
proof -
  have "\<not> bit w j \<or> \<not> bit (0x03 :: u32) j" for j using assms [of j] unfolding bit_2_3_4 by auto
  then show "w OR 0x03 = w + (0x03 :: u32)" by (rule disjunctive_add [symmetric])
  have "\<not> bit w 2" "\<not> bit w 3" using assms by fastforce+
  then have "\<not> bit (0x03 OR w) (1 + 1)" "\<not> bit (0x03 OR w) (1 + 2)" unfolding bit_or_iff bit_2_3_4 by (simp_all add: numeral_2_eq_2 numeral_3_eq_3)
  moreover have "bit (drop_bit 1 (0x03 OR w) AND 2) j \<longleftrightarrow> bit (0x03 OR w) (1 + j) \<and> j = 1"
    "bit (drop_bit 1 (0x03 OR w) AND 4) j \<longleftrightarrow> bit (0x03 OR w) (1 + j) \<and> j = 2" for j
    by (simp_all only: bit_and_iff bit_drop_bit_eq comp_def bit_2_3_4)
  ultimately show "drop_bit 1 (0x03 OR w) AND 2 = 0" "drop_bit 1 (0x03 OR w) AND 4 = 0"
    by (metis bit_word_eqI bit_0_eq bot_apply bot_bool_def)+
qed

lemma shifted_4: "bit (push_bit 4 w :: u32) j \<Longrightarrow> 4 \<le> j"
  unfolding bit_push_bit_iff by auto

lemma trait29_nat: "trait29 n = word_of_nat (16 * n + 3)"
  using high_bits(1) [where w = "push_bit 4 (word_of_nat n)", OF shifted_4] by (simp add: trait29_def push_bit_eq_mult or.commute)

lemma trait29:
  assumes "n < 2 ^ 25"
  shows "unat (trait29 n) < 2 ^ 29" and "trait29 n AND 1 \<noteq> 0" and "drop_bit 1 (trait29 n) AND 1 \<noteq> 0" and "drop_bit 1 (trait29 n) AND 2 = 0"
    and "drop_bit 1 (trait29 n) AND 4 = 0" and "unat (drop_bit 3 (drop_bit 1 (trait29 n))) = n"
proof -
  have m: "16 * n + 3 < 2 ^ 29" "(16 * n + 3) div 2 ^ 1 = 8 * n + 1" "(8 * n + 1) div 2 ^ 3 = n" "8 * n + 1 < 2 ^ 29" "(16 * n + 3) div 2 ^ 4 = n" using assms by simp_all
  show "unat (trait29 n) < 2 ^ 29" unfolding trait29_nat unat_29 [OF m(1)] by (rule m(1))
  show "trait29 n AND 1 \<noteq> 0" unfolding trait29_nat and_1_29 by simp
  have d: "drop_bit 1 (trait29 n) = word_of_nat (8 * n + 1)" unfolding trait29_nat drop_bit_29 [OF m(1)] m(2) ..
  show "drop_bit 1 (trait29 n) AND 1 \<noteq> 0" unfolding d and_1_29 by simp
  show "unat (drop_bit 3 (drop_bit 1 (trait29 n))) = n" unfolding d drop_bit_29 [OF m(4)] m(3) by (rule unat_29) (use assms in simp)
  show "drop_bit 1 (trait29 n) AND 2 = 0" "drop_bit 1 (trait29 n) AND 4 = 0"
    unfolding trait29_def using high_bits(2,3) [where w = "push_bit 4 (word_of_nat n)", OF shifted_4] by simp_all
qed

text \<open>Values in the order of their keys.\<close>

definition in_key_order :: "(bytes \<times> 'a) list \<Rightarrow> (bytes \<times> 'a) list" where
  "in_key_order kvs = map (\<lambda>k. (k, the (map_of kvs k))) (sort (map fst kvs))"

lemma in_key_order_keys [simp]: "map fst (in_key_order kvs) = sort (map fst kvs)"
  by (simp add: in_key_order_def comp_def)

lemma in_key_order_get: "(k, x) \<in> set (in_key_order kvs) \<Longrightarrow> map_of kvs k = Some x"
  by (force simp: in_key_order_def dest: weak_map_of_SomeI)

lemma in_key_order_map: "in_key_order (map (\<lambda>(k, x). (k, f x)) kvs) = map (\<lambda>(k, x). (k, f x)) (in_key_order kvs)"
proof -
  have k: "map fst (map (\<lambda>(k, x). (k, f x)) kvs) = map fst kvs" by (simp add: comp_def case_prod_unfold)
  have "map_of kvs k \<noteq> None" if "k \<in> set (map fst kvs)" for k using that by (simp add: map_of_eq_None_iff)
  then show ?thesis unfolding in_key_order_def k by (auto simp: map_of_map option.map_sel)
qed

lemma in_key_order_Nil [simp]: "in_key_order kvs = [] \<longleftrightarrow> kvs = []"
  by (metis in_key_order_keys length_0_conv length_map length_sort)

text \<open>What an encoded value must be like: not empty, and read back as \<open>n\<close>; at the end of the input only if it does not end with an empty string (\<open>e\<close>).\<close>

definition codes :: "bytes res \<Rightarrow> bool \<Rightarrow> amfval \<Rightarrow> bool" where
  "codes r e n \<longleftrightarrow> (\<exists>bs. r = Inr bs \<and> bs \<noteq> [] \<and>
     (\<forall>rest k. (rest \<noteq> [] \<or> \<not> e) \<and> length bs \<le> k \<longrightarrow> reads3 (decAmf3 k) bs rest n))"

lemma codesI:
  assumes "r = Inr (m # bs)" and "\<And>rest k. rest \<noteq> [] \<or> \<not> e \<Longrightarrow> length bs \<le> k \<Longrightarrow> reads3 (decMarked3 (decAmf3 k) m) bs rest n"
  shows "codes r e n"
proof -
  have "reads3 (decAmf3 k) (m # bs) rest n" if "rest \<noteq> [] \<or> \<not> e" "length (m # bs) \<le> k" for rest k
    using reads3_marker [OF assms(2)] that by (cases k) auto
  with assms(1) show ?thesis by (auto simp: codes_def)
qed

lemma codesE:
  assumes "codes r e n"
  obtains bs where "r = Inr bs" and "bs \<noteq> []" and "\<And>rest k. rest \<noteq> [] \<or> \<not> e \<Longrightarrow> length bs \<le> k \<Longrightarrow> reads3 (decAmf3 k) bs rest n"
  using assms unfolding codes_def by blast

lemma encodeElements3_codes:
  assumes "\<forall>(r, e, n) \<in> set xs. codes r e n"
  shows "\<exists>bs. encodeElements3 (map fst xs) = Inr bs \<and> (xs \<noteq> [] \<longrightarrow> bs \<noteq> []) \<and>
     (\<forall>rest k acc. (rest \<noteq> [] \<or> xs = [] \<or> \<not> fst (snd (last xs))) \<and> length bs \<le> k \<longrightarrow>
        reads3 (decodeValues3 (decAmf3 k) (length xs) acc) bs rest (acc @ map (\<lambda>x. snd (snd x)) xs))"
  using assms
proof (induction xs)
  case (Cons x xs)
  obtain r e n where x: "x = (r, e, n)" by (metis prod_cases3)
  obtain b where b: "r = Inr b" "b \<noteq> []" "\<And>rest k. rest \<noteq> [] \<or> \<not> e \<Longrightarrow> length b \<le> k \<Longrightarrow> reads3 (decAmf3 k) b rest n"
    using Cons.prems x by (auto elim: codesE)
  obtain bs where bs: "encodeElements3 (map fst xs) = Inr bs" "xs \<noteq> [] \<longrightarrow> bs \<noteq> []"
      "\<And>rest k acc. (rest \<noteq> [] \<or> xs = [] \<or> \<not> fst (snd (last xs))) \<and> length bs \<le> k \<Longrightarrow>
        reads3 (decodeValues3 (decAmf3 k) (length xs) acc) bs rest (acc @ map (\<lambda>x. snd (snd x)) xs)"
    using Cons by auto
  have "reads3 (decodeValues3 (decAmf3 k) (length (x # xs)) acc) (b @ bs) rest (acc @ map (\<lambda>x. snd (snd x)) (x # xs))"
    if h: "rest \<noteq> [] \<or> \<not> fst (snd (last (x # xs)))" "length (b @ bs) \<le> k" for rest k acc
  proof -
    have "reads3 (decAmf3 k) b (bs @ rest) n" using b(3) h bs(2) x by (cases xs) auto
    moreover have "reads3 (decodeValues3 (decAmf3 k) (length xs) (acc @ [n])) bs rest ((acc @ [n]) @ map (\<lambda>x. snd (snd x)) xs)"
      using bs(3) [of rest k "acc @ [n]"] h by (cases xs) auto
    ultimately show ?thesis
      using reads3_bind [OF reads3_wrap, of _ b bs rest n "\<lambda>v. decodeValues3 (decAmf3 k) (length xs) (acc @ [v])"] x by simp
  qed
  with b bs x show ?case by auto
qed (simp add: reads3_ret)

lemma encodeSealed_codes:
  assumes "\<forall>(k, r, e, n) \<in> set ms. map_of obj k = Some r \<and> codes r e n" and "distinct (map fst ms)"
  shows "\<exists>bs. encodeSealed (map fst ms) obj = Inr bs \<and> (ms \<noteq> [] \<longrightarrow> bs \<noteq> []) \<and>
     (\<forall>rest d acc. (rest \<noteq> [] \<or> ms = [] \<or> \<not> fst (snd (snd (last ms)))) \<and> length bs \<le> d \<and> fst ` set acc \<inter> fst ` set ms = {} \<longrightarrow>
        reads3 (decodeProps (decAmf3 d) (map fst ms) acc) bs rest (acc @ map (\<lambda>(k, r, e, n). (k, n)) ms))"
  using assms
proof (induction ms)
  case (Cons x ms)
  obtain k r e n where x: "x = (k, r, e, n)" by (metis prod_cases4)
  have k: "map_of obj k = Some r" "codes r e n" using Cons.prems(1) x by auto
  obtain b where b: "r = Inr b" "b \<noteq> []" "\<And>rest d. rest \<noteq> [] \<or> \<not> e \<Longrightarrow> length b \<le> d \<Longrightarrow> reads3 (decAmf3 d) b rest n"
    using k(2) by (auto elim: codesE)
  obtain bs where bs: "encodeSealed (map fst ms) obj = Inr bs" "ms \<noteq> [] \<longrightarrow> bs \<noteq> []"
      "\<And>rest d acc. (rest \<noteq> [] \<or> ms = [] \<or> \<not> fst (snd (snd (last ms)))) \<and> length bs \<le> d \<and> fst ` set acc \<inter> fst ` set ms = {} \<Longrightarrow>
        reads3 (decodeProps (decAmf3 d) (map fst ms) acc) bs rest (acc @ map (\<lambda>(k, r, e, n). (k, n)) ms)"
    using Cons by auto
  have "reads3 (decodeProps (decAmf3 d) (map fst (x # ms)) acc) (b @ bs) rest (acc @ map (\<lambda>(k, r, e, n). (k, n)) (x # ms))"
    if h: "rest \<noteq> [] \<or> \<not> fst (snd (snd (last (x # ms))))" "length (b @ bs) \<le> d" "fst ` set acc \<inter> fst ` set (x # ms) = {}" for rest d acc
  proof -
    have "reads3 (decAmf3 d) b (bs @ rest) n" using b(3) h bs(2) x by (cases ms) auto
    moreover have "AList.update k n acc = acc @ [(k, n)]" using h(3) x by (intro update_new) auto
    moreover have "fst ` set (acc @ [(k, n)]) \<inter> fst ` set ms = {}" using h(3) Cons.prems(2) x by auto
    with bs(3) [of rest d "acc @ [(k, n)]"] h
    have "reads3 (decodeProps (decAmf3 d) (map fst ms) (acc @ [(k, n)])) bs rest ((acc @ [(k, n)]) @ map (\<lambda>(k, r, e, n). (k, n)) ms)"
      by (cases ms) auto
    ultimately show ?thesis
      using reads3_bind [OF reads3_wrap, of _ b bs rest n "\<lambda>v. decodeProps (decAmf3 d) (map fst ms) (AList.update k v acc)"] x by simp
  qed
  with b bs x k(1) show ?case by auto
qed (simp add: reads3_ret)

lemma encodeTraitProps_reads:
  assumes "\<forall>p \<in> set ps. length p < 2 ^ 28"
  shows "\<exists>bs. encodeTraitProps ps = Inr bs \<and>
     (\<forall>rest acc. rest \<noteq> [] \<or> ps = [] \<longrightarrow> reads3 (decodeTraitProps (length ps) acc) bs rest (acc @ ps))"
  using assms
proof (induction ps)
  case (Cons p ps)
  obtain b where b: "encodeAmf3Utf8 p = Inr b" using encodeUtf8_total [of p] Cons.prems by auto
  obtain bs where bs: "encodeTraitProps ps = Inr bs" "\<And>rest acc. rest \<noteq> [] \<or> ps = [] \<Longrightarrow> reads3 (decodeTraitProps (length ps) acc) bs rest (acc @ ps)"
    using Cons by auto
  have "reads3 (decodeTraitProps (length (p # ps)) acc) (b @ bs) rest (acc @ p # ps)" if "rest \<noteq> []" for rest acc
    using reads3_bind [OF reads3_wrap [OF reads3_string [OF b]], of bs rest "\<lambda>p. decodeTraitProps (length ps) (acc @ [p])" "acc @ p # ps"]
      bs(2) [of rest "acc @ [p]"] Cons.prems that by simp
  with b bs show ?case by auto
qed (simp add: reads3_ret)

lemma Array_codes:
  assumes "\<forall>(r, e, n) \<in> set xs. codes r e n" and "length xs < 2 ^ 28"
  shows "codes (EncodeAmf3Array (map fst xs) True) (xs = [] \<or> fst (snd (last xs))) (AArray (map (\<lambda>x. snd (snd x)) xs))"
proof -
  obtain h where h: "encodeAmf3Uint29 (odd29 (length xs)) = Inr h" using encodeU29_odd [OF assms(2)] by blast
  obtain e where e: "encodeAmf3Utf8 [] = Inr e" using encodeUtf8_total [of "[]"] by auto
  obtain bs where bs: "encodeElements3 (map fst xs) = Inr bs" "xs \<noteq> [] \<longrightarrow> bs \<noteq> []"
      "\<And>rest k acc. (rest \<noteq> [] \<or> xs = [] \<or> \<not> fst (snd (last xs))) \<and> length bs \<le> k \<Longrightarrow>
        reads3 (decodeValues3 (decAmf3 k) (length xs) acc) bs rest (acc @ map (\<lambda>x. snd (snd x)) xs)"
    using encodeElements3_codes [OF assms(1)] by auto
  show ?thesis
  proof (rule codesI [where m = AMF3ArrayMarker and bs = "h @ e @ bs"])
    show "EncodeAmf3Array (map fst xs) True = Inr (AMF3ArrayMarker # h @ e @ bs)"
      using h e bs(1) unfolding EncodeAmf3Array_def odd29_def [symmetric] length_map by (simp add: marker_if_def)
    fix rest :: bytes and k assume r: "rest \<noteq> [] \<or> \<not> (xs = [] \<or> fst (snd (last xs)))" "length (h @ e @ bs) \<le> k"
    let ?ns = "map (\<lambda>x. snd (snd x)) xs"
    have "reads3 (decodeValues3 (decAmf3 k) (unat (word_of_nat (length xs) :: u32)) []) bs rest ?ns"
      using bs(3) [of rest k "[]"] r assms(2) by (auto simp: unat_29)
    then have v: "reads3 (bindA (decodeValues3 (decAmf3 k) (unat (word_of_nat (length xs) :: u32)) []) (\<lambda>xs. bindA (addObjectRef (AArray xs)) (\<lambda>_. retA (AArray xs))))
        bs rest (AArray ?ns)"
      by (rule reads3_then) (intro reads3_add reads3_ret)
    have ne: "[] @ bs @ rest \<noteq> []" using r(1) bs(2) by auto
    have "reads3 (wrapA msg (DecodeAmf3String False)) e (bs @ rest) []" for msg
      by (rule reads3_wrap [OF reads3_string [OF e _ ne]]) simp
    then have s: "reads3 (bindA (wrapA msg (DecodeAmf3String False)) (\<lambda>key. if key \<noteq> [] then f key else
        bindA (decodeValues3 (decAmf3 k) (unat (word_of_nat (length xs) :: u32)) []) (\<lambda>xs. bindA (addObjectRef (AArray xs)) (\<lambda>_. retA (AArray xs)))))
        (e @ bs) rest (AArray ?ns)" for msg f
      by (rule reads3_bind) (simp add: v)
    note o = odd29 [OF assms(2)]
    have "reads3 (wrapA msg decodeReferenceInt) h ((e @ bs) @ rest) (False, word_of_nat (length xs))" for msg
      by (rule reads3_wrap [OF reads3_ref [OF h o(2)], unfolded o(3)])
    then show "reads3 (decMarked3 (decAmf3 k) AMF3ArrayMarker) (h @ e @ bs) rest (AArray ?ns)"
      unfolding decMarked3_def DecodeAmf3Array_def AssertMarker_def by (simp, rule reads3_bind) (simp_all add: s)
  qed
qed

lemma decodeTrait_reads:
  assumes "encodeAmf3Utf8 c = Inr t" and "length c < 2 ^ 28" and "encodeTraitProps ps = Inr bs" and "\<forall>p \<in> set ps. length p < 2 ^ 28" and "length ps < 2 ^ 25"
    and "rest \<noteq> [] \<or> ps = [] \<and> c \<noteq> []"
  shows "\<exists>trait. reads3 (decodeTrait (drop_bit 1 (trait29 (length ps)))) (t @ bs) rest trait \<and> \<not> Externalizable trait \<and> \<not> Dynamic trait \<and> Properties trait = ps"
proof -
  let ?u = "drop_bit 1 (trait29 (length ps))"
  let ?trait = "NewTrait\<lparr>Externalizable := ?u AND 2 \<noteq> 0, Dynamic := ?u AND 4 \<noteq> 0, trait_Type := c, Properties := ps\<rparr>"
  note h = trait29 [OF assms(5)]
  have "reads3 (decodeTraitProps (length ps) []) bs rest ([] @ ps)"
    using encodeTraitProps_reads [OF assms(4)] assms(3,6) by (metis Inr_inject)
  then have "reads3 (decodeTraitProps (unat (drop_bit 3 ?u)) []) bs rest ps" unfolding h(6) append_Nil .
  then have p: "reads3 (bindA (decodeTraitProps (unat (drop_bit 3 ?u)) []) (\<lambda>props. let trait = NewTrait\<lparr>Externalizable := ?u AND 2 \<noteq> 0, Dynamic := ?u AND 4 \<noteq> 0, trait_Type := c, Properties := props\<rparr>
      in bindA (addTraitRef trait) (\<lambda>_. retA trait))) bs rest ?trait"
    unfolding Let_def by (rule reads3_then) (intro reads3_add reads3_ret)
  have ne: "c @ bs @ rest \<noteq> []" using assms(6) by auto
  have "reads3 (decodeTrait ?u) (t @ bs) rest ?trait"
    unfolding decodeTrait_def if_not_P [OF h(3)]
    by (rule reads3_bind [where x = c]) (rule reads3_wrap [OF reads3_string [OF assms(1,2) ne]], rule p)
  then show ?thesis using h(4,5) by (intro exI [of _ ?trait]) (simp add: NewTrait_def)
qed

lemma Object_codes:
  assumes ms: "\<forall>(k, r, e, n) \<in> set ms. codes r e n \<and> length k < 2 ^ 28" "distinct (map fst ms)" and c: "length c < 2 ^ 28" and n: "length ms < 2 ^ 25"
  shows "codes (EncodeAmf3Object c (map (\<lambda>(k, r, e, n). (k, r)) ms) True) (if ms = [] then c = [] else fst (snd (snd (last (in_key_order ms)))))
     (AObject (map (\<lambda>(k, r, e, n). (k, n)) (in_key_order ms)))"
proof -
  let ?ms = "in_key_order ms" and ?obj = "map (\<lambda>(k, r, e, n). (k, r)) ms" and ?ps = "sort (map fst ms)"
  have keys: "map fst ?obj = map fst ms" by (simp add: comp_def case_prod_unfold)
  have m1: "\<forall>(k, r, e, n) \<in> set ?ms. map_of ?obj k = Some r \<and> codes r e n"
  proof clarify
    fix k r e n assume "(k, r, e, n) \<in> set ?ms"
    then have g: "map_of ms k = Some (r, e, n)" by (rule in_key_order_get)
    have "?obj = map (\<lambda>(k, x). (k, fst x)) ms" by (simp add: case_prod_unfold)
    moreover have "map_of (map (\<lambda>(k, x). (k, fst x)) ms) k = Some r" using g by (simp add: map_of_map)
    ultimately have "map_of ?obj k = Some r" by (simp only:)
    moreover have "codes r e n" using ms(1) map_of_SomeD [OF g] by auto
    ultimately show "map_of ?obj k = Some r \<and> codes r e n" ..
  qed
  have m2: "distinct (map fst ?ms)" using ms(2) by simp
  from encodeSealed_codes [OF m1 m2] obtain vs where vs: "encodeSealed (map fst ?ms) ?obj = Inr vs" "?ms \<noteq> [] \<longrightarrow> vs \<noteq> []"
      and rd: "\<forall>rest d acc. (rest \<noteq> [] \<or> ?ms = [] \<or> \<not> fst (snd (snd (last ?ms)))) \<and> length vs \<le> d \<and> fst ` set acc \<inter> fst ` set ?ms = {} \<longrightarrow>
        reads3 (decodeProps (decAmf3 d) (map fst ?ms) acc) vs rest (acc @ map (\<lambda>(k, r, e, n). (k, n)) ?ms)"
    by (elim exE conjE)
  note vs = vs [unfolded in_key_order_keys]
  have l: "\<forall>p \<in> set ?ps. length p < 2 ^ 28" "length ?ps < 2 ^ 25" using ms(1) n by auto
  obtain h where h: "encodeAmf3Uint29 (trait29 (length ?ps)) = Inr h"
    using encodeU29_range [of "trait29 (length ?ps)"] trait29(1) [OF l(2)] by (auto simp: word_le_nat_alt)
  obtain t where t: "encodeAmf3Utf8 c = Inr t" using encodeUtf8_total [OF c] by blast
  obtain ps where ps: "encodeTraitProps ?ps = Inr ps" using encodeTraitProps_reads [OF l(1)] by blast
  show ?thesis
  proof (rule codesI [where m = AMF3ObjectMarker and bs = "h @ (t @ ps) @ vs"])
    show "EncodeAmf3Object c ?obj True = Inr (AMF3ObjectMarker # h @ (t @ ps) @ vs)"
      using h t ps vs(1) unfolding EncodeAmf3Object_def keys trait29_def Let_def by (simp add: marker_if_def)
    fix rest :: bytes and k assume r: "rest \<noteq> [] \<or> \<not> (if ms = [] then c = [] else fst (snd (snd (last ?ms))))" "length (h @ (t @ ps) @ vs) \<le> k"
    have ne: "vs @ rest \<noteq> [] \<or> ?ps = [] \<and> c \<noteq> []" using r(1) vs(2) by auto
    obtain trait where tr: "reads3 (decodeTrait (drop_bit 1 (trait29 (length ?ps)))) (t @ ps) (vs @ rest) trait" "\<not> Externalizable trait" "\<not> Dynamic trait" "Properties trait = ?ps"
      using decodeTrait_reads [OF t c ps l ne] by blast
    have v: "reads3 (decodeProps (decAmf3 k) ?ps []) vs rest (map (\<lambda>(k, r, e, n). (k, n)) ?ms)"
      using rd [rule_format, of rest k "[]"] r unfolding in_key_order_keys by (simp split: if_splits)
    let ?F = "\<lambda>trait. bindA (addObjectRef ANil) (\<lambda>_. if Externalizable trait then decodeExternalizable (decAmf3 k) (trait_Type trait)
        else bindA (decodeProps (decAmf3 k) (Properties trait) []) (\<lambda>obj.
          bindA (if Dynamic trait then (\<lambda>s. decodeDynamic (Suc (length (amf_rd s))) (decAmf3 k) obj s) else retA obj) (\<lambda>obj. retA (AObject obj))))"
    let ?y = "AObject (map (\<lambda>(k, r, e, n). (k, n)) ?ms)"
    have "reads3 (?F trait) vs rest ?y" using tr(2-4) by (simp only: if_False bindA_retA) (intro reads3_add reads3_map v)
    then have b: "reads3 (bindA (decodeTrait (drop_bit 1 (trait29 (length ?ps)))) ?F) ((t @ ps) @ vs) rest ?y"
      by (rule reads3_bind [where x = trait, rotated]) (rule tr(1))
    show "reads3 (decMarked3 (decAmf3 k) AMF3ObjectMarker) (h @ (t @ ps) @ vs) rest ?y"
      unfolding decMarked3_def DecodeAmf3Object_def AssertMarker_def
      using reads3_bind [OF reads3_wrap [OF reads3_ref [OF h trait29(2) [OF l(2)]]],
        of "\<lambda>(isRef, refVal). if isRef then lookupA objectRefs (drop_bit 1 refVal) else bindA (decodeTrait refVal) ?F" "(t @ ps) @ vs" rest ?y] b
      by (simp del: append_assoc)
  qed
qed

section \<open>What a value reads back as\<close>

text \<open>
  An integer is written as an unsigned number of 29 bits and read as a signed one: from \<open>2 ^ 28\<close> on it comes back negative. Integers that are
  negative or too large are floats.
\<close>

definition norm_int3 :: "int \<Rightarrow> amfval" where
  "norm_int3 n =
     (if 0 \<le> n \<and> n < 2 ^ 28 then AInt n else if 0 \<le> n \<and> n < 2 ^ 29 then AInt (n - 2 ^ 29) else ANumber (float64_of_int n))"

text \<open>The members of an object come back in the order of their names, and without the type.\<close>

fun norm3 :: "amfval \<Rightarrow> amfval"
  and normMembers3 :: "(bytes \<times> amfval) list \<Rightarrow> (bytes \<times> amfval) list"
  and normElements3 :: "amfval list \<Rightarrow> amfval list"
where
  "norm3 (AInt n) = norm_int3 n"
| "norm3 (ABytes xs) = AArray (map (\<lambda>x. AInt (uint x)) xs)"
| "norm3 (AArray xs) = AArray (normElements3 xs)"
| "norm3 (AObject kvs) = AObject (in_key_order (normMembers3 kvs))"
| "norm3 (ATyped c kvs) = AObject (in_key_order (normMembers3 kvs))"
| "norm3 (ATime t) = ATime (unix_of_millis (millis_of_unix t))"
| "norm3 v = v"
| "normMembers3 [] = []"
| "normMembers3 ((k, v) # kvs) = (k, norm3 v) # normMembers3 kvs"
| "normElements3 [] = []"
| "normElements3 (v # vs) = norm3 v # normElements3 vs"

fun wf3 :: "amfval \<Rightarrow> bool"
  and wfMembers3 :: "(bytes \<times> amfval) list \<Rightarrow> bool"
  and wfElements3 :: "amfval list \<Rightarrow> bool"
where
  "wf3 (AString x) \<longleftrightarrow> length x < 2 ^ 28"
| "wf3 (AArray xs) \<longleftrightarrow> length xs < 2 ^ 28 \<and> wfElements3 xs"
| "wf3 (ABytes xs) \<longleftrightarrow> length xs < 2 ^ 28"
| "wf3 (AObject kvs) \<longleftrightarrow> length kvs < 2 ^ 25 \<and> distinct (map fst kvs) \<and> wfMembers3 kvs"
| "wf3 (ATyped c kvs) \<longleftrightarrow> length c < 2 ^ 28 \<and> length kvs < 2 ^ 25 \<and> distinct (map fst kvs) \<and> wfMembers3 kvs"
| "wf3 _ \<longleftrightarrow> True"
| "wfMembers3 [] \<longleftrightarrow> True"
| "wfMembers3 ((k, v) # kvs) \<longleftrightarrow> length k < 2 ^ 28 \<and> wf3 v \<and> wfMembers3 kvs"
| "wfElements3 [] \<longleftrightarrow> True"
| "wfElements3 (v # vs) \<longleftrightarrow> wf3 v \<and> wfElements3 vs"

text \<open>The encoding ends with an empty string.\<close>

fun ends3 :: "amfval \<Rightarrow> bool"
  and endsMembers3 :: "(bytes \<times> amfval) list \<Rightarrow> (bytes \<times> bool) list"
  and endsElements3 :: "amfval list \<Rightarrow> bool"
where
  "ends3 (AString x) \<longleftrightarrow> x = []"
| "ends3 (AArray xs) \<longleftrightarrow> endsElements3 xs"
| "ends3 (ABytes xs) \<longleftrightarrow> xs = []"
| "ends3 (AObject kvs) \<longleftrightarrow> kvs = [] \<or> snd (last (in_key_order (endsMembers3 kvs)))"
| "ends3 (ATyped c kvs) \<longleftrightarrow> (if kvs = [] then c = [] else snd (last (in_key_order (endsMembers3 kvs))))"
| "ends3 _ \<longleftrightarrow> False"
| "endsMembers3 [] = []"
| "endsMembers3 ((k, v) # kvs) = (k, ends3 v) # endsMembers3 kvs"
| "endsElements3 [] \<longleftrightarrow> True"
| "endsElements3 (v # vs) \<longleftrightarrow> (if vs = [] then ends3 v else endsElements3 vs)"

lemma members3_map:
  "EncodeAmf3_members kvs = map (\<lambda>(k, v). (k, EncodeAmf3 v)) kvs" "normMembers3 kvs = map (\<lambda>(k, v). (k, norm3 v)) kvs"
  "endsMembers3 kvs = map (\<lambda>(k, v). (k, ends3 v)) kvs" "wfMembers3 kvs \<longleftrightarrow> (\<forall>(k, v) \<in> set kvs. length k < 2 ^ 28 \<and> wf3 v)"
  by (induction kvs) auto

lemma elements3_map:
  "EncodeAmf3_all vs = map EncodeAmf3 vs" "normElements3 vs = map norm3 vs" "endsElements3 vs \<longleftrightarrow> vs = [] \<or> ends3 (last vs)"
  "wfElements3 vs \<longleftrightarrow> (\<forall>v \<in> set vs. wf3 v)"
  by (induction vs) auto

lemma sint_small: "- (2 ^ 31) \<le> n \<Longrightarrow> n < 2 ^ 31 \<Longrightarrow> sint (word_of_int n :: u32) = n"
  by (simp add: signed_of_int signed_take_bit_int_eq_self)

lemma Double_codes: "codes (Inr (EncodeAmf3Double v True)) False (ANumber v)"
proof (rule codesI [where m = AMF3DoubleMarker and bs = "be_bytes 8 v"])
  show "Inr (EncodeAmf3Double v True) = Inr (AMF3DoubleMarker # be_bytes 8 v)" by (simp add: EncodeAmf3Double_def marker_if_def)
  fix rest :: bytes and k
  have "reads3 (wrapA msg (binary_Read 8)) (be_bytes 8 v) rest v" for msg
    by (intro reads3_wrap reads3_reads reads_binary) (simp_all add: be_word_bytes_full)
  then show "reads3 (decMarked3 (decAmf3 k) AMF3DoubleMarker) (be_bytes 8 v) rest (ANumber v)"
    by (simp add: decMarked3_def DecodeAmf3Double_def AssertMarker_def reads3_map)
qed

lemma Int_codes: "codes (EncodeAmf3Int n) False (norm_int3 n)"
proof (cases "0 \<le> n \<and> n < 2 ^ 29")
  case True
  let ?u = "word_of_int n :: u32"
  obtain m where m: "n = int m" "m < 2 ^ 29" using True by (metis nonneg_int_cases of_nat_less_numeral_power_cancel_iff)
  have "unat ?u < 2 ^ 29" using m unat_29 [OF m(2)] by simp
  then obtain bs where bs: "encodeAmf3Uint29 ?u = Inr bs" using encodeU29_range [of ?u] by (auto simp: word_le_nat_alt)
  have s: "sint ?u = n" "sint (?u - 0x20000000) = n - 2 ^ 29"
    using sint_small [of n] sint_small [of "n - 2 ^ 29"] True by simp_all
  have v: "AInt (if sint ?u > 0xfffffff then sint (?u - 0x20000000) else sint ?u) = norm_int3 n"
    using True unfolding s by (auto simp: norm_int3_def)
  show ?thesis
  proof (rule codesI [where m = AMF3IntegerMarker and bs = bs])
    show "EncodeAmf3Int n = Inr (AMF3IntegerMarker # bs)" using bs True by (simp add: EncodeAmf3Int_def EncodeAmf3Integer_def marker_if_def)
    fix rest :: bytes and k
    show "reads3 (decMarked3 (decAmf3 k) AMF3IntegerMarker) bs rest (norm_int3 n)"
      using reads3_map [OF reads3_reads [OF reads_U29 [OF bs]], of "\<lambda>u29. AInt (if sint u29 > 0xfffffff then sint (u29 - 0x20000000) else sint u29)" rest]
      unfolding v by (simp add: decMarked3_def DecodeAmf3Integer_def AssertMarker_def)
  qed
next
  case False
  then have "EncodeAmf3Int n = Inr (EncodeAmf3Double (float64_of_int n) True)" "norm_int3 n = ANumber (float64_of_int n)"
    by (auto simp: EncodeAmf3Int_def norm_int3_def)
  with Double_codes show ?thesis by simp
qed

lemma String_codes:
  assumes "length x < 2 ^ 28"
  shows "codes (EncodeAmf3String x True) (x = []) (AString x)"
proof -
  obtain bs where bs: "encodeAmf3Utf8 x = Inr bs" using encodeUtf8_total [OF assms] by blast
  show ?thesis
  proof (rule codesI [where m = AMF3StringMarker and bs = bs])
    show "EncodeAmf3String x True = Inr (AMF3StringMarker # bs)" using bs by (simp add: EncodeAmf3String_def marker_if_def)
    fix rest :: bytes and k assume "rest \<noteq> [] \<or> x \<noteq> []"
    then have "x @ rest \<noteq> []" by auto
    from reads3_map [OF reads3_string [OF bs assms this], of AString]
    show "reads3 (decMarked3 (decAmf3 k) AMF3StringMarker) bs rest (AString x)" by (simp add: decMarked3_def)
  qed
qed

lemma Date_codes: "codes (Inr (EncodeAmf3Date t True)) False (ATime (unix_of_millis (millis_of_unix t)))"
proof (rule codesI [where m = AMF3DateMarker and bs = "[1] @ be_bytes 8 (millis_of_unix t)"])
  show "Inr (EncodeAmf3Date t True) = Inr (AMF3DateMarker # [1] @ be_bytes 8 (millis_of_unix t))"
    by (simp add: EncodeAmf3Date_def marker_if_def)
  fix rest :: bytes and k
  let ?m = "millis_of_unix t" and ?F = "\<lambda>t. bindA (addObjectRef (ATime (unix_of_millis t))) (\<lambda>_. retA (ATime (unix_of_millis t)))"
  have "reads3 (wrapA msg (binary_Read 8)) (be_bytes 8 ?m) rest ?m" for msg
    by (intro reads3_wrap reads3_reads reads_binary) (simp_all add: be_word_bytes_full)
  then have d: "reads3 (bindA (wrapA msg (binary_Read 8)) ?F) (be_bytes 8 ?m) rest (ATime (unix_of_millis ?m))" for msg
    by (rule reads3_then) (intro reads3_add reads3_ret)
  have "encodeAmf3Uint29 (odd29 0) = Inr [1]" by (simp add: encodeAmf3Uint29_def odd29_def)
  moreover have "odd29 0 AND 1 \<noteq> 0" "drop_bit 1 (odd29 0) = 0" using odd29 [of 0] by simp_all
  ultimately have r: "reads3 (wrapA msg decodeReferenceInt) [1] (be_bytes 8 ?m @ rest) (False, 0)" for msg
    using reads3_wrap [OF reads3_ref, of "odd29 0" "[1]"] by metis
  show "reads3 (decMarked3 (decAmf3 k) AMF3DateMarker) ([1] @ be_bytes 8 ?m) rest (ATime (unix_of_millis ?m))"
    unfolding decMarked3_def DecodeAmf3Date_def AssertMarker_def by (simp, rule reads3_bind [OF r, simplified]) (simp add: d)
qed

lemma marker_codes:
  "codes (Inr (EncodeAmf3Null True)) False ANil" "codes (Inr (EncodeAmf3True True)) False (ABool True)" "codes (Inr (EncodeAmf3False True)) False (ABool False)"
  by (rule codesI [where bs = "[]"], simp add: EncodeAmf3Null_def EncodeAmf3True_def EncodeAmf3False_def marker_if_def,
      simp add: decMarked3_def DecodeAmf3Null_def DecodeAmf3True_def DecodeAmf3False_def AssertMarker_def reads3_def)+

lemma members_codes:
  assumes "\<forall>(k, v) \<in> set kvs. codes (EncodeAmf3 v) (ends3 v) (norm3 v) \<and> length k < 2 ^ 28" and "distinct (map fst kvs)" and "length c < 2 ^ 28" and "length kvs < 2 ^ 25"
  shows "codes (EncodeAmf3Object c (EncodeAmf3_members kvs) True) (if kvs = [] then c = [] else snd (last (in_key_order (endsMembers3 kvs))))
     (AObject (in_key_order (normMembers3 kvs)))"
proof -
  let ?ms = "map (\<lambda>(k, v). (k, EncodeAmf3 v, ends3 v, norm3 v)) kvs"
  have "\<forall>(k, r, e, n) \<in> set ?ms. codes r e n \<and> length k < 2 ^ 28" using assms(1) by auto
  moreover have "distinct (map fst ?ms)" using assms(2) by (simp add: comp_def case_prod_unfold)
  ultimately have "codes (EncodeAmf3Object c (map (\<lambda>(k, r, e, n). (k, r)) ?ms) True)
      (if ?ms = [] then c = [] else fst (snd (snd (last (in_key_order ?ms))))) (AObject (map (\<lambda>(k, r, e, n). (k, n)) (in_key_order ?ms)))"
    by (rule Object_codes) (use assms(3,4) in simp_all)
  moreover have "map (\<lambda>(k, r, e, n). (k, r)) ?ms = EncodeAmf3_members kvs" by (simp add: members3_map comp_def case_prod_unfold)
  moreover have "in_key_order ?ms = map (\<lambda>(k, v). (k, EncodeAmf3 v, ends3 v, norm3 v)) (in_key_order kvs)" by (rule in_key_order_map)
  moreover have "in_key_order (endsMembers3 kvs) = map (\<lambda>(k, v). (k, ends3 v)) (in_key_order kvs)"
    "in_key_order (normMembers3 kvs) = map (\<lambda>(k, v). (k, norm3 v)) (in_key_order kvs)"
    unfolding members3_map by (rule in_key_order_map)+
  ultimately show ?thesis by (cases "kvs = []") (simp_all add: last_map comp_def case_prod_unfold)
qed

lemma EncodeAmf3_codes:
  "wf3 v \<Longrightarrow> codes (EncodeAmf3 v) (ends3 v) (norm3 v)"
  "wfMembers3 kvs \<Longrightarrow> \<forall>(k, v) \<in> set kvs. codes (EncodeAmf3 v) (ends3 v) (norm3 v) \<and> length k < 2 ^ 28"
  "wfElements3 vs \<Longrightarrow> \<forall>v \<in> set vs. codes (EncodeAmf3 v) (ends3 v) (norm3 v)"
proof (induction v and kvs and vs rule: EncodeAmf3_EncodeAmf3_members_EncodeAmf3_all.induct)
  case (6 xs)
  let ?xs = "map (\<lambda>v. (EncodeAmf3 v, ends3 v, norm3 v)) xs"
  have "\<forall>(r, e, n) \<in> set ?xs. codes r e n" using 6 by auto
  from Array_codes [OF this] 6 show ?case by (cases "xs = []") (simp_all add: elements3_map last_map comp_def)
next
  case (7 xs)
  let ?xs = "map (\<lambda>x. (EncodeAmf3Int (uint x), False, norm_int3 (uint x))) xs"
  have "\<forall>(r, e, n) \<in> set ?xs. codes r e n" using Int_codes by auto
  moreover have "norm_int3 (uint x) = AInt (uint x)" for x :: byte using uint_lt2p [of x] by (auto simp: norm_int3_def)
  ultimately show ?case using Array_codes [of ?xs] 7 by (cases "xs = []") (simp_all add: last_map comp_def)
next
  case (8 kvs)
  then show ?case using members_codes [of kvs "[]"] by (auto split: if_splits)
next
  case (10 c kvs)
  then show ?case using members_codes [of kvs c] by auto
qed (simp_all add: marker_codes String_codes Int_codes Double_codes Date_codes)

text \<open>
  C18: an AMF3 value that the format can represent is encoded, and decoded back from whatever bytes follow it, which are left unread; unless nothing follows and it ends
  with an empty string, which the decoder cannot read at the end of its input. Read back, the members of an object are sorted and its type is lost, and an integer of
  29 bits or a byte slice is what \<open>norm3\<close> makes of it.
\<close>

theorem amf3_roundtrip:
  assumes "wf3 v" and "rest \<noteq> [] \<or> \<not> ends3 v"
  shows "\<exists>bs. EncodeAmf3 v = Inr bs \<and> (\<forall>s. amf_rd s = bs @ rest \<longrightarrow> (\<exists>s'. DecodeAmf3 s = (Inr (norm3 v), s') \<and> amf_rd s' = rest))"
proof -
  obtain bs where bs: "EncodeAmf3 v = Inr bs" "\<And>rest k. rest \<noteq> [] \<or> \<not> ends3 v \<Longrightarrow> length bs \<le> k \<Longrightarrow> reads3 (decAmf3 k) bs rest (norm3 v)"
    using EncodeAmf3_codes(1) [OF assms(1)] by (auto elim: codesE)
  have "\<exists>s'. DecodeAmf3 s = (Inr (norm3 v), s') \<and> amf_rd s' = rest" if "amf_rd s = bs @ rest" for s
    using bs(2) [OF assms(2), of "Suc (length (amf_rd s))"] that unfolding DecodeAmf3_def reads3_def by simp
  with bs(1) show ?thesis by blast
qed

theorem amf3_roundtrip_witness:
  "\<exists>bs. EncodeAmf3 (ATyped (gostr ''p'') [(gostr ''b'', AInt (2 ^ 28)), (gostr ''a'', AString [])]) = Inr bs \<and>
     fst (DecodeAmf3 (NewDecoder bs)) = Inr (AObject [(gostr ''a'', AString []), (gostr ''b'', AInt (- (2 ^ 28)))])"
proof -
  let ?v = "ATyped (gostr ''p'') [(gostr ''b'', AInt (2 ^ 28)), (gostr ''a'', AString [])]"
  have "wf3 ?v" by (simp add: gostr_def)
  moreover have "\<not> ends3 ?v" by (simp add: gostr_def in_key_order_def)
  moreover have "norm3 ?v = AObject [(gostr ''a'', AString []), (gostr ''b'', AInt (- (2 ^ 28)))]"
    by (simp add: gostr_def in_key_order_def norm_int3_def)
  ultimately obtain bs where "EncodeAmf3 ?v = Inr bs"
      "\<And>s. amf_rd s = bs @ [] \<Longrightarrow> \<exists>s'. DecodeAmf3 s = (Inr (AObject [(gostr ''a'', AString []), (gostr ''b'', AInt (- (2 ^ 28)))]), s') \<and> amf_rd s' = []"
    using amf3_roundtrip [of ?v "[]"] by auto
  from this(1) this(2) [of "NewDecoder bs"] show ?thesis by (auto simp: NewDecoder_def)
qed

end
