(* ===== verification/Handshake.thy ===== *)
theory Handshake
  imports ChunkWire Pio
begin

text \<open>
  \<^verbatim>\<open>src/protocol/rtmp/core/handshake.go\<close>: the exchange of 1 + 1536 + 1536 bytes in each direction that opens an RTMP
  connection, in its plain form and in the form with digests.

  HMAC-SHA256 comes from the standard library: it is the argument \<open>hmac\<close>, a function of the key and the message, and
  what is used of it is that its results have 32 bytes. What \<^verbatim>\<open>rand.Read\<close> stores is an argument too. The deadlines set
  on the connection only decide when the transport reports an error.
\<close>

section \<open>Keys\<close>

definition hs_key_tail :: bytes where
  "hs_key_tail =
     [0xF0, 0xEE, 0xC2, 0x4A, 0x80, 0x68, 0xBE, 0xE8, 0x2E, 0x00, 0xD0, 0xD1, 0x02, 0x9E, 0x7E, 0x57, 0x6E, 0xEC, 0x5D, 0x2D,
      0x29, 0x80, 0x6F, 0xAB, 0x93, 0xB8, 0xE6, 0x36, 0xCF, 0xEB, 0x31, 0xAE]"

definition hsClientFullKey :: bytes where
  "hsClientFullKey = gostr ''Genuine Adobe Flash Player 001'' @ hs_key_tail"

definition hsServerFullKey :: bytes where
  "hsServerFullKey = gostr ''Genuine Adobe Flash Media Server 001'' @ hs_key_tail"

definition hsClientPartialKey :: bytes where
  "hsClientPartialKey = take 30 hsClientFullKey"

definition hsServerPartialKey :: bytes where
  "hsServerPartialKey = take 36 hsServerFullKey"

section \<open>Digests\<close>

type_synonym hmac = "bytes \<Rightarrow> bytes \<Rightarrow> bytes"

definition hsMakeDigest :: "hmac \<Rightarrow> bytes \<Rightarrow> bytes \<Rightarrow> int \<Rightarrow> bytes res" where
  "hsMakeDigest hmac key src gap =
     (if gap \<le> 0 then Inr (hmac key src)
      else bindR (slice src 0 (nat gap)) (\<lambda>a.
           bindR (slice src (nat gap + 32) (length src)) (\<lambda>b. Inr (hmac key (a @ b)))))"

fun hsCalcDigestPos_loop :: "bytes \<Rightarrow> nat \<Rightarrow> nat list \<Rightarrow> nat \<Rightarrow> nat res" where
  "hsCalcDigestPos_loop p base [] pos = Inr pos"
| "hsCalcDigestPos_loop p base (i # is) pos =
     bindR (index_at p (base + i)) (\<lambda>b. hsCalcDigestPos_loop p base is (pos + unat b))"

definition hsCalcDigestPos :: "bytes \<Rightarrow> nat \<Rightarrow> nat res" where
  "hsCalcDigestPos p base =
     bindR (hsCalcDigestPos_loop p base [0..<4] 0) (\<lambda>pos. Inr (pos mod 728 + base + 4))"

definition hsFindDigest :: "hmac \<Rightarrow> bytes \<Rightarrow> bytes \<Rightarrow> nat \<Rightarrow> int res" where
  "hsFindDigest hmac p key base =
     bindR (hsCalcDigestPos p base) (\<lambda>gap.
     bindR (hsMakeDigest hmac key p (int gap)) (\<lambda>digest.
     bindR (slice p gap (gap + 32)) (\<lambda>d. Inr (if d \<noteq> digest then -1 else int gap))))"

text \<open>The result is \<^verbatim>\<open>ok\<close> and \<^verbatim>\<open>digest\<close>.\<close>

definition hsParse1 :: "hmac \<Rightarrow> bytes \<Rightarrow> bytes \<Rightarrow> bytes \<Rightarrow> (bool \<times> bytes) res" where
  "hsParse1 hmac p peerkey key =
     bindR (hsFindDigest hmac p peerkey 772) (\<lambda>pos.
     bindR (if pos = -1 then hsFindDigest hmac p peerkey 8 else Inr pos) (\<lambda>pos.
       if pos = -1 then Inr (False, [])
       else bindR (slice p (nat pos) (nat pos + 32)) (\<lambda>d.
            bindR (hsMakeDigest hmac key d (-1)) (\<lambda>digest. Inr (True, digest)))))"

text \<open>\<open>rnd\<close> are the random bytes; the arrays are changed in place and returned here.\<close>

definition hsCreate01 :: "hmac \<Rightarrow> bytes \<Rightarrow> bytes \<Rightarrow> u32 \<Rightarrow> u32 \<Rightarrow> bytes \<Rightarrow> bytes res" where
  "hsCreate01 hmac rnd p time ver key =
     (case p of
        [] \<Rightarrow> Inl (Panic IndexOutOfRange)
      | _ # p1 \<Rightarrow>
          bindR (slice p1 8 (length p1)) (\<lambda>_.
          bindR (put_range PutU32BE (copy_at p1 8 rnd) 0 4 time) (\<lambda>p1.
          bindR (put_range PutU32BE p1 4 8 ver) (\<lambda>p1.
          bindR (hsCalcDigestPos p1 8) (\<lambda>gap.
          bindR (hsMakeDigest hmac key p1 (int gap)) (\<lambda>digest.
          bindR (slice p1 gap (length p1)) (\<lambda>_.
            Inr (3 # copy_at p1 gap digest))))))))"

definition hsCreate2 :: "hmac \<Rightarrow> bytes \<Rightarrow> bytes \<Rightarrow> bytes \<Rightarrow> bytes res" where
  "hsCreate2 hmac rnd p key =
     (let p = copy_at p 0 rnd; gap = int (length p) - 32
      in bindR (hsMakeDigest hmac key p gap) (\<lambda>digest.
           if gap < 0 then Inl (Panic SliceOutOfRange) else Inr (copy_at p (nat gap) digest)))"

section \<open>The two sides\<close>

text \<open>A step on the transport, followed by \<^verbatim>\<open>if err != nil { return }\<close>.\<close>

definition on_rw :: "(ReadWriter \<Rightarrow> go_error option \<times> ReadWriter) \<Rightarrow> Conn \<Rightarrow> (Conn \<Rightarrow> exn option \<times> Conn) \<Rightarrow> exn option \<times> Conn" where
  "on_rw f conn k =
     (case f (conn_rw conn) of
        (Some e, rw) \<Rightarrow> (Some (Err e), conn\<lparr>conn_rw := rw\<rparr>)
      | (None, rw) \<Rightarrow> k (conn\<lparr>conn_rw := rw\<rparr>))"

text \<open>\<^verbatim>\<open>io.ReadFull\<close>: the \<^verbatim>\<open>Read\<close> of the transport reads the whole slice or reports an error.\<close>

definition read_full :: "nat \<Rightarrow> Conn \<Rightarrow> (bytes \<Rightarrow> Conn \<Rightarrow> exn option \<times> Conn) \<Rightarrow> exn option \<times> Conn" where
  "read_full n conn k =
     (case rw_Read n (conn_rw conn) of
        (bs, Some e, rw) \<Rightarrow> (Some (Err e), conn\<lparr>conn_rw := rw\<rparr>)
      | (bs, None, rw) \<Rightarrow> k bs (conn\<lparr>conn_rw := rw\<rparr>))"

definition or_panic :: "'a res \<Rightarrow> Conn \<Rightarrow> ('a \<Rightarrow> exn option \<times> Conn) \<Rightarrow> exn option \<times> Conn" where
  "or_panic r conn k = (case r of Inl e \<Rightarrow> (Some e, conn) | Inr x \<Rightarrow> k x)"

definition HandshakeClient :: "Conn \<Rightarrow> exn option \<times> Conn" where
  "HandshakeClient conn =
     on_rw (rw_Write (3 # replicate 1536 0)) conn (\<lambda>conn.
     on_rw rw_Flush conn (\<lambda>conn.
     read_full (1536 * 2 + 1) conn (\<lambda>S0S1S2 conn.
     or_panic (slice S0S1S2 1 (1536 + 1)) conn (\<lambda>S1.
     or_panic (bindR (slice S1 4 8) U32BE) conn (\<lambda>ver.
       let C2 = (if ver \<noteq> 0 then S1 else S1)
       in on_rw (rw_Write C2) conn (\<lambda>conn. (None, conn)))))))"

text \<open>What the server answers to C1; \<open>rnd1\<close> and \<open>rnd2\<close> are the random bytes. C2 has not been read yet when it is copied.\<close>

definition server_answer :: "hmac \<Rightarrow> bytes \<Rightarrow> bytes \<Rightarrow> bytes \<Rightarrow> bytes res" where
  "server_answer hmac rnd1 rnd2 C1 =
     (let S0S1 = 3 # replicate 1536 0; S2 = replicate 1536 0; C2 = replicate 1536 0
      in bindR (bindR (slice C1 0 4) U32BE) (\<lambda>clitime.
         bindR (bindR (slice C1 4 8) U32BE) (\<lambda>cliver.
           if cliver \<noteq> 0
           then bindR (hsParse1 hmac C1 hsClientPartialKey hsServerFullKey) (\<lambda>(ok, digest).
                  if \<not> ok then Inl (Err (Errorf ''rtmp: handshake server: C1 invalid''))
                  else bindR (hsCreate01 hmac rnd1 S0S1 clitime 0x0d0e0a0d hsServerPartialKey) (\<lambda>S0S1.
                       bindR (hsCreate2 hmac rnd2 S2 digest) (\<lambda>S2. Inr (S0S1 @ S2))))
           else Inr (copy_at S0S1 1 C2 @ copy_at S2 0 C1))))"

definition HandshakeServer :: "hmac \<Rightarrow> bytes \<Rightarrow> bytes \<Rightarrow> Conn \<Rightarrow> exn option \<times> Conn" where
  "HandshakeServer hmac rnd1 rnd2 conn =
     read_full (1536 + 1) conn (\<lambda>C0C1 conn.
       if hd C0C1 \<noteq> 3 then (Some (Err (Errorf ''rtmp: handshake version=%d invalid'')), conn)
       else or_panic (server_answer hmac rnd1 rnd2 (tl C0C1)) conn (\<lambda>S0S1S2.
            on_rw (rw_Write S0S1S2) conn (\<lambda>conn.
            on_rw rw_Flush conn (\<lambda>conn.
            read_full 1536 conn (\<lambda>_ conn. (None, conn))))))"

section \<open>Digests are found where they are put\<close>

text \<open>The size of a SHA-256 result.\<close>

definition hmac32 :: "hmac \<Rightarrow> bool" where
  "hmac32 hmac \<longleftrightarrow> (\<forall>k m. length (hmac k m) = 32)"

lemma hmac32_length [simp]: "hmac32 hmac \<Longrightarrow> length (hmac k m) = 32"
  by (simp add: hmac32_def)

text \<open>The position of a digest, and a packet with a valid one.\<close>

definition digest_pos :: "bytes \<Rightarrow> nat \<Rightarrow> nat" where
  "digest_pos p base = sum_list (map unat (take 4 (drop base p))) mod 728 + base + 4"

definition digest_at :: "hmac \<Rightarrow> bytes \<Rightarrow> bytes \<Rightarrow> nat \<Rightarrow> bool" where
  "digest_at hmac key p base \<longleftrightarrow>
     (let gap = digest_pos p base in take 32 (drop gap p) = hmac key (take gap p @ drop (gap + 32) p))"

lemma digest_pos_bounds: "base + 4 \<le> digest_pos p base" "digest_pos p base < base + 732"
  by (simp_all add: digest_pos_def)

lemma hsCalcDigestPos_eq:
  assumes "base + 4 \<le> length p"
  shows "hsCalcDigestPos p base = Inr (digest_pos p base)"
proof -
  have "take 4 (drop base p) = [p ! base, p ! (base + 1), p ! (base + 2), p ! (base + 3)]"
    using assms by (intro nth_equalityI) (auto simp: nth_Cons split: nat.splits simp: numeral_eq_Suc)
  moreover have "[0..<4] = [0, 1, 2, 3::nat]" by (simp add: upt_rec)
  ultimately show ?thesis
    using assms by (simp add: hsCalcDigestPos_def digest_pos_def index_at_def add.assoc)
qed

lemma hsMakeDigest_eq:
  "0 < gap \<Longrightarrow> gap + 32 \<le> length p \<Longrightarrow> hsMakeDigest hmac key p (int gap) = Inr (hmac key (take gap p @ drop (gap + 32) p))"
  by (simp add: hsMakeDigest_def slice_def)

lemma hsFindDigest_eq:
  assumes "base + 764 \<le> length p"
  shows "hsFindDigest hmac p key base = Inr (if digest_at hmac key p base then int (digest_pos p base) else -1)"
  using digest_pos_bounds [where base = base and p = p] assms
  by (simp add: hsFindDigest_def hsCalcDigestPos_eq hsMakeDigest_eq slice_def digest_at_def Let_def)

lemma hsParse1_eq:
  assumes "length p = 1536"
  shows "hsParse1 hmac p peerkey key =
    Inr (if digest_at hmac peerkey p 772 then (True, hmac key (take 32 (drop (digest_pos p 772) p)))
         else if digest_at hmac peerkey p 8 then (True, hmac key (take 32 (drop (digest_pos p 8) p)))
         else (False, []))"
  using digest_pos_bounds [where base = 772 and p = p] digest_pos_bounds [where base = 8 and p = p] assms
  by (simp add: hsParse1_def hsFindDigest_eq hsMakeDigest_def slice_def)

lemma hsCreate01_digest:
  assumes len: "length p = 1537" and hmac: "hmac32 hmac"
  shows "\<exists>p1. hsCreate01 hmac rnd p time ver key = Inr (3 # p1) \<and> length p1 = 1536 \<and> digest_at hmac key p1 8 \<and>
     take 4 p1 = be_bytes 4 time \<and> take 4 (drop 4 p1) = be_bytes 4 ver"
proof -
  obtain b q where p: "p = b # q" and q: "length q = 1536" using len by (cases p) auto
  define q1 where "q1 = be_bytes 4 time @ be_bytes 4 ver @ drop 8 (copy_at q 8 rnd)"
  have l1: "length q1 = 1536" using q by (simp add: q1_def)
  define gap where "gap = digest_pos q1 8"
  have gap: "12 \<le> gap" "gap + 32 \<le> 1536" using digest_pos_bounds [where base = 8 and p = q1] by (simp_all add: gap_def)
  define d where "d = hmac key (take gap q1 @ drop (gap + 32) q1)"
  have d: "length d = 32" by (simp add: d_def hmac)
  define p1 where "p1 = take gap q1 @ d @ drop (gap + 32) q1"
  have cp: "copy_at q1 gap d = p1" using gap l1 d by (simp add: copy_at_def p1_def)
  have "hsCreate01 hmac rnd p time ver key = Inr (3 # p1)"
    using q gap l1 by (simp add: hsCreate01_def p slice_def u32.put_range_eq cp [symmetric] q1_def [symmetric] hsCalcDigestPos_eq
        gap_def [symmetric] hsMakeDigest_eq d_def [symmetric])
  moreover have l: "length p1 = 1536" using gap l1 d by (simp add: p1_def)
  moreover have t: "take 12 p1 = take 12 q1" using gap l1 by (simp add: p1_def)
  have "take 4 (drop 8 p1) = take 4 (drop 8 q1)" using arg_cong [OF t, of "drop 8"] by (simp add: drop_take)
  then have g: "digest_pos p1 8 = gap" by (simp add: digest_pos_def gap_def)
  have "take 32 (drop gap p1) = d" "take gap p1 = take gap q1" "drop (gap + 32) p1 = drop (gap + 32) q1"
    using gap l1 d by (simp_all add: p1_def)
  then have "digest_at hmac key p1 8" by (simp add: digest_at_def g d_def)
  moreover have "take 4 p1 = be_bytes 4 time" using arg_cong [OF t, of "take 4"] by (simp add: q1_def)
  moreover have "take 4 (drop 4 p1) = be_bytes 4 ver"
    using arg_cong [OF t, of "\<lambda>x. take 4 (drop 4 x)"] by (simp add: q1_def drop_take)
  ultimately show ?thesis by blast
qed

lemma hsCreate2_digest:
  assumes "length p = 1536" and "hmac32 hmac"
  shows "\<exists>q. length q = 1504 \<and> hsCreate2 hmac rnd p key = Inr (q @ hmac key q)"
  using assms by (intro exI [of _ "take 1504 (copy_at p 0 rnd)"])
    (simp add: hsCreate2_def Let_def hsMakeDigest_def slice_def copy_at_exact)

section \<open>The exchange\<close>

text \<open>A connection before the handshake, the bytes still to read from it, and the same connection with other input.\<close>

definition hs_fresh :: "Conn \<Rightarrow> bool" where
  "hs_fresh conn \<longleftrightarrow> readError (conn_rw conn) = None \<and> rw_good (conn_rw conn)"

definition hs_input :: "Conn \<Rightarrow> bytes" where
  "hs_input conn = rd_in (conn_rw conn)"

definition hs_feed :: "bytes \<Rightarrow> Conn \<Rightarrow> Conn" where
  "hs_feed bs conn = conn\<lparr>conn_rw := (conn_rw conn)\<lparr>rd_in := bs\<rparr>\<rparr>"

definition hs_stream :: "Conn \<Rightarrow> bytes" where
  "hs_stream conn = rw_stream (conn_rw conn)"

lemma hs_feed_simps [simp]:
  "hs_fresh (hs_feed bs conn) = hs_fresh conn" "hs_input (hs_feed bs conn) = bs" "hs_stream (hs_feed bs conn) = hs_stream conn"
  by (simp_all add: hs_fresh_def hs_input_def hs_feed_def hs_stream_def rw_good_def rw_stream_def)

text \<open>A run that sends \<open>out\<close>, leaves \<open>rest\<close> of the input and changes nothing but the transport; the rules follow the operations.\<close>

definition hs_done :: "Conn \<Rightarrow> bytes \<Rightarrow> bytes \<Rightarrow> exn option \<times> Conn \<Rightarrow> bool" where
  "hs_done conn out rest r \<longleftrightarrow>
     (\<exists>conn'. r = (None, conn') \<and> hs_fresh conn' \<and> hs_input conn' = rest \<and> hs_stream conn' = hs_stream conn @ out \<and>
        conn' = conn\<lparr>conn_rw := conn_rw conn'\<rparr>)"

lemma hs_done_return: "hs_fresh conn \<Longrightarrow> hs_input conn = rest \<Longrightarrow> hs_done conn [] rest (None, conn)"
  by (simp add: hs_done_def)

lemma hs_done_write:
  assumes "hs_fresh conn" and "hs_input conn = bs"
    and "\<And>c. hs_fresh c \<Longrightarrow> hs_input c = bs \<Longrightarrow> hs_done c out rest (k c)"
  shows "hs_done conn (p @ out) rest (on_rw (rw_Write p) conn k)"
proof -
  have g: "rw_good (conn_rw conn)" using assms(1) by (simp add: hs_fresh_def)
  obtain w where w: "rw_Write p (conn_rw conn) = (None, (conn_rw conn)\<lparr>wr := w\<rparr>)" "rw_good ((conn_rw conn)\<lparr>wr := w\<rparr>)"
      "bufw_stream w = bufw_stream (wr (conn_rw conn)) @ p"
    by (rule emitsE [OF emits_Write g])
  let ?c = "conn\<lparr>conn_rw := (conn_rw conn)\<lparr>wr := w\<rparr>\<rparr>"
  have "hs_fresh ?c" "hs_input ?c = bs" "hs_stream ?c = hs_stream conn @ p"
    using w assms(1,2) by (simp_all add: hs_fresh_def hs_input_def hs_stream_def rw_stream_def)
  with assms(3) [of ?c] w(1) show ?thesis by (auto simp: on_rw_def hs_done_def)
qed

lemma hs_done_flush:
  assumes "hs_fresh conn" and "hs_input conn = bs"
    and "\<And>c. hs_fresh c \<Longrightarrow> hs_input c = bs \<Longrightarrow> hs_done c out rest (k c)"
  shows "hs_done conn out rest (on_rw rw_Flush conn k)"
proof -
  have g: "rw_good (conn_rw conn)" using assms(1) by (simp add: hs_fresh_def)
  obtain w where f: "rw_Flush (conn_rw conn) = (None, (conn_rw conn)\<lparr>wr := w\<rparr>)" "bufw_good w"
    using rw_Flush_good [OF g] by blast
  let ?c = "conn\<lparr>conn_rw := (conn_rw conn)\<lparr>wr := w\<rparr>\<rparr>"
  have "hs_fresh ?c" "hs_input ?c = bs" using f assms(1,2) by (simp_all add: hs_fresh_def hs_input_def rw_good_def)
  moreover have "hs_stream ?c = hs_stream conn"
    using rw_Flush_ok [OF f(1)] by (auto simp: hs_stream_def rw_stream_def bufw_stream_def)
  ultimately show ?thesis using assms(3) [of ?c] f(1) by (auto simp: on_rw_def hs_done_def)
qed

lemma hs_done_read:
  assumes "hs_fresh conn" and "hs_input conn = bs @ bs'" and "length bs = n"
    and "\<And>c. hs_fresh c \<Longrightarrow> hs_input c = bs' \<Longrightarrow> hs_done c out rest (k bs c)"
  shows "hs_done conn out rest (read_full n conn k)"
proof -
  let ?c = "conn\<lparr>conn_rw := (conn_rw conn)\<lparr>rd_in := bs', readError := None\<rparr>\<rparr>"
  have "hs_fresh ?c" "hs_input ?c = bs'" "hs_stream ?c = hs_stream conn" "read_full n conn k = k bs ?c"
    using assms(1-3) by (simp_all add: read_full_def rw_Read_def hs_fresh_def hs_input_def hs_stream_def rw_good_def rw_stream_def)
  with assms(4) [of ?c] show ?thesis by (auto simp: hs_done_def)
qed

lemma hs_done_pure: "r = Inr x \<Longrightarrow> hs_done conn out rest (k x) \<Longrightarrow> hs_done conn out rest (or_panic r conn k)"
  by (simp add: or_panic_def)

lemma U32BE_total: "4 \<le> length b \<Longrightarrow> \<exists>v. U32BE b = Inr v"
  by (cases b rule: U32BE.cases) auto

lemma HandshakeClient_exchange:
  assumes "hs_fresh conn" and "hs_input conn = s0 # S1 @ S2 @ rest" and "length S1 = 1536" and "length S2 = 1536"
  shows "hs_done conn ((3 # replicate 1536 0) @ S1) rest (HandshakeClient conn)"
proof -
  have sl: "slice (s0 # S1 @ S2) 1 (1536 + 1) = Inr S1" using assms(3) by simp
  obtain ver where ver: "bindR (slice S1 4 8) U32BE = Inr ver"
    using assms(3) U32BE_total [of "take 4 (drop 4 S1)"] by (auto simp: slice_def)
  have last: "hs_done c (S1 @ []) rest (on_rw (rw_Write S1) c (\<lambda>conn. (None, conn)))" if "hs_fresh c" "hs_input c = rest" for c
    by (rule hs_done_write [OF that]) (rule hs_done_return)
  have i: "hs_input c = (s0 # S1 @ S2) @ rest" if "hs_input c = s0 # S1 @ S2 @ rest" for c using that by simp
  have n: "length (s0 # S1 @ S2) = 1536 * 2 + 1" using assms by simp
  show ?thesis
    unfolding HandshakeClient_def
    apply (rule hs_done_write [OF assms(1,2)])
    apply (rule hs_done_flush, assumption+)
    apply (rule hs_done_read [OF _ i n], assumption+)
    apply (rule hs_done_pure [OF sl])
    apply (rule hs_done_pure [OF ver])
    using last by simp
qed

text \<open>The server's answer to C1, and when there is one.\<close>

definition answered :: "hmac \<Rightarrow> bytes \<Rightarrow> bytes \<Rightarrow> bytes \<Rightarrow> bool" where
  "answered hmac C1 S1 S2 \<longleftrightarrow>
     (if take 4 (drop 4 C1) = replicate 4 0 then S1 = replicate 1536 0 \<and> S2 = C1
      else \<exists>base q. base \<in> {8, 772} \<and> digest_at hmac hsClientPartialKey C1 base \<and> digest_at hmac hsServerPartialKey S1 8 \<and>
        take 4 S1 = take 4 C1 \<and> S2 = q @ hmac (hmac hsServerFullKey (take 32 (drop (digest_pos C1 base) C1))) q)"

lemma U32BE_bytes: "4 \<le> length b \<Longrightarrow> \<exists>v. U32BE b = Inr v \<and> be_bytes 4 v = take 4 b"
proof (cases b rule: U32BE.cases)
  case (1 b0 b1 b2 b3 r)
  let ?v = "push_bit 24 (ucast b0) OR push_bit 16 (ucast b1) OR push_bit 8 (ucast b2) OR ucast b3 :: u32"
  have "ucast (drop_bit 24 ?v) = b0" "ucast (drop_bit 16 ?v) = b1" "ucast (drop_bit 8 ?v) = b2" "ucast ?v = b3"
    by (rule bit_word_eqI; auto simp: bit_simps dest: bit_imp_le_length)+
  moreover have "U32BE b = Inr ?v" using 1 by (simp add: or.assoc or.commute or.left_commute)
  ultimately show ?thesis using 1 by (simp add: be_bytes_4)
qed auto

lemma server_answer_eq:
  assumes "length C1 = 1536" and hmac: "hmac32 hmac"
  shows "if take 4 (drop 4 C1) = replicate 4 0 \<or> (\<exists>base\<in>{8, 772}. digest_at hmac hsClientPartialKey C1 base)
     then \<exists>S1 S2. server_answer hmac rnd1 rnd2 C1 = Inr (3 # S1 @ S2) \<and> length S1 = 1536 \<and> length S2 = 1536 \<and> answered hmac C1 S1 S2
     else server_answer hmac rnd1 rnd2 C1 = Inl (Err (Errorf ''rtmp: handshake server: C1 invalid''))"
proof -
  obtain t where t: "bindR (slice C1 0 4) U32BE = Inr t" "be_bytes 4 t = take 4 C1"
    using assms(1) U32BE_bytes [of "take 4 C1"] by (auto simp: slice_def)
  obtain v where v: "bindR (slice C1 4 8) U32BE = Inr v" "be_bytes 4 v = take 4 (drop 4 C1)"
    using assms(1) U32BE_bytes [of "take 4 (drop 4 C1)"] by (auto simp: slice_def)
  have v0: "v = 0 \<longleftrightarrow> take 4 (drop 4 C1) = replicate 4 0"
  proof
    assume z: "take 4 (drop 4 C1) = replicate 4 0"
    moreover have "replicate 4 (0::byte) = [0, 0, 0, 0]" by (simp add: numeral_eq_Suc)
    ultimately have "slice C1 4 8 = Inr [0, 0, 0, 0]" using assms(1) unfolding slice_def by simp
    then show "v = 0" using v(1) by (simp del: slice_Inr_iff)
    next
    assume "v = 0"
    moreover have "be_bytes 4 (0::u32) = replicate 4 0" by (simp add: be_bytes_4) (simp add: numeral_eq_Suc)
    ultimately show "take 4 (drop 4 C1) = replicate 4 0" using v(2) by simp
  qed
  obtain S1 where S1: "hsCreate01 hmac rnd1 (3 # replicate 1536 0) t 0x0d0e0a0d hsServerPartialKey = Inr (3 # S1)" "length S1 = 1536"
      "digest_at hmac hsServerPartialKey S1 8" "take 4 S1 = take 4 C1"
    using hsCreate01_digest [OF _ hmac, of "3 # replicate 1536 0" rnd1 t "0x0d0e0a0d" hsServerPartialKey] t(2) by auto
  have S2: "\<exists>q. length q = 1504 \<and> hsCreate2 hmac rnd2 (replicate 1536 0) key = Inr (q @ hmac key q)" for key
    by (rule hsCreate2_digest [OF _ hmac]) simp
  have plain: "copy_at (3 # replicate 1536 0) 1 (replicate 1536 0) @ copy_at (replicate 1536 0) 0 C1 = 3 # replicate 1536 0 @ C1"
    using assms(1) by (simp add: copy_at_exact)
  show ?thesis
  proof (cases "v = 0")
    case True
    with v0 t v plain assms(1) show ?thesis by (simp add: server_answer_def answered_def Let_def)
  next
    case False
    define key where "key base = hmac hsServerFullKey (take 32 (drop (digest_pos C1 base) C1))" for base
    show ?thesis
    proof (cases "\<exists>base\<in>{8, 772}. digest_at hmac hsClientPartialKey C1 base")
      case True
      then obtain base where base: "base \<in> {8, 772}" "digest_at hmac hsClientPartialKey C1 base"
          "hsParse1 hmac C1 hsClientPartialKey hsServerFullKey = Inr (True, key base)"
        using hsParse1_eq [OF assms(1), of hmac hsClientPartialKey hsServerFullKey] by (auto simp: key_def split: if_splits)
      obtain q where q: "length q = 1504" "hsCreate2 hmac rnd2 (replicate 1536 0) (key base) = Inr (q @ hmac (key base) q)"
        using S2 by blast
      have "server_answer hmac rnd1 rnd2 C1 = Inr (3 # S1 @ q @ hmac (key base) q)"
        using False t(1) v(1) base(3) S1(1) q(2) by (simp add: server_answer_def Let_def)
      moreover have "answered hmac C1 S1 (q @ hmac (key base) q)"
        using base S1 v0 False unfolding answered_def key_def by auto
      moreover have "length (q @ hmac (key base) q) = 1536" using q(1) hmac by simp
      ultimately show ?thesis using True S1(2) by (simp only: if_True simp_thms) blast
    next
      case none: False
      then have "hsParse1 hmac C1 hsClientPartialKey hsServerFullKey = Inr (False, [])"
        using hsParse1_eq [OF assms(1)] by auto
      with none False v0 t(1) v(1) show ?thesis by (simp add: server_answer_def Let_def del: bindR_eq_Inr)
    qed
  qed
qed

lemma HandshakeServer_exchange:
  assumes "hs_fresh conn" and "hs_input conn = 3 # C1 @ C2 @ rest" and "length C1 = 1536" and "length C2 = 1536"
    and "server_answer hmac rnd1 rnd2 C1 = Inr S"
  shows "hs_done conn S rest (HandshakeServer hmac rnd1 rnd2 conn)"
proof -
  have i: "hs_input conn = (3 # C1) @ C2 @ rest" "length (3 # C1) = 1536 + 1" using assms by simp_all
  have "hs_done conn (S @ []) rest (HandshakeServer hmac rnd1 rnd2 conn)"
    unfolding HandshakeServer_def
    apply (rule hs_done_read [OF assms(1) i])
    apply (simp only: list.sel simp_thms if_False if_True)
    apply (rule hs_done_pure [OF assms(5)])
    apply (rule hs_done_write, assumption+)
    apply (rule hs_done_flush, assumption+)
    apply (rule hs_done_read [OF _ _ assms(4)], assumption+)
    apply (rule hs_done_return, assumption+)
    done
  then show ?thesis by simp
qed

section \<open>What is on the wire\<close>

text \<open>The bytes that have left the buffer, and the bytes that wait in it for a flush.\<close>

definition hs_sent :: "Conn \<Rightarrow> bytes" where
  "hs_sent conn = bw_sent (wr (conn_rw conn))"

definition hs_pending :: "Conn \<Rightarrow> bytes" where
  "hs_pending conn = bw_buf (wr (conn_rw conn))"

lemma hs_feed_wire [simp]:
  "hs_sent (hs_feed bs conn) = hs_sent conn" "hs_pending (hs_feed bs conn) = hs_pending conn"
  "wr (conn_rw (hs_feed bs conn)) = wr (conn_rw conn)"
  by (simp_all add: hs_sent_def hs_pending_def hs_feed_def)

lemma hs_put_flushed:
  assumes "hs_fresh conn" and "hs_pending conn = []"
  shows "\<exists>c. on_rw (rw_Write p) conn (\<lambda>conn. on_rw rw_Flush conn k) = k c \<and> hs_fresh c \<and> hs_input c = hs_input conn \<and>
     hs_sent c = hs_sent conn @ p \<and> hs_pending c = [] \<and> bw_size (wr (conn_rw c)) = bw_size (wr (conn_rw conn))"
proof -
  have g: "rw_good (conn_rw conn)" using assms(1) by (simp add: hs_fresh_def)
  obtain w where w: "rw_Write p (conn_rw conn) = (None, (conn_rw conn)\<lparr>wr := w\<rparr>)" "rw_good ((conn_rw conn)\<lparr>wr := w\<rparr>)"
      "bufw_stream w = bufw_stream (wr (conn_rw conn)) @ p" "bufw_grows (wr (conn_rw conn)) w"
    by (rule emitsE [OF emits_Write g])
  obtain w2 where f: "rw_Flush ((conn_rw conn)\<lparr>wr := w\<rparr>) = (None, (conn_rw conn)\<lparr>wr := w2\<rparr>)" "bufw_good w2"
    using rw_Flush_good [OF w(2)] by auto
  have "bw_size w2 = bw_size w"
    using arg_cong [where f = "\<lambda>x. bw_size (wr (snd x))", OF f(1)] bufw_Flush_ok [of w] w(2)
    by (auto simp: rw_Flush_def rw_good_def split: if_splits prod.splits dest: bufw_Flush_good)
  then show ?thesis
    using w f rw_Flush_ok [OF f(1)] assms
    by (intro exI [of _ "conn\<lparr>conn_rw := (conn_rw conn)\<lparr>wr := w2\<rparr>\<rparr>"])
      (simp add: on_rw_def hs_fresh_def hs_input_def hs_sent_def hs_pending_def rw_good_def rw_stream_def bufw_stream_def bufw_growsD(2))
qed

lemma hs_put_buffered:
  assumes "hs_fresh conn" and "hs_pending conn = []" and "length p \<le> bw_size (wr (conn_rw conn))"
  shows "on_rw (rw_Write p) conn k = k (conn\<lparr>conn_rw := (conn_rw conn)\<lparr>wr := (wr (conn_rw conn))\<lparr>bw_buf := p\<rparr>\<rparr>\<rparr>)"
  using assms by (simp add: on_rw_def rw_Write_def hs_fresh_def rw_good_def bufw_good_def hs_pending_def bufw_Write_def
      bufw_Write_loop.simps bufw_Available_def)

lemma hs_read_short:
  assumes "hs_fresh conn" and "length (hs_input conn) < n"
  shows "\<exists>e c. read_full n conn k = (Some e, c) \<and> hs_sent c = hs_sent conn"
  using assms by (simp add: read_full_def rw_Read_def hs_fresh_def hs_input_def hs_sent_def Let_def)

lemma hs_read_full:
  assumes "hs_fresh conn" and "hs_input conn = bs @ bs'" and "length bs = n"
  shows "\<exists>c. read_full n conn k = k bs c \<and> hs_fresh c \<and> hs_input c = bs' \<and> wr (conn_rw c) = wr (conn_rw conn)"
  using assms by (intro exI [of _ "conn\<lparr>conn_rw := (conn_rw conn)\<lparr>rd_in := bs', readError := None\<rparr>\<rparr>"])
    (simp add: read_full_def rw_Read_def hs_fresh_def hs_input_def rw_good_def)

lemma HandshakeClient_waits:
  assumes "hs_fresh conn" and "hs_pending conn = []" and "hs_input conn = []"
  shows "\<exists>e c. HandshakeClient conn = (Some e, c) \<and> hs_sent c = hs_sent conn @ 3 # replicate 1536 0"
proof -
  let ?k = "\<lambda>S0S1S2 conn. or_panic (slice S0S1S2 1 (1536 + 1)) conn (\<lambda>S1. or_panic (bindR (slice S1 4 8) U32BE) conn (\<lambda>ver.
      let C2 = (if ver \<noteq> 0 then S1 else S1) in on_rw (rw_Write C2) conn (\<lambda>conn. (None, conn))))"
  obtain c where c: "HandshakeClient conn = read_full (1536 * 2 + 1) c ?k" "hs_fresh c" "hs_input c = []" "hs_sent c = hs_sent conn @ 3 # replicate 1536 0"
    unfolding HandshakeClient_def using hs_put_flushed [OF assms(1,2), of "3 # replicate 1536 0" "\<lambda>conn. read_full (1536 * 2 + 1) conn ?k"] assms(3) by auto
  have "length (hs_input c) < 1536 * 2 + 1" using c(3) by simp
  from hs_read_short [OF c(2) this, of ?k] c(1,4) show ?thesis by auto
qed

lemma HandshakeClient_leaves_C2:
  assumes "hs_fresh conn" and "hs_pending conn = []" and "1536 \<le> bw_size (wr (conn_rw conn))"
    and "hs_input conn = s0 # S1 @ S2 @ rest" and "length S1 = 1536" and "length S2 = 1536"
  shows "\<exists>c rw. HandshakeClient conn = (None, c) \<and> hs_input c = rest \<and> hs_sent c = hs_sent conn @ 3 # replicate 1536 0 \<and> hs_pending c = S1 \<and>
     rw_Flush (conn_rw c) = (None, rw) \<and> bw_sent (wr rw) = hs_sent conn @ (3 # replicate 1536 0) @ S1"
proof -
  let ?k = "\<lambda>S0S1S2 conn. or_panic (slice S0S1S2 1 (1536 + 1)) conn (\<lambda>S1. or_panic (bindR (slice S1 4 8) U32BE) conn (\<lambda>ver.
      let C2 = (if ver \<noteq> 0 then S1 else S1) in on_rw (rw_Write C2) conn (\<lambda>conn. (None, conn))))"
  obtain c where c: "HandshakeClient conn = read_full (1536 * 2 + 1) c ?k" "hs_fresh c" "hs_input c = (s0 # S1 @ S2) @ rest"
      "hs_sent c = hs_sent conn @ 3 # replicate 1536 0" "hs_pending c = []" "bw_size (wr (conn_rw c)) = bw_size (wr (conn_rw conn))"
    unfolding HandshakeClient_def using hs_put_flushed [OF assms(1,2), of "3 # replicate 1536 0" "\<lambda>conn. read_full (1536 * 2 + 1) conn ?k"] assms(4) by auto
  have n: "length (s0 # S1 @ S2) = 1536 * 2 + 1" using assms by simp
  obtain d where d: "read_full (1536 * 2 + 1) c ?k = ?k (s0 # S1 @ S2) d" "hs_fresh d" "hs_input d = rest" "wr (conn_rw d) = wr (conn_rw c)"
    using hs_read_full [OF c(2,3) n, of ?k] by blast
  have sl: "slice (s0 # S1 @ S2) 1 (1536 + 1) = Inr S1" using assms(5) by simp
  obtain ver where ver: "bindR (slice S1 4 8) U32BE = Inr ver"
    using assms(5) U32BE_total [of "take 4 (drop 4 S1)"] by (auto simp: slice_def)
  let ?d = "d\<lparr>conn_rw := (conn_rw d)\<lparr>wr := (wr (conn_rw d))\<lparr>bw_buf := S1\<rparr>\<rparr>\<rparr>"
  have "hs_pending d = []" "length S1 \<le> bw_size (wr (conn_rw d))" using c(5,6) d(4) assms(3,5) by (simp_all add: hs_pending_def)
  with d(2) have "?k (s0 # S1 @ S2) d = (None, ?d)" unfolding sl or_panic_def by (simp only: sum.case ver Let_def if_cancel hs_put_buffered)
  then have r: "HandshakeClient conn = (None, ?d)" using c(1) d(1) by (simp only:)
  have "rw_good (conn_rw ?d)" using d(2) by (simp add: hs_fresh_def rw_good_def bufw_good_def)
  then obtain w where f: "rw_Flush (conn_rw ?d) = (None, (conn_rw ?d)\<lparr>wr := w\<rparr>)" using rw_Flush_good by blast
  show ?thesis
    using r f d(3,4) c(4) rw_Flush_ok(1) [OF f]
    by (intro exI [of _ ?d] exI [of _ "(conn_rw ?d)\<lparr>wr := w\<rparr>"]) (simp add: hs_input_def hs_sent_def hs_pending_def rw_stream_def bufw_stream_def)
qed

lemma HandshakeServer_answers:
  assumes "hs_fresh conn" and "hs_pending conn = []" and "server_answer hmac rnd1 rnd2 C1 = Inr S" and "length C1 = 1536"
  shows "hs_input conn = (3 # C1) @ short \<Longrightarrow> length short < 1536 \<Longrightarrow>
      \<exists>e c. HandshakeServer hmac rnd1 rnd2 conn = (Some e, c) \<and> hs_sent c = hs_sent conn @ S"
    and "hs_input conn = (3 # C1) @ C2 @ rest \<Longrightarrow> length C2 = 1536 \<Longrightarrow>
      \<exists>c. HandshakeServer hmac rnd1 rnd2 conn = (None, c) \<and> hs_input c = rest \<and> hs_sent c = hs_sent conn @ S \<and> hs_pending c = []"
proof -
  let ?k = "\<lambda>conn. read_full 1536 conn (\<lambda>_ conn. (None, conn))"
  have *: "\<exists>c. HandshakeServer hmac rnd1 rnd2 conn = ?k c \<and> hs_fresh c \<and> hs_input c = tail \<and> hs_sent c = hs_sent conn @ S \<and> hs_pending c = []"
    if input: "hs_input conn = (3 # C1) @ tail" for tail
  proof -
    have n: "length (3 # C1) = 1536 + 1" using assms(4) by simp
    let ?s = "\<lambda>C0C1 conn. if hd C0C1 \<noteq> 3 then (Some (Err (Errorf ''rtmp: handshake version=%d invalid'')), conn)
       else or_panic (server_answer hmac rnd1 rnd2 (tl C0C1)) conn (\<lambda>S0S1S2. on_rw (rw_Write S0S1S2) conn (\<lambda>conn. on_rw rw_Flush conn ?k))"
    have s: "?s (3 # C1) d = on_rw (rw_Write S) d (\<lambda>conn. on_rw rw_Flush conn ?k)" for d
      by (simp add: or_panic_def assms(3))
    obtain d where d: "HandshakeServer hmac rnd1 rnd2 conn = on_rw (rw_Write S) d (\<lambda>conn. on_rw rw_Flush conn ?k)"
        "hs_fresh d" "hs_input d = tail" "wr (conn_rw d) = wr (conn_rw conn)"
      unfolding HandshakeServer_def
      using hs_read_full [OF assms(1) input n, of ?s] unfolding s by blast
    have "hs_pending d = []" "hs_sent d = hs_sent conn" using assms(2) d(4) by (simp_all add: hs_pending_def hs_sent_def)
    with hs_put_flushed [OF d(2), of S ?k] d(1,3) show ?thesis by auto
  qed
  show "\<exists>e c. HandshakeServer hmac rnd1 rnd2 conn = (Some e, c) \<and> hs_sent c = hs_sent conn @ S"
    if i: "hs_input conn = (3 # C1) @ short" and l: "length short < 1536"
  proof -
    obtain c where "HandshakeServer hmac rnd1 rnd2 conn = ?k c" "hs_fresh c" "hs_input c = short" "hs_sent c = hs_sent conn @ S" using * [OF i] by blast
    with hs_read_short [of c 1536] l show ?thesis by auto
  qed
  show "\<exists>c. HandshakeServer hmac rnd1 rnd2 conn = (None, c) \<and> hs_input c = rest \<and> hs_sent c = hs_sent conn @ S \<and> hs_pending c = []"
    if i: "hs_input conn = (3 # C1) @ C2 @ rest" and l: "length C2 = 1536"
  proof -
    obtain c where c: "HandshakeServer hmac rnd1 rnd2 conn = ?k c" "hs_fresh c" "hs_input c = C2 @ rest" "hs_sent c = hs_sent conn @ S" "hs_pending c = []"
      using * [OF i] by blast
    from hs_read_full [OF c(2,3) l, of "\<lambda>_ conn. (None, conn)"] c(1,4,5) show ?thesis by (auto simp: hs_sent_def hs_pending_def)
  qed
qed

section \<open>Properties\<close>

text \<open>
  C11: the server answers a client whose first packet is of the plain form or carries a digest made with the client key, at either of
  the two places, and refuses every other; its own first packet then carries a digest that the same search finds, and its second
  one is signed with the client's digest. It reads exactly the client's 3073 bytes.
\<close>

theorem handshake_server:
  assumes "hmac32 hmac" and "hs_fresh conn"
    and "hs_input conn = c0 # C1 @ C2 @ rest" and "length C1 = 1536" and "length C2 = 1536"
  shows "case HandshakeServer hmac rnd1 rnd2 conn of
       (None, conn') \<Rightarrow> c0 = 3 \<and> hs_input conn' = rest \<and>
         (\<exists>S1 S2. hs_stream conn' = hs_stream conn @ 3 # S1 @ S2 \<and> length S1 = 1536 \<and> length S2 = 1536 \<and> answered hmac C1 S1 S2)
     | (Some e, conn') \<Rightarrow> (\<exists>s. e = Err (Errorf s)) \<and> hs_stream conn' = hs_stream conn \<and>
         (c0 \<noteq> 3 \<or> take 4 (drop 4 C1) \<noteq> replicate 4 0 \<and> \<not> (\<exists>base\<in>{8, 772}. digest_at hmac hsClientPartialKey C1 base))"
proof (cases "c0 = 3 \<and> (\<exists>S. server_answer hmac rnd1 rnd2 C1 = Inr S)")
  case True
  then obtain S where S: "server_answer hmac rnd1 rnd2 C1 = Inr S" by blast
  then obtain S1 S2 where S12: "S = 3 # S1 @ S2" "length S1 = 1536" "length S2 = 1536" "answered hmac C1 S1 S2"
    using server_answer_eq [OF assms(4,1), where ?rnd1.0 = rnd1 and ?rnd2.0 = rnd2] by (auto split: if_splits)
  have "hs_done conn S rest (HandshakeServer hmac rnd1 rnd2 conn)"
    using HandshakeServer_exchange [OF assms(2) _ assms(4,5) S] assms(3) True by simp
  with S12 True show ?thesis unfolding hs_done_def by (fastforce intro: exI [of _ S1] exI [of _ S2])
next
  case False
  let ?rw = "(conn_rw conn)\<lparr>rd_in := C2 @ rest, readError := None\<rparr>"
  have r: "rw_Read (1536 + 1) (conn_rw conn) = (c0 # C1, None, ?rw)"
    using assms(2-4) by (simp add: rw_Read_def hs_fresh_def hs_input_def)
  have "hs_stream (conn\<lparr>conn_rw := ?rw\<rparr>) = hs_stream conn" by (simp add: hs_stream_def rw_stream_def)
  moreover have "c0 = 3 \<Longrightarrow> server_answer hmac rnd1 rnd2 C1 = Inl (Err (Errorf ''rtmp: handshake server: C1 invalid'')) \<and>
      take 4 (drop 4 C1) \<noteq> replicate 4 0 \<and> \<not> (\<exists>base\<in>{8, 772}. digest_at hmac hsClientPartialKey C1 base)"
    using False server_answer_eq [OF assms(4,1), where ?rnd1.0 = rnd1 and ?rnd2.0 = rnd2] by (auto split: if_splits)
  ultimately show ?thesis
    unfolding HandshakeServer_def read_full_def r by (auto simp: or_panic_def)
qed

text \<open>
  C12: the two handshakes as they meet on the wire, counting only the bytes that have left a side's buffer. A client that has
  heard nothing yet has sent C0 and C1; a server that has heard these and nothing more has sent its whole answer, without waiting for C2;
  a client that hears that answer succeeds and leaves what follows it unread. But its C2 is then still in its buffer, not on the wire, and
  only a flush sends it, which \<^verbatim>\<open>HandshakeClient\<close> does not do: the server goes on waiting for C2 until the first command of
  the client is flushed. With C2 the server succeeds as well, has sent nothing more, and leaves what follows unread.
\<close>

theorem handshakes_meet:
  assumes "hs_fresh client" and "hs_fresh server" and "hmac32 hmac" and "hs_pending client = []" and "hs_pending server = []"
    and "1536 \<le> bw_size (wr (conn_rw client))"
  shows "\<exists>C0C1 S0S1S2 C2. length C2 = 1536 \<and>
     (\<exists>e client1. HandshakeClient (hs_feed [] client) = (Some e, client1) \<and> hs_sent client1 = hs_sent client @ C0C1) \<and>
     (\<exists>e server1. HandshakeServer hmac rnd1 rnd2 (hs_feed C0C1 server) = (Some e, server1) \<and> hs_sent server1 = hs_sent server @ S0S1S2) \<and>
     (\<exists>client2 rw. HandshakeClient (hs_feed (S0S1S2 @ rest) client) = (None, client2) \<and> hs_input client2 = rest \<and>
        hs_sent client2 = hs_sent client @ C0C1 \<and> hs_pending client2 = C2 \<and>
        rw_Flush (conn_rw client2) = (None, rw) \<and> bw_sent (wr rw) = hs_sent client @ C0C1 @ C2) \<and>
     (\<exists>server2. HandshakeServer hmac rnd1 rnd2 (hs_feed (C0C1 @ C2 @ rest') server) = (None, server2) \<and> hs_input server2 = rest' \<and>
        hs_sent server2 = hs_sent server @ S0S1S2 \<and> hs_pending server2 = [])"
proof -
  let ?z = "replicate 1536 0 :: bytes"
  let ?C = "3 # ?z" and ?S = "3 # ?z @ ?z"
  have "take 4 (drop 4 ?z) = replicate 4 0" by simp
  with server_answer_eq [OF _ assms(3), of ?z, where ?rnd1.0 = rnd1 and ?rnd2.0 = rnd2] have S: "server_answer hmac rnd1 rnd2 ?z = Inr ?S"
    by (auto simp: answered_def)
  have "\<exists>e client1. HandshakeClient (hs_feed [] client) = (Some e, client1) \<and> hs_sent client1 = hs_sent client @ ?C"
    using HandshakeClient_waits [of "hs_feed [] client"] assms(1,4) by simp
  moreover have "\<exists>e server1. HandshakeServer hmac rnd1 rnd2 (hs_feed ?C server) = (Some e, server1) \<and> hs_sent server1 = hs_sent server @ ?S"
    using HandshakeServer_answers(1) [OF _ _ S, of "hs_feed ?C server" "[]"] assms(2,5) by simp
  moreover have "\<exists>client2 rw. HandshakeClient (hs_feed (?S @ rest) client) = (None, client2) \<and> hs_input client2 = rest \<and>
      hs_sent client2 = hs_sent client @ ?C \<and> hs_pending client2 = ?z \<and>
      rw_Flush (conn_rw client2) = (None, rw) \<and> bw_sent (wr rw) = hs_sent client @ ?C @ ?z"
    using HandshakeClient_leaves_C2 [of "hs_feed (?S @ rest) client" 3 ?z ?z rest] assms(1,4,6) by simp
  moreover have "\<exists>server2. HandshakeServer hmac rnd1 rnd2 (hs_feed (?C @ ?z @ rest') server) = (None, server2) \<and> hs_input server2 = rest' \<and>
      hs_sent server2 = hs_sent server @ ?S \<and> hs_pending server2 = []"
    using HandshakeServer_answers(2) [OF _ _ S, of "hs_feed (?C @ ?z @ rest') server" ?z rest'] assms(2,5) by simp
  moreover have "length ?z = 1536" by simp
  ultimately show ?thesis by blast
qed

theorem handshake_server_witness:
  "\<exists>conn'. HandshakeServer (\<lambda>k m. replicate 32 0) [] [] (NewConn (3 # replicate 1536 0 @ replicate 1536 0 @ [7]) EOF None 4096) = (None, conn') \<and>
     hs_input conn' = [7]"
proof -
  have "hmac32 (\<lambda>k m. replicate 32 0)" by (simp add: hmac32_def)
  moreover have "hs_fresh (NewConn bs EOF None 4096)" "hs_input (NewConn bs EOF None 4096) = bs" for bs
    by (simp_all add: hs_fresh_def hs_input_def NewConn_def NewReadWriter_def rw_good_def bufw_good_def)
  ultimately show ?thesis
    using handshake_server [of "\<lambda>k m. replicate 32 0" "NewConn (3 # replicate 1536 0 @ replicate 1536 0 @ [7]) EOF None 4096" 3
        "replicate 1536 0" "replicate 1536 0" "[7]" "[]" "[]"]
    by (auto split: prod.splits option.splits)
qed

theorem handshakes_meet_witness:
  "\<exists>C0C1 S0S1S2 C2 client2 server2.
     HandshakeClient (hs_feed (S0S1S2 @ [1]) (NewConn [] EOF None 4096)) = (None, client2) \<and> hs_sent client2 = C0C1 \<and> hs_pending client2 = C2 \<and> C2 \<noteq> [] \<and>
     HandshakeServer (\<lambda>k m. replicate 32 0) [] [] (hs_feed (C0C1 @ C2 @ [2]) (NewConn [] EOF None 4096)) = (None, server2) \<and>
     hs_sent server2 = S0S1S2 \<and> hs_input server2 = [2]"
proof -
  have "hmac32 (\<lambda>k m. replicate 32 0)" by (simp add: hmac32_def)
  moreover have "hs_fresh (NewConn [] EOF None 4096)" "hs_pending (NewConn [] EOF None 4096) = []" "hs_sent (NewConn [] EOF None 4096) = []"
      "1536 \<le> bw_size (wr (conn_rw (NewConn [] EOF None 4096)))"
    by (simp_all add: hs_fresh_def hs_pending_def hs_sent_def NewConn_def NewReadWriter_def rw_good_def bufw_good_def)
  ultimately show ?thesis
    using handshakes_meet [of "NewConn [] EOF None 4096" "NewConn [] EOF None 4096" "\<lambda>k m. replicate 32 0" "[]" "[]" "[1]" "[2]"] by force
qed

end
