(* ===== verification/ConnServer.thy ===== *)
theory ConnServer
  imports ChunkWire Amf0 Av
begin

text \<open>
  \<^verbatim>\<open>src/protocol/rtmp/core/conn_server.go\<close>: the server side of the command exchange before a stream is published
  or played (connect, createStream, publish or play), and the message operations that the reader and writer
  of \<^verbatim>\<open>rtmp.go\<close> use afterwards.

  A Go map has no order: \<open>rng\<close> is the order in which the runtime ranges over the object it is given when it is
  encoded. The buffer \<^verbatim>\<open>bytesw\<close> is reset before each use and is not kept. Strings are byte strings.
\<close>

section \<open>State\<close>

record ConnectInfo =
  App :: bytes
  Flashver :: bytes
  SwfURL :: bytes
  TcURL :: bytes
  Fpad :: bool
  AudioCodecs :: int
  VideoCodecs :: int
  VideoFunction :: int
  PageURL :: bytes
  ObjectEncoding :: int

record PublishInfo =
  pub_Name :: bytes
  pub_Type :: bytes

record ConnServer =
  cs_ConnInfo :: ConnectInfo
  cs_PublishInfo :: PublishInfo
  cs_done :: bool
  cs_streamID :: int
  cs_isPublisher :: bool
  cs_conn :: Conn
  cs_transactionID :: int
  cs_decoder :: Decoder

definition NewConnServer :: "Conn \<Rightarrow> ConnServer" where
  "NewConnServer conn =
     \<lparr>cs_ConnInfo = \<lparr>App = [], Flashver = [], SwfURL = [], TcURL = [], Fpad = False, AudioCodecs = 0, VideoCodecs = 0,
        VideoFunction = 0, PageURL = [], ObjectEncoding = 0\<rparr>,
      cs_PublishInfo = \<lparr>pub_Name = [], pub_Type = []\<rparr>, cs_done = False, cs_streamID = 1, cs_isPublisher = False,
      cs_conn = conn, cs_transactionID = 0, cs_decoder = NewDecoder []\<rparr>"

abbreviation ErrReq :: exn where "ErrReq \<equiv> Err (Errorf ''request error'')"

section \<open>Sending\<close>

text \<open>A write whose error is dropped; a panic is not.\<close>

definition write_ignored :: "ChunkStream res \<Rightarrow> Conn \<Rightarrow> exn option \<times> Conn" where
  "write_ignored c conn =
     (case c of
        Inl e \<Rightarrow> (Some e, conn)
      | Inr c \<Rightarrow> (case conn_Write c conn of (e, _, conn) \<Rightarrow> (ignore_err e, conn)))"

text \<open>Steps in turn, up to the first that fails.\<close>

definition then_do :: "exn option \<times> 's \<Rightarrow> ('s \<Rightarrow> exn option \<times> 's) \<Rightarrow> exn option \<times> 's" where
  "then_do r f = (case r of (Some e, s) \<Rightarrow> (Some e, s) | (None, s) \<Rightarrow> f s)"

lemma then_do_simps [simp]: "then_do (Some e, s) f = (Some e, s)" "then_do (None, s) f = f s"
  by (simp_all add: then_do_def)

lemma then_do_cong [fundef_cong]:
  "r = r' \<Longrightarrow> (\<And>s. r' = (None, s) \<Longrightarrow> f s = f' s) \<Longrightarrow> then_do r f = then_do r' f'"
  by (auto simp: then_do_def split: prod.splits option.splits)

definition cs_write_ignored :: "ChunkStream res \<Rightarrow> ConnServer \<Rightarrow> exn option \<times> ConnServer" where
  "cs_write_ignored c cs = (case write_ignored c (cs_conn cs) of (e, conn) \<Rightarrow> (e, cs\<lparr>cs_conn := conn\<rparr>))"

definition cs_Flush :: "ConnServer \<Rightarrow> exn option \<times> ConnServer" where
  "cs_Flush cs = (case conn_Flush (cs_conn cs) of (e, conn) \<Rightarrow> (map_option Err e, cs\<lparr>cs_conn := conn\<rparr>))"

definition command_message :: "u32 \<Rightarrow> u32 \<Rightarrow> bytes \<Rightarrow> ChunkStream" where
  "command_message csid streamID msg =
     emptyChunkStream\<lparr>Format := 0, CSID := csid, Timestamp := 0, TypeID := 20, StreamID := streamID,
       Length := word_of_nat (length msg), Data := msg\<rparr>"

definition writeMsg :: "u32 \<Rightarrow> u32 \<Rightarrow> amfval list \<Rightarrow> ConnServer \<Rightarrow> exn option \<times> ConnServer" where
  "writeMsg csid streamID args cs =
     (case EncodeBatch0 args of
        Inl e \<Rightarrow> (Some e, cs)
      | Inr msg \<Rightarrow> then_do (cs_write_ignored (Inr (command_message csid streamID msg)) cs) cs_Flush)"

section \<open>The commands\<close>

text \<open>\<^verbatim>\<open>app.(string)\<close> and \<^verbatim>\<open>encoding.(float64)\<close>: a value of another type panics.\<close>

definition as_string :: "amfval \<Rightarrow> bytes res" where
  "as_string v = (case v of AString s \<Rightarrow> Inr s | _ \<Rightarrow> Inl (Panic TypeAssertion))"

definition as_float :: "amfval \<Rightarrow> u64 res" where
  "as_float v = (case v of ANumber f \<Rightarrow> Inr f | _ \<Rightarrow> Inl (Panic TypeAssertion))"

definition with_member :: "(bytes \<times> amfval) list \<Rightarrow> string \<Rightarrow> (amfval \<Rightarrow> 'a res) \<Rightarrow> ('a \<Rightarrow> 's \<Rightarrow> 's) \<Rightarrow> 's \<Rightarrow> exn option \<times> 's" where
  "with_member obj key conv upd s =
     (case map_of obj (gostr key) of
        None \<Rightarrow> (None, s)
      | Some v \<Rightarrow> (case conv v of Inl e \<Rightarrow> (Some e, s) | Inr x \<Rightarrow> (None, upd x s)))"

definition connect_object :: "(bytes \<times> amfval) list \<Rightarrow> ConnectInfo \<Rightarrow> exn option \<times> ConnectInfo" where
  "connect_object obj ci =
     then_do (with_member obj ''app'' as_string (\<lambda>x ci. ci\<lparr>App := x\<rparr>) ci) (\<lambda>ci.
     then_do (with_member obj ''flashVer'' as_string (\<lambda>x ci. ci\<lparr>Flashver := x\<rparr>) ci) (\<lambda>ci.
     then_do (with_member obj ''tcUrl'' as_string (\<lambda>x ci. ci\<lparr>TcURL := x\<rparr>) ci) (\<lambda>ci.
       with_member obj ''objectEncoding'' as_float (\<lambda>x ci. ci\<lparr>ObjectEncoding := int64_of_f64 x\<rparr>) ci)))"

fun connect :: "amfval list \<Rightarrow> ConnServer \<Rightarrow> exn option \<times> ConnServer" where
  "connect [] cs = (None, cs)"
| "connect (ANumber f # vs) cs =
     (if int64_of_f64 f \<noteq> 1 then (Some ErrReq, cs) else connect vs (cs\<lparr>cs_transactionID := int64_of_f64 f\<rparr>))"
| "connect (AObject obj # vs) cs =
     (case connect_object obj (cs_ConnInfo cs) of (e, ci) \<Rightarrow>
        then_do (e, cs\<lparr>cs_ConnInfo := ci\<rparr>) (connect vs))"
| "connect (_ # vs) cs = connect vs cs"

definition releaseStream :: "amfval list \<Rightarrow> ConnServer \<Rightarrow> ConnServer" where
  "releaseStream vs cs = cs"

definition fcPublish :: "amfval list \<Rightarrow> ConnServer \<Rightarrow> ConnServer" where
  "fcPublish vs cs = cs"

definition connectResp ::
    "((bytes \<times> amfval) list \<Rightarrow> (bytes \<times> amfval) list) \<Rightarrow> ChunkStream \<Rightarrow> ConnServer \<Rightarrow> exn option \<times> ConnServer" where
  "connectResp rng cur cs =
     then_do (cs_write_ignored (NewWindowAckSize 2500000) cs) (\<lambda>cs.
     then_do (cs_write_ignored (NewSetPeerBandwidth 2500000) cs) (\<lambda>cs.
     then_do (cs_write_ignored (NewSetChunkSize 1024) cs) (\<lambda>cs.
       let resp = [(gostr ''fmsVer'', AString (gostr ''FMS/3,0,1,123'')), (gostr ''capabilities'', AInt 31)];
           event = [(gostr ''level'', AString (gostr ''status'')),
                    (gostr ''code'', AString (gostr ''NetConnection.Connect.Success'')),
                    (gostr ''description'', AString (gostr ''Connection succeeded.'')),
                    (gostr ''objectEncoding'', AInt (ObjectEncoding (cs_ConnInfo cs)))]
       in writeMsg (CSID cur) (StreamID cur)
            [AString (gostr ''_result''), AInt (cs_transactionID cs), AObject (rng resp), AObject (rng event)] cs)))"

fun createStream :: "amfval list \<Rightarrow> ConnServer \<Rightarrow> ConnServer" where
  "createStream [] cs = cs"
| "createStream (ANumber f # vs) cs = createStream vs (cs\<lparr>cs_transactionID := int64_of_f64 f\<rparr>)"
| "createStream (_ # vs) cs = createStream vs cs"

definition createStreamResp :: "ChunkStream \<Rightarrow> ConnServer \<Rightarrow> exn option \<times> ConnServer" where
  "createStreamResp cur cs =
     writeMsg (CSID cur) (StreamID cur) [AString (gostr ''_result''), AInt (cs_transactionID cs), ANil, AInt (cs_streamID cs)] cs"

fun publishOrPlay :: "nat \<Rightarrow> amfval list \<Rightarrow> ConnServer \<Rightarrow> ConnServer" where
  "publishOrPlay k [] cs = cs"
| "publishOrPlay k (AString s # vs) cs =
     publishOrPlay (Suc k) vs
       (if k = 2 then cs\<lparr>cs_PublishInfo := (cs_PublishInfo cs)\<lparr>pub_Name := s\<rparr>\<rparr>
        else if k = 3 then cs\<lparr>cs_PublishInfo := (cs_PublishInfo cs)\<lparr>pub_Type := s\<rparr>\<rparr> else cs)"
| "publishOrPlay k (ANumber f # vs) cs = publishOrPlay (Suc k) vs (cs\<lparr>cs_transactionID := int64_of_f64 f\<rparr>)"
| "publishOrPlay k (_ # vs) cs = publishOrPlay (Suc k) vs cs"

definition status_event :: "string \<Rightarrow> string \<Rightarrow> (bytes \<times> amfval) list" where
  "status_event code description =
     [(gostr ''level'', AString (gostr ''status'')), (gostr ''code'', AString (gostr code)),
      (gostr ''description'', AString (gostr description))]"

definition onStatus ::
    "((bytes \<times> amfval) list \<Rightarrow> (bytes \<times> amfval) list) \<Rightarrow> ChunkStream \<Rightarrow> string \<times> string \<Rightarrow> ConnServer \<Rightarrow> exn option \<times> ConnServer" where
  "onStatus rng cur ev cs =
     (case ev of (code, description) \<Rightarrow>
        writeMsg (CSID cur) (StreamID cur) [AString (gostr ''onStatus''), AInt 0, ANil, AObject (rng (status_event code description))] cs)"

definition publishResp ::
    "((bytes \<times> amfval) list \<Rightarrow> (bytes \<times> amfval) list) \<Rightarrow> ChunkStream \<Rightarrow> ConnServer \<Rightarrow> exn option \<times> ConnServer" where
  "publishResp rng cur cs = onStatus rng cur (''NetStream.Publish.Start'', ''Start publising.'') cs"

text \<open>The four status messages of \<^verbatim>\<open>playResp\<close>, each followed by \<^verbatim>\<open>if err != nil { return err }\<close>.\<close>

definition play_events :: "(string \<times> string) list" where
  "play_events =
     [(''NetStream.Play.Reset'', ''Playing and resetting stream.''), (''NetStream.Play.Start'', ''Started playing stream.''),
      (''NetStream.Data.Start'', ''Started playing stream.''), (''NetStream.Play.PublishNotify'', ''Started playing notify.'')]"

fun onStatuses ::
    "((bytes \<times> amfval) list \<Rightarrow> (bytes \<times> amfval) list) \<Rightarrow> ChunkStream \<Rightarrow> (string \<times> string) list \<Rightarrow> ConnServer \<Rightarrow> exn option \<times> ConnServer" where
  "onStatuses rng cur [] cs = (None, cs)"
| "onStatuses rng cur (ev # evs) cs = then_do (onStatus rng cur ev cs) (onStatuses rng cur evs)"

definition user_control :: "(Conn \<Rightarrow> exn option \<times> Conn) \<Rightarrow> ConnServer \<Rightarrow> exn option \<times> ConnServer" where
  "user_control f cs = (case f (cs_conn cs) of (e, conn) \<Rightarrow> (e, cs\<lparr>cs_conn := conn\<rparr>))"

definition playResp ::
    "((bytes \<times> amfval) list \<Rightarrow> (bytes \<times> amfval) list) \<Rightarrow> ChunkStream \<Rightarrow> ConnServer \<Rightarrow> exn option \<times> ConnServer" where
  "playResp rng cur cs =
     then_do (user_control SetRecorded cs) (\<lambda>cs.
     then_do (user_control SetBegin cs) (\<lambda>cs.
     then_do (onStatuses rng cur play_events cs) cs_Flush))"

section \<open>Dispatch\<close>

definition run_command ::
    "((bytes \<times> amfval) list \<Rightarrow> (bytes \<times> amfval) list) \<Rightarrow> ChunkStream \<Rightarrow> bytes \<Rightarrow> amfval list \<Rightarrow> ConnServer \<Rightarrow> exn option \<times> ConnServer" where
  "run_command rng c name vs cs =
     (if name = gostr ''connect'' then then_do (connect vs cs) (connectResp rng c)
      else if name = gostr ''createStream'' then createStreamResp c (createStream vs cs)
      else if name = gostr ''publish'' then
        then_do (publishResp rng c (publishOrPlay 0 vs cs)) (\<lambda>cs. (None, cs\<lparr>cs_done := True, cs_isPublisher := True\<rparr>))
      else if name = gostr ''play'' then
        then_do (playResp rng c (publishOrPlay 0 vs cs)) (\<lambda>cs. (None, cs\<lparr>cs_done := True, cs_isPublisher := False\<rparr>))
      else if name = gostr ''FCPublish'' then (None, fcPublish vs cs)
      else if name = gostr ''releaseStream'' then (None, releaseStream vs cs)
      else (None, cs))"

definition handleCmdMsg ::
    "((bytes \<times> amfval) list \<Rightarrow> (bytes \<times> amfval) list) \<Rightarrow> ChunkStream \<Rightarrow> ConnServer \<Rightarrow> exn option \<times> ConnServer" where
  "handleCmdMsg rng c cs =
     (case (if TypeID c = 17 then slice (Data c) 1 (length (Data c)) else Inr (Data c)) of
        Inl e \<Rightarrow> (Some e, cs)
      | Inr d \<Rightarrow>
          (case DecodeBatch 0 ((cs_decoder cs)\<lparr>amf_rd := d\<rparr>) of
             (vs, e, dec) \<Rightarrow>
               (let cs = cs\<lparr>cs_decoder := dec\<rparr>; c = c\<lparr>Data := d\<rparr>
                in if e \<noteq> Err EOF then (Some e, cs)
                   else (case vs of
                           [] \<Rightarrow> (Some (Panic IndexOutOfRange), cs)
                         | AString name # vs \<Rightarrow> run_command rng c name vs cs
                         | _ # _ \<Rightarrow> (None, cs)))))"

section \<open>Reading commands\<close>

text \<open>Writing does not touch the input, so that every round of \<^verbatim>\<open>ReadMsg\<close> leaves less of it.\<close>

lemma WriteUint_rd:
  "WriteUintBE v n rw = (e, rw') \<Longrightarrow> rd_in rw' = rd_in rw" "WriteUintLE v n rw = (e, rw') \<Longrightarrow> rd_in rw' = rd_in rw"
proof -
  have "WriteUintBE_loop n v rw = (e, rw') \<Longrightarrow> rd_in rw' = rd_in rw" for n v rw
    by (induction n v rw rule: WriteUintBE_loop.induct) (auto split: prod.splits option.splits)
  then show "WriteUintBE v n rw = (e, rw') \<Longrightarrow> rd_in rw' = rd_in rw"
    by (auto simp: WriteUintBE_def split: option.splits)
  have "WriteUintLE_loop n v rw = (e, rw') \<Longrightarrow> rd_in rw' = rd_in rw" for n v rw
    by (induction n v rw rule: WriteUintLE_loop.induct) (auto split: prod.splits option.splits)
  then show "WriteUintLE v n rw = (e, rw') \<Longrightarrow> rd_in rw' = rd_in rw"
    by (auto simp: WriteUintLE_def split: option.splits)
qed

lemma put_rd [simp]: "rd_in (putBE v n rw) = rd_in rw" "rd_in (putLE v n rw) = rd_in rw"
  using WriteUint_rd [of v n rw] by (metis prod.collapse)+

lemma writeHeader_rd: "writeHeader cs w = (e, w') \<Longrightarrow> rd_in w' = rd_in w"
  by (auto simp: writeHeader_def writeBasicHeader_def writeExtended_def Let_def split: if_splits)

lemma rw_Write_rd: "rw_Write p w = (e, w') \<Longrightarrow> rd_in w' = rd_in w"
  by (auto simp: rw_Write_def split: option.splits prod.splits)

lemma rw_Flush_rd: "rw_Flush w = (e, w') \<Longrightarrow> rd_in w' = rd_in w"
  by (auto simp: rw_Flush_def split: option.splits prod.splits if_splits)

lemma writeChunk_loop_rd: "writeChunk_loop k n i t cs w = (e, cs', w') \<Longrightarrow> rd_in w' = rd_in w"
proof (induction k n i t cs w rule: writeChunk_loop.induct)
  case (1 k n i t cs w)
  define c1 where "c1 = cs\<lparr>Format := (if i = 0 then 0 else 3)\<rparr>"
  obtain e1 w1 where h: "writeHeader c1 w = (e1, w1)" by force
  note h1 = h [unfolded c1_def]
  define start where "start = word_of_nat i * k"
  define avail where "avail = word_of_nat (length (Data c1)) - start"
  define inc where "inc = (if avail \<le> k then avail else k)"
  define body where "body = slice (Data c1) (unat start) (unat (start + inc))"
  note defs = c1_def start_def avail_def inc_def body_def
  have step: "writeChunk_loop k n i t cs w =
     (if \<not> i \<le> n \<or> t = Length cs then (None, cs, w)
      else case e1 of Some e \<Rightarrow> (Some (Err e), c1, w1)
      | None \<Rightarrow> (case body of Inl e \<Rightarrow> (Some e, c1, w1)
        | Inr buf \<Rightarrow> (case rw_Write buf w1 of (Some e, w2) \<Rightarrow> (Some (Err e), c1, w2)
          | (None, w2) \<Rightarrow> writeChunk_loop k n (Suc i) (t + inc) c1 w2)))"
    by (cases e1; cases "i \<le> n"; cases "t = Length cs"; subst writeChunk_loop.simps)
      (simp_all only: h1 defs Let_def prod.case option.case simp_thms if_True if_False)
  have ih: "rd_in w' = rd_in w2"
    if "i \<le> n" "t \<noteq> Length cs" "e1 = None" "body = Inr buf" "rw_Write buf w1 = (None, w2)"
      "writeChunk_loop k n (Suc i) (t + inc) c1 w2 = (e, cs', w')" for buf w2
    using "1.IH" [OF _ that(2) c1_def h [symmetric] that(3) start_def avail_def inc_def refl that(4) [unfolded body_def]
        that(5) [symmetric] refl that(6)] that(1) by simp
  show ?case
    using "1.prems" writeHeader_rd [OF h] unfolding step
    by (auto split: if_splits option.splits sum.splits prod.splits) (metis rw_Write_rd ih)+
qed

lemma writeChunk_rd: "writeChunk cs k w = (e, cs', w') \<Longrightarrow> rd_in w' = rd_in w"
  by (auto simp: writeChunk_def Let_def split: if_splits dest: writeChunk_loop_rd)

lemma conn_Write_rd: "conn_Write c conn = (e, c', conn') \<Longrightarrow> rd_in (conn_rw conn') = rd_in (conn_rw conn)"
  by (auto simp: conn_Write_def split: sum.splits prod.splits if_splits dest!: writeChunk_rd)
    (auto simp: map_sum_def split: sum.splits)

definition cs_input :: "ConnServer \<Rightarrow> bytes" where
  "cs_input cs = rd_in (conn_rw (cs_conn cs))"

text \<open>A result that has left the input alone; the rules follow the operations.\<close>

definition keeps :: "ConnServer \<Rightarrow> exn option \<times> ConnServer \<Rightarrow> bool" where
  "keeps cs r \<longleftrightarrow> cs_input (snd r) = cs_input cs"

named_theorems keeps_intros

lemma keeps_pure [keeps_intros]: "cs_input cs' = cs_input cs \<Longrightarrow> keeps cs (e, cs')"
  by (simp add: keeps_def)

lemma keeps_then [keeps_intros]: "keeps cs r \<Longrightarrow> (\<And>s. cs_input s = cs_input cs \<Longrightarrow> keeps s (f s)) \<Longrightarrow> keeps cs (then_do r f)"
  by (cases r; cases "fst r") (auto simp: keeps_def)

lemma keeps_write [keeps_intros]: "keeps cs (cs_write_ignored c cs)"
  by (auto simp: cs_write_ignored_def write_ignored_def keeps_def cs_input_def split: sum.splits prod.splits dest!: conn_Write_rd)

lemma keeps_flush [keeps_intros]: "keeps cs (cs_Flush cs)"
  by (auto simp: cs_Flush_def conn_Flush_def keeps_def cs_input_def split: prod.splits dest!: rw_Flush_rd)

lemma keeps_writeMsg [keeps_intros]: "keeps cs (writeMsg csid streamID args cs)"
  by (auto simp: writeMsg_def split: sum.splits intro!: keeps_intros)

lemma keeps_onStatuses [keeps_intros]: "keeps cs (onStatuses rng cur evs cs)"
  by (induction evs arbitrary: cs) (auto simp: onStatus_def split: prod.splits intro!: keeps_intros)

lemma keeps_user_control [keeps_intros]: "keeps cs (user_control SetRecorded cs)" "keeps cs (user_control SetBegin cs)"
  by (auto simp: user_control_def SetRecorded_def SetBegin_def keeps_def cs_input_def split: sum.splits prod.splits dest!: conn_Write_rd)

lemma keeps_connect [keeps_intros]: "keeps cs (connect vs cs)"
  by (induction vs cs rule: connect.induct) (auto simp: keeps_def cs_input_def then_do_def split: prod.splits option.splits)

lemma createStream_input [simp]: "cs_input (createStream vs cs) = cs_input cs"
  by (induction vs cs rule: createStream.induct) (auto simp: cs_input_def)

lemma publishOrPlay_input [simp]: "cs_input (publishOrPlay k vs cs) = cs_input cs"
  by (induction k vs cs rule: publishOrPlay.induct) (auto simp: cs_input_def)

lemma keeps_eq: "cs_input s = cs_input cs \<Longrightarrow> keeps s r \<Longrightarrow> keeps cs r"
  by (simp add: keeps_def)

lemma keeps_run_command [keeps_intros]: "keeps cs (run_command rng c name vs cs)"
proof -
  have "keeps cs (connectResp rng c cs)" for cs
    by (auto simp: connectResp_def Let_def intro!: keeps_intros)
  moreover have "keeps cs (createStreamResp c (createStream vs cs))"
    by (rule keeps_eq [of "createStream vs cs"]) (auto simp: createStreamResp_def intro!: keeps_intros)
  moreover have "keeps cs (publishResp rng c (publishOrPlay 0 vs cs))"
    by (rule keeps_eq [of "publishOrPlay 0 vs cs"]) (auto simp: publishResp_def onStatus_def intro!: keeps_intros)
  moreover have "keeps cs (playResp rng c (publishOrPlay 0 vs cs))"
    by (rule keeps_eq [of "publishOrPlay 0 vs cs"]) (auto simp: playResp_def intro!: keeps_intros)
  ultimately show ?thesis
    by (auto simp: run_command_def fcPublish_def releaseStream_def cs_input_def intro!: keeps_intros)
qed

lemma keeps_handleCmdMsg: "keeps cs (handleCmdMsg rng c cs)"
proof -
  have i: "cs_input (cs\<lparr>cs_decoder := dec\<rparr>) = cs_input cs" for dec by (simp add: cs_input_def)
  define step where "step = (\<lambda>vs c cs. case vs of [] \<Rightarrow> (Some (Panic IndexOutOfRange), cs)
     | AString name # vs \<Rightarrow> run_command rng c name vs cs | _ # _ \<Rightarrow> (None, cs))"
  have s: "keeps cs (step vs c cs)" for vs c cs
    unfolding step_def by (cases vs; (cases "hd vs")?) (auto intro: keeps_intros)
  have "handleCmdMsg rng c cs = (case (if TypeID c = 17 then slice (Data c) 1 (length (Data c)) else Inr (Data c)) of
        Inl e \<Rightarrow> (Some e, cs)
      | Inr d \<Rightarrow> (case DecodeBatch 0 ((cs_decoder cs)\<lparr>amf_rd := d\<rparr>) of (vs, e, dec) \<Rightarrow>
          if e \<noteq> Err EOF then (Some e, cs\<lparr>cs_decoder := dec\<rparr>) else step vs (c\<lparr>Data := d\<rparr>) (cs\<lparr>cs_decoder := dec\<rparr>)))"
    unfolding handleCmdMsg_def step_def Let_def ..
  moreover have "keeps cs (if e \<noteq> Err EOF then (Some e, cs\<lparr>cs_decoder := dec\<rparr>) else step vs c (cs\<lparr>cs_decoder := dec\<rparr>))" for e dec vs c
    using keeps_eq [OF i s] keeps_pure [OF i] by simp
  ultimately show ?thesis
    using keeps_pure [of cs cs] by (simp split: sum.splits prod.splits del: split_paired_All)
qed

lemma conn_ack_rd: "conn_ack n conn = (e, conn') \<Longrightarrow> rd_in (conn_rw conn') = rd_in (conn_rw conn)"
  by (auto simp: conn_ack_def Let_def split: if_splits sum.splits prod.splits option.splits dest!: writeChunk_rd)

lemma conn_Read_loop_progress:
  "conn_Read_loop conn = (None, cs, conn') \<Longrightarrow> length (rd_in (conn_rw conn')) < length (rd_in (conn_rw conn))"
proof (induction conn rule: conn_Read_loop.induct)
  case (1 conn)
  obtain e cs1 conn1 where st: "conn_Read_step conn = (e, cs1, conn1)" by (metis prod_cases3)
  with "1.prems" have "e = None" by (auto simp: conn_Read_loop.simps [of conn] split: option.splits)
  with st "1.prems" "1.IH" [OF st [symmetric]] conn_Read_step_progress [of conn cs1 conn1] show ?case
    by (fastforce simp: conn_Read_loop.simps [of conn] split: if_splits)
qed

lemma conn_Read_progress:
  assumes "conn_Read c conn = (None, c', conn')"
  shows "length (rd_in (conn_rw conn')) < length (rd_in (conn_rw conn))"
proof -
  obtain conn1 where c1: "conn_Read_loop conn = (None, c', conn1)"
    using assms by (auto simp: conn_Read_def split: prod.splits option.splits sum.splits)
  obtain conn2 where h: "handleControlMsg c' conn1 = Inr conn2" and "conn_ack (Length c') conn2 = (None, conn')"
    using assms c1 by (auto simp: conn_Read_def split: prod.splits option.splits sum.splits)
  then have "rd_in (conn_rw conn') = rd_in (conn_rw conn2)" using conn_ack_rd by simp
  moreover have "conn_rw conn2 = conn_rw conn1"
    using h by (auto simp: handleControlMsg_def map_sum_def split: if_splits sum.splits)
  ultimately show ?thesis using conn_Read_loop_progress [OF c1] by simp
qed

function ReadMsg ::
    "((bytes \<times> amfval) list \<Rightarrow> (bytes \<times> amfval) list) \<Rightarrow> ChunkStream \<Rightarrow> ConnServer \<Rightarrow> exn option \<times> ConnServer" where
  "ReadMsg rng c cs =
     (case conn_Read c (cs_conn cs) of
        (Some e, c, conn) \<Rightarrow> (Some e, cs\<lparr>cs_conn := conn\<rparr>)
      | (None, c, conn) \<Rightarrow>
          (let cs = cs\<lparr>cs_conn := conn\<rparr>
           in case (if TypeID c = 20 \<or> TypeID c = 17 then handleCmdMsg rng c cs else (None, cs)) of
                (Some e, cs) \<Rightarrow> (Some e, cs)
              | (None, cs) \<Rightarrow> if cs_done cs then (None, cs) else ReadMsg rng c cs))"
  by pat_completeness auto
termination
proof (relation "measure (\<lambda>(rng, c, cs). length (cs_input cs))", goal_cases)
  case (2 rng c cs x y c1 conn1 cs1 z cs2)
  have "length (cs_input cs1) < length (cs_input cs)"
    using 2 conn_Read_progress [of c "cs_conn cs" c1 conn1] by (auto simp: cs_input_def)
  moreover have "cs_input cs2 = cs_input cs1"
    using 2 keeps_handleCmdMsg [of cs1 rng c1] by (auto simp: keeps_def split: if_splits) (metis snd_conv)+
  ultimately show ?case by simp
qed simp

declare ReadMsg.simps [simp del]

section \<open>Messages of a stream\<close>

definition IsPublisher :: "ConnServer \<Rightarrow> bool" where
  "IsPublisher cs = cs_isPublisher cs"

definition cs_Write :: "ChunkStream \<Rightarrow> ConnServer \<Rightarrow> exn option \<times> ConnServer" where
  "cs_Write c cs =
     (case (if TypeID c = TagScriptDataAMF0 \<or> TypeID c = TagScriptDataAMF3
            then bindR (MetaDataReform (Data c) DEL) (\<lambda>d. Inr (c\<lparr>Data := d, Length := word_of_nat (length d)\<rparr>))
            else Inr c) of
        Inl e \<Rightarrow> (Some e, cs)
      | Inr c \<Rightarrow> (case conn_Write c (cs_conn cs) of (e, _, conn) \<Rightarrow> (e, cs\<lparr>cs_conn := conn\<rparr>)))"

definition cs_Read :: "ChunkStream \<Rightarrow> ConnServer \<Rightarrow> exn option \<times> ChunkStream \<times> ConnServer" where
  "cs_Read c cs = (case conn_Read c (cs_conn cs) of (e, c, conn) \<Rightarrow> (e, c, cs\<lparr>cs_conn := conn\<rparr>))"

definition cs_GetInfo :: "ConnServer \<Rightarrow> bytes \<times> bytes \<times> bytes" where
  "cs_GetInfo cs =
     (App (cs_ConnInfo cs), pub_Name (cs_PublishInfo cs), TcURL (cs_ConnInfo cs) @ gostr ''/'' @ pub_Name (cs_PublishInfo cs))"

section \<open>The replies can be sent\<close>

text \<open>The replies are made of short strings, numbers, nil and objects of these, in any order of their members.\<close>

fun small_value :: "amfval \<Rightarrow> bool" where
  "small_value (AString s) \<longleftrightarrow> length s \<le> 64"
| "small_value (AInt _) \<longleftrightarrow> True"
| "small_value ANil \<longleftrightarrow> True"
| "small_value _ \<longleftrightarrow> False"

definition small_members :: "(bytes \<times> amfval) list \<Rightarrow> bool" where
  "small_members kvs \<longleftrightarrow> length kvs \<le> 8 \<and> (\<forall>(k, v) \<in> set kvs. length k \<le> 64 \<and> small_value v)"

definition small_arg :: "amfval \<Rightarrow> bool" where
  "small_arg v \<longleftrightarrow> small_value v \<or> (\<exists>kvs. v = AObject kvs \<and> small_members kvs)"

text \<open>Ranging over a map visits each entry once.\<close>

definition range_order :: "((bytes \<times> amfval) list \<Rightarrow> (bytes \<times> amfval) list) \<Rightarrow> bool" where
  "range_order rng \<longleftrightarrow> (\<forall>kvs. set (rng kvs) = set kvs \<and> length (rng kvs) = length kvs)"

lemma small_members_order: "range_order rng \<Longrightarrow> small_members kvs \<Longrightarrow> small_members (rng kvs)"
  by (simp add: small_members_def range_order_def)

lemma length_gostr [simp]: "length (gostr s) = length s"
  by (simp add: gostr_def)

lemma EncodeAmf0_small: "small_value v \<Longrightarrow> \<exists>b. EncodeAmf0 v = Inr b \<and> b \<noteq> [] \<and> length b \<le> 100"
  by (cases v) (auto simp: EncodeAmf0String_def EncodeAmf0Number_def EncodeAmf0Null_def marker_if_def)

lemma encodeMembers_small:
  "(\<forall>(k, v) \<in> set kvs. length k \<le> 64 \<and> small_value v) \<Longrightarrow>
   \<exists>b. encodeMembers kvs = Inr b \<and> length b \<le> 200 * length kvs + 10"
proof (induction kvs)
  case Nil
  show ?case by (simp add: EncodeAmf0String_def marker_if_def)
next
  case (Cons x kvs)
  obtain k v where x: "x = (k, v)" by (cases x)
  obtain b where "EncodeAmf0 v = Inr b" "length b \<le> 100" using EncodeAmf0_small [of v] Cons.prems x by auto
  moreover obtain bs where "encodeMembers kvs = Inr bs" "length bs \<le> 200 * length kvs + 10" using Cons by auto
  moreover have "length (EncodeAmf0String k False) \<le> 66"
    using Cons.prems x by (simp add: EncodeAmf0String_def marker_if_def)
  ultimately show ?case using x by auto
qed

lemma EncodeBatch0_small:
  "list_all small_arg args \<Longrightarrow> \<exists>b. EncodeBatch0 args = Inr b \<and> length b \<le> 2000 * length args \<and> (args \<noteq> [] \<longrightarrow> b \<noteq> [])"
proof (induction args)
  case (Cons v args)
  have "\<exists>b. EncodeAmf0 v = Inr b \<and> b \<noteq> [] \<and> length b \<le> 2000"
  proof (cases "small_value v")
    case True
    then show ?thesis using EncodeAmf0_small [of v] by auto
  next
    case False
    then obtain kvs where kvs: "v = AObject kvs" "small_members kvs" using Cons.prems by (auto simp: small_arg_def)
    obtain b where "encodeMembers kvs = Inr b" "length b \<le> 200 * length kvs + 10"
      using encodeMembers_small [of kvs] kvs(2) by (auto simp: small_members_def)
    with kvs show ?thesis by (auto simp: small_members_def marker_if_def)
  qed
  moreover obtain bs where "EncodeBatch0 args = Inr bs" "length bs \<le> 2000 * length args" using Cons by auto
  ultimately show ?case by auto
qed simp

text \<open>A connection between two commands: it can be read and written, and \<open>rest\<close> is still to be read.\<close>

definition session :: "u32 \<Rightarrow> bytes \<Rightarrow> ConnServer \<Rightarrow> bool" where
  "session k rest cs \<longleftrightarrow> ready (cs_conn cs) \<and> remoteChunkSize (cs_conn cs) = k \<and> cs_input cs = rest \<and> amf_rd (cs_decoder cs) = []"

lemma emitted_ready:
  assumes "ready conn" and "emitted (conn_rw conn) bs w" and "ck \<noteq> 0"
  shows "ready (conn\<lparr>chunkSize := ck, conn_rw := w\<rparr>)" and "rd_in w = rd_in (conn_rw conn)"
proof -
  have w: "rw_good w" "w = (conn_rw conn)\<lparr>wr := wr w\<rparr>" using assms(2) by (simp_all add: emitted_def)
  have "readError w = readError (conn_rw conn)" "rd_in w = rd_in (conn_rw conn)" by (subst w(2), simp)+
  with assms w(1) show "ready (conn\<lparr>chunkSize := ck, conn_rw := w\<rparr>)" and "rd_in w = rd_in (conn_rw conn)"
    by (auto simp: ready_def key_idle_def)
qed

lemma write_session:
  assumes "session k rest cs" and "c = Inr m" and "sized m" and "Data m \<noteq> []"
    and "TypeID m = idSetChunkSize \<longrightarrow> 4 \<le> length (Data m) \<and> be_word (take 4 (Data m)) \<noteq> (0 :: u32)"
  shows "\<exists>conn. cs_write_ignored c cs = (None, cs\<lparr>cs_conn := conn\<rparr>) \<and> session k rest (cs\<lparr>cs_conn := conn\<rparr>)"
proof -
  let ?conn = "cs_conn cs"
  let ?k = "if TypeID m = idSetChunkSize then be_word (take 4 (Data m)) else chunkSize ?conn"
  have r: "ready ?conn" "remoteChunkSize ?conn = k" "rd_in (conn_rw ?conn) = rest" "amf_rd (cs_decoder cs) = []"
    using assms(1) by (simp_all add: session_def cs_input_def)
  have kk: "?k \<noteq> 0" "rw_good (conn_rw ?conn)" using assms(5) r(1) by (auto simp: ready_def)
  obtain m' w where w: "writeChunk m ?k (conn_rw ?conn) = (None, m', w)" "emitted (conn_rw ?conn) (message_bytes (unat ?k) (chooseCSID m)) w"
    using writeChunk_emits [OF assms(3,4) kk] by blast
  have "conn_Write m ?conn = (None, m', ?conn\<lparr>chunkSize := ?k, conn_rw := w\<rparr>)"
    using w(1) assms(5) by (auto simp: conn_Write_def BigEndian_Uint32_def)
  with emitted_ready [OF r(1) w(2) kk(1)] r assms(2) show ?thesis
    by (intro exI [of _ "?conn\<lparr>chunkSize := ?k, conn_rw := w\<rparr>"])
      (simp add: cs_write_ignored_def write_ignored_def session_def cs_input_def)
qed

lemma flush_session:
  assumes "session k rest cs"
  shows "\<exists>conn. cs_Flush cs = (None, cs\<lparr>cs_conn := conn\<rparr>) \<and> session k rest (cs\<lparr>cs_conn := conn\<rparr>)"
proof -
  obtain w where w: "rw_Flush (conn_rw (cs_conn cs)) = (None, (conn_rw (cs_conn cs))\<lparr>wr := w\<rparr>)" "bufw_good w"
    using rw_Flush_good [of "conn_rw (cs_conn cs)"] assms by (auto simp: session_def ready_def)
  then show ?thesis
    using assms by (intro exI [of _ "(cs_conn cs)\<lparr>conn_rw := (conn_rw (cs_conn cs))\<lparr>wr := w\<rparr>\<rparr>"])
      (auto simp: cs_Flush_def conn_Flush_def session_def cs_input_def ready_def key_idle_def rw_good_def)
qed

lemma writeMsg_session:
  assumes "session k rest cs" and "list_all small_arg args" and "args \<noteq> []" and "length args \<le> 8"
  shows "\<exists>conn. writeMsg csid streamID args cs = (None, cs\<lparr>cs_conn := conn\<rparr>) \<and> session k rest (cs\<lparr>cs_conn := conn\<rparr>)"
proof -
  obtain b where b: "EncodeBatch0 args = Inr b" "b \<noteq> []" "length b \<le> 16000"
    using EncodeBatch0_small [OF assms(2)] assms(3,4) by auto
  let ?m = "command_message csid streamID b"
  have "unat (word_of_nat (length b) :: u32) = length b" using b(3) by (intro unat_small) simp
  then have "sized ?m" "Data ?m \<noteq> []" "TypeID ?m = 20" using b by (simp_all add: sized_def command_message_def)
  then obtain conn1 where c1: "cs_write_ignored (Inr ?m) cs = (None, cs\<lparr>cs_conn := conn1\<rparr>)" "session k rest (cs\<lparr>cs_conn := conn1\<rparr>)"
    using write_session [OF assms(1) refl, of ?m] by auto
  from flush_session [OF c1(2)] c1(1) b(1) show ?thesis by (auto simp: writeMsg_def)
qed

section \<open>One command\<close>

definition command :: "u32 \<Rightarrow> ChunkStream \<Rightarrow> amfval list \<Rightarrow> bool" where
  "command k m args \<longleftrightarrow> ok_message k m \<and> TypeID m = 20 \<and> EncodeBatch0 args = Inr (Data m) \<and> wfElements args \<and> \<not> endsElements args"

lemma ReadMsg_command:
  assumes "session k (message_bytes (unat k) (chooseCSID m) @ rest) cs" and "k \<noteq> 0" and "command k m (AString name # args)"
  shows "\<exists>c conn. session k rest (cs\<lparr>cs_conn := conn\<rparr>) \<and>
    ReadMsg rng c0 cs = (case run_command rng c name (normElements args) (cs\<lparr>cs_conn := conn\<rparr>) of
       (Some e, cs) \<Rightarrow> (Some e, cs) | (None, cs) \<Rightarrow> if cs_done cs then (None, cs) else ReadMsg rng c cs)"
proof -
  have m: "ok_message k m" "TypeID m = 20" "EncodeBatch0 (AString name # args) = Inr (Data m)"
      "wfElements (AString name # args)" "\<not> endsElements (AString name # args)"
    using assms(3) by (simp_all add: command_def)
  obtain c conn where r: "conn_Read c0 (cs_conn cs) = (None, c, conn)" "same_message (chooseCSID m) c" "ready conn"
      "remoteChunkSize conn = next_size k m" "rd_in (conn_rw conn) = rest"
    using conn_Read_message [OF m(1), of "cs_conn cs" rest c0] assms(1,2) by (auto simp: session_def cs_input_def)
  let ?cs = "cs\<lparr>cs_conn := conn\<rparr>"
  have c: "TypeID c = 20" "Data c = Data m" using r(2) m(2) by (simp_all add: same_message_def)
  have k: "next_size k m = k" using m(2) by (simp add: next_size_def)
  have s: "session k rest ?cs" using assms(1) r k by (simp add: session_def cs_input_def)
  have d: "DecodeBatch 0 ((cs_decoder cs)\<lparr>amf_rd := Data m\<rparr>) = (normElements (AString name # args), Err EOF, cs_decoder cs)"
    using EncodeBatch0_decoded [OF m(4,5), of "cs_decoder cs"] m(3) assms(1) unfolding session_def by (auto simp del: EncodeBatch0.simps)
  have "handleCmdMsg rng c ?cs = run_command rng c name (normElements args) ?cs"
    using c(1) d [folded c(2)] by (simp add: handleCmdMsg_def Let_def)
  then show ?thesis
    using s c(1) r(1) by (intro exI [of _ c] exI [of _ conn]) (simp add: ReadMsg.simps [of rng c0 cs] Let_def)
qed

section \<open>The commands of a client\<close>

lemma float_one: "int64_of_f64 (float64_of_int 1) = 1"
proof -
  have "float64_of_int 1 = 0x3ff0000000000000"
    by (simp add: float64_of_int_def float64_of_pos_def bit_len.simps Let_def)
  moreover have "rat_of_f64 0x3ff0000000000000 = Some 1" by (simp add: rat_of_f64_def Let_def)
  ultimately show ?thesis by (simp add: int64_of_f64_def)
qed

lemma map_of_normMembers: "map_of (normMembers obj) k = map_option norm0 (map_of obj k)"
  by (induction obj) auto

lemma gostr_inject [simp]: "gostr s = gostr u \<longleftrightarrow> map (of_char :: char \<Rightarrow> byte) s = map of_char u"
  by (simp add: gostr_def)

text \<open>What the server takes from the object of \<^verbatim>\<open>connect\<close>.\<close>

definition connect_fields :: "(bytes \<times> amfval) list \<Rightarrow> bytes \<Rightarrow> bytes \<Rightarrow> bool" where
  "connect_fields obj app url \<longleftrightarrow> map_of obj (gostr ''app'') = Some (AString app) \<and> map_of obj (gostr ''tcUrl'') = Some (AString url) \<and>
     (\<forall>v. map_of obj (gostr ''flashVer'') = Some v \<longrightarrow> (\<exists>s. v = AString s)) \<and>
     (\<forall>v. map_of obj (gostr ''objectEncoding'') = Some v \<longrightarrow> (\<exists>f. v = ANumber f) \<or> (\<exists>i. v = AInt i))"

lemma connect_object_fields:
  assumes "connect_fields obj app url"
  shows "\<exists>ci'. connect_object (normMembers obj) ci = (None, ci') \<and> App ci' = app \<and> TcURL ci' = url"
  using assms
  by (auto simp: connect_object_def with_member_def map_of_normMembers connect_fields_def as_string_def as_float_def
      split: option.splits)

lemma small_args [simp]:
  "small_arg (AString s) \<longleftrightarrow> length s \<le> 64" "small_arg (AInt i)" "small_arg ANil" "small_arg (AObject kvs) \<longleftrightarrow> small_members kvs"
  by (auto simp: small_arg_def)

lemma NewSetPeerBandwidth_sized: "\<exists>m. NewSetPeerBandwidth v = Inr m \<and> sized m \<and> Data m \<noteq> [] \<and> TypeID m = idSetPeerBandwidth"
proof -
  obtain d where "put_range PutU32BE (replicate 5 0) 0 5 v = Inr d" "length d = 5"
    using u32.put_range_eq [of 0 5 "replicate 5 0" v] by auto
  then show ?thesis
    by (auto simp: NewSetPeerBandwidth_def initControlMsg_def sized_def Let_def)
qed

lemma connectResp_session:
  assumes "session k rest cs" and "range_order rng"
  shows "\<exists>conn. connectResp rng c cs = (None, cs\<lparr>cs_conn := conn\<rparr>) \<and> session k rest (cs\<lparr>cs_conn := conn\<rparr>)"
proof -
  have z: "be_bytes 4 (v :: u32) \<noteq> []" for v by (metis length_be_bytes list.size(3) zero_neq_numeral)
  obtain a where a: "cs_write_ignored (NewWindowAckSize 2500000) cs = (None, cs\<lparr>cs_conn := a\<rparr>)" "session k rest (cs\<lparr>cs_conn := a\<rparr>)"
    using write_session [OF assms(1), of "NewWindowAckSize 2500000"] z by (auto simp: NewWindowAckSize_def initControlMsg_4 sized_def)
  obtain b where b: "cs_write_ignored (NewSetPeerBandwidth 2500000) (cs\<lparr>cs_conn := a\<rparr>) = (None, cs\<lparr>cs_conn := b\<rparr>)" "session k rest (cs\<lparr>cs_conn := b\<rparr>)"
    using write_session [OF a(2), of "NewSetPeerBandwidth 2500000"] NewSetPeerBandwidth_sized [of 2500000] by auto
  have "be_word (be_bytes 4 (1024 :: u32)) = (1024 :: u32)" by (simp add: be_word_be_bytes take_bit_full_word)
  then obtain d where d: "cs_write_ignored (NewSetChunkSize 1024) (cs\<lparr>cs_conn := b\<rparr>) = (None, cs\<lparr>cs_conn := d\<rparr>)" "session k rest (cs\<lparr>cs_conn := d\<rparr>)"
    using write_session [OF b(2), of "NewSetChunkSize 1024"] z by (auto simp: NewSetChunkSize_def initControlMsg_4 sized_def)
  have "small_members [(gostr ''fmsVer'', AString (gostr ''FMS/3,0,1,123'')), (gostr ''capabilities'', AInt 31)]"
    "small_members [(gostr ''level'', AString (gostr ''status'')), (gostr ''code'', AString (gostr ''NetConnection.Connect.Success'')),
      (gostr ''description'', AString (gostr ''Connection succeeded.'')), (gostr ''objectEncoding'', AInt i)]" for i
    by (simp_all add: small_members_def)
  note sm = this [THEN small_members_order [OF assms(2)]]
  from writeMsg_session [OF d(2), of "[AString (gostr ''_result''), AInt x, AObject (rng y), AObject (rng z)]" for x y z]
  show ?thesis using sm by (auto simp: connectResp_def a b d)
qed

lemma createStreamResp_session:
  assumes "session k rest cs"
  shows "\<exists>conn. createStreamResp c cs = (None, cs\<lparr>cs_conn := conn\<rparr>) \<and> session k rest (cs\<lparr>cs_conn := conn\<rparr>)"
  using writeMsg_session [OF assms, of "[AString (gostr ''_result''), AInt x, ANil, AInt y]" for x y]
  by (auto simp: createStreamResp_def)

lemma onStatus_session:
  assumes "session k rest cs" and "range_order rng" and "length code \<le> 64" and "length desc \<le> 64"
  shows "\<exists>conn. onStatus rng c (code, desc) cs = (None, cs\<lparr>cs_conn := conn\<rparr>) \<and> session k rest (cs\<lparr>cs_conn := conn\<rparr>)"
proof -
  have "small_members (status_event code desc)" using assms(3,4) by (simp add: status_event_def small_members_def)
  then have "small_members (rng (status_event code desc))" by (rule small_members_order [OF assms(2)])
  with writeMsg_session [OF assms(1), of "[AString (gostr ''onStatus''), AInt 0, ANil, AObject (rng (status_event code desc))]"]
  show ?thesis by (auto simp: onStatus_def)
qed

lemma onStatuses_session:
  assumes "session k rest cs" and "range_order rng" and "\<forall>(code, desc) \<in> set evs. length code \<le> 64 \<and> length desc \<le> 64"
  shows "\<exists>conn. onStatuses rng c evs cs = (None, cs\<lparr>cs_conn := conn\<rparr>) \<and> session k rest (cs\<lparr>cs_conn := conn\<rparr>)"
  using assms(1,3)
proof (induction evs arbitrary: cs)
  case Nil
  then show ?case by (auto intro!: exI [of _ "cs_conn cs"])
next
  case (Cons ev evs)
  obtain code desc where ev: "ev = (code, desc)" by (cases ev)
  obtain a where a: "onStatus rng c (code, desc) cs = (None, cs\<lparr>cs_conn := a\<rparr>)" "session k rest (cs\<lparr>cs_conn := a\<rparr>)"
    using onStatus_session [OF Cons.prems(1) assms(2), of code desc c] Cons.prems(2) ev by auto
  from Cons.IH [OF a(2)] Cons.prems(2) a(1) ev show ?case by auto
qed

lemma user_control_session:
  assumes "session k rest cs"
  shows "\<exists>conn. user_control SetRecorded cs = (None, cs\<lparr>cs_conn := conn\<rparr>) \<and> session k rest (cs\<lparr>cs_conn := conn\<rparr>)"
    and "\<exists>conn. user_control SetBegin cs = (None, cs\<lparr>cs_conn := conn\<rparr>) \<and> session k rest (cs\<lparr>cs_conn := conn\<rparr>)"
proof -
  have len: "length (fold (\<lambda>i d. d[f i := g i]) xs d) = length d" for f g and xs :: "nat list" and d :: bytes
    by (induction xs arbitrary: d) auto
  have m: "\<exists>m. bindR (userControlMsg ev 4) putStreamID1 = Inr m \<and> sized m \<and> Data m \<noteq> [] \<and> TypeID m = 4" for ev
  proof -
    obtain r where r: "userControlMsg ev 4 = Inr r" "length (Data r) = 6" "Length r = 6" "TypeID r = 4"
      by (simp add: userControlMsg_def Let_def)
    then obtain m where m: "putStreamID1 r = Inr m" "length (Data m) = 6" "Length m = 6" "TypeID m = 4"
      by (simp add: putStreamID1_def len del: fold_simps)
    then have "Data m \<noteq> []" by auto
    with r m show ?thesis by (simp add: sized_def)
  qed
  have u: "user_control SetRecorded cs = cs_write_ignored (bindR (userControlMsg streamIsRecorded 4) putStreamID1) cs"
      "user_control SetBegin cs = cs_write_ignored (bindR (userControlMsg streamBegin 4) putStreamID1) cs"
    by (simp_all add: user_control_def SetRecorded_def SetBegin_def cs_write_ignored_def write_ignored_def)
  have "\<exists>conn. cs_write_ignored (bindR (userControlMsg ev 4) putStreamID1) cs = (None, cs\<lparr>cs_conn := conn\<rparr>) \<and>
      session k rest (cs\<lparr>cs_conn := conn\<rparr>)" for ev
    using write_session [OF assms] m [of ev] by fastforce
  with u show "\<exists>conn. user_control SetRecorded cs = (None, cs\<lparr>cs_conn := conn\<rparr>) \<and> session k rest (cs\<lparr>cs_conn := conn\<rparr>)"
    and "\<exists>conn. user_control SetBegin cs = (None, cs\<lparr>cs_conn := conn\<rparr>) \<and> session k rest (cs\<lparr>cs_conn := conn\<rparr>)" by simp_all
qed

lemma playResp_session:
  assumes "session k rest cs" and "range_order rng"
  shows "\<exists>conn. playResp rng c cs = (None, cs\<lparr>cs_conn := conn\<rparr>) \<and> session k rest (cs\<lparr>cs_conn := conn\<rparr>)"
proof -
  obtain a where a: "user_control SetRecorded cs = (None, cs\<lparr>cs_conn := a\<rparr>)" "session k rest (cs\<lparr>cs_conn := a\<rparr>)"
    using user_control_session(1) [OF assms(1)] by blast
  obtain b where b: "user_control SetBegin (cs\<lparr>cs_conn := a\<rparr>) = (None, cs\<lparr>cs_conn := b\<rparr>)" "session k rest (cs\<lparr>cs_conn := b\<rparr>)"
    using user_control_session(2) [OF a(2)] by auto
  obtain d where d: "onStatuses rng c play_events (cs\<lparr>cs_conn := b\<rparr>) = (None, cs\<lparr>cs_conn := d\<rparr>)" "session k rest (cs\<lparr>cs_conn := d\<rparr>)"
    using onStatuses_session [OF b(2) assms(2), of play_events c] by (auto simp: play_events_def)
  from flush_session [OF d(2)] show ?thesis by (auto simp: playResp_def a b d)
qed

section \<open>Properties\<close>



text \<open>Each command of the client in turn.\<close>

lemma ReadMsg_connect:
  assumes "session k (message_bytes (unat k) (chooseCSID m) @ rest) cs" and "k \<noteq> 0" and "\<not> cs_done cs" and "range_order rng"
    and "command k m [AString (gostr ''connect''), AInt 1, AObject obj]" and "connect_fields obj app url"
  shows "\<exists>c cs'. ReadMsg rng c0 cs = ReadMsg rng c cs' \<and> session k rest cs' \<and> \<not> cs_done cs' \<and>
     App (cs_ConnInfo cs') = app \<and> TcURL (cs_ConnInfo cs') = url"
proof -
  obtain c n where r: "session k rest (cs\<lparr>cs_conn := n\<rparr>)"
      "ReadMsg rng c0 cs = (case run_command rng c (gostr ''connect'') [ANumber (float64_of_int 1), AObject (normMembers obj)] (cs\<lparr>cs_conn := n\<rparr>) of
         (Some e, cs) \<Rightarrow> (Some e, cs) | (None, cs) \<Rightarrow> if cs_done cs then (None, cs) else ReadMsg rng c cs)"
    using ReadMsg_command [OF assms(1,2,5), of rng c0] by auto
  obtain ci where ci: "connect_object (normMembers obj) (cs_ConnInfo cs) = (None, ci)" "App ci = app" "TcURL ci = url"
    using connect_object_fields [OF assms(6)] by blast
  let ?a = "cs\<lparr>cs_conn := n, cs_transactionID := 1, cs_ConnInfo := ci\<rparr>"
  have "session k rest ?a" using r(1) by (simp add: session_def cs_input_def)
  then obtain n2 where a: "connectResp rng c ?a = (None, ?a\<lparr>cs_conn := n2\<rparr>)" "session k rest (?a\<lparr>cs_conn := n2\<rparr>)"
    using connectResp_session [OF _ assms(4)] by blast
  then have "ReadMsg rng c0 cs = ReadMsg rng c (?a\<lparr>cs_conn := n2\<rparr>)"
    using r(2) ci(1) float_one assms(3) by (simp add: run_command_def)
  with a(2) ci assms(3) show ?thesis by (intro exI [of _ c] exI [of _ "?a\<lparr>cs_conn := n2\<rparr>"]) simp
qed

lemma ReadMsg_createStream:
  assumes "session k (message_bytes (unat k) (chooseCSID m) @ rest) cs" and "k \<noteq> 0" and "\<not> cs_done cs"
    and "command k m [AString (gostr ''createStream''), AInt i, ANil]"
  shows "\<exists>c cs'. ReadMsg rng c0 cs = ReadMsg rng c cs' \<and> session k rest cs' \<and> \<not> cs_done cs' \<and> cs_ConnInfo cs' = cs_ConnInfo cs"
proof -
  obtain c n where r: "session k rest (cs\<lparr>cs_conn := n\<rparr>)"
      "ReadMsg rng c0 cs = (case run_command rng c (gostr ''createStream'') [ANumber (float64_of_int i), ANil] (cs\<lparr>cs_conn := n\<rparr>) of
         (Some e, cs) \<Rightarrow> (Some e, cs) | (None, cs) \<Rightarrow> if cs_done cs then (None, cs) else ReadMsg rng c cs)"
    using ReadMsg_command [OF assms(1,2,4), of rng c0] by auto
  let ?a = "cs\<lparr>cs_conn := n, cs_transactionID := int64_of_f64 (float64_of_int i)\<rparr>"
  have "session k rest ?a" using r(1) by (simp add: session_def cs_input_def)
  then obtain n2 where a: "createStreamResp c ?a = (None, ?a\<lparr>cs_conn := n2\<rparr>)" "session k rest (?a\<lparr>cs_conn := n2\<rparr>)"
    using createStreamResp_session by blast
  then have "ReadMsg rng c0 cs = ReadMsg rng c (?a\<lparr>cs_conn := n2\<rparr>)"
    using r(2) assms(3) by (simp add: run_command_def)
  with a(2) assms(3) show ?thesis by (intro exI [of _ c] exI [of _ "?a\<lparr>cs_conn := n2\<rparr>"]) simp
qed

lemma ReadMsg_stream:
  assumes "session k (message_bytes (unat k) (chooseCSID m) @ rest) cs" and "k \<noteq> 0" and "range_order rng"
    and "command k m [AString verb, AInt j, ANil, AString name, AString kind]"
    and "verb = gostr ''publish'' \<or> verb = gostr ''play''"
  shows "\<exists>cs'. ReadMsg rng c0 cs = (None, cs') \<and> IsPublisher cs' = (verb = gostr ''publish'') \<and>
     pub_Name (cs_PublishInfo cs') = name \<and> cs_ConnInfo cs' = cs_ConnInfo cs \<and> cs_input cs' = rest"
proof -
  obtain c n where r: "session k rest (cs\<lparr>cs_conn := n\<rparr>)"
      "ReadMsg rng c0 cs = (case run_command rng c verb [ANumber (float64_of_int j), ANil, AString name, AString kind] (cs\<lparr>cs_conn := n\<rparr>) of
         (Some e, cs) \<Rightarrow> (Some e, cs) | (None, cs) \<Rightarrow> if cs_done cs then (None, cs) else ReadMsg rng c cs)"
    using ReadMsg_command [OF assms(1,2,4), of rng c0] by auto
  let ?a = "cs\<lparr>cs_conn := n, cs_transactionID := int64_of_f64 (float64_of_int j), cs_PublishInfo := (cs_PublishInfo cs)\<lparr>pub_Name := name, pub_Type := kind\<rparr>\<rparr>"
  have p: "publishOrPlay 0 [ANumber (float64_of_int j), ANil, AString name, AString kind] (cs\<lparr>cs_conn := n\<rparr>) = ?a"
    by simp
  have s: "session k rest ?a" using r(1) by (simp add: session_def cs_input_def)
  have pub: "\<exists>conn. publishResp rng c ?a = (None, ?a\<lparr>cs_conn := conn\<rparr>) \<and> session k rest (?a\<lparr>cs_conn := conn\<rparr>)"
    unfolding publishResp_def by (rule onStatus_session [OF s assms(3)]) simp_all
  have names: "gostr ''publish'' \<noteq> gostr ''connect''" "gostr ''publish'' \<noteq> gostr ''createStream''"
      "gostr ''play'' \<noteq> gostr ''connect''" "gostr ''play'' \<noteq> gostr ''createStream''" "gostr ''play'' \<noteq> gostr ''publish''"
    by simp_all
  from assms(5) show ?thesis
  proof
    assume v: "verb = gostr ''publish''"
    obtain conn where "publishResp rng c ?a = (None, ?a\<lparr>cs_conn := conn\<rparr>)" "session k rest (?a\<lparr>cs_conn := conn\<rparr>)" using pub by blast
    with v r(2) p names show ?thesis by (simp add: run_command_def IsPublisher_def session_def cs_input_def del: gostr_inject)
  next
    assume v: "verb = gostr ''play''"
    obtain conn where "playResp rng c ?a = (None, ?a\<lparr>cs_conn := conn\<rparr>)" "session k rest (?a\<lparr>cs_conn := conn\<rparr>)"
      using playResp_session [OF s assms(3)] by blast
    with v r(2) p names show ?thesis by (simp add: run_command_def IsPublisher_def session_def cs_input_def del: gostr_inject)
  qed
qed

text \<open>
  A client that sends \<^verbatim>\<open>connect\<close>, \<^verbatim>\<open>createStream\<close> and \<^verbatim>\<open>publish\<close> (or \<^verbatim>\<open>play\<close>) over a healthy connection ends the command
  exchange: \<^verbatim>\<open>ReadMsg\<close> returns without error, knows the application, the stream name and the URL the client gave and whether
  it is a publisher, and has read exactly the three messages. The order in which the runtime ranges over the objects of
  the replies does not matter.
\<close>

lemma command_exchange:
  assumes "session k (messages_bytes k [m1, m2, m3] @ rest) cs" and "k \<noteq> 0" and "\<not> cs_done cs" and "range_order rng"
    and "command k m1 [AString (gostr ''connect''), AInt 1, AObject obj]" and "connect_fields obj app url"
    and "command k m2 [AString (gostr ''createStream''), AInt i, ANil]"
    and "command k m3 [AString verb, AInt j, ANil, AString name, AString kind]"
    and "verb = gostr ''publish'' \<or> verb = gostr ''play''"
  shows "\<exists>cs'. ReadMsg rng c0 cs = (None, cs') \<and> IsPublisher cs' = (verb = gostr ''publish'') \<and>
     cs_GetInfo cs' = (app, name, url @ gostr ''/'' @ name) \<and> cs_input cs' = rest"
proof -
  have "next_size k m1 = k" "next_size k m2 = k" using assms(5,7) by (simp_all add: command_def next_size_def)
  then have s0: "session k (message_bytes (unat k) (chooseCSID m1) @ message_bytes (unat k) (chooseCSID m2) @
      message_bytes (unat k) (chooseCSID m3) @ rest) cs"
    using assms(1) by simp
  obtain c1 s1 where s1: "ReadMsg rng c0 cs = ReadMsg rng c1 s1" "session k (message_bytes (unat k) (chooseCSID m2) @
      message_bytes (unat k) (chooseCSID m3) @ rest) s1" "\<not> cs_done s1" "App (cs_ConnInfo s1) = app" "TcURL (cs_ConnInfo s1) = url"
    using ReadMsg_connect [OF s0 assms(2-6)] by blast
  obtain c2 s2 where s2: "ReadMsg rng c1 s1 = ReadMsg rng c2 s2" "session k (message_bytes (unat k) (chooseCSID m3) @ rest) s2"
      "cs_ConnInfo s2 = cs_ConnInfo s1"
    using ReadMsg_createStream [OF s1(2) assms(2) s1(3) assms(7)] by blast
  from ReadMsg_stream [OF s2(2) assms(2,4,8,9), of c2] s1 s2 show ?thesis by (auto simp: cs_GetInfo_def)
qed

lemma NewConn_ready: "ready (NewConn bs EOF None 4096)"
  by (simp add: ready_def NewConn_def NewReadWriter_def rw_good_def bufw_good_def key_idle_def)

lemma command_exists:
  assumes "list_all small_arg args" and "args \<noteq> []" and "length args \<le> 8" and "wfElements args" and "\<not> endsElements args"
  shows "\<exists>m. command k m args"
proof -
  obtain b where b: "EncodeBatch0 args = Inr b" "b \<noteq> []" "length b \<le> 16000"
    using EncodeBatch0_small [OF assms(1)] assms(2,3) by auto
  have "unat (word_of_nat (length b) :: u32) = length b" using b(3) by (intro unat_small) simp
  then have "command k (command_message 3 0 b) args"
    using b assms by (simp add: command_def command_message_def ok_message_def valid_message_def chooseCSID_def valid_csid_def maxpoolsize_def)
  then show ?thesis ..
qed

text \<open>
  Malformed commands panic. An empty command message (or one of type 17 with at most one byte) panics in the
  handler, and a \<^verbatim>\<open>connect\<close> whose \<^verbatim>\<open>app\<close> is no string panics when it is read from the wire. Nothing on the path from
  the listener recovers, so that the whole server stops.
\<close>

theorem malformed_command_panics:
  assumes "session k (message_bytes (unat k) (chooseCSID m) @ rest) cs" and "k \<noteq> 0"
    and "command k m [AString (gostr ''connect''), AObject obj]"
    and "map_of obj (gostr ''app'') = Some v" and "\<forall>s. v \<noteq> AString s"
  shows "is_panic (fst (ReadMsg rng c0 cs)) \<and>
     (\<forall>c. (TypeID c = 20 \<and> Data c = [] \<or> TypeID c = 17 \<and> length (Data c) \<le> 1) \<longrightarrow> is_panic (fst (handleCmdMsg rng c cs)))"
proof -
  obtain c n where r: "session k rest (cs\<lparr>cs_conn := n\<rparr>)"
      "ReadMsg rng c0 cs = (case run_command rng c (gostr ''connect'') [AObject (normMembers obj)] (cs\<lparr>cs_conn := n\<rparr>) of
         (Some e, cs) \<Rightarrow> (Some e, cs) | (None, cs) \<Rightarrow> if cs_done cs then (None, cs) else ReadMsg rng c cs)"
    using ReadMsg_command [OF assms(1,2,3), of rng c0] by auto
  have "as_string (norm0 v) = Inl (Panic TypeAssertion)" using assms(5) by (cases v) (auto simp: as_string_def)
  then have "connect_object (normMembers obj) ci = (Some (Panic TypeAssertion), ci)" for ci
    using assms(4) by (simp add: connect_object_def with_member_def map_of_normMembers)
  then have one: "is_panic (fst (ReadMsg rng c0 cs))"
    using r(2) by (simp add: run_command_def is_panic_def)
  have "DecodeBatch 0 ((cs_decoder cs)\<lparr>amf_rd := []\<rparr>) = ([], Err EOF, cs_decoder cs)"
    using EncodeBatch0_decoded [of "[]" "cs_decoder cs"] assms(1) by (simp add: session_def)
  then have "is_panic (fst (handleCmdMsg rng c cs))" if "TypeID c = 20 \<and> Data c = [] \<or> TypeID c = 17 \<and> length (Data c) \<le> 1" for c
    using that by (cases "Data c") (auto simp: handleCmdMsg_def slice_def is_panic_def Let_def)
  with one show ?thesis by blast
qed

theorem malformed_command_panics_witness:
  "\<exists>bs. is_panic (fst (ReadMsg id emptyChunkStream (NewConnServer (NewConn bs EOF None 4096))))"
proof -
  let ?obj = "[(gostr ''app'', AInt 7)]"
  have "\<exists>m. command 128 m [AString (gostr ''connect''), AObject ?obj]"
    by (intro command_exists) (simp_all add: gostr_def small_members_def)
  then obtain m where m: "command 128 m [AString (gostr ''connect''), AObject ?obj]" by blast
  let ?bs = "message_bytes (unat (128 :: u32)) (chooseCSID m)"
  have "session 128 (?bs @ []) (NewConnServer (NewConn ?bs EOF None 4096))"
    using NewConn_ready [of ?bs] by (simp add: session_def cs_input_def NewConnServer_def NewDecoder_def NewConn_def NewReadWriter_def)
  from malformed_command_panics [OF this _ m, of "AInt 7" id emptyChunkStream] show ?thesis by auto
qed

end
