(* ===== verification/ConnClient.thy ===== *)
theory ConnClient
  imports Handshake ConnServer
begin

text \<open>
  \<^verbatim>\<open>src/protocol/rtmp/core/conn_client.go\<close>: the client side of the command exchange, with which the relays connect to
  another server to publish or to play.

  The network is a parameter: \<open>dial\<close> is what name resolution and \<^verbatim>\<open>net.DialTCP\<close> give for a host (the buffered connection on the new
  socket, or an error), and \<open>parse\<close> is \<^verbatim>\<open>neturl.Parse\<close>, which gives host, path and query. \<open>rng\<close> is the order in which the
  runtime ranges over an object, as in \<open>ConnServer\<close>. Before \<^verbatim>\<open>Start\<close> the connection is nil.
\<close>

section \<open>State\<close>

record ConnClient =
  cc_transID :: int
  cc_url :: bytes
  cc_tcurl :: bytes
  cc_app :: bytes
  cc_title :: bytes
  cc_query :: bytes
  cc_curcmdName :: bytes
  cc_streamid :: u32
  cc_conn :: "Conn option"
  cc_decoder :: Decoder

definition NewConnClient :: ConnClient where
  "NewConnClient = \<lparr>cc_transID = 1, cc_url = [], cc_tcurl = [], cc_app = [], cc_title = [], cc_query = [], cc_curcmdName = [],
     cc_streamid = 0, cc_conn = None, cc_decoder = NewDecoder []\<rparr>"

abbreviation ErrResponse :: exn where "ErrResponse \<equiv> Err (Errorf ''response err'')"

definition with_conn :: "(Conn \<Rightarrow> exn option \<times> Conn) \<Rightarrow> ConnClient \<Rightarrow> exn option \<times> ConnClient" where
  "with_conn f c =
     (case cc_conn c of
        None \<Rightarrow> (Some (Panic NilDereference), c)
      | Some conn \<Rightarrow> (case f conn of (e, conn) \<Rightarrow> (e, c\<lparr>cc_conn := Some conn\<rparr>)))"

section \<open>Responses\<close>

text \<open>Messages are read until one is a command.\<close>

function read_command :: "ChunkStream \<Rightarrow> Conn \<Rightarrow> exn option \<times> ChunkStream \<times> Conn" where
  "read_command rc conn =
     (case conn_Read rc conn of
        (Some e, rc, conn) \<Rightarrow> (Some e, rc, conn)
      | (None, rc, conn) \<Rightarrow> if TypeID rc = 20 \<or> TypeID rc = 17 then (None, rc, conn) else read_command rc conn)"
  by pat_completeness auto
termination
  by (relation "measure (\<lambda>(rc, conn). length (rd_in (conn_rw conn)))") (auto dest: conn_Read_progress [OF sym])

declare read_command.simps [simp del]

text \<open>The check of \<^verbatim>\<open>objmap["code"]\<close>; a code that is no string panics.\<close>

definition check_code :: "(bytes \<times> amfval) list \<Rightarrow> bytes \<Rightarrow> exn option" where
  "check_code obj want =
     (case map_of obj (gostr ''code'') of
        None \<Rightarrow> None
      | Some v \<Rightarrow> (case as_string v of Inl e \<Rightarrow> Some e | Inr s \<Rightarrow> if s \<noteq> want then Some ErrResponse else None))"

definition is_setup :: "bytes \<Rightarrow> bool" where
  "is_setup cmd \<longleftrightarrow> cmd = gostr ''connect'' \<or> cmd = gostr ''createStream''"

text \<open>One value of a response at position \<open>k\<close>. An unexpected string becomes an error of its own, different from \<^verbatim>\<open>ErrResponse\<close>.\<close>

fun resp_value :: "nat \<Rightarrow> amfval \<Rightarrow> ConnClient \<Rightarrow> exn option \<times> ConnClient" where
  "resp_value k (AString s) c =
     (if is_setup (cc_curcmdName c) then (if s \<noteq> gostr ''_result'' then (Some (Err (Errorf ''v.(string)'')), c) else (None, c))
      else if cc_curcmdName c = gostr ''publish'' then (if s \<noteq> gostr ''onStatus'' then (Some ErrResponse, c) else (None, c))
      else (None, c))"
| "resp_value k (ANumber f) c =
     (if is_setup (cc_curcmdName c)
      then (let id = int64_of_f64 f
            in if k = 1 then (if id \<noteq> cc_transID c then (Some ErrResponse, c) else (None, c))
               else if k = 3 then (None, c\<lparr>cc_streamid := word_of_int id\<rparr>)
               else (None, c))
      else if cc_curcmdName c = gostr ''publish'' then (if int64_of_f64 f \<noteq> 0 then (Some ErrResponse, c) else (None, c))
      else (None, c))"
| "resp_value k (AObject obj) c =
     (if cc_curcmdName c = gostr ''connect'' then (check_code obj (gostr ''NetConnection.Connect.Success''), c)
      else if cc_curcmdName c = gostr ''publish'' then (check_code obj (gostr ''NetStream.Publish.Start''), c)
      else (None, c))"
| "resp_value k _ c = (None, c)"

fun resp_values :: "nat \<Rightarrow> amfval list \<Rightarrow> ConnClient \<Rightarrow> exn option \<times> ConnClient" where
  "resp_values k [] c = (None, c)"
| "resp_values k (v # vs) c = then_do (resp_value k v c) (resp_values (Suc k) vs)"

text \<open>The error of \<^verbatim>\<open>DecodeBatch\<close> is dropped: what was decoded before it is looked at. A panic is not.\<close>

definition readRespMsg :: "ConnClient \<Rightarrow> exn option \<times> ConnClient" where
  "readRespMsg c =
     (case cc_conn c of
        None \<Rightarrow> (Some (Panic NilDereference), c)
      | Some conn \<Rightarrow>
          (case read_command emptyChunkStream conn of
             (Some e, rc, conn) \<Rightarrow> (Some e, c\<lparr>cc_conn := Some conn\<rparr>)
           | (None, rc, conn) \<Rightarrow>
               (case DecodeBatch 0 ((cc_decoder c)\<lparr>amf_rd := Data rc\<rparr>) of
                  (vs, e, dec) \<Rightarrow>
                    then_do (ignore_err (Some e), c\<lparr>cc_conn := Some conn, cc_decoder := dec\<rparr>) (resp_values 0 vs))))"

section \<open>Commands\<close>

definition cc_writeMsg :: "amfval list \<Rightarrow> ConnClient \<Rightarrow> exn option \<times> ConnClient" where
  "cc_writeMsg args c =
     (case EncodeBatch0 args of
        Inl e \<Rightarrow> (Some e, c)
      | Inr msg \<Rightarrow>
          then_do (with_conn (write_ignored (Inr (command_message 3 (cc_streamid c) msg))) c)
            (with_conn (\<lambda>conn. case conn_Flush conn of (e, conn) \<Rightarrow> (map_option Err e, conn))))"

definition connect_event :: "ConnClient \<Rightarrow> (bytes \<times> amfval) list" where
  "connect_event c =
     [(gostr ''app'', AString (cc_app c)), (gostr ''type'', AString (gostr ''nonprivate'')),
      (gostr ''flashVer'', AString (gostr ''FMS.3.1'')), (gostr ''tcUrl'', AString (cc_tcurl c))]"

definition writeConnectMsg :: "((bytes \<times> amfval) list \<Rightarrow> (bytes \<times> amfval) list) \<Rightarrow> ConnClient \<Rightarrow> exn option \<times> ConnClient" where
  "writeConnectMsg rng c =
     (let c = c\<lparr>cc_curcmdName := gostr ''connect''\<rparr>
      in then_do (cc_writeMsg [AString (gostr ''connect''), AInt (cc_transID c), AObject (rng (connect_event c))] c) readRespMsg)"

text \<open>
  The loop of \<^verbatim>\<open>writeCreateStreamMsg\<close> tries again after every error but \<^verbatim>\<open>ErrResponse\<close>, an error of the connection included;
  \<open>None\<close> says that it does not return. A panic ends it.
\<close>

partial_function (option) createStream_loop :: "ConnClient \<Rightarrow> (exn option \<times> ConnClient) option" where
  "createStream_loop c =
     (case readRespMsg c of
        (None, c) \<Rightarrow> Some (None, c)
      | (Some (Err e), c) \<Rightarrow> if Err e = ErrResponse then Some (Some (Err e), c) else createStream_loop c
      | (Some e, c) \<Rightarrow> Some (Some e, c))"

definition writeCreateStreamMsg :: "ConnClient \<Rightarrow> (exn option \<times> ConnClient) option" where
  "writeCreateStreamMsg c =
     (let c = c\<lparr>cc_transID := cc_transID c + 1, cc_curcmdName := gostr ''createStream''\<rparr>
      in case cc_writeMsg [AString (gostr ''createStream''), AInt (cc_transID c), ANil] c of
           (Some e, c) \<Rightarrow> Some (Some e, c)
         | (None, c) \<Rightarrow> createStream_loop c)"

definition writePublishMsg :: "ConnClient \<Rightarrow> exn option \<times> ConnClient" where
  "writePublishMsg c =
     (let c = c\<lparr>cc_transID := cc_transID c + 1, cc_curcmdName := gostr ''publish''\<rparr>
      in then_do (cc_writeMsg [AString (gostr ''publish''), AInt (cc_transID c), ANil, AString (cc_title c), AString (gostr ''live'')] c)
           readRespMsg)"

definition writePlayMsg :: "ConnClient \<Rightarrow> exn option \<times> ConnClient" where
  "writePlayMsg c =
     (let c = c\<lparr>cc_transID := cc_transID c + 1, cc_curcmdName := gostr ''play''\<rparr>
      in then_do (cc_writeMsg [AString (gostr ''play''), AInt 0, ANil, AString (cc_title c)] c) readRespMsg)"

section \<open>Start\<close>

text \<open>\<^verbatim>\<open>strings.SplitN(path, "/", 2)\<close> after \<^verbatim>\<open>strings.TrimLeft(u.Path, "/")\<close>: the parts before and behind the first slash.\<close>

definition split_path :: "bytes \<Rightarrow> (bytes \<times> bytes) option" where
  "split_path path =
     (let path = dropWhile (\<lambda>b. b = 47) path
      in if 47 \<in> set path
         then Some (takeWhile (\<lambda>b. b \<noteq> 47) path, tl (dropWhile (\<lambda>b. b \<noteq> 47) path)) else None)"

definition start_commands ::
    "((bytes \<times> amfval) list \<Rightarrow> (bytes \<times> amfval) list) \<Rightarrow> bytes \<Rightarrow> ConnClient \<Rightarrow> (exn option \<times> ConnClient) option" where
  "start_commands rng method c =
     (case then_do (with_conn HandshakeClient c) (writeConnectMsg rng) of
        (Some e, c) \<Rightarrow> Some (Some e, c)
      | (None, c) \<Rightarrow>
          (case writeCreateStreamMsg c of
             None \<Rightarrow> None
           | Some (Some e, c) \<Rightarrow> Some (Some e, c)
           | Some (None, c) \<Rightarrow>
               Some (if method = gostr ''publish'' then writePublishMsg c
                     else if method = gostr ''play'' then writePlayMsg c else (None, c))))"

definition cc_Start ::
    "(bytes \<Rightarrow> (bytes \<times> bytes \<times> bytes) res) \<Rightarrow> (bytes \<Rightarrow> Conn res) \<Rightarrow> ((bytes \<times> amfval) list \<Rightarrow> (bytes \<times> amfval) list) \<Rightarrow>
     bytes \<Rightarrow> bytes \<Rightarrow> ConnClient \<Rightarrow> (exn option \<times> ConnClient) option" where
  "cc_Start parse dial rng url method c =
     (case parse url of
        Inl e \<Rightarrow> Some (Some e, c)
      | Inr (host, path, query) \<Rightarrow>
          (let c = c\<lparr>cc_url := url\<rparr>
           in case split_path path of
                None \<Rightarrow> Some (Some (Err (Errorf ''u path err: %s'')), c)
              | Some (app, title) \<Rightarrow>
                  (let c = c\<lparr>cc_app := app, cc_title := title, cc_query := query,
                             cc_tcurl := gostr ''rtmp://'' @ host @ gostr ''/'' @ app\<rparr>
                   in case dial host of
                        Inl e \<Rightarrow> Some (Some e, c)
                      | Inr conn \<Rightarrow> start_commands rng method (c\<lparr>cc_conn := Some conn\<rparr>))))"

section \<open>Messages of a stream\<close>

definition cc_Write :: "ChunkStream \<Rightarrow> ConnClient \<Rightarrow> exn option \<times> ConnClient" where
  "cc_Write m c =
     (case (if TypeID m = TagScriptDataAMF0 \<or> TypeID m = TagScriptDataAMF3
            then bindR (MetaDataReform (Data m) ADD) (\<lambda>d. Inr (m\<lparr>Data := d, Length := word_of_nat (length d)\<rparr>))
            else Inr m) of
        Inl e \<Rightarrow> (Some e, c)
      | Inr m \<Rightarrow> with_conn (\<lambda>conn. case conn_Write m conn of (e, _, conn) \<Rightarrow> (e, conn)) c)"

definition cc_Flush :: "ConnClient \<Rightarrow> exn option \<times> ConnClient" where
  "cc_Flush = with_conn (\<lambda>conn. case conn_Flush conn of (e, conn) \<Rightarrow> (map_option Err e, conn))"

definition cc_Read :: "ChunkStream \<Rightarrow> ConnClient \<Rightarrow> exn option \<times> ChunkStream \<times> ConnClient" where
  "cc_Read m c =
     (case cc_conn c of
        None \<Rightarrow> (Some (Panic NilDereference), m, c)
      | Some conn \<Rightarrow> (case conn_Read m conn of (e, m, conn) \<Rightarrow> (e, m, c\<lparr>cc_conn := Some conn\<rparr>)))"

definition cc_GetInfo :: "ConnClient \<Rightarrow> bytes \<times> bytes \<times> bytes" where
  "cc_GetInfo c = (cc_app c, cc_title c, cc_url c)"

definition cc_StreamID :: "ConnClient \<Rightarrow> u32" where
  "cc_StreamID c = cc_streamid c"

text \<open>A closed connection takes nothing any more and reports an error to the reader.\<close>

definition conn_Close :: "Conn \<Rightarrow> Conn" where
  "conn_Close conn = conn\<lparr>conn_rw := (conn_rw conn)\<lparr>rd_in := [], rd_end := NetError, wr := (wr (conn_rw conn))\<lparr>bw_cap := Some 0\<rparr>\<rparr>\<rparr>"

definition cc_Close :: "ConnClient \<Rightarrow> exn option \<times> ConnClient" where
  "cc_Close = with_conn (\<lambda>conn. (None, conn_Close conn))"

section \<open>A lost connection\<close>

text \<open>A connection whose reading side has failed, and stays so.\<close>

definition lost :: "Conn \<Rightarrow> bool" where
  "lost conn \<longleftrightarrow> (\<exists>e. readError (conn_rw conn) = Some e \<and> e \<noteq> Errorf ''response err'') \<and> pool_inv (conn_pool conn)"

lemma readChunk_lost:
  assumes "readError r = Some e" and "pool_inv p" and "tmpFromat cs = 0" and "CSID cs = 0"
  shows "\<exists>e' cs' p'. readChunk k cs r p = (Some (Err e'), cs', r, p') \<and> e' \<in> {e, Errorf ''invalid remain = ''} \<and> pool_inv p'"
proof (cases "remain cs = 0")
  case True
  have "ReadUintBE n r = (0, Some e, r)" "ReadUintLE n r = (0, Some e, r)" for n
    using assms(1) by (simp_all add: ReadUintBE_def ReadUintLE_def)
  moreover obtain p' rg where "pool_Get p 0 = Inr (p', rg)" "pool_inv p'" "rg_len rg = 0"
    using pool_Get_fits [OF assms(2), of 0] pool_Get_Inr(2,4) [of p 0] by (metis zero_le)
  ultimately show ?thesis
    using True assms
    by (auto simp: readChunk_def readCSID_def readMessageHeader_def readHeader0_def readExtended_def finishHeader_def cs_new_def
        readPayload_def rw_Read_def slice_def Let_def)
qed (use assms in \<open>simp add: readChunk_def\<close>)

text \<open>A connection whose input has ended, or that has reported this already.\<close>

definition at_end :: "Conn \<Rightarrow> bool" where
  "at_end conn \<longleftrightarrow> lost conn \<or>
     readError (conn_rw conn) = None \<and> rd_in (conn_rw conn) = [] \<and> rd_end (conn_rw conn) \<noteq> Errorf ''response err'' \<and> pool_inv (conn_pool conn)"

lemma conn_Read_failed:
  assumes e: "ReadUintBE 1 (conn_rw conn) = (0, Some e, rw)" "readError rw = Some e" "pool_inv (conn_pool conn)"
  shows "\<exists>e' conn'. conn_Read c conn = (Some (Err e'), c, conn') \<and> e' \<in> {e, Errorf ''invalid remain = ''} \<and>
     readError (conn_rw conn') = Some e \<and> pool_inv (conn_pool conn')"
proof -
  let ?cs = "(case chunks conn 0 of Some cs \<Rightarrow> cs | None \<Rightarrow> emptyChunkStream)\<lparr>tmpFromat := 0, CSID := 0\<rparr>"
  obtain e' cs' p' where r: "readChunk (remoteChunkSize conn) ?cs rw (conn_pool conn) = (Some (Err e'), cs', rw, p')"
      "e' \<in> {e, Errorf ''invalid remain = ''}" "pool_inv p'"
    using readChunk_lost [OF e(2,3), of ?cs "remoteChunkSize conn"] by auto
  then have "\<exists>conn'. conn_Read_step conn = (Some (Err e'), cs', conn') \<and> readError (conn_rw conn') = Some e \<and> pool_inv (conn_pool conn')"
    using e by (cases "chunks conn 0") (auto simp: conn_Read_step_def Let_def)
  then obtain conn' where c: "conn_Read_step conn = (Some (Err e'), cs', conn')" "readError (conn_rw conn') = Some e" "pool_inv (conn_pool conn')" by blast
  then have "conn_Read c conn = (Some (Err e'), c, conn')" by (simp add: conn_Read_def conn_Read_loop.simps [of conn])
  with c r(2) show ?thesis by auto
qed

lemma conn_Read_lost:
  assumes "at_end conn"
  shows "\<exists>e conn'. conn_Read c conn = (Some (Err e), c, conn') \<and> e \<noteq> Errorf ''response err'' \<and> lost conn'"
proof -
  obtain e rw where e: "ReadUintBE 1 (conn_rw conn) = (0, Some e, rw)" "readError rw = Some e" "pool_inv (conn_pool conn)" "e \<noteq> Errorf ''response err''"
    using assms by (auto simp: at_end_def lost_def ReadUintBE_def)
  from conn_Read_failed [OF e(1-3), of c] e(4) show ?thesis by (auto simp: lost_def)
qed

lemma readRespMsg_lost:
  assumes "cc_conn c = Some conn" and "at_end conn"
  shows "\<exists>e conn'. readRespMsg c = (Some (Err e), c\<lparr>cc_conn := Some conn'\<rparr>) \<and> e \<noteq> Errorf ''response err'' \<and> lost conn'"
  using conn_Read_lost [OF assms(2), of emptyChunkStream] assms(1)
  by (auto simp: readRespMsg_def read_command.simps [of _ conn])

lemma createStream_loop_lost:
  assumes "createStream_loop c = Some r"
  shows "cc_conn c = Some conn \<longrightarrow> \<not> at_end conn"
proof -
  have "\<forall>conn. cc_conn c = Some conn \<longrightarrow> \<not> at_end conn"
  proof (rule createStream_loop.raw_induct [OF _ assms, where P = "\<lambda>c r. \<forall>conn. cc_conn c = Some conn \<longrightarrow> \<not> at_end conn"], intro allI impI notI)
    fix loop c r conn
    assume ih: "\<And>c r. loop c = Some r \<Longrightarrow> \<forall>conn. cc_conn c = Some conn \<longrightarrow> \<not> at_end conn"
      and body: "(case readRespMsg c of (None, c) \<Rightarrow> Some (None, c)
        | (Some (Err e), c) \<Rightarrow> if Err e = ErrResponse then Some (Some (Err e), c) else loop c
        | (Some e, c) \<Rightarrow> Some (Some e, c)) = Some r"
      and c: "cc_conn c = Some conn" "at_end conn"
    obtain e conn' where e: "readRespMsg c = (Some (Err e), c\<lparr>cc_conn := Some conn'\<rparr>)" "e \<noteq> Errorf ''response err''" "lost conn'"
      using readRespMsg_lost [OF c] by blast
    then have "loop (c\<lparr>cc_conn := Some conn'\<rparr>) = Some r" using body by simp
    from ih [OF this] e(3) show False by (simp add: at_end_def)
  qed
  then show ?thesis by simp
qed

section \<open>The exchange with a server\<close>

text \<open>The chunk size after a sequence of messages, and a reply: messages that are no commands, then the command.\<close>

definition sizes :: "u32 \<Rightarrow> ChunkStream list \<Rightarrow> u32" where
  "sizes k ms = foldl next_size k ms"

lemma sizes_simps [simp]: "sizes k [] = k" "sizes k (m # ms) = sizes (next_size k m) ms"
  by (simp_all add: sizes_def)

lemma messages_bytes_append: "messages_bytes k (ms @ ms') = messages_bytes k ms @ messages_bytes (sizes k ms) ms'"
  by (induction ms arbitrary: k) simp_all

definition reply :: "u32 \<Rightarrow> ChunkStream list \<Rightarrow> amfval list \<Rightarrow> bool" where
  "reply k ms args \<longleftrightarrow> ms \<noteq> [] \<and> ok_messages k ms \<and> list_all (\<lambda>m. TypeID m \<noteq> 20 \<and> TypeID m \<noteq> 17) (butlast ms) \<and> TypeID (last ms) = 20 \<and>
     EncodeBatch0 args = Inr (Data (last ms)) \<and> wfElements args \<and> \<not> endsElements args"

definition talks :: "u32 \<Rightarrow> u32 \<Rightarrow> bytes \<Rightarrow> bytes \<Rightarrow> ConnClient \<Rightarrow> bool" where
  "talks w k rest out c \<longleftrightarrow> (\<exists>conn. cc_conn c = Some conn \<and> ready conn \<and> chunkSize conn = w \<and> remoteChunkSize conn = k \<and> k \<noteq> 0 \<and>
     rd_in (conn_rw conn) = rest \<and> rw_stream (conn_rw conn) = out \<and> amf_rd (cc_decoder c) = [])"

text \<open>The bytes that have left the buffer of the client for the connection.\<close>

definition cc_sent :: "ConnClient \<Rightarrow> bytes" where
  "cc_sent c = (case cc_conn c of None \<Rightarrow> [] | Some conn \<Rightarrow> bw_sent (wr (conn_rw conn)))"

text \<open>The acknowledgements that a side sends in between.\<close>

definition acks :: "u32 \<Rightarrow> bytes \<Rightarrow> bool" where
  "acks k bs \<longleftrightarrow> (\<exists>vs. bs = messages_bytes k (map ack_message vs))"

lemma next_size_ack [simp]: "next_size k (ack_message v) = k"
  by (simp add: next_size_def ack_message_def)

lemma sizes_acks [simp]: "sizes k (map ack_message vs) = k"
  by (induction vs) simp_all

lemma acks_intros: "acks k []" "ack_bytes k bs \<Longrightarrow> acks k bs" "acks k bs \<Longrightarrow> acks k bs' \<Longrightarrow> acks k (bs @ bs')"
proof -
  show "acks k []" by (auto simp: acks_def intro: exI [of _ "[]"])
  show "acks k bs" if b: "ack_bytes k bs"
  proof (cases "bs = []")
    case False
    then obtain v where "bs = messages_bytes k (map ack_message [v])" using b by (auto simp: ack_bytes_def)
    then show ?thesis unfolding acks_def by blast
  qed (simp add: \<open>acks k []\<close>)
  show "acks k (bs @ bs')" if a: "acks k bs" "acks k bs'"
  proof -
    obtain vs vs' where "bs = messages_bytes k (map ack_message vs)" "bs' = messages_bytes k (map ack_message vs')"
      using a by (auto simp: acks_def)
    then have "bs @ bs' = messages_bytes k (map ack_message (vs @ vs'))" by (simp add: messages_bytes_append)
    then show ?thesis unfolding acks_def by blast
  qed
qed

lemma read_command_reply:
  assumes "ready conn" and "remoteChunkSize conn = k" and "k \<noteq> 0" and "rd_in (conn_rw conn) = messages_bytes k ms @ rest"
    and "ok_messages k ms" and "ms \<noteq> []" and "list_all (\<lambda>m. TypeID m \<noteq> 20 \<and> TypeID m \<noteq> 17) (butlast ms)" and "TypeID (last ms) = 20"
  shows "\<exists>cs conn' out. read_command c conn = (None, cs, conn') \<and> Data cs = Data (last ms) \<and> ready conn' \<and> remoteChunkSize conn' = sizes k ms \<and>
    sizes k ms \<noteq> 0 \<and> rd_in (conn_rw conn') = rest \<and> chunkSize conn' = chunkSize conn \<and> acks (chunkSize conn) out \<and>
    rw_stream (conn_rw conn') = rw_stream (conn_rw conn) @ out \<and> bufw_grows (wr (conn_rw conn)) (wr (conn_rw conn'))"
  using assms
proof (induction ms arbitrary: k conn c)
  case (Cons m ms)
  have m: "ok_message k m" "ok_messages (next_size k m) ms" using Cons.prems by simp_all
  have i: "rd_in (conn_rw conn) = message_bytes (unat k) (chooseCSID m) @ messages_bytes (next_size k m) ms @ rest" using Cons.prems by simp
  obtain cs conn' out where r: "conn_Read c conn = (None, cs, conn')" "same_message (chooseCSID m) cs" "ready conn'"
      "remoteChunkSize conn' = next_size k m" "rd_in (conn_rw conn') = messages_bytes (next_size k m) ms @ rest"
      "chunkSize conn' = chunkSize conn" "ack_bytes (chunkSize conn) out" "rw_stream (conn_rw conn') = rw_stream (conn_rw conn) @ out"
      "bufw_grows (wr (conn_rw conn)) (wr (conn_rw conn'))"
    using conn_Read_message_out [OF m(1) Cons.prems(2,3,1) i, of c] by blast
  have k: "next_size k m \<noteq> 0" by (rule next_size_nonzero [OF m(1) Cons.prems(3)])
  have cs: "TypeID cs = TypeID m" "Data cs = Data m" using r(2) by (simp_all add: same_message_def)
  show ?case
  proof (cases "ms = []")
    case True
    with r cs k Cons.prems(8) acks_intros(2) show ?thesis by (auto simp: read_command.simps [of c conn])
  next
    case False
    then have "TypeID m \<noteq> 20" "TypeID m \<noteq> 17" "list_all (\<lambda>m. TypeID m \<noteq> 20 \<and> TypeID m \<noteq> 17) (butlast ms)" "TypeID (last ms) = 20"
      using Cons.prems(7,8) by simp_all
    with Cons.IH [OF r(3,4) k r(5) m(2) False, of cs] obtain cs2 conn2 out2 where
      "read_command cs conn' = (None, cs2, conn2)" "Data cs2 = Data (last ms)" "ready conn2" "remoteChunkSize conn2 = sizes k (m # ms)"
      "sizes k (m # ms) \<noteq> 0" "rd_in (conn_rw conn2) = rest" "chunkSize conn2 = chunkSize conn'" "acks (chunkSize conn') out2"
      "rw_stream (conn_rw conn2) = rw_stream (conn_rw conn') @ out2" "bufw_grows (wr (conn_rw conn')) (wr (conn_rw conn2))"
      by auto
    moreover have "read_command c conn = read_command cs conn'"
      using r(1) cs \<open>TypeID m \<noteq> 20\<close> \<open>TypeID m \<noteq> 17\<close> by (simp add: read_command.simps [of c conn])
    ultimately show ?thesis
      using r(6-9) False acks_intros(2,3) bufw_grows_trans by (intro exI [of _ cs2] exI [of _ conn2] exI [of _ "out @ out2"]) auto
  qed
qed simp

lemma readRespMsg_reply:
  assumes "talks w k (messages_bytes k ms @ rest) out c" and "reply k ms args"
  shows "\<exists>conn bs. readRespMsg c = resp_values 0 (normElements args) (c\<lparr>cc_conn := Some conn\<rparr>) \<and> acks w bs \<and>
     talks w (sizes k ms) rest (out @ bs) (c\<lparr>cc_conn := Some conn\<rparr>) \<and> (\<exists>s. cc_sent (c\<lparr>cc_conn := Some conn\<rparr>) = cc_sent c @ s)"
proof -
  obtain conn where c: "cc_conn c = Some conn" "ready conn" "chunkSize conn = w" "remoteChunkSize conn = k" "k \<noteq> 0"
      "rd_in (conn_rw conn) = messages_bytes k ms @ rest" "rw_stream (conn_rw conn) = out" "amf_rd (cc_decoder c) = []"
    using assms(1) by (auto simp: talks_def)
  have a: "ok_messages k ms" "ms \<noteq> []" "list_all (\<lambda>m. TypeID m \<noteq> 20 \<and> TypeID m \<noteq> 17) (butlast ms)" "TypeID (last ms) = 20"
      "EncodeBatch0 args = Inr (Data (last ms))" "wfElements args" "\<not> endsElements args"
    using assms(2) by (simp_all add: reply_def)
  obtain cs conn' bs where r: "read_command emptyChunkStream conn = (None, cs, conn')" "Data cs = Data (last ms)" "ready conn'"
      "remoteChunkSize conn' = sizes k ms" "sizes k ms \<noteq> 0" "rd_in (conn_rw conn') = rest" "chunkSize conn' = chunkSize conn"
      "acks (chunkSize conn) bs" "rw_stream (conn_rw conn') = rw_stream (conn_rw conn) @ bs" "bufw_grows (wr (conn_rw conn)) (wr (conn_rw conn'))"
    using read_command_reply [OF c(2,4-6) a(1-4)] by blast
  have "DecodeBatch 0 ((cc_decoder c)\<lparr>amf_rd := Data cs\<rparr>) = (normElements args, Err EOF, cc_decoder c)"
    using EncodeBatch0_decoded [OF a(6,7) c(8)] a(5) r(2) by auto
  then have "readRespMsg c = resp_values 0 (normElements args) (c\<lparr>cc_conn := Some conn'\<rparr>)"
    using c(1) r(1) by (simp add: readRespMsg_def)
  moreover have "talks w (sizes k ms) rest (out @ bs) (c\<lparr>cc_conn := Some conn'\<rparr>)"
    using r c by (simp add: talks_def)
  moreover have "\<exists>s. cc_sent (c\<lparr>cc_conn := Some conn'\<rparr>) = cc_sent c @ s" using bufw_growsD(1) [OF r(10)] c(1) by (simp add: cc_sent_def)
  ultimately show ?thesis using r(8) c(3) by blast
qed

lemma cc_writeMsg_talks:
  assumes "talks w k rest out c" and "list_all small_arg args" and "args \<noteq> []" and "length args \<le> 8"
    and "wfElements args" and "\<not> endsElements args"
  shows "\<exists>conn m. cc_writeMsg args c = (None, c\<lparr>cc_conn := Some conn\<rparr>) \<and> command w m args \<and>
     talks w k rest (out @ message_bytes (unat w) (chooseCSID m)) (c\<lparr>cc_conn := Some conn\<rparr>) \<and>
     map_option (rd_end \<circ> conn_rw) (cc_conn c) = Some (rd_end (conn_rw conn)) \<and>
     cc_sent (c\<lparr>cc_conn := Some conn\<rparr>) = out @ message_bytes (unat w) (chooseCSID m)"
proof -
  obtain conn where c: "cc_conn c = Some conn" "ready conn" "chunkSize conn = w" "remoteChunkSize conn = k" "k \<noteq> 0"
      "rd_in (conn_rw conn) = rest" "rw_stream (conn_rw conn) = out" "amf_rd (cc_decoder c) = []"
    using assms(1) by (auto simp: talks_def)
  obtain b where b: "EncodeBatch0 args = Inr b" "b \<noteq> []" "length b \<le> 16000"
    using EncodeBatch0_small [OF assms(2)] assms(3,4) by auto
  let ?m = "command_message 3 (cc_streamid c) b"
  have "unat (word_of_nat (length b) :: u32) = length b" using b(3) by (intro unat_small) simp
  then have m: "command w ?m args" "TypeID ?m = 20" "ok_message w ?m"
    using b assms by (simp_all add: command_def command_message_def ok_message_def valid_message_def chooseCSID_def valid_csid_def maxpoolsize_def)
  have s: "sized ?m" "Data ?m \<noteq> []"
    using \<open>unat (word_of_nat (length b) :: u32) = length b\<close> b by (simp_all add: sized_def command_message_def)
  have w0: "w \<noteq> 0" "rw_good (conn_rw conn)" using c(2,3) by (simp_all add: ready_def)
  obtain m' rw where e: "writeChunk ?m w (conn_rw conn) = (None, m', rw)" "emitted (conn_rw conn) (message_bytes (unat w) (chooseCSID ?m)) rw"
    using writeChunk_emits [OF s w0] by blast
  let ?c1 = "conn\<lparr>chunkSize := w, conn_rw := rw\<rparr>"
  have w: "conn_Write ?m conn = (None, m', ?c1)" using e(1) m(2) c(3) by (simp add: conn_Write_def)
  have r1: "ready ?c1" "rd_in rw = rest" using emitted_ready [OF c(2) e(2) w0(1)] c(6) by simp_all
  obtain w2 where f: "rw_Flush rw = (None, rw\<lparr>wr := w2\<rparr>)" "bufw_good w2"
    using rw_Flush_good [of rw] emitted_good [OF e(2)] by blast
  have "rw_stream (rw\<lparr>wr := w2\<rparr>) = out @ message_bytes (unat w) (chooseCSID ?m)"
    using rw_Flush_ok [OF f(1)] e(2) c(7) by (auto simp: emitted_def rw_stream_def bufw_stream_def)
  then have "talks w k rest (out @ message_bytes (unat w) (chooseCSID ?m)) (c\<lparr>cc_conn := Some (?c1\<lparr>conn_rw := rw\<lparr>wr := w2\<rparr>\<rparr>)\<rparr>)"
    using r1 c f(2) by (auto simp: talks_def ready_def key_idle_def rw_good_def)
  moreover have "cc_writeMsg args c = (None, c\<lparr>cc_conn := Some (?c1\<lparr>conn_rw := rw\<lparr>wr := w2\<rparr>\<rparr>)\<rparr>)"
    using b(1) c(1) w f(1) by (simp add: cc_writeMsg_def with_conn_def write_ignored_def conn_Flush_def)
  moreover have "rd_end rw = rd_end (conn_rw conn)"
    using e(2) unfolding emitted_def by (metis ReadWriter.select_convs(2) ReadWriter.surjective ReadWriter.update_convs(4))
  then have "map_option (rd_end \<circ> conn_rw) (cc_conn c) = Some (rd_end (conn_rw (?c1\<lparr>conn_rw := rw\<lparr>wr := w2\<rparr>\<rparr>)))" using c(1) by simp
  moreover have "cc_sent (c\<lparr>cc_conn := Some (?c1\<lparr>conn_rw := rw\<lparr>wr := w2\<rparr>\<rparr>)\<rparr>) = out @ message_bytes (unat w) (chooseCSID ?m)"
    using rw_Flush_ok [OF f(1)] e(2) c(7) by (simp add: cc_sent_def emitted_def)
  ultimately show ?thesis using m(1) by blast
qed

lemma command_reply:
  assumes "talks w k (messages_bytes k ms @ rest) out c" and "reply k ms vals"
    and "list_all small_arg args" and "args \<noteq> []" and "length args \<le> 8" and "wfElements args" and "\<not> endsElements args"
  shows "\<exists>c1 conn m bs. cc_writeMsg args c = (None, c1) \<and> readRespMsg c1 = resp_values 0 (normElements vals) (c\<lparr>cc_conn := Some conn\<rparr>) \<and>
     command w m args \<and> acks w bs \<and> talks w (sizes k ms) rest (out @ message_bytes (unat w) (chooseCSID m) @ bs) (c\<lparr>cc_conn := Some conn\<rparr>) \<and>
     (\<exists>s. cc_sent (c\<lparr>cc_conn := Some conn\<rparr>) = out @ message_bytes (unat w) (chooseCSID m) @ s)"
proof -
  obtain conn m where m: "cc_writeMsg args c = (None, c\<lparr>cc_conn := Some conn\<rparr>)" "command w m args"
      "talks w k (messages_bytes k ms @ rest) (out @ message_bytes (unat w) (chooseCSID m)) (c\<lparr>cc_conn := Some conn\<rparr>)"
      "cc_sent (c\<lparr>cc_conn := Some conn\<rparr>) = out @ message_bytes (unat w) (chooseCSID m)"
    using cc_writeMsg_talks [OF assms(1,3-7)] by blast
  from readRespMsg_reply [OF m(3) assms(2)] m show ?thesis by auto
qed

lemma float_small: "int64_of_f64 (float64_of_int 2) = 2" "int64_of_f64 (float64_of_int 0) = 0"
proof -
  have "float64_of_int 2 = 0x4000000000000000" "float64_of_int 0 = 0"
    by (simp_all add: float64_of_int_def float64_of_pos_def bit_len.simps Let_def)
  moreover have "rat_of_f64 0x4000000000000000 = Some 2" "rat_of_f64 0 = Some 0" by (simp_all add: rat_of_f64_def Let_def)
  ultimately show "int64_of_f64 (float64_of_int 2) = 2" "int64_of_f64 (float64_of_int 0) = 0" by (simp_all add: int64_of_f64_def)
qed

definition good_code :: "(bytes \<times> amfval) list \<Rightarrow> string \<Rightarrow> bool" where
  "good_code obj want \<longleftrightarrow> map_of obj (gostr ''code'') \<in> {None, Some (AString (gostr want))}"

lemma check_good_code: "good_code obj want \<Longrightarrow> check_code (normMembers obj) (gostr want) = None"
  by (auto simp: good_code_def check_code_def map_of_normMembers as_string_def)

lemma wfMembers_iff: "wfMembers kvs \<longleftrightarrow> (\<forall>(k, v) \<in> set kvs. k \<noteq> [] \<and> length k \<le> AMF0StringMax \<and> wf0 v)"
  by (induction kvs) auto

lemma rng_map_of:
  assumes "range_order rng" and "distinct (map fst kvs)"
  shows "map_of (rng kvs) = map_of kvs" and "distinct (map fst (rng kvs))" and "wfMembers kvs \<Longrightarrow> wfMembers (rng kvs)"
proof -
  have r: "set (rng kvs) = set kvs" "length (rng kvs) = length kvs" using assms(1) by (simp_all add: range_order_def)
  have "card (set (map fst (rng kvs))) = length (map fst (rng kvs))"
    using r distinct_card [OF assms(2)] by simp
  then show d: "distinct (map fst (rng kvs))" by (rule card_distinct)
  then show "map_of (rng kvs) = map_of kvs"
    using r(1) assms(2) by (intro ext) (metis map_of_eq_None_iff map_of_eq_Some_iff not_Some_eq set_map)
  show "wfMembers kvs \<Longrightarrow> wfMembers (rng kvs)" by (simp add: wfMembers_iff r(1))
qed

lemma writeConnectMsg_reply:
  assumes "talks w k (messages_bytes k ms @ rest) out c" and "cc_transID c = 1" and "range_order rng"
    and "reply k ms [AString (gostr ''_result''), AInt 1, AObject o1, AObject o2]"
    and "good_code o1 ''NetConnection.Connect.Success''" and "good_code o2 ''NetConnection.Connect.Success''"
    and "length (cc_app c) \<le> 64" and "length (cc_tcurl c) \<le> 64"
  shows "\<exists>c' m bs. writeConnectMsg rng c = (None, c') \<and> command w m [AString (gostr ''connect''), AInt 1, AObject (rng (connect_event c))] \<and>
     connect_fields (rng (connect_event c)) (cc_app c) (cc_tcurl c) \<and> acks w bs \<and>
     talks w (sizes k ms) rest (out @ message_bytes (unat w) (chooseCSID m) @ bs) c' \<and> cc_title c' = cc_title c \<and> cc_transID c' = 1"
proof -
  let ?c = "c\<lparr>cc_curcmdName := gostr ''connect''\<rparr>"
  let ?args = "[AString (gostr ''connect''), AInt 1, AObject (rng (connect_event c))]"
  have "small_members (connect_event c)" using assms(7,8) by (simp add: small_members_def connect_event_def)
  then have sm: "small_members (rng (connect_event c))" by (rule small_members_order [OF assms(3)])
  have d: "distinct (map fst (connect_event c))" by (simp add: connect_event_def)
  have "wfMembers (connect_event c)" using assms(7,8) by (simp add: connect_event_def gostr_def)
  then have wf: "wfElements ?args" "\<not> endsElements ?args"
    using rng_map_of(2,3) [OF assms(3) d] by simp_all
  have t: "talks w k (messages_bytes k ms @ rest) out ?c" using assms(1) by (simp add: talks_def)
  obtain c1 conn m bs where r: "cc_writeMsg ?args ?c = (None, c1)"
      "readRespMsg c1 = resp_values 0 (normElements [AString (gostr ''_result''), AInt 1, AObject o1, AObject o2]) (?c\<lparr>cc_conn := Some conn\<rparr>)"
      "command w m ?args" "acks w bs" "talks w (sizes k ms) rest (out @ message_bytes (unat w) (chooseCSID m) @ bs) (?c\<lparr>cc_conn := Some conn\<rparr>)"
    using command_reply [OF t assms(4), of ?args] sm wf by auto
  have "readRespMsg c1 = (None, ?c\<lparr>cc_conn := Some conn\<rparr>)"
    unfolding r(2) using assms(2,5,6) by (simp add: is_setup_def float_one check_good_code)
  moreover have "connect_event ?c = connect_event c" by (simp add: connect_event_def)
  moreover have "connect_fields (rng (connect_event c)) (cc_app c) (cc_tcurl c)"
    unfolding connect_fields_def rng_map_of(1) [OF assms(3) d] by (simp add: connect_event_def)
  ultimately show ?thesis
    using r assms(2) by (intro exI [of _ "?c\<lparr>cc_conn := Some conn\<rparr>"] exI [of _ m] exI [of _ bs]) (simp add: writeConnectMsg_def Let_def)
qed

lemma writeCreateStreamMsg_reply:
  assumes "talks w k (messages_bytes k ms @ rest) out c" and "cc_transID c = 1"
    and "reply k ms [AString (gostr ''_result''), AInt 2, ANil, AInt 1]"
  shows "\<exists>c' m bs. writeCreateStreamMsg c = Some (None, c') \<and> command w m [AString (gostr ''createStream''), AInt 2, ANil] \<and> acks w bs \<and>
     talks w (sizes k ms) rest (out @ message_bytes (unat w) (chooseCSID m) @ bs) c' \<and> cc_title c' = cc_title c \<and> cc_transID c' = 2 \<and>
     cc_streamid c' = 1"
proof -
  let ?c = "c\<lparr>cc_transID := 2, cc_curcmdName := gostr ''createStream''\<rparr>"
  let ?args = "[AString (gostr ''createStream''), AInt 2, ANil]"
  have t: "talks w k (messages_bytes k ms @ rest) out ?c" using assms(1) by (simp add: talks_def)
  obtain c1 conn m bs where r: "cc_writeMsg ?args ?c = (None, c1)"
      "readRespMsg c1 = resp_values 0 (normElements [AString (gostr ''_result''), AInt 2, ANil, AInt 1]) (?c\<lparr>cc_conn := Some conn\<rparr>)"
      "command w m ?args" "acks w bs" "talks w (sizes k ms) rest (out @ message_bytes (unat w) (chooseCSID m) @ bs) (?c\<lparr>cc_conn := Some conn\<rparr>)"
    using command_reply [OF t assms(3), of ?args] by (auto simp: gostr_def)
  have "readRespMsg c1 = (None, ?c\<lparr>cc_conn := Some conn, cc_streamid := 1\<rparr>)"
    unfolding r(2) by (simp add: is_setup_def float_one float_small)
  then have "writeCreateStreamMsg c = Some (None, ?c\<lparr>cc_conn := Some conn, cc_streamid := 1\<rparr>)"
    using r(1) assms(2) by (simp add: writeCreateStreamMsg_def createStream_loop.simps [of c1] Let_def)
  moreover have "talks w (sizes k ms) rest (out @ message_bytes (unat w) (chooseCSID m) @ bs) (?c\<lparr>cc_conn := Some conn, cc_streamid := 1\<rparr>)"
    using r(5) by (simp add: talks_def)
  ultimately show ?thesis
    using r(3,4) by (intro exI [of _ "?c\<lparr>cc_conn := Some conn, cc_streamid := 1\<rparr>"] exI [of _ m] exI [of _ bs]) simp
qed

lemma writePublishMsg_reply:
  assumes "talks w k (messages_bytes k ms @ rest) out c" and "cc_transID c = 2"
    and "reply k ms [AString (gostr ''onStatus''), AInt 0, ANil, AObject ob]" and "good_code ob ''NetStream.Publish.Start''"
    and "length (cc_title c) \<le> 64"
  shows "\<exists>c' m bs. writePublishMsg c = (None, c') \<and>
     command w m [AString (gostr ''publish''), AInt 3, ANil, AString (cc_title c), AString (gostr ''live'')] \<and> acks w bs \<and>
     talks w (sizes k ms) rest (out @ message_bytes (unat w) (chooseCSID m) @ bs) c' \<and> cc_streamid c' = cc_streamid c \<and>
     (\<exists>s. cc_sent c' = out @ message_bytes (unat w) (chooseCSID m) @ s)"
proof -
  let ?c = "c\<lparr>cc_transID := 3, cc_curcmdName := gostr ''publish''\<rparr>"
  let ?args = "[AString (gostr ''publish''), AInt 3, ANil, AString (cc_title c), AString (gostr ''live'')]"
  have t: "talks w k (messages_bytes k ms @ rest) out ?c" using assms(1) by (simp add: talks_def)
  obtain c1 conn m bs where r: "cc_writeMsg ?args ?c = (None, c1)"
      "readRespMsg c1 = resp_values 0 (normElements [AString (gostr ''onStatus''), AInt 0, ANil, AObject ob]) (?c\<lparr>cc_conn := Some conn\<rparr>)"
      "command w m ?args" "acks w bs" "talks w (sizes k ms) rest (out @ message_bytes (unat w) (chooseCSID m) @ bs) (?c\<lparr>cc_conn := Some conn\<rparr>)"
      "\<exists>s. cc_sent (?c\<lparr>cc_conn := Some conn\<rparr>) = out @ message_bytes (unat w) (chooseCSID m) @ s"
    using command_reply [OF t assms(3), of ?args] assms(5) by (auto simp: gostr_def)
  have "readRespMsg c1 = (None, ?c\<lparr>cc_conn := Some conn\<rparr>)"
    unfolding r(2) using assms(4) by (simp add: is_setup_def float_small check_good_code)
  then have "writePublishMsg c = (None, ?c\<lparr>cc_conn := Some conn\<rparr>)" using r(1) assms(2) by (simp add: writePublishMsg_def Let_def)
  with r show ?thesis by (intro exI [of _ "?c\<lparr>cc_conn := Some conn\<rparr>"] exI [of _ m] exI [of _ bs]) simp
qed

section \<open>The server at the other end\<close>

lemma ReadMsg_skip_acks:
  assumes "session k (bs @ rest) cs" and "acks k bs" and "k \<noteq> 0" and "\<not> cs_done cs"
  shows "\<exists>c conn. ReadMsg rng c0 cs = ReadMsg rng c (cs\<lparr>cs_conn := conn\<rparr>) \<and> session k rest (cs\<lparr>cs_conn := conn\<rparr>)"
proof -
  obtain vs where "bs = messages_bytes k (map ack_message vs)" using assms(2) by (auto simp: acks_def)
  with assms(1) have "session k (messages_bytes k (map ack_message vs) @ rest) cs" by simp
  then show ?thesis
    using assms(4)
  proof (induction vs arbitrary: cs c0)
    case Nil
    then show ?case by (intro exI [of _ c0] exI [of _ "cs_conn cs"]) simp
  next
    case (Cons v vs)
    obtain c conn where r: "conn_Read c0 (cs_conn cs) = (None, c, conn)" "same_message (chooseCSID (ack_message v)) c" "ready conn"
        "remoteChunkSize conn = k" "rd_in (conn_rw conn) = messages_bytes k (map ack_message vs) @ rest"
      using conn_Read_message [OF ack_message_ok, of "cs_conn cs" k v "messages_bytes k (map ack_message vs) @ rest" c0] Cons.prems(1) assms(3)
      by (auto simp: session_def cs_input_def)
    let ?cs = "cs\<lparr>cs_conn := conn\<rparr>"
    have "TypeID c = idAck" using r(2) by (simp add: same_message_def ack_message_def)
    then have "ReadMsg rng c0 cs = ReadMsg rng c ?cs"
      using r(1) Cons.prems(2) by (simp add: ReadMsg.simps [of rng c0 cs] Let_def)
    moreover have "session k (messages_bytes k (map ack_message vs) @ rest) ?cs"
      using r Cons.prems(1) by (simp add: session_def cs_input_def)
    ultimately show ?case using Cons.IH [of ?cs c] Cons.prems(2) by auto
  qed
qed

lemma server_hears_client:
  assumes "session k (message_bytes (unat k) (chooseCSID m1) @ a1 @ message_bytes (unat k) (chooseCSID m2) @ a2 @
      message_bytes (unat k) (chooseCSID m3) @ rest) cs" and "k \<noteq> 0" and "\<not> cs_done cs" and "range_order rng" and "acks k a1" and "acks k a2"
    and "command k m1 [AString (gostr ''connect''), AInt 1, AObject obj]" and "connect_fields obj app url"
    and "command k m2 [AString (gostr ''createStream''), AInt i, ANil]"
    and "command k m3 [AString (gostr ''publish''), AInt j, ANil, AString name, AString kind]"
  shows "\<exists>cs'. ReadMsg rng c0 cs = (None, cs') \<and> IsPublisher cs' \<and> cs_GetInfo cs' = (app, name, url @ gostr ''/'' @ name) \<and> cs_input cs' = rest"
proof -
  obtain c1 s1 where s1: "ReadMsg rng c0 cs = ReadMsg rng c1 s1" "session k (a1 @ message_bytes (unat k) (chooseCSID m2) @ a2 @
      message_bytes (unat k) (chooseCSID m3) @ rest) s1" "\<not> cs_done s1" "App (cs_ConnInfo s1) = app" "TcURL (cs_ConnInfo s1) = url"
    using ReadMsg_connect [OF assms(1-4,7,8)] by blast
  obtain c2 n2 where s2: "ReadMsg rng c1 s1 = ReadMsg rng c2 (s1\<lparr>cs_conn := n2\<rparr>)" "session k (message_bytes (unat k) (chooseCSID m2) @ a2 @
      message_bytes (unat k) (chooseCSID m3) @ rest) (s1\<lparr>cs_conn := n2\<rparr>)"
    using ReadMsg_skip_acks [OF s1(2) assms(5,2) s1(3)] by blast
  obtain c3 s3 where s3: "ReadMsg rng c2 (s1\<lparr>cs_conn := n2\<rparr>) = ReadMsg rng c3 s3" "session k (a2 @ message_bytes (unat k) (chooseCSID m3) @ rest) s3"
      "\<not> cs_done s3" "cs_ConnInfo s3 = cs_ConnInfo s1"
    using ReadMsg_createStream [OF s2(2) assms(2) _ assms(9), of rng c2] s1(3) by auto
  obtain c4 n4 where s4: "ReadMsg rng c3 s3 = ReadMsg rng c4 (s3\<lparr>cs_conn := n4\<rparr>)"
      "session k (message_bytes (unat k) (chooseCSID m3) @ rest) (s3\<lparr>cs_conn := n4\<rparr>)"
    using ReadMsg_skip_acks [OF s3(2) assms(6,2) s3(3)] by blast
  from ReadMsg_stream [OF s4(2) assms(2,4,10), of c4] s1 s2 s3 s4 show ?thesis by (auto simp: cs_GetInfo_def)
qed

text \<open>
  The peer of a client: a connection that will deliver its half of the handshake and the answers to the three commands, the last of
  which answers \<^verbatim>\<open>publish\<close> or \<^verbatim>\<open>play\<close>.
\<close>

definition accepts_client :: "(amfval list \<Rightarrow> bool) \<Rightarrow> Conn \<Rightarrow> bytes \<Rightarrow> bytes \<Rightarrow> bool" where
  "accepts_client final conn S1 rest \<longleftrightarrow> ready conn \<and> rw_stream (conn_rw conn) = [] \<and> remoteChunkSize conn \<noteq> 0 \<and> length S1 = 1536 \<and>
     (\<exists>s0 S2 ms1 ms2 ms3 o1 o2 v3. let k = remoteChunkSize conn in
        rd_in (conn_rw conn) = s0 # S1 @ S2 @ messages_bytes k (ms1 @ ms2 @ ms3) @ rest \<and> length S2 = 1536 \<and>
        reply k ms1 [AString (gostr ''_result''), AInt 1, AObject o1, AObject o2] \<and>
        good_code o1 ''NetConnection.Connect.Success'' \<and> good_code o2 ''NetConnection.Connect.Success'' \<and>
        reply (sizes k ms1) ms2 [AString (gostr ''_result''), AInt 2, ANil, AInt 1] \<and>
        reply (sizes k (ms1 @ ms2)) ms3 v3 \<and> final v3)"

definition publish_reply :: "amfval list \<Rightarrow> bool" where
  "publish_reply v \<longleftrightarrow> (\<exists>ob. v = [AString (gostr ''onStatus''), AInt 0, ANil, AObject ob] \<and> good_code ob ''NetStream.Publish.Start'')"

definition accepts_publisher :: "Conn \<Rightarrow> bytes \<Rightarrow> bytes \<Rightarrow> bool" where
  "accepts_publisher = accepts_client publish_reply"

text \<open>The URL of a stream on a host: application and name, all of moderate length.\<close>

definition publish_url :: "(bytes \<Rightarrow> (bytes \<times> bytes \<times> bytes) res) \<Rightarrow> bytes \<Rightarrow> bytes \<Rightarrow> bytes \<Rightarrow> bytes \<Rightarrow> bytes \<Rightarrow> bool" where
  "publish_url parse url host app title tcurl \<longleftrightarrow>
     (\<exists>path query. parse url = Inr (host, path, query) \<and> split_path path = Some (app, title)) \<and>
     tcurl = gostr ''rtmp://'' @ host @ gostr ''/'' @ app \<and> length app \<le> 64 \<and> length title \<le> 64 \<and> length tcurl \<le> 64"

lemma handshake_talks:
  assumes "ready conn" "rw_stream (conn_rw conn) = []" "rd_in (conn_rw conn) = s0 # S1 @ S2 @ rest" "length S1 = 1536" "length S2 = 1536"
    and "remoteChunkSize conn = k" "k \<noteq> 0" "w = chunkSize conn" "cc_decoder c = NewDecoder []"
  shows "\<exists>cn. HandshakeClient conn = (None, cn) \<and> talks w k rest ((3 # replicate 1536 0) @ S1) (c\<lparr>cc_conn := Some cn\<rparr>)"
proof -
  have f: "hs_fresh conn" "hs_input conn = s0 # S1 @ S2 @ rest" "hs_stream conn = []"
    using assms(1-3) by (simp_all add: hs_fresh_def hs_input_def hs_stream_def ready_def)
  obtain cn where h: "HandshakeClient conn = (None, cn)" "hs_fresh cn" "hs_input cn = rest" "hs_stream cn = (3 # replicate 1536 0) @ S1"
      "cn = conn\<lparr>conn_rw := conn_rw cn\<rparr>"
    using HandshakeClient_exchange [OF f(1,2) assms(4,5)] f(3) by (auto simp: hs_done_def)
  have fr: "conn_pool cn = conn_pool conn" "chunkSize cn = w" "remoteChunkSize cn = k" "chunks cn = chunks conn"
    using assms(6,8) by (subst h(5), simp)+
  have "talks w k rest ((3 # replicate 1536 0) @ S1) (c\<lparr>cc_conn := Some cn\<rparr>)"
    using h fr assms(1,7,8,9) by (simp add: talks_def ready_def hs_fresh_def hs_input_def hs_stream_def key_idle_def NewDecoder_def)
  with h(1) show ?thesis by blast
qed

lemma resp_value_play: "cc_curcmdName c = gostr ''play'' \<Longrightarrow> resp_value k v c = (None, c)"
  by (cases v) (simp_all add: is_setup_def gostr_def)

lemma start_setup:
  assumes url: "publish_url parse url host app title tcurl" and dial: "dial host = Inr conn" and rng: "range_order rng"
    and peer: "accepts_client final conn S1 rest" and w: "w = chunkSize conn"
  shows "\<exists>c k ms v m1 m2 a1 a2 obj.
     cc_Start parse dial rng url method NewConnClient =
       Some (if method = gostr ''publish'' then writePublishMsg c else if method = gostr ''play'' then writePlayMsg c else (None, c)) \<and>
     talks w k (messages_bytes k ms @ rest) ((3 # replicate 1536 0) @ S1 @ message_bytes (unat w) (chooseCSID m1) @ a1 @
       message_bytes (unat w) (chooseCSID m2) @ a2) c \<and> reply k ms v \<and> final v \<and>
     cc_title c = title \<and> cc_transID c = 2 \<and> cc_streamid c = 1 \<and>
     command w m1 [AString (gostr ''connect''), AInt 1, AObject obj] \<and> connect_fields obj app tcurl \<and> acks w a1 \<and>
     command w m2 [AString (gostr ''createStream''), AInt 2, ANil] \<and> acks w a2"
proof -
  obtain path query where u: "parse url = Inr (host, path, query)" "split_path path = Some (app, title)"
      "tcurl = gostr ''rtmp://'' @ host @ gostr ''/'' @ app" "length app \<le> 64" "length tcurl \<le> 64"
    using url by (auto simp: publish_url_def)
  define k where "k = remoteChunkSize conn"
  obtain s0 S2 ms1 ms2 ms3 o1 o2 v where "ready conn \<and> k \<noteq> 0 \<and> rw_stream (conn_rw conn) = [] \<and> length S1 = 1536 \<and>
      rd_in (conn_rw conn) = s0 # S1 @ S2 @ messages_bytes k (ms1 @ ms2 @ ms3) @ rest \<and> length S2 = 1536 \<and>
      reply k ms1 [AString (gostr ''_result''), AInt 1, AObject o1, AObject o2] \<and>
      good_code o1 ''NetConnection.Connect.Success'' \<and> good_code o2 ''NetConnection.Connect.Success'' \<and>
      reply (sizes k ms1) ms2 [AString (gostr ''_result''), AInt 2, ANil, AInt 1] \<and> reply (sizes k (ms1 @ ms2)) ms3 v \<and> final v"
    using peer unfolding accepts_client_def Let_def k_def by blast
  then have "ready conn" "k \<noteq> 0" "rw_stream (conn_rw conn) = []" "length S1 = 1536"
      "rd_in (conn_rw conn) = s0 # S1 @ S2 @ messages_bytes k (ms1 @ ms2 @ ms3) @ rest" "length S2 = 1536"
      "reply k ms1 [AString (gostr ''_result''), AInt 1, AObject o1, AObject o2]"
      "good_code o1 ''NetConnection.Connect.Success''" "good_code o2 ''NetConnection.Connect.Success''"
      "reply (sizes k ms1) ms2 [AString (gostr ''_result''), AInt 2, ANil, AInt 1]" "reply (sizes k (ms1 @ ms2)) ms3 v" "final v"
    by blast+
  note pr = this
  let ?h = "(3 # replicate 1536 0) @ S1"
  let ?c0 = "NewConnClient\<lparr>cc_url := url, cc_app := app, cc_title := title, cc_query := query, cc_tcurl := tcurl, cc_conn := Some conn\<rparr>"
  have st: "cc_Start parse dial rng url method NewConnClient = start_commands rng method ?c0"
    using u(1-3) dial by (simp add: cc_Start_def Let_def)
  have k: "sizes k (ms1 @ ms2) = sizes (sizes k ms1) ms2" by (simp add: sizes_def)
  obtain cn where h: "HandshakeClient conn = (None, cn)" and t1: "talks w k (messages_bytes k ms1 @ messages_bytes (sizes k ms1) ms2 @
      messages_bytes (sizes (sizes k ms1) ms2) ms3 @ rest) ?h (?c0\<lparr>cc_conn := Some cn\<rparr>)"
    using handshake_talks [OF pr(1,3,5,4,6) k_def [symmetric] pr(2) w, of ?c0] by (auto simp: NewConnClient_def NewDecoder_def messages_bytes_append k)
  let ?c1 = "?c0\<lparr>cc_conn := Some cn\<rparr>"
  obtain c2 m1 a1 where c2: "writeConnectMsg rng ?c1 = (None, c2)" "command w m1 [AString (gostr ''connect''), AInt 1, AObject (rng (connect_event ?c1))]"
      "connect_fields (rng (connect_event ?c1)) app tcurl" "acks w a1" "cc_title c2 = title" "cc_transID c2 = 1"
      "talks w (sizes k ms1) (messages_bytes (sizes k ms1) ms2 @ messages_bytes (sizes (sizes k ms1) ms2) ms3 @ rest)
         (?h @ message_bytes (unat w) (chooseCSID m1) @ a1) c2"
    using writeConnectMsg_reply [OF t1 _ rng pr(7-9)] u(4,5) by (auto simp: NewConnClient_def)
  obtain c3 m2 a2 where c3: "writeCreateStreamMsg c2 = Some (None, c3)" "command w m2 [AString (gostr ''createStream''), AInt 2, ANil]" "acks w a2"
      "cc_title c3 = title" "cc_transID c3 = 2" "cc_streamid c3 = 1"
      "talks w (sizes (sizes k ms1) ms2) (messages_bytes (sizes (sizes k ms1) ms2) ms3 @ rest)
         ((?h @ message_bytes (unat w) (chooseCSID m1) @ a1) @ message_bytes (unat w) (chooseCSID m2) @ a2) c3"
    using writeCreateStreamMsg_reply [OF c2(7,6) pr(10)] c2(5) by auto
  have "cc_Start parse dial rng url method NewConnClient =
      Some (if method = gostr ''publish'' then writePublishMsg c3 else if method = gostr ''play'' then writePlayMsg c3 else (None, c3))"
    unfolding st using h c2(1) c3(1) by (simp add: start_commands_def with_conn_def)
  moreover note c2(2-4) c3(2-6) pr(12) pr(11) [unfolded k]
  moreover have "talks w (sizes (sizes k ms1) ms2) (messages_bytes (sizes (sizes k ms1) ms2) ms3 @ rest)
      ((3 # replicate 1536 0) @ S1 @ message_bytes (unat w) (chooseCSID m1) @ a1 @ message_bytes (unat w) (chooseCSID m2) @ a2) c3"
    using c3(7) by simp
  ultimately show ?thesis by blast
qed

lemma start_publishes:
  assumes url: "publish_url parse url host app title tcurl" and dial: "dial host = Inr conn" and rng: "range_order rng"
    and peer: "accepts_publisher conn S1 rest"
  shows "\<exists>c' conn' m1 a1 obj m2 a2 m3 a3 pend. cc_Start parse dial rng url (gostr ''publish'') NewConnClient = Some (None, c') \<and> cc_streamid c' = 1 \<and>
     cc_conn c' = Some conn' \<and> rd_in (conn_rw conn') = rest \<and>
     command (chunkSize conn) m1 [AString (gostr ''connect''), AInt 1, AObject obj] \<and> connect_fields obj app tcurl \<and>
     command (chunkSize conn) m2 [AString (gostr ''createStream''), AInt 2, ANil] \<and>
     command (chunkSize conn) m3 [AString (gostr ''publish''), AInt 3, ANil, AString title, AString (gostr ''live'')] \<and>
     acks (chunkSize conn) a1 \<and> acks (chunkSize conn) a2 \<and> acks (chunkSize conn) (a3 @ pend) \<and>
     (let bytes_of = (\<lambda>m. message_bytes (unat (chunkSize conn)) (chooseCSID m));
          bs = bytes_of m1 @ a1 @ bytes_of m2 @ a2 @ bytes_of m3 @ a3
      in bw_sent (wr (conn_rw conn')) = (3 # replicate 1536 0) @ S1 @ bs \<and> bw_buf (wr (conn_rw conn')) = pend \<and>
         (\<forall>server. session (chunkSize conn) (bs @ pend) server \<and> \<not> cs_done server \<longrightarrow>
            (\<exists>cs. ReadMsg rng emptyChunkStream server = (None, cs) \<and> IsPublisher cs \<and> cs_GetInfo cs = (app, title, tcurl @ gostr ''/'' @ title) \<and> cs_input cs = a3 @ pend)))"
proof -
  define w where "w = chunkSize conn"
  obtain c k ms v m1 m2 a1 a2 obj where s: "cc_Start parse dial rng url (gostr ''publish'') NewConnClient = Some (writePublishMsg c)"
      "talks w k (messages_bytes k ms @ rest) ((3 # replicate 1536 0) @ S1 @ message_bytes (unat w) (chooseCSID m1) @ a1 @
         message_bytes (unat w) (chooseCSID m2) @ a2) c"
      "reply k ms v" "publish_reply v" "cc_title c = title" "cc_transID c = 2" "cc_streamid c = 1"
      "command w m1 [AString (gostr ''connect''), AInt 1, AObject obj]" "connect_fields obj app tcurl" "acks w a1"
      "command w m2 [AString (gostr ''createStream''), AInt 2, ANil]" "acks w a2"
    using start_setup [OF url, of dial, OF dial rng peer [unfolded accepts_publisher_def] w_def, of "gostr ''publish''"] by auto
  have l: "length (cc_title c) \<le> 64" using url s(5) by (auto simp: publish_url_def)
  obtain ob where ob: "v = [AString (gostr ''onStatus''), AInt 0, ANil, AObject ob]" "good_code ob ''NetStream.Publish.Start''"
    using s(4) by (auto simp: publish_reply_def)
  let ?m = "\<lambda>m. message_bytes (unat w) (chooseCSID m)"
  obtain c4 m3 a z where c4: "writePublishMsg c = (None, c4)" "cc_streamid c4 = 1"
      "command w m3 [AString (gostr ''publish''), AInt 3, ANil, AString title, AString (gostr ''live'')]" "acks w a"
      "talks w (sizes k ms) rest (((3 # replicate 1536 0) @ S1 @ ?m m1 @ a1 @ ?m m2 @ a2) @ ?m m3 @ a) c4"
      "cc_sent c4 = ((3 # replicate 1536 0) @ S1 @ ?m m1 @ a1 @ ?m m2 @ a2) @ ?m m3 @ z"
    using writePublishMsg_reply [OF s(2,6) s(3) [unfolded ob(1)] ob(2) l] s(5,7) by auto
  let ?bs = "?m m1 @ a1 @ ?m m2 @ a2 @ ?m m3 @ z"
  obtain conn' where conn': "cc_conn c4 = Some conn'" "rd_in (conn_rw conn') = rest" "rw_stream (conn_rw conn') = (3 # replicate 1536 0) @ S1 @ ?m m1 @ a1 @ ?m m2 @ a2 @ ?m m3 @ a"
    using c4(5) by (auto simp: talks_def)
  define pend where "pend = bw_buf (wr (conn_rw conn'))"
  have sent: "bw_sent (wr (conn_rw conn')) = (3 # replicate 1536 0) @ S1 @ ?bs" "a = z @ pend"
    using c4(6) conn'(1,3) by (simp_all add: cc_sent_def rw_stream_def bufw_stream_def pend_def)
  have "w \<noteq> 0" using peer by (simp add: accepts_publisher_def accepts_client_def w_def ready_def)
  then have hears: "\<exists>cs. ReadMsg rng emptyChunkStream server = (None, cs) \<and> IsPublisher cs \<and> cs_GetInfo cs = (app, title, tcurl @ gostr ''/'' @ title) \<and> cs_input cs = z @ pend"
    if "session w (?bs @ pend) server" "\<not> cs_done server" for server
    using server_hears_client [OF _ _ that(2) rng s(10,12,8,9,11) c4(3), of "z @ pend"] that(1) by simp
  show ?thesis
    unfolding Let_def w_def [symmetric]
    by (intro exI [of _ c4] exI [of _ conn'] exI [of _ m1] exI [of _ a1] exI [of _ obj] exI [of _ m2] exI [of _ a2] exI [of _ m3] exI [of _ z] exI [of _ pend])
      (use s(1,8-12) c4(1-4) conn'(1,2) sent pend_def hears in simp)
qed

text \<open>A client that plays accepts any command as the answer.\<close>

lemma start_plays:
  assumes url: "publish_url parse url host app title tcurl" and dial: "dial host = Inr conn" and rng: "range_order rng"
    and peer: "accepts_client final conn S1 rest" and title: "title \<noteq> []"
  shows "\<exists>c' conn'. cc_Start parse dial rng url (gostr ''play'') NewConnClient = Some (None, c') \<and> cc_conn c' = Some conn' \<and> rd_in (conn_rw conn') = rest"
proof -
  have n: "gostr ''play'' \<noteq> gostr ''publish''" by (simp add: gostr_def)
  obtain c k ms v out where s: "cc_Start parse dial rng url (gostr ''play'') NewConnClient = Some (writePlayMsg c)"
      "talks (chunkSize conn) k (messages_bytes k ms @ rest) out c" "reply k ms v" "cc_title c = title" "cc_transID c = 2"
    using start_setup [OF url, of dial, OF dial rng peer refl, of "gostr ''play''"] n by fastforce
  let ?c = "c\<lparr>cc_transID := 3, cc_curcmdName := gostr ''play''\<rparr>"
  let ?args = "[AString (gostr ''play''), AInt 0, ANil, AString title]"
  have t: "talks (chunkSize conn) k (messages_bytes k ms @ rest) out ?c" using s(2) by (simp add: talks_def)
  have l: "length title \<le> 64" using url by (auto simp: publish_url_def)
  obtain c1 cn out' where r: "cc_writeMsg ?args ?c = (None, c1)" "readRespMsg c1 = resp_values 0 (normElements v) (?c\<lparr>cc_conn := Some cn\<rparr>)"
      "talks (chunkSize conn) (sizes k ms) rest out' (?c\<lparr>cc_conn := Some cn\<rparr>)"
    using command_reply [OF t s(3), of ?args] l title by (auto simp: gostr_def)
  have p: "resp_values i vs d = (None, d)" if "cc_curcmdName d = gostr ''play''" for i vs d
    using that by (induction vs arbitrary: i) (simp_all add: resp_value_play then_do_def)
  have "writePlayMsg c = (None, ?c\<lparr>cc_conn := Some cn\<rparr>)"
    using r(1,2) s(4,5) by (simp add: writePlayMsg_def Let_def p)
  with s(1) r(3) show ?thesis by (auto simp: talks_def)
qed

lemma accepts_publisher_exists: "\<exists>conn S1. accepts_publisher conn S1 []"
proof -
  let ?code = "\<lambda>s. [(gostr ''code'', AString (gostr s))]"
  let ?v1 = "[AString (gostr ''_result''), AInt 1, AObject [], AObject (?code ''NetConnection.Connect.Success'')]"
  let ?v2 = "[AString (gostr ''_result''), AInt 2, ANil, AInt 1]"
  let ?v3 = "[AString (gostr ''onStatus''), AInt 0, ANil, AObject (?code ''NetStream.Publish.Start'')]"
  have "\<exists>m. command 128 m ?v1" "\<exists>m. command 128 m ?v2" "\<exists>m. command 128 m ?v3"
    by (rule command_exists; simp add: small_members_def gostr_def)+
  then obtain r1 r2 r3 where r: "command 128 r1 ?v1" "command 128 r2 ?v2" "command 128 r3 ?v3" by blast
  then have rp: "reply 128 [r1] ?v1" "reply (sizes 128 [r1]) [r2] ?v2" "reply (sizes 128 ([r1] @ [r2])) [r3] ?v3"
    by (simp_all add: reply_def command_def next_size_def)
  let ?z = "replicate 1536 0 :: bytes"
  let ?in = "3 # ?z @ ?z @ messages_bytes 128 ([r1] @ [r2] @ [r3]) @ []"
  let ?conn = "NewConn ?in EOF None 4096"
  have i: "rd_in (conn_rw ?conn) = ?in" "remoteChunkSize ?conn = 128" "rw_stream (conn_rw ?conn) = []" "length ?z = 1536"
    by (simp_all add: NewConn_def NewReadWriter_def rw_stream_def bufw_stream_def)
  have g: "good_code [] ''NetConnection.Connect.Success''" "good_code (?code ''NetConnection.Connect.Success'') ''NetConnection.Connect.Success''"
      "good_code (?code ''NetStream.Publish.Start'') ''NetStream.Publish.Start''"
    by (simp_all add: good_code_def)
  have n: "(128 :: u32) \<noteq> 0" by simp
  have "accepts_publisher ?conn ?z []"
    unfolding accepts_publisher_def accepts_client_def publish_reply_def Let_def i(2) using NewConn_ready [of ?in] i(1,3,4) rp g n by blast
  then show ?thesis by blast
qed

lemma example_url:
  "publish_url (\<lambda>_. Inr (gostr ''host'', gostr ''/live/movie'', [])) url (gostr ''host'') (gostr ''live'') (gostr ''movie'') (gostr ''rtmp://host/live'')"
  by (simp add: publish_url_def split_path_def gostr_def)

lemma start_example:
  "\<exists>conn c'. cc_Start (\<lambda>_. Inr (gostr ''host'', gostr ''/live/movie'', [])) (\<lambda>_. Inr conn) id url (gostr ''publish'') NewConnClient = Some (None, c') \<and>
     cc_conn c' \<noteq> None"
proof -
  obtain conn S1 where "accepts_publisher conn S1 []" using accepts_publisher_exists by blast
  moreover have "range_order id" by (simp add: range_order_def)
  ultimately show ?thesis using start_publishes [OF example_url, of "\<lambda>_. Inr conn" conn id S1 "[]"] by blast
qed

section \<open>Properties\<close>

text \<open>
  C7: a relay that publishes to a server. When the server answers the handshake and the three commands as it should, with any control
  messages in between, \<^verbatim>\<open>Start\<close> succeeds with the stream id of the answer and has read exactly the answers. The bytes that
  have left its buffer for the connection are its half of the handshake, the messages of exactly three commands in this order, \<^verbatim>\<open>connect\<close> with
  the application and the URL of it, \<^verbatim>\<open>createStream\<close>, and \<^verbatim>\<open>publish\<close> with the name that the URL has, and between them nothing but
  acknowledgements; what may still wait in the buffer completes acknowledgements too. These bytes make the server of this program a publisher's
  connection with that application and name, with the acknowledgements that follow still to be read.
\<close>

theorem client_publishes:
  assumes "publish_url parse url host app title tcurl" and "dial host = Inr conn" and "range_order rng" and "accepts_publisher conn S1 rest"
  shows "\<exists>c' conn' m1 a1 obj m2 a2 m3 a3 pend. cc_Start parse dial rng url (gostr ''publish'') NewConnClient = Some (None, c') \<and> cc_streamid c' = 1 \<and>
     cc_conn c' = Some conn' \<and> rd_in (conn_rw conn') = rest \<and>
     command (chunkSize conn) m1 [AString (gostr ''connect''), AInt 1, AObject obj] \<and> connect_fields obj app tcurl \<and>
     command (chunkSize conn) m2 [AString (gostr ''createStream''), AInt 2, ANil] \<and>
     command (chunkSize conn) m3 [AString (gostr ''publish''), AInt 3, ANil, AString title, AString (gostr ''live'')] \<and>
     acks (chunkSize conn) a1 \<and> acks (chunkSize conn) a2 \<and> acks (chunkSize conn) (a3 @ pend) \<and>
     (let bytes_of = (\<lambda>m. message_bytes (unat (chunkSize conn)) (chooseCSID m));
          bs = bytes_of m1 @ a1 @ bytes_of m2 @ a2 @ bytes_of m3 @ a3
      in bw_sent (wr (conn_rw conn')) = (3 # replicate 1536 0) @ S1 @ bs \<and> bw_buf (wr (conn_rw conn')) = pend \<and>
         (\<forall>server. session (chunkSize conn) (bs @ pend) server \<and> \<not> cs_done server \<longrightarrow>
            (\<exists>cs. ReadMsg rng emptyChunkStream server = (None, cs) \<and> IsPublisher cs \<and> cs_GetInfo cs = (app, title, tcurl @ gostr ''/'' @ title) \<and> cs_input cs = a3 @ pend)))"
  using start_publishes [OF assms(1), of dial, OF assms(2-4)] .

theorem client_publishes_witness:
  "\<exists>conn c'. cc_Start (\<lambda>_. Inr (gostr ''host'', gostr ''/live/movie'', [])) (\<lambda>_. Inr conn) id (gostr ''rtmp://host/live/movie'') (gostr ''publish'')
     NewConnClient = Some (None, c') \<and> cc_streamid c' = 1"
proof -
  obtain conn S1 where "accepts_publisher conn S1 []" using accepts_publisher_exists by blast
  moreover have "range_order id" by (simp add: range_order_def)
  ultimately show ?thesis using client_publishes [OF example_url, of "\<lambda>_. Inr conn" conn id S1 "[]"] by blast
qed

text \<open>
  A relay whose peer closes the connection after the answer to \<^verbatim>\<open>connect\<close> does not return from \<^verbatim>\<open>Start\<close>: the loop of
  \<^verbatim>\<open>writeCreateStreamMsg\<close> leaves only on success or on \<^verbatim>\<open>ErrResponse\<close>, and reads again after the sticky error of the connection, for ever.
\<close>

theorem createStream_hangs:
  assumes "talks w k [] out c" and "cc_conn c = Some conn" and "rd_end (conn_rw conn) = EOF"
  shows "writeCreateStreamMsg c = None"
proof -
  let ?c = "c\<lparr>cc_transID := cc_transID c + 1, cc_curcmdName := gostr ''createStream''\<rparr>"
  let ?args = "[AString (gostr ''createStream''), AInt (cc_transID c + 1), ANil]"
  have t: "talks w k [] out ?c" using assms(1) by (simp add: talks_def)
  obtain conn' m where m: "cc_writeMsg ?args ?c = (None, ?c\<lparr>cc_conn := Some conn'\<rparr>)"
      "talks w k [] (out @ message_bytes (unat w) (chooseCSID m)) (?c\<lparr>cc_conn := Some conn'\<rparr>)" "rd_end (conn_rw conn') = EOF"
    using cc_writeMsg_talks [OF t, of ?args] assms(2,3) by (auto simp: gostr_def)
  then have "at_end conn'" using m(2) by (auto simp: at_end_def talks_def ready_def)
  then have "createStream_loop (?c\<lparr>cc_conn := Some conn'\<rparr>) = None"
    using createStream_loop_lost [of "?c\<lparr>cc_conn := Some conn'\<rparr>" _ conn'] by (cases "createStream_loop (?c\<lparr>cc_conn := Some conn'\<rparr>)") auto
  then show ?thesis using m(1) by (simp add: writeCreateStreamMsg_def Let_def)
qed

theorem createStream_hangs_witness:
  "writeCreateStreamMsg (NewConnClient\<lparr>cc_conn := Some (NewConn [] EOF None 4096)\<rparr>) = None"
proof -
  let ?c = "NewConnClient\<lparr>cc_conn := Some (NewConn [] EOF None 4096)\<rparr>"
  have "talks 128 128 [] [] ?c"
    using NewConn_ready [of "[]"] by (simp add: talks_def NewConnClient_def NewDecoder_def) (simp add: NewConn_def NewReadWriter_def rw_stream_def bufw_stream_def)
  moreover have "cc_conn ?c = Some (NewConn [] EOF None 4096)" "rd_end (conn_rw (NewConn [] EOF None 4096)) = EOF"
    by (simp_all add: NewConn_def NewReadWriter_def)
  ultimately show ?thesis by (rule createStream_hangs)
qed

end
