(* ===== verification/Configure.thy ===== *)
theory Configure
  imports Prelude
begin

text \<open>
  \<^verbatim>\<open>src/configure/channel.go\<close>: the keys with which a channel may be published, and the lookups of the applications in
  \<^verbatim>\<open>liveconfig.go\<close>.

  The keys are stored in a \<^verbatim>\<open>go-cache\<close>, a third-party package: the operations \<^verbatim>\<open>Get\<close>, \<^verbatim>\<open>SetDefault\<close> and \<^verbatim>\<open>Delete\<close> are a
  parameter, a record of functions on a state of any type, and the locale \<open>room_cache\<close> has what its
  documentation says of them (no entry expires). Likewise the configuration, read by viper, is the list of applications, or the record \<open>ServerCfg\<close> where
  the servers are started.
\<close>

section \<open>liveconfig.go\<close>

record Application =
  Appname :: bytes
  Live :: bool
  Hls :: bool
  StaticPush :: "bytes list"

record JWT =
  jwt_Secret :: bytes
  jwt_Algorithm :: bytes

record ServerCfg =
  cfg_Level :: bytes
  cfg_ConfigFile :: bytes
  cfg_FLVDir :: bytes
  cfg_RTMPAddr :: bytes
  cfg_HTTPFLVAddr :: bytes
  cfg_HLSAddr :: bytes
  cfg_HLSKeepAfterEnd :: bool
  cfg_APIAddr :: bytes
  cfg_RedisAddr :: bytes
  cfg_RedisPwd :: bytes
  cfg_ReadTimeout :: int
  cfg_WriteTimeout :: int
  cfg_GopNum :: nat
  cfg_JWT :: JWT
  cfg_Server :: "Application list"

definition defaultConf :: ServerCfg where
  "defaultConf =
     \<lparr>cfg_Level = [], cfg_ConfigFile = gostr ''livego.yaml'', cfg_FLVDir = [], cfg_RTMPAddr = gostr '':1935'', cfg_HTTPFLVAddr = gostr '':7001'',
      cfg_HLSAddr = gostr '':7002'', cfg_HLSKeepAfterEnd = False, cfg_APIAddr = gostr '':8090'', cfg_RedisAddr = [], cfg_RedisPwd = [],
      cfg_ReadTimeout = 10, cfg_WriteTimeout = 10, cfg_GopNum = 1, cfg_JWT = \<lparr>jwt_Secret = [], jwt_Algorithm = []\<rparr>,
      cfg_Server = [\<lparr>Appname = gostr ''live'', Live = True, Hls = True, StaticPush = []\<rparr>]\<rparr>"

fun CheckAppName :: "Application list \<Rightarrow> bytes \<Rightarrow> bool" where
  "CheckAppName [] appname = False"
| "CheckAppName (app # apps) appname = (if Appname app = appname then Live app else CheckAppName apps appname)"

fun GetStaticPushURLList :: "Application list \<Rightarrow> bytes \<Rightarrow> bytes list option" where
  "GetStaticPushURLList [] appname = None"
| "GetStaticPushURLList (app # apps) appname =
     (if Appname app = appname \<and> Live app
      then (if length (StaticPush app) > 0 then Some (StaticPush app) else None)
      else GetStaticPushURLList apps appname)"

section \<open>channel.go\<close>

record 'c cache_ops =
  cache_Get :: "bytes \<Rightarrow> 'c \<Rightarrow> bytes option"
  cache_Set :: "bytes \<Rightarrow> bytes \<Rightarrow> 'c \<Rightarrow> 'c"
  cache_Delete :: "bytes \<Rightarrow> 'c \<Rightarrow> 'c"

text \<open>\<open>rand\<close> are the keys that \<^verbatim>\<open>uid.RandStringRunes\<close> will return; \<open>None\<close> says that all of them are in use, and that more are drawn.\<close>

fun SetKey :: "'c cache_ops \<Rightarrow> bytes list \<Rightarrow> bytes \<Rightarrow> 'c \<Rightarrow> (bytes \<times> 'c) option" where
  "SetKey ops [] channel c = None"
| "SetKey ops (key # rand) channel c =
     (if cache_Get ops key c = None
      then Some (key, cache_Set ops key channel (cache_Set ops channel key c))
      else SetKey ops rand channel c)"

definition GetKey :: "'c cache_ops \<Rightarrow> bytes list \<Rightarrow> bytes \<Rightarrow> 'c \<Rightarrow> (bytes \<times> 'c) option" where
  "GetKey ops rand channel c =
     (case cache_Get ops channel c of Some key \<Rightarrow> Some (key, c) | None \<Rightarrow> SetKey ops rand channel c)"

definition GetChannel :: "'c cache_ops \<Rightarrow> bytes \<Rightarrow> 'c \<Rightarrow> bytes res" where
  "GetChannel ops key c =
     (case cache_Get ops key c of Some channel \<Rightarrow> Inr channel | None \<Rightarrow> Inl (Err (Errorf '' does not exists'')))"

definition DeleteChannel :: "'c cache_ops \<Rightarrow> bytes \<Rightarrow> 'c \<Rightarrow> bool \<times> 'c" where
  "DeleteChannel ops channel c =
     (case cache_Get ops channel c of
        Some key \<Rightarrow> (True, cache_Delete ops key (cache_Delete ops channel c))
      | None \<Rightarrow> (False, c))"

definition DeleteKey :: "'c cache_ops \<Rightarrow> bytes \<Rightarrow> 'c \<Rightarrow> bool \<times> 'c" where
  "DeleteKey ops key c =
     (case cache_Get ops key c of
        Some channel \<Rightarrow> (True, cache_Delete ops key (cache_Delete ops channel c))
      | None \<Rightarrow> (False, c))"

section \<open>The contract of the cache\<close>

locale room_cache =
  fixes ops :: "'c cache_ops"
  assumes get_set: "cache_Get ops k (cache_Set ops k' v c) = (if k = k' then Some v else cache_Get ops k c)"
    and get_delete: "cache_Get ops k (cache_Delete ops k' c) = (if k = k' then None else cache_Get ops k c)"
begin

lemma SetKey_entries:
  assumes "SetKey ops rand channel c = Some (key, c')"
  shows "key \<in> set rand \<and> cache_Get ops key c = None \<and>
     cache_Get ops k c' = (if k = key then Some channel else if k = channel then Some key else cache_Get ops k c)"
  using assms by (induction rand) (auto simp: get_set split: if_splits)

lemma SetKey_fresh:
  assumes "key \<in> set rand" and "cache_Get ops key c = None"
  shows "\<exists>key' c'. SetKey ops rand channel c = Some (key', c')"
  using assms by (induction rand) auto

lemma GetKey_entries:
  assumes "GetKey ops rand channel c = Some (key, c')"
  shows "cache_Get ops channel c' = Some key \<or> key = channel"
  using assms SetKey_entries [of rand channel c key c' channel] by (auto simp: GetKey_def split: option.splits)

lemma deleted: "DeleteChannel ops channel c = (True, c') \<Longrightarrow> cache_Get ops channel c' = None"
  "DeleteKey ops key c = (True, c') \<Longrightarrow> cache_Get ops key c' = None"
  by (auto simp: DeleteChannel_def DeleteKey_def get_delete split: option.splits)

end

text \<open>A cache that keeps what it is given, as a map.\<close>

definition map_cache :: "(bytes \<rightharpoonup> bytes) cache_ops" where
  "map_cache = \<lparr>cache_Get = (\<lambda>k c. c k), cache_Set = (\<lambda>k v c. c(k \<mapsto> v)), cache_Delete = (\<lambda>k c. c(k := None))\<rparr>"

interpretation mc: room_cache map_cache
  by unfold_locales (simp_all add: map_cache_def)

section \<open>Properties\<close>



end
