(* ===== verification/StaticPush.thy ===== *)
theory StaticPush
  imports ConnClient Configure Queue
begin

text \<open>
  \<^verbatim>\<open>src/protocol/rtmp/rtmprelay/staticrelay.go\<close>: the relays that push the streams of an application to configured servers, and
  the four functions of \<^verbatim>\<open>src/protocol/rtmp/stream.go\<close> that drive them.

  A relay has a goroutine, \<^verbatim>\<open>Handle\<close>, that takes packets from a channel of 500 and a stop command from an unbuffered channel. Whether
  a goroutine receives from them is the field \<open>sp_handling\<close>. As in \<open>Queue\<close> the result \<open>None\<close> says that the caller waits for good, or that
  it does not return.
\<close>

section \<open>State\<close>

record StaticPush =
  sp_RtmpURL :: bytes
  sp_packetChan :: "packet chan"
  sp_handling :: bool
  sp_connectClient :: "ConnClient option"
  sp_startflag :: bool

definition NewStaticPush :: "bytes \<Rightarrow> StaticPush" where
  "NewStaticPush rtmpurl = \<lparr>sp_RtmpURL = rtmpurl, sp_packetChan = make_chan 500, sp_handling = False, sp_connectClient = None, sp_startflag = False\<rparr>"

text \<open>The map \<^verbatim>\<open>staticPushMap\<close>, by URL, and the network.\<close>

type_synonym pushes = "bytes \<rightharpoonup> StaticPush"

record network =
  net_Parse :: "bytes \<Rightarrow> (bytes \<times> bytes \<times> bytes) res"
  net_Dial :: "bytes \<Rightarrow> Conn res"
  net_Range :: "(bytes \<times> amfval) list \<Rightarrow> (bytes \<times> amfval) list"

section \<open>The table of relays\<close>

definition GetStaticPushList :: "Application list \<Rightarrow> bytes \<Rightarrow> bytes list res" where
  "GetStaticPushList apps appname =
     (case GetStaticPushURLList apps appname of None \<Rightarrow> Inl (Err (Errorf ''no static push url'')) | Some urls \<Rightarrow> Inr urls)"

definition GetAndCreateStaticPushObject :: "bytes \<Rightarrow> pushes \<Rightarrow> StaticPush \<times> pushes" where
  "GetAndCreateStaticPushObject rtmpurl m =
     (case m rtmpurl of
        None \<Rightarrow> (NewStaticPush rtmpurl, m(rtmpurl \<mapsto> NewStaticPush rtmpurl))
      | Some sp \<Rightarrow> (sp, m))"

definition GetStaticPushObject :: "bytes \<Rightarrow> pushes \<Rightarrow> StaticPush res" where
  "GetStaticPushObject rtmpurl m =
     (case m rtmpurl of Some sp \<Rightarrow> Inr sp | None \<Rightarrow> Inl (Err (Errorf ''staticPushMap[%s] not exist'')))"

definition ReleaseStaticPushObject :: "bytes \<Rightarrow> pushes \<Rightarrow> pushes" where
  "ReleaseStaticPushObject rtmpurl m = (case m rtmpurl of Some _ \<Rightarrow> m(rtmpurl := None) | None \<Rightarrow> m)"

section \<open>One relay\<close>

text \<open>
  \<^verbatim>\<open>Start\<close> starts the goroutine before it sets the flag that the goroutine tests first: \<open>early\<close> says that the goroutine is the faster,
  finds the flag unset and ends.
\<close>

definition sp_Start :: "network \<Rightarrow> bool \<Rightarrow> StaticPush \<Rightarrow> (exn option \<times> StaticPush) option" where
  "sp_Start net early sp =
     (if sp_startflag sp then Some (Some (Err (Errorf ''StaticPush already start %s'')), sp)
      else case cc_Start (net_Parse net) (net_Dial net) (net_Range net) (sp_RtmpURL sp) (gostr ''publish'') NewConnClient of
             None \<Rightarrow> None
           | Some (Some e, client) \<Rightarrow> Some (Some e, sp\<lparr>sp_connectClient := Some client\<rparr>)
           | Some (None, client) \<Rightarrow>
               Some (None, sp\<lparr>sp_connectClient := Some client, sp_handling := sp_handling sp \<or> \<not> early, sp_startflag := True\<rparr>))"

text \<open>
  \<^verbatim>\<open>Stop\<close> waits for the goroutine to take the command, which closes the connection; the \<^verbatim>\<open>break\<close> behind it leaves the \<^verbatim>\<open>select\<close> only, so that
  the goroutine goes on.
\<close>

definition sp_Stop :: "StaticPush \<Rightarrow> StaticPush blk" where
  "sp_Stop sp =
     (if \<not> sp_startflag sp then retB sp
      else if \<not> sp_handling sp then None
      else case sp_connectClient sp of
             None \<Rightarrow> Some (Inl (Panic NilDereference))
           | Some client \<Rightarrow>
               (case cc_Close client of
                  (Some e, _) \<Rightarrow> Some (Inl e)
                | (None, client) \<Rightarrow> retB (sp\<lparr>sp_connectClient := Some client, sp_startflag := False\<rparr>)))"

definition sp_Write :: "packet \<Rightarrow> StaticPush \<Rightarrow> StaticPush blk" where
  "sp_Write p sp =
     (if \<not> sp_startflag sp then retB sp
      else bindB (chan_send p (sp_packetChan sp)) (\<lambda>c. retB (sp\<lparr>sp_packetChan := c\<rparr>)))"

text \<open>The message of a packet; unlike \<^verbatim>\<open>VirWriter\<close> it takes the stream id of the connection and the time stamp as it is.\<close>

definition push_message :: "packet \<Rightarrow> u32 \<Rightarrow> ChunkStream" where
  "push_message p sid =
     emptyChunkStream\<lparr>Data := pkt_Data p, Length := word_of_nat (length (pkt_Data p)), StreamID := sid, Timestamp := TimeStamp p,
       TypeID := (if IsVideo p then TagVideo else if IsMetadata p then TagScriptDataAMF0 else TagAudio)\<rparr>"

definition sp_Send :: "packet \<Rightarrow> StaticPush \<Rightarrow> StaticPush res" where
  "sp_Send p sp =
     (if \<not> sp_startflag sp then Inr sp
      else case sp_connectClient sp of
             None \<Rightarrow> Inl (Panic NilDereference)
           | Some client \<Rightarrow>
               (case cc_Write (push_message p (cc_StreamID client)) client of
                  (e, client) \<Rightarrow> (case ignore_err e of Some e \<Rightarrow> Inl e | None \<Rightarrow> Inr (sp\<lparr>sp_connectClient := Some client\<rparr>))))"

text \<open>One round of \<^verbatim>\<open>Handle\<close> that takes a packet; \<open>None\<close> when there is none, or no goroutine.\<close>

definition sp_Handle_packet :: "StaticPush \<Rightarrow> StaticPush blk" where
  "sp_Handle_packet sp =
     (if \<not> sp_handling sp then None
      else bindB (chan_recv (sp_packetChan sp)) (\<lambda>(p, c).
             case p of
               None \<Rightarrow> Some (Inl (Panic NilDereference))
             | Some p \<Rightarrow> Some (sp_Send p (sp\<lparr>sp_packetChan := c\<rparr>))))"

definition sp_IsStart :: "StaticPush \<Rightarrow> bool" where
  "sp_IsStart sp = sp_startflag sp"

section \<open>The relays of a stream\<close>

text \<open>The URLs of the relays of a stream, from its key: the application is what precedes the first slash, the name what follows it.\<close>

definition push_urls :: "Application list \<Rightarrow> bytes \<Rightarrow> bytes list" where
  "push_urls apps key =
     (if 47 \<notin> set key then []
      else case GetStaticPushList apps (takeWhile (\<lambda>b. b \<noteq> 47) key) of
             Inl _ \<Rightarrow> []
           | Inr urls \<Rightarrow> map (\<lambda>url. url @ gostr ''/'' @ tl (dropWhile (\<lambda>b. b \<noteq> 47) key)) urls)"

fun StartStaticPush_loop :: "network \<Rightarrow> bool \<Rightarrow> bytes list \<Rightarrow> pushes \<Rightarrow> pushes blk" where
  "StartStaticPush_loop net early [] m = retB m"
| "StartStaticPush_loop net early (url # urls) m =
     (case GetAndCreateStaticPushObject url m of (sp, m) \<Rightarrow>
        (case sp_Start net early sp of
           None \<Rightarrow> None
         | Some (e, sp) \<Rightarrow>
             (case e of
                None \<Rightarrow> StartStaticPush_loop net early urls (m(url \<mapsto> sp))
              | Some (Err _) \<Rightarrow> StartStaticPush_loop net early urls (m(url \<mapsto> sp))
              | Some x \<Rightarrow> Some (Inl x))))"

definition StartStaticPush :: "Application list \<Rightarrow> network \<Rightarrow> bool \<Rightarrow> bytes \<Rightarrow> pushes \<Rightarrow> pushes blk" where
  "StartStaticPush apps net early key m = StartStaticPush_loop net early (push_urls apps key) m"

fun StopStaticPush_loop :: "bytes list \<Rightarrow> pushes \<Rightarrow> pushes blk" where
  "StopStaticPush_loop [] m = retB m"
| "StopStaticPush_loop (url # urls) m =
     (case GetStaticPushObject url m of
        Inr sp \<Rightarrow> bindB (sp_Stop sp) (\<lambda>_. StopStaticPush_loop urls (ReleaseStaticPushObject url m))
      | Inl _ \<Rightarrow> StopStaticPush_loop urls m)"

definition StopStaticPush :: "Application list \<Rightarrow> bytes \<Rightarrow> pushes \<Rightarrow> pushes blk" where
  "StopStaticPush apps key m = StopStaticPush_loop (push_urls apps key) m"

definition IsSendStaticPush :: "Application list \<Rightarrow> bytes \<Rightarrow> pushes \<Rightarrow> bool" where
  "IsSendStaticPush apps key m = list_ex (\<lambda>url. m url \<noteq> None) (push_urls apps key)"

fun SendStaticPush_loop :: "packet \<Rightarrow> bytes list \<Rightarrow> pushes \<Rightarrow> pushes blk" where
  "SendStaticPush_loop p [] m = retB m"
| "SendStaticPush_loop p (url # urls) m =
     (case GetStaticPushObject url m of
        Inr sp \<Rightarrow> bindB (sp_Write p sp) (\<lambda>sp. SendStaticPush_loop p urls (m(url \<mapsto> sp)))
      | Inl _ \<Rightarrow> SendStaticPush_loop p urls m)"

definition SendStaticPush :: "Application list \<Rightarrow> bytes \<Rightarrow> packet \<Rightarrow> pushes \<Rightarrow> pushes blk" where
  "SendStaticPush apps key p m = SendStaticPush_loop p (push_urls apps key) m"

section \<open>What the relays do to the publisher\<close>

lemma push_urls_no_slash [simp]: "push_urls apps [] = []"
  by (simp add: push_urls_def)

text \<open>Without the goroutine, the channel takes 500 packets, then the publisher waits; \<^verbatim>\<open>Stop\<close> waits at once.\<close>

fun sp_Writes :: "packet list \<Rightarrow> StaticPush \<Rightarrow> StaticPush blk" where
  "sp_Writes [] sp = retB sp"
| "sp_Writes (p # ps) sp = bindB (sp_Write p sp) (sp_Writes ps)"

lemma sp_Writes_room:
  assumes "sp_startflag sp" and "\<not> ch_closed (sp_packetChan sp)" and "length (ch_buf (sp_packetChan sp)) + length ps \<le> ch_cap (sp_packetChan sp)"
  shows "\<exists>sp'. sp_Writes ps sp = retB sp' \<and> sp_startflag sp' \<and> sp_handling sp' = sp_handling sp \<and> sp_packetChan sp' = (sp_packetChan sp)\<lparr>ch_buf := ch_buf (sp_packetChan sp) @ ps\<rparr>"
  using assms
proof (induction ps arbitrary: sp)
  case (Cons p ps)
  let ?sp = "sp\<lparr>sp_packetChan := (sp_packetChan sp)\<lparr>ch_buf := ch_buf (sp_packetChan sp) @ [p]\<rparr>\<rparr>"
  have "sp_Write p sp = retB ?sp" using Cons.prems by (simp add: sp_Write_def chan_send_def)
  then show ?case using Cons.IH [of ?sp] Cons.prems by auto
qed simp

lemma sp_Writes_append: "sp_Writes (ps @ qs) sp = bindB (sp_Writes ps sp) (sp_Writes qs)"
proof (induction ps arbitrary: sp)
  case (Cons p ps)
  then show ?case by (cases "sp_Write p sp") (auto simp: bindB_def split: sum.splits option.splits)
qed simp

text \<open>
  The relay of a configured push URL after a successful \<^verbatim>\<open>Start\<close>. When the goroutine tests the flag before \<^verbatim>\<open>Start\<close> sets it, nobody
  receives: the publisher's first 500 packets are queued and the 501st blocks its goroutine for good, and so does \<^verbatim>\<open>Stop\<close>.
  When it tests the flag later, \<^verbatim>\<open>Stop\<close> returns and the relay can be started again.
\<close>

theorem push_start_race:
  assumes "sp_Start net early (NewStaticPush url) = Some (None, sp)"
  shows "(if early
      then (\<forall>ps. length ps \<le> 500 \<longrightarrow> (\<exists>sp'. sp_Writes ps sp = retB sp' \<and> sp_Stop sp' = None)) \<and>
           (\<forall>ps. length ps > 500 \<longrightarrow> sp_Writes ps sp = None)
      else (sp_handling sp \<and> (\<exists>client. sp_connectClient sp = Some client \<and> (cc_conn client \<noteq> None \<longrightarrow>
              (\<exists>sp'. sp_Stop sp = retB sp' \<and> \<not> sp_startflag sp')))))"
proof -
  obtain client where sp: "sp = (NewStaticPush url)\<lparr>sp_connectClient := Some client, sp_handling := \<not> early, sp_startflag := True\<rparr>"
    using assms by (auto simp: sp_Start_def NewStaticPush_def split: option.splits prod.splits)
  have ch: "sp_startflag sp" "sp_packetChan sp = make_chan 500" "sp_handling sp = (\<not> early)" by (simp_all add: sp NewStaticPush_def)
  have "\<exists>sp'. sp_Writes ps sp = retB sp' \<and> sp_Stop sp' = None" if "length ps \<le> 500" early for ps
    using sp_Writes_room [of sp ps] ch that by (auto simp: sp_Stop_def)
  moreover have "sp_Writes ps sp = None" if l: "length ps > 500" for ps
  proof -
    obtain sp' where w: "sp_Writes (take 500 ps) sp = retB sp'" "sp_startflag sp'" "sp_packetChan sp' = (make_chan 500)\<lparr>ch_buf := take 500 ps\<rparr>"
      using sp_Writes_room [of sp "take 500 ps"] ch by auto
    obtain q qs where "drop 500 ps = q # qs" using l by (cases "drop 500 ps") auto
    then have "sp_Writes (drop 500 ps) sp' = None" using w l by (simp add: sp_Write_def chan_send_def)
    then show ?thesis using sp_Writes_append [of "take 500 ps" "drop 500 ps" sp] w(1) by simp
  qed
  moreover have "\<exists>sp'. sp_Stop sp = retB sp' \<and> \<not> sp_startflag sp'" if "\<not> early" "cc_conn client \<noteq> None"
    using that ch(1,3) by (auto simp: sp_Stop_def sp NewStaticPush_def cc_Close_def with_conn_def)
  ultimately show ?thesis using ch(3) by (auto simp: sp)
qed

theorem push_start_race_witness:
  "\<exists>net sp. sp_Start net True (NewStaticPush []) = Some (None, sp) \<and> sp_Stop sp = None \<and> sp_Writes (replicate 501 (sample_packet True 0)) sp = None"
proof -
  obtain conn c' where c: "cc_Start (\<lambda>_. Inr (gostr ''host'', gostr ''/live/movie'', [])) (\<lambda>_. Inr conn) id [] (gostr ''publish'') NewConnClient = Some (None, c')"
    using start_example by blast
  let ?net = "\<lparr>net_Parse = \<lambda>_. Inr (gostr ''host'', gostr ''/live/movie'', []), net_Dial = \<lambda>_. Inr conn, net_Range = id\<rparr>"
  obtain sp where s: "sp_Start ?net True (NewStaticPush []) = Some (None, sp)"
    using c by (simp add: sp_Start_def NewStaticPush_def)
  have "\<exists>sp'. sp_Writes [] sp = retB sp' \<and> sp_Stop sp' = None" "sp_Writes (replicate 501 (sample_packet True 0)) sp = None"
    using push_start_race [OF s] by (simp_all only: if_True length_replicate list.size)
  with s show ?thesis by auto
qed

end
