(* ===== verification/RtmpServer.thy ===== *)
theory RtmpServer
  imports ConnServer Configure Queue
begin

text \<open>
  \<^verbatim>\<open>src/protocol/rtmp/rtmp.go\<close>: the reader of a publisher (\<^verbatim>\<open>VirReader\<close>), the writer of a player (\<^verbatim>\<open>VirWriter\<close>) with its
  queue, their traffic statistics, and the decision what a new connection is. The connection is the \<^verbatim>\<open>ConnServer\<close> of the
  server side. Clocks are arguments, in nanoseconds. A panic of \<^verbatim>\<open>Read\<close> is recovered; the others are not.
\<close>

section \<open>Statistics\<close>

record StaticsBW =
  bw_StreamID :: u32
  VideoDatainBytes :: u64
  LastVideoDatainBytes :: u64
  VideoSpeedInBytesperMS :: u64
  AudioDatainBytes :: u64
  LastAudioDatainBytes :: u64
  AudioSpeedInBytesperMS :: u64
  LastTimestamp :: int

definition zeroStatics :: StaticsBW where
  "zeroStatics = \<lparr>bw_StreamID = 0, VideoDatainBytes = 0, LastVideoDatainBytes = 0, VideoSpeedInBytesperMS = 0,
     AudioDatainBytes = 0, LastAudioDatainBytes = 0, AudioSpeedInBytesperMS = 0, LastTimestamp = 0\<rparr>"

text \<open>\<^verbatim>\<open>saveStaticsInterval\<close> is 5000 milliseconds. A division by zero would panic.\<close>

definition SaveStatics :: "int \<Rightarrow> u32 \<Rightarrow> u64 \<Rightarrow> bool \<Rightarrow> StaticsBW \<Rightarrow> StaticsBW res" where
  "SaveStatics now streamid len isVideoFlag bw =
     (let nowInMS = now div 1000000;
          bw = bw\<lparr>bw_StreamID := streamid\<rparr>;
          bw = (if isVideoFlag then bw\<lparr>VideoDatainBytes := VideoDatainBytes bw + len\<rparr>
                else bw\<lparr>AudioDatainBytes := AudioDatainBytes bw + len\<rparr>)
      in if LastTimestamp bw = 0 then Inr (bw\<lparr>LastTimestamp := nowInMS\<rparr>)
         else if nowInMS - LastTimestamp bw \<ge> 5000
         then (let diffTimestamp = word_of_int ((nowInMS - LastTimestamp bw) div 1000) :: u64
               in if diffTimestamp = 0 then Inl (Panic DivideByZero)
                  else Inr (bw\<lparr>VideoSpeedInBytesperMS := (VideoDatainBytes bw - LastVideoDatainBytes bw) * 8 div diffTimestamp div 1000,
                     AudioSpeedInBytesperMS := (AudioDatainBytes bw - LastAudioDatainBytes bw) * 8 div diffTimestamp div 1000,
                     LastVideoDatainBytes := VideoDatainBytes bw, LastAudioDatainBytes := AudioDatainBytes bw,
                     LastTimestamp := nowInMS\<rparr>))
         else Inr bw)"

section \<open>The writer of a player\<close>

record VirWriter =
  vw_rw :: RWBase
  vw_uid :: bytes
  vw_closed :: bool
  vw_conn :: ConnServer
  vw_packetQueue :: "packet chan"
  WriteBWInfo :: StaticsBW

definition NewVirWriter :: "int \<Rightarrow> int \<Rightarrow> bytes \<Rightarrow> ConnServer \<Rightarrow> VirWriter" where
  "NewVirWriter now writeTimeout newID conn =
     \<lparr>vw_rw = NewRWBase now (1000000000 * writeTimeout), vw_uid = newID, vw_closed = False, vw_conn = conn,
      vw_packetQueue = make_chan rtmp_maxQueueNum, WriteBWInfo = zeroStatics\<rparr>"

definition vw_Write :: "packet \<Rightarrow> VirWriter \<Rightarrow> VirWriter blk" where
  "vw_Write p v =
     (if vw_closed v then Some (Inl (Err (Errorf ''VirWriter closed'')))
      else bindB (recoverB ''VirWriter has already been closed:'' (enqueue rtmp_maxQueueNum rtmp_DropPacket p (vw_packetQueue v)))
             (\<lambda>c. retB (v\<lparr>vw_packetQueue := c\<rparr>)))"

text \<open>The message of a packet. \<^verbatim>\<open>Write\<close> gets a copy, so that the loop variable keeps its zero chunk stream id.\<close>

definition packet_message :: "packet \<Rightarrow> u32 \<Rightarrow> ChunkStream" where
  "packet_message p base =
     emptyChunkStream\<lparr>Data := pkt_Data p, Length := word_of_nat (length (pkt_Data p)), StreamID := pkt_StreamID p,
       Timestamp := TimeStamp p + base,
       TypeID := (if IsVideo p then TagVideo else if IsMetadata p then TagScriptDataAMF0 else TagAudio)\<rparr>"

text \<open>One packet of the loop of \<^verbatim>\<open>SendPacket\<close>; the result of \<^verbatim>\<open>Flush\<close> is dropped.\<close>

definition vw_SendPacket :: "int \<Rightarrow> packet \<Rightarrow> VirWriter \<Rightarrow> exn option \<times> VirWriter" where
  "vw_SendPacket now p v =
     (let cs = packet_message p (BaseTimestamp (vw_rw v))
      in case SaveStatics now (pkt_StreamID p) (ucast (Length cs)) (IsVideo p) (WriteBWInfo v) of
           Inl e \<Rightarrow> (Some e, v)
         | Inr bw \<Rightarrow>
             (let v = v\<lparr>WriteBWInfo := bw, vw_rw := RecTimestamp (Timestamp cs) (TypeID cs) (SetPreTime now (vw_rw v))\<rparr>
              in case cs_Write cs (vw_conn v) of
                   (Some (Err e), conn) \<Rightarrow> (Some (Err e), v\<lparr>vw_conn := conn, vw_closed := True\<rparr>)
                 | (Some e, conn) \<Rightarrow> (Some e, v\<lparr>vw_conn := conn\<rparr>)
                 | (None, conn) \<Rightarrow> (None, v\<lparr>vw_conn := snd (cs_Flush conn)\<rparr>)))"

text \<open>The loop, over the packets the channel delivers with the times they are sent; behind them it is closed or waits.\<close>

fun vw_SendPackets :: "(int \<times> packet) list \<Rightarrow> bool \<Rightarrow> VirWriter \<Rightarrow> exn option \<times> VirWriter" where
  "vw_SendPackets [] chClosed v = (if chClosed then Some (Err (Errorf ''closed'')) else None, v)"
| "vw_SendPackets ((now, p) # ps) chClosed v = then_do (vw_SendPacket now p v) (vw_SendPackets ps chClosed)"

definition vw_Close :: "VirWriter \<Rightarrow> VirWriter res" where
  "vw_Close v =
     bindR (if \<not> vw_closed v then chan_close (vw_packetQueue v) else Inr (vw_packetQueue v)) (\<lambda>c.
       Inr (v\<lparr>vw_packetQueue := c, vw_closed := True\<rparr>))"

section \<open>The reader of a publisher\<close>

record VirReader =
  vr_rw :: RWBase
  vr_uid :: bytes
  vr_conn :: ConnServer
  ReadBWInfo :: StaticsBW

definition NewVirReader :: "int \<Rightarrow> int \<Rightarrow> bytes \<Rightarrow> ConnServer \<Rightarrow> VirReader" where
  "NewVirReader now writeTimeout newID conn =
     \<lparr>vr_rw = NewRWBase now (1000000000 * writeTimeout), vr_uid = newID, vr_conn = conn, ReadBWInfo = zeroStatics\<rparr>"

definition is_media :: "ChunkStream \<Rightarrow> bool" where
  "is_media cs \<longleftrightarrow> TypeID cs = TagAudio \<or> TypeID cs = TagVideo \<or> TypeID cs = TagScriptDataAMF0 \<or> TypeID cs = TagScriptDataAMF3"

function vr_Read_loop :: "ChunkStream \<Rightarrow> ConnServer \<Rightarrow> exn option \<times> ChunkStream \<times> ConnServer" where
  "vr_Read_loop cs conn =
     (case cs_Read cs conn of
        (Some e, cs, conn) \<Rightarrow> (Some e, cs, conn)
      | (None, cs, conn) \<Rightarrow> if is_media cs then (None, cs, conn) else vr_Read_loop cs conn)"
  by pat_completeness auto
termination
  by (relation "measure (\<lambda>(cs, conn). length (cs_input conn))")
    (auto simp: cs_Read_def cs_input_def dest: conn_Read_progress split: prod.splits)

declare vr_Read_loop.simps [simp del]

definition fill_packet :: "ChunkStream \<Rightarrow> packet \<Rightarrow> packet" where
  "fill_packet cs p =
     p\<lparr>IsAudio := TypeID cs = TagAudio, IsVideo := TypeID cs = TagVideo,
       IsMetadata := TypeID cs = TagScriptDataAMF0 \<or> TypeID cs = TagScriptDataAMF3,
       pkt_StreamID := StreamID cs, pkt_Data := Data cs, TimeStamp := Timestamp cs\<rparr>"

text \<open>
  \<^verbatim>\<open>Read\<close> fills the packet of its caller. The error of \<^verbatim>\<open>DemuxH\<close> is dropped; a panic is recovered, and then the
  result is the nil error and the packet as it was at the panic.
\<close>

definition vr_Read :: "int \<Rightarrow> packet \<Rightarrow> VirReader \<Rightarrow> exn option \<times> packet \<times> VirReader" where
  "vr_Read now p v =
     (let v = v\<lparr>vr_rw := SetPreTime now (vr_rw v)\<rparr>
      in case vr_Read_loop emptyChunkStream (vr_conn v) of
           (Some (Err e), _, conn) \<Rightarrow> (Some (Err e), p, v\<lparr>vr_conn := conn\<rparr>)
         | (Some _, _, conn) \<Rightarrow> (None, p, v\<lparr>vr_conn := conn\<rparr>)
         | (None, cs, conn) \<Rightarrow>
             (let p = fill_packet cs p; v = v\<lparr>vr_conn := conn\<rparr>
              in case SaveStatics now (pkt_StreamID p) (word_of_nat (length (pkt_Data p))) (IsVideo p) (ReadBWInfo v) of
                   Inl e \<Rightarrow> (None, p, v)
                 | Inr bw \<Rightarrow> (None, (case DemuxH p of Inr p \<Rightarrow> p | Inl _ \<Rightarrow> p), v\<lparr>ReadBWInfo := bw\<rparr>)))"

fun vr_Reads :: "int list \<Rightarrow> packet \<Rightarrow> VirReader \<Rightarrow> exn option \<times> packet list \<times> VirReader" where
  "vr_Reads [] p v = (None, [], v)"
| "vr_Reads (now # ts) p v =
     (case vr_Read now p v of
        (Some e, p, v) \<Rightarrow> (Some e, [], v)
      | (None, p, v) \<Rightarrow> (case vr_Reads ts p v of (e, ps, v) \<Rightarrow> (e, p # ps, v)))"

section \<open>A new connection\<close>

text \<open>
  \<^verbatim>\<open>handleConn\<close> after the handshake: the connection is closed with an error, becomes a publisher, or a player. \<open>apps\<close> is the
  configuration, \<open>ops\<close> and \<open>keys\<close> the store of the room keys.
\<close>

datatype conn_role = Refused exn | Publisher ConnServer | Player ConnServer

definition handleConn ::
    "Application list \<Rightarrow> 'c cache_ops \<Rightarrow> 'c \<Rightarrow> ((bytes \<times> amfval) list \<Rightarrow> (bytes \<times> amfval) list) \<Rightarrow> Conn \<Rightarrow> conn_role" where
  "handleConn apps ops keys rng conn =
     (case ReadMsg rng emptyChunkStream (NewConnServer conn) of
        (Some e, _) \<Rightarrow> Refused e
      | (None, cs) \<Rightarrow>
          (case cs_GetInfo cs of (appname, name, _) \<Rightarrow>
             if \<not> CheckAppName apps appname then Refused (Err (Errorf ''application name=''))
             else if IsPublisher cs
             then (case GetChannel ops name keys of
                     Inl _ \<Rightarrow> Refused (Err (Errorf ''invalid key''))
                   | Inr channel \<Rightarrow> Publisher (cs\<lparr>cs_PublishInfo := (cs_PublishInfo cs)\<lparr>pub_Name := channel\<rparr>\<rparr>))
             else Player cs))"

section \<open>Statistics never fail\<close>

text \<open>Times are positive nanoseconds of 63 bits.\<close>

definition clock :: "int \<Rightarrow> bool" where
  "clock now \<longleftrightarrow> 0 \<le> now \<and> now < 2 ^ 63"

lemma SaveStatics_ok:
  assumes "clock now" and "0 \<le> LastTimestamp bw"
  shows "\<exists>bw'. SaveStatics now streamid len video bw = Inr bw' \<and> 0 \<le> LastTimestamp bw'"
proof -
  let ?n = "now div 1000000 - LastTimestamp bw"
  have n: "0 \<le> now div 1000000" "?n < 2 ^ 63" using assms by (auto simp: clock_def pos_imp_zdiv_nonneg_iff)
  have "word_of_int (?n div 1000) \<noteq> (0 :: u64)" if "?n \<ge> 5000"
  proof
    assume "word_of_int (?n div 1000) = (0 :: u64)"
    then have "?n div 1000 mod 2 ^ 64 = 0" by (simp add: word_of_int_eq_0_iff mod_eq_0_iff_dvd)
    moreover have "5 \<le> ?n div 1000" "?n div 1000 < 2 ^ 64" using that n(2) by (auto simp: zdiv_mono1 [of 5000 _ 1000, simplified])
    ultimately show False by simp
  qed
  with n assms(2) show ?thesis by (auto simp: SaveStatics_def Let_def)
qed

section \<open>From writer to reader\<close>

text \<open>An audio or video packet that a reader has read: it has data, its header is that of the data, and it fits the message pool.\<close>

definition media_packet :: "packet \<Rightarrow> bool" where
  "media_packet p \<longleftrightarrow> IsAudio p \<noteq> IsVideo p \<and> \<not> IsMetadata p \<and> pkt_Data p \<noteq> [] \<and> length (pkt_Data p) \<le> maxpoolsize \<and> DemuxH p = Inr p"

lemma packet_message_ok: "media_packet p \<Longrightarrow> ok_message k (packet_message p base) \<and> next_size k (packet_message p base) = k"
  by (auto simp: media_packet_def packet_message_def ok_message_def valid_message_def chooseCSID_def valid_csid_def next_size_def
      maxpoolsize_def word_less_nat_alt intro!: unat_small)

definition vw_k :: "VirWriter \<Rightarrow> u32" where
  "vw_k v = chunkSize (cs_conn (vw_conn v))"

definition vw_stream :: "VirWriter \<Rightarrow> bytes" where
  "vw_stream v = rw_stream (conn_rw (cs_conn (vw_conn v)))"

definition vw_ok :: "VirWriter \<Rightarrow> bool" where
  "vw_ok v \<longleftrightarrow> rw_good (conn_rw (cs_conn (vw_conn v))) \<and> vw_k v \<noteq> 0 \<and> 0 \<le> LastTimestamp (WriteBWInfo v)"

lemma vw_SendPacket_media:
  assumes "vw_ok v" and "media_packet p" and "clock now"
  defines "m \<equiv> packet_message p (BaseTimestamp (vw_rw v))"
  shows "\<exists>v'. vw_SendPacket now p v = (None, v') \<and> vw_ok v' \<and> vw_k v' = vw_k v \<and> BaseTimestamp (vw_rw v') = BaseTimestamp (vw_rw v) \<and>
     vw_stream v' = vw_stream v @ message_bytes (unat (vw_k v)) (chooseCSID m)"
proof -
  have ok: "ok_message (vw_k v) m" "next_size (vw_k v) m = vw_k v" unfolding m_def using packet_message_ok [OF assms(2)] by simp_all
  obtain bw where bw: "SaveStatics now (pkt_StreamID p) (ucast (Length m)) (IsVideo p) (WriteBWInfo v) = Inr bw" "0 \<le> LastTimestamp bw"
    using SaveStatics_ok [OF assms(3)] assms(1) by (force simp: vw_ok_def)
  obtain c conn1 where w: "conn_Write m (cs_conn (vw_conn v)) = (None, c, conn1)" "chunkSize conn1 = vw_k v"
      "emitted (conn_rw (cs_conn (vw_conn v))) (message_bytes (unat (vw_k v)) (chooseCSID m)) (conn_rw conn1)"
    using conn_Write_emits [of "cs_conn (vw_conn v)" m] assms(1) ok by (auto simp: vw_ok_def vw_k_def)
  have "TypeID m \<noteq> TagScriptDataAMF0" "TypeID m \<noteq> TagScriptDataAMF3" using assms(2) by (auto simp: m_def packet_message_def media_packet_def)
  then have cw: "cs_Write m (vw_conn v) = (None, (vw_conn v)\<lparr>cs_conn := conn1\<rparr>)" using w(1) by (simp add: cs_Write_def)
  have g: "rw_good (conn_rw conn1)" by (rule emitted_good [OF w(3)])
  obtain w2 where f: "rw_Flush (conn_rw conn1) = (None, (conn_rw conn1)\<lparr>wr := w2\<rparr>)" "bufw_good w2"
    using rw_Flush_good [OF g] by blast
  then have "rw_stream ((conn_rw conn1)\<lparr>wr := w2\<rparr>) = rw_stream (conn_rw conn1)" "rw_good ((conn_rw conn1)\<lparr>wr := w2\<rparr>)"
    using rw_Flush_ok [OF f(1)] g by (auto simp: rw_good_def rw_stream_def bufw_stream_def)
  then show ?thesis
    using assms(1) bw cw f w(2,3) unfolding vw_SendPacket_def m_def [symmetric]
    by (auto simp: cs_Flush_def conn_Flush_def vw_ok_def vw_k_def vw_stream_def emitted_def BaseTimestamp_def RecTimestamp_def
        SetPreTime_def Let_def)
qed

definition vr_ok :: "u32 \<Rightarrow> bytes \<Rightarrow> VirReader \<Rightarrow> bool" where
  "vr_ok k rest v \<longleftrightarrow> ready (cs_conn (vr_conn v)) \<and> remoteChunkSize (cs_conn (vr_conn v)) = k \<and> k \<noteq> 0 \<and>
     cs_input (vr_conn v) = rest \<and> 0 \<le> LastTimestamp (ReadBWInfo v)"

text \<open>The packet that a reader gets from the message of a packet.\<close>

definition shifted :: "u32 \<Rightarrow> packet \<Rightarrow> packet" where
  "shifted base p = p\<lparr>TimeStamp := TimeStamp p + base\<rparr>"

lemma fill_packet_message:
  assumes "media_packet p" and "same_message (chooseCSID (packet_message p base)) cs"
  shows "DemuxH (fill_packet cs p0) = Inr (shifted base p)" and "IsVideo (fill_packet cs p0) = IsVideo p"
    and "is_media cs"
proof -
  have f: "TypeID cs = (if IsVideo p then TagVideo else TagAudio)" "StreamID cs = pkt_StreamID p" "Data cs = pkt_Data p"
      "Timestamp cs = TimeStamp p + base"
    using assms by (auto simp: same_message_def packet_message_def media_packet_def)
  obtain n tag where tag: "ParseMediaTagHeader zeroTag (pkt_Data p) (IsVideo p) = Inr (n, tag)" "p\<lparr>Header := Some tag\<rparr> = p"
    using assms(1) by (auto simp: media_packet_def DemuxH_def)
  then have "Header p = Some tag" using arg_cong [OF tag(2), of Header] by simp
  show "DemuxH (fill_packet cs p0) = Inr (shifted base p)" and "IsVideo (fill_packet cs p0) = IsVideo p" and "is_media cs"
    using f tag(1) \<open>Header p = Some tag\<close> assms(1) by (auto simp: DemuxH_def fill_packet_def shifted_def media_packet_def is_media_def)
qed

lemma vr_Read_media:
  assumes "media_packet p" and "clock now" and "m = packet_message p base"
    and "vr_ok k (message_bytes (unat k) (chooseCSID m) @ rest) v"
  shows "\<exists>v'. vr_Read now p0 v = (None, shifted base p, v') \<and> vr_ok k rest v'"
proof -
  have ok: "ok_message k m" "next_size k m = k" using packet_message_ok [OF assms(1)] assms(3) by simp_all
  obtain cs conn where r: "conn_Read emptyChunkStream (cs_conn (vr_conn v)) = (None, cs, conn)" "same_message (chooseCSID m) cs" "ready conn"
      "remoteChunkSize conn = k" "rd_in (conn_rw conn) = rest"
    using conn_Read_message [OF ok(1), of "cs_conn (vr_conn v)" rest] ok(2) assms(4) by (fastforce simp: vr_ok_def cs_input_def)
  note f = fill_packet_message(1,2) [OF assms(1) r(2) [unfolded assms(3)], of p0] fill_packet_message(3) [OF assms(1) r(2) [unfolded assms(3)]]
  have l: "vr_Read_loop emptyChunkStream (vr_conn v) = (None, cs, (vr_conn v)\<lparr>cs_conn := conn\<rparr>)"
    using r(1) f(3) by (simp add: vr_Read_loop.simps cs_Read_def)
  obtain bw where "SaveStatics now (pkt_StreamID (fill_packet cs p0)) (word_of_nat (length (pkt_Data (fill_packet cs p0))))
      (IsVideo (fill_packet cs p0)) (ReadBWInfo v) = Inr bw" "0 \<le> LastTimestamp bw"
    using SaveStatics_ok [OF assms(2)] assms(4) unfolding vr_ok_def by blast
  then show ?thesis
    using l f(1) r assms(4) by (simp add: vr_Read_def vr_ok_def cs_input_def Let_def)
qed

text \<open>The bytes of a sequence of packets.\<close>

definition packets_bytes :: "u32 \<Rightarrow> u32 \<Rightarrow> packet list \<Rightarrow> bytes" where
  "packets_bytes k base ps = concat (map (\<lambda>p. message_bytes (unat k) (chooseCSID (packet_message p base))) ps)"

lemma vw_SendPackets_media:
  assumes "vw_ok v" and "list_all media_packet (map snd tps)" and "list_all clock (map fst tps)"
  shows "\<exists>v'. vw_SendPackets tps False v = (None, v') \<and> vw_ok v' \<and>
     vw_stream v' = vw_stream v @ packets_bytes (vw_k v) (BaseTimestamp (vw_rw v)) (map snd tps)"
  using assms
proof (induction tps arbitrary: v)
  case (Cons x tps)
  obtain now p where x: "x = (now, p)" by (cases x)
  obtain v1 where v1: "vw_SendPacket now p v = (None, v1)" "vw_ok v1" "vw_k v1 = vw_k v" "BaseTimestamp (vw_rw v1) = BaseTimestamp (vw_rw v)"
      "vw_stream v1 = vw_stream v @ message_bytes (unat (vw_k v)) (chooseCSID (packet_message p (BaseTimestamp (vw_rw v))))"
    using vw_SendPacket_media [OF Cons.prems(1), of p now] Cons.prems x by auto
  with Cons.IH [OF v1(2)] Cons.prems x show ?case by (auto simp: packets_bytes_def)
qed (simp add: packets_bytes_def)

lemma vr_Reads_media:
  assumes "list_all media_packet ps" and "list_all clock ts" and "length ts = length ps"
    and "vr_ok k (packets_bytes k base ps @ rest) v"
  shows "\<exists>v'. vr_Reads ts p0 v = (None, map (shifted base) ps, v') \<and> vr_ok k rest v'"
  using assms
proof (induction ps arbitrary: ts v p0)
  case (Cons p ps)
  obtain now ts' where ts: "ts = now # ts'" using Cons.prems(3) by (cases ts) auto
  obtain v1 where v1: "vr_Read now p0 v = (None, shifted base p, v1)" "vr_ok k (packets_bytes k base ps @ rest) v1"
    using vr_Read_media [of p now _ base k "packets_bytes k base ps @ rest" v p0, OF _ _ refl] Cons.prems ts
    by (auto simp: packets_bytes_def)
  with Cons.IH [OF _ _ _ v1(2), of ts' "shifted base p"] Cons.prems ts show ?case by auto
qed (simp add: packets_bytes_def)

text \<open>A reader whose connection delivers \<open>bs\<close>.\<close>

definition deliver :: "bytes \<Rightarrow> VirReader \<Rightarrow> VirReader" where
  "deliver bs r = r\<lparr>vr_conn := (vr_conn r)\<lparr>cs_conn := (cs_conn (vr_conn r))\<lparr>conn_rw := (conn_rw (cs_conn (vr_conn r)))\<lparr>rd_in := bs\<rparr>\<rparr>\<rparr>\<rparr>"

lemma deliver_ok: "vr_ok k [] r \<Longrightarrow> vr_ok k bs (deliver bs r)"
  by (auto simp: vr_ok_def deliver_def ready_def rw_good_def key_idle_def cs_input_def)

text \<open>A panic while a message is read is reported as success, and the packet of the caller is the previous one.\<close>

lemma panicking_read_repeats:
  assumes "conn_Read emptyChunkStream (cs_conn (vr_conn v)) = (Some (Panic x), c, conn)"
  shows "\<exists>v'. vr_Read now p v = (None, p, v')"
  using assms by (simp add: vr_Read_def vr_Read_loop.simps cs_Read_def)

section \<open>Properties\<close>

text \<open>
  What a player's writer sends, a reader at the other end reads: a sequence of audio and video packets comes out of
  \<^verbatim>\<open>VirReader.Read\<close> in order, as the same packets with the same kinds, stream ids, headers and data and with time stamps
  shifted by the base of the writer, and nothing behind them is consumed.
\<close>

theorem packets_over_rtmp:
  assumes "list_all media_packet (map snd tps)" and "list_all clock (map fst tps)" and "vw_ok v"
    and "list_all clock ts" and "length ts = length tps" and "vr_ok (vw_k v) [] r" and "base = BaseTimestamp (vw_rw v)"
  shows "\<exists>v' bs. vw_SendPackets tps False v = (None, v') \<and> vw_stream v' = vw_stream v @ bs \<and>
     (\<forall>rest. \<exists>r'. vr_Reads ts p0 (deliver (bs @ rest) r) = (None, map (shifted base) (map snd tps), r') \<and> cs_input (vr_conn r') = rest)"
proof -
  let ?bs = "packets_bytes (vw_k v) base (map snd tps)"
  from vr_Reads_media [OF assms(1,4) _ deliver_ok [OF assms(6)]] assms(5) vw_SendPackets_media [OF assms(3,1,2)] assms(7)
  show ?thesis by (fastforce simp: vr_ok_def)
qed

definition sample_media :: packet where
  "sample_media = \<lparr>IsAudio = True, IsVideo = False, IsMetadata = False, TimeStamp = 40, pkt_StreamID = 1,
     Header = Some (audio_tag ((mediat zeroTag)\<lparr>soundFormat := 2, soundRate := 3, soundSize := 1, soundType := 1\<rparr>)), pkt_Data = [0x2f, 5]\<rparr>"

definition sample_conn :: ConnServer where
  "sample_conn = NewConnServer (NewConn [] EOF None 4096)"

lemma sample_media_packet: "media_packet sample_media"
  by (simp add: media_packet_def sample_media_def DemuxH_def ParseMediaTagHeader_def parseAudioHeader_def index_at_def audio_tag_def
      zeroTag_def maxpoolsize_def drop_bit_eq_div Let_def)

lemma sample_writer:
  "vw_ok (NewVirWriter 0 10 [] sample_conn)" "vw_k (NewVirWriter 0 10 [] sample_conn) = 128" "BaseTimestamp (vw_rw (NewVirWriter 0 10 [] sample_conn)) = 0"
  by (simp_all add: vw_ok_def vw_k_def NewVirWriter_def sample_conn_def NewConnServer_def NewConn_def NewReadWriter_def rw_good_def bufw_good_def
      zeroStatics_def BaseTimestamp_def NewRWBase_def)

lemma sample_reader: "vr_ok 128 [] (NewVirReader 0 10 [] sample_conn)"
  using NewConn_ready [of "[]"]
  by (simp add: vr_ok_def NewVirReader_def sample_conn_def NewConnServer_def cs_input_def zeroStatics_def NewConn_def NewReadWriter_def)

lemma shifted_0 [simp]: "shifted 0 p = p"
  by (simp add: shifted_def)

theorem packets_over_rtmp_witness:
  "\<exists>v' bs r'. vw_SendPackets [(0, sample_media)] False (NewVirWriter 0 10 [] sample_conn) = (None, v') \<and>
     vr_Reads [0] sample_media (deliver (bs @ [9]) (NewVirReader 0 10 [] sample_conn)) = (None, [sample_media], r') \<and> cs_input (vr_conn r') = [9]"
  using packets_over_rtmp [of "[(0, sample_media)]" "NewVirWriter 0 10 [] sample_conn" "[0]" "NewVirReader 0 10 [] sample_conn" 0 sample_media]
    sample_media_packet sample_writer sample_reader by (auto simp: clock_def) blast

text \<open>
  C28: what becomes of a client that has connected to an application and asked to publish or play: it is refused unless the application is
  configured as live; a publisher is refused unless its stream name is a known key, and then publishes under the channel of the key;
  a player needs no key.
\<close>

theorem connection_roles:
  assumes "session k (messages_bytes k [m1, m2, m3] @ rest) (NewConnServer conn)" and "k \<noteq> 0" and "range_order rng"
    and "command k m1 [AString (gostr ''connect''), AInt 1, AObject obj]" and "connect_fields obj app url"
    and "command k m2 [AString (gostr ''createStream''), AInt i, ANil]"
    and "command k m3 [AString verb, AInt j, ANil, AString name, AString kind]"
    and "verb = gostr ''publish'' \<or> verb = gostr ''play''"
  shows "case handleConn apps ops keys rng conn of
       Refused _ \<Rightarrow> \<not> CheckAppName apps app \<or> verb = gostr ''publish'' \<and> (\<exists>e. GetChannel ops name keys = Inl e)
     | Publisher cs \<Rightarrow> CheckAppName apps app \<and> verb = gostr ''publish'' \<and>
         (\<exists>channel. GetChannel ops name keys = Inr channel \<and> cs_GetInfo cs = (app, channel, url @ gostr ''/'' @ channel) \<and> cs_input cs = rest)
     | Player cs \<Rightarrow> CheckAppName apps app \<and> verb = gostr ''play'' \<and> cs_GetInfo cs = (app, name, url @ gostr ''/'' @ name) \<and> cs_input cs = rest"
proof -
  have "\<not> cs_done (NewConnServer conn)" by (simp add: NewConnServer_def)
  from command_exchange [OF assms(1,2) this assms(3-8), of emptyChunkStream]
  obtain cs where cs: "ReadMsg rng emptyChunkStream (NewConnServer conn) = (None, cs)" "IsPublisher cs = (verb = gostr ''publish'')"
      "cs_GetInfo cs = (app, name, url @ gostr ''/'' @ name)" "cs_input cs = rest" by blast
  then show ?thesis
    using assms(8) by (auto simp: handleConn_def cs_GetInfo_def cs_input_def split: sum.splits simp del: gostr_inject)
qed

theorem connection_roles_witness:
  "\<exists>bs cs. handleConn [\<lparr>Appname = gostr ''live'', Live = True, Hls = True, StaticPush = []\<rparr>] map_cache [gostr ''secret'' \<mapsto> gostr ''movie''] id
       (NewConn bs EOF None 4096) = Publisher cs \<and>
     cs_GetInfo cs = (gostr ''live'', gostr ''movie'', gostr ''rtmp://host/live/movie'')"
proof -
  let ?obj = "[(gostr ''app'', AString (gostr ''live'')), (gostr ''tcUrl'', AString (gostr ''rtmp://host/live''))]"
  have "small_members ?obj" by (simp add: small_members_def)
  then have "\<exists>m. command 128 m [AString (gostr ''connect''), AInt 1, AObject ?obj]"
    by (intro command_exists) (simp_all add: gostr_def)
  moreover have "\<exists>m. command 128 m [AString (gostr ''createStream''), AInt 2, ANil]"
    by (intro command_exists) simp_all
  moreover have "\<exists>m. command 128 m [AString (gostr ''publish''), AInt 3, ANil, AString (gostr ''secret''), AString (gostr ''live'')]"
    by (intro command_exists) (simp_all add: gostr_def)
  ultimately obtain m1 m2 m3 where m: "command 128 m1 [AString (gostr ''connect''), AInt 1, AObject ?obj]"
      "command 128 m2 [AString (gostr ''createStream''), AInt 2, ANil]"
      "command 128 m3 [AString (gostr ''publish''), AInt 3, ANil, AString (gostr ''secret''), AString (gostr ''live'')]"
    by blast
  let ?conn = "NewConn (messages_bytes 128 [m1, m2, m3]) EOF None 4096"
  let ?apps = "[\<lparr>Appname = gostr ''live'', Live = True, Hls = True, StaticPush = []\<rparr>]" and ?keys = "[gostr ''secret'' \<mapsto> gostr ''movie'']"
  have s: "session 128 (messages_bytes 128 [m1, m2, m3] @ []) (NewConnServer ?conn)"
    using NewConn_ready [of "messages_bytes 128 [m1, m2, m3]"]
    by (simp add: session_def cs_input_def NewConnServer_def NewDecoder_def NewConn_def NewReadWriter_def)
  have o: "range_order id" by (simp add: range_order_def)
  have f: "connect_fields ?obj (gostr ''live'') (gostr ''rtmp://host/live'')" by (simp add: connect_fields_def)
  have g: "GetChannel map_cache (gostr ''secret'') ?keys = Inr (gostr ''movie'')" by (simp add: GetChannel_def map_cache_def)
  have "gostr ''rtmp://host/live'' @ gostr ''/'' @ gostr ''movie'' = gostr ''rtmp://host/live/movie''" by (simp add: gostr_def)
  with connection_roles [OF s _ o m(1) f m(2,3), of ?apps map_cache ?keys] g
  show ?thesis by (auto split: conn_role.splits)
qed

end
