(* ===== verification/RtmpStream.thy ===== *)
theory RtmpStream
  imports StaticPush RtmpCache RtmpServer
begin

text \<open>
  \<^verbatim>\<open>src/protocol/rtmp/stream.go\<close>: the streams of the server, each with the reader of its publisher, the writers of its
  players and the cache for new players.

  Readers and writers are objects behind the interfaces \<^verbatim>\<open>av.ReadCloser\<close> and \<^verbatim>\<open>av.WriteCloser\<close>: a record of their methods, a state of any type,
  and a heap, from addresses to states, since a reader or writer is shared between the stream that has it and the goroutines that
  use it. Streams are objects too, addressed by their position in a list. The concurrent map is a third-party package:
  its operations are a parameter, once for the map of streams and once for the map of writers, and the locale \<open>concurrent_map\<close> has
  what is documented of them; \<^verbatim>\<open>IterBuffered\<close> gives the entries in some order.

  A step of the state machine is one call of \<^verbatim>\<open>HandleReader\<close> or \<^verbatim>\<open>HandleWriter\<close>, one round of the check that runs every five seconds, or
  the begin or one round of the loop of a goroutine that runs \<^verbatim>\<open>TransStart\<close>; steps of different goroutines interleave.
\<close>

section \<open>Interfaces\<close>

record 'r reader_ops =
  r_Info :: "'r \<Rightarrow> Info"
  r_Read :: "int \<Rightarrow> packet \<Rightarrow> 'r \<Rightarrow> go_error option \<times> packet \<times> 'r"
  r_Close :: "'r \<Rightarrow> 'r"
  r_Alive :: "int \<Rightarrow> 'r \<Rightarrow> bool"

record 'w writer_ops =
  w_Info :: "'w \<Rightarrow> Info"
  w_Write :: "'w write_packet"
  w_Close :: "'w \<Rightarrow> 'w"
  w_Alive :: "int \<Rightarrow> 'w \<Rightarrow> bool"
  w_CalcBaseTimestamp :: "'w \<Rightarrow> 'w"

record ('v, 'm) cmap_ops =
  cm_New :: 'm
  cm_Get :: "bytes \<Rightarrow> 'm \<Rightarrow> 'v option"
  cm_Set :: "bytes \<Rightarrow> 'v \<Rightarrow> 'm \<Rightarrow> 'm"
  cm_Remove :: "bytes \<Rightarrow> 'm \<Rightarrow> 'm"
  cm_Items :: "'m \<Rightarrow> (bytes \<times> 'v) list"

section \<open>State\<close>

record PackWriterCloser =
  pw_init :: bool
  pw_w :: nat

record 'm Stream =
  isStart :: bool
  s_cache :: Cache
  s_r :: "nat option"
  s_ws :: 'm
  s_info :: Info

text \<open>A goroutine of \<^verbatim>\<open>TransStart\<close>: its stream, how far it is, and its variable \<^verbatim>\<open>p\<close>.\<close>

datatype phase = Spawned | Pushing | Looping

record goroutine =
  g_stream :: nat
  g_phase :: phase
  g_p :: packet

record ('s, 'm, 'r, 'w) Streams =
  st_streams :: 's
  st_objs :: "'m Stream list"
  st_readers :: "nat \<Rightarrow> 'r"
  st_writers :: "nat \<Rightarrow> 'w"
  st_pushes :: pushes
  st_gos :: "goroutine list"

text \<open>What the program is run with: the map packages, the implementations of the interfaces, the configuration and the network.\<close>

record ('s, 'm, 'r, 'w) env =
  e_streams :: "(nat, 's) cmap_ops"
  e_ws :: "(PackWriterCloser, 'm) cmap_ops"
  e_r :: "'r reader_ops"
  e_w :: "'w writer_ops"
  e_gop :: nat
  e_apps :: "Application list"
  e_net :: network

definition zeroInfo :: Info where
  "zeroInfo = \<lparr>Key = [], URL = [], UID = [], Inter = False\<rparr>"

definition zeroPacket :: packet where
  "zeroPacket = \<lparr>IsAudio = False, IsVideo = False, IsMetadata = False, TimeStamp = 0, pkt_StreamID = 0, Header = None, pkt_Data = []\<rparr>"

definition NewStreams :: "('s, 'm, 'r, 'w) env \<Rightarrow> (nat \<Rightarrow> 'r) \<Rightarrow> (nat \<Rightarrow> 'w) \<Rightarrow> ('s, 'm, 'r, 'w) Streams" where
  "NewStreams E rs ws = \<lparr>st_streams = cm_New (e_streams E), st_objs = [], st_readers = rs, st_writers = ws, st_pushes = Map.empty, st_gos = []\<rparr>"

definition NewStream :: "('s, 'm, 'r, 'w) env \<Rightarrow> 'm Stream" where
  "NewStream E = \<lparr>isStart = False, s_cache = NewCache (e_gop E), s_r = None, s_ws = cm_New (e_ws E), s_info = zeroInfo\<rparr>"

section \<open>Readers and writers of a stream\<close>

definition stream_ID :: "('s, 'm, 'r, 'w) env \<Rightarrow> (nat \<Rightarrow> 'r) \<Rightarrow> 'm Stream \<Rightarrow> bytes" where
  "stream_ID E readers s = (case s_r s of Some ra \<Rightarrow> UID (r_Info (e_r E) (readers ra)) | None \<Rightarrow> [])"

definition AddWriter :: "('s, 'm, 'r, 'w) env \<Rightarrow> (nat \<Rightarrow> 'w) \<Rightarrow> nat \<Rightarrow> 'm \<Rightarrow> 'm" where
  "AddWriter E writers wa ws = cm_Set (e_ws E) (UID (w_Info (e_w E) (writers wa))) \<lparr>pw_init = False, pw_w = wa\<rparr> ws"

text \<open>\<^verbatim>\<open>Copy\<close>, on the writers of the source, those of the destination and the heap of writers.\<close>

fun Copy_loop :: "('s, 'm, 'r, 'w) env \<Rightarrow> (bytes \<times> PackWriterCloser) list \<Rightarrow> 'm \<times> 'm \<times> (nat \<Rightarrow> 'w) \<Rightarrow> 'm \<times> 'm \<times> (nat \<Rightarrow> 'w)" where
  "Copy_loop E [] st = st"
| "Copy_loop E ((key, v) # items) (src, dst, writers) =
     (let src = cm_Remove (e_ws E) key src;
          writers = writers(pw_w v := w_CalcBaseTimestamp (e_w E) (writers (pw_w v)))
      in Copy_loop E items (src, AddWriter E writers (pw_w v) dst, writers))"

definition Copy :: "('s, 'm, 'r, 'w) env \<Rightarrow> 'm \<Rightarrow> 'm \<Rightarrow> (nat \<Rightarrow> 'w) \<Rightarrow> 'm \<times> 'm \<times> (nat \<Rightarrow> 'w)" where
  "Copy E src dst writers = Copy_loop E (cm_Items (e_ws E) src) (src, dst, writers)"

definition TransStop :: "('s, 'm, 'r, 'w) env \<Rightarrow> 'm Stream \<Rightarrow> (nat \<Rightarrow> 'r) \<Rightarrow> 'm Stream \<times> (nat \<Rightarrow> 'r)" where
  "TransStop E s readers =
     (s\<lparr>isStart := False\<rparr>,
      case s_r s of
        Some ra \<Rightarrow> if isStart s then readers(ra := r_Close (e_r E) (readers ra)) else readers
      | None \<Rightarrow> readers)"

section \<open>New publishers and players\<close>

text \<open>\<^verbatim>\<open>AddReader\<close> on the stream at address \<open>a\<close>: a goroutine is started.\<close>

definition AddReader :: "nat \<Rightarrow> nat \<Rightarrow> ('s, 'm, 'r, 'w) Streams \<Rightarrow> ('s, 'm, 'r, 'w) Streams" where
  "AddReader ra a st =
     st\<lparr>st_objs := (st_objs st)[a := (st_objs st ! a)\<lparr>s_r := Some ra\<rparr>],
        st_gos := st_gos st @ [\<lparr>g_stream = a, g_phase = Spawned, g_p = zeroPacket\<rparr>]\<rparr>"

definition HandleReader :: "('s, 'm, 'r, 'w) env \<Rightarrow> nat \<Rightarrow> ('s, 'm, 'r, 'w) Streams \<Rightarrow> ('s, 'm, 'r, 'w) Streams" where
  "HandleReader E ra st =
     (let info = r_Info (e_r E) (st_readers st ra)
      in case cm_Get (e_streams E) (Key info) (st_streams st) of
           Some a \<Rightarrow>
             (case TransStop E (st_objs st ! a) (st_readers st) of (s, readers) \<Rightarrow>
                (let st = st\<lparr>st_objs := (st_objs st)[a := s], st_readers := readers\<rparr>;
                     id = stream_ID E readers s
                 in if id \<noteq> [] \<and> id \<noteq> UID info
                    then (case Copy E (s_ws s) (s_ws (NewStream E)) (st_writers st) of (src, dst, writers) \<Rightarrow>
                            (let ns = length (st_objs st)
                             in AddReader ra ns
                                  (st\<lparr>st_objs := (st_objs st)[a := s\<lparr>s_ws := src\<rparr>] @ [(NewStream E)\<lparr>s_ws := dst\<rparr>],
                                      st_writers := writers, st_streams := cm_Set (e_streams E) (Key info) ns (st_streams st)\<rparr>)))
                    else AddReader ra a st))
         | None \<Rightarrow>
             (let a = length (st_objs st)
              in AddReader ra a (st\<lparr>st_objs := st_objs st @ [(NewStream E)\<lparr>s_info := info\<rparr>],
                                    st_streams := cm_Set (e_streams E) (Key info) a (st_streams st)\<rparr>)))"

definition HandleWriter :: "('s, 'm, 'r, 'w) env \<Rightarrow> nat \<Rightarrow> ('s, 'm, 'r, 'w) Streams \<Rightarrow> ('s, 'm, 'r, 'w) Streams" where
  "HandleWriter E wa st =
     (let info = w_Info (e_w E) (st_writers st wa)
      in case cm_Get (e_streams E) (Key info) (st_streams st) of
           None \<Rightarrow> st\<lparr>st_objs := st_objs st @ [(NewStream E)\<lparr>s_info := info\<rparr>],
                      st_streams := cm_Set (e_streams E) (Key info) (length (st_objs st)) (st_streams st)\<rparr>
         | Some a \<Rightarrow> st\<lparr>st_objs := (st_objs st)[a := (st_objs st ! a)\<lparr>s_ws := AddWriter E (st_writers st) wa (s_ws (st_objs st ! a))\<rparr>]\<rparr>)"

section \<open>Forwarding\<close>

text \<open>
  The loop over the writers in a round of \<^verbatim>\<open>TransStart\<close>, on the writers of the stream and the heap: a new writer is sent the cache and not the
  packet, the others the packet; a writer that reports an error is removed.
\<close>

fun forward ::
    "('s, 'm, 'r, 'w) env \<Rightarrow> packet \<Rightarrow> Cache \<Rightarrow> (bytes \<times> PackWriterCloser) list \<Rightarrow> 'm \<times> (nat \<Rightarrow> 'w) \<Rightarrow> ('m \<times> (nat \<Rightarrow> 'w)) res" where
  "forward E p cache [] st = Inr st"
| "forward E p cache ((key, v) # items) (ws, writers) =
     (if \<not> pw_init v
      then (case cache_Send (w_Write (e_w E)) cache (writers (pw_w v)) of (e, w) \<Rightarrow>
              (let writers = writers(pw_w v := w)
               in case e of
                    Some (Err _) \<Rightarrow> forward E p cache items (cm_Remove (e_ws E) key ws, writers)
                  | Some x \<Rightarrow> Inl x
                  | None \<Rightarrow> forward E p cache items (cm_Set (e_ws E) key (v\<lparr>pw_init := True\<rparr>) ws, writers)))
      else (case w_Write (e_w E) p (writers (pw_w v)) of (e, w) \<Rightarrow>
              forward E p cache items (if e \<noteq> None then cm_Remove (e_ws E) key ws else ws, writers(pw_w v := w))))"

fun closeInter_loop :: "('s, 'm, 'r, 'w) env \<Rightarrow> (bytes \<times> PackWriterCloser) list \<Rightarrow> 'm \<times> (nat \<Rightarrow> 'w) \<Rightarrow> 'm \<times> (nat \<Rightarrow> 'w)" where
  "closeInter_loop E [] st = st"
| "closeInter_loop E ((key, v) # items) (ws, writers) =
     closeInter_loop E items
       (if IsInterval (w_Info (e_w E) (writers (pw_w v)))
        then (cm_Remove (e_ws E) key ws, writers(pw_w v := w_Close (e_w E) (writers (pw_w v))))
        else (ws, writers))"

definition closeInter :: "('s, 'm, 'r, 'w) env \<Rightarrow> nat \<Rightarrow> ('s, 'm, 'r, 'w) Streams \<Rightarrow> ('s, 'm, 'r, 'w) Streams blk" where
  "closeInter E a st =
     (let s = st_objs st ! a
      in bindB (if s_r s \<noteq> None then StopStaticPush (e_apps E) (Key (s_info s)) (st_pushes st) else retB (st_pushes st)) (\<lambda>pushes.
           case closeInter_loop E (cm_Items (e_ws E) (s_ws s)) (s_ws s, st_writers st) of (ws, writers) \<Rightarrow>
             retB (st\<lparr>st_objs := (st_objs st)[a := s\<lparr>s_ws := ws\<rparr>], st_writers := writers, st_pushes := pushes\<rparr>)))"

section \<open>The goroutine of a stream\<close>

definition end_go :: "nat \<Rightarrow> ('s, 'm, 'r, 'w) Streams \<Rightarrow> ('s, 'm, 'r, 'w) Streams" where
  "end_go i st = st\<lparr>st_gos := take i (st_gos st) @ drop (Suc i) (st_gos st)\<rparr>"

text \<open>\<^verbatim>\<open>TransStart\<close> up to its loop: the flag, then the relays; \<open>early\<close> as in \<open>sp_Start\<close>.\<close>

definition TransStart_begin :: "nat \<Rightarrow> ('s, 'm, 'r, 'w) Streams \<Rightarrow> ('s, 'm, 'r, 'w) Streams" where
  "TransStart_begin i st =
     (let g = st_gos st ! i; a = g_stream g; s = st_objs st ! a
      in st\<lparr>st_objs := (st_objs st)[a := s\<lparr>isStart := True\<rparr>], st_gos := (st_gos st)[i := g\<lparr>g_phase := Pushing\<rparr>]\<rparr>)"

definition TransStart_push :: "('s, 'm, 'r, 'w) env \<Rightarrow> bool \<Rightarrow> nat \<Rightarrow> ('s, 'm, 'r, 'w) Streams \<Rightarrow> ('s, 'm, 'r, 'w) Streams blk" where
  "TransStart_push E early i st =
     (let g = st_gos st ! i; s = st_objs st ! g_stream g
      in bindB (StartStaticPush (e_apps E) (e_net E) early (Key (s_info s)) (st_pushes st)) (\<lambda>pushes.
           retB (st\<lparr>st_pushes := pushes, st_gos := (st_gos st)[i := g\<lparr>g_phase := Looping\<rparr>]\<rparr>)))"

text \<open>One round of its loop, at a time.\<close>

definition TransStart_round :: "('s, 'm, 'r, 'w) env \<Rightarrow> int \<Rightarrow> nat \<Rightarrow> ('s, 'm, 'r, 'w) Streams \<Rightarrow> ('s, 'm, 'r, 'w) Streams blk" where
  "TransStart_round E now i st =
     (let g = st_gos st ! i; a = g_stream g; s = st_objs st ! a
      in if \<not> isStart s then bindB (closeInter E a st) (\<lambda>st. retB (end_go i st))
         else case s_r s of
                None \<Rightarrow> Some (Inl (Panic NilDereference))
              | Some ra \<Rightarrow>
                  (case r_Read (e_r E) now (g_p g) (st_readers st ra) of (e, p, r) \<Rightarrow>
                     (let st = st\<lparr>st_readers := (st_readers st)(ra := r)\<rparr>
                      in if e \<noteq> None
                         then bindB (closeInter E a st) (\<lambda>st.
                                retB (end_go i (st\<lparr>st_objs := (st_objs st)[a := (st_objs st ! a)\<lparr>isStart := False\<rparr>]\<rparr>)))
                         else bindB (if IsSendStaticPush (e_apps E) (Key (s_info s)) (st_pushes st)
                                     then SendStaticPush (e_apps E) (Key (s_info s)) p (st_pushes st) else retB (st_pushes st)) (\<lambda>pushes.
                              case cache_Write p (s_cache s) of
                                Inl x \<Rightarrow> Some (Inl x)
                              | Inr cache \<Rightarrow>
                                  (case forward E p cache (cm_Items (e_ws E) (s_ws s)) (s_ws s, st_writers st) of
                                     Inl x \<Rightarrow> Some (Inl x)
                                   | Inr (ws, writers) \<Rightarrow>
                                       retB (st\<lparr>st_objs := (st_objs st)[a := s\<lparr>s_cache := cache, s_ws := ws\<rparr>], st_writers := writers,
                                         st_pushes := pushes, st_gos := (st_gos st)[i := g\<lparr>g_p := p\<rparr>]\<rparr>))))))"

section \<open>The check for dead streams\<close>

fun CheckAlive_loop ::
    "('s, 'm, 'r, 'w) env \<Rightarrow> int \<Rightarrow> bool \<Rightarrow> (bytes \<times> PackWriterCloser) list \<Rightarrow> nat \<times> 'm \<times> (nat \<Rightarrow> 'w) \<Rightarrow> nat \<times> 'm \<times> (nat \<Rightarrow> 'w)" where
  "CheckAlive_loop E now started [] st = st"
| "CheckAlive_loop E now started ((key, v) # items) (n, ws, writers) =
     CheckAlive_loop E now started items
       (if \<not> w_Alive (e_w E) now (writers (pw_w v)) \<and> started
        then (n, cm_Remove (e_ws E) key ws, writers(pw_w v := w_Close (e_w E) (writers (pw_w v))))
        else (n + 1, ws, writers))"

definition stream_CheckAlive :: "('s, 'm, 'r, 'w) env \<Rightarrow> int \<Rightarrow> nat \<Rightarrow> ('s, 'm, 'r, 'w) Streams \<Rightarrow> nat \<times> ('s, 'm, 'r, 'w) Streams" where
  "stream_CheckAlive E now a st =
     (let s = st_objs st ! a
      in case (case s_r s of
                 Some ra \<Rightarrow>
                   if isStart s
                   then (if r_Alive (e_r E) now (st_readers st ra) then (1, st_readers st)
                         else (0, (st_readers st)(ra := r_Close (e_r E) (st_readers st ra))))
                   else (0, st_readers st)
               | None \<Rightarrow> (0, st_readers st)) of (n, readers) \<Rightarrow>
           (case CheckAlive_loop E now (isStart s) (cm_Items (e_ws E) (s_ws s)) (n, s_ws s, st_writers st) of (n, ws, writers) \<Rightarrow>
              (n, st\<lparr>st_objs := (st_objs st)[a := s\<lparr>s_ws := ws\<rparr>], st_readers := readers, st_writers := writers\<rparr>)))"

fun streams_CheckAlive_loop :: "('s, 'm, 'r, 'w) env \<Rightarrow> int \<Rightarrow> (bytes \<times> nat) list \<Rightarrow> ('s, 'm, 'r, 'w) Streams \<Rightarrow> ('s, 'm, 'r, 'w) Streams" where
  "streams_CheckAlive_loop E now [] st = st"
| "streams_CheckAlive_loop E now ((key, a) # items) st =
     (case stream_CheckAlive E now a st of (n, st) \<Rightarrow>
        streams_CheckAlive_loop E now items (if n = 0 then st\<lparr>st_streams := cm_Remove (e_streams E) key (st_streams st)\<rparr> else st))"

text \<open>One round of the loop of \<^verbatim>\<open>Streams.CheckAlive\<close>.\<close>

definition streams_CheckAlive :: "('s, 'm, 'r, 'w) env \<Rightarrow> int \<Rightarrow> ('s, 'm, 'r, 'w) Streams \<Rightarrow> ('s, 'm, 'r, 'w) Streams" where
  "streams_CheckAlive E now st = streams_CheckAlive_loop E now (cm_Items (e_streams E) (st_streams st)) st"

section \<open>The state machine\<close>

inductive step :: "('s, 'm, 'r, 'w) env \<Rightarrow> ('s, 'm, 'r, 'w) Streams \<Rightarrow> ('s, 'm, 'r, 'w) Streams \<Rightarrow> bool" for E where
  publish: "step E st (HandleReader E ra st)"
| play: "step E st (HandleWriter E wa st)"
| check: "step E st (streams_CheckAlive E now st)"
| start: "i < length (st_gos st) \<Longrightarrow> g_phase (st_gos st ! i) = Spawned \<Longrightarrow> step E st (TransStart_begin i st)"
| push: "i < length (st_gos st) \<Longrightarrow> g_phase (st_gos st ! i) = Pushing \<Longrightarrow> TransStart_push E early i st = retB st' \<Longrightarrow> step E st st'"
| round: "i < length (st_gos st) \<Longrightarrow> g_phase (st_gos st ! i) = Looping \<Longrightarrow> TransStart_round E now i st = retB st' \<Longrightarrow> step E st st'"

inductive reachable :: "('s, 'm, 'r, 'w) env \<Rightarrow> ('s, 'm, 'r, 'w) Streams \<Rightarrow> bool" for E where
  initial: "reachable E (NewStreams E rs ws)"
| steps: "reachable E st \<Longrightarrow> step E st st' \<Longrightarrow> reachable E st'"

section \<open>Contracts\<close>

locale concurrent_map =
  fixes cm :: "('v, 'm) cmap_ops"
  assumes get_new: "cm_Get cm k (cm_New cm) = None"
    and get_set: "cm_Get cm k (cm_Set cm k' v m) = (if k = k' then Some v else cm_Get cm k m)"
    and get_remove: "cm_Get cm k (cm_Remove cm k' m) = (if k = k' then None else cm_Get cm k m)"
    and items_distinct: "distinct (map fst (cm_Items cm m))"
    and items_get: "map_of (cm_Items cm m) k = cm_Get cm k m"
begin

lemma items_iff: "(k, v) \<in> set (cm_Items cm m) \<longleftrightarrow> cm_Get cm k m = Some v"
  using items_distinct items_get by (metis map_of_eq_Some_iff)

end

text \<open>A writer keeps its identity, whatever is done with it.\<close>

locale stream_env =
  sm: concurrent_map "e_streams E" + wm: concurrent_map "e_ws E" for E :: "('s, 'm, 'r, 'w) env" +
  assumes Info_Write: "w_Info (e_w E) (snd (w_Write (e_w E) p w)) = w_Info (e_w E) w"
    and Info_Close: "w_Info (e_w E) (w_Close (e_w E) w) = w_Info (e_w E) w"
    and Info_Calc: "w_Info (e_w E) (w_CalcBaseTimestamp (e_w E) w) = w_Info (e_w E) w"

text \<open>Writers are stored under their own id.\<close>

definition keyed :: "('s, 'm, 'r, 'w) env \<Rightarrow> 'm \<Rightarrow> (nat \<Rightarrow> 'w) \<Rightarrow> bool" where
  "keyed E ws writers \<longleftrightarrow> (\<forall>k v. cm_Get (e_ws E) k ws = Some v \<longrightarrow> k = UID (w_Info (e_w E) (writers (pw_w v))))"

definition same_infos :: "('s, 'm, 'r, 'w) env \<Rightarrow> (nat \<Rightarrow> 'w) \<Rightarrow> (nat \<Rightarrow> 'w) \<Rightarrow> bool" where
  "same_infos E h h' \<longleftrightarrow> (\<forall>a. w_Info (e_w E) (h' a) = w_Info (e_w E) (h a))"

lemma same_infos_refl [simp]: "same_infos E h h"
  by (simp add: same_infos_def)

lemma same_infos_trans: "same_infos E h h' \<Longrightarrow> same_infos E h' h'' \<Longrightarrow> same_infos E h h''"
  by (simp add: same_infos_def)

lemma same_infos_upd: "w_Info (e_w E) w = w_Info (e_w E) (h a) \<Longrightarrow> same_infos E h (h(a := w))"
  by (simp add: same_infos_def)

lemma keyed_same: "same_infos E h h' \<Longrightarrow> keyed E ws h \<Longrightarrow> keyed E ws h'"
  by (simp add: keyed_def same_infos_def)

text \<open>What a writer's method keeps, the cache keeps when it is sent to the writer.\<close>

lemma send_all_keeps:
  assumes "\<And>p w. f (snd (wrt p w)) = f w"
  shows "f (snd (send_all wrt ps w)) = f w"
proof (induction ps arbitrary: w)
  case (Cons p ps)
  obtain e w' where w: "wrt p w = (e, w')" by force
  have "f w' = f w" using assms [of p w] w by simp
  with Cons.IH [of w'] w show ?case by (cases e) auto
qed simp

lemma sendTo_loop_keeps:
  assumes "\<And>p w. f (snd (wrt p w)) = f w"
  shows "f (snd (sendTo_loop wrt pos is gc w)) = f w"
proof (induction "is" arbitrary: w)
  case (Cons i "is")
  have a: "f (snd (arr_send wrt g w)) = f w" for g
    using send_all_keeps [of f wrt, OF assms] by (auto simp: arr_send_def split: prod.splits option.splits) (metis snd_conv)+
  show ?case
    using Cons.IH a by (auto simp: Let_def split: sum.splits option.splits prod.splits) (metis snd_conv)+
qed simp

lemma cache_Send_keeps:
  assumes "\<And>p w. f (snd (wrt p w)) = f w"
  shows "f (snd (cache_Send wrt c w)) = f w"
proof -
  have s: "f (snd (special_Send wrt sc w)) = f w" for sc w
    using assms by (auto simp: special_Send_def split: option.splits prod.splits) (metis snd_conv)
  have g: "f (snd (gop_Send wrt gc w)) = f w" for gc w
    using sendTo_loop_keeps [of f wrt, OF assms] by (simp add: gop_Send_def sendTo_def)
  show ?thesis
    unfolding cache_Send_def using s g by (auto split: prod.splits option.splits) (metis snd_conv)+
qed

section \<open>Every writer stays under its own id\<close>

definition items_keyed :: "('s, 'm, 'r, 'w) env \<Rightarrow> (bytes \<times> PackWriterCloser) list \<Rightarrow> (nat \<Rightarrow> 'w) \<Rightarrow> bool" where
  "items_keyed E items writers \<longleftrightarrow> (\<forall>(k, v) \<in> set items. k = UID (w_Info (e_w E) (writers (pw_w v))))"

lemma items_keyed_simps [simp]:
  "items_keyed E [] h" "items_keyed E ((k, v) # items) h \<longleftrightarrow> k = UID (w_Info (e_w E) (h (pw_w v))) \<and> items_keyed E items h"
  by (auto simp: items_keyed_def)

lemma items_keyed_same: "same_infos E h h' \<Longrightarrow> items_keyed E items h \<Longrightarrow> items_keyed E items h'"
  by (auto simp: items_keyed_def same_infos_def)

context stream_env
begin

lemma keyed_items: "keyed E ws h \<Longrightarrow> items_keyed E (cm_Items (e_ws E) ws) h"
  by (auto simp: items_keyed_def keyed_def wm.items_iff)

lemma keyed_new: "keyed E (cm_New (e_ws E)) h"
  by (simp add: keyed_def wm.get_new)

lemma keyed_Remove: "keyed E ws h \<Longrightarrow> keyed E (cm_Remove (e_ws E) k ws) h"
  by (simp add: keyed_def wm.get_remove)

lemma keyed_Set: "keyed E ws h \<Longrightarrow> k = UID (w_Info (e_w E) (h (pw_w v))) \<Longrightarrow> keyed E (cm_Set (e_ws E) k v ws) h"
  by (simp add: keyed_def wm.get_set)

lemma keyed_AddWriter: "keyed E ws h \<Longrightarrow> keyed E (AddWriter E h wa ws) h"
  by (simp add: AddWriter_def keyed_Set)

lemma Info_cache_Send: "w_Info (e_w E) (snd (cache_Send (w_Write (e_w E)) c w)) = w_Info (e_w E) w"
  by (rule cache_Send_keeps) (rule Info_Write)

lemma forward_keyed:
  assumes "forward E p cache items (ws, h) = Inr (ws', h')" and "keyed E ws h" and "items_keyed E items h"
  shows "keyed E ws' h' \<and> same_infos E h h'"
  using assms
proof (induction items arbitrary: ws h)
  case (Cons x items)
  obtain k v where x: "x = (k, v)" by force
  let ?a = "pw_w v"
  define r where "r = (if pw_init v then (map_option Err (fst (w_Write (e_w E) p (h ?a))), snd (w_Write (e_w E) p (h ?a)))
    else cache_Send (w_Write (e_w E)) cache (h ?a))"
  have i: "w_Info (e_w E) (snd r) = w_Info (e_w E) (h ?a)" using Info_Write Info_cache_Send by (simp add: r_def)
  define h1 where "h1 = h(?a := snd r)"
  have si: "same_infos E h h1" unfolding h1_def by (rule same_infos_upd) (rule i)
  have k: "keyed E ws h1" "items_keyed E items h1" "k = UID (w_Info (e_w E) (h1 ?a))"
    using keyed_same [OF si Cons.prems(2)] items_keyed_same [OF si] Cons.prems(3) x i by (simp_all add: h1_def)
  obtain ws1 where ws1: "forward E p cache items (ws1, h1) = Inr (ws', h')" "keyed E ws1 h1"
    using Cons.prems(1) k(1) keyed_Remove [OF k(1)] keyed_Set [OF k(1), of k "v\<lparr>pw_init := True\<rparr>"] k(3) x
    by (auto simp: r_def h1_def Let_def split: if_splits prod.splits option.splits exn.splits)
  from Cons.IH [OF ws1 k(2)] same_infos_trans [OF si] show ?case by blast
qed simp

lemma closeInter_loop_keyed:
  assumes "closeInter_loop E items (ws, h) = (ws', h')" and "keyed E ws h"
  shows "keyed E ws' h' \<and> same_infos E h h'"
  using assms
proof (induction items arbitrary: ws h)
  case (Cons x items)
  obtain k v where x: "x = (k, v)" by force
  define h1 where "h1 = h(pw_w v := w_Close (e_w E) (h (pw_w v)))"
  have si: "same_infos E h h1" unfolding h1_def by (rule same_infos_upd) (rule Info_Close)
  show ?case
    using Cons.IH [of ws h] Cons.IH [OF _ keyed_Remove [OF keyed_same [OF si Cons.prems(2)]]] Cons.prems x same_infos_trans [OF si]
    by (auto simp: h1_def [symmetric] split: if_splits)
qed simp

lemma CheckAlive_loop_keyed:
  assumes "CheckAlive_loop E now started items (n, ws, h) = (n', ws', h')" and "keyed E ws h"
  shows "keyed E ws' h' \<and> same_infos E h h'"
  using assms
proof (induction items arbitrary: n ws h)
  case (Cons x items)
  obtain k v where x: "x = (k, v)" by force
  define h1 where "h1 = h(pw_w v := w_Close (e_w E) (h (pw_w v)))"
  have si: "same_infos E h h1" unfolding h1_def by (rule same_infos_upd) (rule Info_Close)
  show ?case
    using Cons.IH [of "n + 1" ws h] Cons.IH [OF _ keyed_Remove [OF keyed_same [OF si Cons.prems(2)]]] Cons.prems x same_infos_trans [OF si]
    by (auto simp: h1_def [symmetric] split: if_splits)
qed simp

lemma Copy_loop_keyed:
  assumes "Copy_loop E items (src, dst, h) = (src', dst', h')" and "keyed E src h" and "keyed E dst h"
  shows "keyed E src' h' \<and> keyed E dst' h' \<and> same_infos E h h'"
  using assms
proof (induction items arbitrary: src dst h)
  case (Cons x items)
  obtain k v where x: "x = (k, v)" by force
  define h1 where "h1 = h(pw_w v := w_CalcBaseTimestamp (e_w E) (h (pw_w v)))"
  have si: "same_infos E h h1" unfolding h1_def by (rule same_infos_upd) (rule Info_Calc)
  have "keyed E (cm_Remove (e_ws E) k src) h1" "keyed E (AddWriter E h1 (pw_w v) dst) h1"
    using keyed_Remove keyed_AddWriter keyed_same [OF si] Cons.prems by blast+
  from Cons.IH [OF _ this] Cons.prems(1) x same_infos_trans [OF si] show ?case by (simp add: Let_def h1_def [symmetric])
qed simp

end

section \<open>The invariant of the server\<close>

text \<open>
  The map leads to streams, under the key of their info unless they took over from another publisher; every goroutine has a stream with
  a reader; every writer is under its own id.
\<close>

definition streams_ok :: "('s, 'm, 'r, 'w) env \<Rightarrow> ('s, 'm, 'r, 'w) Streams \<Rightarrow> bool" where
  "streams_ok E st \<longleftrightarrow>
     (\<forall>k a. cm_Get (e_streams E) k (st_streams st) = Some a \<longrightarrow>
        a < length (st_objs st) \<and> (Key (s_info (st_objs st ! a)) = k \<or> s_info (st_objs st ! a) = zeroInfo)) \<and>
     (\<forall>g \<in> set (st_gos st). g_stream g < length (st_objs st) \<and> s_r (st_objs st ! g_stream g) \<noteq> None) \<and>
     (\<forall>a < length (st_objs st). keyed E (s_ws (st_objs st ! a)) (st_writers st))"

text \<open>A change of one stream and of writers.\<close>

lemma streams_ok_update:
  assumes "streams_ok E st" and "a < length (st_objs st)" and "st_objs st' = (st_objs st)[a := s]" and "keyed E (s_ws s) (st_writers st')"
    and "same_infos E (st_writers st) (st_writers st')" and "s_info s = s_info (st_objs st ! a)" and "s_r (st_objs st ! a) \<noteq> None \<longrightarrow> s_r s \<noteq> None"
    and "st_streams st' = st_streams st" and "g_stream ` set (st_gos st') \<subseteq> g_stream ` set (st_gos st)"
  shows "streams_ok E st'"
proof -
  have "\<exists>g' \<in> set (st_gos st). g_stream g = g_stream g'" if "g \<in> set (st_gos st')" for g using assms(9) that by auto
  then have "g_stream g < length (st_objs st') \<and> s_r (st_objs st' ! g_stream g) \<noteq> None" if "g \<in> set (st_gos st')" for g
    using assms(1-3,7) that by (fastforce simp: streams_ok_def nth_list_update)
  moreover have "keyed E (s_ws (st_objs st' ! b)) (st_writers st')" if "b < length (st_objs st')" for b
    using assms(1-5) that keyed_same [OF assms(5)] by (auto simp: streams_ok_def nth_list_update)
  moreover have "b < length (st_objs st') \<and> (Key (s_info (st_objs st' ! b)) = k \<or> s_info (st_objs st' ! b) = zeroInfo)"
    if "cm_Get (e_streams E) k (st_streams st') = Some b" for k b
    using assms(1-3,6,8) that by (auto simp: streams_ok_def nth_list_update)
  ultimately show ?thesis unfolding streams_ok_def by blast
qed

lemma streams_ok_same:
  assumes "streams_ok E st" and "st_objs st' = st_objs st" and "st_streams st' = st_streams st" and "st_writers st' = st_writers st"
    and "g_stream ` set (st_gos st') \<subseteq> g_stream ` set (st_gos st)"
  shows "streams_ok E st'"
proof -
  have "\<exists>g' \<in> set (st_gos st). g_stream g = g_stream g'" if "g \<in> set (st_gos st')" for g using assms(5) that by auto
  with assms(1-4) show ?thesis unfolding streams_ok_def by metis
qed

context stream_env
begin

lemma ok_AddReader:
  assumes "streams_ok E st" and "a < length (st_objs st)"
  shows "streams_ok E (AddReader ra a st)"
  using assms by (auto simp: streams_ok_def AddReader_def nth_list_update)

lemma ok_new_stream:
  assumes "streams_ok E st" and "st_objs st' = st_objs st @ [s]" and "st_streams st' = cm_Set (e_streams E) k (length (st_objs st)) (st_streams st)"
    and "st_gos st' = st_gos st" and "same_infos E (st_writers st) (st_writers st')" and "keyed E (s_ws s) (st_writers st')"
    and "Key (s_info s) = k \<or> s_info s = zeroInfo"
  shows "streams_ok E st'"
  using assms keyed_same [OF assms(5)] by (auto simp: streams_ok_def nth_append sm.get_set less_Suc_eq)

lemma ok_first_stream:
  assumes "streams_ok E st"
  shows "streams_ok E (st\<lparr>st_objs := st_objs st @ [(NewStream E)\<lparr>s_info := info\<rparr>],
     st_streams := cm_Set (e_streams E) (Key info) (length (st_objs st)) (st_streams st)\<rparr>)"
  by (rule ok_new_stream [OF assms, where s = "(NewStream E)\<lparr>s_info := info\<rparr>" and k = "Key info"]) (simp_all add: NewStream_def keyed_new)

lemma ok_HandleReader:
  assumes ok: "streams_ok E st"
  shows "streams_ok E (HandleReader E ra st)"
proof -
  define info where "info = r_Info (e_r E) (st_readers st ra)"
  show ?thesis
  proof (cases "cm_Get (e_streams E) (Key info) (st_streams st)")
    case None
    from ok_AddReader [OF ok_first_stream [OF ok]] None show ?thesis by (simp add: HandleReader_def info_def Let_def)
  next
    case (Some a)
    then have a: "a < length (st_objs st)" using ok by (simp add: streams_ok_def)
    obtain s readers where s: "TransStop E (st_objs st ! a) (st_readers st) = (s, readers)" by force
    then have s': "s_ws s = s_ws (st_objs st ! a)" "s_info s = s_info (st_objs st ! a)" "s_r s = s_r (st_objs st ! a)"
      by (auto simp: TransStop_def)
    define st1 where "st1 = st\<lparr>st_objs := (st_objs st)[a := s], st_readers := readers\<rparr>"
    have k: "keyed E (s_ws s) (st_writers st)" using ok a s'(1) by (simp add: streams_ok_def)
    have ok1: "streams_ok E st1"
      by (rule streams_ok_update [OF ok a, of _ s]) (use k in \<open>simp_all add: st1_def s'\<close>)
    obtain src dst writers where c: "Copy E (s_ws s) (s_ws (NewStream E)) (st_writers st1) = (src, dst, writers)" by (metis prod_cases3)
    have kc: "keyed E src writers \<and> keyed E dst writers \<and> same_infos E (st_writers st1) writers"
      using Copy_loop_keyed [OF c [unfolded Copy_def]] k keyed_new by (simp add: st1_def NewStream_def)
    define st2 where "st2 = st1\<lparr>st_objs := (st_objs st1)[a := s\<lparr>s_ws := src\<rparr>], st_writers := writers\<rparr>"
    have ok2: "streams_ok E st2"
      by (rule streams_ok_update [OF ok1, of a _ "s\<lparr>s_ws := src\<rparr>"]) (use a kc in \<open>simp_all add: st2_def\<close>, simp_all add: st1_def a)
    have ok3: "streams_ok E (st1\<lparr>st_objs := (st_objs st1)[a := s\<lparr>s_ws := src\<rparr>] @ [(NewStream E)\<lparr>s_ws := dst\<rparr>], st_writers := writers,
        st_streams := cm_Set (e_streams E) (Key info) (length (st_objs st1)) (st_streams st1)\<rparr>)"
      by (rule ok_new_stream [OF ok2, where s = "(NewStream E)\<lparr>s_ws := dst\<rparr>" and k = "Key info"]) (use kc in \<open>simp_all add: st2_def NewStream_def\<close>)
    show ?thesis
      using Some s ok_AddReader [OF ok1, of a] ok_AddReader [OF ok3, of "length (st_objs st1)" ra] a c
      by (simp add: HandleReader_def info_def [symmetric] Let_def st1_def)
  qed
qed

lemma ok_HandleWriter:
  assumes ok: "streams_ok E st"
  shows "streams_ok E (HandleWriter E wa st)"
proof -
  define info where "info = w_Info (e_w E) (st_writers st wa)"
  show ?thesis
  proof (cases "cm_Get (e_streams E) (Key info) (st_streams st)")
    case None
    with ok_first_stream [OF ok] show ?thesis by (simp add: HandleWriter_def info_def Let_def)
  next
    case (Some a)
    then have a: "a < length (st_objs st)" using ok by (simp add: streams_ok_def)
    then have "keyed E (AddWriter E (st_writers st) wa (s_ws (st_objs st ! a))) (st_writers st)"
      using ok keyed_AddWriter by (simp add: streams_ok_def)
    then have "streams_ok E (st\<lparr>st_objs := (st_objs st)[a := (st_objs st ! a)\<lparr>s_ws := AddWriter E (st_writers st) wa (s_ws (st_objs st ! a))\<rparr>]\<rparr>)"
      by (intro streams_ok_update [OF ok a, of _ "(st_objs st ! a)\<lparr>s_ws := AddWriter E (st_writers st) wa (s_ws (st_objs st ! a))\<rparr>"]) simp_all
    with Some show ?thesis by (simp add: HandleWriter_def info_def Let_def)
  qed
qed

lemma ok_stream_CheckAlive:
  assumes ok: "streams_ok E st" and a: "a < length (st_objs st)" and c: "stream_CheckAlive E now a st = (n, st')"
  shows "streams_ok E st' \<and> st_streams st' = st_streams st \<and> length (st_objs st') = length (st_objs st)"
proof -
  let ?s = "st_objs st ! a"
  obtain n0 n1 ws readers writers where l: "CheckAlive_loop E now (isStart ?s) (cm_Items (e_ws E) (s_ws ?s)) (n0, s_ws ?s, st_writers st) = (n1, ws, writers)"
      and st': "st' = st\<lparr>st_objs := (st_objs st)[a := ?s\<lparr>s_ws := ws\<rparr>], st_readers := readers, st_writers := writers\<rparr>"
    using c unfolding stream_CheckAlive_def Let_def by (auto split: prod.splits)
  have k: "keyed E ws writers \<and> same_infos E (st_writers st) writers"
    using CheckAlive_loop_keyed [OF l] ok a by (simp add: streams_ok_def)
  have "streams_ok E st'"
    by (rule streams_ok_update [OF ok a, where s = "?s\<lparr>s_ws := ws\<rparr>"]) (use k in \<open>simp_all add: st'\<close>)
  then show ?thesis by (simp add: st')
qed

lemma ok_streams_CheckAlive:
  assumes "streams_ok E st"
  shows "streams_ok E (streams_CheckAlive E now st)"
proof -
  have "streams_ok E (streams_CheckAlive_loop E now items st)"
    if "streams_ok E st" "\<forall>(k, a) \<in> set items. a < length (st_objs st)" for items st
    using that
  proof (induction items arbitrary: st)
    case (Cons x items)
    obtain k a where x: "x = (k, a)" by force
    obtain n st1 where c: "stream_CheckAlive E now a st = (n, st1)" by force
    have st1: "streams_ok E st1 \<and> st_streams st1 = st_streams st \<and> length (st_objs st1) = length (st_objs st)"
      using ok_stream_CheckAlive [OF Cons.prems(1) _ c] Cons.prems(2) x by simp
    then have "streams_ok E (st1\<lparr>st_streams := cm_Remove (e_streams E) k (st_streams st1)\<rparr>)"
      by (auto simp: streams_ok_def sm.get_remove)
    with Cons.IH [of st1] Cons.IH [of "st1\<lparr>st_streams := cm_Remove (e_streams E) k (st_streams st1)\<rparr>"] Cons.prems(2) st1 c x show ?case by simp
  qed simp
  moreover have "\<forall>(k, a) \<in> set (cm_Items (e_streams E) (st_streams st)). a < length (st_objs st)"
    using assms by (auto simp: sm.items_iff streams_ok_def)
  ultimately show ?thesis using assms by (simp add: streams_CheckAlive_def)
qed

lemma ok_closeInter:
  assumes ok: "streams_ok E st" and a: "a < length (st_objs st)" and c: "closeInter E a st = retB st'"
  shows "streams_ok E st' \<and> length (st_objs st') = length (st_objs st) \<and> st_gos st' = st_gos st"
proof -
  let ?s = "st_objs st ! a"
  obtain ws writers where l: "closeInter_loop E (cm_Items (e_ws E) (s_ws ?s)) (s_ws ?s, st_writers st) = (ws, writers)" by force
  have k: "keyed E ws writers \<and> same_infos E (st_writers st) writers"
    using closeInter_loop_keyed [OF l] ok a by (simp add: streams_ok_def)
  obtain pushes where st': "st' = st\<lparr>st_objs := (st_objs st)[a := ?s\<lparr>s_ws := ws\<rparr>], st_writers := writers, st_pushes := pushes\<rparr>"
    using c l by (auto simp: closeInter_def bindB_def Let_def split: option.splits sum.splits)
  have "streams_ok E st'"
    by (rule streams_ok_update [OF ok a, where s = "?s\<lparr>s_ws := ws\<rparr>"]) (use k in \<open>simp_all add: st'\<close>)
  then show ?thesis by (simp add: st')
qed

lemma ok_end_go: "streams_ok E st \<Longrightarrow> streams_ok E (end_go i st)"
  by (erule streams_ok_same) (auto simp: end_go_def dest: in_set_takeD in_set_dropD)

lemma g_stream_update: "i < length gs \<Longrightarrow> g_stream g = g_stream (gs ! i) \<Longrightarrow> g_stream ` set (gs[i := g]) \<subseteq> g_stream ` set gs"
  using set_update_subset_insert [of gs i g] by auto

lemma ok_TransStart_round:
  assumes ok: "streams_ok E st" and i: "i < length (st_gos st)" and c: "TransStart_round E now i st = retB st'"
  shows "streams_ok E st'"
proof -
  define g a s where "g = st_gos st ! i" and "a = g_stream g" and "s = st_objs st ! a"
  have a: "a < length (st_objs st)" "s_r s \<noteq> None"
    using ok i by (auto simp: streams_ok_def g_def a_def s_def)
  then obtain ra where ra: "s_r s = Some ra" by blast
  have fin: "streams_ok E (end_go i st2)" if "closeInter E a st1 = retB st2" "streams_ok E st1" "a < length (st_objs st1)" for st1 st2
    using ok_closeInter [OF that(2,3,1)] ok_end_go by blast
  obtain e p r where rd: "r_Read (e_r E) now (g_p g) (st_readers st ra) = (e, p, r)" by (metis prod_cases3)
  define st1 where "st1 = st\<lparr>st_readers := (st_readers st)(ra := r)\<rparr>"
  have ok1: "streams_ok E st1" by (rule streams_ok_same [OF ok]) (simp_all add: st1_def)
  have st1: "st_objs st1 = st_objs st" "st_writers st1 = st_writers st" "st_gos st1 = st_gos st" "st_pushes st1 = st_pushes st"
    by (simp_all add: st1_def)
  consider (stop) "\<not> isStart s" | (err) "isStart s" "e \<noteq> None" | (ok) "isStart s" "e = None" by blast
  then show ?thesis
  proof cases
    case stop
    then obtain st2 where "closeInter E a st = retB st2" "st' = end_go i st2"
      using c by (auto simp: TransStart_round_def g_def [symmetric] a_def [symmetric] s_def [symmetric] bindB_def split: option.splits sum.splits)
    with fin ok a show ?thesis by blast
  next
    case err
    then obtain st2 where st2: "closeInter E a st1 = retB st2" "st' = end_go i (st2\<lparr>st_objs := (st_objs st2)[a := (st_objs st2 ! a)\<lparr>isStart := False\<rparr>]\<rparr>)"
      using c ra rd by (auto simp: TransStart_round_def g_def [symmetric] a_def [symmetric] s_def [symmetric] bindB_def st1_def Let_def
          split: option.splits sum.splits if_splits)
    note c2 = ok_closeInter [OF ok1 _ st2(1)]
    have "streams_ok E (st2\<lparr>st_objs := (st_objs st2)[a := (st_objs st2 ! a)\<lparr>isStart := False\<rparr>]\<rparr>)"
      by (rule streams_ok_update [where st = st2 and a = a and s = "(st_objs st2 ! a)\<lparr>isStart := False\<rparr>"])
        (use c2 a st1 in \<open>auto simp: streams_ok_def\<close>)
    then show ?thesis using st2(2) ok_end_go by simp
  next
    case ok2: ok
    then obtain cache ws writers where f: "forward E p cache (cm_Items (e_ws E) (s_ws s)) (s_ws s, st_writers st) = Inr (ws, writers)"
        "st_objs st' = (st_objs st)[a := s\<lparr>s_cache := cache, s_ws := ws\<rparr>]" "st_writers st' = writers" "st_streams st' = st_streams st"
        "st_gos st' = (st_gos st)[i := g\<lparr>g_p := p\<rparr>]"
      using c ra rd by (auto simp: TransStart_round_def g_def [symmetric] a_def [symmetric] s_def [symmetric] Let_def bindB_def
          split: option.splits sum.splits if_splits prod.splits)
    have k: "keyed E (s_ws s) (st_writers st)" using ok a(1) by (simp add: streams_ok_def s_def)
    note kf = forward_keyed [OF f(1) k keyed_items [OF k]]
    show ?thesis
      by (rule streams_ok_update [OF ok a(1), where s = "s\<lparr>s_cache := cache, s_ws := ws\<rparr>"])
        (use kf a ra i f(2-5) g_stream_update [of i "st_gos st" "g\<lparr>g_p := p\<rparr>"] in \<open>simp_all add: s_def g_def\<close>)
  qed
qed

lemma ok_step:
  assumes "step E st st'" and ok: "streams_ok E st"
  shows "streams_ok E st'"
  using assms(1)
proof cases
  case (start i)
  define g a where "g = st_gos st ! i" and "a = g_stream g"
  have "g \<in> set (st_gos st)" using start by (simp add: g_def)
  then have a: "a < length (st_objs st)" using ok by (simp add: streams_ok_def a_def)
  have "streams_ok E (TransStart_begin i st)"
    by (rule streams_ok_update [OF ok a, where s = "(st_objs st ! a)\<lparr>isStart := True\<rparr>"])
      (use ok a start g_stream_update [of i "st_gos st" "g\<lparr>g_phase := Pushing\<rparr>"] in
        \<open>simp_all add: TransStart_begin_def Let_def g_def a_def streams_ok_def\<close>)
  then show ?thesis using start by simp
next
  case (push i early)
  define g where "g = st_gos st ! i"
  obtain pushes where "st' = st\<lparr>st_pushes := pushes, st_gos := (st_gos st)[i := g\<lparr>g_phase := Looping\<rparr>]\<rparr>"
    using push(3) by (auto simp: TransStart_push_def g_def bindB_def Let_def split: option.splits sum.splits)
  then show ?thesis
    using push(1) g_stream_update [of i "st_gos st" "g\<lparr>g_phase := Looping\<rparr>"]
    by (intro streams_ok_same [OF ok]) (simp_all add: g_def)
qed (use ok ok_HandleReader ok_HandleWriter ok_streams_CheckAlive ok_TransStart_round in blast)+

lemma ok_reachable: "reachable E st \<Longrightarrow> streams_ok E st"
proof (induction rule: reachable.induct)
  case (initial rs ws)
  show ?case by (simp add: streams_ok_def NewStreams_def sm.get_new)
qed (rule ok_step)

end

end
