(* ===== verification/StreamRounds.thy ===== *)
theory StreamRounds
  imports RtmpStream "HOL-Library.AList"
begin

text \<open>
  What the streams of \<open>RtmpStream\<close> do for their publishers and players: the rounds of a publisher's goroutine seen from one player, a new
  publisher for a stream that has one, players that come before the publisher, and what can happen before the goroutine of a publisher
  has begun. The contracts of the streams are interpreted on the readers and writers of \<^verbatim>\<open>rtmp.go\<close>.
\<close>

section \<open>One round seen from one player\<close>

definition demuxed :: "packet \<Rightarrow> bool" where
  "demuxed p \<longleftrightarrow> IsMetadata p \<or> Header p \<noteq> None"

lemma send_all_no_panic: "fst (send_all wrt ps w) = None \<or> (\<exists>e. fst (send_all wrt ps w) = Some (Err e))"
  by (induction ps arbitrary: w) (auto split: prod.splits option.splits)

lemma forward_total:
  assumes "\<And>w. cache_Send (w_Write (e_w E)) cache w = send_all (w_Write (e_w E)) hs w"
  shows "\<exists>st'. forward E p cache items st = Inr st'"
proof (induction items arbitrary: st)
  case (Cons x items)
  obtain k v ws h where x: "x = (k, v)" "st = (ws, h)" by (metis prod.collapse)
  show ?case
    using Cons.IH send_all_no_panic [of "w_Write (e_w E)" hs "h (pw_w v)"] unfolding x
    by (auto simp: assms Let_def split: prod.splits option.splits)
qed simp

text \<open>What a player is owed in a round: the headers if it is new, else the packet.\<close>

definition owed :: "packet list \<Rightarrow> packet \<Rightarrow> PackWriterCloser \<Rightarrow> packet list" where
  "owed hs p v = (if pw_init v then [p] else hs)"

text \<open>One writer of a round: what it is sent, and its entry afterwards.\<close>

definition serve :: "('s, 'm, 'r, 'w) env \<Rightarrow> packet \<Rightarrow> Cache \<Rightarrow> PackWriterCloser \<Rightarrow> 'w \<Rightarrow> exn option \<times> 'w" where
  "serve E p cache v w =
     (if pw_init v then (case w_Write (e_w E) p w of (e, w) \<Rightarrow> (map_option Err e, w)) else cache_Send (w_Write (e_w E)) cache w)"

definition after :: "('s, 'm, 'r, 'w) env \<Rightarrow> bytes \<Rightarrow> PackWriterCloser \<Rightarrow> exn option \<Rightarrow> 'm \<Rightarrow> 'm" where
  "after E k v e ws =
     (if e \<noteq> None then cm_Remove (e_ws E) k ws else if pw_init v then ws else cm_Set (e_ws E) k (v\<lparr>pw_init := True\<rparr>) ws)"

lemma forward_ConsE:
  assumes "forward E p cache ((k, v) # items) (ws, h) = Inr st"
  obtains e w where "serve E p cache v (h (pw_w v)) = (e, w)" and "forward E p cache items (after E k v e ws, h(pw_w v := w)) = Inr st"
  using assms by (auto simp: serve_def after_def Let_def split: if_splits prod.splits option.splits exn.splits)

lemma serve_owed:
  assumes "\<And>w. cache_Send (w_Write (e_w E)) cache w = send_all (w_Write (e_w E)) hs w"
  shows "serve E p cache v w = send_all (w_Write (e_w E)) (owed hs p v) w"
  by (auto simp: serve_def owed_def assms split: prod.splits option.splits)

context stream_env
begin

lemma get_after:
  "cm_Get (e_ws E) k' (after E k v e ws) =
     (if k' = k then (if e \<noteq> None then None else if pw_init v then cm_Get (e_ws E) k ws else Some (v\<lparr>pw_init := True\<rparr>))
      else cm_Get (e_ws E) k' ws)"
  by (simp add: after_def wm.get_remove wm.get_set)

lemma forward_frame:
  assumes "forward E p cache items (ws, h) = Inr (ws', h')" and "k \<notin> fst ` set items" and "wa \<notin> (\<lambda>x. pw_w (snd x)) ` set items"
  shows "h' wa = h wa \<and> cm_Get (e_ws E) k ws' = cm_Get (e_ws E) k ws"
  using assms
proof (induction items arbitrary: ws h)
  case (Cons x items)
  obtain k1 v1 where x: "x = (k1, v1)" by force
  obtain e w where "forward E p cache items (after E k1 v1 e ws, h(pw_w v1 := w)) = Inr (ws', h')"
    using Cons.prems(1) unfolding x by (rule forward_ConsE)
  from Cons.IH [OF this] Cons.prems(2,3) x show ?case by (auto simp: get_after)
qed simp

lemma forward_pointers:
  assumes "forward E p cache items (ws, h) = Inr (ws', h')" and "\<forall>(k, v) \<in> set items. \<exists>v0. cm_Get (e_ws E) k ws0 = Some v0 \<and> pw_w v0 = pw_w v"
    and "\<forall>k v. cm_Get (e_ws E) k ws = Some v \<longrightarrow> (\<exists>v0. cm_Get (e_ws E) k ws0 = Some v0 \<and> pw_w v0 = pw_w v)"
  shows "\<forall>k v. cm_Get (e_ws E) k ws' = Some v \<longrightarrow> (\<exists>v0. cm_Get (e_ws E) k ws0 = Some v0 \<and> pw_w v0 = pw_w v)"
  using assms
proof (induction items arbitrary: ws h)
  case (Cons x items)
  obtain k1 v1 where x: "x = (k1, v1)" by force
  obtain e w where f: "forward E p cache items (after E k1 v1 e ws, h(pw_w v1 := w)) = Inr (ws', h')"
    using Cons.prems(1) unfolding x by (rule forward_ConsE)
  show ?case by (rule Cons.IH [OF f]) (use Cons.prems(2,3) x in \<open>auto simp: get_after\<close>)
qed simp

lemma forward_player:
  assumes "forward E p cache items (ws, h) = Inr (ws', h')" and "distinct (map fst items)" and "(k, v) \<in> set items"
    and "\<forall>(k', v') \<in> set items. pw_w v' = pw_w v \<longrightarrow> k' = k"
    and "cm_Get (e_ws E) k ws = Some v" and "serve E p cache v (h (pw_w v)) = (None, w')"
  shows "h' (pw_w v) = w' \<and> cm_Get (e_ws E) k ws' = Some (v\<lparr>pw_init := True\<rparr>)"
  using assms
proof (induction items arbitrary: ws h)
  case (Cons x items)
  obtain k1 v1 where x: "x = (k1, v1)" by force
  obtain e w where f: "serve E p cache v1 (h (pw_w v1)) = (e, w)" "forward E p cache items (after E k1 v1 e ws, h(pw_w v1 := w)) = Inr (ws', h')"
    using Cons.prems(1) unfolding x by (rule forward_ConsE)
  show ?case
  proof (cases "k1 = k")
    case True
    have n: "k \<notin> fst ` set items" using Cons.prems(2) x True by simp
    then have v1: "v1 = v" using Cons.prems(3) x by force
    have out: "pw_w v \<notin> (\<lambda>x. pw_w (snd x)) ` set items" using Cons.prems(4) n by force
    have "pw_init v \<Longrightarrow> v\<lparr>pw_init := True\<rparr> = v" by simp
    with forward_frame [OF f(2) n out] f(1) Cons.prems(5,6) True v1 show ?thesis by (auto simp: get_after)
  next
    case False
    then have p: "pw_w v1 \<noteq> pw_w v" using Cons.prems(4) x by auto
    show ?thesis by (rule Cons.IH [OF f(2)]) (use Cons.prems(2-6) x False p in \<open>auto simp: get_after\<close>)
  qed
qed simp

end

section \<open>The rounds of a publisher\<close>

fun TransStart_rounds :: "('s, 'm, 'r, 'w) env \<Rightarrow> int list \<Rightarrow> nat \<Rightarrow> ('s, 'm, 'r, 'w) Streams \<Rightarrow> ('s, 'm, 'r, 'w) Streams blk" where
  "TransStart_rounds E [] i st = retB st"
| "TransStart_rounds E (now # ts) i st = bindB (TransStart_round E now i st) (TransStart_rounds E ts i)"

text \<open>What a reader delivers at these times, when it reports no error.\<close>

fun delivers :: "'r reader_ops \<Rightarrow> int list \<Rightarrow> packet \<Rightarrow> 'r \<Rightarrow> packet list \<Rightarrow> bool" where
  "delivers R [] p r ps \<longleftrightarrow> ps = []"
| "delivers R (now # ts) p r ps \<longleftrightarrow>
     (case r_Read R now p r of
        (Some e, p', r') \<Rightarrow> False
      | (None, p', r') \<Rightarrow> ps \<noteq> [] \<and> hd ps = p' \<and> demuxed p' \<and> delivers R ts p' r' (tl ps))"

abbreviation stream_of :: "('s, 'm, 'r, 'w) Streams \<Rightarrow> nat \<Rightarrow> 'm Stream" where
  "stream_of st i \<equiv> st_objs st ! g_stream (st_gos st ! i)"

text \<open>A goroutine in its loop, on a started stream without relays that has forwarded the packets \<open>hist\<close> so far.\<close>

definition playing :: "('s, 'm, 'r, 'w) env \<Rightarrow> ('s, 'm, 'r, 'w) Streams \<Rightarrow> nat \<Rightarrow> packet list \<Rightarrow> nat \<Rightarrow> bool" where
  "playing E st i hist ra \<longleftrightarrow> i < length (st_gos st) \<and> g_stream (st_gos st ! i) < length (st_objs st) \<and>
     isStart (stream_of st i) \<and> s_r (stream_of st i) = Some ra \<and> push_urls (e_apps E) (Key (s_info (stream_of st i))) = [] \<and>
     list_all demuxed hist \<and> 0 < e_gop E \<and> cache_Write_all hist (NewCache (e_gop E)) = Inr (s_cache (stream_of st i))"

text \<open>A player of its stream, whose writer is there under no other id.\<close>

definition player :: "('s, 'm, 'r, 'w) env \<Rightarrow> ('s, 'm, 'r, 'w) Streams \<Rightarrow> nat \<Rightarrow> bytes \<Rightarrow> PackWriterCloser \<Rightarrow> bool" where
  "player E st i k v \<longleftrightarrow> cm_Get (e_ws E) k (s_ws (stream_of st i)) = Some v \<and>
     (\<forall>k' v'. cm_Get (e_ws E) k' (s_ws (stream_of st i)) = Some v' \<and> pw_w v' = pw_w v \<longrightarrow> k' = k)"

lemma demuxed_all: "list_all demuxed ps \<longleftrightarrow> list_all (\<lambda>p. IsMetadata p \<or> Header p \<noteq> None) ps"
  by (induction ps) (simp_all add: demuxed_def)

context stream_env
begin

lemma playing_round:
  assumes play: "playing E st i hist ra" and rd: "r_Read (e_r E) now (g_p (st_gos st ! i)) (st_readers st ra) = (None, p, r)" and "demuxed p"
  shows "\<exists>st'. TransStart_round E now i st = retB st' \<and> playing E st' i (hist @ [p]) ra \<and> st_readers st' ra = r \<and> g_p (st_gos st' ! i) = p \<and>
     (\<forall>k v w'. player E st i k v \<and> send_all (w_Write (e_w E)) (owed (headers (hist @ [p])) p v) (st_writers st (pw_w v)) = (None, w') \<longrightarrow>
        st_writers st' (pw_w v) = w' \<and> player E st' i k (v\<lparr>pw_init := True\<rparr>))"
proof -
  define g a s where "g = st_gos st ! i" and "a = g_stream g" and "s = st_objs st ! a"
  have pl: "i < length (st_gos st)" "a < length (st_objs st)" "isStart s" "s_r s = Some ra" "push_urls (e_apps E) (Key (s_info s)) = []"
      "list_all demuxed hist" "0 < e_gop E" "cache_Write_all hist (NewCache (e_gop E)) = Inr (s_cache s)"
    using play by (simp_all add: playing_def g_def a_def s_def)
  have d: "list_all demuxed (hist @ [p])" using pl(6) assms(3) by simp
  obtain cache where c: "cache_Write_all (hist @ [p]) (NewCache (e_gop E)) = Inr cache"
      "\<And>w. cache_Send (w_Write (e_w E)) cache w = send_all (w_Write (e_w E)) (headers (hist @ [p])) w"
    using cache_Send_headers [OF d [unfolded demuxed_all] pl(7), of "w_Write (e_w E)"] by blast
  then have cw: "cache_Write p (s_cache s) = Inr cache"
    using pl(8) by (simp add: cache_Write_all_append)
  obtain ws h where f: "forward E p cache (cm_Items (e_ws E) (s_ws s)) (s_ws s, st_writers st) = Inr (ws, h)"
    using forward_total [OF c(2), of p "cm_Items (e_ws E) (s_ws s)"] by (metis prod.collapse)
  define st' where "st' = st\<lparr>st_readers := (st_readers st)(ra := r), st_objs := (st_objs st)[a := s\<lparr>s_cache := cache, s_ws := ws\<rparr>],
     st_writers := h, st_gos := (st_gos st)[i := g\<lparr>g_p := p\<rparr>]\<rparr>"
  have so: "stream_of st' i = s\<lparr>s_cache := cache, s_ws := ws\<rparr>" using pl(1,2) by (simp add: st'_def a_def)
  have "TransStart_round E now i st = retB st'"
    using pl rd cw f unfolding TransStart_round_def Let_def g_def [symmetric] a_def [symmetric] s_def [symmetric]
    by (simp add: IsSendStaticPush_def st'_def)
  moreover have "playing E st' i (hist @ [p]) ra"
    unfolding playing_def so using pl c(1) d by (simp add: st'_def a_def)
  moreover have "st_writers st' (pw_w v) = w' \<and> player E st' i k (v\<lparr>pw_init := True\<rparr>)"
    if v: "player E st i k v" and w: "send_all (w_Write (e_w E)) (owed (headers (hist @ [p])) p v) (st_writers st (pw_w v)) = (None, w')" for k v w'
  proof -
    have g1: "cm_Get (e_ws E) k (s_ws s) = Some v" and g2: "\<And>k' v'. cm_Get (e_ws E) k' (s_ws s) = Some v' \<Longrightarrow> pw_w v' = pw_w v \<Longrightarrow> k' = k"
      using v by (auto simp: player_def g_def a_def s_def)
    have "h (pw_w v) = w' \<and> cm_Get (e_ws E) k ws = Some (v\<lparr>pw_init := True\<rparr>)"
    proof (rule forward_player [OF f wm.items_distinct])
      show "(k, v) \<in> set (cm_Items (e_ws E) (s_ws s))" using g1 by (simp add: wm.items_iff)
      show "\<forall>(k', v') \<in> set (cm_Items (e_ws E) (s_ws s)). pw_w v' = pw_w v \<longrightarrow> k' = k" using g2 by (auto simp: wm.items_iff)
      show "serve E p cache v (st_writers st (pw_w v)) = (None, w')" using w by (simp only: serve_owed [OF c(2)])
    qed (rule g1)
    moreover have "\<forall>k' v'. cm_Get (e_ws E) k' ws = Some v' \<longrightarrow> (\<exists>v0. cm_Get (e_ws E) k' (s_ws s) = Some v0 \<and> pw_w v0 = pw_w v')"
      by (rule forward_pointers [OF f]) (auto simp: wm.items_iff)
    ultimately show ?thesis
      using g2 unfolding player_def so by (simp add: st'_def) metis
  qed
  moreover have "st_readers st' ra = r" "g_p (st_gos st' ! i) = p" using pl(1) by (simp_all add: st'_def)
  ultimately show ?thesis by blast
qed

end

text \<open>What a player gets in the rounds of a sequence of packets.\<close>

definition stream_to :: "packet list \<Rightarrow> PackWriterCloser \<Rightarrow> packet list \<Rightarrow> packet list" where
  "stream_to hist v ps = (case ps of [] \<Rightarrow> [] | p # ps' \<Rightarrow> owed (headers (hist @ [p])) p v @ ps')"

lemma stream_to_init [simp]: "pw_init v \<Longrightarrow> stream_to hist v ps = ps"
  by (simp add: stream_to_def owed_def split: list.splits)

lemma send_all_appendE:
  assumes "send_all wrt (ps @ qs) w = (None, w')"
  obtains w1 where "send_all wrt ps w = (None, w1)" and "send_all wrt qs w1 = (None, w')"
  using assms by (auto simp: send_all_append split: prod.splits option.splits)

context stream_env
begin

lemma playing_rounds:
  assumes "playing E st i hist ra" and "delivers (e_r E) ts (g_p (st_gos st ! i)) (st_readers st ra) ps" and "player E st i k v"
    and "send_all (w_Write (e_w E)) (stream_to hist v ps) (st_writers st (pw_w v)) = (None, w')"
  shows "\<exists>st' init. TransStart_rounds E ts i st = retB st' \<and> playing E st' i (hist @ ps) ra \<and> st_writers st' (pw_w v) = w' \<and>
     player E st' i k (v\<lparr>pw_init := init\<rparr>)"
  using assms
proof (induction ts arbitrary: st hist ps v)
  case Nil
  then show ?case by (auto simp: stream_to_def intro!: exI [of _ "pw_init v"])
next
  case (Cons now ts)
  obtain p r ps' where p: "r_Read (e_r E) now (g_p (st_gos st ! i)) (st_readers st ra) = (None, p, r)" "ps = p # ps'" "demuxed p"
      "delivers (e_r E) ts p r ps'"
    using Cons.prems(2) by (cases ps) (auto split: prod.splits option.splits)
  obtain w1 where w1: "send_all (w_Write (e_w E)) (owed (headers (hist @ [p])) p v) (st_writers st (pw_w v)) = (None, w1)"
      "send_all (w_Write (e_w E)) ps' w1 = (None, w')"
    using Cons.prems(4) p(2) by (auto simp: stream_to_def elim: send_all_appendE)
  obtain st1 where st1: "TransStart_round E now i st = retB st1" "playing E st1 i (hist @ [p]) ra" "st_readers st1 ra = r" "g_p (st_gos st1 ! i) = p"
      "st_writers st1 (pw_w v) = w1" "player E st1 i k (v\<lparr>pw_init := True\<rparr>)"
    using playing_round [OF Cons.prems(1) p(1,3)] Cons.prems(3) w1(1) by blast
  from Cons.IH [OF st1(2) _ st1(6), of ps'] st1 p(2,4) w1(2) show ?case by simp
qed

end

section \<open>The readers and writers of rtmp.go\<close>

text \<open>
  The identity of a reader or writer: \<open>parse\<close> is \<^verbatim>\<open>url.Parse\<close>, which gives the path. When it fails the error is logged and the nil result is
  dereferenced.
\<close>

definition vir_Info :: "(bytes \<Rightarrow> bytes res) \<Rightarrow> bytes \<Rightarrow> bool \<Rightarrow> ConnServer \<Rightarrow> Info res" where
  "vir_Info parse uid isInter conn =
     (case cs_GetInfo conn of (_, _, url) \<Rightarrow>
        (case parse url of
           Inl _ \<Rightarrow> Inl (Panic NilDereference)
         | Inr path \<Rightarrow> Inr \<lparr>Key = dropWhile (\<lambda>b. b = 47) path, URL = url, UID = uid, Inter = isInter\<rparr>))"

definition vr_Info :: "(bytes \<Rightarrow> bytes res) \<Rightarrow> VirReader \<Rightarrow> Info res" where
  "vr_Info parse v = vir_Info parse (vr_uid v) False (vr_conn v)"

definition vw_Info :: "(bytes \<Rightarrow> bytes res) \<Rightarrow> VirWriter \<Rightarrow> Info res" where
  "vw_Info parse v = vir_Info parse (vw_uid v) True (vw_conn v)"

definition cs_Close :: "ConnServer \<Rightarrow> ConnServer" where
  "cs_Close cs = cs\<lparr>cs_conn := conn_Close (cs_conn cs)\<rparr>"

definition vr_Close :: "VirReader \<Rightarrow> VirReader" where
  "vr_Close v = v\<lparr>vr_conn := cs_Close (vr_conn v)\<rparr>"

text \<open>
  As implementations of the interfaces. A reader or writer whose \<^verbatim>\<open>Info\<close> panics does not get to a stream, since \<^verbatim>\<open>HandleReader\<close> and
  \<^verbatim>\<open>HandleWriter\<close> call it first; the write of a player never blocks, as \<open>rtmpq\<close> shows.
\<close>

definition vir_reader :: "(bytes \<Rightarrow> bytes res) \<Rightarrow> VirReader reader_ops" where
  "vir_reader parse =
     \<lparr>r_Info = \<lambda>v. case vr_Info parse v of Inr i \<Rightarrow> i | Inl _ \<Rightarrow> zeroInfo,
      r_Read = \<lambda>now p v. case vr_Read now p v of (e, p, v) \<Rightarrow> (case e of Some (Err x) \<Rightarrow> Some x | _ \<Rightarrow> None, p, v),
      r_Close = vr_Close, r_Alive = \<lambda>now v. Alive now (vr_rw v)\<rparr>"

definition vir_writer :: "(bytes \<Rightarrow> bytes res) \<Rightarrow> VirWriter writer_ops" where
  "vir_writer parse =
     \<lparr>w_Info = \<lambda>v. case vw_Info parse v of Inr i \<Rightarrow> i | Inl _ \<Rightarrow> zeroInfo,
      w_Write = \<lambda>p v. case vw_Write p v of Some (Inr v') \<Rightarrow> (None, v') | Some (Inl (Err e)) \<Rightarrow> (Some e, v) | _ \<Rightarrow> (None, v),
      w_Close = \<lambda>v. (case vw_Close v of Inr v' \<Rightarrow> v' | Inl _ \<Rightarrow> v)\<lparr>vw_conn := cs_Close (vw_conn v)\<rparr>,
      w_Alive = \<lambda>now v. Alive now (vw_rw v), w_CalcBaseTimestamp = \<lambda>v. v\<lparr>vw_rw := CalcBaseTimestamp (vw_rw v)\<rparr>\<rparr>"

text \<open>Association lists fulfil the contract of the concurrent map.\<close>

definition alist_map :: "('v, (bytes \<times> 'v) list) cmap_ops" where
  "alist_map = \<lparr>cm_New = [], cm_Get = \<lambda>k m. map_of m k, cm_Set = \<lambda>k v m. (k, v) # m, cm_Remove = AList.delete, cm_Items = AList.clearjunk\<rparr>"

interpretation am: concurrent_map alist_map
  by unfold_locales (simp_all add: alist_map_def delete_conv' map_of_clearjunk distinct_clearjunk)

definition rtmp_env ::
    "(bytes \<Rightarrow> bytes res) \<Rightarrow> nat \<Rightarrow> Application list \<Rightarrow> network \<Rightarrow>
     ((bytes \<times> nat) list, (bytes \<times> PackWriterCloser) list, VirReader, VirWriter) env" where
  "rtmp_env parse gop apps net =
     \<lparr>e_streams = alist_map, e_ws = alist_map, e_r = vir_reader parse, e_w = vir_writer parse, e_gop = gop, e_apps = apps, e_net = net\<rparr>"

text \<open>A publisher keeps its identity when it is closed.\<close>

locale publisher_env = stream_env E for E :: "('s, 'm, 'r, 'w) env" +
  assumes r_Info_Close: "r_Info (e_r E) (r_Close (e_r E) r) = r_Info (e_r E) r"

interpretation rtmp: publisher_env "rtmp_env parse gop apps net" for parse gop apps net
proof
  let ?E = "rtmp_env parse gop apps net"
  have w: "e_w ?E = vir_writer parse" "e_r ?E = vir_reader parse" "e_streams ?E = alist_map" "e_ws ?E = alist_map" by (simp_all add: rtmp_env_def)
  have g: "vir_Info parse uid b (cs_Close c) = vir_Info parse uid b c" for uid b c by (simp add: vir_Info_def cs_GetInfo_def cs_Close_def)
  show "w_Info (e_w ?E) (snd (w_Write (e_w ?E) p v)) = w_Info (e_w ?E) v" for p v
  proof -
    have "vw_Info parse v' = vw_Info parse v" if "vw_Write p v = Some (Inr v')" for v'
      using that by (auto simp: vw_Write_def vw_Info_def bindB_def split: if_splits option.splits sum.splits)
    then show ?thesis unfolding w by (auto simp: vir_writer_def split: option.splits sum.splits exn.splits)
  qed
  show "w_Info (e_w ?E) (w_Close (e_w ?E) v) = w_Info (e_w ?E) v" for v
  proof -
    have "vw_Info parse (v'\<lparr>vw_conn := cs_Close (vw_conn v)\<rparr>) = vw_Info parse v" if "vw_uid v' = vw_uid v" for v'
      using that by (simp add: vw_Info_def g)
    moreover have "vw_uid v' = vw_uid v" if "vw_Close v = Inr v'" for v'
      using that by (auto simp: vw_Close_def bindR_def split: sum.splits)
    ultimately show ?thesis unfolding w by (auto simp: vir_writer_def split: sum.splits)
  qed
  show "w_Info (e_w ?E) (w_CalcBaseTimestamp (e_w ?E) v) = w_Info (e_w ?E) v" for v
    unfolding w by (simp add: vir_writer_def vw_Info_def)
  show "r_Info (e_r ?E) (r_Close (e_r ?E) r) = r_Info (e_r ?E) r" for r
  proof -
    have "vr_uid (vr_Close r) = vr_uid r" "vr_conn (vr_Close r) = cs_Close (vr_conn r)" by (simp_all add: vr_Close_def)
    then show ?thesis unfolding w by (simp add: vir_reader_def vr_Info_def g)
  qed
qed (simp_all add: rtmp_env_def am.get_new am.get_set am.get_remove am.items_distinct am.items_get)

section \<open>Readers with a script and writers that record\<close>

text \<open>Readers that deliver given packets and writers that collect what they get, to run the streams on.\<close>

definition script_reader :: "(Info \<times> packet list) reader_ops" where
  "script_reader =
     \<lparr>r_Info = fst, r_Read = \<lambda>now p r. case snd r of [] \<Rightarrow> (Some EOF, p, r) | q # qs \<Rightarrow> (None, q, (fst r, qs)),
      r_Close = \<lambda>r. (fst r, []), r_Alive = \<lambda>now r. True\<rparr>"

definition record_writer :: "(Info \<times> packet list) writer_ops" where
  "record_writer =
     \<lparr>w_Info = fst, w_Write = \<lambda>p w. (None, (fst w, snd w @ [p])), w_Close = \<lambda>w. w, w_Alive = \<lambda>now w. True, w_CalcBaseTimestamp = \<lambda>w. w\<rparr>"

definition script_env :: "((bytes \<times> nat) list, (bytes \<times> PackWriterCloser) list, Info \<times> packet list, Info \<times> packet list) env" where
  "script_env =
     \<lparr>e_streams = alist_map, e_ws = alist_map, e_r = script_reader, e_w = record_writer, e_gop = 1, e_apps = [],
      e_net = \<lparr>net_Parse = \<lambda>_. Inl (Err NetError), net_Dial = \<lambda>_. Inl (Err NetError), net_Range = \<lambda>xs. xs\<rparr>\<rparr>"

interpretation script: publisher_env script_env
  by unfold_locales (simp_all add: script_env_def script_reader_def record_writer_def am.get_new am.get_set am.get_remove am.items_distinct am.items_get)

lemmas script_defs = script_env_def script_reader_def record_writer_def alist_map_def NewStreams_def NewStream_def HandleReader_def HandleWriter_def
  AddReader_def AddWriter_def TransStart_begin_def TransStart_push_def StartStaticPush_def Let_def

lemma push_urls_no_apps [simp]: "push_urls [] key = []"
  by (simp add: push_urls_def GetStaticPushList_def)

text \<open>A stream with a publisher of three packets, whose goroutine is in its loop, and one player.\<close>

definition demo_info :: "byte \<Rightarrow> Info" where
  "demo_info u = \<lparr>Key = gostr ''live/movie'', URL = [], UID = [u], Inter = False\<rparr>"

definition demo_packet :: "u32 \<Rightarrow> packet" where
  "demo_packet t = (sample_packet True t)\<lparr>IsMetadata := True\<rparr>"

definition demo_published :: "((bytes \<times> nat) list, (bytes \<times> PackWriterCloser) list, Info \<times> packet list, Info \<times> packet list) Streams" where
  "demo_published = HandleReader script_env 0
     (NewStreams script_env (\<lambda>a. (demo_info (word_of_nat (Suc a)), [demo_packet 1, demo_packet 2, demo_packet 3])) (\<lambda>_. (demo_info 9, [])))"

definition demo :: "((bytes \<times> nat) list, (bytes \<times> PackWriterCloser) list, Info \<times> packet list, Info \<times> packet list) Streams" where
  "demo =
     (case TransStart_push script_env False 0 (TransStart_begin 0 demo_published) of
        Some (Inr st) \<Rightarrow> HandleWriter script_env 0 st
      | _ \<Rightarrow> demo_published)"

lemma demo_published:
  "demo_published =
     \<lparr>st_streams = [(gostr ''live/movie'', 0)],
      st_objs = [\<lparr>isStart = False, s_cache = NewCache 1, s_r = Some 0, s_ws = [], s_info = demo_info 1\<rparr>],
      st_readers = \<lambda>a. (demo_info (word_of_nat (Suc a)), [demo_packet 1, demo_packet 2, demo_packet 3]), st_writers = \<lambda>_. (demo_info 9, []),
      st_pushes = Map.empty, st_gos = [\<lparr>g_stream = 0, g_phase = Spawned, g_p = zeroPacket\<rparr>]\<rparr>"
  by (simp add: demo_published_def script_defs demo_info_def)

lemma demo:
  "demo = demo_published\<lparr>st_objs := [\<lparr>isStart = True, s_cache = NewCache 1, s_r = Some 0, s_ws = [([9], \<lparr>pw_init = False, pw_w = 0\<rparr>)], s_info = demo_info 1\<rparr>],
     st_gos := [\<lparr>g_stream = 0, g_phase = Looping, g_p = zeroPacket\<rparr>]\<rparr>"
  by (simp add: demo_def demo_published script_defs demo_info_def)

lemma demo_reachable: "reachable script_env demo_published"
  unfolding demo_published_def by (rule reachable.steps [OF reachable.initial step.publish])

text \<open>
  C5: in every state the server reaches, every key of the map leads to an existing stream, of that key or of a later publisher; every player is stored under its
  own id; and every goroutine works on an existing stream that has a reader, so that it never reads from a nil interface.
\<close>

theorem streams_invariant:
  assumes "stream_env E" and "reachable E st"
  shows "streams_ok E st"
  by (rule stream_env.ok_reachable [OF assms])

theorem streams_invariant_witness: "reachable script_env demo_published \<and> streams_ok script_env demo_published"
  using streams_invariant [OF script.stream_env_axioms demo_reachable] demo_reachable by blast



section \<open>A new publisher for a stream that has one\<close>

context stream_env
begin

lemma Copy_loop_moves:
  assumes "Copy_loop E items (src, dst, h) = (src', dst', h')" and "distinct (map fst items)"
    and "\<forall>(k, v) \<in> set items. k = UID (w_Info (e_w E) (h (pw_w v)))"
  shows "cm_Get (e_ws E) k src' = (if k \<in> fst ` set items then None else cm_Get (e_ws E) k src) \<and>
     cm_Get (e_ws E) k dst' = (case map_of items k of Some v \<Rightarrow> Some \<lparr>pw_init = False, pw_w = pw_w v\<rparr> | None \<Rightarrow> cm_Get (e_ws E) k dst) \<and>
     h' wa = (if wa \<in> (\<lambda>x. pw_w (snd x)) ` set items then w_CalcBaseTimestamp (e_w E) (h wa) else h wa)"
  using assms
proof (induction items arbitrary: src dst h)
  case (Cons x items)
  obtain k1 v1 where x: "x = (k1, v1)" by force
  define h1 where "h1 = h(pw_w v1 := w_CalcBaseTimestamp (e_w E) (h (pw_w v1)))"
  have k1: "UID (w_Info (e_w E) (h1 (pw_w v1))) = k1" using Cons.prems(3) x by (simp add: h1_def Info_Calc)
  have c: "Copy_loop E items (cm_Remove (e_ws E) k1 src, AddWriter E h1 (pw_w v1) dst, h1) = (src', dst', h')"
    using Cons.prems(1) x by (simp add: h1_def Let_def)
  have keys: "\<forall>(k, v) \<in> set items. k = UID (w_Info (e_w E) (h1 (pw_w v)))" using Cons.prems(3) by (auto simp: h1_def Info_Calc)
  have new: "k1 \<notin> fst ` set items" using Cons.prems(2) x by simp
  then have out: "pw_w v1 \<notin> (\<lambda>x. pw_w (snd x)) ` set items" using keys k1 by force
  then have "h1 wa = (if wa = pw_w v1 then w_CalcBaseTimestamp (e_w E) (h wa) else h wa)" by (simp add: h1_def)
  moreover have "map_of items k1 = None" using new by (simp add: map_of_eq_None_iff)
  ultimately show ?case
    using Cons.IH [OF c _ keys] Cons.prems(2) out new x by (auto simp: wm.get_remove wm.get_set AddWriter_def k1 split: option.split)
qed simp

lemma Copy_moves:
  assumes "Copy E src (cm_New (e_ws E)) h = (src', dst', h')" and "keyed E src h"
  shows "cm_Get (e_ws E) k src' = None \<and>
     cm_Get (e_ws E) k dst' = map_option (\<lambda>v. \<lparr>pw_init = False, pw_w = pw_w v\<rparr>) (cm_Get (e_ws E) k src) \<and>
     (cm_Get (e_ws E) k src = Some v \<longrightarrow> h' (pw_w v) = w_CalcBaseTimestamp (e_w E) (h (pw_w v)))"
proof -
  note c = Copy_loop_moves [OF assms(1) [unfolded Copy_def] wm.items_distinct keyed_items [OF assms(2), unfolded items_keyed_def]]
  have "k \<in> fst ` set (cm_Items (e_ws E) src) \<longleftrightarrow> cm_Get (e_ws E) k src \<noteq> None"
    by (simp add: wm.items_get [symmetric] map_of_eq_None_iff)
  moreover have "pw_w v \<in> (\<lambda>x. pw_w (snd x)) ` set (cm_Items (e_ws E) src)" if "cm_Get (e_ws E) k src = Some v"
    using that by (force simp: wm.items_iff [symmetric])
  ultimately show ?thesis using c [of k] c [of k "pw_w v"] by (auto simp: wm.items_get wm.get_new split: option.splits)
qed

end

text \<open>
  C6: when a second publisher takes over a stream, the old publisher is closed and stopped, and all its players move to a new stream, with
  nothing forwarded to them yet and with their time base moved on; the new stream reads from the new publisher, in a goroutine of its own. But its
  \<^verbatim>\<open>info\<close> is left empty, so that it pushes to no relay, whatever is configured for the stream.
\<close>

theorem publisher_takeover:
  assumes env: "publisher_env E" and "streams_ok E st" and info: "r_Info (e_r E) (st_readers st ra) = info"
    and get: "cm_Get (e_streams E) (Key info) (st_streams st) = Some a" and old: "st_objs st ! a = s" "s_r s = Some ro"
    and other: "UID (r_Info (e_r E) (st_readers st ro)) \<notin> {[], UID info}"
  shows "\<exists>s' ns. let st' = HandleReader E ra st in
     st_objs st' = (st_objs st)[a := s'] @ [ns] \<and> st_streams st' = cm_Set (e_streams E) (Key info) (length (st_objs st)) (st_streams st) \<and>
     st_readers st' = (if isStart s then (st_readers st)(ro := r_Close (e_r E) (st_readers st ro)) else st_readers st) \<and>
     st_gos st' = st_gos st @ [\<lparr>g_stream = length (st_objs st), g_phase = Spawned, g_p = zeroPacket\<rparr>] \<and>
     \<not> isStart s' \<and> s_r s' = Some ro \<and> s_r ns = Some ra \<and> s_cache ns = NewCache (e_gop E) \<and> push_urls (e_apps E) (Key (s_info ns)) = [] \<and>
     (\<forall>k. cm_Get (e_ws E) k (s_ws s') = None \<and>
        cm_Get (e_ws E) k (s_ws ns) = map_option (\<lambda>v. \<lparr>pw_init = False, pw_w = pw_w v\<rparr>) (cm_Get (e_ws E) k (s_ws s))) \<and>
     (\<forall>k v. cm_Get (e_ws E) k (s_ws s) = Some v \<longrightarrow> st_writers st' (pw_w v) = w_CalcBaseTimestamp (e_w E) (st_writers st (pw_w v)))"
proof -
  have a: "a < length (st_objs st)" "keyed E (s_ws s) (st_writers st)"
    using assms(2) get old(1) by (auto simp: streams_ok_def)
  obtain src dst h where c: "Copy E (s_ws s) (cm_New (e_ws E)) (st_writers st) = (src, dst, h)" by (metis prod_cases3)
  note m = stream_env.Copy_moves [OF publisher_env.axioms(1) [OF env] c a(2)]
  have id: "stream_ID E (if isStart s then (st_readers st)(ro := r_Close (e_r E) (st_readers st ro)) else st_readers st) (s\<lparr>isStart := False\<rparr>)
      = UID (r_Info (e_r E) (st_readers st ro))"
    using old(2) publisher_env.r_Info_Close [OF env] by (simp add: stream_ID_def)
  have u: "push_urls (e_apps E) (Key zeroInfo) = []" by (simp add: push_urls_def zeroInfo_def)
  show ?thesis
    by (rule exI [of _ "s\<lparr>isStart := False, s_ws := src\<rparr>"], rule exI [of _ "(NewStream E)\<lparr>s_ws := dst, s_r := Some ra\<rparr>"])
      (use info get old id other c a(1) m u in
        \<open>simp add: HandleReader_def TransStop_def NewStream_def AddReader_def Let_def list_update_append nth_append\<close>)
qed

theorem publisher_takeover_witness:
  "\<exists>s' ns. st_objs (HandleReader script_env 1 demo) = [s', ns] \<and> s_r ns = Some 1 \<and>
     cm_Get (e_ws script_env) [9] (s_ws s') = None \<and> cm_Get (e_ws script_env) [9] (s_ws ns) = Some \<lparr>pw_init = False, pw_w = 0\<rparr>"
proof -
  define s where "s = st_objs demo ! 0"
  have ok: "streams_ok script_env demo"
    by (auto simp: streams_ok_def keyed_def demo demo_published script_env_def alist_map_def record_writer_def demo_info_def split: if_splits)
  have i: "r_Info (e_r script_env) (st_readers demo 1) = demo_info 2" and k: "Key (demo_info 2) = gostr ''live/movie''"
      and g: "cm_Get (e_streams script_env) (Key (demo_info 2)) (st_streams demo) = Some 0"
      and r: "s_r s = Some 0" and u: "UID (r_Info (e_r script_env) (st_readers demo 0)) \<notin> {[], UID (demo_info 2)}"
      and w: "cm_Get (e_ws script_env) [9] (s_ws s) = Some \<lparr>pw_init = False, pw_w = 0\<rparr>"
      and o: "\<And>x. (st_objs demo)[0 := x] = [x]"
    by (simp_all add: s_def demo demo_published script_env_def script_reader_def alist_map_def demo_info_def)
  from publisher_takeover [OF script.publisher_env_axioms ok i g s_def [symmetric] r u] w o show ?thesis
    unfolding Let_def by (elim exE) (simp del: One_nat_def)
qed

section \<open>Players before the publisher, and the time before the goroutine\<close>

context stream_env
begin

lemma items_new [simp]: "cm_Items (e_ws E) (cm_New (e_ws E)) = []" "cm_Items (e_streams E) (cm_New (e_streams E)) = []"
proof -
  have "cm_Items (e_ws E) (cm_New (e_ws E)) = []" 
    using wm.items_iff wm.get_new by (metis eq_fst_iff list.set_intros(1) neq_Nil_conv option.distinct(1))
  moreover have "cm_Items (e_streams E) (cm_New (e_streams E)) = []"
    using sm.items_iff sm.get_new by (metis eq_fst_iff list.set_intros(1) neq_Nil_conv option.distinct(1))
  ultimately show "cm_Items (e_ws E) (cm_New (e_ws E)) = []" "cm_Items (e_streams E) (cm_New (e_streams E)) = []" by simp_all
qed

text \<open>A stream with no writers, and no started reader, counts as dead.\<close>

lemma CheckAlive_idle:
  assumes "s_ws (st_objs st ! a) = cm_New (e_ws E)" and "\<not> isStart (st_objs st ! a)"
  shows "stream_CheckAlive E now a st = (0, st)"
proof -
  have "(st_objs st)[a := (st_objs st ! a)\<lparr>s_ws := cm_New (e_ws E)\<rparr>] = st_objs st" using assms(1) by (metis list_update_id Stream.surjective Stream.update_convs(4))
  then show ?thesis using assms by (simp add: stream_CheckAlive_def Let_def split: option.splits)
qed

lemma CheckAlive_frame:
  assumes "stream_CheckAlive E now b st = (n, st')"
  shows "st_streams st' = st_streams st \<and> st_gos st' = st_gos st \<and> (b \<noteq> a \<longrightarrow> st_objs st' ! a = st_objs st ! a)"
  using assms by (auto simp: stream_CheckAlive_def Let_def split: prod.splits)

lemma CheckAlive_removes:
  assumes "s_ws (st_objs st ! a) = cm_New (e_ws E)" and "\<not> isStart (st_objs st ! a)"
  shows "st_objs (streams_CheckAlive_loop E now items st) ! a = st_objs st ! a \<and> st_gos (streams_CheckAlive_loop E now items st) = st_gos st \<and>
     (cm_Get (e_streams E) k (st_streams st) = None \<or> (k, a) \<in> set items \<longrightarrow>
        cm_Get (e_streams E) k (st_streams (streams_CheckAlive_loop E now items st)) = None)"
  using assms
proof (induction items arbitrary: st)
  case (Cons x items)
  obtain k1 b where x: "x = (k1, b)" by force
  obtain n st1 where c: "stream_CheckAlive E now b st = (n, st1)" by force
  have st1: "st_streams st1 = st_streams st" "st_gos st1 = st_gos st" "st_objs st1 ! a = st_objs st ! a" "b = a \<Longrightarrow> n = 0"
    using CheckAlive_frame [OF c, of a] CheckAlive_idle [OF Cons.prems, of now] c by (cases "b = a"; auto)+
  define st2 where "st2 = (if n = 0 then st1\<lparr>st_streams := cm_Remove (e_streams E) k1 (st_streams st1)\<rparr> else st1)"
  have st2: "st_objs st2 ! a = st_objs st ! a" "st_gos st2 = st_gos st" "st_streams st2 = (if n = 0 then cm_Remove (e_streams E) k1 (st_streams st) else st_streams st)"
    using st1 by (simp_all add: st2_def)
  have l: "streams_CheckAlive_loop E now (x # items) st = streams_CheckAlive_loop E now items st2" using c x by (simp add: st2_def)
  show ?case using Cons.IH [of st2] Cons.prems st2 st1(4) x unfolding l by (auto simp: sm.get_remove)
qed simp

lemma check_removes_idle:
  assumes "s_ws (st_objs st ! a) = cm_New (e_ws E)" and "\<not> isStart (st_objs st ! a)" and "cm_Get (e_streams E) k (st_streams st) = Some a"
  shows "cm_Get (e_streams E) k (st_streams (streams_CheckAlive E now st)) = None" and "st_gos (streams_CheckAlive E now st) = st_gos st"
    and "st_objs (streams_CheckAlive E now st) ! a = st_objs st ! a"
  using CheckAlive_removes [OF assms(1,2), where items = "cm_Items (e_streams E) (st_streams st)" and k = k] assms(3)
  by (simp_all add: streams_CheckAlive_def sm.items_iff)

end

text \<open>
  A player that comes before its publisher is lost. A stream is made for it, but the player is not added to it: neither the publisher that comes
  for the stream afterwards nor anyone else knows of it, and the next check removes the stream again.
\<close>

theorem player_before_publisher:
  assumes env: "stream_env E" and info: "w_Info (e_w E) (st_writers st wa) = info" and none: "cm_Get (e_streams E) (Key info) (st_streams st) = None"
    and key: "Key (r_Info (e_r E) (st_readers st ra)) = Key info"
  shows "let st1 = HandleWriter E wa st; a = length (st_objs st); st2 = HandleReader E ra st1 in
     cm_Get (e_streams E) (Key info) (st_streams st1) = Some a \<and> st_writers st1 = st_writers st \<and> st_gos st1 = st_gos st \<and>
     cm_Get (e_streams E) (Key info) (st_streams (streams_CheckAlive E now st1)) = None \<and>
     cm_Get (e_streams E) (Key info) (st_streams st2) = Some a \<and> s_r (st_objs st2 ! a) = Some ra \<and> (\<forall>k. cm_Get (e_ws E) k (s_ws (st_objs st2 ! a)) = None)"
proof -
  note sm = concurrent_map.get_set [OF stream_env.axioms(1) [OF env]] and wm = concurrent_map.get_new [OF stream_env.axioms(2) [OF env]]
  define st1 s where "st1 = HandleWriter E wa st" and "s = (NewStream E)\<lparr>s_info := info\<rparr>"
  have st1: "st_objs st1 = st_objs st @ [s]" "st_streams st1 = cm_Set (e_streams E) (Key info) (length (st_objs st)) (st_streams st)"
      "st_writers st1 = st_writers st" "st_readers st1 = st_readers st" "st_gos st1 = st_gos st"
    using info none by (simp_all add: st1_def s_def HandleWriter_def Let_def)
  have g: "cm_Get (e_streams E) (Key info) (st_streams st1) = Some (length (st_objs st))" by (simp add: st1 sm)
  have s: "s_ws s = cm_New (e_ws E)" "\<not> isStart s" "s_r s = None" by (simp_all add: s_def NewStream_def)
  have "cm_Get (e_streams E) (Key info) (st_streams (streams_CheckAlive E now st1)) = None"
    by (rule stream_env.check_removes_idle [OF env _ _ g]) (use s in \<open>simp_all add: st1\<close>)
  moreover have "TransStop E s (st_readers st) = (s, st_readers st)" using s by (simp add: TransStop_def)
  then have "st_objs (HandleReader E ra st1) = st_objs st @ [s\<lparr>s_r := Some ra\<rparr>]" "st_streams (HandleReader E ra st1) = st_streams st1"
    using key g s(3) unfolding HandleReader_def by (simp_all add: st1 stream_ID_def AddReader_def Let_def)
  ultimately show ?thesis
    using g s st1 wm unfolding st1_def [symmetric] by simp
qed

text \<open>An empty server, with readers of different ids and one writer, all of one key.\<close>

definition demo_empty :: "((bytes \<times> nat) list, (bytes \<times> PackWriterCloser) list, Info \<times> packet list, Info \<times> packet list) Streams" where
  "demo_empty = NewStreams script_env (\<lambda>a. (demo_info (word_of_nat (Suc a)), [])) (\<lambda>_. (demo_info 9, []))"

lemma demo_empty:
  "r_Info (e_r script_env) (st_readers demo_empty 0) = demo_info 1" "r_Info (e_r script_env) (st_readers demo_empty 1) = demo_info 2"
  "w_Info (e_w script_env) (st_writers demo_empty 0) = demo_info 9" "cm_Get (e_streams script_env) k (st_streams demo_empty) = None"
  "Key (demo_info u) = gostr ''live/movie''" "st_objs demo_empty = []" "st_gos demo_empty = []"
  by (simp_all add: demo_empty_def NewStreams_def script_env_def script_reader_def record_writer_def demo_info_def alist_map_def)

theorem player_before_publisher_witness:
  "cm_Get (e_streams script_env) (gostr ''live/movie'') (st_streams (streams_CheckAlive script_env 0 (HandleWriter script_env 0 demo_empty))) = None \<and>
   cm_Get (e_ws script_env) [9] (s_ws (st_objs (HandleReader script_env 0 (HandleWriter script_env 0 demo_empty)) ! 0)) = None"
  using player_before_publisher [OF script.stream_env_axioms demo_empty(3,4), of 0 0] by (simp add: demo_empty Let_def del: One_nat_def)

text \<open>
  The flag \<^verbatim>\<open>isStart\<close> is set by the goroutine and not by \<^verbatim>\<open>AddReader\<close>. Before the goroutine of a publisher has begun, a check removes its stream, which
  then plays on unseen; and a second publisher leaves the first one open: the goroutine of the first then begins all the same and reads on, for a
  stream that is in the map under no key.
\<close>

theorem publisher_start_window:
  assumes env: "stream_env E" and ok: "streams_ok E st" and info: "r_Info (e_r E) (st_readers st ra) = info"
    and none: "cm_Get (e_streams E) (Key info) (st_streams st) = None"
    and rb: "Key (r_Info (e_r E) (st_readers st rb)) = Key info" "UID info \<notin> {[], UID (r_Info (e_r E) (st_readers st rb))}"
  shows "let a = length (st_objs st); i = length (st_gos st); st1 = HandleReader E ra st; checked = streams_CheckAlive E now st1;
       st2 = HandleReader E rb st1; st3 = TransStart_begin i st2
     in cm_Get (e_streams E) (Key info) (st_streams checked) = None \<and> st_gos checked = st_gos st1 \<and> g_stream (st_gos st1 ! i) = a \<and>
        s_r (st_objs checked ! a) = Some ra \<and>
        st_readers st2 = st_readers st \<and> isStart (st_objs st3 ! a) \<and> s_r (st_objs st3 ! a) = Some ra \<and> (\<forall>k. cm_Get (e_streams E) k (st_streams st3) \<noteq> Some a)"
proof -
  note sm = concurrent_map.get_set [OF stream_env.axioms(1) [OF env]] and items = stream_env.items_new [OF env]
  define st1 a i s where "st1 = HandleReader E ra st" and "a = length (st_objs st)" and "i = length (st_gos st)"
    and "s = (NewStream E)\<lparr>s_info := info, s_r := Some ra\<rparr>"
  have st1: "st_objs st1 = st_objs st @ [s]" "st_streams st1 = cm_Set (e_streams E) (Key info) a (st_streams st)" "st_readers st1 = st_readers st"
      "st_gos st1 = st_gos st @ [\<lparr>g_stream = a, g_phase = Spawned, g_p = zeroPacket\<rparr>]" "st_writers st1 = st_writers st"
    using info none by (simp_all add: st1_def HandleReader_def AddReader_def Let_def s_def a_def)
  have g: "cm_Get (e_streams E) (Key info) (st_streams st1) = Some a" by (simp add: st1 sm)
  have so: "st_objs st1 ! a = s" by (simp add: st1 a_def)
  have s: "s_ws s = cm_New (e_ws E)" "\<not> isStart s" "s_r s = Some ra" by (simp_all add: s_def NewStream_def)
  note c = stream_env.check_removes_idle [OF env _ _ g, unfolded so, OF s(1,2)]
  define st2 where "st2 = HandleReader E rb st1"
  have "TransStop E s (st_readers st) = (s, st_readers st)" using s by (simp add: TransStop_def s_def NewStream_def)
  moreover have "stream_ID E (st_readers st) s = UID info" using info by (simp add: stream_ID_def s_def)
  ultimately have st2: "st_objs st2 = st_objs st @ [s, (NewStream E)\<lparr>s_r := Some rb\<rparr>]" "st_readers st2 = st_readers st"
      "st_gos st2 ! i = \<lparr>g_stream = a, g_phase = Spawned, g_p = zeroPacket\<rparr>" "st_streams st2 = cm_Set (e_streams E) (Key info) (Suc a) (st_streams st1)"
    using rb g s(1) items unfolding st2_def HandleReader_def
    by (auto simp add: st1 so Copy_def AddReader_def NewStream_def Let_def a_def i_def nth_append list_update_append s_def)
  have b: "cm_Get (e_streams E) k (st_streams st) \<noteq> Some a" for k
    using ok by (auto simp: streams_ok_def a_def)
  have "isStart (st_objs (TransStart_begin i st2) ! a)" "s_r (st_objs (TransStart_begin i st2) ! a) = Some ra"
    "\<And>k. cm_Get (e_streams E) k (st_streams (TransStart_begin i st2)) \<noteq> Some a"
    using st2 b by (auto simp: TransStart_begin_def Let_def st1 sm a_def nth_append s_def split: if_splits)
  then show ?thesis
    using c s(3) st1(4) st2(2) unfolding Let_def st1_def [symmetric] a_def [symmetric] i_def [symmetric] st2_def [symmetric]
    by (simp add: nth_append i_def)
qed

theorem publisher_start_window_witness:
  "cm_Get (e_streams script_env) (gostr ''live/movie'') (st_streams (streams_CheckAlive script_env 0 (HandleReader script_env 0 demo_empty))) = None \<and>
   isStart (st_objs (TransStart_begin 0 (HandleReader script_env 1 (HandleReader script_env 0 demo_empty))) ! 0)"
proof -
  have "streams_ok script_env demo_empty" unfolding demo_empty_def by (rule script.ok_reachable [OF reachable.initial])
  moreover have "UID (demo_info 1) \<notin> {[], UID (demo_info 2)}" by (simp add: demo_info_def)
  ultimately show ?thesis
    using publisher_start_window [OF script.stream_env_axioms _ demo_empty(1,4), of 1 0] by (simp add: demo_empty Let_def del: One_nat_def)
qed

end
