(* ===== verification/EndToEnd.thy ===== *)
theory EndToEnd
  imports StreamRounds
begin

text \<open>
  The way of the media through the server: from the connection of a publisher through its reader, the stream and the queue of a player to the
  connection of the player. It joins the wire format (\<open>RtmpServer\<close>), the rounds of the stream (\<open>StreamRounds\<close>) and the queue (\<open>Queue\<close>).
\<close>

section \<open>Packets with shifted time stamps\<close>

lemma DemuxH_shifted: "DemuxH p = Inr p \<Longrightarrow> DemuxH (shifted base p) = Inr (shifted base p)"
  by (cases p) (auto simp: DemuxH_def shifted_def bindR_def split: if_splits sum.splits prod.splits)

lemma media_shifted [simp]: "media_packet p \<Longrightarrow> media_packet (shifted base p)"
  using DemuxH_shifted [of p base] by (simp add: media_packet_def) (simp add: shifted_def)

lemma media_all_shifted: "list_all media_packet ps \<Longrightarrow> list_all media_packet (map (shifted base) ps)"
  by (auto simp: list_all_iff)

lemma media_demuxed: "media_packet p \<Longrightarrow> demuxed p"
  by (cases p) (auto simp: media_packet_def demuxed_def DemuxH_def bindR_def split: if_splits sum.splits prod.splits)

lemma shifted_shifted [simp]: "shifted b (shifted a p) = shifted (a + b) p"
  by (simp add: shifted_def ac_simps)

section \<open>Into the stream\<close>

lemma vir_reader_delivers:
  assumes "list_all media_packet ps" and "list_all clock ts" and "length ts = length ps"
    and "vr_ok k (packets_bytes k base ps @ rest) r"
  shows "delivers (vir_reader parse) ts p0 r (map (shifted base) ps)"
  using assms
proof (induction ps arbitrary: ts r p0)
  case (Cons p ps)
  obtain now ts' where ts: "ts = now # ts'" using Cons.prems(3) by (cases ts) auto
  obtain r1 where r1: "vr_Read now p0 r = (None, shifted base p, r1)" "vr_ok k (packets_bytes k base ps @ rest) r1"
    using vr_Read_media [of p now _ base k "packets_bytes k base ps @ rest" r p0, OF _ _ refl] Cons.prems ts
    by (auto simp: packets_bytes_def)
  with Cons.IH [OF _ _ _ r1(2), of ts' "shifted base p"] Cons.prems ts media_demuxed [of "shifted base p"] show ?case
    by (auto simp: vir_reader_def)
qed simp

section \<open>Into the queue of a player\<close>

text \<open>A player that keeps up: its queue is open and there is room for \<open>n\<close> packets.\<close>

definition keeps_up :: "nat \<Rightarrow> VirWriter \<Rightarrow> bool" where
  "keeps_up n v \<longleftrightarrow> \<not> vw_closed v \<and> queue_ok rtmp_maxQueueNum (vw_packetQueue v) \<and> length (ch_buf (vw_packetQueue v)) + n \<le> rtmp_maxQueueNum - 24"

definition queued :: "packet list \<Rightarrow> VirWriter \<Rightarrow> VirWriter" where
  "queued ps v = v\<lparr>vw_packetQueue := (vw_packetQueue v)\<lparr>ch_buf := ch_buf (vw_packetQueue v) @ ps\<rparr>\<rparr>"

lemma vw_Write_queued:
  assumes "keeps_up (Suc n) v" and "one_kind p"
  shows "vw_Write p v = retB (queued [p] v) \<and> keeps_up n (queued [p] v)"
proof -
  have "enqueue rtmp_maxQueueNum rtmp_DropPacket p (vw_packetQueue v) = retB ((vw_packetQueue v)\<lparr>ch_buf := ch_buf (vw_packetQueue v) @ [p]\<rparr>)"
    using assms(1) by (intro rtmpq.enqueue_sends) (auto simp: keeps_up_def)
  then show ?thesis using assms by (auto simp: vw_Write_def recoverB_def keeps_up_def queued_def queue_ok_def)
qed

lemma send_all_queued:
  assumes "keeps_up (length ps) v" and "list_all one_kind ps"
  shows "send_all (w_Write (vir_writer parse)) ps v = (None, queued ps v)"
  using assms
proof (induction ps arbitrary: v)
  case (Cons p ps)
  have "vw_Write p v = retB (queued [p] v)" "keeps_up (length ps) (queued [p] v)" using vw_Write_queued [of "length ps" v p] Cons.prems by auto
  with Cons.IH [of "queued [p] v"] Cons.prems show ?case by (auto simp: vir_writer_def queued_def)
qed (simp add: queued_def)

lemma media_one_kind: "list_all media_packet ps \<Longrightarrow> list_all one_kind ps"
  by (auto simp: list_all_iff media_packet_def one_kind_def)

section \<open>From the publisher's writer to the player's queue\<close>

lemma publisher_to_queue:
  assumes "playing (rtmp_env parse gop apps net) st i hist ra" and "player (rtmp_env parse gop apps net) st i key v" and "pw_init v"
    and "list_all media_packet ps" and "list_all clock ts" and "length ts = length ps"
    and "vr_ok k (packets_bytes k base ps @ rest) (st_readers st ra)" and "keeps_up (length ps) (st_writers st (pw_w v))"
  shows "\<exists>st'. TransStart_rounds (rtmp_env parse gop apps net) ts i st = retB st' \<and>
     st_writers st' (pw_w v) = queued (map (shifted base) ps) (st_writers st (pw_w v))"
proof -
  let ?E = "rtmp_env parse gop apps net"
  have e: "e_r ?E = vir_reader parse" "e_w ?E = vir_writer parse" by (simp_all add: rtmp_env_def)
  have d: "delivers (e_r ?E) ts (g_p (st_gos st ! i)) (st_readers st ra) (map (shifted base) ps)"
    unfolding e by (rule vir_reader_delivers [OF assms(4-7)])
  have "send_all (w_Write (e_w ?E)) (map (shifted base) ps) (st_writers st (pw_w v)) = (None, queued (map (shifted base) ps) (st_writers st (pw_w v)))"
    unfolding e using assms(8) by (intro send_all_queued media_one_kind media_all_shifted [OF assms(4)]) simp
  from rtmp.playing_rounds [OF assms(1) d assms(2)] this assms(3) show ?thesis by fastforce
qed

lemma queue_to_player:
  assumes "vw_ok w" and "list_all media_packet ps" and "list_all clock ts" and "length ts = length ps"
    and "list_all clock ts'" and "length ts' = length ps" and "vr_ok (vw_k w) [] r"
  shows "\<exists>w' bs. vw_SendPackets (zip ts ps) False w = (None, w') \<and> vw_stream w' = vw_stream w @ bs \<and>
     (\<forall>rest. \<exists>r'. vr_Reads ts' p0 (deliver (bs @ rest) r) = (None, map (shifted (BaseTimestamp (vw_rw w))) ps, r') \<and> cs_input (vr_conn r') = rest)"
proof -
  let ?b = "BaseTimestamp (vw_rw w)"
  let ?bs = "packets_bytes (vw_k w) ?b ps"
  have z: "map snd (zip ts ps) = ps" "map fst (zip ts ps) = ts" using assms(4) by simp_all
  obtain w' where w: "vw_SendPackets (zip ts ps) False w = (None, w')" "vw_stream w' = vw_stream w @ ?bs"
    using vw_SendPackets_media [OF assms(1), of "zip ts ps"] assms(2,3) unfolding z by blast
  have "\<exists>r'. vr_Reads ts' p0 (deliver (?bs @ rest) r) = (None, map (shifted ?b) ps, r') \<and> cs_input (vr_conn r') = rest" for rest
    using vr_Reads_media [OF assms(2,5,6) deliver_ok [OF assms(7)]] by (fastforce simp: vr_ok_def)
  with w show ?thesis by blast
qed

text \<open>A stream with a publisher whose connection has delivered \<open>bs\<close>, and one player.\<close>

definition demo_rtmp :: "((bytes \<times> nat) list, (bytes \<times> PackWriterCloser) list, VirReader, VirWriter) env" where
  "demo_rtmp = rtmp_env Inr 1 [] \<lparr>net_Parse = \<lambda>_. Inl (Err NetError), net_Dial = \<lambda>_. Inl (Err NetError), net_Range = id\<rparr>"

definition demo_playing :: "bytes \<Rightarrow> ((bytes \<times> nat) list, (bytes \<times> PackWriterCloser) list, VirReader, VirWriter) Streams" where
  "demo_playing bs =
     \<lparr>st_streams = [(gostr ''live/movie'', 0)],
      st_objs = [(NewStream demo_rtmp)\<lparr>isStart := True, s_r := Some 0, s_ws := [([7], \<lparr>pw_init = True, pw_w = 0\<rparr>)]\<rparr>],
      st_readers = \<lambda>_. deliver bs (NewVirReader 0 10 [] sample_conn), st_writers = \<lambda>_. NewVirWriter 0 10 [] sample_conn,
      st_pushes = Map.empty, st_gos = [\<lparr>g_stream = 0, g_phase = Looping, g_p = zeroPacket\<rparr>]\<rparr>"

lemma demo_playing:
  "playing demo_rtmp (demo_playing bs) 0 [] 0" "player demo_rtmp (demo_playing bs) 0 [7] \<lparr>pw_init = True, pw_w = 0\<rparr>"
  "st_readers (demo_playing bs) 0 = deliver bs (NewVirReader 0 10 [] sample_conn)" "st_writers (demo_playing bs) 0 = NewVirWriter 0 10 [] sample_conn"
  by (auto simp: playing_def player_def demo_playing_def demo_rtmp_def rtmp_env_def NewStream_def alist_map_def push_urls_def zeroInfo_def
      GetStaticPushList_def split: if_splits)

lemma new_writer_keeps_up: "n \<le> 1000 \<Longrightarrow> keeps_up n (NewVirWriter now t uid c)"
  by (simp add: keeps_up_def NewVirWriter_def queue_ok_def make_chan_def)

end
