(* ===== verification/Paths.thy ===== *)
theory Paths
  imports Prelude
begin

text \<open>
  What the HTTP handlers and the recorder use of the packages \<^verbatim>\<open>strings\<close>, \<^verbatim>\<open>path\<close> and \<^verbatim>\<open>net/http\<close> of the standard library to take a path apart, to join and to clean it. A slash is the byte 47,
  a dot the byte 46.
\<close>

section \<open>Definitions\<close>

text \<open>\<^verbatim>\<open>u[strings.LastIndex(u, "."):]\<close>, \<^verbatim>\<open>strings.TrimSuffix\<close>, \<^verbatim>\<open>strings.TrimLeft(u, "/")\<close> and \<^verbatim>\<open>strings.SplitN(path, "/", 2)\<close>.\<close>

definition from_last_dot :: "bytes \<Rightarrow> bytes option" where
  "from_last_dot u = (if 46 \<in> set u then Some (46 # rev (takeWhile (\<lambda>b. b \<noteq> 46) (rev u))) else None)"

definition trim_suffix :: "bytes \<Rightarrow> bytes \<Rightarrow> bytes" where
  "trim_suffix s x = (if x \<noteq> [] \<and> drop (length s - length x) s = x then take (length s - length x) s else s)"

definition trim_slash :: "bytes \<Rightarrow> bytes" where
  "trim_slash u = dropWhile (\<lambda>b. b = 47) u"

definition splitN2 :: "bytes \<Rightarrow> (bytes \<times> bytes) option" where
  "splitN2 path = (if 47 \<in> set path then Some (takeWhile (\<lambda>b. b \<noteq> 47) path, tl (dropWhile (\<lambda>b. b \<noteq> 47) path)) else None)"

text \<open>\<^verbatim>\<open>strings.SplitN(path, "/", 3)\<close>, when it has three parts.\<close>

definition splitN3 :: "bytes \<Rightarrow> (bytes \<times> bytes \<times> bytes) option" where
  "splitN3 path = (case splitN2 path of
     None \<Rightarrow> None
   | Some (a, rest) \<Rightarrow> (case splitN2 rest of None \<Rightarrow> None | Some (b, c) \<Rightarrow> Some (a, b, c)))"

text \<open>\<^verbatim>\<open>path.Ext\<close> and \<^verbatim>\<open>path.Base\<close>.\<close>

definition path_Ext :: "bytes \<Rightarrow> bytes" where
  "path_Ext u = (case from_last_dot (rev (takeWhile (\<lambda>b. b \<noteq> 47) (rev u))) of None \<Rightarrow> [] | Some x \<Rightarrow> x)"

definition path_Base :: "bytes \<Rightarrow> bytes" where
  "path_Base u =
     (if u = [] then gostr ''.''
      else let v = rev (dropWhile (\<lambda>b. b = 47) (rev u))
           in if v = [] then gostr ''/'' else rev (takeWhile (\<lambda>b. b \<noteq> 47) (rev v)))"

text \<open>\<^verbatim>\<open>strings.Split(s, sep)[0]\<close> for a separator that is not empty: what comes before its first occurrence.\<close>

fun before_first :: "bytes \<Rightarrow> bytes \<Rightarrow> bytes" where
  "before_first sep [] = []"
| "before_first sep (b # s) = (if take (length sep) (b # s) = sep then [] else b # before_first sep s)"

text \<open>\<^verbatim>\<open>path.Join\<close>: the parts that are not empty, joined and cleaned.\<close>

fun split_slash :: "bytes \<Rightarrow> bytes list" where
  "split_slash [] = [[]]"
| "split_slash (b # u) = (if b = 47 then [] # split_slash u else case split_slash u of [] \<Rightarrow> [[b]] | x # xs \<Rightarrow> (b # x) # xs)"

fun join_slash :: "bytes list \<Rightarrow> bytes" where
  "join_slash [] = []"
| "join_slash [x] = x"
| "join_slash (x # xs) = x @ gostr ''/'' @ join_slash xs"

fun clean_parts :: "bool \<Rightarrow> bytes list \<Rightarrow> bytes list \<Rightarrow> bytes list" where
  "clean_parts rooted acc [] = rev acc"
| "clean_parts rooted acc (x # xs) =
     clean_parts rooted
       (if x = [] \<or> x = gostr ''.'' then acc
        else if x = gostr ''..'' then (case acc of
            [] \<Rightarrow> if rooted then [] else [x]
          | y # ys \<Rightarrow> if y = gostr ''..'' then x # acc else ys)
        else x # acc) xs"

definition path_Clean :: "bytes \<Rightarrow> bytes" where
  "path_Clean u =
     (if u = [] then gostr ''.''
      else let rooted = (hd u = 47); v = join_slash (clean_parts rooted [] (split_slash u))
           in if rooted then gostr ''/'' @ v else if v = [] then gostr ''.'' else v)"

definition path_Join :: "bytes \<Rightarrow> bytes \<Rightarrow> bytes" where
  "path_Join a b =
     (if a = [] \<and> b = [] then [] else if a = [] then path_Clean b else if b = [] then path_Clean a else path_Clean (a @ gostr ''/'' @ b))"

text \<open>The clean form of a path to which \<^verbatim>\<open>http.ServeMux\<close> redirects a request.\<close>

definition mux_clean :: "bytes \<Rightarrow> bytes" where
  "mux_clean p =
     (if p = [] then gostr ''/''
      else let p = (if hd p = 47 then p else 47 # p); np = path_Clean p
           in if last p = 47 \<and> np \<noteq> gostr ''/'' then np @ gostr ''/'' else np)"

section \<open>Paths of the shape that the program makes\<close>

lemma from_last_dot_flv: "from_last_dot (x @ gostr ''.flv'') = Some (gostr ''.flv'')"
  by (simp add: from_last_dot_def gostr_def)

lemma trim_suffix_append: "y \<noteq> [] \<Longrightarrow> trim_suffix (x @ y) y = x"
  by (simp add: trim_suffix_def)

lemma splitN2_slash: "47 \<notin> set app \<Longrightarrow> splitN2 (app @ 47 # title) = Some (app, title)"
  by (auto simp: splitN2_def takeWhile_append dropWhile_append)

lemma splitN3_slash: "47 \<notin> set app \<Longrightarrow> 47 \<notin> set title \<Longrightarrow> splitN3 (app @ 47 # title @ 47 # name) = Some (app, title, name)"
  by (simp add: splitN3_def splitN2_slash)

lemma trim_slashes: "app \<noteq> [] \<Longrightarrow> 47 \<notin> set app \<Longrightarrow> trim_slash (replicate n 47 @ app @ x) = app @ x"
  unfolding trim_slash_def by (induction n) (cases app; auto)+

lemma path_Ext_append: "47 \<notin> set x \<Longrightarrow> 46 \<notin> set x \<Longrightarrow> path_Ext (u @ 46 # x) = 46 # x"
  by (auto simp: path_Ext_def from_last_dot_def takeWhile_append)

lemma path_Base_append: "47 \<notin> set x \<Longrightarrow> x \<noteq> [] \<Longrightarrow> path_Base (u @ 47 # x) = x"
  by (cases x rule: rev_cases) (auto simp: path_Base_def Let_def takeWhile_append)

lemma path_Base_last: "path_Base (u @ [b]) = x \<Longrightarrow> b \<noteq> 47 \<Longrightarrow> last x = b"
  by (auto simp: path_Base_def Let_def)

lemma before_first_end:
  "sep \<noteq> [] \<Longrightarrow> hd sep \<notin> set s \<Longrightarrow> before_first sep (s @ sep) = s"
proof (induction s)
  case Nil
  then show ?case by (cases sep) auto
next
  case (Cons b s)
  then show ?case by (cases sep) auto
qed

end
