(* ===== verification/Base64.thy ===== *)
theory Base64
  imports Prelude
begin

text \<open>
  \<^verbatim>\<open>encoding/base64\<close> of the standard library, with padding, as the identifiers of \<^verbatim>\<open>utils/uid\<close> and the JSON form of byte slices use it, and a
  decoder as its specification. An encoding is given by its alphabet of 64 characters.
\<close>

section \<open>Encoding\<close>

definition b64_std :: bytes where
  "b64_std = gostr ''ABCDEFGHIJKLMNOPQRSTUVWXYZabcdefghijklmnopqrstuvwxyz0123456789+/''"

definition b64_url :: bytes where
  "b64_url = gostr ''ABCDEFGHIJKLMNOPQRSTUVWXYZabcdefghijklmnopqrstuvwxyz0123456789-_''"

text \<open>The four groups of six bits of three bytes.\<close>

definition sextets :: "byte \<Rightarrow> byte \<Rightarrow> byte \<Rightarrow> nat list" where
  "sextets a b c =
     [unat a div 4, unat a mod 4 * 16 + unat b div 16, unat b mod 16 * 4 + unat c div 64, unat c mod 64]"

fun b64_encode :: "bytes \<Rightarrow> bytes \<Rightarrow> bytes" where
  "b64_encode al [] = []"
| "b64_encode al [a] = map ((!) al) (take 2 (sextets a 0 0)) @ [61, 61]"
| "b64_encode al [a, b] = map ((!) al) (take 3 (sextets a b 0)) @ [61]"
| "b64_encode al (a # b # c # bs) = map ((!) al) (sextets a b c) @ b64_encode al bs"

section \<open>Decoding\<close>

fun position :: "'a \<Rightarrow> 'a list \<Rightarrow> nat" where
  "position x [] = 0"
| "position x (y # ys) = (if x = y then 0 else Suc (position x ys))"

definition octets :: "nat \<Rightarrow> nat \<Rightarrow> nat \<Rightarrow> nat \<Rightarrow> bytes" where
  "octets p q r s = [word_of_nat (p * 4 + q div 16), word_of_nat (q mod 16 * 16 + r div 4), word_of_nat (r mod 4 * 64 + s)]"

fun b64_decode :: "bytes \<Rightarrow> bytes \<Rightarrow> bytes" where
  "b64_decode al (w # x # y # z # bs) =
     (let p = position w al; q = position x al; r = position y al; s = position z al
      in if y = 61 then take 1 (octets p q 0 0) else if z = 61 then take 2 (octets p q r 0) else octets p q r s @ b64_decode al bs)"
| "b64_decode al _ = []"

section \<open>Decoding inverts encoding\<close>

text \<open>An alphabet: 64 different characters other than the padding.\<close>

definition alphabet :: "bytes \<Rightarrow> bool" where
  "alphabet al \<longleftrightarrow> length al = 64 \<and> distinct al \<and> 61 \<notin> set al"

lemma alphabetI: "length al = 64 \<Longrightarrow> distinct (map unat al) \<Longrightarrow> 61 \<notin> unat ` set al \<Longrightarrow> alphabet al"
  by (force simp: alphabet_def distinct_map)

lemma alphabet_std: "alphabet b64_std"
  by (rule alphabetI) (simp_all add: b64_std_def gostr_def)

lemma alphabet_url: "alphabet b64_url"
  by (rule alphabetI) (simp_all add: b64_url_def gostr_def)

lemma position_nth: "distinct al \<Longrightarrow> i < length al \<Longrightarrow> position (al ! i) al = i"
proof (induction al arbitrary: i)
  case (Cons y ys)
  then show ?case by (cases i) auto
qed simp

lemma unat_byte_less: "unat (a :: byte) < 256"
proof -
  have "unat a < 2 ^ LENGTH(8)" by (rule unsigned_less)
  then show ?thesis by simp
qed

lemma sextets_less: "i \<in> set (sextets a b c) \<Longrightarrow> i < 64"
  using unat_byte_less [of a] unat_byte_less [of b] unat_byte_less [of c] by (auto simp: sextets_def)

lemma octets_sextets:
  "sextets a b c = [p, q, r, s] \<Longrightarrow> octets p q r s = [a, b, c]"
proof -
  have div: "x div n * n + x mod n = (x :: nat)" for x n by simp
  assume "sextets a b c = [p, q, r, s]"
  then have s: "p = unat a div 4" "q = unat a mod 4 * 16 + unat b div 16" "r = unat b mod 16 * 4 + unat c div 64" "s = unat c mod 64"
    by (auto simp: sextets_def)
  have "unat b div 16 < 16" "unat c div 64 < 4" using unat_byte_less [of b] unat_byte_less [of c] by auto
  then have "p * 4 + q div 16 = unat a" "q mod 16 * 16 + r div 4 = unat b" "r mod 4 * 64 + s = unat c"
    unfolding s by (simp_all add: div)
  then show ?thesis by (simp add: octets_def)
qed

lemma b64_char:
  assumes "alphabet al" and "i < 64"
  shows "position (al ! i) al = i" and "al ! i \<noteq> 61"
  using assms by (auto simp: alphabet_def position_nth) (metis nth_mem)

lemma b64_group:
  assumes "alphabet al" and "sextets a b c = [p, q, r, s]"
  shows "map ((!) al) (sextets a b c) = [al ! p, al ! q, al ! r, al ! s]" and "position (al ! p) al = p" "position (al ! q) al = q"
    "position (al ! r) al = r" "position (al ! s) al = s" "al ! r \<noteq> 61" "al ! s \<noteq> 61"
  using b64_char [OF assms(1) sextets_less, of _ a b c] by (auto simp: assms(2))

lemma sextets_four: obtains p q r s where "sextets a b c = [p, q, r, s]"
  by (simp add: sextets_def)

lemma sextets_zero: "sextets a 0 0 = [p, q, r, s] \<Longrightarrow> r = 0 \<and> s = 0" "sextets a b 0 = [p, q, r, s] \<Longrightarrow> s = 0"
  by (auto simp: sextets_def)

lemma b64_decode_encode:
  assumes "alphabet al"
  shows "b64_decode al (b64_encode al bs) = bs"
  using assms
proof (induction al bs rule: b64_encode.induct [case_names nil one two many])
  case (one al a)
  obtain p q r s where s: "sextets a 0 0 = [p, q, r, s]" by (rule sextets_four)
  with octets_sextets [OF s] sextets_zero(1) [OF s] b64_group(1-3) [OF one s] show ?case by simp
next
  case (two al a b)
  obtain p q r s where s: "sextets a b 0 = [p, q, r, s]" by (rule sextets_four)
  with octets_sextets [OF s] sextets_zero(2) [OF s] b64_group [OF two s] show ?case by simp
next
  case (many al a b c bs)
  obtain p q r s where s: "sextets a b c = [p, q, r, s]" by (rule sextets_four)
  with octets_sextets [OF s] b64_group [OF many.prems s] many show ?case by simp
qed simp

lemma b64_encode_inject:
  assumes "alphabet al"
  shows "b64_encode al xs = b64_encode al ys \<longleftrightarrow> xs = ys"
  using b64_decode_encode [OF assms] by metis

lemma sextet_chars: "alphabet al \<Longrightarrow> set (map ((!) al) (take n (sextets a b c))) \<subseteq> set al"
  by (auto simp: alphabet_def dest!: in_set_takeD sextets_less)

lemma length_sextets: "length (sextets a b c) = 4"
  by (simp add: sextets_def)

lemma b64_encode_length: "length (b64_encode al bs) = (length bs + 2) div 3 * 4"
proof (induction al bs rule: b64_encode.induct [case_names nil one two many])
  case (many al a b c bs)
  have "length (b64_encode al (a # b # c # bs)) = 4 + (length bs + 2) div 3 * 4" using many by (simp add: length_sextets)
  moreover have "(n + 3 + 2) div 3 * 4 = 4 + (n + 2) div 3 * (4 :: nat)" for n using div_add_self2 [of 3 "n + 2"] by simp
  from this [of "length bs"] have "(length (a # b # c # bs) + 2) div 3 * 4 = 4 + (length bs + 2) div 3 * 4" by simp
  ultimately show ?case by simp
qed (simp_all add: length_sextets)

lemma b64_encode_subset:
  assumes "alphabet al"
  shows "set (b64_encode al bs) \<subseteq> insert 61 (set al)"
  using assms
proof (induction al bs rule: b64_encode.induct [case_names nil one two many])
  case (one al a)
  with sextet_chars [OF one, of 2 a 0 0] show ?case by auto
next
  case (two al a b)
  with sextet_chars [OF two, of 3 a b 0] show ?case by auto
next
  case (many al a b c bs)
  with sextet_chars [OF many.prems, of 4 a b c] show ?case by (auto simp: length_sextets)
qed simp

lemma b64_encode_chars:
  assumes "alphabet al" and "length bs mod 3 = 0"
  shows "set (b64_encode al bs) \<subseteq> set al"
  using assms
proof (induction al bs rule: b64_encode.induct [case_names nil one two many])
  case (many al a b c bs)
  have "length bs mod 3 = 0" using many.prems(2) by simp
  with many.IH many.prems(1) sextet_chars [OF many.prems(1), of 4 a b c] show ?case by (simp add: length_sextets)
qed simp_all

end
