(* ===== verification/Json.thy ===== *)
theory Json
  imports Base64
begin

text \<open>
  What the HTTP answers use of \<^verbatim>\<open>encoding/json\<close> of the standard library: \<^verbatim>\<open>json.Marshal\<close> of null, unsigned numbers, strings, slices and structs, with the
  escapes of the Go release named in \<^verbatim>\<open>go.mod\<close> (1.13, with HTML escaping), and a reader of JSON text as its specification. A string is any sequence of bytes; what is
  not UTF-8 in it is written as the replacement character U+FFFD.
\<close>

section \<open>UTF-8\<close>

text \<open>The size of the rune at the head of a string, as \<^verbatim>\<open>utf8.DecodeRuneInString\<close> accepts it; zero when there is none.\<close>

definition between :: "nat \<Rightarrow> nat \<Rightarrow> byte \<Rightarrow> bool" where
  "between lo hi b \<longleftrightarrow> lo \<le> unat b \<and> unat b \<le> hi"

definition second3 :: "byte \<Rightarrow> byte \<Rightarrow> bool" where
  "second3 b b1 \<longleftrightarrow> between 0xE0 0xEF b \<and> between (if b = 0xE0 then 0xA0 else 0x80) (if b = 0xED then 0x9F else 0xBF) b1"

definition second4 :: "byte \<Rightarrow> byte \<Rightarrow> bool" where
  "second4 b b1 \<longleftrightarrow> between 0xF0 0xF4 b \<and> between (if b = 0xF0 then 0x90 else 0x80) (if b = 0xF4 then 0x8F else 0xBF) b1"

definition rune_len :: "bytes \<Rightarrow> nat" where
  "rune_len bs = (case bs of
     b # r \<Rightarrow> if between 0 0x7F b then 1
       else (case r of
         b1 # r1 \<Rightarrow> if between 0xC2 0xDF b \<and> between 0x80 0xBF b1 then 2
           else (case r1 of
             b2 # r2 \<Rightarrow> if second3 b b1 \<and> between 0x80 0xBF b2 then 3
               else (case r2 of
                 b3 # r3 \<Rightarrow> if second4 b b1 \<and> between 0x80 0xBF b2 \<and> between 0x80 0xBF b3 then 4 else 0
               | [] \<Rightarrow> 0)
           | [] \<Rightarrow> 0)
       | [] \<Rightarrow> 0)
   | [] \<Rightarrow> 0)"

lemma rune_len_le: "rune_len bs \<le> length bs"
  by (auto simp: rune_len_def split: list.splits)

text \<open>A string with what is not UTF-8 replaced.\<close>

function to_valid :: "bytes \<Rightarrow> bytes" where
  "to_valid [] = []"
| "to_valid (b # bs) =
     (let n = rune_len (b # bs)
      in if n = 0 then [0xEF, 0xBF, 0xBD] @ to_valid bs else take n (b # bs) @ to_valid (drop n (b # bs)))"
  by pat_completeness auto
termination by (relation "measure length") auto

declare to_valid.simps(2) [simp del]

section \<open>Writing\<close>

datatype json = JNull | JNum nat | JStr bytes | JArr "json list" | JObj "(bytes \<times> json) list"

definition hex_digit :: "nat \<Rightarrow> byte" where
  "hex_digit n = (if n < 10 then word_of_nat (48 + n) else word_of_nat (87 + n))"

definition escape_ascii :: "byte \<Rightarrow> bytes" where
  "escape_ascii b =
     (if 32 \<le> unat b \<and> b \<notin> {34, 92, 60, 62, 38} then [b]
      else if b = 34 \<or> b = 92 then [92, b]
      else if b = 10 then [92, 110] else if b = 13 then [92, 114] else if b = 9 then [92, 116]
      else [92, 117, 48, 48, hex_digit (unat b div 16), hex_digit (unat b mod 16)])"

function json_escape :: "bytes \<Rightarrow> bytes" where
  "json_escape [] = []"
| "json_escape (b # bs) =
     (let n = rune_len (b # bs); r = take n (b # bs)
      in if between 0 0x7F b then escape_ascii b @ json_escape bs
         else if n = 0 then (92 # gostr ''ufffd'') @ json_escape bs
         else (if r = [0xE2, 0x80, 0xA8] \<or> r = [0xE2, 0x80, 0xA9] then 92 # gostr ''u202'' @ [hex_digit (unat (last r) mod 16)] else r) @
           json_escape (drop n (b # bs)))"
  by pat_completeness auto
termination by (relation "measure length") auto

declare json_escape.simps(2) [simp del]

definition json_string :: "bytes \<Rightarrow> bytes" where
  "json_string s = 34 # json_escape s @ [34]"

fun json_Marshal :: "json \<Rightarrow> bytes" and json_elems :: "json list \<Rightarrow> bytes" and json_members :: "(bytes \<times> json) list \<Rightarrow> bytes" where
  "json_Marshal JNull = gostr ''null''"
| "json_Marshal (JNum n) = decimal n"
| "json_Marshal (JStr s) = json_string s"
| "json_Marshal (JArr xs) = 91 # json_elems xs @ [93]"
| "json_Marshal (JObj kvs) = 123 # json_members kvs @ [125]"
| "json_elems [] = []"
| "json_elems (x # xs) = json_Marshal x @ (if xs = [] then [] else 44 # json_elems xs)"
| "json_members [] = []"
| "json_members ((k, v) # kvs) = json_string k @ 58 # json_Marshal v @ (if kvs = [] then [] else 44 # json_members kvs)"

text \<open>A slice that nothing was appended to is nil, and becomes null.\<close>

definition slice_json :: "('a \<Rightarrow> json) \<Rightarrow> 'a list \<Rightarrow> json" where
  "slice_json f xs = (if xs = [] then JNull else JArr (map f xs))"

text \<open>An answer over HTTP that a handler writes whole.\<close>

record http_reply =
  rp_status :: nat
  rp_ContentType :: bytes
  rp_body :: bytes

section \<open>Reading\<close>

definition hex_val :: "byte \<Rightarrow> nat" where
  "hex_val b = (if unat b \<le> 57 then unat b - 48 else unat b - 87)"

text \<open>The UTF-8 form of a code point below 2^16.\<close>

definition rune_bytes :: "nat \<Rightarrow> bytes" where
  "rune_bytes c =
     (if c < 0x80 then [word_of_nat c]
      else if c < 0x800 then [word_of_nat (0xC0 + c div 64), word_of_nat (0x80 + c mod 64)]
      else [word_of_nat (0xE0 + c div 4096), word_of_nat (0x80 + c div 64 mod 64), word_of_nat (0x80 + c mod 64)])"

definition unescape :: "byte \<Rightarrow> byte" where
  "unescape c = (if c = 110 then 10 else if c = 114 then 13 else if c = 116 then 9 else if c = 98 then 8 else if c = 102 then 12 else c)"

text \<open>The rest of a string behind its opening quote, and what follows the closing one.\<close>

definition prepend :: "'a list \<Rightarrow> ('a list \<times> 'b) option \<Rightarrow> ('a list \<times> 'b) option" where
  "prepend xs r = map_option (\<lambda>(ys, z). (xs @ ys, z)) r"

fun read_string :: "bytes \<Rightarrow> (bytes \<times> bytes) option" where
  "read_string [] = None"
| "read_string (b # bs) =
     (if b = 34 then Some ([], bs)
      else if b = 92
      then (case bs of
              [] \<Rightarrow> None
            | c # r \<Rightarrow>
                if c = 117
                then (case r of
                        h1 # h2 # h3 # h4 # r \<Rightarrow>
                          prepend (rune_bytes (4096 * hex_val h1 + 256 * hex_val h2 + 16 * hex_val h3 + hex_val h4)) (read_string r)
                      | _ \<Rightarrow> None)
                else prepend [unescape c] (read_string r))
      else prepend [b] (read_string bs))"

definition digit :: "byte \<Rightarrow> bool" where
  "digit b \<longleftrightarrow> between 48 57 b"

fun json_read :: "nat \<Rightarrow> bytes \<Rightarrow> (json \<times> bytes) option"
  and read_elems :: "nat \<Rightarrow> bytes \<Rightarrow> (json list \<times> bytes) option"
  and read_members :: "nat \<Rightarrow> bytes \<Rightarrow> ((bytes \<times> json) list \<times> bytes) option" where
  "json_read 0 bs = None"
| "json_read (Suc n) [] = None"
| "json_read (Suc n) (b # bs) =
     (if b = 34 then map_option (\<lambda>(s, r). (JStr s, r)) (read_string bs)
      else if b = 91 then (if take 1 bs = [93] then Some (JArr [], drop 1 bs) else map_option (\<lambda>(xs, r). (JArr xs, r)) (read_elems n bs))
      else if b = 123 then (if take 1 bs = [125] then Some (JObj [], drop 1 bs) else map_option (\<lambda>(xs, r). (JObj xs, r)) (read_members n bs))
      else if digit b then Some (JNum (undecimal (takeWhile digit (b # bs))), dropWhile digit bs)
      else if take 4 (b # bs) = gostr ''null'' then Some (JNull, drop 3 bs)
      else None)"
| "read_elems 0 bs = None"
| "read_elems (Suc n) bs =
     (case json_read n bs of
        Some (v, c # r) \<Rightarrow> if c = 44 then prepend [v] (read_elems n r) else if c = 93 then Some ([v], r) else None
      | _ \<Rightarrow> None)"
| "read_members 0 bs = None"
| "read_members (Suc n) bs =
     (if take 1 bs \<noteq> [34] then None
      else case read_string (drop 1 bs) of
             Some (k, c # r) \<Rightarrow>
               if c \<noteq> 58 then None
               else (case json_read n r of
                       Some (v, c # r) \<Rightarrow> if c = 44 then prepend [(k, v)] (read_members n r) else if c = 125 then Some ([(k, v)], r) else None
                     | _ \<Rightarrow> None)
           | _ \<Rightarrow> None)"

text \<open>A text that is one JSON value. The fuel is twice the length: every level costs a character.\<close>

definition json_parse :: "bytes \<Rightarrow> json option" where
  "json_parse bs = (case json_read (2 * length bs) bs of Some (v, []) \<Rightarrow> Some v | _ \<Rightarrow> None)"

section \<open>Strings come back\<close>

lemma read_plain:
  assumes "list_all (\<lambda>b. b \<noteq> 34 \<and> b \<noteq> 92) xs"
  shows "read_string (xs @ bs) = prepend xs (read_string bs)"
  using assms
proof (induction xs)
  case Nil
  show ?case by (cases "read_string bs") (auto simp: prepend_def)
next
  case (Cons x xs)
  then have "read_string (x # xs @ bs) = prepend [x] (prepend xs (read_string bs))" by simp
  also have "\<dots> = prepend (x # xs) (read_string bs)" by (cases "read_string bs") (auto simp: prepend_def)
  finally show ?case by simp
qed

lemma hex_val_digit: "n < 16 \<Longrightarrow> hex_val (hex_digit n) = n"
proof -
  assume "n < 16"
  then have "unat (word_of_nat (48 + n) :: byte) = 48 + n" "unat (word_of_nat (87 + n) :: byte) = 87 + n"
    by (simp_all add: unsigned_of_nat take_bit_nat_eq_self_iff del: of_nat_add)
  then show ?thesis by (simp add: hex_val_def hex_digit_def)
qed

lemma read_escape:
  "c \<noteq> 117 \<Longrightarrow> read_string (92 # c # bs) = prepend [unescape c] (read_string bs)"
  "read_string (92 # 117 # h1 # h2 # h3 # h4 # bs) =
     prepend (rune_bytes (4096 * hex_val h1 + 256 * hex_val h2 + 16 * hex_val h3 + hex_val h4)) (read_string bs)"
  by simp_all

lemma read_escape_ascii:
  assumes "between 0 0x7F b"
  shows "read_string (escape_ascii b @ bs) = prepend [b] (read_string bs)"
proof -
  consider "32 \<le> unat b \<and> b \<notin> {34, 92, 60, 62, 38}" | "b = 34 \<or> b = 92" | "b = 10 \<or> b = 13 \<or> b = 9"
    | "\<not> (32 \<le> unat b \<and> b \<notin> {34, 92, 60, 62, 38})" "\<not> (b = 34 \<or> b = 92)" "\<not> (b = 10 \<or> b = 13 \<or> b = 9)"
    by blast
  then show ?thesis
  proof cases
    case 4
    then have e: "escape_ascii b = [92, 117, 48, 48, hex_digit (unat b div 16), hex_digit (unat b mod 16)]" by (simp add: escape_ascii_def)
    have "hex_val 48 = 0" by (simp add: hex_val_def)
    moreover have "unat b div 16 < 16" "unat b mod 16 < 16" "unat b < 0x80" using assms by (auto simp: between_def)
    ultimately show ?thesis unfolding e append_Cons append_Nil read_escape by (simp add: hex_val_digit rune_bytes_def)
  qed (auto simp: escape_ascii_def unescape_def)
qed

lemma rune_len_high:
  assumes "\<not> between 0 0x7F b" and "x \<in> set (take (rune_len (b # bs)) (b # bs))"
  shows "x \<noteq> 34 \<and> x \<noteq> 92"
proof -
  have "between 0x80 0xFF x"
    using assms by (auto simp: rune_len_def between_def second3_def second4_def split: list.splits if_splits)
  then show ?thesis by (auto simp: between_def)
qed

lemma read_line_separator:
  "read_string (92 # gostr ''u202'' @ hex_digit 8 # bs) = prepend [0xE2, 0x80, 0xA8] (read_string bs)"
  "read_string (92 # gostr ''u202'' @ hex_digit 9 # bs) = prepend [0xE2, 0x80, 0xA9] (read_string bs)"
  "read_string (92 # gostr ''ufffd'' @ bs) = prepend [0xEF, 0xBF, 0xBD] (read_string bs)"
  by (simp_all add: gostr_def hex_val_def hex_digit_def rune_bytes_def)

lemma read_quote [simp]: "read_string (34 # rest) = Some ([], rest)"
  by simp

declare read_string.simps(2) [simp del]

lemma read_json_escape: "read_string (json_escape s @ 34 # rest) = Some (to_valid s, rest)"
proof (induction s rule: json_escape.induct)
  case (2 b bs)
  let ?n = "rune_len (b # bs)" and ?t = "34 # rest"
  let ?r = "take ?n (b # bs)"
  consider (ascii) "between 0 0x7F b" | (bad) "\<not> between 0 0x7F b" "?n = 0" | (rune) "\<not> between 0 0x7F b" "?n \<noteq> 0" by blast
  then show ?case
  proof cases
    case ascii
    then have "?n = 1" by (simp add: rune_len_def)
    with ascii 2(1) [OF refl refl ascii] show ?thesis by (simp add: json_escape.simps to_valid.simps read_escape_ascii prepend_def)
  next
    case bad
    with 2(2) [OF refl refl bad] show ?thesis
      by (simp add: json_escape.simps to_valid.simps read_line_separator prepend_def)
  next
    case rune
    note IH = 2(3) [OF refl refl rune]
    have v: "to_valid (b # bs) = ?r @ to_valid (drop ?n (b # bs))" using rune by (simp add: to_valid.simps Let_def)
    show ?thesis
    proof (cases "?r = [0xE2, 0x80, 0xA8] \<or> ?r = [0xE2, 0x80, 0xA9]")
      case True
      then have "read_string (json_escape (b # bs) @ ?t) = prepend ?r (read_string (json_escape (drop ?n (b # bs)) @ ?t))"
        using rune by (elim disjE) (simp_all add: json_escape.simps Let_def read_line_separator)
      with IH v show ?thesis by (simp add: prepend_def)
    next
      case False
      have "read_string (?r @ json_escape (drop ?n (b # bs)) @ ?t) = prepend ?r (read_string (json_escape (drop ?n (b # bs)) @ ?t))"
        using rune_len_high [OF rune(1)] by (intro read_plain) (auto simp: list_all_iff)
      with IH v False rune show ?thesis by (simp add: json_escape.simps Let_def prepend_def)
    qed
  qed
qed simp

section \<open>Values come back\<close>

text \<open>A value with its strings made valid, and the depth of the recursion of its reader.\<close>

fun json_valid :: "json \<Rightarrow> json" and valid_elems :: "json list \<Rightarrow> json list" and valid_members :: "(bytes \<times> json) list \<Rightarrow> (bytes \<times> json) list" where
  "json_valid JNull = JNull"
| "json_valid (JNum n) = JNum n"
| "json_valid (JStr s) = JStr (to_valid s)"
| "json_valid (JArr xs) = JArr (valid_elems xs)"
| "json_valid (JObj kvs) = JObj (valid_members kvs)"
| "valid_elems [] = []"
| "valid_elems (x # xs) = json_valid x # valid_elems xs"
| "valid_members [] = []"
| "valid_members ((k, v) # kvs) = (to_valid k, json_valid v) # valid_members kvs"

fun json_depth :: "json \<Rightarrow> nat" and elems_depth :: "json list \<Rightarrow> nat" and members_depth :: "(bytes \<times> json) list \<Rightarrow> nat" where
  "json_depth (JArr xs) = Suc (elems_depth xs)"
| "json_depth (JObj kvs) = Suc (members_depth kvs)"
| "json_depth _ = 1"
| "elems_depth [] = 0"
| "elems_depth (x # xs) = Suc (max (json_depth x) (elems_depth xs))"
| "members_depth [] = 0"
| "members_depth ((k, v) # kvs) = Suc (max (json_depth v) (members_depth kvs))"

lemma decimal_digits: "list_all digit (decimal n) \<and> decimal n \<noteq> []"
proof (induction n rule: decimal.induct)
  case (1 n)
  have "digit (word_of_nat (48 + d))" if "d < 10" for d using that by (simp add: digit_def between_def del: of_nat_add)
  from this [of n] this [of "n mod 10"] 1 show ?case by (auto simp: decimal.simps [of n] simp del: of_nat_add)
qed

lemma digit_bytes: "digit b \<Longrightarrow> b \<noteq> 34 \<and> b \<noteq> 91 \<and> b \<noteq> 93 \<and> b \<noteq> 123 \<and> b \<noteq> 125"
  by (auto simp: digit_def between_def)

definition no_digit :: "bytes \<Rightarrow> bool" where
  "no_digit rest \<longleftrightarrow> (\<forall>b r. rest = b # r \<longrightarrow> \<not> digit b)"

lemma no_digit_simps [simp]: "no_digit []" "no_digit (44 # r)" "no_digit (93 # r)" "no_digit (125 # r)"
  by (simp_all add: no_digit_def digit_def between_def)

lemma span_digits:
  assumes "list_all digit ds" and "no_digit rest"
  shows "takeWhile digit (ds @ rest) = ds \<and> dropWhile digit (ds @ rest) = rest"
  using assms by (induction ds) (cases rest; auto simp: no_digit_def)+

lemma json_read_decimal:
  assumes "no_digit rest"
  shows "json_read (Suc n) (decimal m @ rest) = Some (JNum m, rest)"
proof -
  obtain d ds where d: "decimal m = d # ds" "list_all digit (d # ds)" using decimal_digits [of m] by (metis list.exhaust)
  have "undecimal (d # ds) = m" using d(1) undecimal_decimal [of m] by simp
  with d span_digits [OF d(2) assms] digit_bytes [of d] show ?thesis by auto
qed

lemma Marshal_head:
  obtains b r where "json_Marshal j = b # r" and "b \<noteq> 93"
proof (cases j)
  case (JNum n)
  with that decimal_digits [of n] digit_bytes show ?thesis by (cases "decimal n") auto
qed (auto simp: json_string_def gostr_def intro: that)

lemma read_members_Cons:
  "read_members (Suc n) (json_string k @ 58 # bs) =
     (case json_read n bs of
        Some (v, c # r) \<Rightarrow> if c = 44 then prepend [(to_valid k, v)] (read_members n r) else if c = 125 then Some ([(to_valid k, v)], r) else None
      | _ \<Rightarrow> None)"
  by (simp add: json_string_def read_json_escape)

declare read_members.simps(2) [simp del]

lemma json_read_Marshal:
  "json_depth j \<le> n \<Longrightarrow> no_digit rest \<Longrightarrow> json_read n (json_Marshal j @ rest) = Some (json_valid j, rest)"
  "xs \<noteq> [] \<Longrightarrow> elems_depth xs \<le> n \<Longrightarrow> read_elems n (json_elems xs @ 93 # rest) = Some (valid_elems xs, rest)"
  "kvs \<noteq> [] \<Longrightarrow> members_depth kvs \<le> n \<Longrightarrow> read_members n (json_members kvs @ 125 # rest) = Some (valid_members kvs, rest)"
proof (induction j and xs and kvs arbitrary: n rest and n rest and n rest rule: json_Marshal_json_elems_json_members.induct)
  case 1
  then show ?case by (cases n) (simp_all add: gostr_def digit_def between_def)
next
  case (2 m)
  then show ?case using json_read_decimal by (cases n) auto
next
  case (3 s)
  then show ?case by (cases n) (simp_all add: json_string_def read_json_escape)
next
  case (4 xs)
  then obtain k where n: "n = Suc k" by (cases n) auto
  show ?case
  proof (cases xs)
    case (Cons x ys)
    obtain b r where "json_Marshal x = b # r" "b \<noteq> 93" by (rule Marshal_head)
    with 4 n Cons show ?thesis by simp
  qed (simp add: n)
next
  case (5 kvs)
  then obtain k where n: "n = Suc k" by (cases n) auto
  show ?case
  proof (cases kvs)
    case (Cons x ys)
    then obtain r where "json_members kvs = 34 # r" by (cases x) (auto simp: json_string_def)
    with 5 n Cons show ?thesis by simp
  qed (simp add: n)
next
  case (7 x xs)
  then obtain k where n: "n = Suc k" by (cases n) auto
  show ?case
  proof (cases "xs = []")
    case True
    with 7(1) [of k "93 # rest"] 7(4) n show ?thesis by simp
  next
    case False
    have "read_elems k (json_elems xs @ 93 # rest) = Some (valid_elems xs, rest)" using 7(2,4) n False by simp
    with 7(1) [of k "44 # json_elems xs @ 93 # rest"] 7(4) n False show ?thesis by (simp add: prepend_def)
  qed
next
  case (9 k v kvs)
  then obtain m where n: "n = Suc m" by (cases n) auto
  show ?case
  proof (cases "kvs = []")
    case True
    with 9(1) [of m "125 # rest"] 9(4) n show ?thesis by (simp add: read_members_Cons)
  next
    case False
    have "read_members m (json_members kvs @ 125 # rest) = Some (valid_members kvs, rest)" using 9(2,4) n False by simp
    with 9(1) [of m "44 # json_members kvs @ 125 # rest"] 9(4) n False show ?thesis by (simp add: read_members_Cons prepend_def)
  qed
qed simp_all

lemma json_depth_length:
  "json_depth j \<le> 2 * length (json_Marshal j)"
  "elems_depth xs \<le> 2 * length (json_elems xs) + 1"
  "members_depth kvs \<le> 2 * length (json_members kvs)"
proof (induction j and xs and kvs rule: json_Marshal_json_elems_json_members.induct)
  case (2 n)
  then show ?case using decimal_digits [of n] by (cases "decimal n") simp_all
qed (auto simp: json_string_def gostr_def)

text \<open>
  A JSON text that is written, read as JSON, gives the value it was made of, with everything that is not UTF-8 in its strings replaced: no string, a quote or a control
  character in it included, changes the structure of the text.
\<close>

lemma parse_Marshal: "json_parse (json_Marshal j) = Some (json_valid j)"
  using json_read_Marshal(1) [OF json_depth_length(1), of "[]"] by (simp add: json_parse_def)

section \<open>Valid strings\<close>

lemma ascii_valid: "list_all (between 0 0x7F) s \<Longrightarrow> to_valid s = s"
  by (induction s) (simp_all add: to_valid.simps rune_len_def)

end
