(* ===== verification/HttpFlv.thy ===== *)
theory HttpFlv
  imports FlvMuxer StreamRounds Paths Json
begin

text \<open>
  \<^verbatim>\<open>src/protocol/httpflv\<close>: players over HTTP, which get a stream as an endless FLV file. \<^verbatim>\<open>writer.go\<close> has the writer of one player, with its queue and
  the goroutine that empties it, and \<^verbatim>\<open>server.go\<close> the requests.

  The response is a \<open>sink\<close>. The channel \<^verbatim>\<open>closedChan\<close>, on which the handler of the request waits, is only ever closed: it is the flag \<open>hw_done\<close>.
\<close>

section \<open>writer.go\<close>

record HttpWriter =
  hw_rw :: RWBase
  hw_uid :: bytes
  hw_app :: bytes
  hw_title :: bytes
  hw_url :: bytes
  hw_buf :: bytes
  hw_closed :: bool
  hw_done :: bool
  hw_ctx :: sink
  hw_packetQueue :: "packet chan"

text \<open>\<^verbatim>\<open>NewWriter\<close>: the errors of the two writes are discarded.\<close>

definition NewHttpWriter :: "int \<Rightarrow> bytes \<Rightarrow> bytes \<Rightarrow> bytes \<Rightarrow> bytes \<Rightarrow> sink \<Rightarrow> HttpWriter res" where
  "NewHttpWriter now newID app title url ctx =
     bindR (put_range PutI32BE (replicate headerLen 0) 0 4 0) (\<lambda>buf.
       Inr \<lparr>hw_rw = NewRWBase now (10 * 1000000000), hw_uid = newID, hw_app = app, hw_title = title, hw_url = url, hw_buf = buf, hw_closed = False,
         hw_done = False, hw_ctx = snd (sink_Write (take 4 buf) (snd (sink_Write [0x46, 0x4c, 0x56, 0x01, 0x05, 0x00, 0x00, 0x00, 0x09] ctx))),
         hw_packetQueue = make_chan flv_maxQueueNum\<rparr>)"

definition hw_Write :: "packet \<Rightarrow> HttpWriter \<Rightarrow> HttpWriter blk" where
  "hw_Write p w =
     (if hw_closed w then Some (Inl (Err (Errorf ''flvwrite source closed'')))
      else bindB (recoverB ''FLVWriter has already been closed:'' (enqueue flv_maxQueueNum flv_DropPacket p (hw_packetQueue w)))
             (\<lambda>c. retB (w\<lparr>hw_packetQueue := c\<rparr>)))"

text \<open>
  One packet of the loop of \<^verbatim>\<open>SendPacket\<close>. The packets of the queue are values: that the source stores the rewritten metadata in the packet, where another
  holder of the pointer sees it, is not part of this model.
\<close>

definition hw_SendPacket :: "int \<Rightarrow> packet \<Rightarrow> HttpWriter \<Rightarrow> exn option \<times> HttpWriter" where
  "hw_SendPacket now p w =
     (let w = w\<lparr>hw_rw := SetPreTime now (hw_rw w)\<rparr>
      in case (if IsVideo p then Inr (TagVideo, pkt_Data p)
               else if IsMetadata p then bindR (MetaDataReform (pkt_Data p) DEL) (\<lambda>d. Inr (TagScriptDataAMF0, d))
               else Inr (TagAudio, pkt_Data p)) of
           Inl e \<Rightarrow> (Some e, w)
         | Inr (typeID, d) \<Rightarrow>
             (let timestamp = TimeStamp p + BaseTimestamp (hw_rw w);
                  w = w\<lparr>hw_rw := RecTimestamp timestamp typeID (hw_rw w)\<rparr>
              in case putTagHeader typeID (length d) timestamp (hw_buf w) of
                   Inl e \<Rightarrow> (Some e, w)
                 | Inr h \<Rightarrow>
                     (case sink_Write h (hw_ctx w) of
                        (Some e, k) \<Rightarrow> (Some (Err e), w\<lparr>hw_buf := h, hw_ctx := k\<rparr>)
                      | (None, k) \<Rightarrow>
                          (case sink_Write d k of
                             (Some e, k) \<Rightarrow> (Some (Err e), w\<lparr>hw_buf := h, hw_ctx := k\<rparr>)
                           | (None, k) \<Rightarrow>
                               (case put_range PutI32BE h 0 4 (word_of_nat (length d + headerLen)) of
                                  Inl e \<Rightarrow> (Some e, w\<lparr>hw_buf := h, hw_ctx := k\<rparr>)
                                | Inr h \<Rightarrow>
                                    (case sink_Write (take 4 h) k of
                                       (Some e, k) \<Rightarrow> (Some (Err e), w\<lparr>hw_buf := h, hw_ctx := k\<rparr>)
                                     | (None, k) \<Rightarrow> (None, w\<lparr>hw_buf := h, hw_ctx := k\<rparr>)))))))"

text \<open>The loop, over the packets that the channel delivers, each with the time it is sent; behind them the channel is closed or empty.\<close>

fun hw_SendPackets :: "(int \<times> packet) list \<Rightarrow> bool \<Rightarrow> HttpWriter \<Rightarrow> exn option \<times> HttpWriter" where
  "hw_SendPackets [] chClosed w = (if chClosed then Some (Err (Errorf ''closed'')) else None, w)"
| "hw_SendPackets ((now, p) # ps) chClosed w = then_do (hw_SendPacket now p w) (hw_SendPackets ps chClosed)"

text \<open>The goroutine around it, in \<^verbatim>\<open>NewWriter\<close>. An error marks the writer as closed, but closes neither channel.\<close>

definition hw_sender :: "(int \<times> packet) list \<Rightarrow> bool \<Rightarrow> HttpWriter \<Rightarrow> HttpWriter" where
  "hw_sender ps chClosed w =
     (case hw_SendPackets ps chClosed w of (Some (Err _), w) \<Rightarrow> w\<lparr>hw_closed := True\<rparr> | (_, w) \<Rightarrow> w)"

definition hw_Close :: "HttpWriter \<Rightarrow> HttpWriter res" where
  "hw_Close w =
     bindR (if \<not> hw_closed w
            then bindR (chan_close (hw_packetQueue w)) (\<lambda>c.
                   if hw_done w then Inl (Panic ClosedChannel) else Inr (w\<lparr>hw_packetQueue := c, hw_done := True\<rparr>))
            else Inr w) (\<lambda>w. Inr (w\<lparr>hw_closed := True\<rparr>))"

definition hw_Info :: "HttpWriter \<Rightarrow> Info" where
  "hw_Info w = \<lparr>Key = hw_app w @ gostr ''/'' @ hw_title w, URL = hw_url w, UID = hw_uid w, Inter = True\<rparr>"

section \<open>server.go\<close>

record flv_stream =
  fs_Key :: bytes
  fs_ID :: bytes

record flv_streams =
  fs_Publishers :: "flv_stream list"
  fs_Players :: "flv_stream list"

definition getStreams :: "('s, 'm, 'r, 'w) env \<Rightarrow> ('s, 'm, 'r, 'w) Streams \<Rightarrow> flv_streams" where
  "getStreams E st =
     \<lparr>fs_Publishers = concat (map (\<lambda>(key, a).
        case s_r (st_objs st ! a) of
          Some ra \<Rightarrow> [\<lparr>fs_Key = key, fs_ID = UID (r_Info (e_r E) (st_readers st ra))\<rparr>]
        | None \<Rightarrow> []) (cm_Items (e_streams E) (st_streams st))),
      fs_Players = concat (map (\<lambda>(key, a).
        map (\<lambda>(k, v). \<lparr>fs_Key = key, fs_ID = UID (w_Info (e_w E) (st_writers st (pw_w v)))\<rparr>) (cm_Items (e_ws E) (s_ws (st_objs st ! a))))
        (cm_Items (e_streams E) (st_streams st)))\<rparr>"

text \<open>
  The answer to a request: an error with its status, or a new player. It gets the address \<open>wa\<close>; \<open>mk\<close> makes a writer of the heap of it. The panic of the
  handler, if any, is recovered.
\<close>

datatype flv_reply = HttpError nat | Player HttpWriter

definition flv_request :: "('s, 'm, 'r, 'w) env \<Rightarrow> int \<Rightarrow> bytes \<Rightarrow> bytes \<Rightarrow> bytes \<Rightarrow> sink \<Rightarrow> ('s, 'm, 'r, 'w) Streams \<Rightarrow> flv_reply res" where
  "flv_request E now newID url u ctx st =
     (if from_last_dot u \<noteq> Some (gostr ''.flv'') then Inr (HttpError 400)
      else let path = trim_suffix (trim_slash u) (gostr ''.flv'')
           in case splitN2 path of
                None \<Rightarrow> Inr (HttpError 400)
              | Some (app, title) \<Rightarrow>
                  if \<not> list_ex (\<lambda>item. fs_Key item = path) (fs_Publishers (getStreams E st)) then Inr (HttpError 404)
                  else bindR (NewHttpWriter now newID app title url ctx) (\<lambda>w. Inr (Player w)))"

definition flv_handleConn ::
    "('s, 'm, 'r, 'w) env \<Rightarrow> (HttpWriter \<Rightarrow> 'w) \<Rightarrow> int \<Rightarrow> bytes \<Rightarrow> bytes \<Rightarrow> bytes \<Rightarrow> sink \<Rightarrow> nat \<Rightarrow> ('s, 'm, 'r, 'w) Streams \<Rightarrow>
     flv_reply option \<times> ('s, 'm, 'r, 'w) Streams" where
  "flv_handleConn E mk now newID url u ctx wa st =
     (case flv_request E now newID url u ctx st of
        Inl _ \<Rightarrow> (None, st)
      | Inr (HttpError n) \<Rightarrow> (Some (HttpError n), st)
      | Inr (Player w) \<Rightarrow> (Some (Player w), HandleWriter E wa (st\<lparr>st_writers := (st_writers st)(wa := mk w)\<rparr>)))"

text \<open>The list of the streams as JSON. The handler of the streams is never nil.\<close>

definition flv_stream_json :: "flv_stream \<Rightarrow> json" where
  "flv_stream_json s = JObj [(gostr ''key'', JStr (fs_Key s)), (gostr ''id'', JStr (fs_ID s))]"

definition flv_streams_json :: "flv_streams \<Rightarrow> json" where
  "flv_streams_json s =
     JObj [(gostr ''publishers'', slice_json flv_stream_json (fs_Publishers s)), (gostr ''players'', slice_json flv_stream_json (fs_Players s))]"

definition getStream :: "('s, 'm, 'r, 'w) env \<Rightarrow> ('s, 'm, 'r, 'w) Streams \<Rightarrow> http_reply" where
  "getStream E st = \<lparr>rp_status = 200, rp_ContentType = gostr ''application/json'', rp_body = json_Marshal (flv_streams_json (getStreams E st))\<rparr>"

text \<open>The routes of \<^verbatim>\<open>Serve\<close>.\<close>

datatype flv_answer = FlvMoved bytes | FlvList http_reply | FlvReply "flv_reply option"

definition flv_Serve ::
    "('s, 'm, 'r, 'w) env \<Rightarrow> (HttpWriter \<Rightarrow> 'w) \<Rightarrow> int \<Rightarrow> bytes \<Rightarrow> bytes \<Rightarrow> bytes \<Rightarrow> sink \<Rightarrow> nat \<Rightarrow> ('s, 'm, 'r, 'w) Streams \<Rightarrow>
     flv_answer \<times> ('s, 'm, 'r, 'w) Streams" where
  "flv_Serve E mk now newID url path ctx wa st =
     (if mux_clean path \<noteq> path then (FlvMoved (mux_clean path), st)
      else if path = gostr ''/streams'' then (FlvList (getStream E st), st)
      else case flv_handleConn E mk now newID url path ctx wa st of (r, st) \<Rightarrow> (FlvReply r, st))"

lemma streams_listed:
  "json_parse (rp_body (getStream E st)) = Some (json_valid (flv_streams_json (getStreams E st)))"
  by (simp add: getStream_def parse_Marshal)

section \<open>The response is an FLV file\<close>

text \<open>The part of the state that the recorder of \<open>FlvMuxer\<close> has as well.\<close>

definition as_file :: "HttpWriter \<Rightarrow> FlvWriter" where
  "as_file w = \<lparr>fw_base = hw_rw w, fw_app = hw_app w, fw_title = hw_title w, fw_url = hw_url w, fw_uid = hw_uid w, fw_buf = hw_buf w,
     fw_ctx = hw_ctx w, fw_closed = False\<rparr>"

lemma hw_SendPacket_flv:
  "\<exists>p'. flv_Write now p (as_file w) = (fst (hw_SendPacket now p w), p', as_file (snd (hw_SendPacket now p w)))"
proof -
  note defs = flv_Write_def hw_SendPacket_def as_file_def tagPayload_def [symmetric] Let_def
  show ?thesis
  proof (cases "tagPayload p")
    case (Inl e)
    then show ?thesis by (simp add: defs)
  next
    case (Inr td)
    obtain ty d where t: "tagPayload p = Inr (ty, d)" using Inr by (cases td) simp
    define ts where "ts = TimeStamp p + BaseTimestamp (SetPreTime now (hw_rw w))"
    show ?thesis
    proof (cases "putTagHeader ty (length d) ts (hw_buf w)")
      case (Inl e)
      then show ?thesis using t by (simp add: defs ts_def [symmetric])
    next
      case h: (Inr h)
      obtain e1 k1 where k1: "sink_Write h (hw_ctx w) = (e1, k1)" by force
      obtain e2 k2 where k2: "sink_Write d k1 = (e2, k2)" by force
      show ?thesis
      proof (cases "put_range PutI32BE h 0 4 (word_of_nat (length d + headerLen))")
        case (Inl e)
        then show ?thesis using t h k1 k2 by (cases e1; cases e2) (simp_all add: defs ts_def [symmetric])
      next
        case h2: (Inr h2)
        obtain e3 k3 where k3: "sink_Write (take 4 h2) k2 = (e3, k3)" by force
        show ?thesis using t h k1 k2 h2 k3 by (cases e1; cases e2; cases e3) (simp_all add: defs ts_def [symmetric])
      qed
    qed
  qed
qed

lemma hw_SendPackets_flv:
  "flv_Write_all ps (as_file w) = (fst (hw_SendPackets ps False w), as_file (snd (hw_SendPackets ps False w)))"
proof (induction ps arbitrary: w)
  case (Cons np ps)
  obtain now p where np: "np = (now, p)" by force
  obtain e w1 where s: "hw_SendPacket now p w = (e, w1)" by force
  then obtain p' where "flv_Write now p (as_file w) = (e, p', as_file w1)" using hw_SendPacket_flv [of now p w] by auto
  with Cons.IH [of w1] s np show ?case by (auto simp: then_do_def split: option.splits)
qed simp

lemma NewHttpWriter_file:
  "\<exists>w. NewHttpWriter now newID app title url ctx = Inr w \<and> NewWriter now newID app title url ctx = Inr (as_file w) \<and> hw_Info w = \<lparr>Key = app @ gostr ''/'' @ title, URL = url, UID = newID, Inter = True\<rparr>"
  using i32.put_range_eq [of 0 4 "replicate headerLen 0" 0]
  by (auto simp: NewHttpWriter_def NewWriter_def as_file_def flvHeader_def hw_Info_def Let_def)

text \<open>
  C22: what an HTTP player is sent is, byte for byte, the file that the recorder writes for the same packets at the same times: for every sequence of packets, and up to the same
  error when the connection, or the disk, takes no more bytes or a metadata packet cannot be read.
\<close>

theorem http_flv_is_file:
  "\<exists>w f. NewHttpWriter now newID app title url ctx = Inr w \<and> NewWriter now newID app title url ctx = Inr f \<and>
     (case hw_SendPackets ps False w of (e, w') \<Rightarrow> case flv_Write_all ps f of (e', f') \<Rightarrow> e = e' \<and> hw_ctx w' = fw_ctx f')"
proof -
  obtain w where w: "NewHttpWriter now newID app title url ctx = Inr w" "NewWriter now newID app title url ctx = Inr (as_file w)"
    using NewHttpWriter_file by blast
  moreover have "case hw_SendPackets ps False w of (e, w') \<Rightarrow> case flv_Write_all ps (as_file w) of (e', f') \<Rightarrow> e = e' \<and> hw_ctx w' = fw_ctx f'"
    using hw_SendPackets_flv [of ps w] by (simp add: as_file_def split: prod.splits)
  ultimately show ?thesis by (intro exI conjI)
qed

section \<open>Requests\<close>

lemma published_key:
  assumes "concurrent_map (e_streams E)"
  shows "list_ex (\<lambda>item. fs_Key item = k) (fs_Publishers (getStreams E st)) \<longleftrightarrow>
     (\<exists>a. cm_Get (e_streams E) k (st_streams st) = Some a \<and> s_r (st_objs st ! a) \<noteq> None)"
proof -
  let ?f = "\<lambda>(key, a). case s_r (st_objs st ! a) of Some ra \<Rightarrow> [\<lparr>fs_Key = key, fs_ID = UID (r_Info (e_r E) (st_readers st ra))\<rparr>] | None \<Rightarrow> []"
  have "list_ex (\<lambda>item. fs_Key item = k) (?f x) \<longleftrightarrow> fst x = k \<and> s_r (st_objs st ! snd x) \<noteq> None" for x
    by (cases x) (simp split: option.splits)
  then have "list_ex (\<lambda>item. fs_Key item = k) (concat (map ?f xs)) \<longleftrightarrow> (\<exists>x \<in> set xs. fst x = k \<and> s_r (st_objs st ! snd x) \<noteq> None)" for xs
    by (induction xs) (simp_all add: list_ex_append)
  note ex = this
  have "fs_Publishers (getStreams E st) = concat (map ?f (cm_Items (e_streams E) (st_streams st)))" by (simp add: getStreams_def)
  then show ?thesis unfolding ex by (simp add: ex Bex_def split_paired_Ex concurrent_map.items_iff [OF assms])
qed

text \<open>
  C23: a request for \<^verbatim>\<open>/app/title.flv\<close> is served exactly when \<^verbatim>\<open>app/title\<close> has a publisher. Then the player is among the writers of that stream, under its own id and with
  nothing sent to it yet; else the answer is 404 and nothing changes. A path that does not end in \<^verbatim>\<open>.flv\<close> is a bad request.
\<close>

theorem flv_player_admitted:
  assumes env: "stream_env E" and mk: "\<And>w. w_Info (e_w E) (mk w) = hw_Info w" and app: "app \<noteq> []" "47 \<notin> set app"
    and ok: "streams_ok E st" and u: "u = replicate n 47 @ app @ 47 # title @ gostr ''.flv''" and key: "key = app @ gostr ''/'' @ title"
  shows "(case cm_Get (e_streams E) key (st_streams st) of
       Some a \<Rightarrow> if s_r (st_objs st ! a) \<noteq> None
         then \<exists>w st'. flv_handleConn E mk now newID url u ctx wa st = (Some (Player w), st') \<and> st_writers st' wa = mk w \<and>
           cm_Get (e_ws E) newID (s_ws (st_objs st' ! a)) = Some \<lparr>pw_init = False, pw_w = wa\<rparr>
         else flv_handleConn E mk now newID url u ctx wa st = (Some (HttpError 404), st)
     | None \<Rightarrow> flv_handleConn E mk now newID url u ctx wa st = (Some (HttpError 404), st)) \<and>
     (\<forall>x. from_last_dot x \<noteq> Some (gostr ''.flv'') \<longrightarrow> flv_handleConn E mk now newID url x ctx wa st = (Some (HttpError 400), st))"
proof -
  note pk = published_key [OF stream_env.axioms(1) [OF env], of key st]
  have sl: "gostr ''/'' = [47]" by (simp add: gostr_def)
  have d: "from_last_dot u = Some (gostr ''.flv'')" using from_last_dot_flv [of "replicate n 47 @ app @ 47 # title"] u by simp
  have "trim_slash u = key @ gostr ''.flv''" using trim_slashes [OF app, of n "47 # title @ gostr ''.flv''"] u key sl by simp
  then have t: "trim_suffix (trim_slash u) (gostr ''.flv'') = key" by (simp add: trim_suffix_append gostr_def)
  have s: "splitN2 key = Some (app, title)" using splitN2_slash [OF app(2)] key sl by simp
  obtain w where w: "NewHttpWriter now newID app title url ctx = Inr w" "hw_Info w = \<lparr>Key = key, URL = url, UID = newID, Inter = True\<rparr>"
    using NewHttpWriter_file [of now newID app title url ctx] key by auto
  have "flv_handleConn E mk now newID url u ctx wa st = (Some (HttpError 404), st)" if "\<not> list_ex (\<lambda>item. fs_Key item = key) (fs_Publishers (getStreams E st))"
    using d t s that by (simp add: flv_handleConn_def flv_request_def Let_def)
  moreover have "\<exists>w st'. flv_handleConn E mk now newID url u ctx wa st = (Some (Player w), st') \<and> st_writers st' wa = mk w \<and>
      cm_Get (e_ws E) newID (s_ws (st_objs st' ! a)) = Some \<lparr>pw_init = False, pw_w = wa\<rparr>"
    if a: "cm_Get (e_streams E) key (st_streams st) = Some a" "s_r (st_objs st ! a) \<noteq> None" for a
  proof -
    have l: "a < length (st_objs st)" using ok a(1) by (auto simp: streams_ok_def)
    have "flv_handleConn E mk now newID url u ctx wa st = (Some (Player w), HandleWriter E wa (st\<lparr>st_writers := (st_writers st)(wa := mk w)\<rparr>))"
      using d t s w(1) pk a by (auto simp: flv_handleConn_def flv_request_def Let_def)
    moreover have "cm_Get (e_ws E) newID (s_ws (st_objs (HandleWriter E wa (st\<lparr>st_writers := (st_writers st)(wa := mk w)\<rparr>)) ! a)) = Some \<lparr>pw_init = False, pw_w = wa\<rparr>"
      using a(1) l mk [of w] w(2) concurrent_map.get_set [OF stream_env.axioms(2) [OF env]] by (simp add: HandleWriter_def AddWriter_def Let_def)
    moreover have "st_writers (HandleWriter E wa (st\<lparr>st_writers := (st_writers st)(wa := mk w)\<rparr>)) wa = mk w"
      using a(1) mk [of w] w(2) by (simp add: HandleWriter_def Let_def)
    ultimately show ?thesis by blast
  qed
  moreover have "flv_handleConn E mk now newID url x ctx wa st = (Some (HttpError 400), st)" if "from_last_dot x \<noteq> Some (gostr ''.flv'')" for x
    using that by (simp add: flv_handleConn_def flv_request_def)
  ultimately show ?thesis using pk by (auto split: option.splits)
qed

theorem flv_player_admitted_witness:
  "(\<exists>w st'. flv_handleConn script_env (\<lambda>w. (hw_Info w, [])) 0 [7] [] (gostr ''/live/movie.flv'') \<lparr>sk_out = [], sk_cap = None\<rparr> 5 demo_published = (Some (Player w), st') \<and>
     cm_Get (e_ws script_env) [7] (s_ws (st_objs st' ! 0)) = Some \<lparr>pw_init = False, pw_w = 5\<rparr>) \<and>
   fst (flv_handleConn script_env (\<lambda>w. (hw_Info w, [])) 0 [7] [] (gostr ''/live/movie.mp4'') \<lparr>sk_out = [], sk_cap = None\<rparr> 5 demo_published) = Some (HttpError 400)"
proof -
  have m: "\<And>w. w_Info (e_w script_env) (hw_Info w, []) = hw_Info w" by (simp add: script_env_def record_writer_def)
  have ok: "streams_ok script_env demo_published" by (rule script.ok_reachable [OF demo_reachable])
  have u: "gostr ''/live/movie.flv'' = replicate 1 47 @ gostr ''live'' @ 47 # gostr ''movie'' @ gostr ''.flv''" by (simp add: gostr_def)
  have g: "cm_Get (e_streams script_env) (gostr ''live'' @ gostr ''/'' @ gostr ''movie'') (st_streams demo_published) = Some 0"
    by (simp add: demo_published script_env_def alist_map_def gostr_def)
  have r: "s_r (st_objs demo_published ! 0) \<noteq> None" by (simp add: demo_published)
  have x: "from_last_dot (gostr ''/live/movie.mp4'') \<noteq> Some (gostr ''.flv'')" by (simp add: from_last_dot_def gostr_def)
  note t = flv_player_admitted [OF script.stream_env_axioms m _ _ ok u refl, of 0 "[7]" "[]" "\<lparr>sk_out = [], sk_cap = None\<rparr>" 5]
  have "gostr ''live'' \<noteq> []" "47 \<notin> set (gostr ''live'')" by (simp_all add: gostr_def)
  from t [OF this] g r x show ?thesis by auto
qed

section \<open>A client that goes away\<close>

lemma hw_done_cases:
  "hw_done (snd (case x of Inl e \<Rightarrow> (f e, w) | Inr y \<Rightarrow> g y)) = b" if "hw_done w = b" "\<And>y. x = Inr y \<Longrightarrow> hw_done (snd (g y)) = b"
  using that by (cases x) auto

lemma hw_done_write:
  "hw_done (snd (case x of (None, k) \<Rightarrow> g k | (Some e, k) \<Rightarrow> (Some (Err e), w\<lparr>hw_buf := h, hw_ctx := k\<rparr>))) = b"
  if "hw_done w = b" "\<And>k. hw_done (snd (g k)) = b"
  using that by (cases x; cases "fst x") auto

lemma hw_SendPacket_done: "hw_done (snd (hw_SendPacket now p w)) = hw_done w"
  unfolding hw_SendPacket_def Let_def
  apply (rule hw_done_cases)
   apply simp
  subgoal for y
    apply (cases y)
    apply (simp only: prod.case)
    apply (rule hw_done_cases, simp)
    apply (rule hw_done_write, simp)
    apply (rule hw_done_write, simp)
    apply (rule hw_done_cases, simp)
    apply (rule hw_done_write, simp)
    apply simp
    done
  done

lemma hw_SendPackets_done: "hw_done (snd (hw_SendPackets ps chClosed w)) = hw_done w"
proof (induction ps arbitrary: w)
  case (Cons np ps)
  obtain now p where np: "np = (now, p)" by force
  obtain e w1 where s: "hw_SendPacket now p w = (e, w1)" by force
  then have "hw_done w1 = hw_done w" using hw_SendPacket_done [of now p w] by simp
  with Cons.IH [of w1] s np show ?case by (cases e) (simp_all add: then_do_def)
qed simp

text \<open>
  When the connection of an HTTP player breaks, sending ends with an error and the writer counts as closed; closing it then, as the stream does when it notices, does not
  release the handler of the request, which waits forever on a channel that nobody closes.
\<close>

theorem broken_flv_client_waits:
  assumes "fst (hw_SendPackets ps chClosed w) = Some (Err e)" and "\<not> hw_done w"
  shows "hw_closed (hw_sender ps chClosed w) \<and> (\<exists>w'. hw_Close (hw_sender ps chClosed w) = Inr w' \<and> \<not> hw_done w')"
  using assms hw_SendPackets_done [of ps chClosed w] by (cases "hw_SendPackets ps chClosed w") (auto simp: hw_sender_def hw_Close_def)

definition cut_off :: HttpWriter where
  "cut_off = \<lparr>hw_rw = NewRWBase 0 1, hw_uid = [7], hw_app = [], hw_title = [], hw_url = [], hw_buf = replicate headerLen 0, hw_closed = False, hw_done = False,
     hw_ctx = \<lparr>sk_out = [], sk_cap = Some 0\<rparr>, hw_packetQueue = make_chan flv_maxQueueNum\<rparr>"

theorem broken_flv_client_waits_witness:
  "hw_closed (hw_sender [(0, sample_packet True 1)] False cut_off) \<and> (\<exists>w'. hw_Close (hw_sender [(0, sample_packet True 1)] False cut_off) = Inr w' \<and> \<not> hw_done w')"
proof -
  have "fst (hw_SendPackets [(0, sample_packet True 1)] False cut_off) = Some (Err NetError)"
    by code_simp
  moreover have "\<not> hw_done cut_off" by (simp add: cut_off_def)
  ultimately show ?thesis by (rule broken_flv_client_waits)
qed

end
