(* ===== verification/HlsServer.thy ===== *)
theory HlsServer
  imports HlsSource StreamRounds Paths
begin

text \<open>
  \<^verbatim>\<open>src/protocol/hls/hls.go\<close>: the HLS server, which has a source for every stream that is published and answers the requests for playlists and segments from them.

  The sources are objects on a heap, since the publisher and the server share them; \<^verbatim>\<open>conns\<close> maps a key to an address. It is a concurrent map of a
  third-party package, with the contract \<open>concurrent_map\<close> of \<open>RtmpStream\<close>. A panic in a request is recovered by \<^verbatim>\<open>net/http\<close>, which drops the connection.
\<close>

section \<open>hls.go\<close>

record 'm HlsServer =
  hs_conns :: 'm
  hs_sources :: "Source list"

definition hls_NewServer :: "(nat, 'm) cmap_ops \<Rightarrow> 'm HlsServer" where
  "hls_NewServer cm = \<lparr>hs_conns = cm_New cm, hs_sources = []\<rparr>"

text \<open>\<^verbatim>\<open>Writer\<close>: the address of the source of a stream, which is made at the first call.\<close>

definition hls_Writer :: "(nat, 'm) cmap_ops \<Rightarrow> int \<Rightarrow> Info \<Rightarrow> 'm HlsServer \<Rightarrow> nat \<times> 'm HlsServer" where
  "hls_Writer cm now info server =
     (case cm_Get cm (Key info) (hs_conns server) of
        None \<Rightarrow>
          (let a = length (hs_sources server)
           in (a, server\<lparr>hs_conns := cm_Set cm (Key info) a (hs_conns server), hs_sources := hs_sources server @ [NewSource now info]\<rparr>))
      | Some a \<Rightarrow> (a, server))"

definition getConn :: "(nat, 'm) cmap_ops \<Rightarrow> bytes \<Rightarrow> 'm HlsServer \<Rightarrow> Source option" where
  "getConn cm key server = map_option (\<lambda>a. hs_sources server ! a) (cm_Get cm key (hs_conns server))"

text \<open>One turn of the loop of \<^verbatim>\<open>checkStop\<close>, which runs every five seconds.\<close>

fun checkStop_loop :: "(nat, 'm) cmap_ops \<Rightarrow> int \<Rightarrow> bool \<Rightarrow> (bytes \<times> nat) list \<Rightarrow> 'm HlsServer \<Rightarrow> 'm HlsServer" where
  "checkStop_loop cm now hls_keep_after_end [] server = server"
| "checkStop_loop cm now hls_keep_after_end ((key, a) # items) server =
     checkStop_loop cm now hls_keep_after_end items
       (if \<not> Alive now (src_rw (hs_sources server ! a)) \<and> \<not> hls_keep_after_end
        then server\<lparr>hs_conns := cm_Remove cm key (hs_conns server)\<rparr> else server)"

definition checkStop :: "(nat, 'm) cmap_ops \<Rightarrow> int \<Rightarrow> bool \<Rightarrow> 'm HlsServer \<Rightarrow> 'm HlsServer" where
  "checkStop cm now hls_keep_after_end server =
     checkStop_loop cm now hls_keep_after_end (cm_Items cm (hs_conns server)) server"

definition parseM3u8 :: "bytes \<Rightarrow> bytes" where
  "parseM3u8 pathstr = (let pathstr = trim_slash pathstr in before_first (path_Ext pathstr) pathstr)"

text \<open>\<^verbatim>\<open>parseTs\<close>: its error goes unread, and the key is then empty.\<close>

definition parseTs :: "bytes \<Rightarrow> bytes" where
  "parseTs pathstr = (case splitN3 (trim_slash pathstr) of None \<Rightarrow> [] | Some (a, b, _) \<Rightarrow> a @ gostr ''/'' @ b)"

definition crossdomainxml :: bytes where
  "crossdomainxml = gostr ''<?xml version=\"1.0\" ?>'' @ newline @ gostr ''<cross-domain-policy>'' @ newline @
     9 # gostr ''<allow-access-from domain=\"*\" />'' @ newline @
     9 # gostr ''<allow-http-request-headers-from domain=\"*\" headers=\"*\"/>'' @ newline @ gostr ''</cross-domain-policy>''"

text \<open>An answer: nothing at all, an error with its status and text, a body with its headers, or a redirection.\<close>

datatype hls_reply = NoReply | HlsError nat string | HlsBody "(string \<times> bytes) list" bytes | HlsMoved bytes

definition hls_handle :: "(nat, 'm) cmap_ops \<Rightarrow> bytes \<Rightarrow> 'm HlsServer \<Rightarrow> hls_reply res" where
  "hls_handle cm u server =
     (if path_Base u = gostr ''crossdomain.xml'' then Inr (HlsBody [(''Content-Type'', gostr ''application/xml'')] crossdomainxml)
      else if path_Ext u = gostr ''.m3u8'' then
        (case getConn cm (parseM3u8 u) server of
           None \<Rightarrow> Inr (HlsError 403 ''no publisher'')
         | Some conn \<Rightarrow>
             (case GetCacheInc conn of
                None \<Rightarrow> Inr (HlsError 403 ''no publisher'')
              | Some tsCache \<Rightarrow>
                  (let body = GenM3U8PlayList tsCache
                   in Inr (HlsBody [(''Access-Control-Allow-Origin'', gostr ''*''), (''Cache-Control'', gostr ''no-cache''),
                        (''Content-Type'', gostr ''application/x-mpegURL''), (''Content-Length'', decimal (length body))] body))))
      else if path_Ext u = gostr ''.ts'' then
        (case getConn cm (parseTs u) server of
           None \<Rightarrow> Inr (HlsError 403 ''no publisher'')
         | Some conn \<Rightarrow>
             (case GetCacheInc conn of
                None \<Rightarrow> Inl (Panic NilDereference)
              | Some tsCache \<Rightarrow>
                  (case GetItem u tsCache of
                     Inl (Err (Errorf s)) \<Rightarrow> Inr (HlsError 400 s)
                   | Inl e \<Rightarrow> Inl e
                   | Inr item \<Rightarrow> Inr (HlsBody [(''Access-Control-Allow-Origin'', gostr ''*''), (''Content-Type'', gostr ''video/mp2ts''),
                        (''Content-Length'', decimal (length (ts_Data item)))] (ts_Data item)))))
      else Inr NoReply)"

text \<open>\<^verbatim>\<open>Serve\<close>: every clean path goes to the handler.\<close>

definition hls_Serve :: "(nat, 'm) cmap_ops \<Rightarrow> bytes \<Rightarrow> 'm HlsServer \<Rightarrow> hls_reply res" where
  "hls_Serve cm u server = (if mux_clean u \<noteq> u then Inr (HlsMoved (mux_clean u)) else hls_handle cm u server)"

section \<open>Runs of the server\<close>

text \<open>
  What happens to the server and its sources, in any order: streams are published, packets are queued and sent, sources are closed, and the server removes dead ones.
  \<open>sent\<close> allows any packets, whatever is in the queue.
\<close>

inductive hls_step :: "(nat, 'm) cmap_ops \<Rightarrow> 'm HlsServer \<Rightarrow> 'm HlsServer \<Rightarrow> bool" for cm where
  published: "hls_step cm server (snd (hls_Writer cm now info server))"
| queued: "a < length (hs_sources server) \<Longrightarrow> source_Write now p (hs_sources server ! a) = retB source \<Longrightarrow>
    hls_step cm server (server\<lparr>hs_sources := (hs_sources server)[a := source]\<rparr>)"
| sent: "a < length (hs_sources server) \<Longrightarrow>
    hls_step cm server (server\<lparr>hs_sources := (hs_sources server)[a := sender ps chClosed (hs_sources server ! a)]\<rparr>)"
| closed: "a < length (hs_sources server) \<Longrightarrow> source_Close hls_keep_after_end (hs_sources server ! a) = Inr source \<Longrightarrow>
    hls_step cm server (server\<lparr>hs_sources := (hs_sources server)[a := source]\<rparr>)"
| checked: "hls_step cm server (checkStop cm now hls_keep_after_end server)"

inductive hls_reachable :: "(nat, 'm) cmap_ops \<Rightarrow> 'm HlsServer \<Rightarrow> bool" for cm where
  started: "hls_reachable cm (hls_NewServer cm)"
| stepped: "hls_reachable cm server \<Longrightarrow> hls_step cm server server' \<Longrightarrow> hls_reachable cm server'"

section \<open>A source keeps its stream\<close>

lemma src_mux_info: "src_info (snd (src_mux p source)) = src_info source"
  by (simp add: src_mux_def split: option.splits prod.splits)

lemma muxAudio_info: "src_info (snd (muxAudio limit source)) = src_info source"
  by (simp add: muxAudio_def src_mux_info split: option.splits prod.splits)

lemma tsMux_info: "src_info (snd (tsMux p source)) = src_info source"
  by (simp add: tsMux_def src_mux_info muxAudio_info split: option.splits)

lemma calcPtsDts_info: "src_info (snd (calcPtsDts isVideo ts ct source)) = src_info source"
  by (simp add: calcPtsDts_def Let_def split: prod.splits)

lemma writeTables_info: "src_info (snd (writeTables source)) = src_info source"
  by (simp add: writeTables_def split: option.splits prod.splits)

lemma storeSegment_info: "src_info (snd (storeSegment now source)) = src_info source"
  by (simp add: storeSegment_def Let_def split: option.splits sum.splits)

lemma cut_info: "src_info (snd (cut now source)) = src_info source"
  by (simp add: cut_def case_prod_beta flushAudio_def muxAudio_info storeSegment_info writeTables_info split: option.split exn.split)

lemma src_Parse_info: "src_info (snd (src_Parse p source)) = src_info source"
  by (simp add: src_Parse_def split: prod.splits)

lemma parse_frame_info: "src_info (snd (snd (parse_frame now key p source))) = src_info source"
  by (simp add: parse_frame_def case_prod_beta Let_def cut_info src_Parse_info split: option.split)

lemma parse_info: "src_info (snd (snd (parse now p source))) = src_info source"
  by (simp add: parse_def case_prod_beta src_Parse_info parse_frame_info split: option.split)

lemma SendPacket_packet_info: "src_info (snd (SendPacket_packet now p source)) = src_info source"
  by (simp add: SendPacket_packet_def case_prod_beta parse_info calcPtsDts_info tsMux_info split: option.split exn.split sum.split)

lemma SendPacket_info: "src_info (snd (SendPacket ps chClosed source)) = src_info source"
proof (induction ps chClosed source rule: SendPacket.induct)
  case (2 now p ps chClosed source)
  obtain e s where s: "SendPacket_packet now p source = (e, s)" by force
  with "2.IH" SendPacket_packet_info [of now p source] show ?case by (cases e) auto
qed simp

lemma sender_info: "src_info (sender ps chClosed source) = src_info source"
  using SendPacket_info [of ps chClosed source] by (auto simp: sender_def split: prod.splits option.splits exn.splits)

lemma source_Write_info: "source_Write now p source = retB source' \<Longrightarrow> src_info source' = src_info source"
  by (auto simp: source_Write_def bindB_def recoverB_def Let_def split: if_splits option.splits sum.splits)

lemma source_Close_info: "source_Close keep source = Inr source' \<Longrightarrow> src_info source' = src_info source"
  by (auto simp: source_Close_def source_cleanup_def bindR_def split: if_splits sum.splits)

section \<open>The invariant\<close>

text \<open>A source is in order, or it was closed and emptied.\<close>

definition source_state :: "Source \<Rightarrow> bool" where
  "source_state source \<longleftrightarrow> source_ok source \<or> (src_closed source \<and> src_tsCache source = None)"

definition hls_ok :: "(nat, 'm) cmap_ops \<Rightarrow> 'm HlsServer \<Rightarrow> bool" where
  "hls_ok cm server \<longleftrightarrow> list_all source_state (hs_sources server) \<and>
     (\<forall>key a. cm_Get cm key (hs_conns server) = Some a \<longrightarrow> a < length (hs_sources server) \<and> Key (src_info (hs_sources server ! a)) = key)"

lemma source_ok_fields:
  "source_ok (source\<lparr>src_closed := c\<rparr>) = source_ok source"
  "source_ok (source\<lparr>src_rw := rw\<rparr>) = source_ok source"
  "source_ok (source\<lparr>src_packetQueue := q\<rparr>) = source_ok source"
  by (simp_all add: source_ok_def parts_ok_def stored_def)

lemma sender_state:
  assumes "source_state source"
  shows "source_state (sender ps chClosed source)"
proof (cases "source_ok source")
  case True
  obtain e s where s: "SendPacket ps chClosed source = (e, s)" by force
  with SendPacket_ok [OF True s] show ?thesis by (simp add: sender_def source_state_def source_ok_fields split: option.split exn.split)
next
  case False
  then have c: "src_closed source" "src_tsCache source = None" using assms by (simp_all add: source_state_def)
  then have "SendPacket ps chClosed source = (Some (Err (Errorf ''closed'')), source)" by (cases ps) auto
  with c show ?thesis by (simp add: sender_def source_state_def)
qed

lemma source_Write_state: "source_Write now p source = retB source' \<Longrightarrow> source_state source \<Longrightarrow> source_state source'"
  by (auto simp: source_Write_def source_state_def source_ok_fields bindB_def recoverB_def Let_def split: if_splits option.splits sum.splits)

lemma source_Close_state: "source_Close keep source = Inr source' \<Longrightarrow> source_state source \<Longrightarrow> source_state source'"
  by (auto simp: source_Close_def source_cleanup_def source_state_def source_ok_fields bindR_def split: if_splits sum.splits)

lemma NewSource_state: "source_state (NewSource now info)"
  by (simp add: source_state_def NewSource_ok)

lemma NewSource_key: "Key (src_info (NewSource now info)) = Key info"
  by (simp add: NewSource_def)

lemma hls_ok_source:
  assumes "hls_ok cm server" and "source_state source" and "src_info source = src_info (hs_sources server ! a)"
  shows "hls_ok cm (server\<lparr>hs_sources := (hs_sources server)[a := source]\<rparr>)"
proof -
  have "Key (src_info ((hs_sources server)[a := source] ! b)) = Key (src_info (hs_sources server ! b))" if "b < length (hs_sources server)" for b
    using assms(3) that by (cases "b = a") simp_all
  then show ?thesis using assms(1,2) set_update_subset_insert [of "hs_sources server" a source] by (auto simp: hls_ok_def list_all_iff)
qed

lemma hls_ok_nth: "hls_ok cm server \<Longrightarrow> a < length (hs_sources server) \<Longrightarrow> source_state (hs_sources server ! a)"
  by (simp add: hls_ok_def list_all_length)

locale hls_conns = concurrent_map cm for cm :: "(nat, 'm) cmap_ops"
begin

lemma Writer_ok: "hls_ok cm server \<Longrightarrow> hls_ok cm (snd (hls_Writer cm now info server))"
  by (auto simp: hls_ok_def hls_Writer_def Let_def get_set nth_append NewSource_state NewSource_key intro: less_SucI split: option.split if_splits)

lemma checkStop_conns:
  "hs_sources (checkStop_loop cm now keep items server) = hs_sources server \<and>
   cm_Get cm key (hs_conns (checkStop_loop cm now keep items server)) =
     (if \<not> keep \<and> (\<exists>a. (key, a) \<in> set items \<and> \<not> Alive now (src_rw (hs_sources server ! a))) then None else cm_Get cm key (hs_conns server))"
proof (induction items arbitrary: server)
  case (Cons item items)
  then show ?case by (cases item) (auto simp: get_remove)
qed simp

lemma checkStop_get:
  "cm_Get cm key (hs_conns (checkStop cm now keep server)) =
     (case cm_Get cm key (hs_conns server) of
        None \<Rightarrow> None
      | Some a \<Rightarrow> if \<not> keep \<and> \<not> Alive now (src_rw (hs_sources server ! a)) then None else Some a)"
  by (simp add: checkStop_def checkStop_conns items_iff split: option.split)

lemma checkStop_sources: "hs_sources (checkStop cm now keep server) = hs_sources server"
  by (simp add: checkStop_def checkStop_conns)

lemma checkStop_ok: "hls_ok cm server \<Longrightarrow> hls_ok cm (checkStop cm now keep server)"
  by (auto simp: hls_ok_def checkStop_get checkStop_sources split: option.splits if_splits)

lemma step_ok: "hls_step cm server server' \<Longrightarrow> hls_ok cm server \<Longrightarrow> hls_ok cm server'"
  by (induction rule: hls_step.induct)
    (auto intro!: Writer_ok checkStop_ok hls_ok_source sender_state sender_info elim: source_Write_state source_Close_state source_Write_info source_Close_info
      simp: hls_ok_nth)

lemma NewServer_ok: "hls_ok cm (hls_NewServer cm)"
  by (simp add: hls_ok_def hls_NewServer_def get_new)

lemma reachable_ok: "hls_reachable cm server \<Longrightarrow> hls_ok cm server"
  by (induction rule: hls_reachable.induct) (auto intro: step_ok NewServer_ok)

end

interpretation hc: hls_conns alist_map
  by unfold_locales

section \<open>Properties\<close>

text \<open>
  C21: in every run of the server, whatever is published, sent, closed and removed and in whatever order, the source found under a key is the one of that stream; and it is
  either closed and empty, or its cache holds the last whole segments of the stream.
\<close>

theorem hls_server_invariant:
  assumes "concurrent_map cm" and "hls_reachable cm server" and "getConn cm key server = Some conn"
  shows "Key (source_Info conn) = key \<and> (src_closed conn \<and> GetCacheInc conn = None \<or> (\<exists>items. stored conn items))"
proof -
  have "hls_ok cm server" using assms(1,2) by (intro hls_conns.reachable_ok) (simp_all add: hls_conns_def)
  then have "source_state conn \<and> Key (src_info conn) = key" using assms(3) hls_ok_nth by (auto simp: getConn_def hls_ok_def list_all_length)
  then show ?thesis by (auto simp: source_state_def source_Info_def GetCacheInc_def source_ok_def)
qed

theorem hls_server_invariant_witness:
  "\<exists>conn. getConn alist_map (gostr ''live/movie'') (snd (hls_Writer alist_map 0 sample_info (hls_NewServer alist_map))) = Some conn \<and>
     Key (source_Info conn) = gostr ''live/movie''"
proof -
  let ?s = "snd (hls_Writer alist_map 0 sample_info (hls_NewServer alist_map))"
  have r: "hls_reachable alist_map ?s" by (rule stepped [OF started published])
  have g: "getConn alist_map (gostr ''live/movie'') ?s = Some (NewSource 0 sample_info)"
    by (simp add: hls_Writer_def hls_NewServer_def getConn_def sample_info_def Let_def am.get_new am.get_set)
  show ?thesis using hls_server_invariant [OF am.concurrent_map_axioms r g] g by blast
qed

lemma stored_represents:
  assumes "stored conn items" and "distinct (map ts_Name items)"
  shows "\<exists>tc. GetCacheInc conn = Some tc \<and> GenM3U8PlayList tc = m3u8_of (window 3 items) \<and>
     tc_lm tc = map_of (window 3 (map (\<lambda>item. (ts_Name item, item)) items))"
proof -
  let ?i = "map (\<lambda>item. (ts_Name item, item)) items"
  have d: "distinct (map fst ?i)" using assms(2) by (simp add: comp_def)
  obtain tc where tc: "src_tsCache conn = Some tc" "set_items ?i (NewTSCacheItem (Key (src_info conn))) = Inr tc"
    using assms(1) by (auto simp: stored_def)
  with set_items_represents [OF d] have r: "tc_represents tc ?i" by (metis sum.inject(2))
  have "map snd (window 3 ?i) = window 3 items" by (simp add: window_map comp_def)
  with playlist_represents [OF r d] r tc show ?thesis by (auto simp: GetCacheInc_def tc_represents_def)
qed

lemma window_lookup:
  assumes "distinct (map ts_Name items)"
  shows "map_of (window 3 (map (\<lambda>item. (ts_Name item, item)) items)) (ts_Name item) = Some item \<longleftrightarrow> item \<in> set (window 3 items)"
proof -
  have "distinct (map ts_Name (window 3 items))" using assms by (simp add: window_def drop_map [symmetric])
  then show ?thesis by (subst map_of_eq_Some_iff) (auto simp: window_map comp_def)
qed

lemma request_playlist:
  assumes "app \<noteq> []" "47 \<notin> set app" "46 \<notin> set app" "46 \<notin> set title"
  shows "let u = gostr ''/'' @ app @ gostr ''/'' @ title @ gostr ''.m3u8''
     in path_Base u \<noteq> gostr ''crossdomain.xml'' \<and> path_Ext u = gostr ''.m3u8'' \<and> parseM3u8 u = app @ gostr ''/'' @ title"
proof -
  have e: "gostr ''.m3u8'' = 46 # gostr ''m3u8''" "47 \<notin> set (gostr ''m3u8'')" "46 \<notin> set (gostr ''m3u8'')" "gostr ''/'' = [47]"
    by (simp_all add: gostr_def)
  let ?k = "app @ gostr ''/'' @ title"
  have b: "path_Base (gostr ''/'' @ ?k @ gostr ''.m3u8'') \<noteq> gostr ''crossdomain.xml''"
    using path_Base_last [of "gostr ''/'' @ ?k @ gostr ''.m3u''" 56] by (auto simp: gostr_def)
  have x: "path_Ext (y @ gostr ''.m3u8'') = gostr ''.m3u8''" for y unfolding e(1) by (rule path_Ext_append [OF e(2,3)])
  have "before_first (gostr ''.m3u8'') (?k @ gostr ''.m3u8'') = ?k"
    using assms(3,4) by (intro before_first_end) (simp_all add: gostr_def)
  moreover have "trim_slash (gostr ''/'' @ ?k @ gostr ''.m3u8'') = ?k @ gostr ''.m3u8''"
    using trim_slashes [OF assms(1,2), of 1 "gostr ''/'' @ title @ gostr ''.m3u8''"] by (simp add: e(4))
  ultimately show ?thesis using b x [of "gostr ''/'' @ ?k"] x [of ?k] by (simp add: Let_def parseM3u8_def)
qed

lemma request_segment:
  assumes "app \<noteq> []" "47 \<notin> set app" "47 \<notin> set title"
  shows "let u = segment_name (app @ gostr ''/'' @ title) now
     in path_Base u \<noteq> gostr ''crossdomain.xml'' \<and> path_Ext u = gostr ''.ts'' \<and> parseTs u = app @ gostr ''/'' @ title"
proof -
  have e: "gostr ''.ts'' = 46 # gostr ''ts''" "47 \<notin> set (gostr ''ts'')" "46 \<notin> set (gostr ''ts'')" "gostr ''/'' = [47]"
    by (simp_all add: gostr_def)
  let ?k = "app @ gostr ''/'' @ title" and ?d = "decimal_int (now div 1000000000)"
  have b: "path_Base (segment_name ?k now) \<noteq> gostr ''crossdomain.xml''"
    using path_Base_last [of "gostr ''/'' @ ?k @ gostr ''/'' @ ?d @ gostr ''.t''" 115] by (auto simp: gostr_def segment_name_def)
  have x: "path_Ext (segment_name ?k now) = gostr ''.ts''"
    using path_Ext_append [OF e(2,3), of "gostr ''/'' @ ?k @ gostr ''/'' @ ?d"] by (simp add: segment_name_def e(1))
  have "trim_slash (segment_name ?k now) = app @ 47 # title @ 47 # ?d @ gostr ''.ts''"
    using trim_slashes [OF assms(1,2), of 1] by (simp add: segment_name_def e(4))
  then show ?thesis using b x splitN3_slash [OF assms(2,3)] by (simp add: Let_def parseTs_def e(4))
qed

text \<open>
  C20: the playlist of \<^verbatim>\<open>/app/title.m3u8\<close> lists the last three segments of the stream, a request for a segment by the name it has there gets its bytes, and one for an
  older segment is refused, for names without slashes and dots and while no two segments were cut in the same second. That the source found under a key is the one
  of the stream and that its cache comes from whole segments is the invariant of the server.
\<close>

theorem hls_player_fetches:
  assumes conn: "getConn cm key server = Some conn" "Key (source_Info conn) = key" and st: "stored conn items" "distinct (map ts_Name items)"
    and key: "key = app @ gostr ''/'' @ title" and app: "app \<noteq> []" "47 \<notin> set app" "46 \<notin> set app" and title: "47 \<notin> set title" "46 \<notin> set title"
  shows "(\<exists>h. hls_handle cm (gostr ''/'' @ key @ gostr ''.m3u8'') server = Inr (HlsBody h (m3u8_of (window 3 items)))) \<and>
     (\<forall>item \<in> set items. if item \<in> set (window 3 items)
        then \<exists>h. hls_handle cm (ts_Name item) server = Inr (HlsBody h (ts_Data item))
        else hls_handle cm (ts_Name item) server = Inr (HlsError 400 ''No key for cache''))"
proof (intro conjI ballI)
  obtain tc where tc: "GetCacheInc conn = Some tc" "GenM3U8PlayList tc = m3u8_of (window 3 items)"
      "tc_lm tc = map_of (window 3 (map (\<lambda>item. (ts_Name item, item)) items))"
    using stored_represents [OF st] by blast
  show "\<exists>h. hls_handle cm (gostr ''/'' @ key @ gostr ''.m3u8'') server = Inr (HlsBody h (m3u8_of (window 3 items)))"
    using request_playlist [OF app title(2)] conn(1) tc(1,2) key by (simp add: hls_handle_def Let_def)
  fix item assume i: "item \<in> set items"
  then obtain now where n: "ts_Name item = segment_name key now"
    using st(1) conn(2) by (auto simp: stored_def list_all_iff stored_item_def source_Info_def)
  have r: "path_Base (ts_Name item) \<noteq> gostr ''crossdomain.xml''" "path_Ext (ts_Name item) = gostr ''.ts''" "parseTs (ts_Name item) = key"
    using request_segment [OF app(1,2) title(1), of now] key n by (simp_all add: Let_def)
  have "gostr ''.ts'' \<noteq> gostr ''.m3u8''" by (simp add: gostr_def)
  moreover have "map_of (window 3 (map (\<lambda>item. (ts_Name item, item)) items)) (ts_Name item) = None" if "item \<notin> set (window 3 items)"
  proof (rule ccontr)
    assume "\<not> ?thesis"
    then obtain x where x: "(ts_Name item, x) \<in> set (window 3 (map (\<lambda>item. (ts_Name item, item)) items))" by (auto dest: map_of_SomeD)
    then have "x \<in> set (window 3 items)" "ts_Name x = ts_Name item" by (auto simp: window_map)
    moreover have "x \<in> set items" using calculation(1) set_window [of 3 items] by blast
    ultimately show False using st(2) i that by (auto simp: distinct_map inj_on_def)
  qed
  ultimately show "if item \<in> set (window 3 items)
        then \<exists>h. hls_handle cm (ts_Name item) server = Inr (HlsBody h (ts_Data item))
        else hls_handle cm (ts_Name item) server = Inr (HlsError 400 ''No key for cache'')"
    using r conn(1) tc window_lookup [OF st(2), of item] by (auto simp: hls_handle_def GetItem_def)
qed

theorem hls_player_fetches_witness:
  "\<exists>conn item h. stored conn [item] \<and>
     hls_handle alist_map (gostr ''/live/movie/1600000000.ts'') \<lparr>hs_conns = [(gostr ''live/movie'', 0)], hs_sources = [conn]\<rparr> = Inr (HlsBody h (ts_Data item))"
proof -
  obtain b where b: "src_btswriter sample_source = Some b" "source_ok sample_source" "stored sample_source []"
      "durationMs (src_stat sample_source) = 3040" "src_info sample_source = sample_info\<lparr>Inter := True\<rparr>"
    using sample_source_ok by blast
  have d: "3000 \<le> durationMs (src_stat sample_source)" using b(4) by simp
  obtain conn item where c: "cut 1600000000000000000 sample_source = (None, conn)" "stored conn [item]"
      "ts_Name item = segment_name (Key (src_info sample_source)) 1600000000000000000"
    using cut_stores [OF b(2,3,1) d, of 1600000000000000000] by (auto simp: NewTSItem_def)
  have n: "ts_Name item = gostr ''/live/movie/1600000000.ts''" using c(3) b(5) sample_name by simp
  have k: "Key (source_Info conn) = gostr ''live/movie''"
    using cut_info [of 1600000000000000000 sample_source] c(1) b(5) by (simp add: source_Info_def sample_info_def)
  let ?s = "\<lparr>hs_conns = [(gostr ''live/movie'', 0)], hs_sources = [conn]\<rparr>"
  have g: "getConn alist_map (gostr ''live/movie'') ?s = Some conn" by (simp add: getConn_def alist_map_def)
  have e: "gostr ''live/movie'' = gostr ''live'' @ gostr ''/'' @ gostr ''movie''" by (simp add: gostr_def)
  have s: "gostr ''live'' \<noteq> []" "47 \<notin> set (gostr ''live'')" "46 \<notin> set (gostr ''live'')" "47 \<notin> set (gostr ''movie'')" "46 \<notin> set (gostr ''movie'')"
    by (simp_all add: gostr_def)
  have "window 3 [item] = [item]" by (simp add: window_def)
  then show ?thesis using hls_player_fetches [OF g k c(2) _ e s] n c(2) by auto
qed

text \<open>
  A stream that is published again soon after it ended has no HLS: the server still has the old source, which takes no packet any more, gives an error for the
  playlist and makes the request for a segment panic; this lasts until the server finds the source dead, ten seconds after its last packet, and removes it.
\<close>

theorem hls_republish_refused:
  assumes cm: "concurrent_map cm" and a: "cm_Get cm (Key info) (hs_conns server) = Some a" "a < length (hs_sources server)"
    and close: "\<not> src_closed (hs_sources server ! a)" "source_Close False (hs_sources server ! a) = Inr source"
    and s': "server' = server\<lparr>hs_sources := (hs_sources server)[a := source]\<rparr>"
  shows "hls_Writer cm now info server' = (a, server') \<and> hs_sources server' ! a = source \<and>
     source_Write now p source = Some (Inl (Err (Errorf ''hls source closed''))) \<and>
     (path_Base u \<noteq> gostr ''crossdomain.xml'' \<and> path_Ext u = gostr ''.ts'' \<and> parseTs u = Key info \<longrightarrow> hls_handle cm u server' = Inl (Panic NilDereference)) \<and>
     fst (hls_Writer cm now info (checkStop cm now False server')) = (if Alive now (src_rw source) then a else length (hs_sources server))"
proof -
  have c: "src_closed source" "src_tsCache source = None"
    using close by (auto simp: source_Close_def source_cleanup_def bindR_def split: sum.splits)
  have g: "cm_Get cm (Key info) (hs_conns server') = Some a" "hs_sources server' ! a = source" using a s' by simp_all
  have "hls_conns cm" using cm by (simp add: hls_conns_def)
  note ck = hls_conns.checkStop_get [OF this, of "Key info" now False server'] hls_conns.checkStop_sources [OF this, of now False server']
  have "gostr ''.ts'' \<noteq> gostr ''.m3u8''" by (simp add: gostr_def)
  then have "path_Base u \<noteq> gostr ''crossdomain.xml'' \<and> path_Ext u = gostr ''.ts'' \<and> parseTs u = Key info \<longrightarrow> hls_handle cm u server' = Inl (Panic NilDereference)"
    using g c by (simp add: hls_handle_def getConn_def GetCacheInc_def)
  moreover have "fst (hls_Writer cm now info (checkStop cm now False server')) = (if Alive now (src_rw source) then a else length (hs_sources server))"
    using ck g s' by (simp add: hls_Writer_def Let_def)
  ultimately show ?thesis using c g by (simp add: hls_Writer_def source_Write_def)
qed

theorem hls_republish_refused_witness:
  "\<exists>source. source_Close False (NewSource 0 sample_info) = Inr source \<and>
     hls_handle alist_map (gostr ''/live/movie/1.ts'') \<lparr>hs_conns = [(gostr ''live/movie'', 0)], hs_sources = [source]\<rparr> = Inl (Panic NilDereference)"
proof -
  let ?s = "\<lparr>hs_conns = [(gostr ''live/movie'', 0)], hs_sources = [NewSource 0 sample_info]\<rparr>"
  obtain source where c: "source_Close False (NewSource 0 sample_info) = Inr source"
    by (simp add: NewSource_def source_Close_def source_cleanup_def chan_close_def make_chan_def)
  have g: "cm_Get alist_map (Key sample_info) (hs_conns ?s) = Some 0" by (simp add: alist_map_def sample_info_def)
  have o: "\<not> src_closed (hs_sources ?s ! 0)" by (simp add: NewSource_def)
  have u: "path_Base (gostr ''/live/movie/1.ts'') \<noteq> gostr ''crossdomain.xml''" "path_Ext (gostr ''/live/movie/1.ts'') = gostr ''.ts''"
      "parseTs (gostr ''/live/movie/1.ts'') = Key sample_info"
    by (simp_all add: gostr_def path_Base_def path_Ext_def from_last_dot_def parseTs_def splitN3_def splitN2_def trim_slash_def sample_info_def Let_def)
  show ?thesis
    using hls_republish_refused [OF am.concurrent_map_axioms g _ o _ refl, of source 0 undefined "gostr ''/live/movie/1.ts''"] c u by simp
qed

end
