(* ===== verification/Relay.thy ===== *)
theory Relay
  imports StaticPush
begin

text \<open>
  \<^verbatim>\<open>src/protocol/rtmp/rtmprelay/rtmprelay.go\<close>: a relay that plays a stream from one server and publishes it to another. \<^verbatim>\<open>Start\<close> makes the two connections and
  two goroutines: one reads messages and puts the audio and video ones into the channel \<^verbatim>\<open>csChan\<close>, the other writes them to the second server.

  A goroutine is its number of running copies and a function for one round of its loop; rounds of the two alternate in any order. The result \<open>None\<close> of a round is
  a goroutine that waits, or that is not there. A round of a sender may also stop halfway, in a write to a server that does not read: \<open>rr_stuck\<close> has the messages of
  these writes.
\<close>

section \<open>rtmprelay.go\<close>

record RtmpRelay =
  rr_PlayURL :: bytes
  rr_PublishURL :: bytes
  rr_csChan :: "ChunkStream chan"
  rr_play :: "ConnClient option"
  rr_publish :: "ConnClient option"
  rr_startflag :: bool
  rr_receivers :: nat
  rr_senders :: nat
  rr_stuck :: "ChunkStream list"

definition NewRtmpRelay :: "bytes \<Rightarrow> bytes \<Rightarrow> RtmpRelay" where
  "NewRtmpRelay playURL publishURL =
     \<lparr>rr_PlayURL = playURL, rr_PublishURL = publishURL, rr_csChan = make_chan 500, rr_play = None, rr_publish = None, rr_startflag = False,
      rr_receivers = 0, rr_senders = 0, rr_stuck = []\<rparr>"

text \<open>
  What the receiver reads in one round, and the message as far as it was read when that fails; a command is decoded and forgotten, together with its error.
  Every error but \<^verbatim>\<open>io.EOF\<close> is ignored.
\<close>

definition relay_message :: "ConnClient \<Rightarrow> (ChunkStream option \<times> ConnClient) res" where
  "relay_message c =
     (case cc_Read emptyChunkStream c of
        (Some (Err EOF), _, c) \<Rightarrow> Inr (None, c)
      | (e, rc, c) \<Rightarrow>
          (case ignore_err e of
             Some e \<Rightarrow> Inl e
           | None \<Rightarrow>
               if TypeID rc = 20 \<or> TypeID rc = 17
               then (case DecodeBatch 0 ((cc_decoder c)\<lparr>amf_rd := Data rc\<rparr>) of
                       (vs, e, dec) \<Rightarrow> (case ignore_err (Some e) of Some e \<Rightarrow> Inl e | None \<Rightarrow> Inr (Some rc, c\<lparr>cc_decoder := dec\<rparr>)))
               else Inr (Some rc, c)))"

definition forwarded :: "ChunkStream \<Rightarrow> bool" where
  "forwarded rc \<longleftrightarrow> TypeID rc = 8 \<or> TypeID rc = 9"

definition rcvPlayChunkStream :: "RtmpRelay \<Rightarrow> RtmpRelay blk" where
  "rcvPlayChunkStream relay =
     (if rr_receivers relay = 0 then None
      else case rr_play relay of
             None \<Rightarrow> Some (Inl (Panic NilDereference))
           | Some c \<Rightarrow>
               if \<not> rr_startflag relay
               then (case cc_Close c of
                       (Some e, _) \<Rightarrow> Some (Inl e)
                     | (None, c) \<Rightarrow> retB (relay\<lparr>rr_play := Some c, rr_receivers := rr_receivers relay - 1\<rparr>))
               else bindB (Some (relay_message c)) (\<lambda>(m, c).
                      case m of
                        None \<Rightarrow> retB (relay\<lparr>rr_play := Some c, rr_receivers := rr_receivers relay - 1\<rparr>)
                      | Some rc \<Rightarrow>
                          if forwarded rc then bindB (chan_send rc (rr_csChan relay)) (\<lambda>ch. retB (relay\<lparr>rr_play := Some c, rr_csChan := ch\<rparr>))
                          else retB (relay\<lparr>rr_play := Some c\<rparr>)))"

text \<open>A sender that is at its \<^verbatim>\<open>select\<close> and not in a write.\<close>

definition free_sender :: "RtmpRelay \<Rightarrow> bool" where
  "free_sender relay \<longleftrightarrow> length (rr_stuck relay) < rr_senders relay"

text \<open>
  A round of the sender that takes a message; the error of the write is ignored. The write goes into the buffer of the connection, and nothing in the loop flushes it.
\<close>

definition sendPublishChunkStream :: "RtmpRelay \<Rightarrow> RtmpRelay blk" where
  "sendPublishChunkStream relay =
     (if \<not> free_sender relay then None
      else bindB (chan_recv (rr_csChan relay)) (\<lambda>(m, ch).
             case (m, rr_publish relay) of
               (Some rc, Some c) \<Rightarrow>
                 (case cc_Write rc c of
                    (e, c) \<Rightarrow> (case ignore_err e of Some e \<Rightarrow> Some (Inl e) | None \<Rightarrow> retB (relay\<lparr>rr_csChan := ch, rr_publish := Some c\<rparr>)))
             | _ \<Rightarrow> Some (Inl (Panic NilDereference))))"

text \<open>The two halves of such a round when the write does not return at once: the message is taken; and, maybe, the \<open>i\<close>-th of these writes returns.\<close>

definition sendPublish_enter :: "RtmpRelay \<Rightarrow> RtmpRelay blk" where
  "sendPublish_enter relay =
     (if \<not> free_sender relay then None
      else bindB (chan_recv (rr_csChan relay)) (\<lambda>(m, ch).
             case m of
               Some rc \<Rightarrow> retB (relay\<lparr>rr_csChan := ch, rr_stuck := rr_stuck relay @ [rc]\<rparr>)
             | None \<Rightarrow> Some (Inl (Panic NilDereference))))"

definition sendPublish_return :: "nat \<Rightarrow> RtmpRelay \<Rightarrow> RtmpRelay blk" where
  "sendPublish_return i relay =
     (if i \<ge> length (rr_stuck relay) then None
      else case rr_publish relay of
             None \<Rightarrow> Some (Inl (Panic NilDereference))
           | Some c \<Rightarrow>
               (case cc_Write (rr_stuck relay ! i) c of
                  (e, c) \<Rightarrow> (case ignore_err e of
                     Some e \<Rightarrow> Some (Inl e)
                   | None \<Rightarrow> retB (relay\<lparr>rr_publish := Some c, rr_stuck := take i (rr_stuck relay) @ drop (Suc i) (rr_stuck relay)\<rparr>))))"

text \<open>A round of the sender that takes the stop command. The \<^verbatim>\<open>break\<close> leaves the \<^verbatim>\<open>select\<close> and not the loop, so that the goroutine stays.\<close>

definition sendPublish_stop :: "RtmpRelay \<Rightarrow> RtmpRelay blk" where
  "sendPublish_stop relay =
     (if \<not> free_sender relay then None
      else case rr_publish relay of
             None \<Rightarrow> Some (Inl (Panic NilDereference))
           | Some c \<Rightarrow> (case cc_Close c of (Some e, _) \<Rightarrow> Some (Inl e) | (None, c) \<Rightarrow> retB (relay\<lparr>rr_publish := Some c\<rparr>)))"

text \<open>\<^verbatim>\<open>Start\<close> returns its error with the relay; \<open>None\<close> when a client never gets an answer.\<close>

definition relay_Start :: "network \<Rightarrow> RtmpRelay \<Rightarrow> (exn option \<times> RtmpRelay) option" where
  "relay_Start net relay =
     (if rr_startflag relay then Some (Some (Err (Errorf ''The rtmprelay already started'')), relay)
      else case cc_Start (net_Parse net) (net_Dial net) (net_Range net) (rr_PlayURL relay) (gostr ''play'') NewConnClient of
             None \<Rightarrow> None
           | Some (Some e, c) \<Rightarrow> Some (Some e, relay\<lparr>rr_play := Some c, rr_publish := Some NewConnClient\<rparr>)
           | Some (None, c) \<Rightarrow>
               (case cc_Start (net_Parse net) (net_Dial net) (net_Range net) (rr_PublishURL relay) (gostr ''publish'') NewConnClient of
                  None \<Rightarrow> None
                | Some (Some e, d) \<Rightarrow>
                    (case cc_Close c of
                       (Some x, c) \<Rightarrow> Some (Some x, relay\<lparr>rr_play := Some c, rr_publish := Some d\<rparr>)
                     | (None, c) \<Rightarrow> Some (Some e, relay\<lparr>rr_play := Some c, rr_publish := Some d\<rparr>))
                | Some (None, d) \<Rightarrow>
                    Some (None, relay\<lparr>rr_play := Some c, rr_publish := Some d, rr_startflag := True,
                      rr_receivers := rr_receivers relay + 1, rr_senders := rr_senders relay + 1\<rparr>)))"

text \<open>\<^verbatim>\<open>Stop\<close> hands the command to a sender over a channel without a buffer, and so waits for one that is at its \<^verbatim>\<open>select\<close>.\<close>

definition relay_Stop :: "RtmpRelay \<Rightarrow> RtmpRelay blk" where
  "relay_Stop relay = (if \<not> rr_startflag relay then retB relay else sendPublish_stop (relay\<lparr>rr_startflag := False\<rparr>))"

section \<open>The two goroutines together\<close>

datatype turn = Receive | Send

fun relay_run :: "turn list \<Rightarrow> RtmpRelay \<Rightarrow> RtmpRelay blk" where
  "relay_run [] relay = retB relay"
| "relay_run (Receive # ts) relay = bindB (rcvPlayChunkStream relay) (relay_run ts)"
| "relay_run (Send # ts) relay = bindB (sendPublishChunkStream relay) (relay_run ts)"

text \<open>The messages of the first rounds of the receiver, and what a connection becomes when messages are written to it.\<close>

fun incoming :: "nat \<Rightarrow> ConnClient \<Rightarrow> ChunkStream list" where
  "incoming 0 c = []"
| "incoming (Suc n) c = (case relay_message c of Inr (Some rc, c) \<Rightarrow> rc # incoming n c | _ \<Rightarrow> [])"

definition writes :: "ChunkStream list \<Rightarrow> ConnClient \<Rightarrow> ConnClient" where
  "writes ms c = fold (\<lambda>m c. snd (cc_Write m c)) ms c"

lemma writes_simps [simp]:
  "writes [] c = c" "writes (m # ms) c = writes ms (snd (cc_Write m c))"
  by (simp_all add: writes_def)

text \<open>How a round that succeeds changes the relay.\<close>

lemma bindB_retB: "bindB m f = retB y \<longleftrightarrow> (\<exists>x. m = retB x \<and> f x = retB y)"
  by (auto simp: bindB_def split: option.split sum.split)

lemma chan_send_retB: "chan_send x ch = retB ch' \<longleftrightarrow> \<not> ch_closed ch \<and> length (ch_buf ch) < ch_cap ch \<and> ch' = ch\<lparr>ch_buf := ch_buf ch @ [x]\<rparr>"
  by (auto simp: chan_send_def)

lemma rcv_round:
  assumes "rcvPlayChunkStream relay = retB relay'" and "rr_startflag relay" and "rr_play relay = Some c"
  shows "0 < rr_receivers relay \<and> (\<exists>m c' ch. relay_message c = Inr (m, c') \<and>
     relay' = relay\<lparr>rr_play := Some c', rr_csChan := ch, rr_receivers := (if m = None then rr_receivers relay - 1 else rr_receivers relay)\<rparr> \<and>
     ch = (rr_csChan relay)\<lparr>ch_buf := ch_buf (rr_csChan relay) @ (case m of Some rc \<Rightarrow> if forwarded rc then [rc] else [] | None \<Rightarrow> [])\<rparr>)"
proof -
  have z: "0 < rr_receivers relay" using assms(1) by (simp add: rcvPlayChunkStream_def split: if_splits)
  then have b: "bindB (Some (relay_message c)) (\<lambda>(m, c).
      case m of
        None \<Rightarrow> retB (relay\<lparr>rr_play := Some c, rr_receivers := rr_receivers relay - 1\<rparr>)
      | Some rc \<Rightarrow>
          if forwarded rc then bindB (chan_send rc (rr_csChan relay)) (\<lambda>ch. retB (relay\<lparr>rr_play := Some c, rr_csChan := ch\<rparr>))
          else retB (relay\<lparr>rr_play := Some c\<rparr>)) = retB relay'"
    using assms by (simp add: rcvPlayChunkStream_def)
  then obtain m c' where m: "relay_message c = Inr (m, c')" by (auto simp only: bindB_retB)
  show ?thesis
  proof (cases m)
    case None
    with b m z show ?thesis by simp
  next
    case (Some rc)
    with b m z show ?thesis by (cases "forwarded rc") (auto simp: bindB_retB chan_send_retB)
  qed
qed

lemma send_round:
  assumes "sendPublishChunkStream relay = retB relay'" and "rr_publish relay = Some d" and "\<not> ch_closed (rr_csChan relay)"
  shows "\<exists>rc rest. ch_buf (rr_csChan relay) = rc # rest \<and>
     relay' = relay\<lparr>rr_csChan := (rr_csChan relay)\<lparr>ch_buf := rest\<rparr>, rr_publish := Some (snd (cc_Write rc d))\<rparr>"
proof -
  have z: "free_sender relay" using assms(1) by (simp add: sendPublishChunkStream_def split: if_splits)
  show ?thesis
  proof (cases "ch_buf (rr_csChan relay)")
    case Nil
    with assms z show ?thesis by (simp add: sendPublishChunkStream_def chan_recv_def)
  next
    case (Cons rc rest)
    obtain e d' where "cc_Write rc d = (e, d')" by force
    with assms z Cons show ?thesis by (cases "ignore_err e") (simp_all add: sendPublishChunkStream_def chan_recv_def)
  qed
qed

definition pending :: "RtmpRelay \<Rightarrow> nat \<Rightarrow> ConnClient \<Rightarrow> ChunkStream list" where
  "pending relay n c = ch_buf (rr_csChan relay) @ (if rr_receivers relay = 1 then filter forwarded (incoming n c) else [])"

lemma relay_run_order:
  assumes "relay_run ts relay = retB relay'" and "rr_startflag relay" and "rr_play relay = Some c" and "rr_publish relay = Some d"
    and "\<not> ch_closed (rr_csChan relay)" and "rr_receivers relay \<le> 1"
  shows "\<exists>sent. pending relay (length (filter (\<lambda>t. t = Receive) ts)) c = sent @ ch_buf (rr_csChan relay') \<and>
     length sent = length (filter (\<lambda>t. t = Send) ts) \<and> rr_publish relay' = Some (writes sent d)"
  using assms
proof (induction ts arbitrary: relay c d)
  case Nil
  then show ?case by (simp add: pending_def)
next
  case (Cons t ts)
  show ?case
  proof (cases t)
    case Receive
    then obtain r where r: "rcvPlayChunkStream relay = retB r" "relay_run ts r = retB relay'"
      using Cons.prems(1) by (auto simp: bindB_retB)
    obtain m c' ch where m: "0 < rr_receivers relay" "relay_message c = Inr (m, c')"
        "r = relay\<lparr>rr_play := Some c', rr_csChan := ch, rr_receivers := (if m = None then rr_receivers relay - 1 else rr_receivers relay)\<rparr>"
        "ch = (rr_csChan relay)\<lparr>ch_buf := ch_buf (rr_csChan relay) @ (case m of Some rc \<Rightarrow> if forwarded rc then [rc] else [] | None \<Rightarrow> [])\<rparr>"
      using rcv_round [OF r(1) Cons.prems(2,3)] by blast
    have one: "rr_receivers relay = 1" using m(1) Cons.prems(6) by simp
    have f: "rr_startflag r" "rr_play r = Some c'" "rr_publish r = Some d" "\<not> ch_closed (rr_csChan r)" "rr_receivers r \<le> 1"
      using Cons.prems(2-6) m(3,4) by simp_all
    obtain sent where s: "pending r (length (filter (\<lambda>t. t = Receive) ts)) c' = sent @ ch_buf (rr_csChan relay')"
        "length sent = length (filter (\<lambda>t. t = Send) ts)" "rr_publish relay' = Some (writes sent d)"
      using Cons.IH [OF r(2) f] by blast
    moreover have "pending relay (Suc n) c = pending r n c'" for n
      using one m(2-4) by (cases m) (simp_all add: pending_def)
    ultimately show ?thesis using Receive by auto
  next
    case Send
    then obtain r where r: "sendPublishChunkStream relay = retB r" "relay_run ts r = retB relay'"
      using Cons.prems(1) by (auto simp: bindB_retB)
    obtain rc rest where rc: "ch_buf (rr_csChan relay) = rc # rest"
        "r = relay\<lparr>rr_csChan := (rr_csChan relay)\<lparr>ch_buf := rest\<rparr>, rr_publish := Some (snd (cc_Write rc d))\<rparr>"
      using send_round [OF r(1) Cons.prems(4,5)] by blast
    obtain sent where s: "pending r (length (filter (\<lambda>t. t = Receive) ts)) c = sent @ ch_buf (rr_csChan relay')"
        "length sent = length (filter (\<lambda>t. t = Send) ts)" "rr_publish relay' = Some (writes sent (snd (cc_Write rc d)))"
      using Cons.IH [OF r(2), of c "snd (cc_Write rc d)"] Cons.prems(2-6) rc(2) by auto
    moreover have "pending relay n c = rc # pending r n c" for n using rc by (simp add: pending_def)
    ultimately show ?thesis using Send by (intro exI [of _ "rc # sent"]) simp
  qed
qed

section \<open>What comes out on the wire\<close>

lemma message_bytes_same: "same_message m cs \<Longrightarrow> message_bytes k cs = message_bytes k m"
  by (simp add: same_message_def message_bytes_def first_header_def next_header_def basic_header_def)

lemma forwarded_same:
  assumes "same_message (chooseCSID m) cs" and "forwarded m" and "ok_message k m"
  shows "same_message (chooseCSID m) (chooseCSID cs) \<and> ok_message w cs \<and> next_size w cs = w \<and> forwarded cs"
  using assms by (auto simp: same_message_def forwarded_def ok_message_def valid_message_def chooseCSID_def next_size_def)

text \<open>Messages that a server sends behind its answer to \<^verbatim>\<open>play\<close>, but for commands.\<close>

lemma relay_receives:
  assumes "ok_messages k ms" and "list_all (\<lambda>m. TypeID m \<noteq> 20 \<and> TypeID m \<noteq> 17) ms"
    and "rr_startflag relay" and "rr_receivers relay = 1" and "rr_play relay = Some c" and "cc_conn c = Some conn" and "ready conn"
    and "remoteChunkSize conn = k" and "k \<noteq> 0" and "rd_in (conn_rw conn) = messages_bytes k ms @ rest" and "\<not> ch_closed (rr_csChan relay)"
    and "length (ch_buf (rr_csChan relay)) + length (filter forwarded ms) \<le> ch_cap (rr_csChan relay)"
  shows "\<exists>c' cs. relay_run (replicate (length ms) Receive) relay =
       retB (relay\<lparr>rr_play := Some c', rr_csChan := (rr_csChan relay)\<lparr>ch_buf := ch_buf (rr_csChan relay) @ cs\<rparr>\<rparr>) \<and>
     list_all2 (\<lambda>m rc. same_message (chooseCSID m) (chooseCSID rc) \<and> (\<forall>w. ok_message w rc \<and> next_size w rc = w) \<and> forwarded rc) (filter forwarded ms) cs"
  using assms
proof (induction ms arbitrary: k relay c conn)
  case Nil
  then show ?case by (intro exI [of _ c] exI [of _ "[]"]) simp
next
  case (Cons m ms)
  obtain rc conn' where r: "conn_Read emptyChunkStream conn = (None, rc, conn')" "same_message (chooseCSID m) rc" "ready conn'"
      "remoteChunkSize conn' = next_size k m" "rd_in (conn_rw conn') = messages_bytes (next_size k m) ms @ rest"
    using conn_Read_message [of k m conn "messages_bytes (next_size k m) ms @ rest" emptyChunkStream] Cons.prems by auto
  have n: "next_size k m \<noteq> 0" using next_size_nonzero Cons.prems(1,9) by auto
  have t: "TypeID rc = TypeID m" using r(2) by (simp add: same_message_def)
  let ?c = "c\<lparr>cc_conn := Some conn'\<rparr>"
  have m: "relay_message c = Inr (Some rc, ?c)" using r(1) t Cons.prems(2,6) by (simp add: relay_message_def cc_Read_def)
  let ?ch = "(rr_csChan relay)\<lparr>ch_buf := ch_buf (rr_csChan relay) @ (if forwarded m then [rc] else [])\<rparr>"
  let ?r = "relay\<lparr>rr_play := Some ?c, rr_csChan := ?ch\<rparr>"
  have "forwarded rc = forwarded m" using t by (simp add: forwarded_def)
  then have step: "rcvPlayChunkStream relay = retB ?r"
    using m Cons.prems(3-5,11,12) by (cases "forwarded m") (simp_all add: rcvPlayChunkStream_def chan_send_def)
  obtain c' cs where c': "relay_run (replicate (length ms) Receive) ?r =
        retB (?r\<lparr>rr_play := Some c', rr_csChan := ?ch\<lparr>ch_buf := ch_buf ?ch @ cs\<rparr>\<rparr>)"
      "list_all2 (\<lambda>m rc. same_message (chooseCSID m) (chooseCSID rc) \<and> (\<forall>w. ok_message w rc \<and> next_size w rc = w) \<and> forwarded rc) (filter forwarded ms) cs"
    using Cons.IH [of "next_size k m" ?r ?c conn'] Cons.prems r(3-5) n by (auto split: if_splits)
  have "same_message (chooseCSID m) (chooseCSID rc) \<and> (\<forall>w. ok_message w rc \<and> next_size w rc = w) \<and> forwarded rc" if "forwarded m"
    using forwarded_same [OF r(2) that, of k] Cons.prems(1) by auto
  with c' step show ?case by (intro exI [of _ c'] exI [of _ "(if forwarded m then [rc] else []) @ cs"]) simp
qed

lemma relay_sends:
  assumes "list_all2 (\<lambda>m rc. same_message (chooseCSID m) (chooseCSID rc) \<and> (\<forall>w. ok_message w rc \<and> next_size w rc = w) \<and> forwarded rc) ms cs"
    and "ch_buf (rr_csChan relay) = cs" and "free_sender relay" and "rr_publish relay = Some d" and "cc_conn d = Some conn"
    and "chunkSize conn \<noteq> 0" and "rw_good (conn_rw conn)" and "\<And>m. m \<in> set ms \<Longrightarrow> forwarded m"
  shows "\<exists>d' conn'. relay_run (replicate (length cs) Send) relay = retB (relay\<lparr>rr_publish := Some d', rr_csChan := (rr_csChan relay)\<lparr>ch_buf := []\<rparr>\<rparr>) \<and>
     cc_conn d' = Some conn' \<and> rw_stream (conn_rw conn') = rw_stream (conn_rw conn) @ messages_bytes (chunkSize conn) ms"
  using assms
proof (induction ms cs arbitrary: relay d conn rule: list_all2_induct)
  case Nil
  then show ?case by (intro exI [of _ d] exI [of _ conn]) simp
next
  case (Cons m ms rc cs)
  let ?k = "chunkSize conn"
  obtain x conn1 where w: "conn_Write rc conn = (None, x, conn1)" "chunkSize conn1 = ?k"
      "emitted (conn_rw conn) (message_bytes (unat ?k) (chooseCSID rc)) (conn_rw conn1)"
    using conn_Write_emits [of conn rc] Cons.hyps(1) Cons.prems by auto
  let ?d = "d\<lparr>cc_conn := Some conn1\<rparr>" and ?ch = "(rr_csChan relay)\<lparr>ch_buf := cs\<rparr>"
  let ?r = "relay\<lparr>rr_csChan := ?ch, rr_publish := Some ?d\<rparr>"
  have "cc_Write rc d = (None, ?d)"
    using w(1) Cons.hyps(1) Cons.prems(4) by (auto simp: cc_Write_def with_conn_def forwarded_def)
  then have step: "sendPublishChunkStream relay = retB ?r"
    using Cons.prems(1-3) by (simp add: sendPublishChunkStream_def chan_recv_def)
  have "free_sender ?r" using Cons.prems(2) by (simp add: free_sender_def)
  have e: "rw_good (conn_rw conn1)" "rw_stream (conn_rw conn1) = rw_stream (conn_rw conn) @ message_bytes (unat ?k) (chooseCSID rc)"
    using w(3) by (simp_all add: emitted_def)
  have b: "message_bytes (unat ?k) (chooseCSID rc) = message_bytes (unat ?k) (chooseCSID m)" using Cons.hyps(1) message_bytes_same by blast
  have "next_size ?k m = ?k" using Cons.prems(7) [of m] by (auto simp: forwarded_def next_size_def)
  with Cons.IH [of ?r ?d conn1] \<open>free_sender ?r\<close> Cons.prems(5,7) w(2) e b step show ?case by auto
qed

lemma relay_delivers:
  assumes "ok_messages k ms" and "list_all (\<lambda>m. TypeID m \<noteq> 20 \<and> TypeID m \<noteq> 17) ms" and "length (filter forwarded ms) \<le> 500"
    and "rr_startflag relay" and "rr_receivers relay = 1" and "free_sender relay" and "rr_csChan relay = make_chan 500"
    and "rr_play relay = Some c" and "cc_conn c = Some conn" and "ready conn" and "remoteChunkSize conn = k" and "k \<noteq> 0"
    and "rd_in (conn_rw conn) = messages_bytes k ms @ rest"
    and "rr_publish relay = Some d" and "cc_conn d = Some out" and "chunkSize out \<noteq> 0" and "rw_good (conn_rw out)"
  shows "\<exists>relay' d' out'. relay_run (replicate (length ms) Receive @ replicate (length (filter forwarded ms)) Send) relay = retB relay' \<and>
     rr_publish relay' = Some d' \<and> cc_conn d' = Some out' \<and>
     rw_stream (conn_rw out') = rw_stream (conn_rw out) @ messages_bytes (chunkSize out) (filter forwarded ms)"
proof -
  obtain c' cs where r: "relay_run (replicate (length ms) Receive) relay = retB (relay\<lparr>rr_play := Some c', rr_csChan := (make_chan 500)\<lparr>ch_buf := cs\<rparr>\<rparr>)"
      "list_all2 (\<lambda>m rc. same_message (chooseCSID m) (chooseCSID rc) \<and> (\<forall>w. ok_message w rc \<and> next_size w rc = w) \<and> forwarded rc) (filter forwarded ms) cs"
    using relay_receives [OF assms(1,2,4,5,8-13)] assms(3,7) by auto
  let ?r = "relay\<lparr>rr_play := Some c', rr_csChan := (make_chan 500)\<lparr>ch_buf := cs\<rparr>\<rparr>"
  obtain relay' d' out' where "relay_run (replicate (length cs) Send) ?r = retB relay'" "rr_publish relay' = Some d'" "cc_conn d' = Some out'"
      "rw_stream (conn_rw out') = rw_stream (conn_rw out) @ messages_bytes (chunkSize out) (filter forwarded ms)"
    using relay_sends [OF r(2), of ?r d out] assms(6,14-17) by (auto simp: free_sender_def)
  moreover have "relay_run (xs @ ys) s = bindB (relay_run xs s) (relay_run ys)" for xs ys s
    by (induction xs s rule: relay_run.induct) (auto simp: bindB_def split: option.split sum.split)
  moreover have "length cs = length (filter forwarded ms)" using list_all2_lengthD [OF r(2)] by simp
  ultimately show ?thesis using r(1) by auto
qed

text \<open>For any order of the rounds: what is read are the messages of the first server, and what is written goes to the buffered connection.\<close>

lemma incoming_messages:
  assumes "ok_messages k ms" and "list_all (\<lambda>m. TypeID m \<noteq> 20 \<and> TypeID m \<noteq> 17) ms" and "cc_conn c = Some conn" and "ready conn"
    and "remoteChunkSize conn = k" and "k \<noteq> 0" and "rd_in (conn_rw conn) = messages_bytes k ms @ rest" and "n \<le> length ms"
  shows "list_all2 (\<lambda>m rc. same_message (chooseCSID m) (chooseCSID rc) \<and> (\<forall>w. ok_message w rc \<and> next_size w rc = w) \<and> forwarded rc)
     (filter forwarded (take n ms)) (filter forwarded (incoming n c))"
  using assms
proof (induction n arbitrary: k ms c conn)
  case (Suc n)
  obtain m ms' where ms: "ms = m # ms'" using Suc.prems(8) by (cases ms) auto
  obtain rc conn' where r: "conn_Read emptyChunkStream conn = (None, rc, conn')" "same_message (chooseCSID m) rc" "ready conn'"
      "remoteChunkSize conn' = next_size k m" "rd_in (conn_rw conn') = messages_bytes (next_size k m) ms' @ rest"
    using conn_Read_message [of k m conn "messages_bytes (next_size k m) ms' @ rest" emptyChunkStream] Suc.prems ms by auto
  have n: "next_size k m \<noteq> 0" using next_size_nonzero Suc.prems(1,6) ms by auto
  have t: "TypeID rc = TypeID m" using r(2) by (simp add: same_message_def)
  let ?c = "c\<lparr>cc_conn := Some conn'\<rparr>"
  have m: "relay_message c = Inr (Some rc, ?c)" using r(1) t Suc.prems(2,3) ms by (simp add: relay_message_def cc_Read_def)
  have f: "forwarded rc = forwarded m" using t by (simp add: forwarded_def)
  have "same_message (chooseCSID m) (chooseCSID rc) \<and> (\<forall>w. ok_message w rc \<and> next_size w rc = w) \<and> forwarded rc" if "forwarded m"
    using forwarded_same [OF r(2) that, of k] Suc.prems(1) ms by auto
  with Suc.IH [of "next_size k m" ms' ?c conn'] Suc.prems ms r(3-5) n m f show ?case by simp
qed simp

lemma writes_emitted:
  assumes "list_all2 (\<lambda>m rc. same_message (chooseCSID m) (chooseCSID rc) \<and> (\<forall>w. ok_message w rc \<and> next_size w rc = w) \<and> forwarded rc) ms cs"
    and "cc_conn d = Some conn" and "chunkSize conn \<noteq> 0" and "rw_good (conn_rw conn)" and "\<And>m. m \<in> set ms \<Longrightarrow> forwarded m"
  shows "\<exists>conn'. cc_conn (writes cs d) = Some conn' \<and> emitted (conn_rw conn) (messages_bytes (chunkSize conn) ms) (conn_rw conn')"
  using assms
proof (induction ms cs arbitrary: d conn rule: list_all2_induct)
  case Nil
  then show ?case by (simp add: emitted_refl)
next
  case (Cons m ms rc cs)
  let ?k = "chunkSize conn"
  obtain x conn1 where w: "conn_Write rc conn = (None, x, conn1)" "chunkSize conn1 = ?k"
      "emitted (conn_rw conn) (message_bytes (unat ?k) (chooseCSID rc)) (conn_rw conn1)"
    using conn_Write_emits [of conn rc] Cons.hyps(1) Cons.prems by auto
  let ?d = "d\<lparr>cc_conn := Some conn1\<rparr>"
  have d: "cc_Write rc d = (None, ?d)"
    using w(1) Cons.hyps(1) Cons.prems(1) by (auto simp: cc_Write_def with_conn_def forwarded_def)
  have b: "message_bytes (unat ?k) (chooseCSID rc) = message_bytes (unat ?k) (chooseCSID m)" using Cons.hyps(1) message_bytes_same by blast
  have "next_size ?k m = ?k" using Cons.prems(4) [of m] by (auto simp: forwarded_def next_size_def)
  moreover obtain conn' where "cc_conn (writes cs ?d) = Some conn'" "emitted (conn_rw conn1) (messages_bytes ?k ms) (conn_rw conn')"
    using Cons.IH [of ?d conn1] Cons.prems(2,4) w(2) emitted_good [OF w(3)] by auto
  ultimately show ?case using d b emitted_trans [OF w(3)] by auto
qed

text \<open>A relay with one audio message on its way.\<close>

definition demo_message :: ChunkStream where
  "demo_message = emptyChunkStream\<lparr>TypeID := 8, Length := 1, StreamID := 1, Data := [0xaf]\<rparr>"

definition demo_relay :: RtmpRelay where
  "demo_relay = (NewRtmpRelay [] [])\<lparr>rr_startflag := True, rr_receivers := 1, rr_senders := 1,
     rr_play := Some (NewConnClient\<lparr>cc_conn := Some (NewConn (messages_bytes 128 [demo_message]) EOF None 4096)\<rparr>),
     rr_publish := Some (NewConnClient\<lparr>cc_conn := Some (NewConn [] EOF None 4096)\<rparr>)\<rparr>"

lemma demo_conn:
  "ready (NewConn bs EOF None 4096)" "rd_in (conn_rw (NewConn bs EOF None 4096)) = bs" "remoteChunkSize (NewConn bs EOF None 4096) = 128"
  "chunkSize (NewConn bs EOF None 4096) = 128" "rw_good (conn_rw (NewConn bs EOF None 4096))" "rw_stream (conn_rw (NewConn bs EOF None 4096)) = []"
  using NewConn_ready [of bs] by (simp_all add: ready_def) (simp_all add: NewConn_def NewReadWriter_def rw_stream_def bufw_stream_def)

lemma demo_facts:
  "ok_messages 128 [demo_message]" "filter forwarded [demo_message] = [demo_message]" "list_all (\<lambda>m. TypeID m \<noteq> 20 \<and> TypeID m \<noteq> 17) [demo_message]"
  "[demo_message] = filter (\<lambda>m. TypeID m = 8 \<or> TypeID m = 9) [demo_message]"
  by (simp_all add: ok_message_def valid_message_def chooseCSID_def demo_message_def valid_csid_def maxpoolsize_def forwarded_def)

section \<open>Properties\<close>

text \<open>
  C8: a stream that goes through a relay, on the wire. The first server sends messages, other than commands, and the two goroutines run in any order, the receiver for \<open>n\<close> rounds and the
  sender for \<open>k\<close>. Then the bytes that the sender has written to the connection to the second server are the first \<open>k\<close> of the audio and video messages among the first \<open>n\<close>, in order
  and as they would have been written there in the first place; the metadata is lost. Not all of these bytes have left for the second server: the last of them, at most as many as the buffer
  of the connection holds (4 KiB), stay in it, since the relay never flushes, and when they all fit into the buffer nothing has been sent at all. A run with all
  messages received and then all of them sent exists when at most 500 of them are audio or video.
\<close>

theorem relay_forwards:
  assumes "ok_messages chunk ms" and "list_all (\<lambda>m. TypeID m \<noteq> 20 \<and> TypeID m \<noteq> 17) ms"
    and "rr_startflag relay" and "rr_receivers relay = 1" and "free_sender relay" and "rr_csChan relay = make_chan 500"
    and "rr_play relay = Some c" and "cc_conn c = Some conn" and "ready conn" and "remoteChunkSize conn = chunk" and "chunk \<noteq> 0"
    and "rd_in (conn_rw conn) = messages_bytes chunk ms @ rest"
    and "rr_publish relay = Some d" and "cc_conn d = Some out" and "chunkSize out \<noteq> 0" and "rw_good (conn_rw out)"
    and "0 < bw_size (wr (conn_rw out))" and "length (bw_buf (wr (conn_rw out))) \<le> bw_size (wr (conn_rw out))"
    and run: "relay_run ts relay = retB relay'" and n: "n = length (filter (\<lambda>t. t = Receive) ts)" "n \<le> length ms" and k: "k = length (filter (\<lambda>t. t = Send) ts)"
  shows "let media = filter (\<lambda>m. TypeID m = 8 \<or> TypeID m = 9); bs = messages_bytes (chunkSize out) (take k (media (take n ms)))
     in k \<le> length (media (take n ms)) \<and>
        (\<exists>d' out'. rr_publish relay' = Some d' \<and> cc_conn d' = Some out' \<and>
           bw_sent (wr (conn_rw out')) @ bw_buf (wr (conn_rw out')) = bw_sent (wr (conn_rw out)) @ bw_buf (wr (conn_rw out)) @ bs \<and>
           length (bw_buf (wr (conn_rw out'))) \<le> bw_size (wr (conn_rw out)) \<and>
           (length (bw_buf (wr (conn_rw out)) @ bs) \<le> bw_size (wr (conn_rw out)) \<longrightarrow> bw_sent (wr (conn_rw out')) = bw_sent (wr (conn_rw out)))) \<and>
        (length (media ms) \<le> 500 \<longrightarrow> (\<exists>relay''. relay_run (replicate (length ms) Receive @ replicate (length (media ms)) Send) relay = retB relay''))"
proof -
  let ?R = "\<lambda>m rc. same_message (chooseCSID m) (chooseCSID rc) \<and> (\<forall>w. ok_message w rc \<and> next_size w rc = w) \<and> forwarded rc"
  let ?media = "filter forwarded (take n ms)"
  have f: "filter (\<lambda>m. TypeID m = 8 \<or> TypeID m = 9) = filter forwarded" by (simp add: forwarded_def [abs_def])
  obtain sent where s: "filter forwarded (incoming n c) = sent @ ch_buf (rr_csChan relay')" "length sent = k" "rr_publish relay' = Some (writes sent d)"
    using relay_run_order [OF run assms(3,7,13)] assms(4,6) n(1) k by (auto simp: pending_def)
  have l: "list_all2 ?R ?media (sent @ ch_buf (rr_csChan relay'))"
    using incoming_messages [OF assms(1,2,8-12) n(2)] s(1) by simp
  then have kl: "k \<le> length ?media" using list_all2_lengthD [OF l] s(2) by simp
  have "list_all2 ?R (take k ?media) sent" using list_all2_takeI [OF l, of k] s(2) by simp
  moreover have "forwarded m" if "m \<in> set (take k ?media)" for m using that by (auto dest: in_set_takeD)
  ultimately obtain out' where o: "cc_conn (writes sent d) = Some out'" "emitted (conn_rw out) (messages_bytes (chunkSize out) (take k ?media)) (conn_rw out')"
    using writes_emitted [OF _ assms(14-16)] by blast
  have g: "bufw_grows (wr (conn_rw out)) (wr (conn_rw out'))"
      "bw_sent (wr (conn_rw out')) @ bw_buf (wr (conn_rw out')) = bw_sent (wr (conn_rw out)) @ bw_buf (wr (conn_rw out)) @ messages_bytes (chunkSize out) (take k ?media)"
    using o(2) by (simp_all add: emitted_def rw_stream_def bufw_stream_def)
  have st: "bufw_stream (wr (conn_rw out')) = bw_sent (wr (conn_rw out)) @ bw_buf (wr (conn_rw out)) @ messages_bytes (chunkSize out) (take k ?media)"
    using g(2) by (simp add: bufw_stream_def)
  have "\<exists>relay''. relay_run (replicate (length ms) Receive @ replicate (length (filter forwarded ms)) Send) relay = retB relay''" if "length (filter forwarded ms) \<le> 500"
    using relay_delivers [OF assms(1,2) that assms(3-16)] by blast
  with kl s(3) o(1) g(2) bufw_growsD(3) [OF g(1) assms(17,18)] bufw_growsD(4) [OF g(1)] show ?thesis unfolding f Let_def st by simp
qed

lemma demo_run:
  "\<exists>relay'. relay_run [Receive, Send] demo_relay = retB relay'"
proof -
  let ?n = "NewConn (messages_bytes 128 [demo_message]) EOF None 4096" and ?o = "NewConn [] EOF None 4096"
  have "rd_in (conn_rw ?n) = messages_bytes 128 [demo_message] @ []" by (simp only: demo_conn append_Nil2)
  then show ?thesis
    using relay_delivers [OF demo_facts(1,3), of demo_relay "NewConnClient\<lparr>cc_conn := Some ?n\<rparr>" ?n "[]" "NewConnClient\<lparr>cc_conn := Some ?o\<rparr>" ?o] demo_facts(2)
    by (auto simp add: demo_relay_def NewRtmpRelay_def free_sender_def demo_conn simp del: messages_bytes.simps)
qed

theorem relay_forwards_witness:
  "\<exists>relay' d' out'. relay_run [Receive, Send] demo_relay = retB relay' \<and> rr_publish relay' = Some d' \<and> cc_conn d' = Some out' \<and>
     bw_buf (wr (conn_rw out')) = messages_bytes 128 [demo_message] \<and> bw_sent (wr (conn_rw out')) = []"
proof -
  let ?n = "NewConn (messages_bytes 128 [demo_message]) EOF None 4096" and ?o = "NewConn [] EOF None 4096"
  have i: "rd_in (conn_rw ?n) = messages_bytes 128 [demo_message] @ []" by (simp only: demo_conn append_Nil2)
  have w: "bw_size (wr (conn_rw ?o)) = 4096" "bw_buf (wr (conn_rw ?o)) = []" "bw_sent (wr (conn_rw ?o)) = []"
    by (simp_all add: NewConn_def NewReadWriter_def)
  have l: "length (messages_bytes 128 [demo_message]) \<le> 4096"
    by (simp add: message_bytes_def first_header_def basic_header_def demo_message_def chooseCSID_def ext_bytes_def)
  obtain relay' where r: "relay_run [Receive, Send] demo_relay = retB relay'" using demo_run by blast
  have one: "take 1 [demo_message] = [demo_message]" by simp
  let ?c = "NewConnClient\<lparr>cc_conn := Some ?n\<rparr>" and ?d = "NewConnClient\<lparr>cc_conn := Some ?o\<rparr>"
  have d: "rr_startflag demo_relay" "rr_receivers demo_relay = 1" "free_sender demo_relay" "rr_csChan demo_relay = make_chan 500"
      "rr_play demo_relay = Some ?c" "rr_publish demo_relay = Some ?d" "cc_conn ?c = Some ?n" "cc_conn ?d = Some ?o"
    by (simp_all add: demo_relay_def NewRtmpRelay_def free_sender_def del: messages_bytes.simps)
  have n: "1 = length (filter (\<lambda>t. t = Receive) [Receive, Send])" "1 \<le> length [demo_message]" "1 = length (filter (\<lambda>t. t = Send) [Receive, Send])" by simp_all
  have z: "(128 :: u32) \<noteq> 0" "chunkSize ?o \<noteq> 0" "0 < bw_size (wr (conn_rw ?o))" "length (bw_buf (wr (conn_rw ?o))) \<le> bw_size (wr (conn_rw ?o))"
    by (simp_all add: demo_conn w)
  note t = relay_forwards [OF demo_facts(1,3) d(1-5,7) demo_conn(1,3) z(1) i d(6,8) z(2) demo_conn(5) z(3,4) r n, unfolded Let_def one demo_facts(4) [symmetric] one w demo_conn append_Nil]
  then obtain d' out' where o: "rr_publish relay' = Some d'" "cc_conn d' = Some out'"
      "bw_sent (wr (conn_rw out')) @ bw_buf (wr (conn_rw out')) = messages_bytes 128 [demo_message]"
      "length (messages_bytes 128 [demo_message]) \<le> 4096 \<longrightarrow> bw_sent (wr (conn_rw out')) = []"
    by blast
  from l o(3,4) have "bw_sent (wr (conn_rw out')) = []" "bw_buf (wr (conn_rw out')) = messages_bytes 128 [demo_message]" by (simp_all only: append_Nil)
  with r o(1,2) show ?thesis by blast
qed

text \<open>
  C9: whatever the order in which the two goroutines of a relay run, the messages written to the second server are the audio and video messages read from the first one, in
  the order of arrival, and the rest of these is in the channel; the metadata of the stream and everything else is left out. A run ends early only when a goroutine waits
  or panics.
\<close>

theorem relay_in_order:
  assumes "relay_run ts relay = retB relay'" and "rr_startflag relay" and "rr_play relay = Some c" and "rr_publish relay = Some d"
    and "rr_csChan relay = make_chan 500" and "rr_receivers relay = 1"
  shows "let media = filter (\<lambda>rc. TypeID rc = 8 \<or> TypeID rc = 9) (incoming (length (filter (\<lambda>t. t = Receive) ts)) c);
             k = length (filter (\<lambda>t. t = Send) ts)
     in rr_publish relay' = Some (writes (take k media) d) \<and> ch_buf (rr_csChan relay') = drop k media \<and> k \<le> length media"
proof -
  have "filter forwarded = filter (\<lambda>rc. TypeID rc = 8 \<or> TypeID rc = 9)" by (simp add: forwarded_def [abs_def])
  moreover obtain sent where "pending relay (length (filter (\<lambda>t. t = Receive) ts)) c = sent @ ch_buf (rr_csChan relay')"
      "length sent = length (filter (\<lambda>t. t = Send) ts)" "rr_publish relay' = Some (writes sent d)"
    using relay_run_order [OF assms(1-4)] assms(5,6) by auto
  ultimately show ?thesis using assms(5,6) by (simp add: pending_def Let_def)
qed

theorem relay_in_order_witness:
  "\<exists>relay' ms. relay_run [Receive, Send] demo_relay = retB relay' \<and> length ms = 1 \<and> ch_buf (rr_csChan relay') = [] \<and>
     rr_publish relay' = Some (writes ms (NewConnClient\<lparr>cc_conn := Some (NewConn [] EOF None 4096)\<rparr>))"
proof -
  let ?n = "NewConn (messages_bytes 128 [demo_message]) EOF None 4096" and ?o = "NewConn [] EOF None 4096"
  obtain relay' where r: "relay_run [Receive, Send] demo_relay = retB relay'" using demo_run by blast
  define media where "media = filter (\<lambda>rc. TypeID rc = 8 \<or> TypeID rc = 9) (incoming 1 (NewConnClient\<lparr>cc_conn := Some ?n\<rparr>))"
  have "rr_publish relay' = Some (writes (take 1 media) (NewConnClient\<lparr>cc_conn := Some ?o\<rparr>)) \<and> ch_buf (rr_csChan relay') = drop 1 media \<and> 1 \<le> length media"
    using relay_in_order [OF r, of "NewConnClient\<lparr>cc_conn := Some ?n\<rparr>" "NewConnClient\<lparr>cc_conn := Some ?o\<rparr>"]
    by (simp add: demo_relay_def NewRtmpRelay_def media_def Let_def del: messages_bytes.simps)
  moreover have "length media \<le> 1"
    by (simp add: media_def split: sum.split option.split)
  ultimately show ?thesis using r by (intro exI [of _ relay'] exI [of _ "take 1 media"]) simp
qed

text \<open>A receiver whose connection has failed otherwise than by its regular end.\<close>

definition broken :: "ConnClient \<Rightarrow> bool" where
  "broken c \<longleftrightarrow> (\<exists>conn e. cc_conn c = Some conn \<and> readError (conn_rw conn) = Some e \<and> e \<noteq> EOF \<and> pool_inv (conn_pool conn))"

lemma relay_message_broken:
  assumes "broken c"
  shows "\<exists>c'. relay_message c = Inr (Some emptyChunkStream, c') \<and> broken c'"
proof -
  obtain conn e where c: "cc_conn c = Some conn" "readError (conn_rw conn) = Some e" "e \<noteq> EOF" "pool_inv (conn_pool conn)"
    using assms by (auto simp: broken_def)
  then have u: "ReadUintBE 1 (conn_rw conn) = (0, Some e, conn_rw conn)" by (simp add: ReadUintBE_def)
  obtain e' conn' where r: "conn_Read emptyChunkStream conn = (Some (Err e'), emptyChunkStream, conn')" "e' \<noteq> EOF"
      "readError (conn_rw conn') = Some e" "pool_inv (conn_pool conn')"
    using conn_Read_failed [OF u c(2,4), of emptyChunkStream] c(3) by auto
  have "broken (c\<lparr>cc_conn := Some conn'\<rparr>)" using r c(3) by (auto simp: broken_def)
  moreover have "relay_message c = Inr (Some emptyChunkStream, c\<lparr>cc_conn := Some conn'\<rparr>)"
    using c(1) r(1,2) by (cases e') (simp_all add: relay_message_def cc_Read_def emptyChunkStream_def)
  ultimately show ?thesis by blast
qed

text \<open>
  When the connection to the first server breaks otherwise than by its regular end, the receiver does not notice: every round of it succeeds at once, however many
  there are, and neither ends it nor stops the relay nor forwards anything.
\<close>

theorem broken_relay_spins:
  assumes "rr_startflag relay" and "rr_play relay = Some c" and "broken c" and "0 < rr_receivers relay"
  shows "\<exists>c'. relay_run (replicate n Receive) relay = retB (relay\<lparr>rr_play := Some c'\<rparr>) \<and> broken c'"
  using assms
proof (induction n arbitrary: relay c)
  case 0
  then show ?case by (intro exI [of _ c]) simp
next
  case (Suc n)
  obtain c' where c': "relay_message c = Inr (Some emptyChunkStream, c')" "broken c'" using relay_message_broken [OF Suc.prems(3)] by blast
  let ?r = "relay\<lparr>rr_play := Some c'\<rparr>"
  have "rcvPlayChunkStream relay = retB ?r"
    using Suc.prems c'(1) by (simp add: rcvPlayChunkStream_def forwarded_def emptyChunkStream_def)
  with Suc.IH [of ?r c'] Suc.prems c'(2) show ?case by simp
qed

lemma then_do_None: "then_do r f = (None, y) \<longleftrightarrow> (\<exists>x. r = (None, x) \<and> f x = (None, y))"
  by (cases r; cases "fst r") (auto simp: then_do_def)

lemma resp_values_conn: "resp_values k vs c = (e, c') \<Longrightarrow> cc_conn c' = cc_conn c"
proof (induction vs arbitrary: k c)
  case (Cons v vs)
  obtain e1 c1 where v: "resp_value k v c = (e1, c1)" by force
  then have "cc_conn c1 = cc_conn c" by (cases v) (auto simp: Let_def split: if_splits)
  with Cons v show ?case by (cases e1) (auto simp: then_do_def)
qed simp

lemma readRespMsg_connected: "readRespMsg c = (None, c') \<Longrightarrow> cc_conn c' \<noteq> None"
  by (auto simp: readRespMsg_def then_do_None dest!: resp_values_conn split: option.splits prod.splits)

lemma cc_Start_connected:
  assumes "cc_Start parse dial rng url method c = Some (None, c')" and "method = gostr ''publish'' \<or> method = gostr ''play''"
  shows "cc_conn c' \<noteq> None"
proof -
  have "gostr ''play'' \<noteq> gostr ''publish''" by (simp add: gostr_def)
  then have "\<exists>c2. writePublishMsg c2 = (None, c') \<or> writePlayMsg c2 = (None, c')"
    using assms by (fastforce simp: cc_Start_def start_commands_def Let_def split: sum.splits option.splits prod.splits)
  then show ?thesis by (auto simp: writePublishMsg_def writePlayMsg_def Let_def then_do_None dest: readRespMsg_connected)
qed

theorem broken_relay_spins_witness:
  "\<exists>c'. relay_run (replicate 1000 Receive) (demo_relay\<lparr>rr_play := Some (NewConnClient\<lparr>cc_conn := Some (NewConn [] NetError None 4096\<lparr>conn_rw := (conn_rw (NewConn [] NetError None 4096))\<lparr>readError := Some NetError\<rparr>\<rparr>)\<rparr>)\<rparr>) = retB (demo_relay\<lparr>rr_play := Some c'\<rparr>) \<and> broken c'"
proof -
  let ?n = "NewConn [] NetError None 4096"
  let ?c = "NewConnClient\<lparr>cc_conn := Some (?n\<lparr>conn_rw := (conn_rw ?n)\<lparr>readError := Some NetError\<rparr>\<rparr>)\<rparr>"
  have "pool_inv NewPool" by (simp add: NewPool_inv)
  then have b: "broken ?c" by (simp add: broken_def NewConn_def)
  have "\<exists>c'. relay_run (replicate 1000 Receive) (demo_relay\<lparr>rr_play := Some ?c\<rparr>) = retB (demo_relay\<lparr>rr_play := Some ?c, rr_play := Some c'\<rparr>) \<and> broken c'"
    by (rule broken_relay_spins [OF _ _ b]) (simp_all add: demo_relay_def)
  then show ?thesis by simp
qed

text \<open>
  Stopping a relay that has just been started does not wait: the sender is at its \<^verbatim>\<open>select\<close>; the connection to the second server is closed. The
  receiver closes its connection and ends in the next round it begins.
\<close>

theorem relay_stops:
  assumes "relay_Start net (NewRtmpRelay playURL publishURL) = Some (None, relay)"
  shows "\<exists>d r c. relay_Stop relay = retB (relay\<lparr>rr_startflag := False, rr_publish := Some d\<rparr>) \<and>
     rcvPlayChunkStream (relay\<lparr>rr_startflag := False, rr_publish := Some d\<rparr>) = retB r \<and> rr_receivers r = 0 \<and> rr_play r = Some c"
proof -
  obtain c d where s: "cc_Start (net_Parse net) (net_Dial net) (net_Range net) playURL (gostr ''play'') NewConnClient = Some (None, c)"
      "cc_Start (net_Parse net) (net_Dial net) (net_Range net) publishURL (gostr ''publish'') NewConnClient = Some (None, d)"
      "relay = (NewRtmpRelay playURL publishURL)\<lparr>rr_play := Some c, rr_publish := Some d, rr_startflag := True, rr_receivers := 1, rr_senders := 1\<rparr>"
    using assms by (auto simp: relay_Start_def NewRtmpRelay_def split: option.splits prod.splits)
  have "cc_conn c \<noteq> None" "cc_conn d \<noteq> None" using cc_Start_connected [OF s(1)] cc_Start_connected [OF s(2)] by simp_all
  then obtain cn dn where n: "cc_conn c = Some cn" "cc_conn d = Some dn" by auto
  let ?d = "d\<lparr>cc_conn := Some (conn_Close dn)\<rparr>" and ?c = "c\<lparr>cc_conn := Some (conn_Close cn)\<rparr>"
  have "relay_Stop relay = retB (relay\<lparr>rr_startflag := False, rr_publish := Some ?d\<rparr>)"
    using n s(3) by (simp add: relay_Stop_def sendPublish_stop_def cc_Close_def with_conn_def free_sender_def NewRtmpRelay_def)
  moreover have "rcvPlayChunkStream (relay\<lparr>rr_startflag := False, rr_publish := Some ?d\<rparr>) =
      retB (relay\<lparr>rr_startflag := False, rr_publish := Some ?d, rr_play := Some ?c, rr_receivers := 0\<rparr>)"
    using n s(3) by (simp add: rcvPlayChunkStream_def cc_Close_def with_conn_def)
  ultimately show ?thesis using s(3) by (intro exI conjI) (assumption | simp)+
qed

lemma relay_example:
  "\<exists>net relay. relay_Start net (NewRtmpRelay playURL publishURL) = Some (None, relay)"
proof -
  obtain conn S1 where p: "accepts_publisher conn S1 []" using accepts_publisher_exists by blast
  let ?parse = "\<lambda>_ :: bytes. Inr (gostr ''host'', gostr ''/live/movie'', []) :: (bytes \<times> bytes \<times> bytes) res"
  have r: "range_order id" by (simp add: range_order_def)
  obtain c where "cc_Start ?parse (\<lambda>_. Inr conn) id playURL (gostr ''play'') NewConnClient = Some (None, c)"
    using start_plays [OF example_url _ r p [unfolded accepts_publisher_def], of "\<lambda>_. Inr conn" playURL] by (auto simp: gostr_def)
  moreover obtain d where "cc_Start ?parse (\<lambda>_. Inr conn) id publishURL (gostr ''publish'') NewConnClient = Some (None, d)"
    using start_publishes [OF example_url _ r p, of "\<lambda>_. Inr conn" publishURL] by blast
  ultimately show ?thesis
    by (intro exI [of _ "\<lparr>net_Parse = ?parse, net_Dial = \<lambda>_. Inr conn, net_Range = id\<rparr>"]) (simp add: relay_Start_def NewRtmpRelay_def)
qed

theorem relay_stops_witness:
  "\<exists>net relay d. relay_Start net (NewRtmpRelay (gostr ''rtmp://a/live/movie'') (gostr ''rtmp://b/live/movie'')) = Some (None, relay) \<and>
     relay_Stop relay = retB (relay\<lparr>rr_startflag := False, rr_publish := Some d\<rparr>)"
  using relay_example [of "gostr ''rtmp://a/live/movie''" "gostr ''rtmp://b/live/movie''"] relay_stops by blast

end
