(* ===== verification/Api.thy ===== *)
theory Api
  imports Relay StreamRounds
begin

text \<open>
  \<^verbatim>\<open>src/protocol/api/api.go\<close>: the HTTP interface that starts and stops relays, manages the keys of the rooms and lists the streams.

  A handler returns its response, the status and what is put into the field \<^verbatim>\<open>data\<close> of the answer (nothing, a string, or a byte slice), with the new state; \<open>None\<close> says that it waits forever. The form of a request is
  the function \<^verbatim>\<open>Form.Get\<close>, or \<open>None\<close> when it cannot be parsed. Relays are on a heap, since their goroutines go on after a request; \<open>etext\<close>
  is the text of an error.
\<close>

section \<open>State and responses\<close>

datatype api_data = NoData | Text bytes | Blob bytes

record Response =
  Status :: nat
  resp_Data :: api_data

record 'c ApiServer =
  api_session :: "bytes \<rightharpoonup> nat"
  api_relays :: "RtmpRelay list"
  api_rtmpAddr :: bytes
  api_RoomKeys :: 'c

definition api_NewServer :: "bytes \<Rightarrow> 'c \<Rightarrow> 'c ApiServer" where
  "api_NewServer rtmpAddr keys = \<lparr>api_session = Map.empty, api_relays = [], api_rtmpAddr = rtmpAddr, api_RoomKeys = keys\<rparr>"

type_synonym form = "(string \<Rightarrow> bytes) option"

section \<open>Relays\<close>

text \<open>Stopping the relay of a session, and starting one: the part that pulling and pushing have in common.\<close>

definition stop_session :: "bytes \<Rightarrow> nat \<Rightarrow> 'c ApiServer \<Rightarrow> 'c ApiServer blk" where
  "stop_session keyString a s =
     bindB (relay_Stop (api_relays s ! a)) (\<lambda>relay.
       retB (s\<lparr>api_relays := (api_relays s)[a := relay], api_session := (api_session s)(keyString := None)\<rparr>))"

definition start_session :: "network \<Rightarrow> bytes \<Rightarrow> bytes \<Rightarrow> bytes \<Rightarrow> 'c ApiServer \<Rightarrow> (exn option \<times> 'c ApiServer) blk" where
  "start_session net keyString playURL publishURL s =
     (case relay_Start net (NewRtmpRelay playURL publishURL) of
        None \<Rightarrow> None
      | Some (Some (Err e), relay) \<Rightarrow> retB (Some (Err e), s\<lparr>api_relays := api_relays s @ [relay]\<rparr>)
      | Some (Some e, relay) \<Rightarrow> Some (Inl e)
      | Some (None, relay) \<Rightarrow>
          retB (None, s\<lparr>api_relays := api_relays s @ [relay], api_session := (api_session s)(keyString \<mapsto> length (api_relays s))\<rparr>))"

definition local_url :: "'c ApiServer \<Rightarrow> bytes \<Rightarrow> bytes \<Rightarrow> bytes" where
  "local_url s app name = gostr ''rtmp://127.0.0.1'' @ api_rtmpAddr s @ gostr ''/'' @ app @ gostr ''/'' @ name"

definition handlePull :: "(exn \<Rightarrow> bytes) \<Rightarrow> network \<Rightarrow> form \<Rightarrow> 'c ApiServer \<Rightarrow> (Response \<times> 'c ApiServer) blk" where
  "handlePull etext net form s =
     (case form of
        None \<Rightarrow> retB (\<lparr>Status = 400, resp_Data = Text (gostr ''url: /control/pull?&oper=start&app=live&name=123456&url=rtmp://192.168.16.136/live/123456'')\<rparr>, s)
      | Some get \<Rightarrow>
          (let oper = get ''oper''; app = get ''app''; name = get ''name''; url = get ''url''
           in if app = [] \<or> name = [] \<or> url = []
              then retB (\<lparr>Status = 400, resp_Data = Text (gostr ''control push parameter error, please check them.'')\<rparr>, s)
              else let remoteurl = local_url s app name; localurl = url; keyString = gostr ''pull:'' @ app @ gostr ''/'' @ name
                   in if oper = gostr ''stop''
                      then (case api_session s keyString of
                              None \<Rightarrow> retB (\<lparr>Status = 400, resp_Data = Text (gostr ''session key['' @ keyString @ gostr ''] not exist, please check it again.'')\<rparr>, s)
                            | Some a \<Rightarrow> bindB (stop_session keyString a s) (\<lambda>s.
                                retB (\<lparr>Status = 400, resp_Data = Text (gostr ''<h1>push url stop '' @ url @ gostr '' ok</h1></br>'')\<rparr>, s)))
                      else bindB (start_session net keyString localurl remoteurl s) (\<lambda>(e, s).
                             retB (\<lparr>Status = 400, resp_Data = Text (case e of Some e \<Rightarrow> gostr ''push error='' @ etext e
                               | None \<Rightarrow> gostr ''<h1>push url start '' @ url @ gostr '' ok</h1></br>'')\<rparr>, s))))"

definition handlePush :: "(exn \<Rightarrow> bytes) \<Rightarrow> network \<Rightarrow> form \<Rightarrow> 'c ApiServer \<Rightarrow> (Response \<times> 'c ApiServer) blk" where
  "handlePush etext net form s =
     (case form of
        None \<Rightarrow> retB (\<lparr>Status = 200, resp_Data = Text (gostr ''url: /control/push?&oper=start&app=live&name=123456&url=rtmp://192.168.16.136/live/123456'')\<rparr>, s)
      | Some get \<Rightarrow>
          (let oper = get ''oper''; app = get ''app''; name = get ''name''; url = get ''url''
           in if app = [] \<or> name = [] \<or> url = []
              then retB (\<lparr>Status = 200, resp_Data = Text (gostr ''control push parameter error, please check them.'')\<rparr>, s)
              else let localurl = local_url s app name; remoteurl = url; keyString = gostr ''push:'' @ app @ gostr ''/'' @ name
                   in if oper = gostr ''stop''
                      then (case api_session s keyString of
                              None \<Rightarrow> retB (\<lparr>Status = 200, resp_Data = Text (gostr ''<h1>session key['' @ keyString @ gostr ''] not exist, please check it again.</h1>'')\<rparr>, s)
                            | Some a \<Rightarrow> bindB (stop_session keyString a s) (\<lambda>s.
                                retB (\<lparr>Status = 200, resp_Data = Text (gostr ''<h1>push url stop '' @ url @ gostr '' ok</h1></br>'')\<rparr>, s)))
                      else bindB (start_session net keyString localurl remoteurl s) (\<lambda>(e, s).
                             retB (\<lparr>Status = 200, resp_Data = Text (case e of Some e \<Rightarrow> gostr ''push error='' @ etext e
                               | None \<Rightarrow> gostr ''<h1>push url start '' @ url @ gostr '' ok</h1></br>'')\<rparr>, s))))"

section \<open>Rooms\<close>

text \<open>\<open>rand\<close> are the keys that are drawn, as in \<open>Configure\<close>. The error of \<^verbatim>\<open>SetKey\<close> and \<^verbatim>\<open>GetKey\<close> is always nil.\<close>

definition handleReset :: "'c cache_ops \<Rightarrow> bytes list \<Rightarrow> form \<Rightarrow> 'c ApiServer \<Rightarrow> (Response \<times> 'c ApiServer) option" where
  "handleReset ops rand form s =
     (let room = (case form of None \<Rightarrow> [] | Some get \<Rightarrow> get ''room'')
      in if room = [] then Some (\<lparr>Status = 400, resp_Data = Text (gostr ''url: /control/reset?room=<ROOM_NAME>'')\<rparr>, s)
         else map_option (\<lambda>(msg, keys). (\<lparr>Status = 200, resp_Data = Text msg\<rparr>, s\<lparr>api_RoomKeys := keys\<rparr>)) (SetKey ops rand room (api_RoomKeys s)))"

definition handleGet :: "'c cache_ops \<Rightarrow> bytes list \<Rightarrow> form \<Rightarrow> 'c ApiServer \<Rightarrow> (Response \<times> 'c ApiServer) option" where
  "handleGet ops rand form s =
     (let room = (case form of None \<Rightarrow> [] | Some get \<Rightarrow> get ''room'')
      in if room = [] then Some (\<lparr>Status = 400, resp_Data = Text (gostr ''url: /control/get?room=<ROOM_NAME>'')\<rparr>, s)
         else map_option (\<lambda>(msg, keys). (\<lparr>Status = 200, resp_Data = Text msg\<rparr>, s\<lparr>api_RoomKeys := keys\<rparr>)) (GetKey ops rand room (api_RoomKeys s)))"

definition handleDelete :: "'c cache_ops \<Rightarrow> form \<Rightarrow> 'c ApiServer \<Rightarrow> Response \<times> 'c ApiServer" where
  "handleDelete ops form s =
     (let room = (case form of None \<Rightarrow> [] | Some get \<Rightarrow> get ''room'')
      in if room = [] then (\<lparr>Status = 400, resp_Data = Text (gostr ''url: /control/delete?room=<ROOM_NAME>'')\<rparr>, s)
         else case DeleteChannel ops room (api_RoomKeys s) of
                (True, keys) \<Rightarrow> (\<lparr>Status = 200, resp_Data = Text (gostr ''Ok'')\<rparr>, s\<lparr>api_RoomKeys := keys\<rparr>)
              | (False, keys) \<Rightarrow> (\<lparr>Status = 404, resp_Data = Text (gostr ''room not found'')\<rparr>, s\<lparr>api_RoomKeys := keys\<rparr>))"

section \<open>Statistics\<close>

record api_stream =
  as_Key :: bytes
  as_URL :: bytes
  as_StreamID :: u32
  as_VideoTotalBytes :: u64
  as_VideoSpeed :: u64
  as_AudioTotalBytes :: u64
  as_AudioSpeed :: u64

record api_streams =
  as_Publishers :: "api_stream list"
  as_Players :: "api_stream list"

definition stream_statics :: "bytes \<Rightarrow> bytes \<Rightarrow> StaticsBW \<Rightarrow> api_stream" where
  "stream_statics key url bw =
     \<lparr>as_Key = key, as_URL = url, as_StreamID = bw_StreamID bw, as_VideoTotalBytes = VideoDatainBytes bw, as_VideoSpeed = VideoSpeedInBytesperMS bw,
      as_AudioTotalBytes = AudioDatainBytes bw, as_AudioSpeed = AudioSpeedInBytesperMS bw\<rparr>"

text \<open>
  \<^verbatim>\<open>getLiveStatics\<close>, before the lists become JSON; only readers and writers of the types \<^verbatim>\<open>VirReader\<close> and \<^verbatim>\<open>VirWriter\<close> are listed, which is what \<open>asR\<close> and \<open>asW\<close> tell.
\<close>

definition getLiveStatics ::
    "('s, 'm, 'r, 'w) env \<Rightarrow> ('r \<Rightarrow> VirReader option) \<Rightarrow> ('w \<Rightarrow> VirWriter option) \<Rightarrow> ('s, 'm, 'r, 'w) Streams \<Rightarrow> api_streams" where
  "getLiveStatics E asR asW st =
     \<lparr>as_Publishers = concat (map (\<lambda>(key, a).
        case s_r (st_objs st ! a) of
          None \<Rightarrow> []
        | Some ra \<Rightarrow>
            (case asR (st_readers st ra) of
               None \<Rightarrow> []
             | Some v \<Rightarrow> [stream_statics key (URL (r_Info (e_r E) (st_readers st ra))) (ReadBWInfo v)])) (cm_Items (e_streams E) (st_streams st))),
      as_Players = concat (map (\<lambda>(key, a).
        concat (map (\<lambda>(k, pw).
          case asW (st_writers st (pw_w pw)) of
            None \<Rightarrow> []
          | Some v \<Rightarrow> [stream_statics key (URL (w_Info (e_w E) (st_writers st (pw_w pw)))) (WriteBWInfo v)]) (cm_Items (e_ws E) (s_ws (st_objs st ! a)))))
        (cm_Items (e_streams E) (st_streams st)))\<rparr>"

section \<open>Runs of the server\<close>

text \<open>Requests and rounds of the goroutines of the relays, in any order; a round of a sender may stay in its write for a while, or for good.\<close>

inductive api_step :: "'c cache_ops \<Rightarrow> 'c ApiServer \<Rightarrow> 'c ApiServer \<Rightarrow> bool" for ops where
  push: "handlePush etext net form s = retB (res, s') \<Longrightarrow> api_step ops s s'"
| pull: "handlePull etext net form s = retB (res, s') \<Longrightarrow> api_step ops s s'"
| reset: "handleReset ops rand form s = Some (res, s') \<Longrightarrow> api_step ops s s'"
| get: "handleGet ops rand form s = Some (res, s') \<Longrightarrow> api_step ops s s'"
| delete: "handleDelete ops form s = (res, s') \<Longrightarrow> api_step ops s s'"
| receive: "a < length (api_relays s) \<Longrightarrow> rcvPlayChunkStream (api_relays s ! a) = retB r \<Longrightarrow> api_step ops s (s\<lparr>api_relays := (api_relays s)[a := r]\<rparr>)"
| send: "a < length (api_relays s) \<Longrightarrow> sendPublishChunkStream (api_relays s ! a) = retB r \<Longrightarrow> api_step ops s (s\<lparr>api_relays := (api_relays s)[a := r]\<rparr>)"
| enter: "a < length (api_relays s) \<Longrightarrow> sendPublish_enter (api_relays s ! a) = retB r \<Longrightarrow> api_step ops s (s\<lparr>api_relays := (api_relays s)[a := r]\<rparr>)"
| leave: "a < length (api_relays s) \<Longrightarrow> sendPublish_return i (api_relays s ! a) = retB r \<Longrightarrow> api_step ops s (s\<lparr>api_relays := (api_relays s)[a := r]\<rparr>)"

inductive api_reachable :: "'c cache_ops \<Rightarrow> 'c ApiServer \<Rightarrow> bool" for ops where
  started: "api_reachable ops (api_NewServer rtmpAddr keys)"
| stepped: "api_reachable ops s \<Longrightarrow> api_step ops s s' \<Longrightarrow> api_reachable ops s'"

section \<open>Relays that run\<close>

definition running :: "RtmpRelay \<Rightarrow> bool" where
  "running relay \<longleftrightarrow> rr_startflag relay \<and> 0 < rr_senders relay \<and> \<not> ch_closed (rr_csChan relay) \<and>
     (\<exists>d. rr_publish relay = Some d \<and> cc_conn d \<noteq> None) \<and> (\<exists>c. rr_play relay = Some c \<and> cc_conn c \<noteq> None)"

lemma cc_Write_connected: "cc_conn d \<noteq> None \<Longrightarrow> cc_conn (snd (cc_Write m d)) \<noteq> None"
  by (auto simp: cc_Write_def with_conn_def split: sum.splits prod.splits)

lemma relay_message_connected: "relay_message c = Inr (m, c') \<Longrightarrow> cc_conn c' \<noteq> None"
  by (cases "cc_conn c")
    (auto simp: relay_message_def cc_Read_def ignore_err_def split: option.splits exn.splits go_error.splits if_splits prod.splits)

lemma receive_running:
  assumes "rcvPlayChunkStream relay = retB r" and "running relay"
  shows "running r"
proof -
  have f: "rr_startflag relay" using assms(2) by (simp add: running_def)
  obtain c where "rr_play relay = Some c" using assms(1) by (auto simp: rcvPlayChunkStream_def split: if_splits option.splits)
  with rcv_round [OF assms(1) f] assms(2) relay_message_connected show ?thesis by (fastforce simp: running_def)
qed

lemma send_running:
  assumes "sendPublishChunkStream relay = retB r" and "running relay"
  shows "running r"
proof -
  obtain d where d: "rr_publish relay = Some d" "cc_conn d \<noteq> None" "\<not> ch_closed (rr_csChan relay)" using assms(2) by (auto simp: running_def)
  with send_round [OF assms(1) d(1,3)] assms(2) cc_Write_connected [OF d(2)] show ?thesis by (auto simp: running_def)
qed

lemma enter_running: "sendPublish_enter relay = retB r \<Longrightarrow> running relay \<Longrightarrow> running r"
  by (auto simp: sendPublish_enter_def running_def chan_recv_def bindB_retB split: if_splits list.splits)

lemma return_running:
  assumes "sendPublish_return i relay = retB r" and "running relay"
  shows "running r"
proof -
  obtain d where d: "rr_publish relay = Some d" "cc_conn d \<noteq> None" using assms(2) by (auto simp: running_def)
  obtain e d' where w: "cc_Write (rr_stuck relay ! i) d = (e, d')" by force
  with cc_Write_connected [OF d(2), of "rr_stuck relay ! i"] have "cc_conn d' \<noteq> None" by simp
  then show ?thesis using assms d(1) w by (auto simp: sendPublish_return_def running_def split: if_splits option.splits)
qed

lemma start_running:
  assumes "relay_Start net (NewRtmpRelay playURL publishURL) = Some (None, relay)"
  shows "running relay"
proof -
  obtain c d where "rr_publish relay = Some d" "cc_Start (net_Parse net) (net_Dial net) (net_Range net) publishURL (gostr ''publish'') NewConnClient = Some (None, d)"
      "rr_play relay = Some c" "cc_Start (net_Parse net) (net_Dial net) (net_Range net) playURL (gostr ''play'') NewConnClient = Some (None, c)"
      "rr_startflag relay" "rr_senders relay = 1" "\<not> ch_closed (rr_csChan relay)"
    using assms by (auto simp: relay_Start_def NewRtmpRelay_def split: option.splits prod.splits)
  with cc_Start_connected show ?thesis by (fastforce simp: running_def)
qed

text \<open>A client whose connection is closed: it gets and takes no byte any more.\<close>

definition closed_client :: "ConnClient option \<Rightarrow> bool" where
  "closed_client x \<longleftrightarrow> (\<exists>c conn. x = Some c \<and> cc_conn c = Some conn \<and> rd_in (conn_rw conn) = [] \<and> rd_end (conn_rw conn) = NetError \<and> bw_cap (wr (conn_rw conn)) = Some 0)"

lemma cc_Close_closed: "cc_conn c \<noteq> None \<Longrightarrow> \<exists>c'. cc_Close c = (None, c') \<and> closed_client (Some c')"
  by (auto simp: cc_Close_def with_conn_def conn_Close_def closed_client_def)

text \<open>
  A relay that is stopped: its flag is down, its connection to the second server is closed, and the receiver, if it is still there, closes its own connection and ends
  in its next round.
\<close>

definition stopped :: "RtmpRelay \<Rightarrow> bool" where
  "stopped relay \<longleftrightarrow> \<not> rr_startflag relay \<and> closed_client (rr_publish relay) \<and>
     (0 < rr_receivers relay \<longrightarrow> (\<exists>r. rcvPlayChunkStream relay = retB r \<and> rr_receivers r = rr_receivers relay - 1 \<and> closed_client (rr_play r)))"

lemma stop_running:
  assumes "running relay" and "free_sender relay"
  shows "\<exists>d. relay_Stop relay = retB (relay\<lparr>rr_startflag := False, rr_publish := Some d\<rparr>) \<and> stopped (relay\<lparr>rr_startflag := False, rr_publish := Some d\<rparr>)"
proof -
  obtain c d where r: "rr_startflag relay" "rr_publish relay = Some d" "cc_conn d \<noteq> None" "rr_play relay = Some c" "cc_conn c \<noteq> None"
    using assms(1) by (auto simp: running_def)
  obtain d' c' where k: "cc_Close d = (None, d')" "closed_client (Some d')" "cc_Close c = (None, c')" "closed_client (Some c')"
    using cc_Close_closed r(3,5) by blast
  have "free_sender (relay\<lparr>rr_startflag := False\<rparr>)" using assms(2) by (simp add: free_sender_def)
  then have "relay_Stop relay = retB (relay\<lparr>rr_startflag := False, rr_publish := Some d'\<rparr>)"
    using r k(1) by (simp add: relay_Stop_def sendPublish_stop_def)
  moreover have "stopped (relay\<lparr>rr_startflag := False, rr_publish := Some d'\<rparr>)"
    using r k by (simp add: stopped_def rcvPlayChunkStream_def)
  ultimately show ?thesis by blast
qed

lemma stop_waits: "rr_startflag relay \<Longrightarrow> \<not> free_sender relay \<Longrightarrow> relay_Stop relay = None"
  by (simp add: relay_Stop_def sendPublish_stop_def free_sender_def)

section \<open>The invariant of the sessions\<close>

definition api_ok :: "'c ApiServer \<Rightarrow> bool" where
  "api_ok s \<longleftrightarrow> (\<forall>k a. api_session s k = Some a \<longrightarrow> a < length (api_relays s) \<and> running (api_relays s ! a)) \<and>
     (\<forall>k k' a. api_session s k = Some a \<and> api_session s k' = Some a \<longrightarrow> k = k')"

text \<open>A relay that no session has and that runs.\<close>

definition orphan :: "nat \<Rightarrow> 'c ApiServer \<Rightarrow> bool" where
  "orphan a s \<longleftrightarrow> a < length (api_relays s) \<and> running (api_relays s ! a) \<and> (\<forall>k. api_session s k \<noteq> Some a)"

lemma handler_effect:
  "handlePush etext net form s = retB (res, s') \<or> handlePull etext net form s = retB (res, s') \<Longrightarrow>
   s' = s \<or> (\<exists>k a. api_session s k = Some a \<and> stop_session k a s = retB s') \<or> (\<exists>k u v e. start_session net k u v s = retB (e, s'))"
  by (auto simp: handlePush_def handlePull_def Let_def bindB_retB split: option.splits if_splits)

lemma start_session_effect:
  assumes "start_session net k u v s = retB (e, s')"
  shows "\<exists>relay. api_relays s' = api_relays s @ [relay] \<and>
     (case e of None \<Rightarrow> running relay \<and> api_session s' = (api_session s)(k \<mapsto> length (api_relays s)) | Some _ \<Rightarrow> api_session s' = api_session s)"
  using assms by (auto simp: start_session_def dest: start_running split: option.splits prod.splits exn.splits)

lemma stop_session_effect:
  assumes "api_ok s" and "api_session s k = Some a" and "free_sender (api_relays s ! a)"
  shows "\<exists>d. stop_session k a s = retB (s\<lparr>api_relays := (api_relays s)[a := (api_relays s ! a)\<lparr>rr_startflag := False, rr_publish := Some d\<rparr>],
       api_session := (api_session s)(k := None)\<rparr>) \<and> stopped ((api_relays s ! a)\<lparr>rr_startflag := False, rr_publish := Some d\<rparr>)"
proof -
  have "running (api_relays s ! a)" using assms by (simp add: api_ok_def)
  from stop_running [OF this assms(3)] show ?thesis by (auto simp: stop_session_def)
qed

lemma stop_session_free:
  assumes "api_ok s" and "api_session s k = Some a" and "stop_session k a s = retB s'"
  shows "free_sender (api_relays s ! a)"
proof (rule ccontr)
  assume "\<not> free_sender (api_relays s ! a)"
  moreover have "rr_startflag (api_relays s ! a)" using assms(1,2) by (simp add: api_ok_def running_def)
  ultimately show False using assms(3) by (simp add: stop_session_def stop_waits)
qed

lemma api_okI:
  assumes "\<And>k a. api_session s k = Some a \<Longrightarrow> a < length (api_relays s) \<and> running (api_relays s ! a)"
    and "\<And>k k' a. api_session s k = Some a \<Longrightarrow> api_session s k' = Some a \<Longrightarrow> k = k'"
  shows "api_ok s"
  using assms unfolding api_ok_def by blast

lemma api_okD:
  assumes "api_ok s" and "api_session s k = Some a"
  shows "a < length (api_relays s)" "running (api_relays s ! a)" "api_session s k' = Some a \<Longrightarrow> k = k'"
  using assms unfolding api_ok_def by blast+

lemma start_session_ok:
  assumes "start_session net k u v s = retB (e, s')" and "api_ok s"
  shows "api_ok s'"
proof -
  obtain relay where r: "api_relays s' = api_relays s @ [relay]"
      "case e of None \<Rightarrow> running relay \<and> api_session s' = (api_session s)(k \<mapsto> length (api_relays s)) | Some _ \<Rightarrow> api_session s' = api_session s"
    using start_session_effect [OF assms(1)] by blast
  have old: "a < length (api_relays s') \<and> running (api_relays s' ! a) \<and> a < length (api_relays s)" if "api_session s k' = Some a" for k' a
    using api_okD [OF assms(2) that] r(1) by (simp add: nth_append)
  show ?thesis
  proof (rule api_okI)
    fix k' a assume "api_session s' k' = Some a"
    then show "a < length (api_relays s') \<and> running (api_relays s' ! a)"
      using old r by (cases e) (auto split: if_splits)
  next
    fix k1 k2 a assume "api_session s' k1 = Some a" "api_session s' k2 = Some a"
    then show "k1 = k2" using old r(2) api_okD(3) [OF assms(2)] by (cases e) (auto split: if_splits)
  qed
qed

lemma stop_session_ok:
  assumes "api_ok s" and "api_session s k = Some a" and "stop_session k a s = retB s'"
  shows "api_ok s'"
  using stop_session_effect [OF assms(1,2) stop_session_free [OF assms]] assms by (auto simp: api_ok_def nth_list_update split: if_splits)

lemma running_update:
  assumes "running (relays ! a)" and "running (relays ! b) \<Longrightarrow> running r"
  shows "running (relays[b := r] ! a)"
proof (cases "a = b")
  case True
  with assms show ?thesis by (cases "b < length relays") (simp_all add: not_less list_update_beyond)
qed (use assms in simp)

lemma api_ok_relay:
  assumes "api_ok s" and "running (api_relays s ! a) \<Longrightarrow> running r"
  shows "api_ok (s\<lparr>api_relays := (api_relays s)[a := r]\<rparr>)"
  using api_okD [OF assms(1)] assms(2) by (intro api_okI) (auto intro: running_update)

lemma room_effect:
  "handleReset ops rand form s = Some (res, s') \<or> handleGet ops rand form s = Some (res, s') \<or> handleDelete ops form s = (res, s') \<Longrightarrow>
   \<exists>keys. s' = s\<lparr>api_RoomKeys := keys\<rparr>"
  by (auto simp: handleReset_def handleGet_def handleDelete_def Let_def split: if_splits option.splits prod.splits bool.splits)
    (metis ApiServer.surjective ApiServer.update_convs(4))+

lemma api_step_ok: "api_step ops s s' \<Longrightarrow> api_ok s \<Longrightarrow> api_ok s'"
proof (induction rule: api_step.induct)
  case (push etext net form s res s')
  then show ?case using handler_effect [of etext net form s res s'] start_session_ok stop_session_ok by blast
next
  case (pull etext net form s res s')
  then show ?case using handler_effect [of etext net form s res s'] start_session_ok stop_session_ok by blast
next
  case (receive a s r)
  then show ?case using receive_running by (intro api_ok_relay) auto
next
  case (send a s r)
  then show ?case using send_running by (intro api_ok_relay) auto
next
  case (enter a s r)
  then show ?case using enter_running by (intro api_ok_relay) auto
next
  case (leave a s i r)
  then show ?case using return_running by (intro api_ok_relay) auto
qed (use room_effect in \<open>fastforce simp: api_ok_def\<close>)+

lemma api_reachable_ok: "api_reachable ops s \<Longrightarrow> api_ok s"
proof (induction rule: api_reachable.induct)
  case (started rtmpAddr keys)
  show ?case by (rule api_okI) (simp_all add: api_NewServer_def)
qed (rule api_step_ok)

lemma start_orphan: "start_session net k u v s = retB (e, s') \<Longrightarrow> orphan b s \<Longrightarrow> orphan b s'"
  by (drule start_session_effect) (auto simp: orphan_def nth_append split: option.splits if_splits)

lemma stop_orphan:
  assumes "api_session s k = Some a" and "stop_session k a s = retB s'" and "api_ok s" and "orphan b s"
  shows "orphan b s'"
proof -
  obtain d where d: "s' = s\<lparr>api_relays := (api_relays s)[a := (api_relays s ! a)\<lparr>rr_startflag := False, rr_publish := Some d\<rparr>], api_session := (api_session s)(k := None)\<rparr>"
    using stop_session_effect [OF assms(3,1) stop_session_free [OF assms(3,1,2)]] assms(2) by auto
  have "a \<noteq> b" using assms(1,4) by (auto simp: orphan_def)
  with d assms(4) show ?thesis by (simp add: orphan_def)
qed

lemma api_step_orphan: "api_step ops s s' \<Longrightarrow> api_ok s \<Longrightarrow> orphan b s \<Longrightarrow> orphan b s'"
proof (induction rule: api_step.induct)
  case (push etext net form s res s')
  then show ?case using handler_effect [of etext net form s res s'] start_orphan stop_orphan by blast
next
  case (pull etext net form s res s')
  then show ?case using handler_effect [of etext net form s res s'] start_orphan stop_orphan by blast
next
  case (receive a s r)
  then show ?case using receive_running by (auto simp: orphan_def intro: running_update)
next
  case (send a s r)
  then show ?case using send_running by (auto simp: orphan_def intro: running_update)
next
  case (enter a s r)
  then show ?case using enter_running by (auto simp: orphan_def intro: running_update)
next
  case (leave a s i r)
  then show ?case using return_running by (auto simp: orphan_def intro: running_update)
qed (use room_effect in \<open>fastforce simp: orphan_def\<close>)+

lemma api_steps_orphan: "(api_step ops)\<^sup>*\<^sup>* s s' \<Longrightarrow> api_ok s \<Longrightarrow> orphan b s \<Longrightarrow> orphan b s' \<and> api_ok s'"
  by (induction rule: rtranclp_induct) (auto intro: api_step_orphan api_step_ok)

section \<open>Properties\<close>


text \<open>
  Starting a relay again under the name of a session that exists replaces the session and leaves the old relay running; whatever happens afterwards, no
  session has it any more, so that no request can stop it.
\<close>

theorem api_restart_leaks:
  assumes "api_reachable ops s" and "api_session s key = Some a"
    and "handlePush etext net (Some get) s = retB (res, s1)" and "key = gostr ''push:'' @ get ''app'' @ gostr ''/'' @ get ''name''"
    and "api_session s1 key = Some b" and "b \<noteq> a" and "(api_step ops)\<^sup>*\<^sup>* s1 s2"
  shows "rr_startflag (api_relays s2 ! a) \<and> (\<forall>k. api_session s2 k \<noteq> Some a)"
proof -
  have ok: "api_ok s" by (rule api_reachable_ok [OF assms(1)])
  note o = api_okD [OF ok assms(2)]
  have "api_session s1 = (api_session s)(k := None) \<Longrightarrow> False" for k using assms(2,5,6) by (cases "key = k") simp_all
  then have "\<not> (\<exists>k a. api_session s k = Some a \<and> stop_session k a s = retB s1)"
    using stop_session_effect [OF ok _ stop_session_free [OF ok]] by force
  moreover have "s1 \<noteq> s" using assms(2,5,6) by auto
  ultimately obtain k u v e where st: "start_session net k u v s = retB (e, s1)"
    using handler_effect [of etext net "Some get" s res s1] assms(3) by blast
  obtain relay where r: "api_relays s1 = api_relays s @ [relay]"
      "case e of None \<Rightarrow> running relay \<and> api_session s1 = (api_session s)(k \<mapsto> length (api_relays s)) | Some _ \<Rightarrow> api_session s1 = api_session s"
    using start_session_effect [OF st] by blast
  have e: "api_session s1 = (api_session s)(k \<mapsto> length (api_relays s))" using r(2) assms(2,5,6) by (cases e) auto
  then have k: "key = k" using assms(2,5,6) by (cases "key = k") simp_all
  have "api_session s1 k' \<noteq> Some a" for k' using o(1) o(3) [of k'] e k by (cases "k' = k") auto
  then have "orphan a s1" using r(1) o by (simp add: orphan_def nth_append)
  with api_steps_orphan [OF assms(7) start_session_ok [OF st ok]] show ?thesis by (auto simp: orphan_def running_def)
qed

text \<open>Requests of a demonstration, and a server with one session.\<close>

definition demo_form :: "string \<Rightarrow> string \<Rightarrow> bytes" where
  "demo_form oper field = (if field = ''oper'' then gostr oper else if field = ''app'' then gostr ''live'' else if field = ''name'' then gostr ''movie''
     else if field = ''url'' then gostr ''rtmp://host/live/movie'' else [])"

definition with_session :: "RtmpRelay \<Rightarrow> unit ApiServer \<Rightarrow> unit ApiServer" where
  "with_session relay s = s\<lparr>api_relays := api_relays s @ [relay], api_session := (api_session s)(gostr ''push:live/movie'' \<mapsto> length (api_relays s))\<rparr>"

lemma demo_form_facts:
  "demo_form oper ''oper'' = gostr oper" "demo_form oper ''app'' = gostr ''live''" "demo_form oper ''name'' = gostr ''movie''"
  "demo_form oper ''url'' = gostr ''rtmp://host/live/movie''"
  "gostr ''live'' \<noteq> []" "gostr ''movie'' \<noteq> []" "gostr ''rtmp://host/live/movie'' \<noteq> []" "gostr ''start'' \<noteq> gostr ''stop''"
  "gostr ''push:'' @ gostr ''live'' @ gostr ''/'' @ gostr ''movie'' = gostr ''push:live/movie''"
  by (simp_all add: demo_form_def gostr_def)

lemma demo_session:
  "\<exists>net relay. free_sender relay \<and> (\<forall>s. api_rtmpAddr s = gostr '':1935'' \<longrightarrow>
     (\<exists>res. handlePush (\<lambda>_. []) net (Some (demo_form ''start'')) s = retB (res, with_session relay s)))"
proof -
  obtain net relay where r: "relay_Start net (NewRtmpRelay (gostr ''rtmp://127.0.0.1:1935/live/movie'') (gostr ''rtmp://host/live/movie'')) = Some (None, relay)"
    using relay_example by blast
  have "gostr ''rtmp://127.0.0.1'' @ gostr '':1935'' @ gostr ''/'' @ gostr ''live'' @ gostr ''/'' @ gostr ''movie'' = gostr ''rtmp://127.0.0.1:1935/live/movie''"
    by (simp add: gostr_def)
  moreover have "free_sender relay"
    using r by (auto simp: relay_Start_def NewRtmpRelay_def free_sender_def split: option.splits prod.splits)
  ultimately show ?thesis using r
    by (intro exI [of _ net] exI [of _ relay]) (simp add: handlePush_def demo_form_facts Let_def local_url_def start_session_def with_session_def)
qed

lemma demo_sessions:
  "\<exists>net relay res res'. let s0 = api_NewServer (gostr '':1935'') (); s = with_session relay s0
     in handlePush (\<lambda>_. []) net (Some (demo_form ''start'')) s0 = retB (res, s) \<and> handlePush (\<lambda>_. []) net (Some (demo_form ''start'')) s = retB (res', with_session relay s) \<and>
        api_reachable undefined s \<and> api_session s (gostr ''push:live/movie'') = Some 0 \<and> free_sender (api_relays s ! 0) \<and> api_session (with_session relay s) (gostr ''push:live/movie'') = Some 1"
proof -
  let ?s0 = "api_NewServer (gostr '':1935'') ()"
  obtain net relay where f: "free_sender relay" and d: "\<And>s. api_rtmpAddr s = gostr '':1935'' \<Longrightarrow> \<exists>res. handlePush (\<lambda>_. []) net (Some (demo_form ''start'')) s = retB (res, with_session relay s)"
    using demo_session by blast
  obtain res where r: "handlePush (\<lambda>_. []) net (Some (demo_form ''start'')) ?s0 = retB (res, with_session relay ?s0)"
    using d [of ?s0] by (auto simp: api_NewServer_def)
  obtain res' where r': "handlePush (\<lambda>_. []) net (Some (demo_form ''start'')) (with_session relay ?s0) = retB (res', with_session relay (with_session relay ?s0))"
    using d [of "with_session relay ?s0"] by (auto simp: api_NewServer_def with_session_def)
  have "api_reachable undefined (with_session relay ?s0)" by (rule api_reachable.stepped [OF api_reachable.started push [OF r]])
  with r r' f show ?thesis unfolding Let_def
    by (intro exI [of _ net] exI [of _ relay] exI [of _ res] exI [of _ res']) (simp add: with_session_def api_NewServer_def)
qed


theorem api_restart_leaks_witness:
  "\<exists>net s s1 res. api_session s (gostr ''push:live/movie'') = Some 0 \<and>
     handlePush (\<lambda>_. []) net (Some (demo_form ''start'')) (s :: unit ApiServer) = retB (res, s1) \<and>
     rr_startflag (api_relays s1 ! 0) \<and> (\<forall>k. api_session s1 k \<noteq> Some 0)"
proof -
  obtain net relay res s where s: "handlePush (\<lambda>_. []) net (Some (demo_form ''start'')) s = retB (res, with_session relay s)"
      "api_reachable undefined s" "api_session s (gostr ''push:live/movie'') = Some 0" "api_session (with_session relay s) (gostr ''push:live/movie'') = Some 1"
    using demo_sessions unfolding Let_def by blast
  have "rr_startflag (api_relays (with_session relay s) ! 0) \<and> (\<forall>k. api_session (with_session relay s) k \<noteq> Some 0)"
    by (rule api_restart_leaks [OF s(2,3,1) _ s(4) _ rtranclp.rtrancl_refl]) (simp_all add: demo_form_facts)
  with s(1,3) show ?thesis by blast
qed

text \<open>
  Resetting a room gives a key, which asking for the room then returns and with which a stream is published as that room; deleting the room withdraws the key,
  and deleting it again finds no room.
\<close>

theorem api_rooms:
  assumes "room_cache ops" and "get ''room'' = room" and "room \<noteq> []" and "handleReset ops rand (Some get) s = Some (res, s1)"
    and "resp_Data res \<noteq> Text room"
  shows "\<exists>key. res = \<lparr>Status = 200, resp_Data = Text key\<rparr> \<and> handleGet ops rand' (Some get) s1 = Some (res, s1) \<and> GetChannel ops key (api_RoomKeys s1) = Inr room \<and>
     (\<exists>s2. handleDelete ops (Some get) s1 = (\<lparr>Status = 200, resp_Data = Text (gostr ''Ok'')\<rparr>, s2) \<and> (\<exists>e. GetChannel ops key (api_RoomKeys s2) = Inl e) \<and>
        handleDelete ops (Some get) s2 = (\<lparr>Status = 404, resp_Data = Text (gostr ''room not found'')\<rparr>, s2))"
proof -
  obtain key keys where k: "SetKey ops rand room (api_RoomKeys s) = Some (key, keys)" "res = \<lparr>Status = 200, resp_Data = Text key\<rparr>" "s1 = s\<lparr>api_RoomKeys := keys\<rparr>"
    using assms(2-4) by (auto simp: handleReset_def)
  have n: "key \<noteq> room" using assms(5) k(2) by simp
  note e = room_cache.SetKey_entries [OF assms(1) k(1)] and d = room_cache.get_delete [OF assms(1)]
  have g: "cache_Get ops room keys = Some key" "cache_Get ops key keys = Some room" using e [of room] e [of key] n by auto
  let ?keys = "cache_Delete ops key (cache_Delete ops room keys)"
  have "handleDelete ops (Some get) s1 = (\<lparr>Status = 200, resp_Data = Text (gostr ''Ok'')\<rparr>, s1\<lparr>api_RoomKeys := ?keys\<rparr>)"
    using assms(2,3) k(3) g(1) by (simp add: handleDelete_def DeleteChannel_def)
  moreover have "handleDelete ops (Some get) (s1\<lparr>api_RoomKeys := ?keys\<rparr>) = (\<lparr>Status = 404, resp_Data = Text (gostr ''room not found'')\<rparr>, s1\<lparr>api_RoomKeys := ?keys\<rparr>)"
    using assms(2,3) d n by (simp add: handleDelete_def DeleteChannel_def)
  moreover have "GetChannel ops key ?keys = Inl (Err (Errorf '' does not exists''))" using d by (simp add: GetChannel_def)
  moreover have "handleGet ops rand' (Some get) s1 = Some (res, s1)" using assms(2,3) k g(1) by (simp add: handleGet_def GetKey_def)
  ultimately show ?thesis using k(2,3) g(2) by (auto simp: GetChannel_def)
qed

theorem api_rooms_witness:
  "\<exists>res s1. handleReset map_cache [[1]] (Some (\<lambda>_. [7])) (api_NewServer [] Map.empty) = Some (res, s1) \<and> GetChannel map_cache [1] (api_RoomKeys s1) = Inr [7]"
proof -
  obtain res s1 where r: "handleReset map_cache [[1]] (Some (\<lambda>_. [7])) (api_NewServer [] Map.empty) = Some (res, s1)" "res = \<lparr>Status = 200, resp_Data = Text [1]\<rparr>"
    by (simp add: handleReset_def api_NewServer_def map_cache_def Let_def)
  then show ?thesis using api_rooms [OF mc.room_cache_axioms refl _ r(1), of "[]"] by auto
qed

end
