(* ===== verification/Accept.thy ===== *)
theory Accept
  imports Handshake FlvMuxer StreamRounds Paths ConnClient
begin

text \<open>
  The life of an RTMP connection on the server, from its first byte: \<^verbatim>\<open>handleConn\<close> of \<^verbatim>\<open>src/protocol/rtmp/rtmp.go\<close> with the handshake, the commands
  and the registration with the streams, the recorder that every publisher gets (\<^verbatim>\<open>Dvr\<close> of \<^verbatim>\<open>src/container/flv/muxer.go\<close>), and the goroutine \<^verbatim>\<open>Check\<close> that notices that
  a player is gone.

  The getter of the server (\<^verbatim>\<open>av.GetWriter\<close>, the HLS server or nil) and the recorder give the address of a writer on the heap of the streams.
  \<open>mkdir\<close> and \<open>open\<close> stand for the file system.
\<close>

section \<open>The recorder\<close>

record files =
  fs_Mkdir :: "bytes \<Rightarrow> go_error option"
  fs_Open :: "bytes \<Rightarrow> sink res"

text \<open>\<^verbatim>\<open>Dvr.Writer\<close>: every error gives a nil writer.\<close>

definition Dvr_Writer :: "files \<Rightarrow> bytes \<Rightarrow> int \<Rightarrow> bytes \<Rightarrow> Info \<Rightarrow> FlvWriter option res" where
  "Dvr_Writer fs flvDir now newID info =
     (case splitN2 (Key info) of
        None \<Rightarrow> Inr None
      | Some (app, title) \<Rightarrow>
          (case fs_Mkdir fs (path_Join flvDir app) of
             Some _ \<Rightarrow> Inr None
           | None \<Rightarrow>
               (case fs_Open fs (path_Join flvDir (Key info) @ gostr ''_'' @ decimal_int (now div 1000000000) @ gostr ''.flv'') of
                  Inl _ \<Rightarrow> Inr None
                | Inr f \<Rightarrow> map_sum id Some (NewWriter now newID app title (URL info) f))))"

section \<open>handleConn\<close>

type_synonym ('s, 'm, 'w) rtmp_streams = "('s, 'm, VirReader, 'w) Streams"

text \<open>The ids and times of new objects, and their addresses.\<close>

record accept_args =
  ac_now :: int
  ac_timeout :: int
  ac_uid :: bytes
  ac_r :: nat
  ac_w :: nat
  ac_dvr :: nat

definition server_handleConn ::
    "(bytes \<Rightarrow> bytes res) \<Rightarrow> (bytes \<Rightarrow> bytes \<Rightarrow> bytes) \<Rightarrow> bytes \<Rightarrow> bytes \<Rightarrow> ('s, 'm, VirReader, 'w) env \<Rightarrow> 'c cache_ops \<Rightarrow> 'c \<Rightarrow>
     ((bytes \<times> amfval) list \<Rightarrow> (bytes \<times> amfval) list) \<Rightarrow> accept_args \<Rightarrow> (VirWriter \<Rightarrow> 'w) \<Rightarrow> (FlvWriter \<Rightarrow> 'w) \<Rightarrow>
     (Info \<Rightarrow> ('s, 'm, 'w) rtmp_streams \<Rightarrow> nat \<times> ('s, 'm, 'w) rtmp_streams) option \<Rightarrow> (Info \<Rightarrow> FlvWriter option res) \<Rightarrow>
     Conn \<Rightarrow> ('s, 'm, 'w) rtmp_streams \<Rightarrow> (exn option \<times> ('s, 'm, 'w) rtmp_streams) res" where
  "server_handleConn parse hmac rnd1 rnd2 E ops keys rng ac mkV mkF getter dvr conn st =
     (case HandshakeServer hmac rnd1 rnd2 conn of
        (Some (Err e), _) \<Rightarrow> Inr (Some (Err e), st)
      | (Some e, _) \<Rightarrow> Inl e
      | (None, conn) \<Rightarrow>
          (case handleConn (e_apps E) ops keys rng conn of
             Refused (Err e) \<Rightarrow> Inr (Some (Err e), st)
           | Refused e \<Rightarrow> Inl e
           | Publisher cs \<Rightarrow>
               (let reader = NewVirReader (ac_now ac) (ac_timeout ac) (ac_uid ac) cs
                in bindR (vr_Info parse reader) (\<lambda>info.
                     let st = HandleReader E (ac_r ac) (st\<lparr>st_readers := (st_readers st)(ac_r ac := reader)\<rparr>);
                         st = (case getter of None \<Rightarrow> st | Some g \<Rightarrow> (case g info st of (wa, st) \<Rightarrow> HandleWriter E wa st))
                     in bindR (dvr info) (\<lambda>w.
                          case w of
                            None \<Rightarrow> Inl (Panic NilDereference)
                          | Some f \<Rightarrow> Inr (None, HandleWriter E (ac_dvr ac) (st\<lparr>st_writers := (st_writers st)(ac_dvr ac := mkF f)\<rparr>)))))
           | Player cs \<Rightarrow>
               (let writer = NewVirWriter (ac_now ac) (ac_timeout ac) (ac_uid ac) cs
                in bindR (vw_Info parse writer) (\<lambda>info.
                     Inr (None, HandleWriter E (ac_w ac) (st\<lparr>st_writers := (st_writers st)(ac_w ac := mkV writer)\<rparr>))))))"

section \<open>Check\<close>

text \<open>\<^verbatim>\<open>Check\<close> reads, and ignores, what a player sends, until this fails; the input is finite, so that it ends.\<close>

function check_reads :: "ChunkStream \<Rightarrow> Conn \<Rightarrow> exn \<times> Conn" where
  "check_reads c conn =
     (case conn_Read c conn of (Some e, _, conn) \<Rightarrow> (e, conn) | (None, c, conn) \<Rightarrow> check_reads c conn)"
  by pat_completeness auto
termination
  by (relation "measure (\<lambda>(c, conn). length (rd_in (conn_rw conn)))") (auto dest: conn_Read_progress [OF sym])

declare check_reads.simps [simp del]

definition vw_Check :: "VirWriter \<Rightarrow> VirWriter res" where
  "vw_Check v =
     (case check_reads emptyChunkStream (cs_conn (vw_conn v)) of
        (Err e, conn) \<Rightarrow> bindR (vw_Close (v\<lparr>vw_conn := (vw_conn v)\<lparr>cs_conn := conn\<rparr>\<rparr>)) (\<lambda>v. Inr (v\<lparr>vw_conn := cs_Close (vw_conn v)\<rparr>))
      | (e, _) \<Rightarrow> Inl e)"

section \<open>Publishers and players of the streams\<close>

context stream_env
begin

lemma HandleReader_online:
  assumes "streams_ok E st"
  shows "\<exists>a. cm_Get (e_streams E) (Key (r_Info (e_r E) (st_readers st ra))) (st_streams (HandleReader E ra st)) = Some a \<and>
     a < length (st_objs (HandleReader E ra st)) \<and> s_r (st_objs (HandleReader E ra st) ! a) = Some ra"
proof (cases "cm_Get (e_streams E) (Key (r_Info (e_r E) (st_readers st ra))) (st_streams st)")
  case None
  then show ?thesis by (simp add: HandleReader_def AddReader_def Let_def sm.get_set nth_append)
next
  case (Some a)
  then have l: "a < length (st_objs st)" using assms by (auto simp: streams_ok_def)
  obtain s readers where t: "TransStop E (st_objs st ! a) (st_readers st) = (s, readers)" by force
  obtain src dst writers where c: "Copy E (s_ws s) (s_ws (NewStream E)) (st_writers st) = (src, dst, writers)" by (metis prod_cases3)
  show ?thesis
  proof (cases "stream_ID E readers s \<noteq> [] \<and> stream_ID E readers s \<noteq> UID (r_Info (e_r E) (st_readers st ra))")
    case True
    with Some t c show ?thesis by (simp add: HandleReader_def AddReader_def Let_def sm.get_set nth_append)
  next
    case False
    then have "HandleReader E ra st = AddReader ra a (st\<lparr>st_objs := (st_objs st)[a := s], st_readers := readers\<rparr>)"
      using Some t by (auto simp: HandleReader_def Let_def)
    with Some l show ?thesis by (simp add: AddReader_def)
  qed
qed

text \<open>A writer for a stream that exists is added, and nothing else of the stream changes but its writers.\<close>

lemma HandleWriter_joins:
  assumes "Key (w_Info (e_w E) (st_writers st wa)) = key" and "cm_Get (e_streams E) key (st_streams st) = Some a" and "a < length (st_objs st)"
  shows "cm_Get (e_streams E) key (st_streams (HandleWriter E wa st)) = Some a" "a < length (st_objs (HandleWriter E wa st))"
    "s_r (st_objs (HandleWriter E wa st) ! a) = s_r (st_objs st ! a)" "st_writers (HandleWriter E wa st) = st_writers st"
    "cm_Get (e_ws E) k (s_ws (st_objs (HandleWriter E wa st) ! a)) =
       (if k = UID (w_Info (e_w E) (st_writers st wa)) then Some \<lparr>pw_init = False, pw_w = wa\<rparr> else cm_Get (e_ws E) k (s_ws (st_objs st ! a)))"
  using assms by (simp_all add: HandleWriter_def AddWriter_def Let_def wm.get_set)

end

section \<open>A client that publishes\<close>

text \<open>What a client sends to publish: its half of the plain handshake, and the three commands.\<close>

definition publishes ::
    "((bytes \<times> amfval) list \<Rightarrow> (bytes \<times> amfval) list) \<Rightarrow> bytes \<Rightarrow> bytes \<Rightarrow> bytes \<Rightarrow> Conn \<Rightarrow> bytes \<Rightarrow> bool" where
  "publishes rng app url name conn rest \<longleftrightarrow> ready conn \<and> remoteChunkSize conn \<noteq> 0 \<and> range_order rng \<and>
     (\<exists>C1 C2 m1 m2 m3 obj i j kind. let k = remoteChunkSize conn in
        rd_in (conn_rw conn) = 3 # C1 @ C2 @ messages_bytes k [m1, m2, m3] @ rest \<and> length C1 = 1536 \<and> length C2 = 1536 \<and>
        take 4 (drop 4 C1) = replicate 4 0 \<and>
        command k m1 [AString (gostr ''connect''), AInt 1, AObject obj] \<and> connect_fields obj app url \<and>
        command k m2 [AString (gostr ''createStream''), AInt i, ANil] \<and>
        command k m3 [AString (gostr ''publish''), AInt j, ANil, AString name, AString kind])"

lemma publisher_accepted:
  assumes p: "publishes rng app url name conn rest" and hmac: "hmac32 hmac"
    and key: "CheckAppName apps app" "GetChannel ops name keys = Inr channel"
  shows "\<exists>conn1 cs. HandshakeServer hmac rnd1 rnd2 conn = (None, conn1) \<and> handleConn apps ops keys rng conn1 = Publisher cs \<and>
     cs_GetInfo cs = (app, channel, url @ gostr ''/'' @ channel) \<and> cs_input cs = rest"
proof -
  define k where "k = remoteChunkSize conn"
  obtain C1 C2 m1 m2 m3 obj i j kind where b: "rd_in (conn_rw conn) = 3 # C1 @ C2 @ messages_bytes k [m1, m2, m3] @ rest" "length C1 = 1536" "length C2 = 1536"
      "take 4 (drop 4 C1) = replicate 4 0" "command k m1 [AString (gostr ''connect''), AInt 1, AObject obj]" "connect_fields obj app url"
      "command k m2 [AString (gostr ''createStream''), AInt i, ANil]" "command k m3 [AString (gostr ''publish''), AInt j, ANil, AString name, AString kind]"
    and r: "ready conn" "k \<noteq> 0" "range_order rng"
    using p unfolding publishes_def Let_def k_def by blast
  obtain S where S: "server_answer hmac rnd1 rnd2 C1 = Inr S"
    using server_answer_eq [OF b(2) hmac, where ?rnd1.0 = rnd1 and ?rnd2.0 = rnd2] b(4) by auto
  have f: "hs_fresh conn" "hs_input conn = 3 # C1 @ C2 @ messages_bytes k [m1, m2, m3] @ rest"
    using r(1) b(1) by (simp_all add: hs_fresh_def hs_input_def ready_def)
  obtain conn1 where h: "HandshakeServer hmac rnd1 rnd2 conn = (None, conn1)" "hs_fresh conn1" "hs_input conn1 = messages_bytes k [m1, m2, m3] @ rest"
      "conn1 = conn\<lparr>conn_rw := conn_rw conn1\<rparr>"
    using HandshakeServer_exchange [OF f b(2,3) S] by (auto simp: hs_done_def)
  have "conn_pool conn1 = conn_pool conn" "chunkSize conn1 = chunkSize conn" "remoteChunkSize conn1 = k" "chunks conn1 = chunks conn"
    using k_def by (subst h(4), simp)+
  then have s: "session k (messages_bytes k [m1, m2, m3] @ rest) (NewConnServer conn1)"
    using h(2,3) r(1) by (simp add: session_def NewConnServer_def cs_input_def ready_def hs_fresh_def hs_input_def key_idle_def NewDecoder_def)
  have d: "\<not> cs_done (NewConnServer conn1)" by (simp add: NewConnServer_def)
  obtain cs where "ReadMsg rng emptyChunkStream (NewConnServer conn1) = (None, cs)" "IsPublisher cs" "cs_GetInfo cs = (app, name, url @ gostr ''/'' @ name)" "cs_input cs = rest"
    using command_exchange [OF s r(2) d r(3) b(5-8), of emptyChunkStream] by auto
  then show ?thesis using h(1) key by (auto simp: handleConn_def cs_GetInfo_def cs_input_def)
qed

text \<open>
  C4: a client that sends its half of the handshake and publishes under a valid key, to an application that is configured, is online afterwards: there is a stream under the
  path of its URL, which reads from it; and the writer of the HLS server and the recorder are among its players, with nothing sent to them yet. This holds
  whatever streams there were before, this one included.
\<close>

theorem publisher_online:
  assumes env: "stream_env E" and "e_r E = vir_reader parse" and ok: "streams_ok E st" and "publishes rng app url name conn rest" and "hmac32 hmac"
    and "CheckAppName (e_apps E) app" and "GetChannel ops name keys = Inr channel" and parse: "parse (url @ gostr ''/'' @ channel) = Inr path"
    and info: "info = \<lparr>Key = trim_slash path, URL = url @ gostr ''/'' @ channel, UID = ac_uid ac, Inter = False\<rparr>"
    and hls: "\<And>st. g info st = (wh, st\<lparr>st_writers := (st_writers st)(wh := hlsw)\<rparr>)" "Key (w_Info (e_w E) hlsw) = Key info"
    and dvr: "dvr info = Inr (Some f)" "Key (w_Info (e_w E) (mkF f)) = Key info"
    and new: "wh \<noteq> ac_dvr ac" "UID (w_Info (e_w E) hlsw) \<noteq> UID (w_Info (e_w E) (mkF f))"
  shows "\<exists>st' a. server_handleConn parse hmac rnd1 rnd2 E ops keys rng ac mkV mkF (Some g) dvr conn st = Inr (None, st') \<and>
     cm_Get (e_streams E) (Key info) (st_streams st') = Some a \<and> s_r (st_objs st' ! a) = Some (ac_r ac) \<and>
     cm_Get (e_ws E) (UID (w_Info (e_w E) hlsw)) (s_ws (st_objs st' ! a)) = Some \<lparr>pw_init = False, pw_w = wh\<rparr> \<and>
     cm_Get (e_ws E) (UID (w_Info (e_w E) (mkF f))) (s_ws (st_objs st' ! a)) = Some \<lparr>pw_init = False, pw_w = ac_dvr ac\<rparr> \<and>
     st_writers st' wh = hlsw \<and> st_writers st' (ac_dvr ac) = mkF f"
proof -
  obtain conn1 cs where c: "HandshakeServer hmac rnd1 rnd2 conn = (None, conn1)" "handleConn (e_apps E) ops keys rng conn1 = Publisher cs"
      "cs_GetInfo cs = (app, channel, url @ gostr ''/'' @ channel)"
    using publisher_accepted [OF assms(4-7)] by blast
  let ?reader = "NewVirReader (ac_now ac) (ac_timeout ac) (ac_uid ac) cs"
  let ?st0 = "st\<lparr>st_readers := (st_readers st)(ac_r ac := ?reader)\<rparr>"
  define st1 where "st1 = HandleReader E (ac_r ac) ?st0"
  define st2 where "st2 = st1\<lparr>st_writers := (st_writers st1)(wh := hlsw)\<rparr>"
  define st3 where "st3 = HandleWriter E wh st2"
  define st4 where "st4 = st3\<lparr>st_writers := (st_writers st3)(ac_dvr ac := mkF f)\<rparr>"
  have i: "vr_Info parse ?reader = Inr info" using c(3) parse info by (simp add: vr_Info_def vir_Info_def NewVirReader_def trim_slash_def)
  then have ri: "r_Info (e_r E) (st_readers ?st0 (ac_r ac)) = info" using assms(2) by (simp add: vir_reader_def)
  have "streams_ok E ?st0" using ok by (simp add: streams_ok_def)
  from stream_env.HandleReader_online [OF env this, of "ac_r ac"] ri obtain a
    where a: "cm_Get (e_streams E) (Key info) (st_streams st1) = Some a" "a < length (st_objs st1)" "s_r (st_objs st1 ! a) = Some (ac_r ac)"
    by (auto simp: st1_def)
  have k2: "Key (w_Info (e_w E) (st_writers st2 wh)) = Key info" and a2: "cm_Get (e_streams E) (Key info) (st_streams st2) = Some a" "a < length (st_objs st2)"
    using a hls(2) by (simp_all add: st2_def)
  note w3 = stream_env.HandleWriter_joins [OF env k2 a2, folded st3_def]
  have k4: "Key (w_Info (e_w E) (st_writers st4 (ac_dvr ac))) = Key info" and a4: "cm_Get (e_streams E) (Key info) (st_streams st4) = Some a" "a < length (st_objs st4)"
    using w3(1,2) dvr(2) by (simp_all add: st4_def)
  note w5 = stream_env.HandleWriter_joins [OF env k4 a4]
  have "server_handleConn parse hmac rnd1 rnd2 E ops keys rng ac mkV mkF (Some g) dvr conn st = Inr (None, HandleWriter E (ac_dvr ac) st4)"
    using c(1,2) i hls(1) dvr(1) by (simp add: server_handleConn_def Let_def st4_def st3_def st2_def st1_def)
  moreover have "s_r (st_objs (HandleWriter E (ac_dvr ac) st4) ! a) = Some (ac_r ac)" using w5(3) w3(3) a(3) by (simp add: st4_def st2_def)
  moreover have "st_writers st4 wh = hlsw" "st_writers st4 (ac_dvr ac) = mkF f" using w3(4) new(1) by (simp_all add: st4_def st2_def)
  moreover have "st_writers st2 wh = hlsw" "st_objs st4 = st_objs st3" by (simp_all add: st2_def st4_def)
  ultimately show ?thesis using w5(1,4,5) w3(5) new(2) by (intro exI [of _ "HandleWriter E (ac_dvr ac) st4"] exI [of _ a]) auto
qed

text \<open>A server with a publisher's connection, and writers that record.\<close>

definition demo_env :: "((bytes \<times> nat) list, (bytes \<times> PackWriterCloser) list, VirReader, Info \<times> packet list) env" where
  "demo_env = \<lparr>e_streams = alist_map, e_ws = alist_map, e_r = vir_reader (\<lambda>_. Inr (gostr ''/live/movie'')), e_w = record_writer, e_gop = 1,
     e_apps = [\<lparr>Appname = gostr ''live'', Live = True, Hls = True, StaticPush = []\<rparr>],
     e_net = \<lparr>net_Parse = \<lambda>_. Inl (Err NetError), net_Dial = \<lambda>_. Inl (Err NetError), net_Range = id\<rparr>\<rparr>"

interpretation acc: stream_env demo_env
  by unfold_locales (simp_all add: demo_env_def record_writer_def am.get_new am.get_set am.get_remove am.items_distinct am.items_get)

definition demo_streams :: "((bytes \<times> nat) list, (bytes \<times> PackWriterCloser) list, Info \<times> packet list) rtmp_streams" where
  "demo_streams = NewStreams demo_env (\<lambda>_. NewVirReader 0 10 [] (NewConnServer (NewConn [] EOF None 4096))) (\<lambda>_. (zeroInfo, []))"

definition demo_accept :: accept_args where
  "demo_accept = \<lparr>ac_now = 0, ac_timeout = 10, ac_uid = [5], ac_r = 0, ac_w = 0, ac_dvr = 1\<rparr>"

definition demo_writer :: "bytes \<Rightarrow> Info \<times> packet list" where
  "demo_writer uid = (\<lparr>Key = gostr ''live/movie'', URL = [], UID = uid, Inter = True\<rparr>, [])"

lemma demo_streams_ok: "streams_ok demo_env demo_streams"
  by (simp add: streams_ok_def demo_streams_def NewStreams_def am.get_new demo_env_def)

lemma demo_publishes: "\<exists>conn. publishes id (gostr ''live'') (gostr ''rtmp://host/live'') (gostr ''secret'') conn []"
proof -
  let ?obj = "[(gostr ''app'', AString (gostr ''live'')), (gostr ''tcUrl'', AString (gostr ''rtmp://host/live''))]"
  have "small_members ?obj" by (simp add: small_members_def)
  then have "\<exists>m. command 128 m [AString (gostr ''connect''), AInt 1, AObject ?obj]" by (intro command_exists) (simp_all add: gostr_def)
  moreover have "\<exists>m. command 128 m [AString (gostr ''createStream''), AInt 2, ANil]" by (intro command_exists) simp_all
  moreover have "\<exists>m. command 128 m [AString (gostr ''publish''), AInt 3, ANil, AString (gostr ''secret''), AString (gostr ''live'')]"
    by (intro command_exists) (simp_all add: gostr_def)
  ultimately obtain m1 m2 m3 where m: "command 128 m1 [AString (gostr ''connect''), AInt 1, AObject ?obj]"
      "command 128 m2 [AString (gostr ''createStream''), AInt 2, ANil]"
      "command 128 m3 [AString (gostr ''publish''), AInt 3, ANil, AString (gostr ''secret''), AString (gostr ''live'')]"
    by blast
  let ?z = "replicate 1536 0 :: bytes"
  let ?conn = "NewConn (3 # ?z @ ?z @ messages_bytes 128 [m1, m2, m3] @ []) EOF None 4096"
  have f: "connect_fields ?obj (gostr ''live'') (gostr ''rtmp://host/live'')" by (simp add: connect_fields_def gostr_def)
  have i: "rd_in (conn_rw ?conn) = 3 # ?z @ ?z @ messages_bytes 128 [m1, m2, m3] @ []" "remoteChunkSize ?conn = 128"
    by (simp_all add: NewConn_def NewReadWriter_def)
  have z: "take 4 (drop 4 ?z) = replicate 4 0" "range_order id" "length ?z = 1536" "(128 :: u32) \<noteq> 0" by (simp_all add: range_order_def)
  have "publishes id (gostr ''live'') (gostr ''rtmp://host/live'') (gostr ''secret'') ?conn []"
    unfolding publishes_def Let_def i(2) using NewConn_ready [of "3 # ?z @ ?z @ messages_bytes 128 [m1, m2, m3] @ []"] f i(1) z m by blast
  then show ?thesis by blast
qed

theorem publisher_online_witness:
  "\<exists>conn st' a. server_handleConn (\<lambda>_. Inr (gostr ''/live/movie'')) (\<lambda>k m. replicate 32 0) [] [] demo_env map_cache [gostr ''secret'' \<mapsto> gostr ''movie''] id
       demo_accept (\<lambda>_. demo_writer []) (\<lambda>_. demo_writer [2]) (Some (\<lambda>_ st. (0, st\<lparr>st_writers := (st_writers st)(0 := demo_writer [1])\<rparr>)))
       (\<lambda>_. map_sum id Some (NewWriter 0 [2] (gostr ''live'') (gostr ''movie'') [] \<lparr>sk_out = [], sk_cap = None\<rparr>)) conn demo_streams = Inr (None, st') \<and>
     s_r (st_objs st' ! a) = Some 0"
proof -
  obtain conn where p: "publishes id (gostr ''live'') (gostr ''rtmp://host/live'') (gostr ''secret'') conn []" using demo_publishes by blast
  obtain f where f: "NewWriter 0 [2] (gostr ''live'') (gostr ''movie'') [] \<lparr>sk_out = [], sk_cap = None\<rparr> = Inr f"
    using i32.put_range_eq [of 0 4 "replicate headerLen 0" 0] by (auto simp: NewWriter_def Let_def)
  have e: "e_r demo_env = vir_reader (\<lambda>_. Inr (gostr ''/live/movie''))" "CheckAppName (e_apps demo_env) (gostr ''live'')" by (simp_all add: demo_env_def)
  have h: "hmac32 (\<lambda>k m. replicate 32 0)" by (simp add: hmac32_def)
  have g: "GetChannel map_cache (gostr ''secret'') [gostr ''secret'' \<mapsto> gostr ''movie''] = Inr (gostr ''movie'')" by (simp add: GetChannel_def map_cache_def)
  have t: "trim_slash (gostr ''/live/movie'') = gostr ''live/movie''" by (simp add: trim_slash_def gostr_def)
  have w: "w_Info (e_w demo_env) (demo_writer u) = \<lparr>Key = gostr ''live/movie'', URL = [], UID = u, Inter = True\<rparr>" for u
    by (simp add: demo_env_def record_writer_def demo_writer_def)
  show ?thesis
    using publisher_online [OF acc.stream_env_axioms e(1) demo_streams_ok p h e(2) g refl refl, of "\<lambda>_ st. (0, st\<lparr>st_writers := (st_writers st)(0 := demo_writer [1])\<rparr>)" demo_accept
        0 "demo_writer [1]" "\<lambda>_. map_sum id Some (NewWriter 0 [2] (gostr ''live'') (gostr ''movie'') [] \<lparr>sk_out = [], sk_cap = None\<rparr>)" f "\<lambda>_. demo_writer [2]" "[]" "[]" "\<lambda>_. demo_writer []"]
    by (auto simp: f w t demo_accept_def)
qed

text \<open>
  When the recorder cannot create its file, for instance because the name of the stream has a slash and the directory before it does not exist, the connection of the publisher
  panics, and with it, since the goroutine does not recover, the program.
\<close>

theorem recorder_failure_panics:
  assumes "publishes rng app url name conn rest" and "hmac32 hmac" and "CheckAppName (e_apps E) app" and "GetChannel ops name keys = Inr channel"
    and "parse (url @ gostr ''/'' @ channel) = Inr path" and "\<And>file. \<exists>e. fs_Open fs file = Inl e"
  shows "server_handleConn parse hmac rnd1 rnd2 E ops keys rng ac mkV mkF getter (Dvr_Writer fs flvDir now newID) conn st = Inl (Panic NilDereference)"
proof -
  obtain conn1 cs where c: "HandshakeServer hmac rnd1 rnd2 conn = (None, conn1)" "handleConn (e_apps E) ops keys rng conn1 = Publisher cs"
      "cs_GetInfo cs = (app, channel, url @ gostr ''/'' @ channel)"
    using publisher_accepted [OF assms(1-4)] by blast
  obtain info where i: "vr_Info parse (NewVirReader (ac_now ac) (ac_timeout ac) (ac_uid ac) cs) = Inr info"
    using c(3) assms(5) by (simp add: vr_Info_def vir_Info_def NewVirReader_def)
  have "Dvr_Writer fs flvDir now newID i = Inr None" for i
    using assms(6) by (auto simp: Dvr_Writer_def split: option.split sum.split) (metis sum.distinct(1))
  with c(1,2) i show ?thesis by (simp add: server_handleConn_def Let_def)
qed

theorem recorder_failure_panics_witness:
  "\<exists>conn. server_handleConn (\<lambda>_. Inr (gostr ''/live/a/b'')) (\<lambda>k m. replicate 32 0) [] [] demo_env map_cache [gostr ''secret'' \<mapsto> gostr ''a/b''] id
       demo_accept (\<lambda>_. demo_writer []) (\<lambda>_. demo_writer [2]) None (Dvr_Writer \<lparr>fs_Mkdir = \<lambda>_. None, fs_Open = \<lambda>_. Inl (Err NetError)\<rparr> (gostr ''tmp'') 0 [2]) conn demo_streams =
     Inl (Panic NilDereference)"
proof -
  obtain conn where p: "publishes id (gostr ''live'') (gostr ''rtmp://host/live'') (gostr ''secret'') conn []" using demo_publishes by blast
  have e: "CheckAppName (e_apps demo_env) (gostr ''live'')" by (simp add: demo_env_def)
  have h: "hmac32 (\<lambda>k m. replicate 32 0)" by (simp add: hmac32_def)
  have g: "GetChannel map_cache (gostr ''secret'') [gostr ''secret'' \<mapsto> gostr ''a/b''] = Inr (gostr ''a/b'')" by (simp add: GetChannel_def map_cache_def)
  show ?thesis
    by (rule exI [of _ conn], rule recorder_failure_panics [OF p h e g, where path = "gostr ''/live/a/b''"]) simp_all
qed

section \<open>A player that goes away\<close>

lemma check_reads_end:
  assumes "ok_messages k ms" and "ready conn" and "remoteChunkSize conn = k" and "k \<noteq> 0" and "rd_in (conn_rw conn) = messages_bytes k ms"
  shows "\<exists>e conn'. check_reads c conn = (Err e, conn')"
  using assms
proof (induction ms arbitrary: k conn c)
  case Nil
  then have "ReadUintBE 1 (conn_rw conn) = (0, Some (rd_end (conn_rw conn)), (conn_rw conn)\<lparr>readError := Some (rd_end (conn_rw conn))\<rparr>)" "pool_inv (conn_pool conn)"
    by (simp_all add: ReadUintBE_def ready_def)
  with conn_Read_failed [of conn _ _ c] show ?case by (fastforce simp: check_reads.simps [of c conn])
next
  case (Cons m ms)
  obtain c' conn' where r: "conn_Read c conn = (None, c', conn')" "ready conn'" "remoteChunkSize conn' = next_size k m" "rd_in (conn_rw conn') = messages_bytes (next_size k m) ms"
    using conn_Read_message [of k m conn "messages_bytes (next_size k m) ms" c] Cons.prems by auto
  have "next_size k m \<noteq> 0" using next_size_nonzero Cons.prems(1,4) by auto
  with Cons.IH [OF _ r(2,3) _ r(4), of c'] Cons.prems(1) r(1) show ?case by (simp add: check_reads.simps [of c conn])
qed

text \<open>
  C29: when the connection of a player ends, after whatever well-formed messages it has sent, its writer is closed and takes no packet any more, so that the stream drops it.
\<close>

theorem player_gone:
  assumes "ok_messages k ms" and "ready (cs_conn (vw_conn v))" and "remoteChunkSize (cs_conn (vw_conn v)) = k" and "k \<noteq> 0"
    and "rd_in (conn_rw (cs_conn (vw_conn v))) = messages_bytes k ms" and "\<not> ch_closed (vw_packetQueue v)"
  shows "\<exists>v'. vw_Check v = Inr v' \<and> vw_closed v' \<and> vw_Write p v' = Some (Inl (Err (Errorf ''VirWriter closed'')))"
proof -
  obtain e conn' where "check_reads emptyChunkStream (cs_conn (vw_conn v)) = (Err e, conn')" using check_reads_end [OF assms(1-5)] by blast
  then show ?thesis using assms(6) by (cases "vw_closed v") (simp_all add: vw_Check_def vw_Close_def vw_Write_def chan_close_def)
qed

theorem player_gone_witness:
  "\<exists>v'. vw_Check (NewVirWriter 0 10 [] (NewConnServer (NewConn [] EOF None 4096))) = Inr v' \<and> vw_closed v'"
proof -
  let ?conn = "NewConn [] EOF None 4096"
  let ?v = "NewVirWriter 0 10 [] (NewConnServer ?conn)"
  have "cs_conn (vw_conn ?v) = ?conn" "\<not> ch_closed (vw_packetQueue ?v)" by (simp_all add: NewVirWriter_def NewConnServer_def)
  moreover have "remoteChunkSize ?conn = 128" "rd_in (conn_rw ?conn) = messages_bytes 128 []" by (simp_all add: NewConn_def NewReadWriter_def)
  ultimately show ?thesis using player_gone [of 128 "[]" ?v] NewConn_ready [of "[]"] by auto
qed

end
