(* ===== verification/Uid.thy ===== *)
theory Uid
  imports Base64
begin

text \<open>
  \<^verbatim>\<open>src/utils/uid\<close>: the identifiers of readers and writers, and the keys of rooms. The randomness is a parameter: the 16 bytes of the UUID that the package \<^verbatim>\<open>uuid\<close>
  makes, and the results of the calls of \<^verbatim>\<open>rand.Intn\<close>, by the number of the call and the bound.
\<close>

section \<open>Operations\<close>

definition NewID :: "bytes \<Rightarrow> bytes res" where
  "NewID uuid = bindR (slice uuid 0 12) (\<lambda>b. Inr (b64_encode b64_url b))"

definition letterRunes :: bytes where
  "letterRunes = gostr ''0123456789abcdefghijklmnopqrstuvwxyzABCDEFGHIJKLMNOPQRSTUVWXYZ''"

fun RandStringRunes :: "(nat \<Rightarrow> nat \<Rightarrow> nat) \<Rightarrow> nat \<Rightarrow> bytes res" where
  "RandStringRunes intn 0 = Inr []"
| "RandStringRunes intn (Suc i) =
     bindR (RandStringRunes intn i) (\<lambda>b. bindR (index_at letterRunes (intn i (length letterRunes))) (\<lambda>c. Inr (b @ [c])))"

section \<open>Lemmas\<close>

lemma letterRunes_62: "length letterRunes = 62" "distinct letterRunes"
proof -
  have "distinct (map unat letterRunes)" by (simp add: letterRunes_def gostr_def)
  then show "distinct letterRunes" by (simp add: distinct_map)
qed (simp add: letterRunes_def gostr_def)

lemma RandStringRunes_draws:
  assumes "\<forall>i < n. intn i 62 < 62"
  shows "RandStringRunes intn n = Inr (map (\<lambda>i. letterRunes ! intn i 62) [0..<n])"
  using assms by (induction n) (auto simp: letterRunes_62)

lemma letters_inject: "i < 62 \<Longrightarrow> j < 62 \<Longrightarrow> letterRunes ! i = letterRunes ! j \<longleftrightarrow> i = j"
  by (simp add: nth_eq_iff_index_eq letterRunes_62)

section \<open>Properties\<close>

text \<open>
  C26: identifiers. Of a UUID of 16 bytes \<^verbatim>\<open>NewID\<close> makes 16 characters that need no escaping in a URL, without padding, and two of them are equal exactly when the first twelve
  bytes of the UUIDs are: no other two readers or writers share an identifier.
\<close>

theorem identifiers:
  assumes "length uuid = 16" and "length uuid' = 16"
  shows "\<exists>x x'. NewID uuid = Inr x \<and> NewID uuid' = Inr x' \<and> length x = 16 \<and> set x \<subseteq> set b64_url \<and> (x = x' \<longleftrightarrow> take 12 uuid = take 12 uuid')"
  using assms b64_encode_chars [OF alphabet_url, of "take 12 uuid"] by (simp add: b64_encode_length NewID_def slice_def b64_encode_inject [OF alphabet_url])

theorem identifiers_witness:
  "\<exists>x x'. NewID (replicate 16 7) = Inr x \<and> NewID (9 # replicate 15 7) = Inr x' \<and> length x = 16 \<and> x \<noteq> x'"
  using identifiers [of "replicate 16 7" "9 # replicate 15 7"] by (auto simp: numeral_eq_Suc)

text \<open>
  Keys. The keys of rooms are of the asked length and of letters and digits; they are equal only when the generator drew the same numbers.
\<close>

theorem random_keys:
  assumes "\<forall>i < n. intn i 62 < 62" and "\<forall>i < n. intn' i 62 < 62"
  shows "\<exists>k k'. RandStringRunes intn n = Inr k \<and> RandStringRunes intn' n = Inr k' \<and> length k = n \<and> set k \<subseteq> set letterRunes \<and>
     (k = k' \<longleftrightarrow> (\<forall>i < n. intn i 62 = intn' i 62))"
proof -
  have "set (map (\<lambda>i. letterRunes ! intn i 62) [0..<n]) \<subseteq> set letterRunes" using assms(1) by (auto simp: letterRunes_62)
  moreover have "map (\<lambda>i. letterRunes ! intn i 62) [0..<n] = map (\<lambda>i. letterRunes ! intn' i 62) [0..<n] \<longleftrightarrow> (\<forall>i < n. intn i 62 = intn' i 62)"
    using assms by (auto simp: letters_inject)
  ultimately show ?thesis using RandStringRunes_draws [of n intn] RandStringRunes_draws [of n intn'] assms by simp
qed

theorem random_keys_witness: "\<exists>k k'. RandStringRunes (\<lambda>i n. i mod n) 48 = Inr k \<and> RandStringRunes (\<lambda>i n. 5) 48 = Inr k' \<and> length k = 48 \<and> k \<noteq> k'"
  using random_keys [of 48 "\<lambda>i n. i mod n" "\<lambda>i n. 5"] by fastforce

end
