(* ===== verification/ApiServe.thy ===== *)
theory ApiServe
  imports Api Json Accept
begin

text \<open>
  The way of a request through the HTTP interface of \<^verbatim>\<open>src/protocol/api/api.go\<close>: \<^verbatim>\<open>Serve\<close> with its routes, the check of a token before them (\<^verbatim>\<open>JWTMiddleware\<close>), the handlers of \<open>Api\<close>,
  and the answer as it is sent (\<^verbatim>\<open>SendJSON\<close>).

  The packages \<^verbatim>\<open>jwt-go\<close> and \<^verbatim>\<open>go-jwt-middleware\<close> are parameters: \<open>GetSigningMethod\<close> and \<open>HS256\<close>, and \<open>HandlerWithNext\<close>, which gets the options, the next handler and the request. What
  is documented of the last, that it calls the error handler or the next one, is a hypothesis where it is needed.
\<close>

section \<open>Answers\<close>

definition response_json :: "Response \<Rightarrow> json" where
  "response_json r =
     JObj [(gostr ''status'', JNum (Status r)),
           (gostr ''data'', case resp_Data r of NoData \<Rightarrow> JNull | Text t \<Rightarrow> JStr t | Blob b \<Rightarrow> JStr (b64_encode b64_std b))]"

definition SendJSON :: "Response \<Rightarrow> http_reply" where
  "SendJSON r = \<lparr>rp_status = Status r, rp_ContentType = gostr ''application/json'', rp_body = json_Marshal (response_json r)\<rparr>"

definition api_stream_json :: "api_stream \<Rightarrow> json" where
  "api_stream_json s =
     JObj [(gostr ''key'', JStr (as_Key s)), (gostr ''url'', JStr (as_URL s)), (gostr ''stream_id'', JNum (unat (as_StreamID s))),
           (gostr ''video_total_bytes'', JNum (unat (as_VideoTotalBytes s))), (gostr ''video_speed'', JNum (unat (as_VideoSpeed s))),
           (gostr ''audio_total_bytes'', JNum (unat (as_AudioTotalBytes s))), (gostr ''audio_speed'', JNum (unat (as_AudioSpeed s)))]"

definition api_streams_json :: "api_streams \<Rightarrow> json" where
  "api_streams_json s =
     JObj [(gostr ''publishers'', slice_json api_stream_json (as_Publishers s)), (gostr ''players'', slice_json api_stream_json (as_Players s))]"

text \<open>The streams are the handler that the server was made with, a pointer that may be nil.\<close>

definition handleLiveStat ::
    "('s, 'm, 'r, 'w) env \<Rightarrow> ('r \<Rightarrow> VirReader option) \<Rightarrow> ('w \<Rightarrow> VirWriter option) \<Rightarrow> ('s, 'm, 'r, 'w) Streams option \<Rightarrow> Response" where
  "handleLiveStat E asR asW rtmpStream =
     (case rtmpStream of
        None \<Rightarrow> \<lparr>Status = 500, resp_Data = Text (gostr ''Get rtmp stream information error'')\<rparr>
      | Some st \<Rightarrow> \<lparr>Status = 200, resp_Data = Blob (json_Marshal (api_streams_json (getLiveStatics E asR asW st)))\<rparr>)"

section \<open>Routes\<close>

record request =
  rq_path :: bytes
  rq_form :: form
  rq_token :: "bytes option"

datatype route = ToStatics bytes | ToPush | ToPull | ToGet | ToReset | ToDelete | ToLiveStat | ToPath bytes | Nowhere

text \<open>A path that is not clean, or lacks the slash of \<^verbatim>\<open>/statics/\<close>, is redirected; the others match a pattern or none.\<close>

definition api_route :: "bytes \<Rightarrow> route" where
  "api_route path =
     (let clean = mux_clean path
      in if clean = gostr ''/statics'' then ToPath (gostr ''/statics/'')
         else if clean \<noteq> path then ToPath clean
         else if path = gostr ''/control/push'' then ToPush
         else if path = gostr ''/control/pull'' then ToPull
         else if path = gostr ''/control/get'' then ToGet
         else if path = gostr ''/control/reset'' then ToReset
         else if path = gostr ''/control/delete'' then ToDelete
         else if path = gostr ''/stat/livestat'' then ToLiveStat
         else if take 9 path = gostr ''/statics/'' then ToStatics (drop 9 path)
         else Nowhere)"

text \<open>The answer: one of the handlers', a file, a redirection, or that there is nothing.\<close>

datatype api_reply = Answer http_reply | File bytes | MovedTo bytes | NotFound

definition answered :: "(Response \<times> 'c ApiServer) blk \<Rightarrow> (api_reply \<times> 'c ApiServer) blk" where
  "answered h = bindB h (\<lambda>(r, s). retB (Answer (SendJSON r), s))"

definition api_mux ::
    "'c cache_ops \<Rightarrow> (exn \<Rightarrow> bytes) \<Rightarrow> network \<Rightarrow> bytes list \<Rightarrow> ('s, 'm, 'r, 'w) env \<Rightarrow> ('r \<Rightarrow> VirReader option) \<Rightarrow> ('w \<Rightarrow> VirWriter option) \<Rightarrow>
     ('s, 'm, 'r, 'w) Streams option \<Rightarrow> request \<Rightarrow> 'c ApiServer \<Rightarrow> (api_reply \<times> 'c ApiServer) blk" where
  "api_mux ops etext net rand E asR asW st rq s =
     (case api_route (rq_path rq) of
        ToPush \<Rightarrow> answered (handlePush etext net (rq_form rq) s)
      | ToPull \<Rightarrow> answered (handlePull etext net (rq_form rq) s)
      | ToGet \<Rightarrow> answered (map_option Inr (handleGet ops rand (rq_form rq) s))
      | ToReset \<Rightarrow> answered (map_option Inr (handleReset ops rand (rq_form rq) s))
      | ToDelete \<Rightarrow> answered (retB (handleDelete ops (rq_form rq) s))
      | ToLiveStat \<Rightarrow> answered (retB (handleLiveStat E asR asW st, s))
      | ToStatics file \<Rightarrow> retB (File file, s)
      | ToPath p \<Rightarrow> retB (MovedTo p, s)
      | Nowhere \<Rightarrow> retB (NotFound, s))"

section \<open>Tokens\<close>

record 'alg jwt_options =
  opt_Key :: bytes
  opt_SigningMethod :: 'alg
  opt_ErrorHandler :: "bytes \<Rightarrow> api_reply"

definition JWTMiddleware ::
    "(bytes \<Rightarrow> 'alg option) \<Rightarrow> 'alg \<Rightarrow> ('alg jwt_options \<Rightarrow> (request \<Rightarrow> 't) \<Rightarrow> request \<Rightarrow> 't) \<Rightarrow> bytes \<Rightarrow> bytes \<Rightarrow> (request \<Rightarrow> 't) \<Rightarrow> request \<Rightarrow> 't" where
  "JWTMiddleware GetSigningMethod HS256 HandlerWithNext secret algName next =
     (if length secret = 0 then next
      else let algorithm = (if length algName > 0 then GetSigningMethod algName else None)
           in HandlerWithNext
                \<lparr>opt_Key = secret, opt_SigningMethod = (case algorithm of None \<Rightarrow> HS256 | Some a \<Rightarrow> a),
                 opt_ErrorHandler = \<lambda>err. Answer (SendJSON \<lparr>Status = 403, resp_Data = Text err\<rparr>)\<rparr> next)"

text \<open>What \<^verbatim>\<open>HandlerWithNext\<close> does with a request: the answer of the error handler, or what the next handler does when the token is accepted.\<close>

definition checks_tokens ::
    "('alg jwt_options \<Rightarrow> request \<Rightarrow> bool) \<Rightarrow> ('alg jwt_options \<Rightarrow> (request \<Rightarrow> 's \<Rightarrow> (api_reply \<times> 's) blk) \<Rightarrow> request \<Rightarrow> 's \<Rightarrow> (api_reply \<times> 's) blk) \<Rightarrow> bool" where
  "checks_tokens accepted HandlerWithNext \<longleftrightarrow>
     (\<forall>opts next rq s. if accepted opts rq then HandlerWithNext opts next rq s = next rq s
        else \<exists>err. HandlerWithNext opts next rq s = retB (opt_ErrorHandler opts err, s))"

section \<open>Every answer is a JSON object\<close>

definition api_status :: "nat \<Rightarrow> bool" where
  "api_status n \<longleftrightarrow> n = 200 \<or> n = 400 \<or> n = 403 \<or> n = 404 \<or> n = 500"

definition good_response :: "Response \<Rightarrow> bool" where
  "good_response r \<longleftrightarrow> api_status (Status r) \<and> resp_Data r \<noteq> NoData"

lemma good_responseI [simp]: "good_response \<lparr>Status = n, resp_Data = Text t\<rparr> = api_status n" "good_response \<lparr>Status = n, resp_Data = Blob b\<rparr> = api_status n"
  by (simp_all add: good_response_def)

lemma api_status_simps [simp]: "api_status 200" "api_status 400" "api_status 403" "api_status 404" "api_status 500"
  by (simp_all add: api_status_def)

lemma handlers_good:
  "handlePush etext net form s = retB (r, s') \<Longrightarrow> good_response r"
  "handlePull etext net form s = retB (r, s') \<Longrightarrow> good_response r"
  "handleGet ops rand form s = Some (r, s') \<Longrightarrow> good_response r"
  "handleReset ops rand form s = Some (r, s') \<Longrightarrow> good_response r"
  "handleDelete ops form s = (r, s') \<Longrightarrow> good_response r"
  "good_response (handleLiveStat E asR asW st)"
  by (auto simp: handlePush_def handlePull_def handleGet_def handleReset_def handleDelete_def handleLiveStat_def bindB_retB Let_def
      split: option.splits if_splits prod.splits bool.splits)

text \<open>The paths of the handlers.\<close>

definition handler_paths :: "bytes set" where
  "handler_paths = {gostr ''/control/push'', gostr ''/control/pull'', gostr ''/control/get'', gostr ''/control/reset'', gostr ''/control/delete'',
     gostr ''/stat/livestat''}"

text \<open>What each kind of reply is: the handlers' are sent by \<^verbatim>\<open>SendJSON\<close>; the others come from the routes and change nothing.\<close>

definition typed_reply :: "bytes \<Rightarrow> api_reply \<Rightarrow> bool" where
  "typed_reply path rpl \<longleftrightarrow>
     (case rpl of
        Answer rp \<Rightarrow> \<exists>r. rp = SendJSON r \<and> good_response r
      | File f \<Rightarrow> path = gostr ''/statics/'' @ f
      | MovedTo p \<Rightarrow> p \<noteq> path \<and> (if mux_clean path = gostr ''/statics'' then p = gostr ''/statics/'' else p = mux_clean path)
      | NotFound \<Rightarrow> path \<notin> handler_paths \<and> take 9 path \<noteq> gostr ''/statics/'')"

lemma route_typed:
  "api_route path = ToStatics f \<Longrightarrow> typed_reply path (File f)"
  "api_route path = ToPath p \<Longrightarrow> typed_reply path (MovedTo p)"
  "api_route path = Nowhere \<Longrightarrow> typed_reply path NotFound"
proof -
  have s: "mux_clean (gostr ''/statics/'') = gostr ''/statics/''"
    by (simp add: mux_clean_def path_Clean_def gostr_def Let_def)
  show "typed_reply path (File f)" if "api_route path = ToStatics f"
  proof -
    from that have "take 9 path = gostr ''/statics/''" "f = drop 9 path" by (simp_all add: api_route_def Let_def split: if_splits)
    then show ?thesis using append_take_drop_id [of 9 path] by (simp add: typed_reply_def)
  qed
  show "typed_reply path (MovedTo p)" if "api_route path = ToPath p"
    using that s by (auto simp: typed_reply_def api_route_def Let_def gostr_def split: if_splits)
  show "typed_reply path NotFound" if "api_route path = Nowhere"
    using that by (auto simp: typed_reply_def handler_paths_def api_route_def Let_def split: if_splits)
qed

lemma mux_typed:
  assumes "api_mux ops etext net rand E asR asW st rq s = retB (rpl, s')"
  shows "typed_reply (rq_path rq) rpl" and "\<not> (\<exists>rp. rpl = Answer rp) \<Longrightarrow> s' = s"
proof -
  have a: "\<exists>r. rpl = Answer (SendJSON r) \<and> good_response r" if "answered h = retB (rpl, s')" "\<forall>r. h = retB (r, s') \<longrightarrow> good_response r" for h
    using that by (auto simp: answered_def bindB_retB split: prod.splits)
  have "(\<exists>r. rpl = Answer (SendJSON r) \<and> good_response r) \<or> (\<forall>rp. rpl \<noteq> Answer rp) \<and> typed_reply (rq_path rq) rpl \<and> s' = s"
  proof (cases "api_route (rq_path rq)")
    case ToPush then show ?thesis using assms a [of "handlePush etext net (rq_form rq) s"] handlers_good(1) by (simp add: api_mux_def) blast
  next
    case ToPull then show ?thesis using assms a [of "handlePull etext net (rq_form rq) s"] handlers_good(2) by (simp add: api_mux_def) blast
  next
    case ToGet then show ?thesis using assms a [of "map_option Inr (handleGet ops rand (rq_form rq) s)"] handlers_good(3) by (simp add: api_mux_def) blast
  next
    case ToReset then show ?thesis using assms a [of "map_option Inr (handleReset ops rand (rq_form rq) s)"] handlers_good(4) by (simp add: api_mux_def) blast
  next
    case ToDelete then show ?thesis using assms a [of "retB (handleDelete ops (rq_form rq) s)"] handlers_good(5) by (simp add: api_mux_def) blast
  next
    case ToLiveStat then show ?thesis using assms a [of "retB (handleLiveStat E asR asW st, s)"] handlers_good(6) by (simp add: api_mux_def) blast
  qed (use assms route_typed in \<open>auto simp: api_mux_def\<close>)
  moreover have "typed_reply (rq_path rq) (Answer (SendJSON r))" if "good_response r" for r using that by (auto simp: typed_reply_def)
  ultimately show "typed_reply (rq_path rq) rpl" and "\<not> (\<exists>rp. rpl = Answer rp) \<Longrightarrow> s' = s" by blast+
qed

lemma middleware_typed:
  assumes "checks_tokens accepted HandlerWithNext"
    and "JWTMiddleware GetSigningMethod HS256 HandlerWithNext secret alg (api_mux ops etext net rand E asR asW st) rq s = retB (rpl, s')"
  shows "typed_reply (rq_path rq) rpl \<and> ((\<exists>rp. rpl = Answer rp) \<or> s' = s)"
proof (cases "secret = []")
  case True
  with assms(2) mux_typed show ?thesis by (fastforce simp: JWTMiddleware_def)
next
  case False
  then obtain opts where o: "HandlerWithNext opts (api_mux ops etext net rand E asR asW st) rq s = retB (rpl, s')"
      "opt_ErrorHandler opts = (\<lambda>err. Answer (SendJSON \<lparr>Status = 403, resp_Data = Text err\<rparr>))"
    using assms(2) by (auto simp: JWTMiddleware_def Let_def)
  show ?thesis
  proof (cases "accepted opts rq")
    case True
    with assms(1) have "HandlerWithNext opts (api_mux ops etext net rand E asR asW st) rq s = api_mux ops etext net rand E asR asW st rq s"
      unfolding checks_tokens_def by meson
    with o(1) mux_typed show ?thesis by metis
  next
    case False
    with assms(1) obtain err where "HandlerWithNext opts (api_mux ops etext net rand E asR asW st) rq s = retB (opt_ErrorHandler opts err, s)"
      unfolding checks_tokens_def by meson
    with o show ?thesis by (auto simp: typed_reply_def intro!: exI [of _ "\<lparr>Status = 403, resp_Data = Text err\<rparr>"])
  qed
qed

lemma handler_paths_clean: "path \<in> handler_paths \<Longrightarrow> mux_clean path = path \<and> take 9 path \<noteq> gostr ''/statics/'' \<and> path \<noteq> gostr ''/statics''"
  by (auto simp: handler_paths_def mux_clean_def path_Clean_def gostr_def Let_def)

text \<open>The text that a client reads in the field \<^verbatim>\<open>data\<close>.\<close>

definition data_text :: "api_data \<Rightarrow> bytes" where
  "data_text d = (case d of NoData \<Rightarrow> [] | Text t \<Rightarrow> to_valid t | Blob b \<Rightarrow> b64_encode b64_std b)"

lemma b64_ascii: "to_valid (b64_encode b64_std b) = b64_encode b64_std b"
proof (rule ascii_valid)
  have "list_all (between 0 0x7F) (61 # b64_std)" by (simp add: between_def b64_std_def gostr_def)
  then show "list_all (between 0 0x7F) (b64_encode b64_std b)" using b64_encode_subset [OF alphabet_std, of b] by (auto simp: list_all_iff)
qed

lemma field_names [simp]: "to_valid (gostr ''status'') = gostr ''status''" "to_valid (gostr ''data'') = gostr ''data''"
  by (intro ascii_valid; simp add: gostr_def between_def)+

lemma parse_SendJSON:
  assumes "good_response r"
  shows "json_parse (rp_body (SendJSON r)) = Some (JObj [(gostr ''status'', JNum (Status r)), (gostr ''data'', JStr (data_text (resp_Data r)))])"
proof -
  have "json_valid (response_json r) = JObj [(gostr ''status'', JNum (Status r)), (gostr ''data'', JStr (data_text (resp_Data r)))]"
    using assms by (auto simp: response_json_def data_text_def good_response_def b64_ascii split: api_data.splits)
  then show ?thesis by (simp add: SendJSON_def parse_Marshal del: json_Marshal.simps)
qed

section \<open>Properties\<close>


text \<open>A middleware that accepts requests with a token that is the key.\<close>

definition demo_middleware :: "unit jwt_options \<Rightarrow> (request \<Rightarrow> 's \<Rightarrow> (api_reply \<times> 's) blk) \<Rightarrow> request \<Rightarrow> 's \<Rightarrow> (api_reply \<times> 's) blk" where
  "demo_middleware opts next rq s =
     (if rq_token rq = Some (opt_Key opts) then next rq s else retB (opt_ErrorHandler opts (gostr ''Required authorization token not found''), s))"

lemma demo_middleware: "checks_tokens (\<lambda>opts rq. rq_token rq = Some (opt_Key opts)) demo_middleware"
  by (auto simp: checks_tokens_def demo_middleware_def)

definition demo_request :: request where
  "demo_request = \<lparr>rq_path = gostr ''/control/delete'', rq_form = Some (\<lambda>_. gostr ''movie''), rq_token = Some (gostr ''key'')\<rparr>"

lemma demo_route: "api_route (gostr ''/control/delete'') = ToDelete"
  by (simp add: api_route_def mux_clean_def path_Clean_def gostr_def Let_def)

definition demo_net :: network where
  "demo_net = \<lparr>net_Parse = \<lambda>_. Inl (Err NetError), net_Dial = \<lambda>_. Inl (Err NetError), net_Range = id\<rparr>"


section \<open>Statistics\<close>

text \<open>The object that a client reads for a stream.\<close>

definition statistics_entry :: "bytes \<Rightarrow> bytes \<Rightarrow> StaticsBW \<Rightarrow> json" where
  "statistics_entry key url bw =
     JObj [(gostr ''key'', JStr (to_valid key)), (gostr ''url'', JStr (to_valid url)), (gostr ''stream_id'', JNum (unat (bw_StreamID bw))),
           (gostr ''video_total_bytes'', JNum (unat (VideoDatainBytes bw))), (gostr ''video_speed'', JNum (unat (VideoSpeedInBytesperMS bw))),
           (gostr ''audio_total_bytes'', JNum (unat (AudioDatainBytes bw))), (gostr ''audio_speed'', JNum (unat (AudioSpeedInBytesperMS bw)))]"

text \<open>The publishers and the players that the streams have, each with its key, its URL and its counters.\<close>

definition rtmp_publishers :: "('s, 'm, 'r, 'w) env \<Rightarrow> ('r \<Rightarrow> VirReader option) \<Rightarrow> ('s, 'm, 'r, 'w) Streams \<Rightarrow> (bytes \<times> bytes \<times> StaticsBW) set" where
  "rtmp_publishers E asR st =
     {(key, URL (r_Info (e_r E) (st_readers st ra)), ReadBWInfo v) | key a ra v.
        (key, a) \<in> set (cm_Items (e_streams E) (st_streams st)) \<and> s_r (st_objs st ! a) = Some ra \<and> asR (st_readers st ra) = Some v}"

definition rtmp_players :: "('s, 'm, 'r, 'w) env \<Rightarrow> ('w \<Rightarrow> VirWriter option) \<Rightarrow> ('s, 'm, 'r, 'w) Streams \<Rightarrow> (bytes \<times> bytes \<times> StaticsBW) set" where
  "rtmp_players E asW st =
     {(key, URL (w_Info (e_w E) (st_writers st (pw_w pw))), WriteBWInfo v) | key a k pw v.
        (key, a) \<in> set (cm_Items (e_streams E) (st_streams st)) \<and> (k, pw) \<in> set (cm_Items (e_ws E) (s_ws (st_objs st ! a))) \<and>
        asW (st_writers st (pw_w pw)) = Some v}"

text \<open>A list of the answer: null when there is nothing, else an array with these entries and no other.\<close>

definition lists_entries :: "json \<Rightarrow> (bytes \<times> bytes \<times> StaticsBW) set \<Rightarrow> bool" where
  "lists_entries j items \<longleftrightarrow> (if items = {} then j = JNull
     else \<exists>es. j = JArr es \<and> set es = {statistics_entry key url bw | key url bw. (key, url, bw) \<in> items})"

lemma valid_elems_map: "valid_elems xs = map json_valid xs"
  by (induction xs) simp_all

lemma statistics_names [simp]:
  "to_valid (gostr ''key'') = gostr ''key''" "to_valid (gostr ''url'') = gostr ''url''" "to_valid (gostr ''stream_id'') = gostr ''stream_id''"
  "to_valid (gostr ''video_total_bytes'') = gostr ''video_total_bytes''" "to_valid (gostr ''video_speed'') = gostr ''video_speed''"
  "to_valid (gostr ''audio_total_bytes'') = gostr ''audio_total_bytes''" "to_valid (gostr ''audio_speed'') = gostr ''audio_speed''"
  "to_valid (gostr ''publishers'') = gostr ''publishers''" "to_valid (gostr ''players'') = gostr ''players''"
  by (intro ascii_valid; simp add: gostr_def between_def)+

lemma triple_image: "(\<lambda>(a, b, c). f a b c) ` A = {f a b c | a b c. (a, b, c) \<in> A}"
  by (auto simp: image_iff) force

lemma entry_valid: "json_valid (api_stream_json (stream_statics key url bw)) = statistics_entry key url bw"
  by (simp add: api_stream_json_def stream_statics_def statistics_entry_def)

lemma lists_entries_slice:
  assumes "set xs = (\<lambda>(key, url, bw). stream_statics key url bw) ` items"
  shows "lists_entries (json_valid (slice_json api_stream_json xs)) items"
proof (cases "xs = []")
  case True
  with assms show ?thesis by (simp add: lists_entries_def slice_json_def)
next
  case False
  then have "items \<noteq> {}" using assms by auto
  moreover have "json_valid (slice_json api_stream_json xs) = JArr (map (\<lambda>x. json_valid (api_stream_json x)) xs)"
    using False by (simp add: slice_json_def valid_elems_map)
  moreover have "set (map (\<lambda>x. json_valid (api_stream_json x)) xs) = (\<lambda>(key, url, bw). statistics_entry key url bw) ` items"
    unfolding set_map assms image_image by (intro image_cong refl) (auto simp: entry_valid)
  moreover have "\<dots> = {statistics_entry key url bw | key url bw. (key, url, bw) \<in> items}"
    by (rule triple_image)
  ultimately show ?thesis by (simp add: lists_entries_def)
qed

lemma publishers_set: "set (as_Publishers (getLiveStatics E asR asW st)) = (\<lambda>(key, url, bw). stream_statics key url bw) ` rtmp_publishers E asR st"
proof -
  have "x \<in> set (case s_r (st_objs st ! a) of None \<Rightarrow> [] | Some ra \<Rightarrow> (case asR (st_readers st ra) of None \<Rightarrow> [] | Some v \<Rightarrow> [f ra v])) \<longleftrightarrow>
      (\<exists>ra v. x = f ra v \<and> s_r (st_objs st ! a) = Some ra \<and> asR (st_readers st ra) = Some v)" for a x and f :: "_ \<Rightarrow> _ \<Rightarrow> api_stream"
    by (simp split: option.splits) metis
  then show ?thesis
    unfolding triple_image rtmp_publishers_def set_eq_iff by (simp add: getLiveStatics_def Bex_def) (metis (no_types, lifting))
qed

lemma players_set: "set (as_Players (getLiveStatics E asR asW st)) = (\<lambda>(key, url, bw). stream_statics key url bw) ` rtmp_players E asW st"
proof -
  let ?url = "\<lambda>pw. URL (w_Info (e_w E) (st_writers st (pw_w pw)))" and ?items = "set (cm_Items (e_streams E) (st_streams st))"
  let ?ws = "\<lambda>a. set (cm_Items (e_ws E) (s_ws (st_objs st ! a)))"
  let ?A = "{(key, ?url pw, WriteBWInfo v) | key a k pw v. (key, a) \<in> ?items \<and> (k, pw) \<in> ?ws a \<and> asW (st_writers st (pw_w pw)) = Some v}"
  have l: "x \<in> set (as_Players (getLiveStatics E asR asW st)) \<longleftrightarrow> (\<exists>key a k pw v. (key, a) \<in> ?items \<and> (k, pw) \<in> ?ws a \<and>
      Some v = asW (st_writers st (pw_w pw)) \<and> x = stream_statics key (?url pw) (WriteBWInfo v))" for x
    by (simp add: getLiveStatics_def Bex_def)
  have r: "x \<in> (\<lambda>(key, url, bw). stream_statics key url bw) ` ?A \<longleftrightarrow> (\<exists>key a k pw v. (key, a) \<in> ?items \<and> (k, pw) \<in> ?ws a \<and>
      Some v = asW (st_writers st (pw_w pw)) \<and> x = stream_statics key (?url pw) (WriteBWInfo v))" for x
  proof
    assume "x \<in> (\<lambda>(key, url, bw). stream_statics key url bw) ` ?A"
    then show "\<exists>key a k pw v. (key, a) \<in> ?items \<and> (k, pw) \<in> ?ws a \<and> Some v = asW (st_writers st (pw_w pw)) \<and> x = stream_statics key (?url pw) (WriteBWInfo v)"
      by clarsimp metis
  next
    assume "\<exists>key a k pw v. (key, a) \<in> ?items \<and> (k, pw) \<in> ?ws a \<and> Some v = asW (st_writers st (pw_w pw)) \<and> x = stream_statics key (?url pw) (WriteBWInfo v)"
    then obtain key a k pw v where *: "(key, a) \<in> ?items" "(k, pw) \<in> ?ws a" "x = stream_statics key (?url pw) (WriteBWInfo v)" "asW (st_writers st (pw_w pw)) = Some v"
      by metis
    then have "(key, ?url pw, WriteBWInfo v) \<in> ?A" by blast
    then show "x \<in> (\<lambda>(key, url, bw). stream_statics key url bw) ` ?A" by (rule rev_image_eqI) (simp add: *(3))
  qed
  show ?thesis unfolding rtmp_players_def set_eq_iff using l r by simp
qed

text \<open>
  C25: the statistics. A client that reads the answer to \<^verbatim>\<open>/stat/livestat\<close> has to decode the string under \<^verbatim>\<open>data\<close> from base64 and to read it as JSON once more; it then has an
  object with two lists, \<^verbatim>\<open>publishers\<close> and \<^verbatim>\<open>players\<close>. The first has an object for every RTMP publisher of a stream and no other, the second for every RTMP player of a stream and no
  other: the key of the stream, the URL, and the stream id and the four counters of what was read from the publisher or written to the player, each under its name. A list
  is null when it would be empty. Without streams the answer has the status 500.
\<close>

theorem livestat_readable:
  "(\<exists>t publishers players. json_parse (rp_body (SendJSON (handleLiveStat E asR asW (Some st)))) = Some (JObj [(gostr ''status'', JNum 200), (gostr ''data'', JStr t)]) \<and>
     json_parse (b64_decode b64_std t) = Some (JObj [(gostr ''publishers'', publishers), (gostr ''players'', players)]) \<and>
     lists_entries publishers (rtmp_publishers E asR st) \<and> lists_entries players (rtmp_players E asW st)) \<and>
   json_parse (rp_body (SendJSON (handleLiveStat E asR asW None))) =
     Some (JObj [(gostr ''status'', JNum 500), (gostr ''data'', JStr (gostr ''Get rtmp stream information error''))])"
proof -
  let ?s = "getLiveStatics E asR asW st"
  let ?p = "json_valid (slice_json api_stream_json (as_Publishers ?s))" and ?w = "json_valid (slice_json api_stream_json (as_Players ?s))"
  let ?t = "b64_encode b64_std (json_Marshal (api_streams_json ?s))"
  have "json_parse (rp_body (SendJSON (handleLiveStat E asR asW (Some st)))) = Some (JObj [(gostr ''status'', JNum 200), (gostr ''data'', JStr ?t)])"
    using parse_SendJSON [OF handlers_good(6), of E asR asW "Some st"] by (simp add: handleLiveStat_def data_text_def)
  moreover have "json_parse (b64_decode b64_std ?t) = Some (JObj [(gostr ''publishers'', ?p), (gostr ''players'', ?w)])"
    using b64_decode_encode [OF alphabet_std] by (simp add: parse_Marshal api_streams_json_def del: json_Marshal.simps)
  moreover have "lists_entries ?p (rtmp_publishers E asR st)" "lists_entries ?w (rtmp_players E asW st)"
    using lists_entries_slice [OF publishers_set] lists_entries_slice [OF players_set] by blast+
  moreover have "to_valid (gostr ''Get rtmp stream information error'') = gostr ''Get rtmp stream information error''"
    by (intro ascii_valid) (simp add: gostr_def between_def)
  then have "json_parse (rp_body (SendJSON (handleLiveStat E asR asW None))) =
      Some (JObj [(gostr ''status'', JNum 500), (gostr ''data'', JStr (gostr ''Get rtmp stream information error''))])"
    using parse_SendJSON [OF handlers_good(6), of E asR asW None] by (simp add: handleLiveStat_def data_text_def)
  ultimately show ?thesis by blast
qed

end
