(* ===== verification/Dial.thy ===== *)
theory Dial
  imports Accept
begin

text \<open>
  How a client reaches a server: the address that \<^verbatim>\<open>ConnClient.Start\<close> of \<^verbatim>\<open>protocol/rtmp/core/conn_client.go\<close> dials for the host of a URL, and \<^verbatim>\<open>Client.Dial\<close> of
  \<^verbatim>\<open>protocol/rtmp/rtmp.go\<close>, which makes a reader or writer of the streams of the connection.

  Name resolution and sockets are parameters: \<open>lookup\<close> is \<^verbatim>\<open>net.LookupIP\<close>, with addresses in their textual form, \<open>intn\<close> is \<^verbatim>\<open>rand.Intn\<close>, \<open>resolve\<close> is \<^verbatim>\<open>net.ResolveTCPAddr\<close>, and \<open>dialTCP\<close>
  is \<^verbatim>\<open>net.DialTCP\<close>, whose result is what the socket will deliver, how it ends, and how much it takes.
\<close>

section \<open>The address\<close>

text \<open>\<^verbatim>\<open>net.SplitHostPort\<close>: a colon is the byte 58, brackets are 91 and 93.\<close>

definition SplitHostPort :: "bytes \<Rightarrow> (bytes \<times> bytes) res" where
  "SplitHostPort hp =
     (if 58 \<notin> set hp then Inl (Err (Errorf ''missing port in address''))
      else let host = rev (tl (dropWhile (\<lambda>b. b \<noteq> 58) (rev hp))); port = rev (takeWhile (\<lambda>b. b \<noteq> 58) (rev hp))
           in if hd hp = 91
              then (if 93 \<notin> set hp then Inl (Err (Errorf ''missing ']' in address''))
                    else let inner = takeWhile (\<lambda>b. b \<noteq> 93) (tl hp); rest = tl (dropWhile (\<lambda>b. b \<noteq> 93) (tl hp))
                         in if rest = [] then Inl (Err (Errorf ''missing port in address''))
                            else if rest \<noteq> 58 # port
                            then Inl (Err (Errorf (if hd rest = 58 then ''too many colons in address'' else ''missing port in address'')))
                            else if 91 \<in> set (tl hp) then Inl (Err (Errorf ''unexpected '[' in address''))
                            else if 93 \<in> set rest then Inl (Err (Errorf ''unexpected ']' in address''))
                            else Inr (inner, port))
              else if 58 \<in> set host then Inl (Err (Errorf ''too many colons in address''))
              else if 91 \<in> set hp then Inl (Err (Errorf ''unexpected '[' in address''))
              else if 93 \<in> set hp then Inl (Err (Errorf ''unexpected ']' in address''))
              else Inr (host, port))"

definition dial_host ::
    "(bytes \<Rightarrow> bytes list res) \<Rightarrow> (nat \<Rightarrow> nat) \<Rightarrow> (bytes \<Rightarrow> 'a res) \<Rightarrow> ('a \<Rightarrow> 'a \<Rightarrow> (bytes \<times> go_error \<times> nat option) res) \<Rightarrow> bytes \<Rightarrow> Conn res" where
  "dial_host lookup intn resolve dialTCP urlHost =
     bindR (if 58 \<in> set urlHost then bindR (SplitHostPort urlHost) (\<lambda>(host, port). Inr (host, 58 # port)) else Inr (urlHost, gostr '':1935'')) (\<lambda>(host, port).
     bindR (lookup host) (\<lambda>ips.
     bindR (index_at ips (intn (length ips))) (\<lambda>ip.
       let remoteIP = (if 58 \<notin> set ip then ip @ port else ip)
       in bindR (resolve (gostr '':0'')) (\<lambda>local.
          bindR (resolve remoteIP) (\<lambda>remote.
          bindR (dialTCP local remote) (\<lambda>(input, fin, cap). Inr (NewConn input fin cap (4 * 1024))))))))"

section \<open>Client.Dial\<close>

text \<open>
  \<open>mkR\<close> and \<open>mkW\<close> make the \<^verbatim>\<open>VirReader\<close> or \<^verbatim>\<open>VirWriter\<close> on the connection of the client, which get the addresses \<open>ra\<close> and \<open>wa\<close>; \<open>getter\<close> is the optional \<^verbatim>\<open>av.GetWriter\<close>.
\<close>

definition client_Dial ::
    "network \<Rightarrow> ('s, 'm, 'r, 'w) env \<Rightarrow> (ConnClient \<Rightarrow> 'r) \<Rightarrow> (ConnClient \<Rightarrow> 'w) \<Rightarrow> (Info \<Rightarrow> ('s, 'm, 'r, 'w) Streams \<Rightarrow> nat \<times> ('s, 'm, 'r, 'w) Streams) option \<Rightarrow>
     nat \<Rightarrow> nat \<Rightarrow> bytes \<Rightarrow> bytes \<Rightarrow> ('s, 'm, 'r, 'w) Streams \<Rightarrow> (exn option \<times> ('s, 'm, 'r, 'w) Streams) blk" where
  "client_Dial net E mkR mkW getter ra wa url method st =
     (case cc_Start (net_Parse net) (net_Dial net) (net_Range net) url method NewConnClient of
        None \<Rightarrow> None
      | Some (Some (Err e), _) \<Rightarrow> retB (Some (Err e), st)
      | Some (Some e, _) \<Rightarrow> Some (Inl e)
      | Some (None, c) \<Rightarrow>
          if method = gostr ''publish'' then retB (None, HandleWriter E wa (st\<lparr>st_writers := (st_writers st)(wa := mkW c)\<rparr>))
          else if method = gostr ''play''
          then (let st = HandleReader E ra (st\<lparr>st_readers := (st_readers st)(ra := mkR c)\<rparr>)
                in retB (None, case getter of
                     None \<Rightarrow> st
                   | Some g \<Rightarrow> (case g (r_Info (e_r E) (mkR c)) st of (wh, st) \<Rightarrow> HandleWriter E wh st)))
          else retB (None, st))"

section \<open>Addresses of the shapes in use\<close>

lemma SplitHostPort_plain:
  assumes "58 \<notin> set host" and "91 \<notin> set host" and "93 \<notin> set host" and "58 \<notin> set port" and "91 \<notin> set port" and "93 \<notin> set port"
  shows "SplitHostPort (host @ 58 # port) = Inr (host, port)"
proof -
  have t: "takeWhile (\<lambda>b. b \<noteq> 58) (rev port @ 58 # rev host) = rev port" "dropWhile (\<lambda>b. b \<noteq> 58) (rev port @ 58 # rev host) = 58 # rev host"
    using assms(4) by (auto simp: takeWhile_append dropWhile_append)
  have "hd (host @ 58 # port) \<noteq> 91" using assms(2) by (cases host) auto
  with assms t show ?thesis by (simp add: SplitHostPort_def Let_def)
qed

text \<open>A host without a port is dialled at 1935; one with a port there, unless its address is of version 6, to which no port is added.\<close>

lemma dial_host_v4:
  assumes "lookup host = Inr ips" and "intn (length ips) < length ips" and "58 \<notin> set (ips ! intn (length ips))" and "58 \<notin> set host"
    and "resolve (gostr '':0'') = Inr local" and "resolve (ips ! intn (length ips) @ gostr '':1935'') = Inr remote" and "dialTCP local remote = Inr (bs, e, cap)"
  shows "dial_host lookup intn resolve dialTCP host = Inr (NewConn bs e cap 4096)"
  using assms by (simp add: dial_host_def index_at_def)

lemma dial_host_v6:
  assumes "lookup host = Inr ips" and "intn (length ips) < length ips" and "58 \<in> set (ips ! intn (length ips))" and "58 \<notin> set host"
    and "\<exists>a. resolve (gostr '':0'') = Inr a" and "resolve (ips ! intn (length ips)) = Inl e"
  shows "dial_host lookup intn resolve dialTCP host = Inl e"
  using assms by (auto simp: dial_host_def index_at_def)

lemma client_plays_online:
  assumes "stream_env E" and "streams_ok E st" and "cc_Start (net_Parse net) (net_Dial net) (net_Range net) url (gostr ''play'') NewConnClient = Some (None, c)"
  shows "\<exists>st' a. client_Dial net E mkR mkW None ra wa url (gostr ''play'') st = retB (None, st') \<and>
     cm_Get (e_streams E) (Key (r_Info (e_r E) (mkR c))) (st_streams st') = Some a \<and> s_r (st_objs st' ! a) = Some ra"
proof -
  let ?st = "st\<lparr>st_readers := (st_readers st)(ra := mkR c)\<rparr>"
  have "streams_ok E ?st" using assms(2) by (simp add: streams_ok_def)
  from stream_env.HandleReader_online [OF assms(1) this, of ra] assms(3) show ?thesis
    by (auto simp: client_Dial_def Let_def gostr_def)
qed

end
