(* ===== verification/MainServer.thy ===== *)
theory MainServer
  imports ApiServe HttpFlv HlsServer Dial
begin

text \<open>
  \<^verbatim>\<open>src/main.go\<close>: the start of the servers, which share the streams, and \<^verbatim>\<open>Serve\<close> of \<^verbatim>\<open>protocol/rtmp/rtmp.go\<close>.

  \<open>listen\<close> is \<^verbatim>\<open>net.Listen\<close>: whether an address can be listened on. An error makes \<^verbatim>\<open>log.Fatal\<close> end the program, which is the error of the result. The configuration is the
  record \<open>ServerCfg\<close> as the keys are looked up. \<open>rtmpAddr\<close> is the package variable of that name; it is passed from one function to the next.
\<close>

section \<open>Starting the servers\<close>

record ('s, 'm, 'r, 'w, 'h, 'c) livego =
  lg_streams :: "('s, 'm, 'r, 'w) Streams"
  lg_hls :: "'h HlsServer"
  lg_api :: "'c ApiServer option"
  lg_rtmpAddr :: bytes

definition startHls :: "(bytes \<Rightarrow> unit res) \<Rightarrow> (nat, 'h) cmap_ops \<Rightarrow> ServerCfg \<Rightarrow> 'h HlsServer res" where
  "startHls listen cm cfg = bindR (listen (cfg_HLSAddr cfg)) (\<lambda>_. Inr (hls_NewServer cm))"

text \<open>The HTTP-FLV server has no state but the streams.\<close>

definition startHTTPFlv :: "(bytes \<Rightarrow> unit res) \<Rightarrow> ServerCfg \<Rightarrow> unit res" where
  "startHTTPFlv listen cfg = bindR (listen (cfg_HTTPFLVAddr cfg)) (\<lambda>_. Inr ())"

definition startAPI :: "(bytes \<Rightarrow> unit res) \<Rightarrow> bytes \<Rightarrow> 'c \<Rightarrow> ServerCfg \<Rightarrow> 'c ApiServer option res" where
  "startAPI listen rtmpAddr keys cfg =
     (if cfg_APIAddr cfg \<noteq> [] then bindR (listen (cfg_APIAddr cfg)) (\<lambda>_. Inr (Some (api_NewServer rtmpAddr keys))) else Inr None)"

text \<open>The new value of \<^verbatim>\<open>rtmpAddr\<close>; the server then runs in the foreground.\<close>

definition startRtmp :: "(bytes \<Rightarrow> unit res) \<Rightarrow> ServerCfg \<Rightarrow> bytes res" where
  "startRtmp listen cfg = (let rtmpAddr = cfg_RTMPAddr cfg in bindR (listen rtmpAddr) (\<lambda>_. Inr rtmpAddr))"

definition main ::
    "(bytes \<Rightarrow> unit res) \<Rightarrow> (nat, 'h) cmap_ops \<Rightarrow> ('s, 'm, 'r, 'w) env \<Rightarrow> (nat \<Rightarrow> 'r) \<Rightarrow> (nat \<Rightarrow> 'w) \<Rightarrow> 'c \<Rightarrow> ServerCfg \<Rightarrow> ('s, 'm, 'r, 'w, 'h, 'c) livego res" where
  "main listen cm E rs ws keys cfg =
     (let rtmpAddr = []; stream = NewStreams E rs ws
      in bindR (startHls listen cm cfg) (\<lambda>hlsServer.
         bindR (startHTTPFlv listen cfg) (\<lambda>_.
         bindR (startAPI listen rtmpAddr keys cfg) (\<lambda>api.
         bindR (startRtmp listen cfg) (\<lambda>rtmpAddr.
           Inr \<lparr>lg_streams = stream, lg_hls = hlsServer, lg_api = api, lg_rtmpAddr = rtmpAddr\<rparr>)))))"

section \<open>Connections\<close>

text \<open>
  One round of the loop of \<^verbatim>\<open>Serve\<close>: a socket, given by what it will deliver, how it ends and how much it takes, is buffered and handled by a goroutine of its own. The getter is the
  HLS server, which \<^verbatim>\<open>startRtmp\<close> always has.
\<close>

definition rtmp_accept ::
    "(bytes \<Rightarrow> bytes res) \<Rightarrow> (bytes \<Rightarrow> bytes \<Rightarrow> bytes) \<Rightarrow> bytes \<Rightarrow> bytes \<Rightarrow> ('s, 'm, VirReader, 'w) env \<Rightarrow> 'c cache_ops \<Rightarrow> 'c \<Rightarrow>
     ((bytes \<times> amfval) list \<Rightarrow> (bytes \<times> amfval) list) \<Rightarrow> accept_args \<Rightarrow> (VirWriter \<Rightarrow> 'w) \<Rightarrow> (FlvWriter \<Rightarrow> 'w) \<Rightarrow>
     (Info \<Rightarrow> ('s, 'm, 'w) rtmp_streams \<Rightarrow> nat \<times> ('s, 'm, 'w) rtmp_streams) option \<Rightarrow> (Info \<Rightarrow> FlvWriter option res) \<Rightarrow>
     bytes \<times> go_error \<times> nat option \<Rightarrow> ('s, 'm, 'w) rtmp_streams \<Rightarrow> (exn option \<times> ('s, 'm, 'w) rtmp_streams) res" where
  "rtmp_accept urlParse hmac rnd1 rnd2 E ops keys rng ac mkV mkF getter dvr socket st =
     (case socket of (input, fin, cap) \<Rightarrow>
        server_handleConn urlParse hmac rnd1 rnd2 E ops keys rng ac mkV mkF getter dvr (NewConn input fin cap (4 * 1024)) st)"

section \<open>What is started\<close>

lemma main_starts:
  assumes "listen (cfg_HLSAddr cfg) = Inr ()" and "listen (cfg_HTTPFLVAddr cfg) = Inr ()" and "listen (cfg_APIAddr cfg) = Inr ()" and "listen (cfg_RTMPAddr cfg) = Inr ()"
  shows "main listen cm E rs ws keys cfg =
     Inr \<lparr>lg_streams = NewStreams E rs ws, lg_hls = hls_NewServer cm, lg_api = (if cfg_APIAddr cfg = [] then None else Some (api_NewServer [] keys)),
       lg_rtmpAddr = cfg_RTMPAddr cfg\<rparr>"
  using assms by (simp add: main_def startHls_def startHTTPFlv_def startAPI_def startRtmp_def Let_def)

lemma main_api:
  assumes "main listen cm E rs ws keys cfg = Inr sys" and "lg_api sys = Some s"
  shows "s = api_NewServer [] keys \<and> lg_rtmpAddr sys = cfg_RTMPAddr cfg"
  using assms by (auto simp: main_def startHls_def startHTTPFlv_def startAPI_def startRtmp_def Let_def split: if_splits)

lemma main_parts:
  assumes "main listen cm E rs ws keys cfg = Inr sys"
  shows "lg_streams sys = NewStreams E rs ws \<and> lg_hls sys = hls_NewServer cm"
  using assms by (auto simp: main_def startHls_def startHTTPFlv_def startAPI_def startRtmp_def Let_def)

text \<open>The servers start in reachable states, from which the invariants of \<open>RtmpStream\<close>, \<open>HlsServer\<close> and \<open>Api\<close> hold.\<close>

lemma main_reachable:
  assumes "main listen cm E rs ws keys cfg = Inr sys"
  shows "reachable E (lg_streams sys) \<and> hls_reachable cm (lg_hls sys) \<and> (\<forall>s. lg_api sys = Some s \<longrightarrow> api_reachable ops s)"
  using main_parts [OF assms] main_api [OF assms] by (auto intro: reachable.initial hls_reachable.started api_reachable.started)

section \<open>Properties\<close>

text \<open>
  C40: relays of the HTTP interface go to the wrong port. Whatever address the RTMP server is configured to listen on, the interface that \<^verbatim>\<open>main\<close> starts makes its local URLs without a port, since
  \<^verbatim>\<open>startAPI\<close> reads \<^verbatim>\<open>rtmpAddr\<close> before \<^verbatim>\<open>startRtmp\<close> sets it; the client dials port 1935.
\<close>

theorem api_dials_default_port:
  assumes "main listen cm E rs ws keys cfg = Inr sys" and "lg_api sys = Some s"
    and "lookup (gostr ''127.0.0.1'') = Inr [gostr ''127.0.0.1'']" and "intn 1 = 0" and "resolve (gostr '':0'') = Inr local"
    and "resolve (gostr ''127.0.0.1:1935'') = Inr remote" and "dialTCP local remote = Inr (bs, e, cap)"
  shows "local_url s app name = gostr ''rtmp://127.0.0.1/'' @ app @ gostr ''/'' @ name \<and> dial_host lookup intn resolve dialTCP (gostr ''127.0.0.1'') = Inr (NewConn bs e cap 4096)"
proof -
  have "gostr ''127.0.0.1'' @ gostr '':1935'' = gostr ''127.0.0.1:1935''" "58 \<notin> set (gostr ''127.0.0.1'')" by (simp_all add: gostr_def)
  then have "dial_host lookup intn resolve dialTCP (gostr ''127.0.0.1'') = Inr (NewConn bs e cap 4096)"
    using assms(3-7) by (intro dial_host_v4) auto
  moreover have "local_url s app name = gostr ''rtmp://127.0.0.1/'' @ app @ gostr ''/'' @ name"
    using main_api [OF assms(1,2)] by (simp add: local_url_def api_NewServer_def gostr_def)
  ultimately show ?thesis by blast
qed

theorem api_dials_default_port_witness:
  "\<exists>sys s conn. main (\<lambda>_. Inr ()) alist_map script_env (\<lambda>_. (zeroInfo, [])) (\<lambda>_. (zeroInfo, [])) (Map.empty :: bytes \<rightharpoonup> bytes)
       (defaultConf\<lparr>cfg_RTMPAddr := gostr '':1940''\<rparr>) = Inr sys \<and> lg_api sys = Some s \<and> lg_rtmpAddr sys = gostr '':1940'' \<and>
     local_url s (gostr ''live'') (gostr ''movie'') = gostr ''rtmp://127.0.0.1/live/movie'' \<and>
     dial_host (\<lambda>h. Inr [h]) (\<lambda>_. 0) Inr (\<lambda>l r. if r = gostr ''127.0.0.1:1935'' then Inr ([], EOF, None) else Inl (Err NetError)) (gostr ''127.0.0.1'') = Inr conn"
proof -
  let ?cfg = "defaultConf\<lparr>cfg_RTMPAddr := gostr '':1940''\<rparr>" and ?d = "\<lambda>l r. if r = gostr ''127.0.0.1:1935'' then Inr ([], EOF, None) else Inl (Err NetError)"
  let ?sys = "\<lparr>lg_streams = NewStreams script_env (\<lambda>_. (zeroInfo, [])) (\<lambda>_. (zeroInfo, [])), lg_hls = hls_NewServer alist_map,
      lg_api = Some (api_NewServer [] (Map.empty :: bytes \<rightharpoonup> bytes)), lg_rtmpAddr = gostr '':1940''\<rparr>"
  have c: "cfg_APIAddr ?cfg \<noteq> []" "cfg_RTMPAddr ?cfg = gostr '':1940''" by (simp_all add: defaultConf_def gostr_def)
  have m: "main (\<lambda>_. Inr ()) alist_map script_env (\<lambda>_. (zeroInfo, [])) (\<lambda>_. (zeroInfo, [])) Map.empty ?cfg = Inr ?sys"
    using main_starts [of "\<lambda>_. Inr ()" ?cfg] c by simp
  have d: "(\<lambda>_. 0) (1 :: nat) = (0 :: nat)" "?d (gostr '':0'') (gostr ''127.0.0.1:1935'') = Inr ([], EOF, None)" by simp_all
  have "gostr ''rtmp://127.0.0.1/'' @ gostr ''live'' @ gostr ''/'' @ gostr ''movie'' = gostr ''rtmp://127.0.0.1/live/movie''" by (simp add: gostr_def)
  with api_dials_default_port [where intn = "\<lambda>_. 0" and dialTCP = ?d and lookup = "\<lambda>h. Inr [h]" and resolve = Inr and local = "gostr '':0''" and
      remote = "gostr ''127.0.0.1:1935''", OF m _ _ d(1) _ _ d(2), of "api_NewServer [] Map.empty" "gostr ''live''" "gostr ''movie''"] m show ?thesis by auto
qed

end
