(* ===== verification/Spec2Isabelle.thy ===== *)
theory Spec2Isabelle
  imports ChunkWire FlvMuxer RtmpCache HlsSource Amf3Encoder EndToEnd HttpFlv HlsServer Api Accept Uid MainServer
begin

text \<open>
  A verification development for livego, a live streaming server in Go. A publisher connects over RTMP and sends audio and video; the
  server forwards its packets to RTMP players, to HTTP-FLV players, to a segmenter for HLS, to FLV files and to other RTMP servers.

  \<^bold>\<open>How the program is put together, and where it is modelled.\<close>

  \<^descr>[Transport.] A connection is a buffered reader and writer with sticky errors (\<open>ReadWriter\<close>, of
  \<^verbatim>\<open>protocol/rtmp/core/read_writer.go\<close>). It opens with a handshake of fixed length (\<open>Handshake\<close>, of \<^verbatim>\<open>handshake.go\<close>). Then
  messages are cut into chunks (\<open>ChunkStream\<close>, of \<^verbatim>\<open>chunk_stream.go\<close>), read and written by a connection with a table of
  unfinished messages, chunk sizes and acknowledgements (\<open>Conn\<close>, of \<^verbatim>\<open>conn.go\<close>), in buffers of a pool (\<open>Pool\<close>, of
  \<^verbatim>\<open>utils/pool\<close>). \<open>ChunkWire\<close> has the wire format as a specification. \<open>Pio\<close> models the integer routines of \<^verbatim>\<open>utils/pio\<close>.

  \<^descr>[Commands.] Commands are batches of AMF values: \<open>Amf\<close>, \<open>Amf3Decoder\<close>, \<open>Amf3Encoder\<close> and \<open>Amf0\<close> model \<^verbatim>\<open>protocol/amf\<close>. \<open>ConnServer\<close> models
  the server side of the exchange (\<^verbatim>\<open>conn_server.go\<close>), \<open>ConnClient\<close> the client side (\<^verbatim>\<open>conn_client.go\<close>) and \<open>Dial\<close> the address that a client dials.

  \<^descr>[Packets.] \<open>Av\<close> has the packet and the bookkeeping of \<^verbatim>\<open>av\<close>, \<open>FlvTag\<close> the media tag header and the demuxer of
  \<^verbatim>\<open>container/flv\<close>, \<open>FlvMuxer\<close> the writer of FLV files. \<open>Queue\<close> is the channel of packets before a player, with the three
  ways in which a full one is thinned out. \<open>Uid\<close> has the identifiers of readers and writers and the room keys (\<^verbatim>\<open>utils/uid\<close>).

  \<^descr>[Server.] \<open>RtmpServer\<close> models the publishers and players of \<^verbatim>\<open>protocol/rtmp/rtmp.go\<close> and what a new connection is; \<open>Accept\<close> the life of a connection from its first byte to its
  registration with the streams, the recorder that a publisher gets and the check that notices that a player is gone;
  \<open>Configure\<close> the room keys, the applications and the configuration (\<^verbatim>\<open>configure\<close>). \<open>RtmpCache\<close> models what a new player is sent
  (\<^verbatim>\<open>protocol/rtmp/cache\<close>), \<open>RtmpStream\<close> the streams (\<^verbatim>\<open>stream.go\<close>) as a state machine, \<open>StreamRounds\<close> shows what it does for publishers and players, and \<open>EndToEnd\<close> follows the
  media from one connection to the other.

  \<^descr>[Relays.] \<open>StaticPush\<close> models the relays of an application to configured servers (\<^verbatim>\<open>rtmprelay/staticrelay.go\<close>), \<open>Relay\<close> those that the HTTP interface starts (\<^verbatim>\<open>rtmprelay.go\<close>), as
  two goroutines that run in any order.

  \<^descr>[HLS.] \<open>Codecs\<close> models the parsers of \<^verbatim>\<open>parser\<close>, \<open>Crc32\<close> and \<open>TsMuxer\<close> the transport stream of \<^verbatim>\<open>container/ts\<close>, \<open>Hls\<close> the
  clock, caches and playlist of \<^verbatim>\<open>protocol/hls\<close>, \<open>HlsSource\<close> the segmenter of \<^verbatim>\<open>source.go\<close>, and \<open>HlsServer\<close> the sources of all streams and the requests (\<^verbatim>\<open>hls.go\<close>).

  \<^descr>[HTTP.] \<open>HttpFlv\<close> models the players over HTTP (\<^verbatim>\<open>protocol/httpflv\<close>), \<open>Api\<close> the requests that start and stop relays, manage rooms and list streams, and \<open>ApiServe\<close> the routes, the
  tokens and the answers of that interface (\<^verbatim>\<open>protocol/api\<close>). \<open>Paths\<close>, \<open>Base64\<close> and \<open>Json\<close> have what they use of the standard library. \<open>MainServer\<close> models the start of all servers (\<^verbatim>\<open>main.go\<close>).

  \<open>Prelude\<close> has what all share: machine words, slices with bounds checks, and the outcomes of a call. A call that can fail gives an
  \<open>exn\<close>: a returned error (\<open>Err\<close>), a run-time panic by its cause (\<open>Panic\<close>), or exhausted fuel (\<open>OutOfFuel\<close>, shown not to happen). A call
  that can block gives an option, and \<open>None\<close> says that it waits for good.

  \<^bold>\<open>What is shown.\<close>

  \<^item> The whole way: packets that a publisher writes come out of the connection of a player (\<open>media_end_to_end\<close>); a client that shakes hands and sends the right commands becomes a
  publisher with HLS and a recording (\<open>publisher_online\<close>).
  \<^item> Messages and commands survive the wire: messages written by one side are read by the other, in order, with changing chunk
  sizes and interleaved chunks (\<open>messages_roundtrip\<close>, \<open>interleaved_messages\<close>); the two handshakes meet
  (\<open>handshakes_meet\<close>, \<open>handshake_server\<close>); AMF0 batches and AMF3 values decode to what was encoded, and decoding any input ends
  (\<open>amf0_batch_roundtrip\<close>, \<open>amf3_roundtrip\<close>, \<open>amf_decode_total\<close>).
  \<^item> A connection gets the role and the channel that its commands and the configuration give it (\<open>connection_roles\<close>, \<open>room_keys\<close>), a
  client completes its commands against a server that answers (\<open>client_publishes\<close>), and the writer of a player that is gone is closed (\<open>player_gone\<close>).
  \<^item> Streams: consistency of all reachable states (\<open>streams_invariant\<close>), what a player receives (\<open>player_gets_stream\<close>), and the
  change of the publisher (\<open>publisher_takeover\<close>).
  \<^item> Relays forward the media in order in every interleaving, and can be stopped (\<open>relay_forwards\<close>, \<open>relay_in_order\<close>, \<open>api_stop_answered\<close>).
  \<^item> HLS: segments are whole in every state of the segmenter and of the server, a player can fetch what the playlist lists (\<open>hls_segments_whole\<close>, \<open>hls_server_invariant\<close>,
  \<open>hls_player_fetches\<close>, \<open>ts_cache_is_window\<close>).
  \<^item> HTTP: who is admitted as a player and what it is sent (\<open>flv_player_admitted\<close>, \<open>http_flv_is_file\<close>), and that every answer of the interface is JSON of one form
  (\<open>api_answers_typed\<close>, \<open>livestat_readable\<close>).
  \<^item> Bounded memory: buffers of the pool do not overlap, queues stay within their bound without blocking (\<open>pool_regions_disjoint\<close>, \<open>queue_never_blocks\<close>).
  \<^item> Formats: FLV tags and files, Annex B, ADTS, transport packets, program tables, checksums and time stamps, each against a
  specification of the format.
  \<^item> Errors: which inputs are rejected and which panic or block the server, among them the ones that a remote peer controls.

  \<^bold>\<open>Interfaces.\<close> Where a component relies on another behind an interface there is a locale, interpreted on the component's own
  definitions: \<open>fixed_width\<close> (integers in slices), \<open>room_cache\<close> (the key store), \<open>concurrent_map\<close>, \<open>stream_env\<close> and \<open>publisher_env\<close>
  (the maps, readers and writers of streams), \<open>packet_queue\<close> (the queues), \<open>hls_conns\<close> (the sources of the HLS server) and \<open>byte_sink\<close> (writers of bytes).

  \<^bold>\<open>Bounds and fuel.\<close> The AMF decoders recurse on a depth; the length of the input bounds it, since each level costs a byte, and
  \<open>amf_decode_total\<close> shows that it is never exhausted. Loops that read messages terminate because every message costs input. The one
  loop that may not end, that of \<^verbatim>\<open>writeCreateStreamMsg\<close>, is a partial function. The reader of JSON, a specification, has fuel of twice the length of the text, of which every level costs a
  character. Counters, chunk sizes and time stamps are words of
  their width; \<open>int\<close> values that cannot overflow are integers or naturals.

  \<^bold>\<open>Concurrency.\<close> The goroutines of a stream interleave at the granularity of one call of \<^verbatim>\<open>HandleReader\<close> or \<^verbatim>\<open>HandleWriter\<close>, one
  check, and one round of forwarding; within such a step nothing else runs. The queue between a stream and a player is modelled from
  the side of the stream; its player takes the packets afterwards.

  \<^bold>\<open>Not modelled.\<close> Sockets, timers, files and directories, logging, and the reading of flags, files and environment into the configuration; third-party
  packages (the concurrent map, the key cache, viper, the checking of JWTs, redis, UUIDs) are parameters where the code relies on them. Data races on plain fields are outside the steps of
  the model, such as those on the sessions of the HTTP interface, which its handlers share without a lock, and the change of the data of a packet by the writers that reform metadata
  while other players have the same packet in their queues. Methods that only forward to \<^verbatim>\<open>net.Conn\<close>, and functions that only print, have no counterpart.
\<close>

section \<open>The way of the media through the server\<close>

text \<open>
  C1: what a publisher sends, a player gets. A publisher writes audio and video packets to its connection, whose bytes reach the reader of the server; the rounds of the stream take them
  from there into the queue of a player that keeps up, and the goroutine of the player sends them. Then whoever reads the connection of the player reads
  exactly these packets, in order, with the same kinds, headers and data, and with time stamps shifted by the bases of the two writers, and nothing behind them is consumed. The chunk
  sizes of the two connections may differ, and other players do not matter.
\<close>

theorem media_end_to_end:
  assumes "playing (rtmp_env urlParse gop apps net) st i hist ra" and "player (rtmp_env urlParse gop apps net) st i key v" and "pw_init v"
    and pub: "vw_ok pub" "vw_SendPackets (zip tp ps) False pub = (None, pub')" "vw_stream pub' = vw_stream pub @ bs"
    and "vr_ok (vw_k pub) (bs @ rest) (st_readers st ra)"
    and w: "w = st_writers st (pw_w v)" "keeps_up (length ps) w" "vw_ok w" and "vr_ok (vw_k w) [] r"
    and ps: "list_all media_packet ps" and t: "list_all clock (tp @ tr @ tw @ tc)" and len: "\<forall>t \<in> set [tp, tr, tw, tc]. length t = length ps"
    and qs: "qs = map (shifted (BaseTimestamp (vw_rw pub))) ps" and base: "base = BaseTimestamp (vw_rw pub) + BaseTimestamp (vw_rw w)"
  shows "\<exists>st' w' bs'. TransStart_rounds (rtmp_env urlParse gop apps net) tr i st = retB st' \<and> st_writers st' (pw_w v) = queued qs w \<and>
     vw_SendPackets (zip tw qs) False (queued qs w) = (None, w') \<and> vw_stream w' = vw_stream w @ bs' \<and>
     (\<exists>r'. vr_Reads tc p0 (deliver (bs' @ rest') r) = (None, map (shifted base) ps, r') \<and> cs_input (vr_conn r') = rest')"
proof -
  let ?a = "BaseTimestamp (vw_rw pub)" and ?b = "BaseTimestamp (vw_rw w)"
  have l: "length tp = length ps" "length tr = length ps" "length tw = length qs" "length tc = length qs"
      "list_all clock tp" "list_all clock tr" "list_all clock tw" "list_all clock tc"
    using len t by (simp_all add: qs)
  have "bs = packets_bytes (vw_k pub) ?a ps"
    using vw_SendPackets_media [OF pub(1), of "zip tp ps"] pub(2,3) ps l by (auto simp: map_fst_zip map_snd_zip)
  then obtain st' where st': "TransStart_rounds (rtmp_env urlParse gop apps net) tr i st = retB st'" "st_writers st' (pw_w v) = queued qs w"
    using publisher_to_queue [OF assms(1-3) ps l(6,2), of "vw_k pub" ?a rest] assms(7) w by (auto simp: qs)
  have q: "vw_ok (queued qs w)" "vw_k (queued qs w) = vw_k w" "vw_stream (queued qs w) = vw_stream w" "vw_rw (queued qs w) = vw_rw w"
    using w(3) by (simp_all add: queued_def vw_ok_def vw_k_def vw_stream_def)
  have "list_all media_packet qs" using ps unfolding qs by (rule media_all_shifted)
  from queue_to_player [OF q(1) this l(7,3,8,4), of r p0] assms(11) st' show ?thesis
    unfolding q base by (fastforce simp: qs comp_def)
qed

theorem media_end_to_end_witness:
  "\<exists>bs st' w' bs' r'. TransStart_rounds demo_rtmp [0] 0 (demo_playing bs) = retB st' \<and> vw_SendPackets [(0, sample_media)] False (st_writers st' 0) = (None, w') \<and>
     vr_Reads [0] sample_media (deliver (bs' @ [9]) (NewVirReader 0 10 [] sample_conn)) = (None, [sample_media], r') \<and> cs_input (vr_conn r') = [9]"
proof -
  let ?w = "NewVirWriter 0 10 [] sample_conn" and ?r = "NewVirReader 0 10 [] sample_conn" and ?v = "\<lparr>pw_init = True, pw_w = 0\<rparr>"
  obtain pub bs where pub: "vw_SendPackets (zip [0] [sample_media]) False ?w = (None, pub)" "vw_stream pub = vw_stream ?w @ bs"
    using vw_SendPackets_media [OF sample_writer(1), of "[(0, sample_media)]"] sample_media_packet by (auto simp: clock_def)
  have r: "vr_ok (vw_k ?w) (bs @ []) (st_readers (demo_playing bs) 0)"
    using deliver_ok [OF sample_reader, of bs] by (simp add: sample_writer(2) demo_playing(3))
  have w: "?w = st_writers (demo_playing bs) (pw_w ?v)" by (simp add: demo_playing(4))
  have r2: "vr_ok (vw_k ?w) [] ?r" using sample_reader by (simp add: sample_writer(2))
  have q: "[sample_media] = map (shifted (BaseTimestamp (vw_rw ?w))) [sample_media]" "0 = BaseTimestamp (vw_rw ?w) + BaseTimestamp (vw_rw ?w)"
    by (simp_all add: sample_writer(3))
  have t: "list_all clock ([0] @ [0] @ [0] @ [0])" "\<forall>t \<in> set [[0], [0], [0], [0 :: int]]. length t = length [sample_media]" "list_all media_packet [sample_media]"
    by (simp_all add: clock_def sample_media_packet)
  have i: "pw_init ?v" "length [sample_media] \<le> 1000" by simp_all
  from media_end_to_end [OF demo_playing(1,2) [unfolded demo_rtmp_def] i(1) sample_writer(1) pub r w new_writer_keeps_up [OF i(2)] sample_writer(1) r2 t(3,1,2) q,
      of sample_media "[9]", folded demo_rtmp_def]
  obtain st' w' bs' r' where "TransStart_rounds demo_rtmp [0] 0 (demo_playing bs) = retB st'" "st_writers st' 0 = queued [sample_media] ?w"
      "vw_SendPackets [(0, sample_media)] False (queued [sample_media] ?w) = (None, w')"
      "vr_Reads [0] sample_media (deliver (bs' @ [9]) ?r) = (None, [sample_media], r')" "cs_input (vr_conn r') = [9]"
    by (simp add: w [symmetric]) blast
  then show ?thesis by metis
qed

end
